(* ===== verification/Prelude.thy ===== *)
theory Prelude
  imports Main "HOL-Library.Signed_Division" "HOL-Library.Char_ord" "HOL-Library.List_Lexorder"
begin

text \<open>
  Shared material of the development: the result type of fallible C++ functions, the
  64-bit ranges, decimal printing (\<^verbatim>\<open>std::to_string\<close>), strings as byte lists in the
  order \<^verbatim>\<open>std::string::operator<\<close> uses, \<^verbatim>\<open>std::map\<close> as a key-sorted association list,
  and the theory of prefix codes that the canonical (collision-free) renderings rest on.
\<close>

section \<open>Collections\<close>

named_theorems result_simps \<open>unfolding of the result combinators\<close>
named_theorems code_defs \<open>definitions of operations, for unfolding in component proofs\<close>

section \<open>Results\<close>

text \<open>
  \<^verbatim>\<open>llvm::Expected<T>\<close> is \<open>'e + 'a\<close> (\<open>Inl\<close> the error), \<^verbatim>\<open>llvm::Error\<close> is \<open>'e option\<close>
  (\<open>None\<close> is success). Error texts are values of a datatype per component.
\<close>

type_synonym ('e, 'a) expected = "'e + 'a"

fun bindR :: "('e, 'a) expected \<Rightarrow> ('a \<Rightarrow> ('e, 'b) expected) \<Rightarrow> ('e, 'b) expected" where
  "bindR (Inl e) f = Inl e"
| "bindR (Inr a) f = f a"

lemma bindR_Inr_iff [simp]: "bindR r f = Inr b \<longleftrightarrow> (\<exists>a. r = Inr a \<and> f a = Inr b)"
  by (cases r) auto

lemma bindR_Inl_iff: "bindR r f = Inl e \<longleftrightarrow> r = Inl e \<or> (\<exists>a. r = Inr a \<and> f a = Inl e)"
  by (cases r) auto

lemma bindR_Inr [simp]: "bindR r Inr = r"
  by (cases r) auto

text \<open>The first error of a sequence of checks, as consecutive early returns give it.\<close>

fun first_error :: "('a \<Rightarrow> 'e option) \<Rightarrow> 'a list \<Rightarrow> 'e option" where
  "first_error f [] = None"
| "first_error f (x # xs) = (case f x of Some e \<Rightarrow> Some e | None \<Rightarrow> first_error f xs)"

lemma first_error_None [simp]: "first_error f xs = None \<longleftrightarrow> (\<forall>x \<in> set xs. f x = None)"
  by (induction xs) (auto split: option.splits)

lemma first_error_Some: "first_error f xs = Some e \<Longrightarrow> \<exists>x \<in> set xs. f x = Some e"
  by (induction xs) (auto split: option.splits)

lemma first_error_cong [fundef_cong]:
  "xs = ys \<Longrightarrow> (\<And>x. x \<in> set ys \<Longrightarrow> f x = g x) \<Longrightarrow> first_error f xs = first_error g ys"
  by (induction xs arbitrary: ys) (auto split: option.splits)

text \<open>Sequential composition of two checks.\<close>

fun orElse :: "'e option \<Rightarrow> 'e option \<Rightarrow> 'e option" where
  "orElse (Some e) _ = Some e"
| "orElse None r = r"

lemma orElse_None [simp]: "orElse a b = None \<longleftrightarrow> a = None \<and> b = None"
  by (cases a) auto

section \<open>Machine integers\<close>

text \<open>
  \<^verbatim>\<open>int64_t\<close> values are integers in \<open>[int64_min, int64_max]\<close>, \<^verbatim>\<open>uint64_t\<close> and \<^verbatim>\<open>uint32_t\<close>
  values are naturals below \<open>2 ^ 64\<close> and \<open>2 ^ 32\<close>. Where the source checks for or relies on the
  range, the model writes the range out; C++ division and remainder truncate, so they are
  \<open>sdiv\<close> and \<open>smod\<close>, never \<open>div\<close> and \<open>mod\<close>.
\<close>

definition int64_max :: int where "int64_max = 9223372036854775807"
definition int64_min :: int where "int64_min = - 9223372036854775808"
definition in_int64 :: "int \<Rightarrow> bool" where "in_int64 v \<longleftrightarrow> int64_min \<le> v \<and> v \<le> int64_max"
definition uint64_max :: nat where "uint64_max = 18446744073709551615"
definition uint32_max :: nat where "uint32_max = 4294967295"

definition wrap64 :: "nat \<Rightarrow> nat" where "wrap64 n = n mod 18446744073709551616"

lemma wrap64_id [simp]: "n \<le> uint64_max \<Longrightarrow> wrap64 n = n"
  by (simp add: wrap64_def uint64_max_def)

lemma wrap64_bound: "wrap64 n \<le> uint64_max"
  unfolding wrap64_def uint64_max_def by arith

lemma smod_nonneg_pos: "0 \<le> (a::int) \<Longrightarrow> 0 < b \<Longrightarrow> a smod b = a mod b"
  by (cases "a = 0") (auto simp: signed_modulo_int_def signed_divide_int_def minus_mult_div_eq_mod algebra_simps)

lemma sdiv_nonneg_pos: "0 \<le> (a::int) \<Longrightarrow> 0 < b \<Longrightarrow> a sdiv b = a div b"
  by (cases "a = 0") (auto simp: signed_divide_int_def)

lemma smod_eq_0_iff_dvd: "0 < b \<Longrightarrow> (a::int) smod b = 0 \<longleftrightarrow> b dvd a"
proof (cases "a < 0")
  case True
  assume b: "0 < b"
  have "a smod b = - ((- a) mod b)"
    using True b by (simp add: signed_modulo_int_def signed_divide_int_def minus_mult_div_eq_mod [symmetric] algebra_simps)
  then show ?thesis by (simp add: dvd_eq_mod_eq_0 [symmetric])
next
  case False
  assume "0 < b"
  with False show ?thesis by (simp add: smod_nonneg_pos dvd_eq_mod_eq_0)
qed

section \<open>Decimal printing\<close>

text \<open>\<^verbatim>\<open>std::to_string\<close> on unsigned and signed integers, and the digit reader of
  \<^verbatim>\<open>std::stoll\<close> on a string of digits.\<close>

definition digit_char :: "nat \<Rightarrow> char" where "digit_char d = char_of (48 + d)"

definition is_digit :: "char \<Rightarrow> bool" where
  "is_digit c \<longleftrightarrow> 48 \<le> (of_char c :: nat) \<and> (of_char c :: nat) \<le> 57"

fun nat_to_string :: "nat \<Rightarrow> string" where
  "nat_to_string n =
     (if n < 10 then [digit_char n] else nat_to_string (n div 10) @ [digit_char (n mod 10)])"

declare nat_to_string.simps [simp del]

definition int_to_string :: "int \<Rightarrow> string" where
  "int_to_string i = (if i < 0 then CHR ''-'' # nat_to_string (nat (- i)) else nat_to_string (nat i))"

definition digit_val :: "char \<Rightarrow> nat" where "digit_val c = of_char c - 48"

definition digits_val :: "string \<Rightarrow> nat" where
  "digits_val s = foldl (\<lambda>acc c. 10 * acc + digit_val c) 0 s"

lemma digit_val_digit_char [simp]: "d < 10 \<Longrightarrow> digit_val (digit_char d) = d"
  by (simp add: digit_val_def digit_char_def of_char_of)

lemma is_digit_digit_char [simp]: "d < 10 \<Longrightarrow> is_digit (digit_char d)"
  by (simp add: is_digit_def digit_char_def of_char_of)

lemma digits_val_snoc [simp]: "digits_val (s @ [c]) = 10 * digits_val s + digit_val c"
  by (simp add: digits_val_def)

lemma digits_val_single [simp]: "digits_val [c] = digit_val c"
  by (simp add: digits_val_def)

lemma digits_val_nat_to_string [simp]: "digits_val (nat_to_string n) = n"
proof (induction n rule: nat_to_string.induct)
  case (1 n)
  then show ?case by (subst nat_to_string.simps) auto
qed

lemma nat_to_string_digits: "c \<in> set (nat_to_string n) \<Longrightarrow> is_digit c"
proof (induction n rule: nat_to_string.induct)
  case (1 n)
  then show ?case by (subst (asm) (2) nat_to_string.simps) (auto split: if_splits)
qed

lemma nat_to_string_nonempty [simp]: "nat_to_string n \<noteq> []"
  by (subst nat_to_string.simps) simp

lemma nat_to_string_inj [simp]: "nat_to_string m = nat_to_string n \<longleftrightarrow> m = n"
  by (metis digits_val_nat_to_string)

definition is_int_char :: "char \<Rightarrow> bool" where "is_int_char c \<longleftrightarrow> is_digit c \<or> c = CHR ''-''"

lemma int_to_string_chars: "c \<in> set (int_to_string i) \<Longrightarrow> is_int_char c"
  by (auto simp: int_to_string_def is_int_char_def dest: nat_to_string_digits split: if_splits)

lemma not_digit_minus: "\<not> is_digit (CHR ''-'')"
  by (simp add: is_digit_def)

lemma int_to_string_inj [simp]: "int_to_string i = int_to_string j \<longleftrightarrow> i = j"
proof
  assume eq: "int_to_string i = int_to_string j"
  have no_minus: "nat_to_string n \<noteq> CHR ''-'' # s" for n s
    using nat_to_string_digits [of "CHR ''-''" n] not_digit_minus by auto
  from eq show "i = j"
    by (auto simp: int_to_string_def no_minus no_minus [symmetric] split: if_splits)
qed simp

lemma int_to_string_nonempty [simp]: "int_to_string i \<noteq> []"
  by (simp add: int_to_string_def)

section \<open>Prefix codes\<close>

text \<open>
  A rendering is a prefix code when no rendering is a proper prefix of another, so that a
  concatenation of renderings can be taken apart in one way only. Every canonical string of
  the program (shape contracts, expressions, candidate bindings) is a concatenation of such
  renderings, and this is what makes it collision free.
\<close>

locale prefix_code =
  fixes enc :: "'a \<Rightarrow> string"
  assumes uniq: "enc a @ r = enc b @ s \<Longrightarrow> a = b \<and> r = s"
begin

lemma enc_inj: "enc a = enc b \<Longrightarrow> a = b"
  using uniq [of a "[]" b "[]"] by simp

lemma concat_uniq:
  "length xs = length ys \<Longrightarrow> concat (map enc xs) @ r = concat (map enc ys) @ s \<Longrightarrow> xs = ys \<and> r = s"
proof (induction xs ys rule: list_induct2)
  case Nil
  then show ?case by simp
next
  case (Cons x xs y ys)
  then have "enc x @ concat (map enc xs) @ r = enc y @ concat (map enc ys) @ s" by simp
  then have "x = y" and "concat (map enc xs) @ r = concat (map enc ys) @ s"
    using uniq by blast+
  with Cons.IH show ?case by simp
qed

end

text \<open>Text up to a delimiter that the text itself cannot contain.\<close>

lemma delimited_uniq:
  assumes "\<And>x. x \<in> set xs \<Longrightarrow> P x" and "\<And>x. x \<in> set ys \<Longrightarrow> P x" and "\<not> P c" and "\<not> P d"
    and "xs @ c # r = ys @ d # s"
  shows "xs = ys \<and> c = d \<and> r = s"
  using assms
proof (induction xs arbitrary: ys)
  case Nil
  then show ?case by (cases ys) auto
next
  case (Cons x xs)
  then obtain ys' where "ys = x # ys'" by (cases ys) auto
  with Cons show ?case by auto
qed

text \<open>The same for text that may also end at the end of the input.\<close>

lemma until_uniq:
  assumes "\<And>x. x \<in> set xs \<Longrightarrow> P x" and "\<And>x. x \<in> set ys \<Longrightarrow> P x"
    and "r = [] \<or> \<not> P (hd r)" and "s = [] \<or> \<not> P (hd s)" and "xs @ r = ys @ s"
  shows "xs = ys \<and> r = s"
  using assms
proof (induction xs arbitrary: ys)
  case Nil
  then show ?case by (cases ys) auto
next
  case (Cons x xs)
  show ?case
  proof (cases ys)
    case Nil
    then show ?thesis using Cons.prems by auto
  next
    case (Cons y ys')
    then show ?thesis using Cons.IH [of ys'] Cons.prems by auto
  qed
qed

lemma int_delimited_uniq:
  assumes "int_to_string i @ c # r = int_to_string j @ d # s"
    and "\<not> is_int_char c" and "\<not> is_int_char d"
  shows "i = j \<and> c = d \<and> r = s"
  using delimited_uniq [of "int_to_string i" is_int_char "int_to_string j" c d r s] assms
  by (auto dest: int_to_string_chars)

lemma nat_delimited_uniq:
  assumes "nat_to_string i @ c # r = nat_to_string j @ d # s"
    and "\<not> is_digit c" and "\<not> is_digit d"
  shows "i = j \<and> c = d \<and> r = s"
  using delimited_uniq [of "nat_to_string i" is_digit "nat_to_string j" c d r s] assms
  by (auto dest: nat_to_string_digits)

lemma is_int_char_punct [simp]:
  "\<not> is_int_char (CHR '';'')" "\<not> is_int_char (CHR '':'')" "\<not> is_int_char (CHR '','')"
  "\<not> is_int_char (CHR '')'')" "\<not> is_digit (CHR '':'')" "\<not> is_digit (CHR '';'')"
  by (simp_all add: is_int_char_def is_digit_def)

text \<open>A string behind its own length: \<open>size:bytes\<close>.\<close>

definition sized :: "string \<Rightarrow> string" where
  "sized s = nat_to_string (length s) @ CHR '':'' # s"

interpretation sized: prefix_code sized
proof
  fix a r b s assume "sized a @ r = sized b @ s"
  then have eq: "nat_to_string (length a) @ CHR '':'' # (a @ r) = nat_to_string (length b) @ CHR '':'' # (b @ s)"
    by (simp add: sized_def)
  then have "length a = length b" and "a @ r = b @ s"
    using nat_delimited_uniq [OF eq] by auto
  then show "a = b \<and> r = s" by (metis append_eq_append_conv)
qed

section \<open>Ordered maps\<close>

text \<open>
  \<^verbatim>\<open>std::map\<close> iterates in key order, and the program's canonical renderings depend on it. It
  is an association list with strictly increasing keys. \<open>smap_insert\<close> is \<^verbatim>\<open>insert\<close> /
  \<^verbatim>\<open>emplace\<close> / \<^verbatim>\<open>try_emplace\<close> (an existing entry stays), \<open>smap_assign\<close> is \<^verbatim>\<open>m[k] = v\<close>,
  \<open>map_of\<close> is \<^verbatim>\<open>find\<close>.
\<close>

type_synonym ('k, 'v) smap = "('k \<times> 'v) list"

definition smap_ok :: "('k::linorder, 'v) smap \<Rightarrow> bool" where
  "smap_ok m \<longleftrightarrow> sorted_wrt (<) (map fst m)"

fun smap_insert :: "'k::linorder \<Rightarrow> 'v \<Rightarrow> ('k, 'v) smap \<Rightarrow> ('k, 'v) smap" where
  "smap_insert k v [] = [(k, v)]"
| "smap_insert k v ((k', v') # m) =
     (if k < k' then (k, v) # (k', v') # m
      else if k = k' then (k', v') # m
      else (k', v') # smap_insert k v m)"

fun smap_assign :: "'k::linorder \<Rightarrow> 'v \<Rightarrow> ('k, 'v) smap \<Rightarrow> ('k, 'v) smap" where
  "smap_assign k v [] = [(k, v)]"
| "smap_assign k v ((k', v') # m) =
     (if k < k' then (k, v) # (k', v') # m
      else if k = k' then (k', v) # m
      else (k', v') # smap_assign k v m)"

text \<open>What the clients of a map rely on.\<close>

locale std_map =
  fixes empty :: "'m"
    and insert :: "'k \<Rightarrow> 'v \<Rightarrow> 'm \<Rightarrow> 'm"
    and assign :: "'k \<Rightarrow> 'v \<Rightarrow> 'm \<Rightarrow> 'm"
    and find :: "'m \<Rightarrow> 'k \<Rightarrow> 'v option"
    and ok :: "'m \<Rightarrow> bool"
  assumes ok_empty: "ok empty"
    and find_empty: "find empty k = None"
    and ok_insert: "ok m \<Longrightarrow> ok (insert k v m)"
    and ok_assign: "ok m \<Longrightarrow> ok (assign k v m)"
    and find_insert: "ok m \<Longrightarrow>
      find (insert k v m) = (case find m k of None \<Rightarrow> (find m)(k \<mapsto> v) | Some _ \<Rightarrow> find m)"
    and find_assign: "ok m \<Longrightarrow> find (assign k v m) = (find m)(k \<mapsto> v)"
    and extensional: "ok m \<Longrightarrow> ok m' \<Longrightarrow> find m = find m' \<Longrightarrow> m = m'"
begin

definition insert_all :: "('k \<times> 'v) list \<Rightarrow> 'm \<Rightarrow> 'm" where
  "insert_all kvs m = fold (\<lambda>(k, v). insert k v) kvs m"

lemma ok_insert_all: "ok m \<Longrightarrow> ok (insert_all kvs m)"
  unfolding insert_all_def by (induction kvs arbitrary: m) (auto simp: ok_insert)

lemma find_insert_all: "ok m \<Longrightarrow> find (insert_all kvs m) = map_of kvs ++ find m"
  unfolding insert_all_def
proof (induction kvs arbitrary: m)
  case Nil
  then show ?case by simp
next
  case (Cons kv kvs)
  obtain k v where kv: "kv = (k, v)" by (cases kv)
  have "find (fold (\<lambda>(k, v). insert k v) kvs (insert k v m)) = map_of kvs ++ find (insert k v m)"
    using Cons by (simp add: ok_insert)
  moreover have "map_of kvs ++ find (insert k v m) = map_of ((k, v) # kvs) ++ find m"
    using Cons.prems by (auto simp: find_insert fun_eq_iff map_add_def split: option.splits)
  ultimately show ?case by (simp add: kv fun_upd_def)
qed

lemma find_insert_present: "ok m \<Longrightarrow> find m k = Some w \<Longrightarrow> insert k v m = m"
  by (rule extensional) (auto simp: ok_insert find_insert)

end

lemma smap_insert_keys: "fst ` set (smap_insert k v m) = insert k (fst ` set m)"
  by (induction k v m rule: smap_insert.induct) auto

lemma smap_assign_keys: "fst ` set (smap_assign k v m) = insert k (fst ` set m)"
  by (induction k v m rule: smap_assign.induct) auto

lemma smap_ok_Cons [simp]: "smap_ok (kv # m) \<longleftrightarrow> (\<forall>k \<in> fst ` set m. fst kv < k) \<and> smap_ok m"
  by (auto simp: smap_ok_def)

lemma smap_ok_Nil [simp]: "smap_ok []"
  by (simp add: smap_ok_def)

lemma smap_ok_distinct: "smap_ok m \<Longrightarrow> distinct (map fst m)"
  by (induction m) (auto simp: image_iff)

lemma smap_find_iff: "smap_ok m \<Longrightarrow> map_of m k = Some v \<longleftrightarrow> (k, v) \<in> set m"
  by (simp add: smap_ok_distinct)

lemma smap_ok_insert: "smap_ok m \<Longrightarrow> smap_ok (smap_insert k v m)"
  by (induction k v m rule: smap_insert.induct) (auto simp: smap_insert_keys)

lemma smap_ok_assign: "smap_ok m \<Longrightarrow> smap_ok (smap_assign k v m)"
  by (induction k v m rule: smap_assign.induct) (auto simp: smap_assign_keys)

lemma map_of_below: "\<forall>k' \<in> fst ` set m. k < k' \<Longrightarrow> map_of m (k::'k::linorder) = None"
  by (auto simp: map_of_eq_None_iff)

lemma smap_extensional: "smap_ok m \<Longrightarrow> smap_ok m' \<Longrightarrow> map_of m = map_of m' \<Longrightarrow> m = m'"
proof (induction m arbitrary: m')
  case Nil
  then show ?case by (cases m') (auto simp: fun_eq_iff split: if_splits)
next
  case (Cons kv m)
  obtain k v where kv: "kv = (k, v)" by (cases kv)
  have keys: "fst ` set (kv # m) = fst ` set m'"
    using Cons.prems(3) by (metis dom_map_of_conv_image_fst)
  then obtain k' v' n where m': "m' = (k', v') # n" by (cases m') auto
  have "k' \<in> fst ` set (kv # m)" "k \<in> fst ` set m'" using keys m' kv by auto
  then have kk: "k' = k" using Cons.prems(1,2) m' kv by force
  have pointwise: "map_of ((k, v) # m) x = map_of ((k', v') # n) x" for x
    using fun_cong [OF Cons.prems(3), of x] m' kv by simp
  from pointwise [of k] have "v' = v" using kk by simp
  moreover have "map_of m = map_of n"
  proof
    fix x
    note pointwise [of x]
    moreover have "map_of m k = None" "map_of n k = None"
      using Cons.prems(1,2) m' kv kk by (auto intro!: map_of_below)
    ultimately show "map_of m x = map_of n x" using kk by (cases "x = k") auto
  qed
  ultimately show ?case using Cons.IH [of n] Cons.prems(1,2) m' kv kk by simp
qed

lemma map_of_smap_assign: "smap_ok m \<Longrightarrow> map_of (smap_assign k v m) = (map_of m)(k \<mapsto> v)"
  by (induction k v m rule: smap_assign.induct) (auto simp: fun_eq_iff)

lemma map_of_smap_insert:
  "smap_ok m \<Longrightarrow> map_of (smap_insert k v m) =
     (case map_of m k of None \<Rightarrow> (map_of m)(k \<mapsto> v) | Some _ \<Rightarrow> map_of m)"
proof (induction k v m rule: smap_insert.induct)
  case (2 k v k' v' m)
  show ?case
  proof (cases "k < k'")
    case True
    then have "map_of ((k', v') # m) k = None" using "2.prems" by (intro map_of_below) auto
    then show ?thesis using True by (auto simp: fun_eq_iff)
  next
    case False
    then show ?thesis using 2 by (auto simp: fun_eq_iff split: option.splits)
  qed
qed auto

interpretation smap: std_map "[]" smap_insert smap_assign map_of smap_ok
  by unfold_locales
    (simp_all add: smap_ok_insert smap_ok_assign map_of_smap_insert map_of_smap_assign smap_extensional)

definition in_quotes :: "string \<Rightarrow> string" where
  "in_quotes s = CHR 0x27 # s @ [CHR 0x27]"

section \<open>Stable sorting\<close>

text \<open>A stable sort by a strict order: an element goes before the first one it is before.\<close>

fun insert_by :: "('a \<Rightarrow> 'a \<Rightarrow> bool) \<Rightarrow> 'a \<Rightarrow> 'a list \<Rightarrow> 'a list" where
  "insert_by lt x [] = [x]"
| "insert_by lt x (y # ys) = (if lt y x then y # insert_by lt x ys else x # y # ys)"

definition sort_by :: "('a \<Rightarrow> 'a \<Rightarrow> bool) \<Rightarrow> 'a list \<Rightarrow> 'a list" where
  "sort_by lt xs = foldr (insert_by lt) xs []"

lemma set_insert_by [simp]: "set (insert_by lt x ys) = insert x (set ys)"
  by (induction ys) auto

lemma set_sort_by [simp]: "set (sort_by lt xs) = set xs"
  unfolding sort_by_def by (induction xs) auto

lemma length_insert_by [simp]: "length (insert_by lt x ys) = Suc (length ys)"
  by (induction ys) auto

lemma length_sort_by [simp]: "length (sort_by lt xs) = length xs"
  unfolding sort_by_def by (induction xs) auto


text \<open>A strict order that is transitive and total on the elements sorts them.\<close>

lemma sorted_insert_by:
  assumes sorted: "sorted_wrt lt ys"
    and trans: "\<And>a b c. a \<in> insert x (set ys) \<Longrightarrow> b \<in> insert x (set ys) \<Longrightarrow> c \<in> insert x (set ys) \<Longrightarrow>
      lt a b \<Longrightarrow> lt b c \<Longrightarrow> lt a c"
    and total_order: "\<And>y. y \<in> set ys \<Longrightarrow> lt x y \<or> lt y x"
  shows "sorted_wrt lt (insert_by lt x ys)"
  using assms
proof (induction ys)
  case Nil
  then show ?case by simp
next
  case (Cons y ys)
  show ?case
  proof (cases "lt y x")
    case True
    have "sorted_wrt lt (insert_by lt x ys)"
      using Cons by (intro Cons.IH) auto
    with True Cons.prems(1) show ?thesis by auto
  next
    case False
    then have "lt x y" using Cons.prems(3) [of y] by auto
    moreover have "lt x z" if "z \<in> set ys" for z
      using Cons.prems(1,2) \<open>lt x y\<close> that by (auto intro: Cons.prems(2) [of x y z])
    ultimately show ?thesis using False Cons.prems(1) by auto
  qed
qed

lemma sorted_sort_by:
  assumes "\<And>a b c. a \<in> set xs \<Longrightarrow> b \<in> set xs \<Longrightarrow> c \<in> set xs \<Longrightarrow> lt a b \<Longrightarrow> lt b c \<Longrightarrow> lt a c"
    and "sorted_wrt (\<lambda>a b. lt a b \<or> lt b a) xs"
  shows "sorted_wrt lt (sort_by lt xs)"
  using assms
proof (induction xs)
  case Nil
  then show ?case by (simp add: sort_by_def)
next
  case (Cons x xs)
  then have "sorted_wrt lt (sort_by lt xs)" by (auto intro: Cons.IH)
  then have "sorted_wrt lt (insert_by lt x (sort_by lt xs))"
  proof (rule sorted_insert_by)
    show "lt a c" if "a \<in> insert x (set (sort_by lt xs))" "b \<in> insert x (set (sort_by lt xs))"
      "c \<in> insert x (set (sort_by lt xs))" "lt a b" "lt b c" for a b c
      using that Cons.prems(1) [of a b c] by simp
    show "lt x y \<or> lt y x" if "y \<in> set (sort_by lt xs)" for y
      using that Cons.prems(2) by simp
  qed
  then show ?case by (simp add: sort_by_def)
qed

end
