(* ===== verification/Shape.thy ===== *)
theory Shape
  imports Prelude
begin

text \<open>
  Symbolic shape contracts: \<^verbatim>\<open>lib/Shape/ShapeContract.cpp\<close> and
  \<^verbatim>\<open>include/LLK/Shape/ShapeContract.h\<close>. Data model, contract validation, binding of concrete
  extents to symbols, validation of a complete binding, the canonical rendering and the
  classification of shape predicates. The lemmas show that validation accepts exactly the
  satisfiable contracts, that binding is sound and complete for validated bindings, that the
  rendering is collision free and that the classification is conservative.
\<close>

section \<open>Data\<close>

datatype port_direction = Input | Output

fun stringifyDirection :: "port_direction \<Rightarrow> string" where
  "stringifyDirection Input = ''input''"
| "stringifyDirection Output = ''output''"

definition symbolizeDirection :: "string \<Rightarrow> port_direction option" where
  "symbolizeDirection text =
     (if text = ''input'' then Some Input
      else if text = ''output'' then Some Output
      else None)"

text \<open>A \<^verbatim>\<open>Dimension\<close> is built by its constant constructor or by \<^verbatim>\<open>Dimension::symbol\<close>; equality
  compares tag and value.\<close>

datatype dimension = Constant int | Symbol string

record symbol_constraint =
  sc_min :: int
  sc_max :: "int option"
  multipleOf :: int

record shape_port =
  port_name :: string
  port_dir :: port_direction
  port_shape :: "dimension list"

record shape_contract =
  ports :: "shape_port list"
  symbols :: "(string, symbol_constraint) smap"

record port_shape_values =
  psv_direction :: port_direction
  psv_index :: nat
  psv_extents :: "int list"

type_synonym shape_values = "(string, int) smap"

datatype shape_error =
    EmptySymbolName
  | NegativeMinimum string
  | MaxBelowMin string
  | InvalidDivisor string int
  | NoMultipleInRange string int
  | UnusedSymbol string
  | UndeclaredSymbol string
  | DuplicatePort string
  | RankZero string
  | NegativeExtent string nat
  | EmptySymbol string nat
  | DuplicatePortValues string
  | UnknownPort port_direction nat
  | MissingPort string
  | RankMismatch string nat nat
  | NegativeValue string nat
  | ConstantMismatch string nat int int
  | SymbolConflict string int int
  | BelowMinimum string int int
  | AboveMaximum string int int
  | NotAMultiple string int int
  | MissingValue string
  | NegativeBinding string
  | UnknownValue string
  | SymbolsAtThrows string  \<comment> \<open>\<^verbatim>\<open>std::map::at\<close> on an absent key; shown unreachable below\<close>

section \<open>Validation of a contract\<close>

definition hasMultipleInRange :: "int \<Rightarrow> int option \<Rightarrow> int \<Rightarrow> bool" where
  "hasMultipleInRange minimum maximum divisor =
     (if divisor \<le> 0 then False
      else let remainder = minimum smod divisor in
      if remainder = 0 then True
      else let delta = divisor - remainder in
      if minimum > int64_max - delta then False
      else let first = minimum + delta in
      (case maximum of None \<Rightarrow> True | Some m \<Rightarrow> first \<le> m))"

definition above_maximum :: "symbol_constraint \<Rightarrow> int \<Rightarrow> bool" where
  "above_maximum c v = (case sc_max c of None \<Rightarrow> False | Some m \<Rightarrow> m < v)"

definition check_symbol :: "string list \<Rightarrow> string \<times> symbol_constraint \<Rightarrow> shape_error option" where
  "check_symbol used entry = (case entry of (name, c) \<Rightarrow>
     if name = [] then Some EmptySymbolName
     else if sc_min c < 0 then Some (NegativeMinimum name)
     else if above_maximum c (sc_min c) then Some (MaxBelowMin name)
     else if multipleOf c \<le> 0 then Some (InvalidDivisor name (multipleOf c))
     else if \<not> hasMultipleInRange (sc_min c) (sc_max c) (multipleOf c)
       then Some (NoMultipleInRange name (multipleOf c))
     else if name \<notin> set used then Some (UnusedSymbol name)
     else None)"

text \<open>\<^verbatim>\<open>used\<close> is a hash set: the model keeps the order of first occurrence. Which of several
  undeclared symbols the diagnostic names depends on that order, whether there is one does not.\<close>

definition validateSymbolTable ::
  "(string, symbol_constraint) smap \<Rightarrow> string list \<Rightarrow> shape_error option" where
  "validateSymbolTable syms used =
     orElse (first_error (check_symbol used) syms)
       (first_error (\<lambda>n. if map_of syms n = None then Some (UndeclaredSymbol n) else None) used)"

fun check_port_names :: "string list \<Rightarrow> shape_port list \<Rightarrow> shape_error option" where
  "check_port_names names [] = None"
| "check_port_names names (p # ps) =
     (if port_name p \<in> set names then Some (DuplicatePort (port_name p))
      else check_port_names (port_name p # names) ps)"

definition use_symbol :: "string list \<Rightarrow> string \<Rightarrow> string list" where
  "use_symbol used n = (if n \<in> set used then used else used @ [n])"

fun collect_dims ::
  "string \<Rightarrow> nat \<Rightarrow> dimension list \<Rightarrow> string list \<Rightarrow> (shape_error, string list) expected" where
  "collect_dims port dim [] used = Inr used"
| "collect_dims port dim (Constant k # ds) used =
     (if k < 0 then Inl (NegativeExtent port dim) else collect_dims port (Suc dim) ds used)"
| "collect_dims port dim (Symbol n # ds) used =
     (if n = [] then Inl (EmptySymbol port dim)
      else collect_dims port (Suc dim) ds (use_symbol used n))"

fun collect_ports :: "shape_port list \<Rightarrow> string list \<Rightarrow> (shape_error, string list) expected" where
  "collect_ports [] used = Inr used"
| "collect_ports (p # ps) used =
     (if port_shape p = [] then Inl (RankZero (port_name p))
      else bindR (collect_dims (port_name p) 0 (port_shape p) used) (collect_ports ps))"

definition validateShapeContract :: "shape_contract \<Rightarrow> shape_error option" where
  "validateShapeContract c =
     orElse (check_port_names [] (ports c))
       (case collect_ports (ports c) [] of
          Inl e \<Rightarrow> Some e
        | Inr used \<Rightarrow> validateSymbolTable (symbols c) used)"

section \<open>Binding concrete extents\<close>

text \<open>The position of each port among the ports of its own direction.\<close>

fun port_positions :: "nat \<Rightarrow> nat \<Rightarrow> shape_port list \<Rightarrow> (port_direction \<times> nat) list" where
  "port_positions i j [] = []"
| "port_positions i j (p # ps) =
     (case port_dir p of
        Input \<Rightarrow> (Input, i) # port_positions (Suc i) j ps
      | Output \<Rightarrow> (Output, j) # port_positions i (Suc j) ps)"

fun find_position :: "'a \<Rightarrow> 'a list \<Rightarrow> nat option" where
  "find_position x [] = None"
| "find_position x (y # ys) = (if x = y then Some 0 else map_option Suc (find_position x ys))"

fun supply_values ::
  "shape_port list \<Rightarrow> (port_direction \<times> nat) list \<Rightarrow> port_shape_values option list \<Rightarrow>
   port_shape_values list \<Rightarrow> (shape_error, port_shape_values option list) expected" where
  "supply_values ps pos supplied [] = Inr supplied"
| "supply_values ps pos supplied (e # es) =
     (case find_position (psv_direction e, psv_index e) pos of
        None \<Rightarrow> Inl (UnknownPort (psv_direction e) (psv_index e))
      | Some k \<Rightarrow>
          (case supplied ! k of
             Some _ \<Rightarrow> Inl (DuplicatePortValues (port_name (ps ! k)))
           | None \<Rightarrow> supply_values ps pos (supplied[k := Some e]) es))"

fun require_supplied ::
  "shape_port list \<Rightarrow> port_shape_values option list \<Rightarrow> (shape_error, port_shape_values list) expected" where
  "require_supplied (p # ps) (Some e # es) = bindR (require_supplied ps es) (\<lambda>rest. Inr (e # rest))"
| "require_supplied (p # ps) (None # es) = Inl (MissingPort (port_name p))"
| "require_supplied _ _ = Inr []"

fun bind_dims ::
  "string \<Rightarrow> nat \<Rightarrow> dimension list \<Rightarrow> int list \<Rightarrow> shape_values \<Rightarrow> (shape_error, shape_values) expected" where
  "bind_dims port dim (d # ds) (extent # xs) bound =
     (if extent < 0 then Inl (NegativeValue port dim)
      else case d of
        Constant k \<Rightarrow>
          if extent \<noteq> k then Inl (ConstantMismatch port dim k extent)
          else bind_dims port (Suc dim) ds xs bound
      | Symbol n \<Rightarrow>
          (case map_of bound n of
             Some v \<Rightarrow>
               if v \<noteq> extent then Inl (SymbolConflict n v extent)
               else bind_dims port (Suc dim) ds xs bound
           | None \<Rightarrow> bind_dims port (Suc dim) ds xs (smap_insert n extent bound)))"
| "bind_dims port dim _ _ bound = Inr bound"

fun bind_ports ::
  "shape_port list \<Rightarrow> port_shape_values list \<Rightarrow> shape_values \<Rightarrow> (shape_error, shape_values) expected" where
  "bind_ports (p # ps) (e # es) bound =
     (if length (psv_extents e) \<noteq> length (port_shape p)
      then Inl (RankMismatch (port_name p) (length (port_shape p)) (length (psv_extents e)))
      else bindR (bind_dims (port_name p) 0 (port_shape p) (psv_extents e) bound) (bind_ports ps es))"
| "bind_ports _ _ bound = Inr bound"

definition check_constraint :: "string \<Rightarrow> int \<Rightarrow> symbol_constraint \<Rightarrow> shape_error option" where
  "check_constraint name v c =
     (if v < sc_min c then Some (BelowMinimum name v (sc_min c))
      else case sc_max c of
        Some m \<Rightarrow>
          if v > m then Some (AboveMaximum name v m)
          else if v smod multipleOf c \<noteq> 0 then Some (NotAMultiple name v (multipleOf c))
          else None
      | None \<Rightarrow>
          if v smod multipleOf c \<noteq> 0 then Some (NotAMultiple name v (multipleOf c)) else None)"

definition check_bound :: "shape_contract \<Rightarrow> string \<times> int \<Rightarrow> shape_error option" where
  "check_bound c entry = (case entry of (name, v) \<Rightarrow>
     (case map_of (symbols c) name of
        None \<Rightarrow> Some (SymbolsAtThrows name)
      | Some sc \<Rightarrow> check_constraint name v sc))"

definition bindShapeValues ::
  "shape_contract \<Rightarrow> port_shape_values list \<Rightarrow> (shape_error, shape_values) expected" where
  "bindShapeValues c vals =
     (case validateShapeContract c of
        Some e \<Rightarrow> Inl e
      | None \<Rightarrow>
          bindR (supply_values (ports c) (port_positions 0 0 (ports c)) (replicate (length (ports c)) None) vals)
            (\<lambda>supplied. bindR (require_supplied (ports c) supplied)
              (\<lambda>es. bindR (bind_ports (ports c) es [])
                (\<lambda>bound. case first_error (check_bound c) bound of
                   Some e \<Rightarrow> Inl e
                 | None \<Rightarrow> Inr bound))))"

definition check_declared :: "shape_values \<Rightarrow> string \<times> symbol_constraint \<Rightarrow> shape_error option" where
  "check_declared vals entry = (case entry of (name, c) \<Rightarrow>
     (case map_of vals name of
        None \<Rightarrow> Some (MissingValue name)
      | Some v \<Rightarrow> if v < 0 then Some (NegativeBinding name) else check_constraint name v c))"

definition validateShapeValues :: "shape_contract \<Rightarrow> shape_values \<Rightarrow> shape_error option" where
  "validateShapeValues c vals =
     (case validateShapeContract c of
        Some e \<Rightarrow> Some e
      | None \<Rightarrow>
          orElse (first_error (check_declared vals) (symbols c))
            (first_error (\<lambda>(n, v). if map_of (symbols c) n = None then Some (UnknownValue n) else None) vals))"

section \<open>Canonical rendering\<close>

definition appendField :: "string \<Rightarrow> string \<Rightarrow> string" where
  "appendField tag v = tag @ ''='' @ nat_to_string (length v) @ '':'' @ v @ '';''"

definition appendInt :: "string \<Rightarrow> int \<Rightarrow> string" where
  "appendInt tag v = tag @ ''='' @ int_to_string v @ '';''"

fun appendDimension :: "dimension \<Rightarrow> string" where
  "appendDimension (Symbol n) = ''dim=symbol:'' @ nat_to_string (length n) @ '':'' @ n @ '';''"
| "appendDimension (Constant k) = ''dim=constant:'' @ int_to_string k @ '';''"

definition canonicalPort :: "shape_port \<Rightarrow> string" where
  "canonicalPort p =
     appendField ''name'' (port_name p) @
     appendField ''direction'' (stringifyDirection (port_dir p)) @
     appendInt ''rank'' (int (length (port_shape p))) @
     concat (map appendDimension (port_shape p))"

definition canonicalSymbol :: "string \<times> symbol_constraint \<Rightarrow> string" where
  "canonicalSymbol entry = (case entry of (name, c) \<Rightarrow>
     appendField ''symbol'' name @
     appendInt ''min'' (sc_min c) @
     (case sc_max c of Some m \<Rightarrow> appendInt ''max'' m | None \<Rightarrow> ''max=none;'') @
     appendInt ''multiple_of'' (multipleOf c))"

definition canonicalShapeContract :: "shape_contract \<Rightarrow> string" where
  "canonicalShapeContract c =
     appendInt ''ports'' (int (length (ports c))) @
     concat (map canonicalPort (ports c)) @
     appendInt ''symbols'' (int (length (symbols c))) @
     concat (map canonicalSymbol (symbols c))"

section \<open>Predicate classification\<close>

datatype predicate_verdict = Proven | Disproven | RuntimeGuard

fun stringifyPredicateVerdict :: "predicate_verdict \<Rightarrow> string" where
  "stringifyPredicateVerdict Proven = ''proven''"
| "stringifyPredicateVerdict Disproven = ''disproven''"
| "stringifyPredicateVerdict RuntimeGuard = ''runtime_guard''"

datatype predicate_kind = DivisibleBy | EqualTo | AtLeast

record shape_predicate =
  pred_kind :: predicate_kind
  pred_symbol :: string
  pred_value :: int

definition classifyPredicate :: "shape_predicate \<Rightarrow> shape_contract \<Rightarrow> predicate_verdict" where
  "classifyPredicate p c =
     (case map_of (symbols c) (pred_symbol p) of
        None \<Rightarrow> RuntimeGuard
      | Some sc \<Rightarrow>
          if multipleOf sc \<le> 0 then RuntimeGuard
          else (case pred_kind p of
            DivisibleBy \<Rightarrow>
              if pred_value p \<le> 0 then Disproven
              else if multipleOf sc smod pred_value p = 0 then Proven
              else if sc_max sc = Some (sc_min sc)
                then (if sc_min sc smod pred_value p = 0 then Proven else Disproven)
              else if \<not> hasMultipleInRange (sc_min sc) (sc_max sc) (pred_value p) then Disproven
              else RuntimeGuard
          | EqualTo \<Rightarrow>
              if pred_value p < sc_min sc \<or> above_maximum sc (pred_value p) then Disproven
              else if pred_value p smod multipleOf sc \<noteq> 0 then Disproven
              else if sc_max sc = Some (sc_min sc) then Proven
              else RuntimeGuard
          | AtLeast \<Rightarrow>
              if sc_min sc \<ge> pred_value p then Proven
              else if (case sc_max sc of None \<Rightarrow> False | Some m \<Rightarrow> m < pred_value p) then Disproven
              else RuntimeGuard))"

section \<open>What validation decides\<close>

text \<open>The extents a constraint admits: \<^verbatim>\<open>int64_t\<close> values in the range that satisfy the
  congruence.\<close>

definition admits :: "symbol_constraint \<Rightarrow> int \<Rightarrow> bool" where
  "admits c v \<longleftrightarrow> sc_min c \<le> v \<and> \<not> above_maximum c v \<and> v \<le> int64_max \<and> multipleOf c dvd v"

text \<open>The field types of \<^verbatim>\<open>SymbolConstraint\<close> are \<^verbatim>\<open>int64_t\<close>.\<close>

definition constraint_typed :: "symbol_constraint \<Rightarrow> bool" where
  "constraint_typed c \<longleftrightarrow> in_int64 (sc_min c) \<and> in_int64 (multipleOf c) \<and>
     (\<forall>m. sc_max c = Some m \<longrightarrow> in_int64 m)"

definition contract_typed :: "shape_contract \<Rightarrow> bool" where
  "contract_typed c \<longleftrightarrow> smap_ok (symbols c) \<and> (\<forall>(n, sc) \<in> set (symbols c). constraint_typed sc)"

lemma least_multiple:
  fixes m d v :: int
  assumes "0 \<le> m" "0 < d" "m \<le> v" "d dvd v" "m mod d \<noteq> 0"
  shows "m + (d - m mod d) \<le> v"
proof -
  obtain k where v: "v = d * k" using assms(4) by (auto elim: dvdE)
  have m: "m = d * (m div d) + m mod d" by simp
  have "m div d < k"
  proof (rule ccontr)
    assume "\<not> m div d < k"
    then have "d * k \<le> d * (m div d)" using assms(2) by (simp add: mult_left_mono)
    moreover have "0 < m mod d" using assms(2,5) pos_mod_sign [of d m] by linarith
    ultimately have "v < m" using v m by linarith
    with assms(3) show False by simp
  qed
  then have "d * (m div d + 1) \<le> d * k" using assms(2) by (intro mult_left_mono) auto
  then have "d * (m div d) + d \<le> v" using v by (simp add: algebra_simps)
  with m show ?thesis by linarith
qed

lemma hasMultipleInRange_iff:
  assumes "0 \<le> mn" "mn \<le> int64_max" "0 < d"
    and max: "\<And>m. mx = Some m \<Longrightarrow> mn \<le> m \<and> m \<le> int64_max"
  shows "hasMultipleInRange mn mx d \<longleftrightarrow>
    (\<exists>v. mn \<le> v \<and> (\<forall>m. mx = Some m \<longrightarrow> v \<le> m) \<and> v \<le> int64_max \<and> d dvd v)"
proof (cases "mn mod d = 0")
  case True
  then have "hasMultipleInRange mn mx d"
    using assms by (simp add: hasMultipleInRange_def smod_nonneg_pos)
  moreover have "d dvd mn" using True by auto
  ultimately show ?thesis using assms by auto
next
  case False
  define first where "first = mn + (d - mn mod d)"
  have dvd: "d dvd first"
  proof -
    have "first = d * (mn div d) + d" unfolding first_def
      by (smt (verit) mult_div_mod_eq)
    then show ?thesis by simp
  qed
  have above: "mn \<le> first" using assms(3) pos_mod_bound [of d mn] unfolding first_def by linarith
  have unfold: "hasMultipleInRange mn mx d \<longleftrightarrow>
      first \<le> int64_max \<and> (\<forall>m. mx = Some m \<longrightarrow> first \<le> m)"
    using False assms by (auto simp: hasMultipleInRange_def smod_nonneg_pos first_def Let_def
        split: option.splits)
  have least: "first \<le> v" if "mn \<le> v" "d dvd v" for v
    unfolding first_def using that False assms by (intro least_multiple) auto
  show ?thesis
    unfolding unfold using dvd above least by (metis order_trans)
qed

lemma check_symbol_None:
  assumes "constraint_typed sc"
  shows "check_symbol used (n, sc) = None \<longleftrightarrow>
    n \<noteq> [] \<and> 0 \<le> sc_min sc \<and> 0 < multipleOf sc \<and> (\<exists>v. admits sc v) \<and> n \<in> set used"
proof -
  have multiple: "hasMultipleInRange (sc_min sc) (sc_max sc) (multipleOf sc) \<longleftrightarrow> (\<exists>v. admits sc v)"
    if "0 \<le> sc_min sc" "0 < multipleOf sc" "\<not> above_maximum sc (sc_min sc)"
  proof -
    have "hasMultipleInRange (sc_min sc) (sc_max sc) (multipleOf sc) \<longleftrightarrow>
        (\<exists>v. sc_min sc \<le> v \<and> (\<forall>m. sc_max sc = Some m \<longrightarrow> v \<le> m) \<and> v \<le> int64_max \<and> multipleOf sc dvd v)"
      using that assms
      by (intro hasMultipleInRange_iff)
        (auto simp: constraint_typed_def in_int64_def above_maximum_def not_less)
    also have "\<dots> \<longleftrightarrow> (\<exists>v. admits sc v)"
      by (auto simp: admits_def above_maximum_def not_less split: option.splits)
    finally show ?thesis .
  qed
  have "\<not> above_maximum sc (sc_min sc)" if "admits sc v" for v
    using that by (auto simp: admits_def above_maximum_def split: option.splits)
  with multiple show ?thesis
    by (auto simp: check_symbol_def not_le not_less)
qed

lemma check_port_names_None:
  "check_port_names names ps = None \<longleftrightarrow>
     distinct (map port_name ps) \<and> port_name ` set ps \<inter> set names = {}"
  by (induction names ps rule: check_port_names.induct) auto

definition dim_ok :: "dimension \<Rightarrow> bool" where
  "dim_ok d = (case d of Constant k \<Rightarrow> 0 \<le> k | Symbol n \<Rightarrow> n \<noteq> [])"

definition dim_symbols :: "dimension list \<Rightarrow> string set" where
  "dim_symbols ds = {n. Symbol n \<in> set ds}"

definition used_symbols :: "shape_port list \<Rightarrow> string set" where
  "used_symbols ps = (\<Union>p \<in> set ps. dim_symbols (port_shape p))"

lemma dim_symbols_simps [simp]:
  "dim_symbols [] = {}"
  "dim_symbols (Constant k # ds) = dim_symbols ds"
  "dim_symbols (Symbol n # ds) = insert n (dim_symbols ds)"
  by (auto simp: dim_symbols_def)

lemma used_symbols_simps [simp]:
  "used_symbols [] = {}"
  "used_symbols (p # ps) = dim_symbols (port_shape p) \<union> used_symbols ps"
  by (auto simp: used_symbols_def)

lemma set_use_symbol [simp]: "set (use_symbol used n) = insert n (set used)"
  by (auto simp: use_symbol_def)

lemma collect_dims_Inr:
  "(\<exists>used'. collect_dims port dim ds used = Inr used') \<longleftrightarrow> list_all dim_ok ds"
  by (induction port dim ds used rule: collect_dims.induct) (auto simp: dim_ok_def)

lemma collect_dims_set:
  "collect_dims port dim ds used = Inr used' \<Longrightarrow> set used' = set used \<union> dim_symbols ds"
  by (induction port dim ds used rule: collect_dims.induct) (auto split: if_splits)

lemma collect_ports_Inr:
  "(\<exists>used'. collect_ports ps used = Inr used') \<longleftrightarrow>
     (\<forall>p \<in> set ps. port_shape p \<noteq> [] \<and> list_all dim_ok (port_shape p))"
proof (induction ps arbitrary: used)
  case (Cons p ps)
  show ?case
  proof (cases "list_all dim_ok (port_shape p)")
    case True
    then obtain u where "collect_dims (port_name p) 0 (port_shape p) used = Inr u"
      using collect_dims_Inr by blast
    with True show ?thesis using Cons [of u] by auto
  next
    case False
    then have "\<nexists>u. collect_dims (port_name p) 0 (port_shape p) used = Inr u"
      using collect_dims_Inr by blast
    with False show ?thesis by auto
  qed
qed simp

lemma collect_ports_set:
  "collect_ports ps used = Inr used' \<Longrightarrow> set used' = set used \<union> used_symbols ps"
  by (induction ps arbitrary: used) (auto split: if_splits dest!: collect_dims_set)

text \<open>The contracts the header describes, stated without reference to the checks.\<close>

definition contract_wf :: "shape_contract \<Rightarrow> bool" where
  "contract_wf c \<longleftrightarrow>
     distinct (map port_name (ports c)) \<and>
     (\<forall>p \<in> set (ports c). port_shape p \<noteq> [] \<and> list_all dim_ok (port_shape p)) \<and>
     fst ` set (symbols c) = used_symbols (ports c) \<and>
     (\<forall>(n, sc) \<in> set (symbols c).
        n \<noteq> [] \<and> 0 \<le> sc_min sc \<and> 0 < multipleOf sc \<and> (\<exists>v. admits sc v))"

lemma validateSymbolTable_None:
  assumes "smap_ok syms" "\<forall>(n, sc) \<in> set syms. constraint_typed sc"
  shows "validateSymbolTable syms used = None \<longleftrightarrow>
    fst ` set syms = set used \<and>
    (\<forall>(n, sc) \<in> set syms. n \<noteq> [] \<and> 0 \<le> sc_min sc \<and> 0 < multipleOf sc \<and> (\<exists>v. admits sc v))"
proof -
  have entries: "(\<forall>x \<in> set syms. check_symbol used x = None) \<longleftrightarrow>
      (\<forall>(n, sc) \<in> set syms. n \<noteq> [] \<and> 0 \<le> sc_min sc \<and> 0 < multipleOf sc \<and> (\<exists>v. admits sc v)) \<and>
      fst ` set syms \<subseteq> set used"
  proof -
    have "check_symbol used x = None \<longleftrightarrow>
        (case x of (n, sc) \<Rightarrow> n \<noteq> [] \<and> 0 \<le> sc_min sc \<and> 0 < multipleOf sc \<and> (\<exists>v. admits sc v)) \<and>
        fst x \<in> set used" if "x \<in> set syms" for x
    proof -
      obtain n sc where x: "x = (n, sc)" by (cases x)
      have "constraint_typed sc" using bspec [OF assms(2) that] x by simp
      then show ?thesis by (simp add: x check_symbol_None conj_assoc)
    qed
    then show ?thesis by (simp add: image_subset_iff ball_conj_distrib)
  qed
  have declared: "(\<forall>n \<in> set used. map_of syms n \<noteq> None) \<longleftrightarrow> set used \<subseteq> fst ` set syms"
    by (auto simp: map_of_eq_None_iff)
  show ?thesis
    unfolding validateSymbolTable_def using entries declared by (auto split: if_splits)
qed

lemma validateShapeContract_wf:
  assumes "contract_typed c"
  shows "validateShapeContract c = None \<longleftrightarrow> contract_wf c"
proof (cases "collect_ports (ports c) []")
  case (Inl e)
  then have "\<not> (\<forall>p \<in> set (ports c). port_shape p \<noteq> [] \<and> list_all dim_ok (port_shape p))"
    using collect_ports_Inr [of "ports c" "[]"] by auto
  with Inl show ?thesis by (auto simp: validateShapeContract_def contract_wf_def)
next
  case (Inr used)
  then have "\<forall>p \<in> set (ports c). port_shape p \<noteq> [] \<and> list_all dim_ok (port_shape p)"
    using collect_ports_Inr [of "ports c" "[]"] by auto
  moreover have "set used = used_symbols (ports c)"
    using collect_ports_set [OF Inr] by simp
  ultimately show ?thesis
    using assms Inr
    by (simp add: validateShapeContract_def contract_wf_def check_port_names_None
        contract_typed_def validateSymbolTable_None)
qed

section \<open>What binding computes\<close>

text \<open>The extent a dimension has under a binding.\<close>

fun dim_value :: "shape_values \<Rightarrow> dimension \<Rightarrow> int option" where
  "dim_value b (Constant k) = Some k"
| "dim_value b (Symbol n) = map_of b n"

lemma dim_value_mono: "map_of b \<subseteq>\<^sub>m map_of b' \<Longrightarrow> dim_value b d = Some x \<Longrightarrow> dim_value b' d = Some x"
  by (cases d) (auto simp: map_le_def dom_def)

definition binding_nonneg :: "shape_values \<Rightarrow> bool" where
  "binding_nonneg b \<longleftrightarrow> (\<forall>n v. map_of b n = Some v \<longrightarrow> 0 \<le> v)"

text \<open>What a successful step of the binding loop establishes.\<close>

definition extends :: "shape_values \<Rightarrow> shape_values \<Rightarrow> string set \<Rightarrow> bool" where
  "extends b b' syms \<longleftrightarrow> smap_ok b' \<and> map_of b \<subseteq>\<^sub>m map_of b' \<and>
     dom (map_of b') = dom (map_of b) \<union> syms \<and> (binding_nonneg b \<longrightarrow> binding_nonneg b')"

lemma extends_refl: "smap_ok b \<Longrightarrow> extends b b {}"
  by (simp add: extends_def)

lemma extends_trans: "extends b b' A \<Longrightarrow> extends b' b'' B \<Longrightarrow> extends b b'' (A \<union> B)"
  by (auto simp: extends_def intro: map_le_trans)

lemma extends_insert:
  assumes "smap_ok b" "map_of b n = None" "0 \<le> x"
  shows "extends b (smap_insert n x b) {n}"
  using assms
  by (auto simp: extends_def smap_ok_insert map_of_smap_insert binding_nonneg_def map_le_def)

lemma bind_dims_sound:
  "bind_dims port dim ds xs b = Inr b' \<Longrightarrow> smap_ok b \<Longrightarrow> length ds = length xs \<Longrightarrow>
     extends b b' (dim_symbols ds) \<and> map (dim_value b') ds = map Some xs"
proof (induction port dim ds xs b rule: bind_dims.induct)
  case (1 port dim d ds extent xs b)
  show ?case
  proof (cases d)
    case (Constant k)
    then show ?thesis using 1 by (auto split: if_splits)
  next
    case (Symbol n)
    show ?thesis
    proof (cases "map_of b n")
      case None
      let ?b = "smap_insert n extent b"
      have ext: "extends b ?b {n}" using None 1 Symbol by (intro extends_insert) (auto split: if_splits)
      have step: "extends ?b b' (dim_symbols ds) \<and> map (dim_value b') ds = map Some xs"
        using 1 Symbol None by (auto split: if_splits simp: smap_ok_insert)
      have "map_of ?b n = Some extent" using None 1 by (simp add: map_of_smap_insert)
      then have "map_of b' n = Some extent" using step by (auto simp: extends_def map_le_def dom_def)
      with step extends_trans [OF ext] Symbol show ?thesis by auto
    next
      case (Some v)
      then have v: "v = extent" and step: "extends b b' (dim_symbols ds) \<and> map (dim_value b') ds = map Some xs"
        using 1 Symbol by (auto split: if_splits)
      have "map_of b' n = Some extent" using step Some v by (auto simp: extends_def map_le_def dom_def)
      with step Symbol Some show ?thesis by (auto simp: extends_def)
    qed
  qed
qed (auto simp: extends_refl)

lemma bind_ports_sound:
  "bind_ports ps es b = Inr b' \<Longrightarrow> smap_ok b \<Longrightarrow> length ps = length es \<Longrightarrow>
     extends b b' (used_symbols ps) \<and>
     list_all2 (\<lambda>p e. map (dim_value b') (port_shape p) = map Some (psv_extents e)) ps es"
proof (induction ps es b rule: bind_ports.induct)
  case (1 p ps e es b)
  then obtain b1 where b1: "bind_dims (port_name p) 0 (port_shape p) (psv_extents e) b = Inr b1"
    and rest: "bind_ports ps es b1 = Inr b'" and len: "length (psv_extents e) = length (port_shape p)"
    by (auto split: if_splits)
  have dims: "extends b b1 (dim_symbols (port_shape p))"
      "map (dim_value b1) (port_shape p) = map Some (psv_extents e)"
    using bind_dims_sound [OF b1] 1 len by auto
  then have step: "extends b1 b' (used_symbols ps)"
      "list_all2 (\<lambda>p e. map (dim_value b') (port_shape p) = map Some (psv_extents e)) ps es"
    using 1 b1 rest len by (auto simp: extends_def)
  have "map (dim_value b') (port_shape p) = map Some (psv_extents e)"
    using dims(2) step(1) dim_value_mono
    by (auto simp: extends_def list_eq_iff_nth_eq)
  with dims step show ?case using extends_trans by auto
qed (auto simp: extends_refl)

lemma find_position_Some: "find_position x xs = Some k \<Longrightarrow> k < length xs \<and> xs ! k = x"
  by (induction x xs arbitrary: k rule: find_position.induct) (auto split: if_splits)

lemma length_port_positions [simp]: "length (port_positions i j ps) = length ps"
  by (induction i j ps rule: port_positions.induct) (auto split: port_direction.splits)

lemma supply_values_sound:
  "supply_values ps pos s es = Inr s' \<Longrightarrow> length s = length pos \<Longrightarrow>
     length s' = length pos \<and>
     (\<forall>k e. k < length pos \<longrightarrow> s' ! k = Some e \<longrightarrow>
        s ! k = Some e \<or> e \<in> set es \<and> pos ! k = (psv_direction e, psv_index e))"
proof (induction ps pos s es rule: supply_values.induct)
  case (2 ps pos s e es)
  then obtain k where k: "find_position (psv_direction e, psv_index e) pos = Some k"
    and free: "s ! k = None" and rest: "supply_values ps pos (s[k := Some e]) es = Inr s'"
    by (auto split: option.splits)
  note pos = find_position_Some [OF k]
  have "length s' = length pos \<and>
     (\<forall>i e'. i < length pos \<longrightarrow> s' ! i = Some e' \<longrightarrow>
        s[k := Some e] ! i = Some e' \<or> e' \<in> set es \<and> pos ! i = (psv_direction e', psv_index e'))"
    using "2.IH" [OF k free rest] 2(3) by simp
  then show ?case using pos 2(3) by (auto simp: nth_list_update split: if_splits)
qed simp

lemma require_supplied_Inr:
  "require_supplied ps s = Inr es \<Longrightarrow> length ps = length s \<Longrightarrow> s = map Some es"
  by (induction ps s arbitrary: es rule: require_supplied.induct) auto

lemma check_constraint_None:
  "0 < multipleOf c \<Longrightarrow> check_constraint n v c = None \<longleftrightarrow>
     sc_min c \<le> v \<and> \<not> above_maximum c v \<and> multipleOf c dvd v"
  by (auto simp: check_constraint_def above_maximum_def smod_eq_0_iff_dvd split: option.splits)

lemma check_declared_None:
  "check_declared b (n, sc) = None \<longleftrightarrow>
     (\<exists>v. map_of b n = Some v \<and> 0 \<le> v \<and> check_constraint n v sc = None)"
  by (auto simp: check_declared_def split: option.splits)

lemma unknown_value_None:
  fixes b :: shape_values
  shows "(\<forall>x \<in> set b. (case x of (n, v) \<Rightarrow> if map_of syms n = None then Some (UnknownValue n) else None) = None)
     \<longleftrightarrow> fst ` set b \<subseteq> fst ` set syms"
proof -
  have "(case x of (n, v) \<Rightarrow> if map_of syms n = None then Some (UnknownValue n) else None) = None
      \<longleftrightarrow> fst x \<in> fst ` set syms" for x :: "string \<times> int"
    by (cases x) (simp add: map_of_eq_None_iff)
  then show ?thesis by (simp add: image_subset_iff)
qed

lemma validateShapeValues_iff:
  "validateShapeValues c b = None \<longleftrightarrow> validateShapeContract c = None \<and>
     (\<forall>x \<in> set (symbols c). check_declared b x = None) \<and>
     fst ` set b \<subseteq> fst ` set (symbols c)"
  using unknown_value_None [of b "symbols c"]
  by (simp add: validateShapeValues_def split: option.split)

text \<open>Binding succeeds only with a binding that the complete-binding check accepts and under
  which every port has exactly the extents that were supplied for its position.\<close>

lemma bindShapeValues_steps:
  assumes "bindShapeValues c vals = Inr b"
  obtains s es where "validateShapeContract c = None"
    and "supply_values (ports c) (port_positions 0 0 (ports c)) (replicate (length (ports c)) None) vals = Inr s"
    and "require_supplied (ports c) s = Inr es"
    and "bind_ports (ports c) es [] = Inr b"
    and "\<forall>x \<in> set b. check_bound c x = None"
  using assms that
  by (auto simp: bindShapeValues_def split: option.splits)

lemma bound_checked_declared:
  assumes "\<forall>x \<in> set b. check_bound c x = None" "smap_ok b" "binding_nonneg b" "smap_ok (symbols c)"
    and "(n, sc) \<in> set (symbols c)" "n \<in> dom (map_of b)"
  shows "check_declared b (n, sc) = None"
proof -
  obtain v where v: "map_of b n = Some v" using assms(6) by auto
  then have "check_bound c (n, v) = None" using assms(1) map_of_SomeD by metis
  moreover have "map_of (symbols c) n = Some sc" using assms(4,5) by (simp add: smap_find_iff)
  ultimately have "check_constraint n v sc = None" by (simp add: check_bound_def)
  moreover have "0 \<le> v" using v assms(3) by (auto simp: binding_nonneg_def)
  ultimately show ?thesis using v by (simp add: check_declared_None)
qed

lemma bindShapeValues_valid:
  assumes typed: "contract_typed c" and bind: "bindShapeValues c vals = Inr b"
  shows "validateShapeValues c b = None"
proof -
  obtain s es where valid: "validateShapeContract c = None"
    and supplied: "supply_values (ports c) (port_positions 0 0 (ports c)) (replicate (length (ports c)) None) vals = Inr s"
    and req: "require_supplied (ports c) s = Inr es"
    and ports: "bind_ports (ports c) es [] = Inr b"
    and checked: "\<forall>x \<in> set b. check_bound c x = None"
    using bindShapeValues_steps [OF bind] .
  have "length s = length (ports c)" using supply_values_sound [OF supplied] by simp
  then have "length es = length (ports c)" using require_supplied_Inr [OF req] by simp
  then have ext: "extends [] b (used_symbols (ports c))" using bind_ports_sound [OF ports] by simp
  have "contract_wf c" using validateShapeContract_wf [OF typed] valid by simp
  then have keys: "fst ` set (symbols c) = dom (map_of b)"
    using ext by (simp add: extends_def contract_wf_def)
  have "check_declared b x = None" if "x \<in> set (symbols c)" for x
  proof (cases x)
    case (Pair n sc)
    have "n \<in> dom (map_of b)" using keys that Pair by force
    then show ?thesis
      using bound_checked_declared [OF checked, of n sc] ext typed that Pair
      by (simp add: extends_def contract_typed_def binding_nonneg_def)
  qed
  moreover have "fst ` set b \<subseteq> fst ` set (symbols c)"
    using keys by (simp add: dom_map_of_conv_image_fst)
  ultimately show ?thesis using valid by (simp add: validateShapeValues_iff)
qed

lemma bindShapeValues_ports:
  assumes bind: "bindShapeValues c vals = Inr b" and k: "k < length (ports c)"
  shows "\<exists>e \<in> set vals. (psv_direction e, psv_index e) = port_positions 0 0 (ports c) ! k \<and>
    map (dim_value b) (port_shape (ports c ! k)) = map Some (psv_extents e)"
proof -
  obtain s es where supplied: "supply_values (ports c) (port_positions 0 0 (ports c)) (replicate (length (ports c)) None) vals = Inr s"
    and req: "require_supplied (ports c) s = Inr es"
    and ports: "bind_ports (ports c) es [] = Inr b"
    using bindShapeValues_steps [OF bind] by metis
  note sound = supply_values_sound [OF supplied]
  have len: "length s = length (ports c)" using sound by simp
  then have s: "s = map Some es" using require_supplied_Inr [OF req] by simp
  have "s ! k = Some (es ! k)" using s len k by simp
  then have "es ! k \<in> set vals" "port_positions 0 0 (ports c) ! k = (psv_direction (es ! k), psv_index (es ! k))"
    using sound k by auto
  moreover have "map (dim_value b) (port_shape (ports c ! k)) = map Some (psv_extents (es ! k))"
    using bind_ports_sound [OF ports] s len k by (auto simp: list_all2_conv_all_nth)
  ultimately show ?thesis by auto
qed

subsection \<open>Completeness\<close>

text \<open>The port extents a binding prescribes, in contract order.\<close>

definition port_values :: "shape_values \<Rightarrow> shape_contract \<Rightarrow> port_shape_values list" where
  "port_values b c = map2 (\<lambda>pos p. \<lparr>psv_direction = fst pos, psv_index = snd pos,
       psv_extents = map (the \<circ> dim_value b) (port_shape p)\<rparr>)
     (port_positions 0 0 (ports c)) (ports c)"

lemma port_positions_lower:
  "(d, k) \<in> set (port_positions i j ps) \<Longrightarrow> (case d of Input \<Rightarrow> i \<le> k | Output \<Rightarrow> j \<le> k)"
  by (induction i j ps rule: port_positions.induct) (fastforce split: port_direction.splits)+

lemma distinct_port_positions: "distinct (port_positions i j ps)"
  by (induction i j ps rule: port_positions.induct)
    (auto split: port_direction.splits dest: port_positions_lower)

lemma find_position_nth: "distinct xs \<Longrightarrow> k < length xs \<Longrightarrow> find_position (xs ! k) xs = Some k"
proof (induction xs arbitrary: k)
  case (Cons x xs)
  then show ?case by (cases k) auto
qed simp

lemma supply_values_in_order:
  assumes "distinct pos" "map (\<lambda>e. (psv_direction e, psv_index e)) (pre @ suf) = pos"
  shows "supply_values ps pos (map Some pre @ replicate (length suf) None) suf = Inr (map Some (pre @ suf))"
  using assms
proof (induction suf arbitrary: pre)
  case Nil
  then show ?case by simp
next
  case (Cons e suf)
  have at: "pos ! length pre = (psv_direction e, psv_index e)" and len: "length pre < length pos"
    using Cons.prems(2) by (auto simp flip: Cons.prems(2) simp: nth_append)
  have "find_position (psv_direction e, psv_index e) pos = Some (length pre)"
    using find_position_nth [OF Cons.prems(1) len] at by simp
  moreover have "supply_values ps pos (map Some (pre @ [e]) @ replicate (length suf) None) suf = Inr (map Some ((pre @ [e]) @ suf))"
    using Cons.prems by (intro Cons.IH) auto
  ultimately show ?case by (simp add: nth_append list_update_append)
qed

lemma require_supplied_map: "length ps = length es \<Longrightarrow> require_supplied ps (map Some es) = Inr es"
  by (induction ps es rule: list_induct2) auto

text \<open>A binding loop whose extents come from \<open>\<sigma>\<close> never leaves \<open>\<sigma>\<close>.\<close>

definition instance_dims :: "shape_values \<Rightarrow> dimension list \<Rightarrow> int list \<Rightarrow> bool" where
  "instance_dims \<sigma> ds xs \<longleftrightarrow> map (dim_value \<sigma>) ds = map Some xs \<and> (\<forall>x \<in> set xs. 0 \<le> x)"

lemma bind_dims_complete:
  assumes "instance_dims \<sigma> ds xs" "smap_ok b" "map_of b \<subseteq>\<^sub>m map_of \<sigma>"
  shows "\<exists>b'. bind_dims port dim ds xs b = Inr b' \<and> smap_ok b' \<and> map_of b' \<subseteq>\<^sub>m map_of \<sigma>"
  using assms
proof (induction port dim ds xs b rule: bind_dims.induct)
  case (1 port dim d ds extent xs b)
  have inst: "instance_dims \<sigma> ds xs" "dim_value \<sigma> d = Some extent" "0 \<le> extent"
    using "1.prems"(1) by (auto simp: instance_dims_def)
  show ?case
  proof (cases d)
    case (Constant k)
    then show ?thesis using 1 inst by auto
  next
    case (Symbol n)
    show ?thesis
    proof (cases "map_of b n")
      case None
      have "map_of (smap_insert n extent b) \<subseteq>\<^sub>m map_of \<sigma>"
        using None "1.prems"(2,3) inst Symbol by (auto simp: map_of_smap_insert map_le_def)
      then show ?thesis using None 1 inst Symbol by (auto simp: smap_ok_insert)
    next
      case (Some v)
      then have "v = extent" using "1.prems"(3) inst Symbol by (auto simp: map_le_def dom_def)
      then show ?thesis using Some 1 inst Symbol by auto
    qed
  qed
qed auto

lemma bind_ports_complete:
  assumes "list_all2 (\<lambda>p e. instance_dims \<sigma> (port_shape p) (psv_extents e)) ps es"
    and "smap_ok b" "map_of b \<subseteq>\<^sub>m map_of \<sigma>"
  shows "\<exists>b'. bind_ports ps es b = Inr b' \<and> smap_ok b' \<and> map_of b' \<subseteq>\<^sub>m map_of \<sigma>"
  using assms
proof (induction ps es b rule: bind_ports.induct)
  case (1 p ps e es b)
  then have inst: "instance_dims \<sigma> (port_shape p) (psv_extents e)" by simp
  then have "length (psv_extents e) = length (port_shape p)"
    unfolding instance_dims_def by (metis length_map)
  moreover obtain b1 where "bind_dims (port_name p) 0 (port_shape p) (psv_extents e) b = Inr b1"
      "smap_ok b1" "map_of b1 \<subseteq>\<^sub>m map_of \<sigma>"
    using bind_dims_complete [OF inst "1.prems"(2,3)] by blast
  ultimately show ?case using 1 by auto
qed auto

lemma declared_dims_instance:
  assumes "contract_wf c" "\<forall>x \<in> set (symbols c). check_declared \<sigma> x = None" "p \<in> set (ports c)"
  shows "instance_dims \<sigma> (port_shape p) (map (the \<circ> dim_value \<sigma>) (port_shape p))"
proof -
  have "\<exists>x. dim_value \<sigma> d = Some x \<and> 0 \<le> x" if d: "d \<in> set (port_shape p)" for d
  proof (cases d)
    case (Constant k)
    have "dim_ok d" using assms(1,3) d by (auto simp: contract_wf_def list_all_iff)
    then show ?thesis using Constant by (simp add: dim_ok_def)
  next
    case (Symbol n)
    have "n \<in> used_symbols (ports c)"
      using assms(3) d Symbol by (auto simp: used_symbols_def dim_symbols_def)
    then have "n \<in> fst ` set (symbols c)" using assms(1) by (simp add: contract_wf_def)
    then obtain sc where "(n, sc) \<in> set (symbols c)" by force
    then have "check_declared \<sigma> (n, sc) = None" using assms(2) by blast
    then show ?thesis using Symbol by (auto simp: check_declared_None)
  qed
  then show ?thesis by (force simp: instance_dims_def)
qed

lemma valid_values_checked:
  assumes "smap_ok (symbols c)" "\<forall>x \<in> set (symbols c). check_declared \<sigma> x = None"
    and "smap_ok \<sigma>" "fst ` set \<sigma> \<subseteq> fst ` set (symbols c)" "x \<in> set \<sigma>"
  shows "check_bound c x = None"
proof (cases x)
  case (Pair n v)
  then obtain sc where sc: "(n, sc) \<in> set (symbols c)" using assms(4,5) by force
  then have "check_declared \<sigma> (n, sc) = None" using assms(2) by blast
  moreover have "map_of \<sigma> n = Some v" using assms(3,5) Pair by (simp add: smap_find_iff)
  moreover have "map_of (symbols c) n = Some sc" using assms(1) sc by (simp add: smap_find_iff)
  ultimately show ?thesis using Pair by (simp add: check_declared_None check_bound_def)
qed

lemma bindShapeValues_complete:
  assumes typed: "contract_typed c" and ok: "smap_ok \<sigma>" and valid: "validateShapeValues c \<sigma> = None"
  shows "bindShapeValues c (port_values \<sigma> c) = Inr \<sigma>"
proof -
  let ?pos = "port_positions 0 0 (ports c)"
  let ?vals = "port_values \<sigma> c"
  have contract: "validateShapeContract c = None"
    and declared: "\<forall>x \<in> set (symbols c). check_declared \<sigma> x = None"
    and keys: "fst ` set \<sigma> \<subseteq> fst ` set (symbols c)"
    using valid by (auto simp: validateShapeValues_iff)
  have wf: "contract_wf c" using contract validateShapeContract_wf [OF typed] by simp
  have len: "length ?vals = length (ports c)" by (simp add: port_values_def)
  have pos: "map (\<lambda>e. (psv_direction e, psv_index e)) ?vals = ?pos"
    by (simp add: port_values_def list_eq_iff_nth_eq)
  have supplied: "supply_values (ports c) ?pos (replicate (length (ports c)) None) ?vals = Inr (map Some ?vals)"
    using supply_values_in_order [OF distinct_port_positions, of "[]" ?vals 0 0 "ports c" "ports c"] pos len by simp
  have inst: "list_all2 (\<lambda>p e. instance_dims \<sigma> (port_shape p) (psv_extents e)) (ports c) ?vals"
    using declared_dims_instance [OF wf declared] len
    by (auto simp: list_all2_conv_all_nth port_values_def)
  obtain b where b: "bind_ports (ports c) ?vals [] = Inr b" "smap_ok b" "map_of b \<subseteq>\<^sub>m map_of \<sigma>"
    using bind_ports_complete [OF inst, of "[]"] by auto
  have "dom (map_of b) = used_symbols (ports c)"
    using bind_ports_sound [OF b(1)] len by (simp add: extends_def)
  then have "dom (map_of \<sigma>) \<subseteq> dom (map_of b)"
    using wf keys by (simp add: contract_wf_def dom_map_of_conv_image_fst)
  then have "map_of b = map_of \<sigma>" using b(3) by (metis map_le_antisym map_le_def subsetD)
  then have "b = \<sigma>" using b(2) ok by (intro smap_extensional)
  moreover have "first_error (check_bound c) \<sigma> = None"
    using valid_values_checked [OF _ declared ok keys] typed by (auto simp: contract_typed_def)
  ultimately show ?thesis
    using b(1) contract supplied require_supplied_map [of "ports c" ?vals] len
    by (simp add: bindShapeValues_def del: first_error_None)
qed

section \<open>The canonical rendering is collision free\<close>

lemma appendField_sized: "appendField tag v = tag @ CHR ''='' # sized v @ '';''"
  by (simp add: appendField_def sized_def)

lemma appendField_uniq: "appendField tag v @ r = appendField tag w @ s \<Longrightarrow> v = w \<and> r = s"
  by (auto simp: appendField_sized dest: sized.uniq)

lemma appendInt_uniq: "appendInt tag i @ r = appendInt tag j @ s \<Longrightarrow> i = j \<and> r = s"
  by (auto simp: appendInt_def dest: int_delimited_uniq)

interpretation dimension_code: prefix_code appendDimension
proof
  fix a r b s assume eq: "appendDimension a @ r = appendDimension b @ s"
  show "a = b \<and> r = s"
  proof (cases a)
    case (Constant i)
    with eq obtain j where "b = Constant j" by (cases b) auto
    with Constant eq show ?thesis by (auto dest: int_delimited_uniq)
  next
    case (Symbol m)
    with eq obtain n where b: "b = Symbol n" by (cases b) auto
    with Symbol eq have "sized m @ '';'' @ r = sized n @ '';'' @ s" by (simp add: sized_def)
    then have "m = n \<and> '';'' @ r = '';'' @ s" by (rule sized.uniq)
    with Symbol b show ?thesis by simp
  qed
qed

lemma stringifyDirection_inj: "stringifyDirection d = stringifyDirection d' \<Longrightarrow> d = d'"
  by (cases d; cases d') auto

interpretation port_code: prefix_code canonicalPort
proof
  fix p r q s assume eq: "canonicalPort p @ r = canonicalPort q @ s"
  from eq have name: "port_name p = port_name q"
    and e1: "appendField ''direction'' (stringifyDirection (port_dir p)) @
      (appendInt ''rank'' (int (length (port_shape p))) @ concat (map appendDimension (port_shape p)) @ r) =
      appendField ''direction'' (stringifyDirection (port_dir q)) @
      (appendInt ''rank'' (int (length (port_shape q))) @ concat (map appendDimension (port_shape q)) @ s)"
    unfolding canonicalPort_def append_assoc by (blast dest: appendField_uniq)+
  from appendField_uniq [OF e1] have dir: "port_dir p = port_dir q"
    and e2: "appendInt ''rank'' (int (length (port_shape p))) @ (concat (map appendDimension (port_shape p)) @ r) =
      appendInt ''rank'' (int (length (port_shape q))) @ (concat (map appendDimension (port_shape q)) @ s)"
    by (auto dest: stringifyDirection_inj)
  from appendInt_uniq [OF e2] have len: "length (port_shape p) = length (port_shape q)"
    and e3: "concat (map appendDimension (port_shape p)) @ r = concat (map appendDimension (port_shape q)) @ s"
    by auto
  from dimension_code.concat_uniq [OF len e3] name dir show "p = q \<and> r = s"
    by (auto intro: shape_port.equality)
qed

lemma canonicalMax_uniq:
  assumes "(case m of Some m \<Rightarrow> appendInt ''max'' m | None \<Rightarrow> ''max=none;'') @ r =
    (case n of Some m \<Rightarrow> appendInt ''max'' m | None \<Rightarrow> ''max=none;'') @ s"
  shows "m = n \<and> r = s"
proof -
  have no_n: "int_to_string i @ t \<noteq> CHR ''n'' # u" for i t u
  proof
    assume "int_to_string i @ t = CHR ''n'' # u"
    then have "CHR ''n'' \<in> set (int_to_string i)"
      by (cases "int_to_string i") auto
    then show False by (auto dest!: int_to_string_chars simp: is_int_char_def is_digit_def)
  qed
  from assms show ?thesis
  proof (cases m; cases n)
    fix i j assume "m = Some i" "n = Some j"
    with assms show ?thesis by (auto dest: appendInt_uniq)
  qed (auto simp: appendInt_def no_n no_n [symmetric])
qed

interpretation symbol_code: prefix_code canonicalSymbol
proof
  fix x r y s assume eq: "canonicalSymbol x @ r = canonicalSymbol y @ s"
  obtain n c where x: "x = (n, c)" by (cases x)
  obtain m d where y: "y = (m, d)" by (cases y)
  from eq have name: "n = m" and e1: "appendInt ''min'' (sc_min c) @
      ((case sc_max c of Some m \<Rightarrow> appendInt ''max'' m | None \<Rightarrow> ''max=none;'') @ appendInt ''multiple_of'' (multipleOf c) @ r) =
      appendInt ''min'' (sc_min d) @
      ((case sc_max d of Some m \<Rightarrow> appendInt ''max'' m | None \<Rightarrow> ''max=none;'') @ appendInt ''multiple_of'' (multipleOf d) @ s)"
    unfolding canonicalSymbol_def x y prod.case append_assoc by (blast dest: appendField_uniq)+
  from appendInt_uniq [OF e1] have mn: "sc_min c = sc_min d"
    and e2: "(case sc_max c of Some m \<Rightarrow> appendInt ''max'' m | None \<Rightarrow> ''max=none;'') @ (appendInt ''multiple_of'' (multipleOf c) @ r) =
      (case sc_max d of Some m \<Rightarrow> appendInt ''max'' m | None \<Rightarrow> ''max=none;'') @ (appendInt ''multiple_of'' (multipleOf d) @ s)"
    by auto
  from canonicalMax_uniq [OF e2] have mx: "sc_max c = sc_max d"
    and e3: "appendInt ''multiple_of'' (multipleOf c) @ r = appendInt ''multiple_of'' (multipleOf d) @ s"
    by auto
  from appendInt_uniq [OF e3] name mn mx x y show "x = y \<and> r = s"
    by (auto intro: symbol_constraint.equality)
qed

lemma canonicalShapeContract_inj:
  assumes "canonicalShapeContract c = canonicalShapeContract d"
  shows "c = d"
proof -
  from assms have n: "length (ports c) = length (ports d)"
    and e1: "concat (map canonicalPort (ports c)) @
        (appendInt ''symbols'' (int (length (symbols c))) @ concat (map canonicalSymbol (symbols c))) =
      concat (map canonicalPort (ports d)) @
        (appendInt ''symbols'' (int (length (symbols d))) @ concat (map canonicalSymbol (symbols d)))"
    unfolding canonicalShapeContract_def by (auto dest: appendInt_uniq)
  from port_code.concat_uniq [OF n e1] have ports: "ports c = ports d"
    and e2: "appendInt ''symbols'' (int (length (symbols c))) @ concat (map canonicalSymbol (symbols c)) =
      appendInt ''symbols'' (int (length (symbols d))) @ concat (map canonicalSymbol (symbols d))"
    by auto
  from appendInt_uniq [OF e2] have "length (symbols c) = length (symbols d)"
    and "concat (map canonicalSymbol (symbols c)) @ [] = concat (map canonicalSymbol (symbols d)) @ []"
    by auto
  from symbol_code.concat_uniq [OF this] ports show ?thesis
    by (auto intro: shape_contract.equality)
qed

section \<open>Classification is conservative\<close>

text \<open>The meaning of a predicate at one extent, as the comments of the enumeration give it.\<close>

fun predicate_holds :: "predicate_kind \<Rightarrow> int \<Rightarrow> int \<Rightarrow> bool" where
  "predicate_holds DivisibleBy val v \<longleftrightarrow> v smod val = 0"
| "predicate_holds EqualTo val v \<longleftrightarrow> v = val"
| "predicate_holds AtLeast val v \<longleftrightarrow> val \<le> v"

lemma classify_divisible:
  assumes "constraint_typed sc" "0 \<le> sc_min sc" "0 < multipleOf sc" "0 < val" "admits sc v"
    and "map_of (symbols c) n = Some sc"
  shows "classifyPredicate \<lparr>pred_kind = DivisibleBy, pred_symbol = n, pred_value = val\<rparr> c = Proven \<Longrightarrow> val dvd v"
    and "classifyPredicate \<lparr>pred_kind = DivisibleBy, pred_symbol = n, pred_value = val\<rparr> c = Disproven \<Longrightarrow> \<not> val dvd v"
proof -
  have point: "v = sc_min sc" if "sc_max sc = Some (sc_min sc)"
    using assms(5) that by (auto simp: admits_def above_maximum_def)
  have range: "hasMultipleInRange (sc_min sc) (sc_max sc) val" if "val dvd v"
    using assms that
    by (subst hasMultipleInRange_iff)
      (force simp: admits_def above_maximum_def constraint_typed_def in_int64_def not_less)+
  have trans: "val dvd v" if "val dvd multipleOf sc"
    using assms(5) that by (auto simp: admits_def)
  show "classifyPredicate \<lparr>pred_kind = DivisibleBy, pred_symbol = n, pred_value = val\<rparr> c = Proven \<Longrightarrow> val dvd v"
    using assms point trans by (auto simp: classifyPredicate_def smod_eq_0_iff_dvd split: if_splits)
  show "classifyPredicate \<lparr>pred_kind = DivisibleBy, pred_symbol = n, pred_value = val\<rparr> c = Disproven \<Longrightarrow> \<not> val dvd v"
    using assms point range by (auto simp: classifyPredicate_def smod_eq_0_iff_dvd split: if_splits)
qed

lemma classify_conservative:
  assumes "constraint_typed sc" "0 \<le> sc_min sc" "0 < multipleOf sc" "admits sc v"
    and "map_of (symbols c) (pred_symbol p) = Some sc"
    and "pred_kind p = DivisibleBy \<Longrightarrow> 0 < pred_value p"
  shows "(classifyPredicate p c = Proven \<longrightarrow> predicate_holds (pred_kind p) (pred_value p) v) \<and>
    (classifyPredicate p c = Disproven \<longrightarrow> \<not> predicate_holds (pred_kind p) (pred_value p) v)"
proof (cases "pred_kind p")
  case DivisibleBy
  have p: "p = \<lparr>pred_kind = DivisibleBy, pred_symbol = pred_symbol p, pred_value = pred_value p\<rparr>"
    using DivisibleBy by simp
  show ?thesis
    using classify_divisible [OF assms(1-3) _ assms(4,5), of "pred_value p"] assms(6) DivisibleBy p
    by (metis predicate_holds.simps(1) smod_eq_0_iff_dvd)
next
  case EqualTo
  then show ?thesis using assms
    by (cases "v = pred_value p") (auto simp: classifyPredicate_def admits_def above_maximum_def smod_eq_0_iff_dvd
        split: if_splits option.splits)
next
  case AtLeast
  then show ?thesis using assms
    by (auto simp: classifyPredicate_def admits_def above_maximum_def split: if_splits option.splits)
qed

section \<open>Properties\<close>

text \<open>A contract for the witnesses: a batch of rows of 64 elements, reduced to one value per row,
  where the row count is a positive multiple of 8 up to 128.\<close>

definition rows_constraint :: symbol_constraint where
  "rows_constraint = \<lparr>sc_min = 1, sc_max = Some 128, multipleOf = 8\<rparr>"

definition rows_contract :: shape_contract where
  "rows_contract =
     \<lparr>ports = [\<lparr>port_name = ''x'', port_dir = Input, port_shape = [Symbol ''N'', Constant 64]\<rparr>,
               \<lparr>port_name = ''y'', port_dir = Output, port_shape = [Symbol ''N'']\<rparr>],
      symbols = [(''N'', rows_constraint)]\<rparr>"

lemmas rows_defs = rows_contract_def rows_constraint_def

lemma rows_typed: "contract_typed rows_contract"
  by (simp add: rows_defs contract_typed_def constraint_typed_def in_int64_def int64_min_def int64_max_def)

lemma rows_valid: "validateShapeContract rows_contract = None"
  by (simp add: rows_defs validateShapeContract_def validateSymbolTable_def check_symbol_def
      above_maximum_def hasMultipleInRange_def use_symbol_def int64_max_def smod_nonneg_pos)

lemma rows_values_valid: "validateShapeValues rows_contract [(''N'', 16)] = None"
  using rows_valid
  by (simp add: validateShapeValues_def check_declared_def check_constraint_def rows_defs smod_nonneg_pos)

text \<open>C32: contract validation is exact. For a contract whose fields are \<^verbatim>\<open>int64_t\<close> values,
  \<^verbatim>\<open>validateShapeContract\<close> succeeds if and only if port names are distinct, every port has a
  nonempty shape of nonnegative constants and named symbols, the symbol table declares exactly the
  symbols the ports use, and every constraint admits at least one \<^verbatim>\<open>int64_t\<close> extent. In particular
  the overflow-guarded search for a multiple in range never rejects a satisfiable constraint.\<close>

theorem shape_validation_exact:
  assumes "contract_typed c"
  shows "validateShapeContract c = None \<longleftrightarrow> contract_wf c"
  by (rule validateShapeContract_wf [OF assms])

theorem shape_validation_exact_witness: "contract_typed rows_contract \<and> contract_wf rows_contract"
  using shape_validation_exact [OF rows_typed] rows_typed rows_valid by simp

text \<open>C37: binding is sound. When \<^verbatim>\<open>bindShapeValues\<close> returns a binding, the complete-binding check
  accepts it, so that every declared symbol is bound within its constraint and nothing else is
  bound, and every port of the contract has, at the position it holds among the ports of its
  direction, one supplied entry whose extents are the values of the port's dimensions.\<close>

theorem shape_binding_sound:
  assumes "contract_typed c" and "bindShapeValues c vals = Inr b"
  shows "validateShapeValues c b = None \<and>
    (\<forall>k < length (ports c). \<exists>e \<in> set vals.
       (psv_direction e, psv_index e) = port_positions 0 0 (ports c) ! k \<and>
       map (dim_value b) (port_shape (ports c ! k)) = map Some (psv_extents e))"
  using bindShapeValues_valid [OF assms] bindShapeValues_ports [OF assms(2)] by blast

definition rows_supplied :: "port_shape_values list" where
  "rows_supplied = [\<lparr>psv_direction = Output, psv_index = 0, psv_extents = [16]\<rparr>,
                    \<lparr>psv_direction = Input, psv_index = 0, psv_extents = [16, 64]\<rparr>]"

lemma rows_binds: "bindShapeValues rows_contract rows_supplied = Inr [(''N'', 16)]"
  using rows_valid
  by (simp add: bindShapeValues_def rows_supplied_def rows_defs check_bound_def check_constraint_def
      smod_nonneg_pos numeral_2_eq_2)

theorem shape_binding_sound_witness:
  "bindShapeValues rows_contract rows_supplied = Inr [(''N'', 16)] \<and>
   validateShapeValues rows_contract [(''N'', 16)] = None"
  using shape_binding_sound [OF rows_typed rows_binds] rows_binds by blast

text \<open>Binding is complete. Every binding that the complete-binding check accepts is recovered by
  \<^verbatim>\<open>bindShapeValues\<close> from the port extents it prescribes: no satisfying assignment is
  rejected and the recovered assignment is the same one.\<close>

theorem shape_binding_complete:
  assumes "contract_typed c" and "smap_ok \<sigma>" and "validateShapeValues c \<sigma> = None"
  shows "bindShapeValues c (port_values \<sigma> c) = Inr \<sigma>"
  by (rule bindShapeValues_complete [OF assms])

theorem shape_binding_complete_witness:
  "bindShapeValues rows_contract (port_values [(''N'', 16)] rows_contract) = Inr [(''N'', 16)]"
  using shape_binding_complete [OF rows_typed _ rows_values_valid] by simp

text \<open>The canonical rendering of a contract identifies it. Two contracts have the same
  \<^verbatim>\<open>canonicalShapeContract\<close> string exactly when they are equal, whatever bytes their port and
  symbol names contain, so a digest of the string is a digest of the contract.\<close>

theorem shape_canonical_injective: "canonicalShapeContract c = canonicalShapeContract d \<longleftrightarrow> c = d"
  using canonicalShapeContract_inj by blast

lemma validated_constraint:
  assumes "contract_typed c" "validateShapeValues c b = None" "map_of b n = Some v" "v \<le> int64_max"
  obtains sc where "map_of (symbols c) n = Some sc" "constraint_typed sc" "0 \<le> sc_min sc"
    "0 < multipleOf sc" "admits sc v"
proof -
  have wf: "contract_wf c" and keys: "fst ` set b \<subseteq> fst ` set (symbols c)"
    and declared: "\<forall>x \<in> set (symbols c). check_declared b x = None"
    using assms(1,2) validateShapeContract_wf by (auto simp: validateShapeValues_iff)
  have "n \<in> fst ` set (symbols c)" using keys map_of_SomeD [OF assms(3)] by force
  then obtain sc where sc: "(n, sc) \<in> set (symbols c)" by force
  have pos: "0 \<le> sc_min sc" "0 < multipleOf sc" using wf sc by (auto simp: contract_wf_def)
  have "check_constraint n v sc = None"
    using bspec [OF declared sc] assms(3) by (auto simp: check_declared_None)
  then have "admits sc v" using pos assms(4) by (simp add: admits_def check_constraint_None)
  moreover have "map_of (symbols c) n = Some sc" "constraint_typed sc"
    using assms(1) sc by (auto simp: contract_typed_def smap_find_iff)
  ultimately show thesis using pos that by blast
qed

text \<open>Predicate classification is conservative. For a validated contract and any binding that
  the complete-binding check accepts, a predicate classified as proven holds of the bound extent
  and a predicate classified as disproven fails of it (a divisibility predicate is asked for a
  positive divisor).\<close>

theorem shape_classification_conservative:
  assumes "contract_typed c" and "validateShapeValues c b = None"
    and "map_of b (pred_symbol p) = Some v" and "v \<le> int64_max"
    and "pred_kind p = DivisibleBy \<Longrightarrow> 0 < pred_value p"
  shows "(classifyPredicate p c = Proven \<longrightarrow> predicate_holds (pred_kind p) (pred_value p) v) \<and>
    (classifyPredicate p c = Disproven \<longrightarrow> \<not> predicate_holds (pred_kind p) (pred_value p) v)"
  using validated_constraint [OF assms(1-4)] classify_conservative assms(5) by metis

theorem shape_classification_conservative_witness:
  "classifyPredicate \<lparr>pred_kind = DivisibleBy, pred_symbol = ''N'', pred_value = 4\<rparr> rows_contract = Proven \<and>
   predicate_holds DivisibleBy 4 16"
proof -
  let ?p = "\<lparr>pred_kind = DivisibleBy, pred_symbol = ''N'', pred_value = 4\<rparr>"
  have "classifyPredicate ?p rows_contract = Proven"
    by (simp add: classifyPredicate_def rows_defs smod_nonneg_pos)
  with shape_classification_conservative [OF rows_typed rows_values_valid, of ?p 16]
  show ?thesis by (simp add: int64_max_def)
qed

end
