(* ===== verification/MicroEnums.thy ===== *)
theory MicroEnums
  imports Prelude
begin

text \<open>
  The enumerations of the canonical dialect and their text forms:
  \<^verbatim>\<open>include/LLK/Dialect/Micro/MicroEnums.h\<close>. Every enumeration has a stringifier and a
  symbolizer; the locale states what the parsers and verifiers rely on (the two are inverse to each
  other) and is interpreted for each of them.
\<close>

section \<open>The contract of an enumeration's text form\<close>

locale enum_text =
  fixes stringify :: "'a \<Rightarrow> string" and symbolize :: "string \<Rightarrow> 'a option"
  assumes symbolize_stringify: "symbolize (stringify v) = Some v"
    and stringify_symbolize: "symbolize s = Some v \<Longrightarrow> stringify v = s"
begin

lemma symbolize_iff: "symbolize s = Some v \<longleftrightarrow> s = stringify v"
  by (metis symbolize_stringify stringify_symbolize)

lemma stringify_inj: "stringify a = stringify b \<Longrightarrow> a = b"
  by (metis option.inject symbolize_stringify)

lemma symbolize_None_iff: "symbolize s = None \<longleftrightarrow> s \<notin> range stringify"
  by (metis imageE not_Some_eq rangeI symbolize_iff symbolize_stringify)

end

section \<open>The enumerations\<close>

datatype memory_space = Space_dram | Space_l2 | Space_sram | Space_rf | Space_acc | Space_scratch

fun stringifyMemorySpace :: "memory_space \<Rightarrow> string" where
  "stringifyMemorySpace Space_dram = ''dram''"
| "stringifyMemorySpace Space_l2 = ''l2''"
| "stringifyMemorySpace Space_sram = ''sram''"
| "stringifyMemorySpace Space_rf = ''rf''"
| "stringifyMemorySpace Space_acc = ''acc''"
| "stringifyMemorySpace Space_scratch = ''scratch''"

definition symbolizeMemorySpace :: "string \<Rightarrow> memory_space option" where
  "symbolizeMemorySpace str =
     (if str = ''dram'' then Some Space_dram
      else if str = ''l2'' then Some Space_l2
      else if str = ''sram'' then Some Space_sram
      else if str = ''rf'' then Some Space_rf
      else if str = ''acc'' then Some Space_acc
      else if str = ''scratch'' then Some Space_scratch
      else None)"

datatype dtype = DType_f32 | DType_f16 | DType_bf16 | DType_i32 | DType_i8

fun stringifyDType :: "dtype \<Rightarrow> string" where
  "stringifyDType DType_f32 = ''f32''"
| "stringifyDType DType_f16 = ''f16''"
| "stringifyDType DType_bf16 = ''bf16''"
| "stringifyDType DType_i32 = ''i32''"
| "stringifyDType DType_i8 = ''i8''"

definition symbolizeDType :: "string \<Rightarrow> dtype option" where
  "symbolizeDType str =
     (if str = ''f32'' then Some DType_f32
      else if str = ''f16'' then Some DType_f16
      else if str = ''bf16'' then Some DType_bf16
      else if str = ''i32'' then Some DType_i32
      else if str = ''i8'' then Some DType_i8
      else None)"

datatype layout_kind = Layout_row_major | Layout_col_major | Layout_blocked | Layout_vectorized | Layout_swizzled

fun stringifyLayoutKind :: "layout_kind \<Rightarrow> string" where
  "stringifyLayoutKind Layout_row_major = ''row_major''"
| "stringifyLayoutKind Layout_col_major = ''col_major''"
| "stringifyLayoutKind Layout_blocked = ''blocked''"
| "stringifyLayoutKind Layout_vectorized = ''vectorized''"
| "stringifyLayoutKind Layout_swizzled = ''swizzled''"

definition symbolizeLayoutKind :: "string \<Rightarrow> layout_kind option" where
  "symbolizeLayoutKind str =
     (if str = ''row_major'' then Some Layout_row_major
      else if str = ''col_major'' then Some Layout_col_major
      else if str = ''blocked'' then Some Layout_blocked
      else if str = ''vectorized'' then Some Layout_vectorized
      else if str = ''swizzled'' then Some Layout_swizzled
      else None)"

datatype gather_kind = Gather_sum | Gather_max | Gather_concat

fun stringifyGatherKind :: "gather_kind \<Rightarrow> string" where
  "stringifyGatherKind Gather_sum = ''sum''"
| "stringifyGatherKind Gather_max = ''max''"
| "stringifyGatherKind Gather_concat = ''concat''"

definition symbolizeGatherKind :: "string \<Rightarrow> gather_kind option" where
  "symbolizeGatherKind str =
     (if str = ''sum'' then Some Gather_sum
      else if str = ''max'' then Some Gather_max
      else if str = ''concat'' then Some Gather_concat
      else None)"

datatype barrier_scope = Scope_executor_group

fun stringifyBarrierScope :: "barrier_scope \<Rightarrow> string" where
  "stringifyBarrierScope Scope_executor_group = ''executor_group''"

definition symbolizeBarrierScope :: "string \<Rightarrow> barrier_scope option" where
  "symbolizeBarrierScope str =
     (if str = ''executor_group'' then Some Scope_executor_group
      else None)"

datatype owner = Owner_group | Owner_worker | Owner_vector | Owner_matrix | Owner_transfer

fun stringifyOwner :: "owner \<Rightarrow> string" where
  "stringifyOwner Owner_group = ''group''"
| "stringifyOwner Owner_worker = ''worker''"
| "stringifyOwner Owner_vector = ''vector''"
| "stringifyOwner Owner_matrix = ''matrix''"
| "stringifyOwner Owner_transfer = ''transfer''"

definition symbolizeOwner :: "string \<Rightarrow> owner option" where
  "symbolizeOwner str =
     (if str = ''group'' then Some Owner_group
      else if str = ''worker'' then Some Owner_worker
      else if str = ''vector'' then Some Owner_vector
      else if str = ''matrix'' then Some Owner_matrix
      else if str = ''transfer'' then Some Owner_transfer
      else None)"

definition layoutKindNeedsParameters :: "layout_kind \<Rightarrow> bool" where
  "layoutKindNeedsParameters kind \<longleftrightarrow> kind = Layout_blocked \<or> kind = Layout_swizzled"

section \<open>The symbolizers invert the stringifiers\<close>

interpretation memory_space: enum_text stringifyMemorySpace symbolizeMemorySpace
proof
  show "symbolizeMemorySpace (stringifyMemorySpace v) = Some v" for v
    by (cases v) (simp_all add: symbolizeMemorySpace_def)
  show "stringifyMemorySpace v = s" if "symbolizeMemorySpace s = Some v" for s v
    using that by (auto simp: symbolizeMemorySpace_def split: if_splits)
qed

interpretation dtype: enum_text stringifyDType symbolizeDType
proof
  show "symbolizeDType (stringifyDType v) = Some v" for v
    by (cases v) (simp_all add: symbolizeDType_def)
  show "stringifyDType v = s" if "symbolizeDType s = Some v" for s v
    using that by (auto simp: symbolizeDType_def split: if_splits)
qed

interpretation layout_kind: enum_text stringifyLayoutKind symbolizeLayoutKind
proof
  show "symbolizeLayoutKind (stringifyLayoutKind v) = Some v" for v
    by (cases v) (simp_all add: symbolizeLayoutKind_def)
  show "stringifyLayoutKind v = s" if "symbolizeLayoutKind s = Some v" for s v
    using that by (auto simp: symbolizeLayoutKind_def split: if_splits)
qed

interpretation gather_kind: enum_text stringifyGatherKind symbolizeGatherKind
proof
  show "symbolizeGatherKind (stringifyGatherKind v) = Some v" for v
    by (cases v) (simp_all add: symbolizeGatherKind_def)
  show "stringifyGatherKind v = s" if "symbolizeGatherKind s = Some v" for s v
    using that by (auto simp: symbolizeGatherKind_def split: if_splits)
qed

interpretation barrier_scope: enum_text stringifyBarrierScope symbolizeBarrierScope
proof
  show "symbolizeBarrierScope (stringifyBarrierScope v) = Some v" for v
    by (cases v) (simp_all add: symbolizeBarrierScope_def)
  show "stringifyBarrierScope v = s" if "symbolizeBarrierScope s = Some v" for s v
    using that by (auto simp: symbolizeBarrierScope_def split: if_splits)
qed

interpretation owner: enum_text stringifyOwner symbolizeOwner
proof
  show "symbolizeOwner (stringifyOwner v) = Some v" for v
    by (cases v) (simp_all add: symbolizeOwner_def)
  show "stringifyOwner v = s" if "symbolizeOwner s = Some v" for s v
    using that by (auto simp: symbolizeOwner_def split: if_splits)
qed

end
