(* ===== verification/Hash.thy ===== *)
theory Hash
  imports Prelude "HOL-Library.Word" "HOL-Library.Multiset"
begin

text \<open>
  Stable hashing: \<^verbatim>\<open>lib/Mapping/StableHash.cpp\<close> and \<^verbatim>\<open>lib/Machine/MachineHash.h\<close>. FNV-1a on
  64-bit words, the combination of hashes, the order-independent hash of a set and the fixed-width
  hexadecimal rendering of a hash as an identifier.
\<close>

unbundle bit_operations_syntax

section \<open>Operations\<close>

type_synonym uint64 = "64 word"

definition kFnvOffsetBasis :: uint64 where "kFnvOffsetBasis = 0xcbf29ce484222325"
definition kFnvPrime :: uint64 where "kFnvPrime = 0x100000001b3"

definition byte_word :: "char \<Rightarrow> uint64" where "byte_word c = of_nat (of_char c)"

definition fnv_step :: "uint64 \<Rightarrow> char \<Rightarrow> uint64" where
  "fnv_step hash raw = (hash XOR byte_word raw) * kFnvPrime"

definition stableHashBytes :: "uint64 \<Rightarrow> string \<Rightarrow> uint64" where
  "stableHashBytes seed data = foldl fnv_step seed data"

definition stableHash :: "string \<Rightarrow> uint64" where
  "stableHash data = stableHashBytes kFnvOffsetBasis data"

definition le_bytes :: "uint64 \<Rightarrow> string" where
  "le_bytes v = map (\<lambda>i. char_of (unat (drop_bit (8 * i) v AND 0xff))) [0..<8]"

definition stableHashCombine :: "uint64 \<Rightarrow> uint64 \<Rightarrow> uint64" where
  "stableHashCombine seed v = stableHashBytes seed (le_bytes v)"

definition stableHashSortedSet :: "uint64 list \<Rightarrow> uint64" where
  "stableHashSortedSet vals = foldl stableHashCombine kFnvOffsetBasis (sort vals)"

definition hex_digit :: "nat \<Rightarrow> char" where
  "hex_digit d = (if d < 10 then char_of (48 + d) else char_of (87 + d))"

text \<open>\<^verbatim>\<open>%016llx\<close>: sixteen lowercase digits, most significant first.\<close>

definition hexId :: "uint64 \<Rightarrow> string" where
  "hexId v = map (\<lambda>i. hex_digit (unat (drop_bit (4 * i) v AND 0xf))) (rev [0..<16])"

section \<open>One byte of FNV-1a is a bijection of the state\<close>

text \<open>The multiplier is odd, so it has an inverse modulo \<open>2 ^ 64\<close>.\<close>

definition kFnvInverse :: uint64 where "kFnvInverse = 0xce965057aff6957b"

lemma fnv_prime_inverse: "kFnvPrime * kFnvInverse = 1"
  by (simp add: kFnvPrime_def kFnvInverse_def)

lemma fnv_prime_cancel [simp]: "a * kFnvPrime = b * kFnvPrime \<longleftrightarrow> a = b"
proof
  assume "a * kFnvPrime = b * kFnvPrime"
  then have "a * (kFnvPrime * kFnvInverse) = b * (kFnvPrime * kFnvInverse)"
    by (simp flip: mult.assoc)
  then show "a = b" by (simp add: fnv_prime_inverse)
qed simp

lemma word_xor_cancel:
  "a XOR c = b XOR c \<longleftrightarrow> a = b" "c XOR a = c XOR b \<longleftrightarrow> a = b" for a b c :: "'a::len word"
  by (auto simp: bit_eq_iff bit_xor_iff)

lemma byte_word_inj [simp]: "byte_word c = byte_word d \<longleftrightarrow> c = d"
proof -
  have "(of_char x :: nat) < 2 ^ LENGTH(64)" for x :: char
    using nat_of_char_less_256 [of x] by (rule less_trans) simp
  then show ?thesis unfolding byte_word_def by (metis of_char_eq_iff unat_of_nat mod_less)
qed

lemma fnv_step_seed [simp]: "fnv_step a c = fnv_step b c \<longleftrightarrow> a = b"
  by (simp add: fnv_step_def word_xor_cancel)

lemma fnv_step_byte [simp]: "fnv_step a c = fnv_step a d \<longleftrightarrow> c = d"
  by (simp add: fnv_step_def word_xor_cancel)

lemma stableHashBytes_append: "stableHashBytes seed (xs @ ys) = stableHashBytes (stableHashBytes seed xs) ys"
  by (simp add: stableHashBytes_def)

lemma stableHashBytes_seed: "stableHashBytes a ys = stableHashBytes b ys \<longleftrightarrow> a = b"
  unfolding stableHashBytes_def by (induction ys arbitrary: a b) auto

section \<open>Chunks of a word\<close>

lemma word_eq_by_chunks:
  fixes v w :: "'a::len word"
  assumes "LENGTH('a) \<le> c * k" "0 < c"
    and chunk: "\<And>i. i < k \<Longrightarrow> drop_bit (c * i) v AND mask c = drop_bit (c * i) w AND mask c"
  shows "v = w"
proof (rule bit_word_eqI)
  fix n assume n: "n < LENGTH('a)"
  then have "n < k * c" using assms(1) by (simp add: mult.commute)
  then have "n div c < k" by (rule less_mult_imp_div_less)
  then have "bit (drop_bit (c * (n div c)) v AND mask c) (n mod c) = bit (drop_bit (c * (n div c)) w AND mask c) (n mod c)"
    using chunk by simp
  moreover have "c * (n div c) + n mod c = n" by simp
  ultimately show "bit v n = bit w n"
    using assms(2) n le_less_trans [OF mod_less_eq_dividend [of n c] n]
    by (simp add: bit_and_iff bit_mask_iff bit_drop_bit_eq)
qed

lemma mask_bound: "unat (v AND mask n) < 2 ^ n" for v :: "'a::len word"
  by (simp add: take_bit_eq_mask [symmetric] unsigned_take_bit_eq take_bit_nat_less_exp)

lemma le_bytes_inj: "le_bytes v = le_bytes w \<Longrightarrow> v = w"
proof (rule word_eq_by_chunks [where c = 8 and k = 8])
  fix i :: nat assume eq: "le_bytes v = le_bytes w" and i: "i < 8"
  have small: "unat (drop_bit (8 * i) u AND 0xff) < 256" for u :: uint64
    using mask_bound [of "drop_bit (8 * i) u" 8] by (simp add: mask_eq_exp_minus_1)
  from arg_cong [OF eq, of "\<lambda>xs. xs ! i"] i
  have "char_of (unat (drop_bit (8 * i) v AND 0xff)) = (char_of (unat (drop_bit (8 * i) w AND 0xff)) :: char)"
    by (simp add: le_bytes_def)
  then have "unat (drop_bit (8 * i) v AND 0xff) = unat (drop_bit (8 * i) w AND 0xff)"
    using small [of v] small [of w] by (metis char_of_eq_iff mod_less of_char_of)
  then show "drop_bit (8 * i) v AND mask 8 = drop_bit (8 * i) w AND mask 8"
    by (simp add: mask_eq_exp_minus_1 word_unat_eq_iff)
qed simp_all

lemma hex_digit_inj: "a < 16 \<Longrightarrow> b < 16 \<Longrightarrow> hex_digit a = hex_digit b \<Longrightarrow> a = b"
proof -
  assume "a < 16" "b < 16" "hex_digit a = hex_digit b"
  then have "(of_char (hex_digit a) :: nat) = of_char (hex_digit b)" by simp
  with \<open>a < 16\<close> \<open>b < 16\<close> show "a = b"
    by (auto simp: hex_digit_def of_char_of split: if_splits)
qed

lemma hexId_nth: "i < 16 \<Longrightarrow> hexId v ! (15 - i) = hex_digit (unat (drop_bit (4 * i) v AND 0xf))"
  by (simp add: hexId_def rev_map [symmetric] rev_nth)

lemma hexId_inj: "hexId v = hexId w \<Longrightarrow> v = w"
proof (rule word_eq_by_chunks [where c = 4 and k = 16])
  fix i :: nat assume eq: "hexId v = hexId w" and i: "i < 16"
  have small: "unat (drop_bit (4 * i) u AND 0xf) < 16" for u :: uint64
    using mask_bound [of "drop_bit (4 * i) u" 4] by (simp add: mask_eq_exp_minus_1)
  have "hex_digit (unat (drop_bit (4 * i) v AND 0xf)) = hex_digit (unat (drop_bit (4 * i) w AND 0xf))"
    using eq i by (metis hexId_nth)
  then have "unat (drop_bit (4 * i) v AND 0xf) = unat (drop_bit (4 * i) w AND 0xf)"
    by (rule hex_digit_inj [OF small small])
  then show "drop_bit (4 * i) v AND mask 4 = drop_bit (4 * i) w AND mask 4"
    by (simp add: mask_eq_exp_minus_1 word_unat_eq_iff)
qed simp_all

section \<open>Properties\<close>

text \<open>The byte hash never confuses strings that differ in one byte, and it separates seeds. Two
  strings equal except at one position hash apart under every seed, and the same bytes hashed
  from two seeds give equal results only for equal seeds, so combining the same
  values onto different states keeps the states apart.\<close>

theorem hash_single_byte:
  "(stableHashBytes seed (xs @ c # ys) = stableHashBytes seed (xs @ d # ys) \<longleftrightarrow> c = d) \<and>
   (stableHashCombine a v = stableHashCombine b v \<longleftrightarrow> a = b)"
proof -
  have "stableHashBytes seed (xs @ x # ys) = stableHashBytes (fnv_step (stableHashBytes seed xs) x) ys" for x
    by (simp add: stableHashBytes_def)
  then show ?thesis by (simp add: stableHashBytes_seed stableHashCombine_def)
qed

text \<open>The hash of a set does not depend on the order in which its values are listed, while the
  hash of the concatenated values it is defined by is computed over an injective little-endian
  byte rendering of the sorted values.\<close>

theorem hash_set_order_independent:
  "(mset vals = mset vals' \<longrightarrow> stableHashSortedSet vals = stableHashSortedSet vals') \<and>
   stableHashSortedSet vals = stableHash (concat (map le_bytes (sort vals))) \<and>
   (le_bytes v = le_bytes w \<longleftrightarrow> v = w)"
proof -
  have fold: "foldl stableHashCombine s vs = stableHashBytes s (concat (map le_bytes vs))" for s vs
    by (induction vs arbitrary: s) (simp_all add: stableHashCombine_def stableHashBytes_append stableHashBytes_def)
  have "sort vals = sort vals'" if "mset vals = mset vals'"
    using that by (metis properties_for_sort sorted_sort mset_sort)
  then show ?thesis
    using le_bytes_inj by (auto simp: stableHashSortedSet_def fold stableHash_def)
qed

theorem hash_set_order_independent_witness:
  "stableHashSortedSet [7, 1, 3] = stableHashSortedSet [3, 7, 1]"
  using hash_set_order_independent [of "[7, 1, 3]" "[3, 7, 1]" 0 0] by simp

text \<open>An identifier is a faithful fixed-width name of a hash: sixteen characters from the
  lowercase hexadecimal alphabet, equal only for equal hashes.\<close>

theorem hexId_fixed_width_injective:
  "length (hexId v) = 16 \<and> set (hexId v) \<subseteq> set ''0123456789abcdef'' \<and> (hexId v = hexId w \<longleftrightarrow> v = w)"
proof -
  have digit: "hex_digit d \<in> set ''0123456789abcdef''" if "d < 16" for d
  proof -
    have "\<forall>d \<in> set [0..<16]. hex_digit d \<in> set ''0123456789abcdef''" by code_simp
    with that show ?thesis by simp
  qed
  have "unat (drop_bit (4 * i) v AND 0xf) < 16" for i
    using mask_bound [of "drop_bit (4 * i) v" 4] by (simp add: mask_eq_exp_minus_1)
  with digit have "set (hexId v) \<subseteq> set ''0123456789abcdef''"
    unfolding hexId_def set_map by blast
  then show ?thesis using hexId_inj by (auto simp: hexId_def)
qed

end
