(* ===== verification/Machine.thy ===== *)
theory Machine
  imports Complex_Main Prelude MicroEnums Hash "HOL-Library.Multiset"
begin

text \<open>
  The machine topology: \<^verbatim>\<open>include/LLK/Machine/MachineModel.h\<close>,
  \<^verbatim>\<open>lib/Machine/MachineModel.cpp\<close> and \<^verbatim>\<open>lib/Machine/MachineHash.h\<close>. Node records, queries
  (containment, visibility, owner classes, counts), verification of a model, and the canonical
  string behind the content hash.
\<close>

section \<open>Floating-point fields\<close>

text \<open>A \<^verbatim>\<open>double\<close> is a finite rational, a negative zero or one of the non-finite values. The machine
  component only compares with zero and prints with six decimals (\<^verbatim>\<open>%.6f\<close> into a buffer of 32
  bytes, rounding to nearest with ties to even).\<close>

datatype double = Finite rat | NegZero | PlusInf | MinusInf | NotANumber

fun double_le_zero :: "double \<Rightarrow> bool" where
  "double_le_zero (Finite r) \<longleftrightarrow> r \<le> 0"
| "double_le_zero NegZero \<longleftrightarrow> True"
| "double_le_zero PlusInf \<longleftrightarrow> False"
| "double_le_zero MinusInf \<longleftrightarrow> True"
| "double_le_zero NotANumber \<longleftrightarrow> False"

definition round_half_even :: "rat \<Rightarrow> nat" where
  "round_half_even r =
     (let f = floor r; d = r - of_int f in
      nat (if d < 1 / 2 then f else if d > 1 / 2 then f + 1 else if even f then f else f + 1))"

definition pad_left :: "nat \<Rightarrow> string \<Rightarrow> string" where
  "pad_left n s = replicate (n - length s) CHR ''0'' @ s"

definition fixed6 :: "rat \<Rightarrow> string" where
  "fixed6 r = (let n = round_half_even (r * 1000000) in
     nat_to_string (n div 1000000) @ ''.'' @ pad_left 6 (nat_to_string (n mod 1000000)))"

definition printDouble :: "double \<Rightarrow> string" where
  "printDouble d = (case d of
     Finite r \<Rightarrow> if r < 0 then CHR ''-'' # fixed6 (- r) else fixed6 r
   | NegZero \<Rightarrow> ''-0.000000''
   | PlusInf \<Rightarrow> ''inf''
   | MinusInf \<Rightarrow> ''-inf''
   | NotANumber \<Rightarrow> ''nan'')"

definition formatDouble :: "double \<Rightarrow> string" where
  "formatDouble d = take 31 (printDouble d)"

section \<open>Data\<close>

datatype scheduling_class = InOrder | OutOfOrder

fun stringifySchedulingClass :: "scheduling_class \<Rightarrow> string" where
  "stringifySchedulingClass InOrder = ''in_order''"
| "stringifySchedulingClass OutOfOrder = ''out_of_order''"

definition symbolizeSchedulingClass :: "string \<Rightarrow> scheduling_class option" where
  "symbolizeSchedulingClass text =
     (if text = ''in_order'' then Some InOrder
      else if text = ''out_of_order'' then Some OutOfOrder
      else None)"

datatype link_directionality = Unidirectional | Bidirectional

fun stringifyLinkDirectionality :: "link_directionality \<Rightarrow> string" where
  "stringifyLinkDirectionality Unidirectional = ''unidirectional''"
| "stringifyLinkDirectionality Bidirectional = ''bidirectional''"

definition symbolizeLinkDirectionality :: "string \<Rightarrow> link_directionality option" where
  "symbolizeLinkDirectionality text =
     (if text = ''unidirectional'' then Some Unidirectional
      else if text = ''bidirectional'' then Some Bidirectional
      else None)"

record executor_node =
  ex_id :: string
  ex_kind :: string
  ex_parent :: "string option"
  ex_coordinates :: "int list"
  ex_concurrency :: nat
  ex_refines :: "string list"
  ex_schedulingClass :: scheduling_class
  ex_equivalentTo :: "string list"

record memory_node =
  mem_id :: string
  mem_kind :: string
  visibleFrom :: string
  capacityBytes :: nat
  alignmentBytes :: nat
  mem_supportedLayouts :: "string list"
  banks :: "nat option"
  mem_bandwidth :: double
  mem_latencyCycles :: nat
  accessGranularityBytes :: "nat option"

record compute_node =
  comp_id :: string
  comp_kind :: string
  comp_refines :: "string list"
  comp_attachedTo :: string
  elementTypes :: "string list"
  comp_supportedLayouts :: "string list"
  shapes :: "int list list"
  lanes :: "(string, int) smap"
  issueCycles :: nat
  comp_latencyCycles :: nat
  throughputPerCycle :: "double option"
  comp_concurrency :: nat
  accumulatorDTypes :: "string list"
  occupancyLimit :: "nat option"

record transfer_engine_node =
  te_id :: string
  te_kind :: string
  te_refines :: "string list"
  te_attachedTo :: string
  te_count :: nat
  maxOutstanding :: nat
  setupCycles :: nat

record link_edge =
  link_id :: string
  link_source :: string
  link_destination :: string
  link_bandwidth :: double
  link_latencyCycles :: nat
  transactionBytes :: nat
  link_transferEngines :: "string list"
  link_concurrency :: nat
  directionality :: link_directionality

record sync_model =
  barrierCycles :: nat
  waitCycles :: nat

record machine_model =
  schemaMajor :: nat
  schemaMinor :: nat
  target :: string
  description :: string
  clockHz :: "nat option"
  workerThreads :: nat
  sync :: sync_model
  executors :: "executor_node list"
  memories :: "memory_node list"
  computes :: "compute_node list"
  transferEngines :: "transfer_engine_node list"
  links :: "link_edge list"
  contentHash :: uint64

definition kSupportedSchemaMajor :: nat where "kSupportedSchemaMajor = 2"

section \<open>Queries\<close>

definition findById :: "('n \<Rightarrow> string) \<Rightarrow> 'n list \<Rightarrow> string \<Rightarrow> 'n option" where
  "findById idOf nodes i = find (\<lambda>node. idOf node = i) nodes"

definition findExecutor :: "machine_model \<Rightarrow> string \<Rightarrow> executor_node option" where
  "findExecutor m = findById ex_id (executors m)"

definition findMemory :: "machine_model \<Rightarrow> string \<Rightarrow> memory_node option" where
  "findMemory m = findById mem_id (memories m)"

definition findCompute :: "machine_model \<Rightarrow> string \<Rightarrow> compute_node option" where
  "findCompute m = findById comp_id (computes m)"

definition findTransferEngine :: "machine_model \<Rightarrow> string \<Rightarrow> transfer_engine_node option" where
  "findTransferEngine m = findById te_id (transferEngines m)"

definition findLink :: "machine_model \<Rightarrow> string \<Rightarrow> link_edge option" where
  "findLink m = findById link_id (links m)"

lemma findById_Some: "findById f xs i = Some x \<Longrightarrow> x \<in> set xs \<and> f x = i"
  by (auto simp: findById_def find_Some_iff)

lemma findById_None: "findById f xs i = None \<longleftrightarrow> i \<notin> f ` set xs"
  by (auto simp: findById_def find_None_iff)

lemma findById_unique: "distinct (map f xs) \<Longrightarrow> x \<in> set xs \<Longrightarrow> findById f xs (f x) = Some x"
  unfolding findById_def by (induction xs) auto

text \<open>The set of visited nodes holds addresses. Every node the walk reaches was returned by
  \<^verbatim>\<open>findExecutor\<close>, the first node with its id, so the model keeps ids. The lookup at the head of
  the recursion is the one that ends the loop body.\<close>

function within_walk :: "machine_model \<Rightarrow> string \<Rightarrow> string list \<Rightarrow> string \<Rightarrow> bool" where
  "within_walk m ancestorId visited nodeId =
     (case findExecutor m nodeId of
        None \<Rightarrow> False
      | Some current \<Rightarrow>
          if ex_id current = ancestorId then True
          else (case ex_parent current of
              None \<Rightarrow> False
            | Some p \<Rightarrow>
                if ex_id current \<in> set visited then False
                else within_walk m ancestorId (ex_id current # visited) p))"
  by pat_completeness auto

lemma unvisited_decreases:
  assumes "findExecutor m i = Some e" "ex_id e \<notin> set visited"
  shows "card (ex_id ` set (executors m) - set (ex_id e # visited)) < card (ex_id ` set (executors m) - set visited)"
proof (rule psubset_card_mono)
  have "ex_id e \<in> ex_id ` set (executors m)"
    using findById_Some assms(1) by (fastforce simp: findExecutor_def)
  with assms(2) show "ex_id ` set (executors m) - set (ex_id e # visited) \<subset> ex_id ` set (executors m) - set visited"
    by auto
qed simp

termination within_walk
  by (relation "measure (\<lambda>(m, a, visited, n). card (ex_id ` set (executors m) - set visited))")
    (auto intro: unvisited_decreases simp del: set_simps)

declare within_walk.simps [simp del]

definition isWithin :: "machine_model \<Rightarrow> string \<Rightarrow> string \<Rightarrow> bool" where
  "isWithin m nodeId ancestorId = within_walk m ancestorId [] nodeId"

definition ownerMatches :: "machine_model \<Rightarrow> string \<Rightarrow> string \<Rightarrow> bool" where
  "ownerMatches m ownerKind executorId =
     (case findExecutor m executorId of
        None \<Rightarrow> False
      | Some executor \<Rightarrow> ex_kind executor = ownerKind \<or> ownerKind \<in> set (ex_refines executor))"

text \<open>The state of the \<^verbatim>\<open>consider\<close> lambda: the class resolved so far and the conflict flag.\<close>

definition consider_class :: "string \<Rightarrow> string option \<times> bool \<Rightarrow> string option \<times> bool" where
  "consider_class refined s =
     (case symbolizeOwner refined of
        None \<Rightarrow> s
      | Some cls \<Rightarrow>
          (case fst s of
             Some r \<Rightarrow> if r \<noteq> stringifyOwner cls then (Some r, True) else s
           | None \<Rightarrow> (Some (stringifyOwner cls), snd s)))"

definition consider_refines :: "string list \<Rightarrow> string option \<times> bool \<Rightarrow> string option \<times> bool" where
  "consider_refines refines s = fold consider_class refines s"

definition consider_nodes ::
  "('n \<Rightarrow> string) \<Rightarrow> ('n \<Rightarrow> string list) \<Rightarrow> string \<Rightarrow> 'n list \<Rightarrow> string option \<times> bool \<Rightarrow> string option \<times> bool" where
  "consider_nodes kindOf refinesOf spelling nodes s =
     fold (\<lambda>node s. if kindOf node = spelling then consider_refines (refinesOf node) s else s) nodes s"

definition ownerClass :: "machine_model \<Rightarrow> string \<Rightarrow> string option" where
  "ownerClass m spelling =
     (case symbolizeOwner spelling of
        Some abstract \<Rightarrow> Some (stringifyOwner abstract)
      | None \<Rightarrow>
          (case consider_nodes te_kind te_refines spelling (transferEngines m)
                 (consider_nodes comp_kind comp_refines spelling (computes m)
                   (consider_nodes ex_kind ex_refines spelling (executors m) (None, False))) of
             (resolved, conflicting) \<Rightarrow> if conflicting then None else resolved))"

definition isVisible :: "machine_model \<Rightarrow> string \<Rightarrow> string \<Rightarrow> bool" where
  "isVisible m memoryId executorId =
     (case findMemory m memoryId of
        None \<Rightarrow> False
      | Some memory \<Rightarrow> isWithin m executorId (visibleFrom memory))"

definition findLinkByKinds :: "machine_model \<Rightarrow> string \<Rightarrow> string \<Rightarrow> link_edge option" where
  "findLinkByKinds m sourceKind destinationKind =
     find (\<lambda>link. case (findMemory m (link_source link), findMemory m (link_destination link)) of
         (Some s, Some d) \<Rightarrow> mem_kind s = sourceKind \<and> mem_kind d = destinationKind
       | _ \<Rightarrow> False) (links m)"

definition computesOfKind :: "machine_model \<Rightarrow> string \<Rightarrow> compute_node list" where
  "computesOfKind m kind = filter (\<lambda>node. comp_kind node = kind) (computes m)"

definition add32 :: "nat \<Rightarrow> nat \<Rightarrow> nat" where "add32 a b = (a + b) mod 4294967296"

definition transferEngineCount :: "machine_model \<Rightarrow> nat" where
  "transferEngineCount m = fold (\<lambda>engine count. add32 count (te_count engine)) (transferEngines m) 0"

definition primaryTransferEngine :: "machine_model \<Rightarrow> transfer_engine_node option" where
  "primaryTransferEngine m = (case transferEngines m of [] \<Rightarrow> None | e # _ \<Rightarrow> Some e)"

definition findMemoryOfKind :: "machine_model \<Rightarrow> string \<Rightarrow> memory_node option" where
  "findMemoryOfKind m kind = find (\<lambda>node. mem_kind node = kind) (memories m)"

definition ownerCount :: "machine_model \<Rightarrow> string \<Rightarrow> nat" where
  "ownerCount m ownerKind =
     fold (\<lambda>executor count.
         if ownerMatches m ownerKind (ex_id executor)
         then add32 count (max 1 (ex_concurrency executor)) else count)
       (executors m) 0"

definition hasOwnerKind :: "machine_model \<Rightarrow> string \<Rightarrow> bool" where
  "hasOwnerKind m ownerKind \<longleftrightarrow> ownerCount m ownerKind > 0"

definition lanesFor :: "machine_model \<Rightarrow> string \<Rightarrow> string \<Rightarrow> int option" where
  "lanesFor m computeKind elementType =
     (case find (\<lambda>node. comp_kind node = computeKind) (computes m) of
        None \<Rightarrow> None
      | Some node \<Rightarrow> map_of (lanes node) elementType)"

definition computesFor :: "machine_model \<Rightarrow> string \<Rightarrow> compute_node list" where
  "computesFor m executorId = filter (\<lambda>node. comp_attachedTo node = executorId) (computes m)"

definition transferEnginesFor :: "machine_model \<Rightarrow> string \<Rightarrow> transfer_engine_node list" where
  "transferEnginesFor m executorId = filter (\<lambda>node. te_attachedTo node = executorId) (transferEngines m)"

section \<open>Canonical string\<close>

fun joinStrings_from :: "string \<Rightarrow> string list \<Rightarrow> string \<Rightarrow> string" where
  "joinStrings_from out [] sep = out"
| "joinStrings_from out (p # ps) sep =
     joinStrings_from ((if out \<noteq> [] then out @ sep else out) @ p) ps sep"

definition joinStrings :: "string list \<Rightarrow> string \<Rightarrow> string" where
  "joinStrings parts sep = joinStrings_from [] parts sep"

definition joinNumbers :: "int list \<Rightarrow> string" where
  "joinNumbers vals = joinStrings (map int_to_string vals) '',''"

definition optionalString :: "string option \<Rightarrow> string" where
  "optionalString v = (case v of Some s \<Rightarrow> s | None \<Rightarrow> ''<none>'')"

definition optionalNumber :: "nat option \<Rightarrow> string" where
  "optionalNumber v = (case v of Some n \<Rightarrow> nat_to_string n | None \<Rightarrow> ''<none>'')"

definition renderExecutor :: "executor_node \<Rightarrow> string" where
  "renderExecutor node =
     ''executor|id='' @ ex_id node @
     ''|kind='' @ ex_kind node @
     ''|parent='' @ optionalString (ex_parent node) @
     ''|coordinates='' @ joinNumbers (ex_coordinates node) @
     ''|concurrency='' @ nat_to_string (ex_concurrency node) @
     ''|refines='' @ joinStrings (sort (ex_refines node)) '','' @
     ''|scheduling='' @ stringifySchedulingClass (ex_schedulingClass node) @
     ''|equivalent_to='' @ joinStrings (sort (ex_equivalentTo node)) '',''"

definition renderMemory :: "memory_node \<Rightarrow> string" where
  "renderMemory node =
     ''memory|id='' @ mem_id node @
     ''|kind='' @ mem_kind node @
     ''|visible_from='' @ visibleFrom node @
     ''|capacity='' @ nat_to_string (capacityBytes node) @
     ''|alignment='' @ nat_to_string (alignmentBytes node) @
     ''|layouts='' @ joinStrings (sort (mem_supportedLayouts node)) '','' @
     ''|banks='' @ optionalNumber (banks node) @
     ''|bandwidth='' @ formatDouble (mem_bandwidth node) @
     ''|latency='' @ nat_to_string (mem_latencyCycles node) @
     ''|access_granularity='' @ optionalNumber (accessGranularityBytes node)"

definition renderCompute :: "compute_node \<Rightarrow> string" where
  "renderCompute node =
     ''compute|id='' @ comp_id node @
     ''|kind='' @ comp_kind node @
     ''|refines='' @ joinStrings (sort (comp_refines node)) '','' @
     ''|attached_to='' @ comp_attachedTo node @
     ''|element_types='' @ joinStrings (sort (elementTypes node)) '','' @
     ''|layouts='' @ joinStrings (sort (comp_supportedLayouts node)) '','' @
     ''|shapes='' @ concat (map (\<lambda>shape. ''['' @ joinNumbers shape @ '']'') (shapes node)) @
     ''|lanes='' @ concat (map (\<lambda>(d, n). d @ '':'' @ int_to_string n @ '','') (lanes node)) @
     ''|issue='' @ nat_to_string (issueCycles node) @
     ''|latency='' @ nat_to_string (comp_latencyCycles node) @
     ''|throughput='' @ (case throughputPerCycle node of Some t \<Rightarrow> formatDouble t | None \<Rightarrow> ''<none>'') @
     ''|concurrency='' @ nat_to_string (comp_concurrency node) @
     ''|accumulator_dtypes='' @ joinStrings (sort (accumulatorDTypes node)) '','' @
     ''|occupancy='' @ optionalNumber (occupancyLimit node)"

definition renderTransferEngine :: "transfer_engine_node \<Rightarrow> string" where
  "renderTransferEngine node =
     ''transfer|id='' @ te_id node @
     ''|kind='' @ te_kind node @
     ''|refines='' @ joinStrings (sort (te_refines node)) '','' @
     ''|attached_to='' @ te_attachedTo node @
     ''|count='' @ nat_to_string (te_count node) @
     ''|max_outstanding='' @ nat_to_string (maxOutstanding node) @
     ''|setup='' @ nat_to_string (setupCycles node)"

definition renderLink :: "link_edge \<Rightarrow> string" where
  "renderLink node =
     ''link|id='' @ link_id node @
     ''|source='' @ link_source node @
     ''|destination='' @ link_destination node @
     ''|bandwidth='' @ formatDouble (link_bandwidth node) @
     ''|latency='' @ nat_to_string (link_latencyCycles node) @
     ''|transaction='' @ nat_to_string (transactionBytes node) @
     ''|engines='' @ joinStrings (sort (link_transferEngines node)) '','' @
     ''|concurrency='' @ nat_to_string (link_concurrency node) @
     ''|directionality='' @ stringifyLinkDirectionality (directionality node)"

text \<open>\<^verbatim>\<open>llvm::sort\<close> by id. It is not stable; the ids of a verified model are distinct, and then
  every sort gives this list.\<close>

definition renderSection :: "('n \<Rightarrow> string) \<Rightarrow> ('n \<Rightarrow> string) \<Rightarrow> 'n list \<Rightarrow> string" where
  "renderSection idOf render nodes =
     concat (map (\<lambda>node. render node @ [CHR 0x0A]) (sort_key idOf nodes))"

definition canonicalMachineString :: "machine_model \<Rightarrow> string" where
  "canonicalMachineString m =
     ''schema='' @ nat_to_string (schemaMajor m) @
     CHR 0x0A # ''target='' @ target m @
     CHR 0x0A # ''description='' @ description m @
     CHR 0x0A # ''clock_hz='' @ optionalNumber (clockHz m) @
     CHR 0x0A # ''worker_threads='' @ nat_to_string (workerThreads m) @
     CHR 0x0A # ''sync=barrier:'' @ nat_to_string (barrierCycles (sync m)) @
     '',wait:'' @ nat_to_string (waitCycles (sync m)) @
     CHR 0x0A # renderSection ex_id renderExecutor (executors m) @
     renderSection mem_id renderMemory (memories m) @
     renderSection comp_id renderCompute (computes m) @
     renderSection te_id renderTransferEngine (transferEngines m) @
     renderSection link_id renderLink (links m)"

definition computeContentHash :: "machine_model \<Rightarrow> uint64" where
  "computeContentHash m = stableHash (canonicalMachineString m)"

section \<open>Verification of a model\<close>

datatype machine_section = Executors | Memories | Compute | TransferEngines | Links

datatype machine_fault =
    EmptyId
  | DuplicateId string
  | UnknownOwnerKind string
  | NotAnAbstractClass string
  | ZeroConcurrency
  | UnknownParent string
  | SelfEquivalent string
  | UnknownEquivalent string
  | EquivalentKindMismatch string string string
  | NotMutual string string
  | ContainmentCycle
  | UnknownMemoryKind string
  | UnknownVisibleFrom string
  | ZeroCapacity
  | ZeroAlignment
  | ZeroAccessGranularity
  | UnknownComputeKind string
  | UnknownAttachedTo string
  | ZeroOccupancy
  | NoShapes
  | EmptyShape
  | NonPositiveExtent
  | NonPositiveLanes string
  | UnknownTransferKind string
  | ZeroCount
  | ZeroMaxOutstanding
  | UnknownSource string
  | UnknownDestination string
  | NonPositiveBandwidth
  | ZeroTransaction
  | UnknownTransferEngine string

datatype machine_error =
    UnsupportedSchema nat
  | EmptyTarget
  | ZeroClock
  | ZeroWorkers
  | Invalid machine_section nat machine_fault

definition isKnownOwnerKind :: "machine_model \<Rightarrow> string \<Rightarrow> bool" where
  "isKnownOwnerKind m kind \<longleftrightarrow> ownerClass m kind \<noteq> None"

definition isKnownMemoryKind :: "string \<Rightarrow> bool" where
  "isKnownMemoryKind kind \<longleftrightarrow> symbolizeMemorySpace kind \<noteq> None"

definition isKnownComputeKind :: "machine_model \<Rightarrow> string \<Rightarrow> bool" where
  "isKnownComputeKind m kind =
     (case ownerClass m kind of
        None \<Rightarrow> False
      | Some cls \<Rightarrow> cls = stringifyOwner Owner_matrix \<or> cls = stringifyOwner Owner_vector)"

definition isKnownTransferKind :: "machine_model \<Rightarrow> string \<Rightarrow> bool" where
  "isKnownTransferKind m kind =
     (case ownerClass m kind of None \<Rightarrow> False | Some cls \<Rightarrow> cls = stringifyOwner Owner_transfer)"

text \<open>\<^verbatim>\<open>checkId\<close> over the five sections, which share one namespace.\<close>

fun check_ids :: "string list \<Rightarrow> (machine_section \<times> nat \<times> string) list \<Rightarrow> machine_error option" where
  "check_ids seenIds [] = None"
| "check_ids seenIds ((sec, i, nodeId) # rest) =
     (if nodeId = [] then Some (Invalid sec i EmptyId)
      else if nodeId \<in> set seenIds then Some (Invalid sec i (DuplicateId nodeId))
      else check_ids (nodeId # seenIds) rest)"

definition section_ids :: "machine_section \<Rightarrow> ('n \<Rightarrow> string) \<Rightarrow> 'n list \<Rightarrow> (machine_section \<times> nat \<times> string) list" where
  "section_ids sec idOf nodes = map (\<lambda>(i, node). (sec, i, idOf node)) (enumerate 0 nodes)"

definition all_ids :: "machine_model \<Rightarrow> (machine_section \<times> nat \<times> string) list" where
  "all_ids m =
     section_ids Executors ex_id (executors m) @
     section_ids Memories mem_id (memories m) @
     section_ids Compute comp_id (computes m) @
     section_ids TransferEngines te_id (transferEngines m) @
     section_ids Links link_id (links m)"

definition check_nodes ::
  "machine_section \<Rightarrow> ('n \<Rightarrow> machine_fault option) \<Rightarrow> 'n list \<Rightarrow> machine_error option" where
  "check_nodes sec check nodes =
     first_error (\<lambda>(i, node). map_option (Invalid sec i) (check node)) (enumerate 0 nodes)"

definition fail_if :: "bool \<Rightarrow> 'e \<Rightarrow> 'e option" where
  "fail_if b e = (if b then Some e else None)"

definition check_refines :: "string list \<Rightarrow> machine_fault option" where
  "check_refines refines =
     first_error (\<lambda>refined. fail_if (symbolizeOwner refined = None) (NotAnAbstractClass refined)) refines"

definition check_equivalent :: "machine_model \<Rightarrow> executor_node \<Rightarrow> string \<Rightarrow> machine_fault option" where
  "check_equivalent m executor equivalent =
     (if equivalent = ex_id executor then Some (SelfEquivalent (ex_id executor))
      else (case findExecutor m equivalent of
          None \<Rightarrow> Some (UnknownEquivalent equivalent)
        | Some other \<Rightarrow>
            if ex_kind other \<noteq> ex_kind executor
            then Some (EquivalentKindMismatch equivalent (ex_kind other) (ex_kind executor))
            else fail_if (ex_id executor \<notin> set (ex_equivalentTo other))
                (NotMutual equivalent (ex_id executor))))"

definition check_executor :: "machine_model \<Rightarrow> executor_node \<Rightarrow> machine_fault option" where
  "check_executor m executor =
     orElse (fail_if (\<not> isKnownOwnerKind m (ex_kind executor)) (UnknownOwnerKind (ex_kind executor)))
    (orElse (check_refines (ex_refines executor))
    (orElse (fail_if (ex_concurrency executor = 0) ZeroConcurrency)
    (orElse (case ex_parent executor of
               None \<Rightarrow> None
             | Some p \<Rightarrow> fail_if (findExecutor m p = None) (UnknownParent p))
       (first_error (check_equivalent m executor) (ex_equivalentTo executor)))))"

text \<open>The walk of the containment check. Its visited set holds addresses; ids have been checked to
  be distinct before, so the model keeps ids.\<close>

function chain_cycles :: "machine_model \<Rightarrow> string list \<Rightarrow> string \<Rightarrow> bool" where
  "chain_cycles m visited nodeId =
     (case findExecutor m nodeId of
        None \<Rightarrow> False
      | Some current \<Rightarrow>
          if ex_id current \<in> set visited then True
          else (case ex_parent current of
              None \<Rightarrow> False
            | Some p \<Rightarrow> chain_cycles m (ex_id current # visited) p))"
  by pat_completeness auto

termination chain_cycles
  by (relation "measure (\<lambda>(m, visited, n). card (ex_id ` set (executors m) - set visited))")
    (auto intro: unvisited_decreases simp del: set_simps)

declare chain_cycles.simps [simp del]

definition check_containment :: "machine_model \<Rightarrow> executor_node \<Rightarrow> machine_fault option" where
  "check_containment m executor = fail_if (chain_cycles m [] (ex_id executor)) ContainmentCycle"

definition check_memory :: "machine_model \<Rightarrow> memory_node \<Rightarrow> machine_fault option" where
  "check_memory m memory =
     orElse (fail_if (\<not> isKnownMemoryKind (mem_kind memory)) (UnknownMemoryKind (mem_kind memory)))
    (orElse (fail_if (findExecutor m (visibleFrom memory) = None) (UnknownVisibleFrom (visibleFrom memory)))
    (orElse (fail_if (capacityBytes memory = 0) ZeroCapacity)
    (orElse (fail_if (alignmentBytes memory = 0) ZeroAlignment)
       (fail_if (accessGranularityBytes memory = Some 0) ZeroAccessGranularity))))"

definition check_shape :: "int list \<Rightarrow> machine_fault option" where
  "check_shape shape =
     orElse (fail_if (shape = []) EmptyShape)
       (first_error (\<lambda>extent. fail_if (extent \<le> 0) NonPositiveExtent) shape)"

definition check_compute :: "machine_model \<Rightarrow> compute_node \<Rightarrow> machine_fault option" where
  "check_compute m compute =
     orElse (fail_if (\<not> isKnownComputeKind m (comp_kind compute)) (UnknownComputeKind (comp_kind compute)))
    (orElse (check_refines (comp_refines compute))
    (orElse (fail_if (findExecutor m (comp_attachedTo compute) = None) (UnknownAttachedTo (comp_attachedTo compute)))
    (orElse (fail_if (comp_concurrency compute = 0) ZeroConcurrency)
    (orElse (fail_if (occupancyLimit compute = Some 0) ZeroOccupancy)
    (orElse (fail_if (shapes compute = []) NoShapes)
    (orElse (first_error check_shape (shapes compute))
       (first_error (\<lambda>(dtype, n). fail_if (n \<le> 0) (NonPositiveLanes dtype)) (lanes compute))))))))"

definition check_transfer_engine :: "machine_model \<Rightarrow> transfer_engine_node \<Rightarrow> machine_fault option" where
  "check_transfer_engine m engine =
     orElse (fail_if (\<not> isKnownTransferKind m (te_kind engine)) (UnknownTransferKind (te_kind engine)))
    (orElse (check_refines (te_refines engine))
    (orElse (fail_if (findExecutor m (te_attachedTo engine) = None) (UnknownAttachedTo (te_attachedTo engine)))
    (orElse (fail_if (te_count engine = 0) ZeroCount)
       (fail_if (maxOutstanding engine = 0) ZeroMaxOutstanding))))"

definition check_link :: "machine_model \<Rightarrow> link_edge \<Rightarrow> machine_fault option" where
  "check_link m link =
     orElse (fail_if (findMemory m (link_source link) = None) (UnknownSource (link_source link)))
    (orElse (fail_if (findMemory m (link_destination link) = None) (UnknownDestination (link_destination link)))
    (orElse (fail_if (double_le_zero (link_bandwidth link)) NonPositiveBandwidth)
    (orElse (fail_if (transactionBytes link = 0) ZeroTransaction)
    (orElse (fail_if (link_concurrency link = 0) ZeroConcurrency)
       (first_error (\<lambda>engine. fail_if (findTransferEngine m engine = None) (UnknownTransferEngine engine))
          (link_transferEngines link))))))"

definition verifyMachineModel :: "machine_model \<Rightarrow> machine_error option" where
  "verifyMachineModel m =
     orElse (fail_if (schemaMajor m \<noteq> kSupportedSchemaMajor) (UnsupportedSchema (schemaMajor m)))
    (orElse (fail_if (target m = []) EmptyTarget)
    (orElse (fail_if (clockHz m = Some 0) ZeroClock)
    (orElse (fail_if (workerThreads m = 0) ZeroWorkers)
    (orElse (check_ids [] (all_ids m))
    (orElse (check_nodes Executors (check_executor m) (executors m))
    (orElse (check_nodes Executors (check_containment m) (executors m))
    (orElse (check_nodes Memories (check_memory m) (memories m))
    (orElse (check_nodes Compute (check_compute m) (computes m))
    (orElse (check_nodes TransferEngines (check_transfer_engine m) (transferEngines m))
       (check_nodes Links (check_link m) (links m)))))))))))"

section \<open>Text forms\<close>

interpretation scheduling_class: enum_text stringifySchedulingClass symbolizeSchedulingClass
proof
  show "symbolizeSchedulingClass (stringifySchedulingClass v) = Some v" for v
    by (cases v) (simp_all add: symbolizeSchedulingClass_def)
  show "stringifySchedulingClass v = s" if "symbolizeSchedulingClass s = Some v" for s v
    using that by (auto simp: symbolizeSchedulingClass_def split: if_splits)
qed

interpretation link_directionality: enum_text stringifyLinkDirectionality symbolizeLinkDirectionality
proof
  show "symbolizeLinkDirectionality (stringifyLinkDirectionality v) = Some v" for v
    by (cases v) (simp_all add: symbolizeLinkDirectionality_def)
  show "stringifyLinkDirectionality v = s" if "symbolizeLinkDirectionality s = Some v" for s v
    using that by (auto simp: symbolizeLinkDirectionality_def split: if_splits)
qed

section \<open>Containment\<close>

text \<open>The parent relation of a model, by id.\<close>

definition parent_rel :: "machine_model \<Rightarrow> (string \<times> string) set" where
  "parent_rel m = {(a, b). \<exists>e. findExecutor m a = Some e \<and> ex_parent e = Some b}"

lemma findExecutor_id: "findExecutor m i = Some e \<Longrightarrow> ex_id e = i"
  by (simp add: findExecutor_def findById_Some)

lemma findExecutor_mem: "findExecutor m i = Some e \<Longrightarrow> e \<in> set (executors m)"
  by (simp add: findExecutor_def findById_Some)

lemma parent_rel_functional: "(a, b) \<in> parent_rel m \<Longrightarrow> (a, c) \<in> parent_rel m \<Longrightarrow> b = c"
  by (auto simp: parent_rel_def)

lemma closed_rtrancl:
  assumes "(x, y) \<in> r\<^sup>*" "x \<in> V" "\<And>v w. v \<in> V \<Longrightarrow> (v, w) \<in> r \<Longrightarrow> w \<in> V"
  shows "y \<in> V"
  using assms(1,2) by (induction rule: rtrancl_induct) (auto intro: assms(3))

text \<open>The walk stops early only after it has closed a cycle that the ancestor is not on.\<close>

lemma within_walk_iff:
  assumes "a \<notin> set visited" and "\<And>v w. v \<in> set visited \<Longrightarrow> (v, w) \<in> parent_rel m \<Longrightarrow> w \<in> insert n (set visited)"
  shows "within_walk m a visited n \<longleftrightarrow> findExecutor m a \<noteq> None \<and> (n, a) \<in> (parent_rel m)\<^sup>*"
  using assms
proof (induction m a visited n rule: within_walk.induct)
  case (1 m a visited n)
  show ?case
  proof (cases "findExecutor m n")
    case None
    then have "(n, b) \<notin> parent_rel m" for b by (simp add: parent_rel_def)
    then have "(n, a) \<in> (parent_rel m)\<^sup>* \<Longrightarrow> a = n" by (metis converse_rtranclE)
    with None show ?thesis by (auto simp: within_walk.simps [of m a visited n])
  next
    case (Some e)
    note e = Some findExecutor_id [OF Some]
    show ?thesis
    proof (cases "n = a \<or> ex_parent e = None")
      case True
      then have "n = a \<or> (\<forall>b. (n, b) \<notin> parent_rel m)" using e by (auto simp: parent_rel_def)
      then have "(n, a) \<in> (parent_rel m)\<^sup>* \<longleftrightarrow> n = a" by (metis converse_rtranclE rtrancl.rtrancl_refl)
      with True e show ?thesis by (auto simp: within_walk.simps [of m a visited n])
    next
      case False
      then obtain p where p: "ex_parent e = Some p" "n \<noteq> a" by auto
      have edge: "(n, p) \<in> parent_rel m" using e p by (auto simp: parent_rel_def)
      show ?thesis
      proof (cases "n \<in> set visited")
        case True
        then have "(n, a) \<notin> (parent_rel m)\<^sup>*"
          using "1.prems" closed_rtrancl [of n a "parent_rel m" "set visited"] by blast
        with True e p show ?thesis by (simp add: within_walk.simps [of m a visited n])
      next
        case False
        have "within_walk m a (n # visited) p \<longleftrightarrow> findExecutor m a \<noteq> None \<and> (p, a) \<in> (parent_rel m)\<^sup>*"
        proof -
          have closed: "w \<in> insert p (set (ex_id e # visited))"
            if "v \<in> set (ex_id e # visited)" "(v, w) \<in> parent_rel m" for v w
            using that "1.prems"(2) edge parent_rel_functional e(2) by fastforce
          show ?thesis using "1.IH" [OF e(1) _ p(1)] False e(2) p "1.prems"(1) closed by auto
        qed
        moreover have "(n, a) \<in> (parent_rel m)\<^sup>* \<longleftrightarrow> (p, a) \<in> (parent_rel m)\<^sup>*"
          using edge p(2) parent_rel_functional by (metis converse_rtranclE converse_rtrancl_into_rtrancl)
        ultimately show ?thesis using False e p by (simp add: within_walk.simps [of m a visited n])
      qed
    qed
  qed
qed

lemma isWithin_rtrancl:
  "isWithin m n a \<longleftrightarrow> findExecutor m a \<noteq> None \<and> (n, a) \<in> (parent_rel m)\<^sup>*"
  unfolding isWithin_def by (rule within_walk_iff) auto

lemma no_chain_cycle_acc: "\<not> chain_cycles m visited n \<Longrightarrow> n \<in> Wellfounded.acc ((parent_rel m)\<inverse>)"
proof (induction m visited n rule: chain_cycles.induct)
  case (1 m visited n)
  have "p \<in> Wellfounded.acc ((parent_rel m)\<inverse>)" if edge: "(p, n) \<in> (parent_rel m)\<inverse>" for p
  proof -
    obtain e where e: "findExecutor m n = Some e" "ex_parent e = Some p"
      using edge by (auto simp: parent_rel_def)
    then have "\<not> chain_cycles m (ex_id e # visited) p" "ex_id e \<notin> set visited"
      using "1.prems" by (auto simp: chain_cycles.simps [of m visited n] split: if_splits)
    then show ?thesis using "1.IH" e by blast
  qed
  then show ?case by (rule accI)
qed

lemma chain_cycle_cyclic:
  assumes "chain_cycles m visited n" "\<And>v. v \<in> set visited \<Longrightarrow> (v, n) \<in> (parent_rel m)\<^sup>+"
  shows "\<not> acyclic (parent_rel m)"
  using assms
proof (induction m visited n rule: chain_cycles.induct)
  case (1 m visited n)
  obtain e where e: "findExecutor m n = Some e" "ex_id e = n"
    using "1.prems"(1) findExecutor_id by (auto simp: chain_cycles.simps [of m visited n] split: option.splits)
  show ?case
  proof (cases "n \<in> set visited")
    case True
    then show ?thesis using "1.prems"(2) [of n] by (auto simp: acyclic_def)
  next
    case False
    then obtain p where p: "ex_parent e = Some p" "chain_cycles m (ex_id e # visited) p"
      using "1.prems"(1) e by (auto simp: chain_cycles.simps [of m visited n] split: option.splits)
    have edge: "(n, p) \<in> parent_rel m" using e p by (auto simp: parent_rel_def)
    have "(v, p) \<in> (parent_rel m)\<^sup>+" if "v \<in> set (ex_id e # visited)" for v
      using that e(2) edge "1.prems"(2) by (auto intro: trancl_into_trancl)
    then show ?thesis using "1.IH" [OF e(1) _ p] False e(2) by blast
  qed
qed

lemma containment_checked_acyclic:
  "(\<forall>e \<in> set (executors m). check_containment m e = None) \<longleftrightarrow> acyclic (parent_rel m)"
proof
  assume checked: "\<forall>e \<in> set (executors m). check_containment m e = None"
  have "n \<in> Wellfounded.acc ((parent_rel m)\<inverse>)" for n
  proof (cases "findExecutor m n")
    case None
    then show ?thesis by (auto simp: parent_rel_def intro: accI)
  next
    case (Some e)
    then have "\<not> chain_cycles m [] n"
      using checked findExecutor_mem findExecutor_id
      by (fastforce simp: check_containment_def fail_if_def split: if_splits)
    then show ?thesis by (rule no_chain_cycle_acc)
  qed
  then have "wf ((parent_rel m)\<inverse>)" by (simp add: wf_iff_acc)
  then show "acyclic (parent_rel m)" using wf_acyclic acyclic_converse by blast
next
  assume "acyclic (parent_rel m)"
  then show "\<forall>e \<in> set (executors m). check_containment m e = None"
    using chain_cycle_cyclic [of m "[]"] by (auto simp: check_containment_def fail_if_def)
qed

section \<open>Owner classes\<close>

text \<open>The abstract classes a list of refinements names.\<close>

definition abstract_classes :: "string list \<Rightarrow> string set" where
  "abstract_classes refines = {c \<in> set refines. symbolizeOwner c \<noteq> None}"

text \<open>The classes the nodes of a kind declare, over the three sections that carry aliases.\<close>

definition denoted :: "machine_model \<Rightarrow> string \<Rightarrow> string set" where
  "denoted m spelling =
     (\<Union>e \<in> {e \<in> set (executors m). ex_kind e = spelling}. abstract_classes (ex_refines e)) \<union>
     (\<Union>c \<in> {c \<in> set (computes m). comp_kind c = spelling}. abstract_classes (comp_refines c)) \<union>
     (\<Union>t \<in> {t \<in> set (transferEngines m). te_kind t = spelling}. abstract_classes (te_refines t))"

text \<open>What the alias scan knows after it has seen the classes \<open>S\<close>.\<close>

definition summarises :: "string option \<times> bool \<Rightarrow> string set \<Rightarrow> bool" where
  "summarises s S \<longleftrightarrow>
     (case fst s of None \<Rightarrow> S = {} \<and> \<not> snd s
      | Some r \<Rightarrow> r \<in> S \<and> (snd s \<longleftrightarrow> S \<noteq> {r}))"

lemma summarises_class:
  "summarises s S \<Longrightarrow> summarises (consider_class c s) (S \<union> abstract_classes [c])"
proof (cases "symbolizeOwner c")
  case None
  then have "abstract_classes [c] = {}" by (simp add: abstract_classes_def)
  then show "summarises s S \<Longrightarrow> ?thesis" using None by (simp add: consider_class_def)
next
  case (Some cls)
  then have "stringifyOwner cls = c" by (rule owner.stringify_symbolize)
  moreover have "abstract_classes [c] = {c}" using Some by (auto simp: abstract_classes_def)
  ultimately show "summarises s S \<Longrightarrow> ?thesis"
    using Some by (cases s; cases "fst s") (auto simp: summarises_def consider_class_def)
qed

lemma abstract_classes_Cons: "abstract_classes (c # cs) = abstract_classes [c] \<union> abstract_classes cs"
  by (auto simp: abstract_classes_def)

lemma summarises_refines:
  "summarises s S \<Longrightarrow> summarises (consider_refines cs s) (S \<union> abstract_classes cs)"
proof (induction cs arbitrary: s S)
  case Nil
  then show ?case by (simp add: consider_refines_def abstract_classes_def)
next
  case (Cons c cs)
  have "summarises (consider_refines cs (consider_class c s)) ((S \<union> abstract_classes [c]) \<union> abstract_classes cs)"
    by (rule Cons.IH [OF summarises_class [OF Cons.prems]])
  then show ?case by (simp add: consider_refines_def abstract_classes_Cons [of c cs] Un_assoc)
qed

lemma summarises_nodes:
  "summarises s S \<Longrightarrow> summarises (consider_nodes kindOf refinesOf k nodes s)
     (S \<union> (\<Union>n \<in> {n \<in> set nodes. kindOf n = k}. abstract_classes (refinesOf n)))"
proof (induction nodes arbitrary: s S)
  case Nil
  then show ?case by (simp add: consider_nodes_def)
next
  case (Cons n nodes)
  let ?s = "if kindOf n = k then consider_refines (refinesOf n) s else s"
  let ?S = "if kindOf n = k then S \<union> abstract_classes (refinesOf n) else S"
  have "summarises ?s ?S" using Cons.prems summarises_refines by simp
  then have "summarises (consider_nodes kindOf refinesOf k nodes ?s)
      (?S \<union> (\<Union>n \<in> {n \<in> set nodes. kindOf n = k}. abstract_classes (refinesOf n)))"
    by (rule Cons.IH)
  moreover have "?S \<union> (\<Union>n \<in> {n \<in> set nodes. kindOf n = k}. abstract_classes (refinesOf n)) =
      S \<union> (\<Union>n' \<in> {n' \<in> set (n # nodes). kindOf n' = k}. abstract_classes (refinesOf n'))"
    by auto
  ultimately show ?case by (simp add: consider_nodes_def)
qed

lemma summarises_verdict: "summarises (r, f) S \<Longrightarrow> (if f then None else r) = Some c \<longleftrightarrow> S = {c}"
  by (cases r; cases f) (auto simp: summarises_def)

lemma ownerClass_iff:
  "ownerClass m spelling = Some c \<longleftrightarrow>
     (if symbolizeOwner spelling \<noteq> None then c = spelling else denoted m spelling = {c})"
proof (cases "symbolizeOwner spelling")
  case None
  obtain r f where scan: "consider_nodes te_kind te_refines spelling (transferEngines m)
      (consider_nodes comp_kind comp_refines spelling (computes m)
        (consider_nodes ex_kind ex_refines spelling (executors m) (None, False))) = (r, f)"
    by (cases "consider_nodes te_kind te_refines spelling (transferEngines m)
      (consider_nodes comp_kind comp_refines spelling (computes m)
        (consider_nodes ex_kind ex_refines spelling (executors m) (None, False)))")
  have "summarises (None, False) {}" by (simp add: summarises_def)
  from summarises_nodes [OF summarises_nodes [OF summarises_nodes [OF this]],
      of te_kind te_refines spelling "transferEngines m" comp_kind comp_refines spelling "computes m"
        ex_kind ex_refines spelling "executors m"]
  have "summarises (r, f) (denoted m spelling)"
    by (simp only: scan denoted_def Un_empty_left)
  moreover have "ownerClass m spelling = (if f then None else r)"
    using None scan by (simp add: ownerClass_def)
  ultimately show ?thesis
    using None summarises_verdict by simp
next
  case (Some o')
  then show ?thesis using owner.stringify_symbolize [OF Some] by (auto simp: ownerClass_def)
qed

section \<open>Order independence of the canonical string\<close>

lemma sort_key_distinct_unique:
  fixes f :: "'a \<Rightarrow> 'b::linorder"
  assumes "distinct (map f xs)" "mset xs = mset ys"
  shows "sort_key f xs = sort_key f ys"
proof -
  have set: "set xs = set ys" using assms(2) by (rule mset_eq_setD)
  have dist: "distinct (map f ys)"
    using assms by (metis mset_map mset_eq_imp_distinct_iff)
  have d: "distinct (map f (sort_key f zs))" if "distinct (map f zs)" for zs
    using that by (metis mset_map mset_sort mset_eq_imp_distinct_iff)
  have "map f (sort_key f xs) = map f (sort_key f ys)"
    using d [OF assms(1)] d [OF dist] set by (intro sorted_distinct_set_unique) auto
  moreover have "inj_on f (set (sort_key f xs) \<union> set (sort_key f ys))"
    using assms(1) set by (simp add: distinct_map)
  ultimately show ?thesis by (rule map_inj_on)
qed

lemma renderSection_order:
  "distinct (map idOf xs) \<Longrightarrow> mset xs = mset ys \<Longrightarrow> renderSection idOf render xs = renderSection idOf render ys"
  by (simp add: renderSection_def sort_key_distinct_unique)

section \<open>What verification establishes\<close>

lemma fail_if_None [simp]: "fail_if b e = None \<longleftrightarrow> \<not> b"
  by (simp add: fail_if_def)

lemma check_nodes_None [simp]:
  "check_nodes sec check nodes = None \<longleftrightarrow> (\<forall>node \<in> set nodes. check node = None)"
proof -
  have "set nodes = snd ` set (enumerate 0 nodes)" by (metis map_snd_enumerate set_map)
  then show ?thesis by (auto simp: check_nodes_def)
qed

lemma check_ids_None:
  "check_ids seen xs = None \<longleftrightarrow>
     distinct (map (snd \<circ> snd) xs) \<and> (\<forall>x \<in> set xs. snd (snd x) \<noteq> []) \<and> (snd \<circ> snd) ` set xs \<inter> set seen = {}"
  by (induction seen xs rule: check_ids.induct) auto

definition node_ids :: "machine_model \<Rightarrow> string list" where
  "node_ids m = map ex_id (executors m) @ map mem_id (memories m) @ map comp_id (computes m) @
     map te_id (transferEngines m) @ map link_id (links m)"

lemma section_ids_ids [simp]: "map (snd \<circ> snd) (section_ids sec f nodes) = map f nodes"
proof -
  have "map (snd \<circ> snd) (section_ids sec f nodes) = map f (map snd (enumerate 0 nodes))"
    unfolding section_ids_def map_map by (rule map_cong) auto
  then show ?thesis by simp
qed

lemma check_all_ids: "check_ids [] (all_ids m) = None \<longleftrightarrow> distinct (node_ids m) \<and> [] \<notin> set (node_ids m)"
proof -
  have ids: "map (snd \<circ> snd) (all_ids m) = node_ids m"
    by (simp add: all_ids_def node_ids_def)
  have "(\<forall>x \<in> set (all_ids m). snd (snd x) \<noteq> []) \<longleftrightarrow> [] \<notin> set (map (snd \<circ> snd) (all_ids m))"
    by (metis (mono_tags, lifting) comp_apply image_iff list.set_map)
  then show ?thesis unfolding ids [symmetric] check_ids_None by simp
qed

lemma check_refines_None [simp]: "check_refines cs = None \<longleftrightarrow> (\<forall>c \<in> set cs. symbolizeOwner c \<noteq> None)"
  by (auto simp: check_refines_def)

lemma check_equivalent_None:
  "check_equivalent m e i = None \<longleftrightarrow> i \<noteq> ex_id e \<and>
     (\<exists>other. findExecutor m i = Some other \<and> ex_kind other = ex_kind e \<and> ex_id e \<in> set (ex_equivalentTo other))"
  by (auto simp: check_equivalent_def split: option.splits)

lemma verify_ids: "verifyMachineModel m = None \<Longrightarrow> distinct (node_ids m) \<and> [] \<notin> set (node_ids m)"
  by (simp add: verifyMachineModel_def check_all_ids)

lemma verify_sections:
  assumes "verifyMachineModel m = None"
  shows "e \<in> set (executors m) \<Longrightarrow> check_executor m e = None"
    and "acyclic (parent_rel m)"
    and "mem \<in> set (memories m) \<Longrightarrow> check_memory m mem = None"
    and "c \<in> set (computes m) \<Longrightarrow> check_compute m c = None"
    and "t \<in> set (transferEngines m) \<Longrightarrow> check_transfer_engine m t = None"
    and "l \<in> set (links m) \<Longrightarrow> check_link m l = None"
  using assms containment_checked_acyclic [of m] unfolding verifyMachineModel_def by auto

lemma verify_find:
  assumes "verifyMachineModel m = None" "e \<in> set (executors m)"
  shows "findExecutor m (ex_id e) = Some e"
  using verify_ids [OF assms(1)] assms(2)
  by (auto simp: findExecutor_def node_ids_def intro: findById_unique)

lemma add32_sum: "fold (\<lambda>x count. add32 count (f x)) xs a mod 4294967296 = (a + sum_list (map f xs)) mod 4294967296"
proof (induction xs arbitrary: a)
  case (Cons x xs)
  have "(add32 a (f x) + sum_list (map f xs)) mod 4294967296 = (a + f x + sum_list (map f xs)) mod 4294967296"
    unfolding add32_def by (rule mod_add_left_eq)
  with Cons show ?case by (simp add: add.assoc)
qed simp

lemma add32_bound: "a < 4294967296 \<Longrightarrow> fold (\<lambda>x count. add32 count (f x)) xs a < 4294967296"
  by (induction xs arbitrary: a) (auto simp: add32_def)

lemma add32_fold: "fold (\<lambda>x count. add32 count (f x)) xs 0 = sum_list (map f xs) mod 4294967296"
  using add32_sum [of f xs 0] add32_bound [of 0 f xs] by simp

lemma fold_filter: "fold (\<lambda>x s. if P x then f x s else s) xs s = fold f (filter P xs) s"
  by (induction xs arbitrary: s) auto

lemma ownerCount_sum:
  "ownerCount m k =
     sum_list (map (\<lambda>e. max 1 (ex_concurrency e)) (filter (\<lambda>e. ownerMatches m k (ex_id e)) (executors m))) mod 4294967296"
  unfolding ownerCount_def fold_filter [where f = "\<lambda>e c. add32 c (max 1 (ex_concurrency e))"] by (rule add32_fold)

section \<open>Properties\<close>

text \<open>A profile for the witnesses: a cluster with one processing element, an off-chip memory, a local
  memory, a vector unit and a DMA engine, spelled with target labels.\<close>

definition sample_machine :: machine_model where
  "sample_machine =
     \<lparr>schemaMajor = 2, schemaMinor = 0, target = ''sample'', description = [],
      clockHz = None, workerThreads = 1, sync = \<lparr>barrierCycles = 4, waitCycles = 1\<rparr>,
      executors =
        [\<lparr>ex_id = ''pe.0'', ex_kind = ''pe'', ex_parent = Some ''cluster'', ex_coordinates = [0],
          ex_concurrency = 2, ex_refines = [''worker''], ex_schedulingClass = InOrder, ex_equivalentTo = []\<rparr>,
         \<lparr>ex_id = ''cluster'', ex_kind = ''group'', ex_parent = None, ex_coordinates = [],
          ex_concurrency = 1, ex_refines = [], ex_schedulingClass = InOrder, ex_equivalentTo = []\<rparr>],
      memories =
        [\<lparr>mem_id = ''dram.0'', mem_kind = ''dram'', visibleFrom = ''cluster'', capacityBytes = 65536,
          alignmentBytes = 64, mem_supportedLayouts = [], banks = None, mem_bandwidth = Finite 8,
          mem_latencyCycles = 100, accessGranularityBytes = None\<rparr>,
         \<lparr>mem_id = ''sram.0'', mem_kind = ''sram'', visibleFrom = ''pe.0'', capacityBytes = 4096,
          alignmentBytes = 16, mem_supportedLayouts = [], banks = Some 4, mem_bandwidth = Finite 32,
          mem_latencyCycles = 2, accessGranularityBytes = Some 16\<rparr>],
      computes =
        [\<lparr>comp_id = ''vpu.0'', comp_kind = ''vpu'', comp_refines = [''vector''], comp_attachedTo = ''pe.0'',
          elementTypes = [''f32''], comp_supportedLayouts = [], shapes = [[8]], lanes = [(''f32'', 8)],
          issueCycles = 1, comp_latencyCycles = 4, throughputPerCycle = None, comp_concurrency = 1,
          accumulatorDTypes = [], occupancyLimit = None\<rparr>],
      transferEngines =
        [\<lparr>te_id = ''dma.0'', te_kind = ''dma'', te_refines = [''transfer''], te_attachedTo = ''pe.0'',
          te_count = 1, maxOutstanding = 2, setupCycles = 10\<rparr>],
      links =
        [\<lparr>link_id = ''l.0'', link_source = ''dram.0'', link_destination = ''sram.0'',
          link_bandwidth = Finite 8, link_latencyCycles = 20, transactionBytes = 64,
          link_transferEngines = [''dma.0''], link_concurrency = 1, directionality = Unidirectional\<rparr>],
      contentHash = 0\<rparr>"

lemmas machine_query_defs = findExecutor_def findMemory_def findTransferEngine_def findById_def
  ownerMatches_def ownerClass_def consider_nodes_def consider_refines_def consider_class_def
  symbolizeOwner_def symbolizeMemorySpace_def

lemmas machine_check_defs = check_executor_def check_memory_def check_compute_def
  check_transfer_engine_def check_link_def check_shape_def isKnownOwnerKind_def isKnownMemoryKind_def
  isKnownComputeKind_def isKnownTransferKind_def kSupportedSchemaMajor_def

lemma sample_containment: "\<forall>e \<in> set (executors sample_machine). check_containment sample_machine e = None"
  by (simp add: check_containment_def sample_machine_def chain_cycles.simps findExecutor_def findById_def)

lemma sample_verified: "verifyMachineModel sample_machine = None"
proof -
  note sample_containment
  moreover have "\<forall>e \<in> set (executors sample_machine). check_executor sample_machine e = None"
    "\<forall>e \<in> set (memories sample_machine). check_memory sample_machine e = None"
    "\<forall>e \<in> set (computes sample_machine). check_compute sample_machine e = None"
    "\<forall>e \<in> set (transferEngines sample_machine). check_transfer_engine sample_machine e = None"
    "\<forall>e \<in> set (links sample_machine). check_link sample_machine e = None"
    "distinct (node_ids sample_machine) \<and> [] \<notin> set (node_ids sample_machine)"
    "schemaMajor sample_machine = kSupportedSchemaMajor" "target sample_machine \<noteq> []"
    "clockHz sample_machine = None" "workerThreads sample_machine = 1"
    by (simp_all add: machine_query_defs machine_check_defs sample_machine_def node_ids_def fail_if_def)
  ultimately show ?thesis by (simp add: verifyMachineModel_def check_all_ids)
qed

text \<open>A verified model is well formed. When \<^verbatim>\<open>verifyMachineModel\<close> succeeds, ids are nonempty and
  unique across all node kinds, containment is acyclic, every executor, memory and engine
  reference resolves, and declared equivalences are irreflexive, mutual and within one kind.\<close>

theorem machine_verified_wellformed:
  assumes "verifyMachineModel m = None"
  shows "distinct (node_ids m) \<and> [] \<notin> set (node_ids m) \<and> acyclic (parent_rel m) \<and>
    (\<forall>e \<in> set (executors m). \<forall>p. ex_parent e = Some p \<longrightarrow> findExecutor m p \<noteq> None) \<and>
    (\<forall>e \<in> set (executors m). \<forall>i \<in> set (ex_equivalentTo e). i \<noteq> ex_id e \<and>
       (\<exists>e' \<in> set (executors m). ex_id e' = i \<and> ex_kind e' = ex_kind e \<and> ex_id e \<in> set (ex_equivalentTo e'))) \<and>
    (\<forall>x \<in> set (memories m). findExecutor m (visibleFrom x) \<noteq> None) \<and>
    (\<forall>x \<in> set (computes m). findExecutor m (comp_attachedTo x) \<noteq> None) \<and>
    (\<forall>x \<in> set (transferEngines m). findExecutor m (te_attachedTo x) \<noteq> None) \<and>
    (\<forall>l \<in> set (links m). findMemory m (link_source l) \<noteq> None \<and> findMemory m (link_destination l) \<noteq> None \<and>
       (\<forall>t \<in> set (link_transferEngines l). findTransferEngine m t \<noteq> None))"
proof -
  note verified = verify_sections [OF assms]
  have "i \<noteq> ex_id e \<and>
       (\<exists>e' \<in> set (executors m). ex_id e' = i \<and> ex_kind e' = ex_kind e \<and> ex_id e \<in> set (ex_equivalentTo e'))"
    if "e \<in> set (executors m)" "i \<in> set (ex_equivalentTo e)" for e i
  proof -
    have "check_equivalent m e i = None" using verified(1) [OF that(1)] that(2) by (simp add: check_executor_def)
    then show ?thesis using findExecutor_mem findExecutor_id unfolding check_equivalent_None by metis
  qed
  moreover have "findExecutor m p \<noteq> None" if "e \<in> set (executors m)" "ex_parent e = Some p" for e p
    using verified(1) [OF that(1)] that(2) by (simp add: check_executor_def)
  moreover have "findExecutor m (visibleFrom x) \<noteq> None" if "x \<in> set (memories m)" for x
    using verified(3) [OF that] by (simp add: check_memory_def)
  moreover have "findExecutor m (comp_attachedTo x) \<noteq> None" if "x \<in> set (computes m)" for x
    using verified(4) [OF that] by (simp add: check_compute_def)
  moreover have "findExecutor m (te_attachedTo x) \<noteq> None" if "x \<in> set (transferEngines m)" for x
    using verified(5) [OF that] by (simp add: check_transfer_engine_def)
  moreover have "findMemory m (link_source l) \<noteq> None \<and> findMemory m (link_destination l) \<noteq> None \<and>
       (\<forall>t \<in> set (link_transferEngines l). findTransferEngine m t \<noteq> None)" if "l \<in> set (links m)" for l
    using verified(6) [OF that] by (simp add: check_link_def)
  ultimately show ?thesis using verify_ids [OF assms] verified(2) by blast
qed

theorem machine_verified_wellformed_witness:
  "verifyMachineModel sample_machine = None \<and> acyclic (parent_rel sample_machine)"
  using machine_verified_wellformed [OF sample_verified] sample_verified by blast

text \<open>\<^verbatim>\<open>isWithin\<close> decides ancestry on every model, also on one whose containment has a cycle: it
  holds exactly when the ancestor exists and is reached from the node by following parents. The
  visited set makes the walk end without losing an ancestor.\<close>

theorem isWithin_decides_ancestry:
  "isWithin m n a \<longleftrightarrow> findExecutor m a \<noteq> None \<and> (n, a) \<in> (parent_rel m)\<^sup>*"
  by (rule isWithin_rtrancl)

text \<open>On a verified model containment is a partial order of the executors and visibility is
  inherited: an executor inside one that can address a memory can address it too, and the
  executor a memory is declared visible from can address it.\<close>

theorem machine_containment_order:
  assumes "verifyMachineModel m = None"
  shows "(\<forall>e \<in> set (executors m). isWithin m (ex_id e) (ex_id e)) \<and>
    (isWithin m a b \<and> isWithin m b a \<longrightarrow> a = b) \<and>
    (isWithin m a b \<and> isWithin m b c \<longrightarrow> isWithin m a c) \<and>
    (isVisible m mem b \<and> isWithin m a b \<longrightarrow> isVisible m mem a) \<and>
    (\<forall>x \<in> set (memories m). isVisible m (mem_id x) (visibleFrom x))"
proof -
  have "isWithin m (ex_id e) (ex_id e)" if "e \<in> set (executors m)" for e
    using verify_find [OF assms that] by (simp add: isWithin_rtrancl)
  moreover have "a = b" if "isWithin m a b" "isWithin m b a"
    using that verify_sections(2) [OF assms]
    by (metis acyclic_def isWithin_rtrancl rtranclD rtrancl_trancl_trancl)
  moreover have "isWithin m a c" if "isWithin m a b" "isWithin m b c"
    using that by (auto simp: isWithin_rtrancl)
  moreover have "isVisible m mem a" if "isVisible m mem b" "isWithin m a b"
    using that by (auto simp: isVisible_def isWithin_rtrancl split: option.splits)
  moreover have "isVisible m (mem_id x) (visibleFrom x)" if x: "x \<in> set (memories m)" for x
  proof -
    have "findMemory m (mem_id x) = Some x"
      using verify_ids [OF assms] x by (auto simp: findMemory_def node_ids_def intro: findById_unique)
    moreover have "findExecutor m (visibleFrom x) \<noteq> None"
      using verify_sections(3) [OF assms x] by (simp add: check_memory_def)
    ultimately show ?thesis by (simp add: isVisible_def isWithin_rtrancl)
  qed
  ultimately show ?thesis by blast
qed

theorem machine_containment_order_witness:
  "isVisible sample_machine ''dram.0'' ''cluster'' \<and> isWithin sample_machine ''pe.0'' ''cluster'' \<and>
   isVisible sample_machine ''dram.0'' ''pe.0''"
proof -
  have "isWithin sample_machine ''pe.0'' ''cluster''" "isVisible sample_machine ''dram.0'' ''cluster''"
    by (simp_all add: isWithin_def isVisible_def within_walk.simps findExecutor_def findMemory_def findById_def
        sample_machine_def)
  then show ?thesis
    using machine_containment_order [OF sample_verified, of "''pe.0''" "''cluster''" _ "''dram.0''"] by blast
qed

text \<open>Owner-class resolution is exact and does not depend on declaration order. An abstract
  class denotes itself; a target label denotes a class exactly when the nodes of that kind declare
  one abstract class and no other, so an unknown and an ambiguous label both have none.\<close>

theorem ownerClass_resolution:
  "ownerClass m spelling = Some c \<longleftrightarrow>
     (if symbolizeOwner spelling \<noteq> None then c = spelling else denoted m spelling = {c})"
  by (rule ownerClass_iff)

text \<open>The content hash ignores declaration order. Two models with the same header fields whose
  sections list the same nodes in any order have the same canonical string and content hash,
  provided the first verifies (its ids are then distinct).\<close>

theorem machine_hash_order_independent:
  assumes "verifyMachineModel m = None"
    and "mset es = mset (executors m)" "mset ms = mset (memories m)" "mset cs = mset (computes m)"
    and "mset ts = mset (transferEngines m)" "mset ls = mset (links m)"
  shows "computeContentHash (m\<lparr>executors := es, memories := ms, computes := cs, transferEngines := ts, links := ls\<rparr>)
    = computeContentHash m"
  using verify_ids [OF assms(1)] assms(2-6)
    renderSection_order [of ex_id "executors m" es] renderSection_order [of mem_id "memories m" ms]
    renderSection_order [of comp_id "computes m" cs] renderSection_order [of te_id "transferEngines m" ts]
    renderSection_order [of link_id "links m" ls]
  by (simp add: computeContentHash_def canonicalMachineString_def node_ids_def)

theorem machine_hash_order_independent_witness:
  "computeContentHash (sample_machine\<lparr>executors := rev (executors sample_machine), memories := rev (memories sample_machine),
     computes := computes sample_machine, transferEngines := transferEngines sample_machine, links := links sample_machine\<rparr>)
   = computeContentHash sample_machine"
  by (rule machine_hash_order_independent [OF sample_verified]) simp_all

definition named_executors :: "machine_model \<Rightarrow> string \<Rightarrow> executor_node list" where
  "named_executors m k = filter (\<lambda>e. ex_kind e = k \<or> k \<in> set (ex_refines e)) (executors m)"

text \<open>Owner counts on a verified model. \<^verbatim>\<open>ownerCount\<close> is the sum of the concurrencies of the
  executors whose kind or refinements name the owner, reduced modulo \<open>2 ^ 32\<close>; while that sum
  fits in 32 bits, \<^verbatim>\<open>hasOwnerKind\<close> holds exactly when some executor names the owner.\<close>

theorem machine_owner_count:
  assumes "verifyMachineModel m = None"
  shows "ownerCount m k = sum_list (map ex_concurrency (named_executors m k)) mod 2 ^ 32 \<and>
    (sum_list (map ex_concurrency (named_executors m k)) < 2 ^ 32 \<longrightarrow> hasOwnerKind m k = (named_executors m k \<noteq> []))"
proof -
  let ?named = "named_executors m k"
  have matches: "filter (\<lambda>e. ownerMatches m k (ex_id e)) (executors m) = ?named"
    unfolding named_executors_def using verify_find [OF assms(1)]
    by (intro filter_cong) (auto simp: ownerMatches_def)
  have pos: "0 < ex_concurrency e" if "e \<in> set ?named" for e
    using verify_sections(1) [OF assms(1)] that by (auto simp: named_executors_def check_executor_def)
  then have "map (\<lambda>e. max 1 (ex_concurrency e)) ?named = map ex_concurrency ?named"
    by (intro map_cong) (auto simp: max_def Suc_le_eq)
  then have count: "ownerCount m k = sum_list (map ex_concurrency ?named) mod 4294967296"
    by (simp only: ownerCount_sum matches)
  have "?named \<noteq> [] \<longleftrightarrow> 0 < sum_list (map ex_concurrency ?named)"
    using pos by (cases ?named) auto
  then show ?thesis using count by (auto simp: hasOwnerKind_def)
qed

theorem machine_owner_count_witness: "ownerCount sample_machine ''worker'' = 2 \<and> hasOwnerKind sample_machine ''worker''"
  using machine_owner_count [OF sample_verified, of "''worker''"] by (simp add: sample_machine_def named_executors_def)

end
