(* ===== verification/LlkMapExpr.thy ===== *)
theory LlkMapExpr
  imports Machine
begin

text \<open>
  Expressions of the mapping language: the syntax tree, evaluation with a quantifier budget,
  vocabulary validation, machine-query resolution, the canonical rendering and the source printer
  (\<^verbatim>\<open>include/LLK/Mapping/LlkMap.h\<close>, \<^verbatim>\<open>lib/Mapping/LlkMap.cpp\<close>). The lemmas show that an
  evaluation that does not exhaust its budget computes the unbounded meaning, that validated
  expressions never meet an unknown name, and that the canonical rendering is injective.
\<close>

section \<open>Syntax\<close>

text \<open>\<^verbatim>\<open>Expr\<close> is a kind with a text and operands; the constructors are its kinds with the operands
  each kind has. A member call keeps its receiver (\<^verbatim>\<open>operands[0]\<close>) apart from its arguments, a
  quantifier its bound variable, domain and body.\<close>

datatype expr =
    IntLit int
  | StringLit string
  | Ident string
  | Call string "expr list"
  | MemberCall string expr "expr list"
  | Unary string expr
  | Binary string expr expr
  | Quantifier string string expr expr

text \<open>The \<^verbatim>\<open>text\<close> field of a node.\<close>

fun expr_text :: "expr \<Rightarrow> string" where
  "expr_text (IntLit i) = []"
| "expr_text (StringLit s) = s"
| "expr_text (Ident n) = n"
| "expr_text (Call n _) = n"
| "expr_text (MemberCall n _ _) = n"
| "expr_text (Unary n _) = n"
| "expr_text (Binary n _ _) = n"
| "expr_text (Quantifier n _ _ _) = n"

datatype layout_value = IntV int | StrV string

datatype eval_value = EInt int | EStr string | EHandle string

record layout_context =
  rank :: int
  elementType :: string

record quantifier_budget =
  limit :: nat
  used :: nat
  exhausted :: bool

definition kDefaultQuantifierIterations :: nat where "kDefaultQuantifierIterations = 100000"

definition default_budget :: quantifier_budget where
  "default_budget = \<lparr>limit = kDefaultQuantifierIterations, used = 0, exhausted = False\<rparr>"

definition budget_step :: "quantifier_budget \<Rightarrow> bool \<times> quantifier_budget" where
  "budget_step b = (if used b \<ge> limit b then (False, b\<lparr>exhausted := True\<rparr>) else (True, b\<lparr>used := used b + 1\<rparr>))"

type_synonym bindings = "string \<rightharpoonup> layout_value"

type_synonym domain_resolver = "string \<Rightarrow> layout_value list option"

section \<open>Evaluation\<close>

datatype eval_error =
    RequiresIntegers string
  | CannotCompare
  | DivisionByZero
  | UnknownOperator string
  | WrongArity string nat
  | NeedsString string
  | NonPositiveDivisor
  | UnknownFunction string
  | NotAMachineValue string
  | MalformedHandle
  | AppliesToCompute string
  | AppliesToMemory string
  | UnknownCompute string
  | NoSuchDType string string
  | UnknownMemory string
  | UnknownQuery string
  | UnknownIdentifier string
  | NoDomainResolver
  | UnknownDomain string
  | UnknownExecutorKind string
  | NoExecutors string
  | UnknownQuantifierDomain
  | NoBudget
  | BodyNotInteger
  | BudgetExceeded
  | OperandOutOfRange  \<comment> \<open>\<^verbatim>\<open>operands[0]\<close> of an empty operand list\<close>
  | SignedOverflow  \<comment> \<open>undefined behaviour of \<^verbatim>\<open>int64_t\<close> arithmetic in the source\<close>

text \<open>Evaluation threads the budget: a null budget pointer is \<open>None\<close>.\<close>

type_synonym budget_state = "quantifier_budget option"

type_synonym 'a eval = "budget_state \<Rightarrow> (eval_error, 'a) expected \<times> budget_state"

definition return_eval :: "'a \<Rightarrow> 'a eval" where "return_eval a s = (Inr a, s)"

definition fail_eval :: "eval_error \<Rightarrow> 'a eval" where "fail_eval e s = (Inl e, s)"

definition bind_eval :: "'a eval \<Rightarrow> ('a \<Rightarrow> 'b eval) \<Rightarrow> 'b eval" where
  "bind_eval m f s = (case m s of (Inl e, s') \<Rightarrow> (Inl e, s') | (Inr a, s') \<Rightarrow> f a s')"

definition lift_eval :: "(eval_error, 'a) expected \<Rightarrow> 'a eval" where
  "lift_eval r s = (r, s)"

text \<open>\<^verbatim>\<open>int64_t\<close> arithmetic: a result outside the range is undefined in C++.\<close>

definition checked :: "int \<Rightarrow> (eval_error, eval_value) expected" where
  "checked v = (if in_int64 v then Inr (EInt v) else Inl SignedOverflow)"

definition of_bool_int :: "bool \<Rightarrow> (eval_error, eval_value) expected" where
  "of_bool_int b = Inr (EInt (if b then 1 else 0))"

text \<open>C++ division and remainder; the one quotient that overflows makes the remainder undefined too.\<close>

definition divide_values :: "bool \<Rightarrow> int \<Rightarrow> int \<Rightarrow> (eval_error, eval_value) expected" where
  "divide_values wantQuotient left right =
     (if right = 0 then Inl DivisionByZero
      else if \<not> in_int64 (left sdiv right) then Inl SignedOverflow
      else Inr (EInt (if wantQuotient then left sdiv right else left smod right)))"

fun same_kind :: "eval_value \<Rightarrow> eval_value \<Rightarrow> bool" where
  "same_kind (EInt _) (EInt _) = True"
| "same_kind (EStr _) (EStr _) = True"
| "same_kind (EHandle _) (EHandle _) = True"
| "same_kind _ _ = False"

definition apply_int_op :: "string \<Rightarrow> int \<Rightarrow> int \<Rightarrow> (eval_error, eval_value) expected" where
  "apply_int_op oper left right =
     (if oper = ''<'' then of_bool_int (left < right)
      else if oper = ''<='' then of_bool_int (left \<le> right)
      else if oper = ''>'' then of_bool_int (left > right)
      else if oper = ''>='' then of_bool_int (left \<ge> right)
      else if oper = ''+'' then checked (left + right)
      else if oper = ''-'' then checked (left - right)
      else if oper = ''*'' then checked (left * right)
      else if oper = ''/'' \<or> oper = ''%'' then divide_values (oper = ''/'') left right
      else Inl (UnknownOperator oper))"

definition evalBinary :: "string \<Rightarrow> eval_value \<Rightarrow> eval_value \<Rightarrow> (eval_error, eval_value) expected" where
  "evalBinary oper lhs rhs =
     (if oper = ''&&'' \<or> oper = ''||'' then
        (case (lhs, rhs) of
           (EInt l, EInt r) \<Rightarrow>
             of_bool_int (if oper = ''&&'' then l \<noteq> 0 \<and> r \<noteq> 0 else l \<noteq> 0 \<or> r \<noteq> 0)
         | _ \<Rightarrow> Inl (RequiresIntegers oper))
      else if oper = ''=='' \<or> oper = ''!='' then
        (if \<not> same_kind lhs rhs then Inl CannotCompare
         else of_bool_int ((oper = ''=='') = (lhs = rhs)))
      else
        (case (lhs, rhs) of
           (EInt l, EInt r) \<Rightarrow> apply_int_op oper l r
         | _ \<Rightarrow> Inl (RequiresIntegers oper)))"

definition is_machine_call :: "string \<Rightarrow> bool" where
  "is_machine_call callee \<longleftrightarrow> callee = ''machine.compute'' \<or> callee = ''machine.memory''"

definition apply_call :: "string \<Rightarrow> eval_value \<Rightarrow> eval_value \<Rightarrow> (eval_error, eval_value) expected" where
  "apply_call callee lhs rhs =
     (case (lhs, rhs) of
        (EInt left, EInt right) \<Rightarrow>
          if callee = ''floordiv'' \<or> callee = ''mod'' then divide_values (callee = ''floordiv'') left right
          else if callee = ''ceildiv'' then
            (if right \<le> 0 then Inl NonPositiveDivisor
             else if \<not> in_int64 (left + right) then Inl SignedOverflow
             else if \<not> in_int64 (left + right - 1) then Inl SignedOverflow
             else Inr (EInt ((left + right - 1) sdiv right)))
          else if callee = ''min'' then Inr (EInt (min left right))
          else if callee = ''max'' then Inr (EInt (max left right))
          else Inl (UnknownFunction callee)
      | _ \<Rightarrow> Inl (RequiresIntegers callee))"

definition machine_handle :: "string \<Rightarrow> eval_value \<Rightarrow> (eval_error, eval_value) expected" where
  "machine_handle callee argument =
     (case argument of EStr s \<Rightarrow> Inr (EHandle (callee @ '':'' @ s)) | _ \<Rightarrow> Inl (NeedsString callee))"

text \<open>Conversion of a \<^verbatim>\<open>uint64_t\<close> to \<^verbatim>\<open>int64_t\<close>.\<close>

definition to_int64 :: "nat \<Rightarrow> int" where
  "to_int64 n = (let k = int (wrap64 n) in if k \<le> int64_max then k else k - 18446744073709551616)"

text \<open>The part of a member query before any argument is evaluated: the handle is taken apart.\<close>

definition open_handle :: "string \<Rightarrow> eval_value \<Rightarrow> (eval_error, bool \<times> string) expected" where
  "open_handle member receiver =
     (case receiver of
        EHandle h \<Rightarrow>
          if CHR '':'' \<notin> set h then Inl MalformedHandle
          else Inr (take 16 h = ''machine.compute:'', tl (dropWhile (\<lambda>c. c \<noteq> CHR '':'') h))
      | _ \<Rightarrow> Inl (NotAMachineValue member))"

definition count_query :: "machine_model \<Rightarrow> bool \<Rightarrow> string \<Rightarrow> (eval_error, eval_value) expected" where
  "count_query m isCompute subject =
     (if \<not> isCompute then Inl (AppliesToCompute ''count'')
      else let count = length (filter (\<lambda>c. comp_kind c = subject) (computes m)) in
        if count = 0 then Inl (UnknownCompute subject) else Inr (EInt (int count)))"

definition lanes_query :: "machine_model \<Rightarrow> string \<Rightarrow> eval_value \<Rightarrow> (eval_error, eval_value) expected" where
  "lanes_query m subject dtype =
     (case dtype of
        EStr d \<Rightarrow>
          (case lanesFor m subject d of
             None \<Rightarrow> Inl (NoSuchDType subject d)
           | Some n \<Rightarrow> Inr (EInt n))
      | _ \<Rightarrow> Inl (NeedsString ''lanes''))"

definition memory_query :: "machine_model \<Rightarrow> string \<Rightarrow> bool \<Rightarrow> string \<Rightarrow> (eval_error, eval_value) expected" where
  "memory_query m member isCompute subject =
     (if isCompute then Inl (AppliesToMemory member)
      else (case findMemory m subject of
          None \<Rightarrow> Inl (UnknownMemory subject)
        | Some memory \<Rightarrow>
            Inr (EInt (to_int64 (if member = ''capacity_bytes'' then capacityBytes memory else alignmentBytes memory)))))"

definition evalUnary :: "string \<Rightarrow> eval_value \<Rightarrow> (eval_error, eval_value) expected" where
  "evalUnary oper operand =
     (case operand of
        EInt v \<Rightarrow> if oper = ''!'' then of_bool_int (v = 0) else checked (- v)
      | _ \<Rightarrow> Inl (RequiresIntegers oper))"

fun of_layout_value :: "layout_value \<Rightarrow> eval_value" where
  "of_layout_value (IntV i) = EInt i"
| "of_layout_value (StrV s) = EStr s"

definition eval_ident :: "layout_context \<Rightarrow> bindings \<Rightarrow> string \<Rightarrow> (eval_error, eval_value) expected" where
  "eval_ident ctx bnd name =
     (case bnd name of
        Some v \<Rightarrow> Inr (of_layout_value v)
      | None \<Rightarrow>
          if name = ''rank'' then Inr (EInt (rank ctx))
          else if name = ''element_type'' then Inr (EStr (elementType ctx))
          else Inl (UnknownIdentifier name))"

definition dimensions_domain :: "layout_context \<Rightarrow> layout_value list" where
  "dimensions_domain ctx = map IntV [0..rank ctx - 1]"

definition declared_domain :: "domain_resolver option \<Rightarrow> string \<Rightarrow> (eval_error, layout_value list) expected" where
  "declared_domain resolver name =
     (case resolver of
        None \<Rightarrow> Inl NoDomainResolver
      | Some r \<Rightarrow> (case r name of None \<Rightarrow> Inl (UnknownDomain name) | Some vs \<Rightarrow> Inr vs))"

definition executors_domain :: "machine_model \<Rightarrow> eval_value \<Rightarrow> (eval_error, layout_value list) expected" where
  "executors_domain m kind =
     (case kind of
        EStr k \<Rightarrow>
          let dmn = map (StrV \<circ> ex_id) (filter (\<lambda>e. ownerMatches m k (ex_id e)) (executors m)) in
          if dmn = [] then
            (if ownerClass m k = None then Inl (UnknownExecutorKind k) else Inl (NoExecutors k))
          else Inr dmn
      | _ \<Rightarrow> Inl (NeedsString ''executors''))"

text \<open>The loop over the domain. \<open>body v\<close> evaluates the body with the variable bound to \<open>v\<close>.\<close>

fun quantifier_loop :: "bool \<Rightarrow> (layout_value \<Rightarrow> eval_value eval) \<Rightarrow> layout_value list \<Rightarrow> eval_value eval" where
  "quantifier_loop isForall body [] s = (Inr (EInt (if isForall then 1 else 0)), s)"
| "quantifier_loop isForall body (v # vs) s =
     (case s of
        None \<Rightarrow> (Inl NoBudget, s)
      | Some b \<Rightarrow>
          (case budget_step b of
             (False, b') \<Rightarrow> (Inr (EInt 0), Some b')
           | (True, b') \<Rightarrow>
               (case body v (Some b') of
                  (Inl e, s') \<Rightarrow> (Inl e, s')
                | (Inr (EInt i), s') \<Rightarrow>
                    if isForall \<and> i = 0 then (Inr (EInt 0), s')
                    else if \<not> isForall \<and> i \<noteq> 0 then (Inr (EInt 1), s')
                    else quantifier_loop isForall body vs s'
                | (Inr _, s') \<Rightarrow> (Inl BodyNotInteger, s'))))"

definition run_quantifier :: "string \<Rightarrow> (layout_value \<Rightarrow> eval_value eval) \<Rightarrow> layout_value list \<Rightarrow> eval_value eval" where
  "run_quantifier oper body dmn s =
     (if s = None then (Inl NoBudget, s) else quantifier_loop (oper = ''forall'') body dmn s)"

fun evalImpl ::
  "machine_model \<Rightarrow> layout_context \<Rightarrow> domain_resolver option \<Rightarrow> bindings \<Rightarrow> expr \<Rightarrow> eval_value eval" where
  "evalImpl m ctx res bnd (IntLit i) = return_eval (EInt i)"
| "evalImpl m ctx res bnd (StringLit s) = return_eval (EStr s)"
| "evalImpl m ctx res bnd (Ident name) = lift_eval (eval_ident ctx bnd name)"
| "evalImpl m ctx res bnd (Unary oper e) =
     bind_eval (evalImpl m ctx res bnd e) (\<lambda>v. lift_eval (evalUnary oper v))"
| "evalImpl m ctx res bnd (Binary oper l r) =
     bind_eval (evalImpl m ctx res bnd l) (\<lambda>lhs.
       bind_eval (evalImpl m ctx res bnd r) (\<lambda>rhs. lift_eval (evalBinary oper lhs rhs)))"
| "evalImpl m ctx res bnd (Call callee args) =
     (if is_machine_call callee then
        (case args of
           [a] \<Rightarrow> bind_eval (evalImpl m ctx res bnd a) (\<lambda>v. lift_eval (machine_handle callee v))
         | _ \<Rightarrow> fail_eval (WrongArity callee 1))
      else
        (case args of
           [a, b] \<Rightarrow>
             bind_eval (evalImpl m ctx res bnd a) (\<lambda>lhs.
               bind_eval (evalImpl m ctx res bnd b) (\<lambda>rhs. lift_eval (apply_call callee lhs rhs)))
         | _ \<Rightarrow> fail_eval (WrongArity callee 2)))"
| "evalImpl m ctx res bnd (MemberCall member receiver args) =
     bind_eval (evalImpl m ctx res bnd receiver) (\<lambda>recv.
       bind_eval (lift_eval (open_handle member recv)) (\<lambda>(isCompute, subject).
         if member = ''count'' then lift_eval (count_query m isCompute subject)
         else if member = ''lanes'' then
           (if \<not> isCompute then fail_eval (AppliesToCompute ''lanes'')
            else (case args of
                [a] \<Rightarrow> bind_eval (evalImpl m ctx res bnd a) (\<lambda>d. lift_eval (lanes_query m subject d))
              | _ \<Rightarrow> fail_eval (WrongArity ''lanes'' 1)))
         else if member = ''capacity_bytes'' \<or> member = ''alignment_bytes'' then
           lift_eval (memory_query m member isCompute subject)
         else fail_eval (UnknownQuery member)))"
| "evalImpl m ctx res bnd (Quantifier oper var dmn body) =
     (let loop = run_quantifier oper (\<lambda>v. evalImpl m ctx res (bnd(var \<mapsto> v)) body) in
      (case dmn of
         Ident name \<Rightarrow>
           if name = ''dimensions'' then loop (dimensions_domain ctx)
           else fail_eval UnknownQuantifierDomain
       | Call callee args \<Rightarrow>
           if callee = ''domain'' then
             (case args of
                a # _ \<Rightarrow> bind_eval (lift_eval (declared_domain res (expr_text a))) loop
              | [] \<Rightarrow> fail_eval (if res = None then NoDomainResolver else OperandOutOfRange))
           else if callee = ''executors'' then
             (case args of
                a # _ \<Rightarrow> bind_eval (evalImpl m ctx res bnd a) (\<lambda>k. bind_eval (lift_eval (executors_domain m k)) loop)
              | [] \<Rightarrow> fail_eval OperandOutOfRange)
           else fail_eval UnknownQuantifierDomain
       | _ \<Rightarrow> fail_eval UnknownQuantifierDomain))"

definition evaluateExpr ::
  "machine_model \<Rightarrow> layout_context \<Rightarrow> domain_resolver option \<Rightarrow> bindings \<Rightarrow> expr \<Rightarrow> eval_value eval" where
  "evaluateExpr m ctx res bnd e s =
     (case s of
        Some b \<Rightarrow> evalImpl m ctx res bnd e (Some b)
      | None \<Rightarrow>
          (case evalImpl m ctx res bnd e (Some default_budget) of
             (Inr v, Some b) \<Rightarrow> (if exhausted b then Inl BudgetExceeded else Inr v, None)
           | (r, _) \<Rightarrow> (r, None)))"

section \<open>Vocabulary\<close>

definition isKnownCall :: "string \<Rightarrow> bool" where
  "isKnownCall name \<longleftrightarrow> name \<in> {''floordiv'', ''ceildiv'', ''mod'', ''min'', ''max'', ''machine.compute'', ''machine.memory''}"

definition isKnownMember :: "string \<Rightarrow> bool" where
  "isKnownMember name \<longleftrightarrow> name \<in> {''lanes'', ''count'', ''capacity_bytes'', ''alignment_bytes''}"

datatype validate_error =
    VUnknownIdentifier string
  | VUnknownFunction string
  | VUnknownQuery string
  | VUnknownDomain string
  | VDomainNeedsParameter
  | VUnknownParameter string
  | VExecutorsArity
  | VNotADomain

fun validateExpr :: "string list \<Rightarrow> expr \<Rightarrow> validate_error option" where
  "validateExpr allowed (IntLit i) = None"
| "validateExpr allowed (StringLit s) = None"
| "validateExpr allowed (Ident n) = (if n \<notin> set allowed then Some (VUnknownIdentifier n) else None)"
| "validateExpr allowed (Call n args) =
     (if \<not> isKnownCall n then Some (VUnknownFunction n) else first_error (validateExpr allowed) args)"
| "validateExpr allowed (MemberCall n receiver args) =
     (if \<not> isKnownMember n then Some (VUnknownQuery n)
      else orElse (validateExpr allowed receiver) (first_error (validateExpr allowed) args))"
| "validateExpr allowed (Unary n e) = validateExpr allowed e"
| "validateExpr allowed (Binary n l r) = orElse (validateExpr allowed l) (validateExpr allowed r)"
| "validateExpr allowed (Quantifier n var dmn body) =
     orElse
       (case dmn of
          Ident d \<Rightarrow> if d \<noteq> ''dimensions'' then Some (VUnknownDomain d) else None
        | Call d args \<Rightarrow>
            if d = ''domain'' then
              (case args of
                 [Ident p] \<Rightarrow> if p \<notin> set allowed then Some (VUnknownParameter p) else None
               | _ \<Rightarrow> Some VDomainNeedsParameter)
            else if d = ''executors'' then
              (case args of [a] \<Rightarrow> validateExpr allowed a | _ \<Rightarrow> Some VExecutorsArity)
            else Some VNotADomain
        | _ \<Rightarrow> Some VNotADomain)
       (validateExpr (var # allowed) body)"

text \<open>\<^verbatim>\<open>resolveMachineQueries\<close>: the first nonempty message of the operands.\<close>

fun first_message :: "string list \<Rightarrow> string" where
  "first_message [] = []"
| "first_message (s # ss) = (if s \<noteq> [] then s else first_message ss)"

fun resolveMachineQueries :: "(string \<Rightarrow> string \<Rightarrow> string option) \<Rightarrow> expr \<Rightarrow> string" where
  "resolveMachineQueries resolver (IntLit i) = []"
| "resolveMachineQueries resolver (StringLit s) = []"
| "resolveMachineQueries resolver (Ident n) = []"
| "resolveMachineQueries resolver (Call n args) =
     (case (if is_machine_call n then (case args of [StringLit s] \<Rightarrow> resolver n s | _ \<Rightarrow> None) else None) of
        Some message \<Rightarrow> message
      | None \<Rightarrow> first_message (map (resolveMachineQueries resolver) args))"
| "resolveMachineQueries resolver (MemberCall n receiver args) =
     first_message (resolveMachineQueries resolver receiver # map (resolveMachineQueries resolver) args)"
| "resolveMachineQueries resolver (Unary n e) = resolveMachineQueries resolver e"
| "resolveMachineQueries resolver (Binary n l r) =
     first_message [resolveMachineQueries resolver l, resolveMachineQueries resolver r]"
| "resolveMachineQueries resolver (Quantifier n var dmn body) =
     first_message [resolveMachineQueries resolver dmn, resolveMachineQueries resolver body]"

section \<open>Renderings\<close>

fun join_with :: "string \<Rightarrow> string list \<Rightarrow> string" where
  "join_with sep [] = []"
| "join_with sep [s] = s"
| "join_with sep (s # ss) = s @ sep @ join_with sep ss"

lemma join_with_Cons: "join_with sep (s # ss) = s @ (if ss = [] then [] else sep @ join_with sep ss)"
  by (cases ss) auto

fun canonicalExprString :: "expr \<Rightarrow> string" where
  "canonicalExprString (IntLit i) = ''int:'' @ int_to_string i"
| "canonicalExprString (StringLit s) = ''str:'' @ nat_to_string (length s) @ '':'' @ s"
| "canonicalExprString (Ident n) = ''id:'' @ n"
| "canonicalExprString (Call n args) =
     ''call:'' @ n @ ''('' @ join_with '','' (map canonicalExprString args) @ '')''"
| "canonicalExprString (MemberCall n receiver args) =
     ''member:'' @ n @ ''('' @ join_with '','' (canonicalExprString receiver # map canonicalExprString args) @ '')''"
| "canonicalExprString (Unary n e) = ''unary:'' @ n @ ''('' @ canonicalExprString e @ '')''"
| "canonicalExprString (Binary n l r) =
     ''binary:'' @ n @ ''('' @ canonicalExprString l @ '','' @ canonicalExprString r @ '')''"
| "canonicalExprString (Quantifier n var dmn body) =
     ''quant:'' @ n @ ''('' @ (''id:'' @ var) @ '','' @ canonicalExprString dmn @ '','' @
       canonicalExprString body @ '')''"

fun canonicalValueString :: "layout_value \<Rightarrow> string" where
  "canonicalValueString (IntV i) = ''i:'' @ int_to_string i"
| "canonicalValueString (StrV s) = ''s:'' @ nat_to_string (length s) @ '':'' @ s"

definition quoted :: "string \<Rightarrow> string" where
  "quoted s = CHR 0x22 # s @ [CHR 0x22]"

fun printValue :: "layout_value \<Rightarrow> string" where
  "printValue (IntV i) = int_to_string i"
| "printValue (StrV s) = quoted s"

fun isCompoundExpr :: "expr \<Rightarrow> bool" where
  "isCompoundExpr (Unary _ _) = True"
| "isCompoundExpr (Binary _ _ _) = True"
| "isCompoundExpr (Quantifier _ _ _ _) = True"
| "isCompoundExpr _ = False"

fun printExpr :: "expr \<Rightarrow> string" where
  "printExpr (IntLit i) = int_to_string i"
| "printExpr (StringLit s) = quoted s"
| "printExpr (Ident n) = n"
| "printExpr (Call n args) = n @ ''('' @ join_with '', '' (map printExpr args) @ '')''"
| "printExpr (MemberCall n receiver args) =
     (if isCompoundExpr receiver then ''('' @ printExpr receiver @ '')'' else printExpr receiver) @ ''.'' @ n @
     (if args \<noteq> [] then ''('' @ join_with '', '' (map printExpr args) @ '')'' else [])"
| "printExpr (Unary n e) = ''('' @ n @ printExpr e @ '')''"
| "printExpr (Binary n l r) = ''('' @ printExpr l @ '' '' @ n @ '' '' @ printExpr r @ '')''"
| "printExpr (Quantifier n var dmn body) =
     ''('' @ n @ '' '' @ var @ '' in '' @ printExpr dmn @ '' : '' @ printExpr body @ '')''"

section \<open>The unbounded meaning\<close>

text \<open>What an expression means when quantifiers may examine every element: no budget, no state. A
  quantifier is decided by the first element of its domain, in order, that settles it; an
  element whose body fails before that makes it fail.\<close>

fun quantifier_meaning ::
  "bool \<Rightarrow> (layout_value \<Rightarrow> (eval_error, eval_value) expected) \<Rightarrow> layout_value list \<Rightarrow> (eval_error, eval_value) expected" where
  "quantifier_meaning isForall body [] = Inr (EInt (if isForall then 1 else 0))"
| "quantifier_meaning isForall body (v # vs) =
     bindR (body v) (\<lambda>r. case r of
       EInt i \<Rightarrow>
         if isForall \<and> i = 0 then Inr (EInt 0)
         else if \<not> isForall \<and> i \<noteq> 0 then Inr (EInt 1)
         else quantifier_meaning isForall body vs
     | _ \<Rightarrow> Inl BodyNotInteger)"

fun meaning ::
  "machine_model \<Rightarrow> layout_context \<Rightarrow> domain_resolver option \<Rightarrow> bindings \<Rightarrow> expr \<Rightarrow> (eval_error, eval_value) expected" where
  "meaning m ctx res bnd (IntLit i) = Inr (EInt i)"
| "meaning m ctx res bnd (StringLit s) = Inr (EStr s)"
| "meaning m ctx res bnd (Ident name) = eval_ident ctx bnd name"
| "meaning m ctx res bnd (Unary oper e) = bindR (meaning m ctx res bnd e) (evalUnary oper)"
| "meaning m ctx res bnd (Binary oper l r) =
     bindR (meaning m ctx res bnd l) (\<lambda>lhs. bindR (meaning m ctx res bnd r) (evalBinary oper lhs))"
| "meaning m ctx res bnd (Call callee args) =
     (if is_machine_call callee then
        (case args of [a] \<Rightarrow> bindR (meaning m ctx res bnd a) (machine_handle callee) | _ \<Rightarrow> Inl (WrongArity callee 1))
      else
        (case args of
           [a, b] \<Rightarrow> bindR (meaning m ctx res bnd a) (\<lambda>lhs. bindR (meaning m ctx res bnd b) (apply_call callee lhs))
         | _ \<Rightarrow> Inl (WrongArity callee 2)))"
| "meaning m ctx res bnd (MemberCall member receiver args) =
     bindR (meaning m ctx res bnd receiver) (\<lambda>recv.
       bindR (open_handle member recv) (\<lambda>(isCompute, subject).
         if member = ''count'' then count_query m isCompute subject
         else if member = ''lanes'' then
           (if \<not> isCompute then Inl (AppliesToCompute ''lanes'')
            else (case args of
                [a] \<Rightarrow> bindR (meaning m ctx res bnd a) (lanes_query m subject)
              | _ \<Rightarrow> Inl (WrongArity ''lanes'' 1)))
         else if member = ''capacity_bytes'' \<or> member = ''alignment_bytes'' then
           memory_query m member isCompute subject
         else Inl (UnknownQuery member)))"
| "meaning m ctx res bnd (Quantifier oper var dmn body) =
     (let loop = quantifier_meaning (oper = ''forall'') (\<lambda>v. meaning m ctx res (bnd(var \<mapsto> v)) body) in
      (case dmn of
         Ident name \<Rightarrow>
           if name = ''dimensions'' then loop (dimensions_domain ctx) else Inl UnknownQuantifierDomain
       | Call callee args \<Rightarrow>
           if callee = ''domain'' then
             (case args of
                a # _ \<Rightarrow> bindR (declared_domain res (expr_text a)) loop
              | [] \<Rightarrow> Inl (if res = None then NoDomainResolver else OperandOutOfRange))
           else if callee = ''executors'' then
             (case args of
                a # _ \<Rightarrow> bindR (meaning m ctx res bnd a) (\<lambda>k. bindR (executors_domain m k) loop)
              | [] \<Rightarrow> Inl OperandOutOfRange)
           else Inl UnknownQuantifierDomain
       | _ \<Rightarrow> Inl UnknownQuantifierDomain))"

section \<open>The budgeted evaluator implements the meaning\<close>

definition budget_le :: "quantifier_budget \<Rightarrow> quantifier_budget \<Rightarrow> bool" where
  "budget_le b b' \<longleftrightarrow> limit b' = limit b \<and> used b \<le> used b' \<and>
     (used b \<le> limit b \<longrightarrow> used b' \<le> limit b) \<and> (exhausted b \<longrightarrow> exhausted b')"

lemma budget_le_refl [simp]: "budget_le b b"
  by (simp add: budget_le_def)

lemma budget_le_trans: "budget_le b b' \<Longrightarrow> budget_le b' b'' \<Longrightarrow> budget_le b b''"
  by (auto simp: budget_le_def)

text \<open>A budgeted computation implements a result when it only moves the budget forward, gives the
  result unless it exhausts the budget, and does not exhaust a budget with enough units left.\<close>

definition faithful_run :: "'a eval \<Rightarrow> (eval_error, 'a) expected \<Rightarrow> bool" where
  "faithful_run ev r \<longleftrightarrow>
     (\<forall>b. \<exists>x b'. ev (Some b) = (x, Some b') \<and> budget_le b b' \<and> (\<not> exhausted b' \<longrightarrow> x = r))"

definition enough_units :: "'a eval \<Rightarrow> nat \<Rightarrow> bool" where
  "enough_units ev n \<longleftrightarrow>
     (\<forall>b x b'. ev (Some b) = (x, Some b') \<longrightarrow> \<not> exhausted b \<longrightarrow> used b + n \<le> limit b \<longrightarrow>
        \<not> exhausted b' \<and> used b' \<le> used b + n)"

definition implements :: "'a eval \<Rightarrow> (eval_error, 'a) expected \<Rightarrow> bool" where
  "implements ev r \<longleftrightarrow> faithful_run ev r \<and> (\<exists>n. enough_units ev n)"

lemma implements_lift [intro!]: "implements (lift_eval r) r"
  by (auto simp: implements_def faithful_run_def enough_units_def lift_eval_def intro!: exI [of _ 0])

lemma implements_return [intro!]: "implements (return_eval a) (Inr a)"
  by (auto simp: implements_def faithful_run_def enough_units_def return_eval_def intro!: exI [of _ 0])

lemma implements_fail [intro!]: "implements (fail_eval e) (Inl e)"
  by (auto simp: implements_def faithful_run_def enough_units_def fail_eval_def intro!: exI [of _ 0])

lemma faithful_run_bind:
  assumes "faithful_run ev r" "\<And>a. faithful_run (f a) (g a)"
  shows "faithful_run (bind_eval ev f) (bindR r g)"
  unfolding faithful_run_def
proof
  fix b
  obtain x b1 where x: "ev (Some b) = (x, Some b1)" "budget_le b b1" "\<not> exhausted b1 \<longrightarrow> x = r"
    using assms(1) unfolding faithful_run_def by blast
  show "\<exists>y b'. bind_eval ev f (Some b) = (y, Some b') \<and> budget_le b b' \<and> (\<not> exhausted b' \<longrightarrow> y = bindR r g)"
  proof (cases x)
    case (Inl e)
    then show ?thesis using x by (auto simp: bind_eval_def)
  next
    case (Inr a)
    obtain y b2 where y: "f a (Some b1) = (y, Some b2)" "budget_le b1 b2" "\<not> exhausted b2 \<longrightarrow> y = g a"
      using assms(2) unfolding faithful_run_def by blast
    have "\<not> exhausted b2 \<longrightarrow> y = bindR r g" using x y Inr by (auto simp: budget_le_def)
    then show ?thesis using x y Inr budget_le_trans [OF x(2) y(2)] by (simp add: bind_eval_def)
  qed
qed

lemma enough_units_bind:
  assumes "faithful_run ev r" "enough_units ev n" "\<And>a. r = Inr a \<Longrightarrow> enough_units (f a) k"
    and "\<And>a. faithful_run (f a) (g a)"
  shows "enough_units (bind_eval ev f) (n + k)"
  unfolding enough_units_def
proof (intro allI impI)
  fix b y b'
  assume run: "bind_eval ev f (Some b) = (y, Some b')" and b: "\<not> exhausted b" "used b + (n + k) \<le> limit b"
  obtain x b1 where x: "ev (Some b) = (x, Some b1)" "budget_le b b1" "\<not> exhausted b1 \<longrightarrow> x = r"
    using assms(1) unfolding faithful_run_def by blast
  have b1: "\<not> exhausted b1" "used b1 \<le> used b + n"
    using assms(2) x(1) b unfolding enough_units_def by (metis add_leD1 add.assoc)+
  show "\<not> exhausted b' \<and> used b' \<le> used b + (n + k)"
  proof (cases x)
    case (Inl e)
    then show ?thesis using run x b1 by (auto simp: bind_eval_def)
  next
    case (Inr a)
    have "f a (Some b1) = (y, Some b')" using run x Inr by (simp add: bind_eval_def)
    moreover have "enough_units (f a) k" using assms(3) x b1 Inr by simp
    moreover have "used b1 + k \<le> limit b1" using b b1 x by (simp add: budget_le_def)
    ultimately have "\<not> exhausted b' \<and> used b' \<le> used b1 + k"
      using b1 unfolding enough_units_def by blast
    with b1 show ?thesis by simp
  qed
qed

lemma implements_bind [intro]:
  assumes "implements ev r" "\<And>a. implements (f a) (g a)"
  shows "implements (bind_eval ev f) (bindR r g)"
proof -
  obtain n where n: "enough_units ev n" using assms(1) unfolding implements_def by blast
  have "\<exists>k. \<forall>a. r = Inr a \<longrightarrow> enough_units (f a) k"
    using assms(2) unfolding implements_def by (cases r) auto
  then obtain k where k: "\<And>a. r = Inr a \<Longrightarrow> enough_units (f a) k" by blast
  have f: "\<And>a. faithful_run (f a) (g a)" and ev: "faithful_run ev r"
    using assms by (auto simp: implements_def)
  have "faithful_run (bind_eval ev f) (bindR r g)" by (rule faithful_run_bind [OF ev f])
  moreover have "enough_units (bind_eval ev f) (n + k)" by (rule enough_units_bind [OF ev n k f])
  ultimately show ?thesis unfolding implements_def by blast
qed

text \<open>One turn of the quantifier loop, as a computation: take a unit, run the body, decide.\<close>

definition take_unit :: "unit eval" where
  "take_unit s = (case s of
     None \<Rightarrow> (Inl NoBudget, s)
   | Some b \<Rightarrow> (Inr (), Some (b\<lparr>used := used b + 1\<rparr>)))"

definition decide :: "bool \<Rightarrow> eval_value \<Rightarrow> eval_value eval \<Rightarrow> eval_value eval" where
  "decide isForall v continue =
     (case v of
        EInt i \<Rightarrow>
          if isForall \<and> i = 0 then return_eval (EInt 0)
          else if \<not> isForall \<and> i \<noteq> 0 then return_eval (EInt 1)
          else continue
      | _ \<Rightarrow> fail_eval BodyNotInteger)"

lemma quantifier_loop_Cons:
  "quantifier_loop isForall body (v # vs) (Some b) =
     (if limit b \<le> used b then (Inr (EInt 0), Some (b\<lparr>exhausted := True\<rparr>))
      else bind_eval (body v) (\<lambda>r. decide isForall r (quantifier_loop isForall body vs)) (Some (b\<lparr>used := used b + 1\<rparr>)))"
  by (auto simp: budget_step_def bind_eval_def decide_def return_eval_def fail_eval_def
      split: prod.splits sum.splits eval_value.splits)

lemma implements_decide:
  "implements continue r \<Longrightarrow> implements (decide isForall v continue)
     (case v of
        EInt i \<Rightarrow> if isForall \<and> i = 0 then Inr (EInt 0) else if \<not> isForall \<and> i \<noteq> 0 then Inr (EInt 1) else r
      | _ \<Rightarrow> Inl BodyNotInteger)"
  by (auto simp: decide_def split: eval_value.split)

lemma implements_after_unit:
  assumes "implements ev r"
    and "\<And>b. f (Some b) = (if limit b \<le> used b then (Inr y, Some (b\<lparr>exhausted := True\<rparr>))
      else ev (Some (b\<lparr>used := used b + 1\<rparr>)))"
  shows "implements f r"
proof -
  obtain n where n: "enough_units ev n" and ev: "faithful_run ev r"
    using assms(1) unfolding implements_def by blast
  have "faithful_run f r"
    unfolding faithful_run_def
  proof
    fix b
    obtain x b' where x: "ev (Some (b\<lparr>used := used b + 1\<rparr>)) = (x, Some b')"
        "budget_le (b\<lparr>used := used b + 1\<rparr>) b'" "\<not> exhausted b' \<longrightarrow> x = r"
      using ev unfolding faithful_run_def by blast
    then show "\<exists>x b'. f (Some b) = (x, Some b') \<and> budget_le b b' \<and> (\<not> exhausted b' \<longrightarrow> x = r)"
      by (cases "limit b \<le> used b") (auto simp: assms(2) budget_le_def)
  qed
  moreover have "enough_units f (Suc n)"
    unfolding enough_units_def
  proof (intro allI impI)
    fix b x b'
    assume run: "f (Some b) = (x, Some b')" and b: "\<not> exhausted b" "used b + Suc n \<le> limit b"
    then have "ev (Some (b\<lparr>used := used b + 1\<rparr>)) = (x, Some b')" by (simp add: assms(2))
    moreover have "\<not> exhausted (b\<lparr>used := used b + 1\<rparr>)" "used (b\<lparr>used := used b + 1\<rparr>) + n \<le> limit (b\<lparr>used := used b + 1\<rparr>)"
      using b by auto
    ultimately have "\<not> exhausted b' \<and> used b' \<le> used (b\<lparr>used := used b + 1\<rparr>) + n"
      using n unfolding enough_units_def by blast
    then show "\<not> exhausted b' \<and> used b' \<le> used b + Suc n" by simp
  qed
  ultimately show ?thesis unfolding implements_def by blast
qed

lemma implements_loop:
  assumes "\<And>v. implements (body v) (sem v)"
  shows "implements (quantifier_loop isForall body vs) (quantifier_meaning isForall sem vs)"
proof (induction vs)
  case Nil
  have "quantifier_loop isForall body [] = return_eval (EInt (if isForall then 1 else 0))"
    by (simp add: fun_eq_iff return_eval_def)
  then show ?case by (simp add: implements_return)
next
  case (Cons v vs)
  have "implements (bind_eval (body v) (\<lambda>r. decide isForall r (quantifier_loop isForall body vs)))
      (quantifier_meaning isForall sem (v # vs))"
    unfolding quantifier_meaning.simps by (intro implements_bind assms implements_decide Cons.IH)
  then show ?case by (rule implements_after_unit) (rule quantifier_loop_Cons)
qed

lemma implements_run_quantifier:
  assumes "\<And>v. implements (body v) (sem v)"
  shows "implements (run_quantifier oper body dmn) (quantifier_meaning (oper = ''forall'') sem dmn)"
  using implements_loop [where body = body and sem = sem and isForall = "oper = ''forall''" and vs = dmn] assms
  by (simp add: implements_def faithful_run_def enough_units_def run_quantifier_def)

lemma evalImpl_implements: "implements (evalImpl m ctx res bnd e) (meaning m ctx res bnd e)"
proof (induction m ctx res bnd e rule: evalImpl.induct)
  case (6 m ctx res bnd callee args)
  show ?case
  proof (cases "is_machine_call callee")
    case True
    then show ?thesis using 6(1) by (auto split: list.split intro!: implements_bind)
  next
    case False
    then show ?thesis using 6(2,3) by (auto split: list.split intro!: implements_bind)
  qed
next
  case (7 m ctx res bnd member receiver args)
  have arg: "implements (evalImpl m ctx res bnd a) (meaning m ctx res bnd a)"
    if "args = [a]" "member = ''lanes''" for a
    using 7(2) that by auto
  show ?case
    unfolding evalImpl.simps meaning.simps
    by (intro implements_bind 7(1) implements_lift)
      (auto split: list.split prod.split intro!: implements_bind arg)
next
  case (8 m ctx res bnd oper var dmn body)
  have loop: "implements (run_quantifier oper (\<lambda>v. evalImpl m ctx res (bnd(var \<mapsto> v)) body) d)
      (quantifier_meaning (oper = ''forall'') (\<lambda>v. meaning m ctx res (bnd(var \<mapsto> v)) body) d)" for d
    by (rule implements_run_quantifier) (rule 8(1))
  show ?case
  proof (cases dmn)
    case (Call callee args)
    show ?thesis
    proof (cases args)
      case (Cons a rest)
      have arg: "implements (evalImpl m ctx res bnd a) (meaning m ctx res bnd a)" if "callee = ''executors''"
        using 8(2) Call Cons that by auto
      show ?thesis using Call Cons loop by (auto simp: Let_def intro!: implements_bind arg)
    qed (use Call in \<open>auto simp: Let_def\<close>)
  qed (use loop in \<open>auto simp: Let_def\<close>)
qed auto

section \<open>Validated expressions stay within the vocabulary\<close>

definition vocabulary_error :: "eval_error \<Rightarrow> bool" where
  "vocabulary_error e = (case e of
     UnknownIdentifier _ \<Rightarrow> True
   | UnknownFunction _ \<Rightarrow> True
   | UnknownQuery _ \<Rightarrow> True
   | UnknownQuantifierDomain \<Rightarrow> True
   | OperandOutOfRange \<Rightarrow> True
   | _ \<Rightarrow> False)"

text \<open>A computation whose error, if any, is not about the vocabulary.\<close>

definition in_vocabulary :: "'a eval \<Rightarrow> bool" where
  "in_vocabulary ev \<longleftrightarrow> (\<forall>s e s'. ev s = (Inl e, s') \<longrightarrow> \<not> vocabulary_error e)"

lemma in_vocabulary_bind [intro]:
  "in_vocabulary ev \<Longrightarrow> (\<And>a. in_vocabulary (f a)) \<Longrightarrow> in_vocabulary (bind_eval ev f)"
  unfolding in_vocabulary_def bind_eval_def by (auto split: prod.splits sum.splits)

lemma in_vocabulary_lift: "(\<And>e. r = Inl e \<Longrightarrow> \<not> vocabulary_error e) \<Longrightarrow> in_vocabulary (lift_eval r)"
  by (simp add: in_vocabulary_def lift_eval_def)

lemma in_vocabulary_return [intro!]: "in_vocabulary (return_eval a)"
  by (simp add: in_vocabulary_def return_eval_def)

lemma in_vocabulary_fail: "\<not> vocabulary_error e \<Longrightarrow> in_vocabulary (fail_eval e)"
  by (simp add: in_vocabulary_def fail_eval_def)

lemma in_vocabulary_loop:
  assumes "\<And>v. in_vocabulary (body v)"
  shows "in_vocabulary (quantifier_loop isForall body vs)"
proof -
  have "quantifier_loop isForall body vs s = (Inl e, s') \<Longrightarrow> \<not> vocabulary_error e" for s e s'
  proof (induction vs arbitrary: s)
    case (Cons v vs)
    show ?case
    proof (cases s)
      case None
      then show ?thesis using Cons.prems by (auto simp: vocabulary_error_def)
    next
      case (Some b)
      obtain ok b1 where b1: "budget_step b = (ok, b1)" by (cases "budget_step b")
      obtain x s1 where x: "body v (Some b1) = (x, s1)" by (cases "body v (Some b1)")
      have "x = Inl e' \<Longrightarrow> \<not> vocabulary_error e'" for e'
        using assms [of v] x unfolding in_vocabulary_def by blast
      then show ?thesis
        using Cons Some b1 x
        by (auto simp: vocabulary_error_def split: bool.splits sum.splits eval_value.splits if_splits)
    qed
  qed simp
  then show ?thesis unfolding in_vocabulary_def by blast
qed

lemma in_vocabulary_quantifier:
  assumes "\<And>v. in_vocabulary (body v)"
  shows "in_vocabulary (run_quantifier oper body dmn)"
  using in_vocabulary_loop [where body = body and isForall = "oper = ''forall''" and vs = dmn] assms
  by (auto simp: in_vocabulary_def run_quantifier_def vocabulary_error_def split: if_splits)

definition vocabulary_ok :: "(eval_error, 'a) expected \<Rightarrow> bool" where
  "vocabulary_ok r = (case r of Inl e \<Rightarrow> \<not> vocabulary_error e | Inr _ \<Rightarrow> True)"

lemma vocabulary_ok_simps [simp]:
  "vocabulary_ok (Inl e) \<longleftrightarrow> \<not> vocabulary_error e" "vocabulary_ok (Inr a)"
  by (simp_all add: vocabulary_ok_def)

lemma in_vocabulary_ok: "vocabulary_ok r \<Longrightarrow> in_vocabulary (lift_eval r)"
  by (auto intro: in_vocabulary_lift)

lemma vocabulary_error_simps [simp]:
  "\<not> vocabulary_error (RequiresIntegers n)" "\<not> vocabulary_error CannotCompare" "\<not> vocabulary_error DivisionByZero"
  "\<not> vocabulary_error (UnknownOperator n)" "\<not> vocabulary_error (WrongArity n k)" "\<not> vocabulary_error (NeedsString n)"
  "\<not> vocabulary_error NonPositiveDivisor" "\<not> vocabulary_error (NotAMachineValue n)" "\<not> vocabulary_error MalformedHandle"
  "\<not> vocabulary_error (AppliesToCompute n)" "\<not> vocabulary_error (AppliesToMemory n)" "\<not> vocabulary_error (UnknownCompute n)"
  "\<not> vocabulary_error (NoSuchDType n d)" "\<not> vocabulary_error (UnknownMemory n)" "\<not> vocabulary_error NoDomainResolver"
  "\<not> vocabulary_error (UnknownDomain n)" "\<not> vocabulary_error (UnknownExecutorKind n)" "\<not> vocabulary_error (NoExecutors n)"
  "\<not> vocabulary_error SignedOverflow"
  by (simp_all add: vocabulary_error_def)

lemma vocabulary_ok_int_op: "vocabulary_ok (apply_int_op oper l r)"
  by (simp add: apply_int_op_def divide_values_def of_bool_int_def checked_def)

lemma in_vocabulary_operations:
  "in_vocabulary (lift_eval (evalUnary oper v))"
  "in_vocabulary (lift_eval (evalBinary oper v w))"
  "in_vocabulary (lift_eval (machine_handle callee v))"
  "in_vocabulary (lift_eval (count_query m isCompute subject))"
  "in_vocabulary (lift_eval (lanes_query m subject v))"
  "in_vocabulary (lift_eval (memory_query m member isCompute subject))"
  "in_vocabulary (lift_eval (open_handle member v))"
  "in_vocabulary (lift_eval (executors_domain m v))"
  "in_vocabulary (lift_eval (declared_domain res n))"
proof -
  show "in_vocabulary (lift_eval (evalUnary oper v))"
    by (rule in_vocabulary_ok, cases v) (simp_all add: evalUnary_def of_bool_int_def checked_def)
  show "in_vocabulary (lift_eval (evalBinary oper v w))"
    by (rule in_vocabulary_ok, cases v; cases w)
      (simp_all only: evalBinary_def prod.case eval_value.case of_bool_int_def vocabulary_ok_int_op
        vocabulary_ok_simps vocabulary_error_simps if_split same_kind.simps simp_thms)
  show "in_vocabulary (lift_eval (machine_handle callee v))"
    by (rule in_vocabulary_ok, cases v) (simp_all add: machine_handle_def)
  show "in_vocabulary (lift_eval (count_query m isCompute subject))"
    by (rule in_vocabulary_ok) (simp add: count_query_def Let_def)
  show "in_vocabulary (lift_eval (lanes_query m subject v))"
    by (rule in_vocabulary_ok) (simp add: lanes_query_def split: eval_value.split option.split)
  show "in_vocabulary (lift_eval (memory_query m member isCompute subject))"
    by (rule in_vocabulary_ok) (simp add: memory_query_def split: option.split)
  show "in_vocabulary (lift_eval (open_handle member v))"
    by (rule in_vocabulary_ok, cases v) (simp_all add: open_handle_def)
  show "in_vocabulary (lift_eval (executors_domain m v))"
    by (rule in_vocabulary_ok, cases v) (simp_all add: executors_domain_def Let_def)
  show "in_vocabulary (lift_eval (declared_domain res n))"
    by (rule in_vocabulary_ok) (simp add: declared_domain_def split: option.split)
qed

lemma in_vocabulary_call:
  "isKnownCall callee \<Longrightarrow> \<not> is_machine_call callee \<Longrightarrow> in_vocabulary (lift_eval (apply_call callee v w))"
proof (rule in_vocabulary_ok)
  assume "isKnownCall callee" "\<not> is_machine_call callee"
  then have "callee = ''floordiv'' \<or> callee = ''ceildiv'' \<or> callee = ''mod'' \<or> callee = ''min'' \<or> callee = ''max''"
    by (simp only: isKnownCall_def is_machine_call_def insert_iff empty_iff) argo
  then show "vocabulary_ok (apply_call callee v w)"
    by (cases v; cases w) (elim disjE; simp add: apply_call_def divide_values_def)+
qed

text \<open>Names in scope: bound, or one of the two builtins.\<close>

definition scope_ok :: "string list \<Rightarrow> bindings \<Rightarrow> bool" where
  "scope_ok allowed bnd \<longleftrightarrow> (\<forall>n \<in> set allowed. bnd n \<noteq> None \<or> n = ''rank'' \<or> n = ''element_type'')"

lemma scope_ok_bind: "scope_ok allowed bnd \<Longrightarrow> scope_ok (var # allowed) (bnd(var \<mapsto> v))"
  by (auto simp: scope_ok_def)

lemma validated_in_vocabulary:
  "validateExpr allowed e = None \<Longrightarrow> scope_ok allowed bnd \<Longrightarrow> in_vocabulary (evalImpl m ctx res bnd e)"
proof (induction m ctx res bnd e arbitrary: allowed rule: evalImpl.induct)
  case (3 m ctx res bnd name)
  then show ?case
    by (auto simp: eval_ident_def scope_ok_def intro!: in_vocabulary_ok split: option.splits if_splits)
next
  case (4 m ctx res bnd oper e)
  then show ?case by (auto intro!: in_vocabulary_bind in_vocabulary_operations)
next
  case (5 m ctx res bnd oper l r)
  then show ?case by (auto intro!: in_vocabulary_bind in_vocabulary_operations)
next
  case (6 m ctx res bnd callee args)
  note valid = "6.prems"
  show ?case
  proof (cases "is_machine_call callee")
    case True
    then show ?thesis using 6(1) valid
      by (auto intro!: in_vocabulary_bind in_vocabulary_operations in_vocabulary_fail split: list.split if_splits)
  next
    case False
    then show ?thesis using 6(2,3) valid
      by (auto intro!: in_vocabulary_bind in_vocabulary_call in_vocabulary_fail split: list.split if_splits)
  qed
next
  case (7 m ctx res bnd member receiver args)
  have arg: "in_vocabulary (evalImpl m ctx res bnd a)" if "args = [a]" "member = ''lanes''" for a
  proof -
    have "validateExpr allowed a = None" using 7(3) that by (simp split: if_splits option.splits)
    then show ?thesis using 7(2) 7(4) that by auto
  qed
  have known: "isKnownMember member" and recv: "validateExpr allowed receiver = None"
    using 7(3) by (auto split: if_splits)
  have members: "member = ''lanes'' \<or> member = ''count'' \<or> member = ''capacity_bytes'' \<or> member = ''alignment_bytes''"
    using known by (simp only: isKnownMember_def insert_iff empty_iff) argo
  have lanes: "in_vocabulary (if \<not> c then fail_eval (AppliesToCompute ''lanes'')
      else case args of [a] \<Rightarrow> bind_eval (evalImpl m ctx res bnd a) (\<lambda>d. lift_eval (lanes_query m subject d))
        | _ \<Rightarrow> fail_eval (WrongArity ''lanes'' 1))" if "member = ''lanes''" for c subject
    by (auto split: list.split intro!: in_vocabulary_bind in_vocabulary_operations in_vocabulary_fail arg that)
  from members show ?case
    unfolding evalImpl.simps
    by (intro in_vocabulary_bind 7(1) [OF recv 7(4)] in_vocabulary_operations)
      (elim disjE; simp add: lanes in_vocabulary_operations split: prod.split)
next
  case (8 m ctx res bnd oper var dmn body)
  have body: "in_vocabulary (evalImpl m ctx res (bnd(var \<mapsto> v)) body)" for v
  proof -
    have "validateExpr (var # allowed) body = None" using 8(3) by simp
    with 8(1) scope_ok_bind [OF 8(4)] show ?thesis by blast
  qed
  have loop: "in_vocabulary (run_quantifier oper (\<lambda>v. evalImpl m ctx res (bnd(var \<mapsto> v)) body) d)" for d
    by (rule in_vocabulary_quantifier) (rule body)
  show ?case
  proof (cases dmn)
    case (Call callee args)
    show ?thesis
    proof (cases args)
      case Nil
      then show ?thesis using Call 8(3) by (auto split: if_splits)
    next
      case (Cons a rest)
      have arg: "in_vocabulary (evalImpl m ctx res bnd a)" if "callee = ''executors''"
        using 8(2) [OF refl] Call Cons that 8(3,4) by (auto split: list.splits)
      show ?thesis
        using Call Cons loop 8(3)
        by (auto simp: Let_def intro!: in_vocabulary_bind in_vocabulary_operations arg split: if_splits)
    qed
  qed (use loop 8(3) in \<open>auto simp: Let_def split: if_splits\<close>)
qed auto

section \<open>The canonical rendering is injective\<close>

text \<open>Names as the lexer produces them never contain the three separators.\<close>

definition separator :: "char \<Rightarrow> bool" where
  "separator c \<longleftrightarrow> c = CHR ''('' \<or> c = CHR '','' \<or> c = CHR '')''"

definition plain_name :: "string \<Rightarrow> bool" where
  "plain_name n \<longleftrightarrow> (\<forall>c \<in> set n. \<not> separator c)"

fun plain_names :: "expr \<Rightarrow> bool" where
  "plain_names (IntLit i) \<longleftrightarrow> True"
| "plain_names (StringLit s) \<longleftrightarrow> True"
| "plain_names (Ident n) \<longleftrightarrow> plain_name n"
| "plain_names (Call n args) \<longleftrightarrow> plain_name n \<and> (\<forall>a \<in> set args. plain_names a)"
| "plain_names (MemberCall n r args) \<longleftrightarrow> plain_name n \<and> plain_names r \<and> (\<forall>a \<in> set args. plain_names a)"
| "plain_names (Unary n e) \<longleftrightarrow> plain_name n \<and> plain_names e"
| "plain_names (Binary n l r) \<longleftrightarrow> plain_name n \<and> plain_names l \<and> plain_names r"
| "plain_names (Quantifier n v d b) \<longleftrightarrow> plain_name n \<and> plain_name v \<and> plain_names d \<and> plain_names b"

definition delimited :: "string \<Rightarrow> bool" where
  "delimited r \<longleftrightarrow> r = [] \<or> hd r = CHR '','' \<or> hd r = CHR '')''"

lemma delimited_simps [simp]: "delimited []" "delimited (CHR '','' # r)" "delimited (CHR '')'' # r)"
  by (simp_all add: delimited_def)

lemma name_uniq:
  "plain_name m \<Longrightarrow> plain_name n \<Longrightarrow> m @ CHR ''('' # r = n @ CHR ''('' # s \<Longrightarrow> m = n \<and> r = s"
  using until_uniq [of m "\<lambda>c. \<not> separator c" n "CHR ''('' # r" "CHR ''('' # s"]
  by (auto simp: plain_name_def separator_def)

lemma ident_uniq:
  "plain_name m \<Longrightarrow> plain_name n \<Longrightarrow> delimited r \<Longrightarrow> delimited s \<Longrightarrow> m @ r = n @ s \<Longrightarrow> m = n \<and> r = s"
proof -
  assume names: "plain_name m" "plain_name n" and "delimited r" "delimited s" and eq: "m @ r = n @ s"
  then have "r = [] \<or> \<not> \<not> separator (hd r)" "s = [] \<or> \<not> \<not> separator (hd s)"
    by (auto simp: delimited_def separator_def)
  from until_uniq [OF _ _ this eq] names show "m = n \<and> r = s" by (simp add: plain_name_def)
qed

lemma int_uniq:
  "delimited r \<Longrightarrow> delimited s \<Longrightarrow> int_to_string i @ r = int_to_string j @ s \<Longrightarrow> i = j \<and> r = s"
proof -
  assume "delimited r" "delimited s" and eq: "int_to_string i @ r = int_to_string j @ s"
  then have "r = [] \<or> \<not> is_int_char (hd r)" "s = [] \<or> \<not> is_int_char (hd s)"
    by (auto simp: delimited_def)
  from until_uniq [OF int_to_string_chars int_to_string_chars this eq] show "i = j \<and> r = s" by simp
qed

text \<open>The property the induction carries: a rendering is recovered from any delimited context.\<close>

definition recovers :: "expr \<Rightarrow> bool" where
  "recovers e \<longleftrightarrow> (\<forall>e' r s. plain_names e' \<longrightarrow> delimited r \<longrightarrow> delimited s \<longrightarrow>
     canonicalExprString e @ r = canonicalExprString e' @ s \<longrightarrow> e = e' \<and> r = s)"

lemma recoversD:
  "recovers e \<Longrightarrow> plain_names e' \<Longrightarrow> delimited r \<Longrightarrow> delimited s \<Longrightarrow>
     canonicalExprString e @ r = canonicalExprString e' @ s \<Longrightarrow> e = e' \<and> r = s"
  unfolding recovers_def by blast

lemma recoversI:
  "(\<And>e' r s. plain_names e' \<Longrightarrow> delimited r \<Longrightarrow> delimited s \<Longrightarrow>
     canonicalExprString e @ r = canonicalExprString e' @ s \<Longrightarrow> e = e' \<and> r = s) \<Longrightarrow> recovers e"
  unfolding recovers_def by blast

lemma recovers_then:
  "recovers e \<Longrightarrow> plain_names e' \<Longrightarrow>
     canonicalExprString e @ CHR '','' # r = canonicalExprString e' @ CHR '','' # s \<Longrightarrow> e = e' \<and> r = s"
  "recovers e \<Longrightarrow> plain_names e' \<Longrightarrow>
     canonicalExprString e @ CHR '')'' # r = canonicalExprString e' @ CHR '')'' # s \<Longrightarrow> e = e' \<and> r = s"
  by (auto dest!: recoversD)

lemma ident_then:
  "plain_name m \<Longrightarrow> plain_name n \<Longrightarrow> m @ CHR '','' # r = n @ CHR '','' # s \<Longrightarrow> m = n \<and> r = s"
  using ident_uniq [of m n "CHR '','' # r" "CHR '','' # s"] by simp

lemma canonical_not_close [simp]: "canonicalExprString e \<noteq> CHR '')'' # s" "canonicalExprString e @ r \<noteq> CHR '')'' # s"
  by (cases e; simp)+

lemma args_uniq:
  assumes "\<And>a. a \<in> set xs \<Longrightarrow> recovers a" "\<forall>a \<in> set ys. plain_names a"
    and "join_with '','' (map canonicalExprString xs) @ CHR '')'' # r = join_with '','' (map canonicalExprString ys) @ CHR '')'' # s"
  shows "xs = ys \<and> r = s"
  using assms
proof (induction xs arbitrary: ys)
  case Nil
  then show ?case by (cases ys) (auto simp: join_with_Cons dest: sym)
next
  case (Cons x xs)
  obtain y ys' where ys: "ys = y # ys'" using Cons.prems by (cases ys) (auto simp: join_with_Cons)
  let ?rest = "\<lambda>zs t. if zs = [] then CHR '')'' # t else CHR '','' # join_with '','' (map canonicalExprString zs) @ CHR '')'' # t"
  have eq: "canonicalExprString x @ ?rest xs r = canonicalExprString y @ ?rest ys' s"
    using Cons.prems(3) ys by (simp add: join_with_Cons split: if_splits)
  have del: "delimited (?rest zs t)" for zs t by simp
  have "recovers x" "plain_names y" using Cons.prems ys by auto
  from recoversD [OF this del del eq] have xy: "x = y" and rest: "?rest xs r = ?rest ys' s" by auto
  show ?case
  proof (cases "xs = []")
    case True
    then show ?thesis using rest xy ys by (auto split: if_splits)
  next
    case False
    then have "ys' \<noteq> []" using rest by (auto split: if_splits)
    then show ?thesis using False rest xy ys Cons.IH [of ys'] Cons.prems(1,2) by auto
  qed
qed

lemma canonical_recovers: "plain_names e \<Longrightarrow> recovers e"
proof (induction e)
  case (IntLit i)
  show ?case
  proof (rule recoversI)
    fix e' r s assume "plain_names e'" "delimited r" "delimited s"
      "canonicalExprString (IntLit i) @ r = canonicalExprString e' @ s"
    then show "IntLit i = e' \<and> r = s" by (cases e') (auto dest: int_uniq)
  qed
next
  case (StringLit t)
  show ?case
  proof (rule recoversI)
    fix e' r s assume prems: "plain_names e'" "delimited r" "delimited s"
      "canonicalExprString (StringLit t) @ r = canonicalExprString e' @ s"
    then obtain u where u: "e' = StringLit u" by (cases e') auto
    with prems have "sized t @ r = sized u @ s" by (simp add: sized_def)
    then show "StringLit t = e' \<and> r = s" using sized.uniq u by blast
  qed
next
  case (Ident n)
  show ?case
  proof (rule recoversI)
    fix e' r s assume "plain_names e'" "delimited r" "delimited s"
      "canonicalExprString (Ident n) @ r = canonicalExprString e' @ s"
    with Ident show "Ident n = e' \<and> r = s" by (cases e') (auto dest: ident_uniq)
  qed
next
  case (Call n args)
  show ?case
  proof (rule recoversI)
    fix e' r s assume prems: "plain_names e'" "delimited r" "delimited s"
      "canonicalExprString (Call n args) @ r = canonicalExprString e' @ s"
    then obtain n' args' where e': "e' = Call n' args'" by (cases e') auto
    with prems Call name_uniq [of n n'] have "n = n'"
      "join_with '','' (map canonicalExprString args) @ CHR '')'' # r = join_with '','' (map canonicalExprString args') @ CHR '')'' # s"
      by auto
    with args_uniq [of args args' r s] e' prems Call show "Call n args = e' \<and> r = s" by auto
  qed
next
  case (MemberCall n recv args)
  show ?case
  proof (rule recoversI)
    fix e' r s assume prems: "plain_names e'" "delimited r" "delimited s"
      "canonicalExprString (MemberCall n recv args) @ r = canonicalExprString e' @ s"
    then obtain n' recv' args' where e': "e' = MemberCall n' recv' args'" by (cases e') auto
    with prems MemberCall name_uniq [of n n'] have "n = n'"
      "join_with '','' (map canonicalExprString (recv # args)) @ CHR '')'' # r = join_with '','' (map canonicalExprString (recv' # args')) @ CHR '')'' # s"
      by auto
    with args_uniq [of "recv # args" "recv' # args'" r s] e' prems MemberCall
    show "MemberCall n recv args = e' \<and> r = s" by auto
  qed
next
  case (Unary n e)
  show ?case
  proof (rule recoversI)
    fix e' r s assume prems: "plain_names e'" "delimited r" "delimited s"
      "canonicalExprString (Unary n e) @ r = canonicalExprString e' @ s"
    then obtain n' f where e': "e' = Unary n' f" by (cases e') auto
    with prems Unary name_uniq [of n n'] have n: "n = n'"
      and "canonicalExprString e @ CHR '')'' # r = canonicalExprString f @ CHR '')'' # s" by auto
    with recovers_then(2) [of e f r s] e' prems Unary show "Unary n e = e' \<and> r = s" by auto
  qed
next
  case (Binary n e1 e2)
  show ?case
  proof (rule recoversI)
    fix e' r s assume prems: "plain_names e'" "delimited r" "delimited s"
      "canonicalExprString (Binary n e1 e2) @ r = canonicalExprString e' @ s"
    then obtain n' f1 f2 where e': "e' = Binary n' f1 f2" by (cases e') auto
    have rec: "recovers e1" "recovers e2" "plain_names f1" "plain_names f2" using Binary prems(1) e' by auto
    from e' prems Binary name_uniq [of n n'] have n: "n = n'" and
      eq: "canonicalExprString e1 @ CHR '','' # canonicalExprString e2 @ CHR '')'' # r =
       canonicalExprString f1 @ CHR '','' # canonicalExprString f2 @ CHR '')'' # s" by auto
    from recovers_then(1) [OF rec(1,3) eq] have "e1 = f1" and
      eq2: "canonicalExprString e2 @ CHR '')'' # r = canonicalExprString f2 @ CHR '')'' # s" by auto
    with recovers_then(2) [OF rec(2,4) eq2] e' n show "Binary n e1 e2 = e' \<and> r = s" by simp
  qed
next
  case (Quantifier n v d b)
  show ?case
  proof (rule recoversI)
    fix e' r s assume prems: "plain_names e'" "delimited r" "delimited s"
      "canonicalExprString (Quantifier n v d b) @ r = canonicalExprString e' @ s"
    then obtain n' v' d' b' where e': "e' = Quantifier n' v' d' b'" by (cases e') auto
    have rec: "recovers d" "recovers b" "plain_names d'" "plain_names b'" "plain_name v" "plain_name v'"
      using Quantifier prems(1) e' by auto
    from e' prems Quantifier name_uniq [of n n'] have n: "n = n'" and
      eq: "v @ CHR '','' # canonicalExprString d @ CHR '','' # canonicalExprString b @ CHR '')'' # r =
       v' @ CHR '','' # canonicalExprString d' @ CHR '','' # canonicalExprString b' @ CHR '')'' # s" by auto
    from ident_then [OF rec(5,6) eq] have v: "v = v'" and
      eq2: "canonicalExprString d @ CHR '','' # canonicalExprString b @ CHR '')'' # r =
       canonicalExprString d' @ CHR '','' # canonicalExprString b' @ CHR '')'' # s" by auto
    from recovers_then(1) [OF rec(1,3) eq2] have "d = d'" and
      eq3: "canonicalExprString b @ CHR '')'' # r = canonicalExprString b' @ CHR '')'' # s" by auto
    with recovers_then(2) [OF rec(2,4) eq3] e' n v show "Quantifier n v d b = e' \<and> r = s" by auto
  qed
qed

section \<open>Properties\<close>

text \<open>C31: evaluation under a budget is a decision procedure for the unbounded meaning. It leaves the
  limit alone, only consumes units and never more than the limit, and unless it marks the
  budget exhausted its result (value or error) is the meaning of the expression; and every expression has a
  finite number of units that suffices.\<close>

theorem evaluation_refines_meaning:
  "(\<exists>x b'. evaluateExpr m ctx res bnd e (Some b) = (x, Some b') \<and> limit b' = limit b \<and> used b \<le> used b' \<and>
      (used b \<le> limit b \<longrightarrow> used b' \<le> limit b) \<and> (\<not> exhausted b' \<longrightarrow> x = meaning m ctx res bnd e)) \<and>
   (\<exists>n. \<forall>b. \<not> exhausted b \<and> used b + n \<le> limit b \<longrightarrow>
      fst (evaluateExpr m ctx res bnd e (Some b)) = meaning m ctx res bnd e)"
proof -
  have run: "faithful_run (evalImpl m ctx res bnd e) (meaning m ctx res bnd e)"
    and "\<exists>n. enough_units (evalImpl m ctx res bnd e) n"
    using evalImpl_implements unfolding implements_def by auto
  then obtain n where n: "enough_units (evalImpl m ctx res bnd e) n" by blast
  have "fst (evalImpl m ctx res bnd e (Some b)) = meaning m ctx res bnd e"
    if "\<not> exhausted b" "used b + n \<le> limit b" for b
    using run n that unfolding faithful_run_def enough_units_def by (metis fst_conv)
  moreover have "\<exists>x b'. evalImpl m ctx res bnd e (Some b) = (x, Some b') \<and> budget_le b b' \<and>
      (\<not> exhausted b' \<longrightarrow> x = meaning m ctx res bnd e)"
    using run unfolding faithful_run_def by blast
  ultimately show ?thesis
    unfolding evaluateExpr_def budget_le_def option.case by blast
qed

definition within_rank :: expr where
  "within_rank = Quantifier ''forall'' ''d'' (Ident ''dimensions'') (Binary ''<'' (Ident ''d'') (Ident ''rank''))"

definition context2 :: layout_context where "context2 = \<lparr>rank = 2, elementType = ''f32''\<rparr>"

lemma dimensions2: "[0..1 :: int] = [0, 1]"
  by (simp add: upto.simps)

lemmas within_rank_simps = dimensions2 within_rank_def context2_def dimensions_domain_def eval_ident_def evalBinary_def apply_int_op_def
  of_bool_int_def

theorem evaluation_refines_meaning_witness:
  "meaning sample_machine context2 None (\<lambda>_. None) within_rank = Inr (EInt 1) \<and>
   (\<exists>n. \<forall>b. \<not> exhausted b \<and> used b + n \<le> limit b \<longrightarrow>
      fst (evaluateExpr sample_machine context2 None (\<lambda>_. None) within_rank (Some b)) = Inr (EInt 1))"
proof -
  have "meaning sample_machine context2 None (\<lambda>_. None) within_rank = Inr (EInt 1)"
    by (simp add: within_rank_simps)
  with evaluation_refines_meaning [of sample_machine context2 None "\<lambda>_. None" within_rank] show ?thesis by metis
qed

lemma default_budget_value:
  assumes "evaluateExpr m ctx res bnd e None = (Inr v, s)"
  shows "meaning m ctx res bnd e = Inr v \<and> s = None"
proof -
  have "faithful_run (evalImpl m ctx res bnd e) (meaning m ctx res bnd e)"
    using evalImpl_implements unfolding implements_def by auto
  then obtain x b' where "evalImpl m ctx res bnd e (Some default_budget) = (x, Some b')"
      "\<not> exhausted b' \<longrightarrow> x = meaning m ctx res bnd e"
    unfolding faithful_run_def by blast
  with assms show ?thesis by (cases x) (auto simp: evaluateExpr_def split: if_splits)
qed

lemma quantifier_meaning_logical:
  assumes "\<And>v. v \<in> set vs \<Longrightarrow> body v = Inr (EInt (f v))"
  shows "quantifier_meaning True body vs = Inr (EInt (if \<forall>v \<in> set vs. f v \<noteq> 0 then 1 else 0))"
    and "quantifier_meaning False body vs = Inr (EInt (if \<exists>v \<in> set vs. f v \<noteq> 0 then 1 else 0))"
  using assms by (induction vs) auto

text \<open>A quantifier that evaluates decides the logical quantifier. When the body denotes an integer
  at every dimension and evaluation with the default bound returns a value, a universal is 1
  exactly when the body is nonzero at every dimension of the value's rank and an
  existential is 1 exactly when it is nonzero at some dimension; both are 0 otherwise.\<close>

theorem quantifier_decides:
  assumes "\<And>d. 0 \<le> d \<Longrightarrow> d < rank ctx \<Longrightarrow> meaning m ctx res (bnd(var \<mapsto> IntV d)) body = Inr (EInt (f d))"
    and "evaluateExpr m ctx res bnd (Quantifier oper var (Ident ''dimensions'') body) None = (Inr v, s)"
  shows "v = EInt (if oper = ''forall'' then (if \<forall>d. 0 \<le> d \<and> d < rank ctx \<longrightarrow> f d \<noteq> 0 then 1 else 0)
    else (if \<exists>d. 0 \<le> d \<and> d < rank ctx \<and> f d \<noteq> 0 then 1 else 0))"
proof -
  define g where "g w = (case w of IntV d \<Rightarrow> f d | StrV _ \<Rightarrow> 0)" for w
  let ?body = "\<lambda>w. meaning m ctx res (bnd(var \<mapsto> w)) body"
  have vals: "?body w = Inr (EInt (g w))" if "w \<in> set (dimensions_domain ctx)" for w
    using that assms(1) by (auto simp: dimensions_domain_def g_def)
  have dims: "w \<in> set (dimensions_domain ctx) \<longleftrightarrow> (\<exists>d. w = IntV d \<and> 0 \<le> d \<and> d < rank ctx)" for w
    by (auto simp: dimensions_domain_def)
  have "quantifier_meaning (oper = ''forall'') ?body (dimensions_domain ctx) = Inr v"
    using default_budget_value [OF assms(2)] by simp
  moreover have "(\<forall>w \<in> set (dimensions_domain ctx). g w \<noteq> 0) \<longleftrightarrow> (\<forall>d. 0 \<le> d \<and> d < rank ctx \<longrightarrow> f d \<noteq> 0)"
    "(\<exists>w \<in> set (dimensions_domain ctx). g w \<noteq> 0) \<longleftrightarrow> (\<exists>d. 0 \<le> d \<and> d < rank ctx \<and> f d \<noteq> 0)"
    unfolding Ball_def Bex_def dims by (auto simp: g_def)
  ultimately show ?thesis
    using quantifier_meaning_logical [of "dimensions_domain ctx" ?body g, OF vals]
    by (cases "oper = ''forall''") simp_all
qed

theorem quantifier_decides_witness:
  "evaluateExpr sample_machine context2 None (\<lambda>_. None) within_rank None = (Inr (EInt 1), None)"
proof -
  have "\<exists>v s. evaluateExpr sample_machine context2 None (\<lambda>_. None) within_rank None = (Inr v, s)"
    by (simp add: within_rank_simps evaluateExpr_def run_quantifier_def budget_step_def default_budget_def
        kDefaultQuantifierIterations_def bind_eval_def lift_eval_def)
  then obtain v s where run: "evaluateExpr sample_machine context2 None (\<lambda>_. None)
      (Quantifier ''forall'' ''d'' (Ident ''dimensions'') (Binary ''<'' (Ident ''d'') (Ident ''rank''))) None = (Inr v, s)"
    unfolding within_rank_def by blast
  have "v = EInt (if ''forall'' = ''forall'' then (if \<forall>d. 0 \<le> d \<and> d < rank context2 \<longrightarrow> (1::int) \<noteq> 0 then 1 else 0)
      else (if \<exists>d. 0 \<le> d \<and> d < rank context2 \<and> (1::int) \<noteq> 0 then 1 else 0))"
    by (rule quantifier_decides [OF _ run]) (simp add: within_rank_simps)
  with run default_budget_value [OF run] show ?thesis unfolding within_rank_def by simp
qed

text \<open>A validated expression stays within the vocabulary. If \<^verbatim>\<open>validateExpr\<close> accepts an
  expression for a set of names that are all bound or builtin, evaluation under any budget never
  fails with an unknown identifier, function, machine query or quantifier domain, and never
  indexes an operand that is not there.\<close>

theorem validated_expression_vocabulary:
  assumes "validateExpr allowed e = None" and "scope_ok allowed bnd"
    and "evaluateExpr m ctx res bnd e s = (Inl err, s')"
  shows "\<not> vocabulary_error err"
proof (cases s)
  case (Some b)
  then show ?thesis
    using validated_in_vocabulary [OF assms(1,2), of m ctx res] assms(3)
    unfolding in_vocabulary_def evaluateExpr_def by auto
next
  case None
  obtain x b' where x: "evalImpl m ctx res bnd e (Some default_budget) = (x, b')"
    by (cases "evalImpl m ctx res bnd e (Some default_budget)")
  then have "x = Inl e' \<Longrightarrow> \<not> vocabulary_error e'" for e'
    using validated_in_vocabulary [OF assms(1,2), of m ctx res] unfolding in_vocabulary_def by blast
  then show ?thesis
    using None x assms(3)
    by (auto simp: evaluateExpr_def vocabulary_error_def split: sum.splits option.splits if_splits)
qed

theorem validated_expression_vocabulary_witness:
  "validateExpr [''rank''] (Call ''floordiv'' [Ident ''rank'', IntLit 0]) = None \<and>
   \<not> vocabulary_error DivisionByZero"
proof -
  have v: "validateExpr [''rank''] (Call ''floordiv'' [Ident ''rank'', IntLit 0]) = None"
    by (simp add: isKnownCall_def)
  have "evaluateExpr sample_machine context2 None (\<lambda>_. None) (Call ''floordiv'' [Ident ''rank'', IntLit 0]) None
      = (Inl DivisionByZero, None)"
    by (simp add: evaluateExpr_def is_machine_call_def bind_eval_def lift_eval_def return_eval_def eval_ident_def
        apply_call_def divide_values_def)
  from validated_expression_vocabulary [OF v _ this] v show ?thesis by (simp add: scope_ok_def)
qed

text \<open>The canonical rendering identifies an expression: expressions whose names contain no
  separator (every name the lexer produces) render alike exactly when they are equal.\<close>

theorem canonical_expression_injective:
  assumes "plain_names e" and "plain_names e'"
  shows "canonicalExprString e = canonicalExprString e' \<longleftrightarrow> e = e'"
  using recoversD [OF canonical_recovers [OF assms(1)] assms(2), of "[]" "[]"] by auto

theorem canonical_expression_injective_witness:
  "canonicalExprString within_rank \<noteq> canonicalExprString (StringLit ''rank'')"
  using canonical_expression_injective [of within_rank "StringLit ''rank''"]
  by (simp add: within_rank_def plain_name_def separator_def)

lemma round_up_div:
  fixes a b :: int
  assumes "0 < b"
  shows "(a + b - 1) div b = - ((- a) div b)"
proof (cases "a mod b = 0")
  case True
  have "a + b - 1 = b * (a div b) + (b - 1)" using True by (simp add: minus_mod_eq_mult_div [symmetric])
  then have "(a + b - 1) div b = a div b"
    using assms int_div_pos_eq [of "a + b - 1" b "a div b" "b - 1"] by simp
  then show ?thesis using True assms by (simp add: zdiv_zminus1_eq_if)
next
  case False
  then have lower: "0 \<le> a mod b - 1" and upper: "a mod b - 1 < b"
    using assms pos_mod_sign [of b a] pos_mod_bound [of b a] by linarith+
  have "a + b - 1 = b * (a div b + 1) + (a mod b - 1)"
    by (simp add: algebra_simps minus_mod_eq_mult_div [symmetric])
  then have "(a + b - 1) div b = a div b + 1" using lower upper by (rule int_div_pos_eq)
  then show ?thesis using False assms by (simp add: zdiv_zminus1_eq_if)
qed

text \<open>The arithmetic calls are the mathematical ones on natural operands: for a nonnegative
  dividend and a positive divisor whose sum fits in 64 bits, \<^verbatim>\<open>floordiv\<close> rounds down,
  \<^verbatim>\<open>ceildiv\<close> rounds up and \<^verbatim>\<open>mod\<close> is the remainder.\<close>

theorem division_calls_nonnegative:
  assumes "0 \<le> a" and "0 < b" and "a + b \<le> int64_max"
  shows "apply_call ''floordiv'' (EInt a) (EInt b) = Inr (EInt (a div b)) \<and>
    apply_call ''mod'' (EInt a) (EInt b) = Inr (EInt (a mod b)) \<and>
    apply_call ''ceildiv'' (EInt a) (EInt b) = Inr (EInt (- ((- a) div b)))"
proof -
  have "a div b \<le> a" using assms zdiv_mono2 [of a 1 b] by simp
  then have "in_int64 (a div b)" "in_int64 (a + b)" "in_int64 (a + b - 1)"
    using assms pos_imp_zdiv_nonneg_iff [of b a] by (auto simp: in_int64_def int64_min_def)
  moreover have "(a + b - 1) div b = - ((- a) div b)" using assms(2) by (rule round_up_div)
  ultimately show ?thesis
    using assms by (simp add: apply_call_def divide_values_def sdiv_nonneg_pos smod_nonneg_pos)
qed

theorem division_calls_nonnegative_witness: "apply_call ''ceildiv'' (EInt 7) (EInt 2) = Inr (EInt 4)"
  using division_calls_nonnegative [of 7 2] by (simp add: int64_max_def)

text \<open>On negative dividends the calls truncate instead.\<close>

lemma division_calls_truncate:
  "apply_call ''floordiv'' (EInt (- 1)) (EInt 2) = Inr (EInt 0)"
  "apply_call ''mod'' (EInt (- 1)) (EInt 2) = Inr (EInt (- 1))"
  "apply_call ''ceildiv'' (EInt (- 4)) (EInt 3) = Inr (EInt 0)"
  by (simp_all add: apply_call_def divide_values_def signed_divide_int_def signed_modulo_int_def
      in_int64_def int64_min_def int64_max_def)

end
