(* ===== verification/LlkMapLex.thy ===== *)
theory LlkMapLex
  imports Prelude
begin

text \<open>
  The lexer of the mapping language: \<^verbatim>\<open>lex\<close> and \<^verbatim>\<open>lexLlkMap\<close> of
  \<^verbatim>\<open>lib/Mapping/LlkMap.cpp\<close>. The lemmas show how printed pieces of text lex in front of any
  continuation, which the printing round trip uses.
\<close>

section \<open>Characters\<close>

text \<open>\<^verbatim>\<open>std::isalpha\<close> and \<^verbatim>\<open>std::isalnum\<close> in the C locale.\<close>

definition is_alpha :: "char \<Rightarrow> bool" where
  "is_alpha c \<longleftrightarrow>
     (65 \<le> (of_char c :: nat) \<and> (of_char c :: nat) \<le> 90) \<or> (97 \<le> (of_char c :: nat) \<and> (of_char c :: nat) \<le> 122)"

definition isIdentifierStart :: "char \<Rightarrow> bool" where
  "isIdentifierStart c \<longleftrightarrow> is_alpha c \<or> c = CHR ''_''"

definition isIdentifierChar :: "char \<Rightarrow> bool" where
  "isIdentifierChar c \<longleftrightarrow> is_alpha c \<or> is_digit c \<or> c = CHR ''_'' \<or> c = CHR ''.''"

definition is_space :: "char \<Rightarrow> bool" where
  "is_space c \<longleftrightarrow> c = CHR 0x0A \<or> c = CHR '' '' \<or> c = CHR 0x09 \<or> c = CHR 0x0D"

section \<open>Tokens\<close>

datatype tok = TIdent string | TInt int | TString string | TPunct string

text \<open>A token with the line and column it starts at. The \<^verbatim>\<open>End\<close> token is kept apart as the position
  where the text ends.\<close>

type_synonym position = "nat \<times> nat"
type_synonym token = "tok \<times> position"

datatype lex_error =
    UnterminatedComment
  | UnterminatedString
  | UnexpectedCharacter char
  | IntegerOutOfRange string  \<comment> \<open>\<^verbatim>\<open>std::stoll\<close> throws\<close>

definition kTwoChar :: "string list" where
  "kTwoChar = [''..'', ''->'', ''=='', ''!='', ''<='', ''>='', ''&&'', ''||'']"

definition kOneChar :: string where "kOneChar = ''(){}[],;.<>!+-*/%=:''"

section \<open>Lexer\<close>

fun advance_pos :: "position \<Rightarrow> string \<Rightarrow> position" where
  "advance_pos p [] = p"
| "advance_pos (line, column) (c # cs) =
     advance_pos (if c = CHR 0x0A then (line + 1, 1) else (line, column + 1)) cs"

text \<open>The offset of the first \<^verbatim>\<open>*/\<close>.\<close>

fun find_close :: "string \<Rightarrow> nat option" where
  "find_close (a # b # cs) =
     (if a = CHR ''*'' \<and> b = CHR ''/'' then Some 0 else map_option Suc (find_close (b # cs)))"
| "find_close _ = None"

text \<open>One turn of the loop: skip some characters, emit a token of some length, or stop.\<close>

datatype lexeme = Skip nat | Emit tok nat | Bad lex_error

definition lex_number :: "string \<Rightarrow> lexeme" where
  "lex_number text =
     (let digits = takeWhile is_digit text in
      if int (digits_val digits) > int64_max then Bad (IntegerOutOfRange digits)
      else Emit (TInt (int (digits_val digits))) (length digits))"

definition lex_string :: "string \<Rightarrow> lexeme" where
  "lex_string cs =
     (let body = takeWhile (\<lambda>c. c \<noteq> CHR 0x22) cs in
      if length body = length cs then Bad UnterminatedString
      else Emit (TString body) (length body + 2))"

definition lex_punct :: "char \<Rightarrow> string \<Rightarrow> lexeme" where
  "lex_punct c cs =
     (if take 2 (c # cs) \<in> set kTwoChar then Emit (TPunct (take 2 (c # cs))) 2
      else if c \<in> set kOneChar then Emit (TPunct [c]) 1
      else Bad (UnexpectedCharacter c))"

fun lex_step :: "string \<Rightarrow> lexeme" where
  "lex_step [] = Skip 1"
| "lex_step (c # cs) =
     (if is_space c then Skip 1
      else if take 2 (c # cs) = ''//'' then Skip (length (takeWhile (\<lambda>c. c \<noteq> CHR 0x0A) (c # cs)))
      else if take 2 (c # cs) = ''/*'' then
        (case find_close (drop 2 (c # cs)) of None \<Rightarrow> Bad UnterminatedComment | Some k \<Rightarrow> Skip (k + 4))
      else if isIdentifierStart c then
        (let w = c # takeWhile isIdentifierChar cs in Emit (TIdent w) (length w))
      else if is_digit c then lex_number (c # cs)
      else if c = CHR 0x22 then lex_string cs
      else lex_punct c cs)"

declare lex_step.simps [simp del]

lemma lex_step_progress:
  assumes "text \<noteq> []"
  shows "(lex_step text = Skip n \<longrightarrow> 0 < n) \<and> (lex_step text = Emit t n \<longrightarrow> 0 < n)"
proof -
  obtain c cs where c: "text = c # cs" using assms by (cases "text") auto
  have "\<not> is_space c \<Longrightarrow> 0 < length (takeWhile (\<lambda>c. c \<noteq> CHR 0x0A) (c # cs))"
    by (auto simp: is_space_def)
  then show ?thesis
    unfolding c lex_step.simps
    by (auto simp: lex_number_def lex_string_def lex_punct_def Let_def split: if_splits option.splits)
qed

function lex_from :: "position \<Rightarrow> string \<Rightarrow> (lex_error, token list \<times> position) expected" where
  "lex_from p text =
     (if text = [] then Inr ([], p)
      else (case lex_step text of
          Skip n \<Rightarrow> lex_from (advance_pos p (take n text)) (drop n text)
        | Emit t n \<Rightarrow>
            bindR (lex_from (advance_pos p (take n text)) (drop n text)) (\<lambda>(ts, e). Inr ((t, p) # ts, e))
        | Bad e \<Rightarrow> Inl e))"
  by pat_completeness auto

termination lex_from
  by (relation "measure (\<lambda>(p, text). length text)") (use lex_step_progress in \<open>fastforce+\<close>)

declare lex_from.simps [simp del]

definition lexLlkMap :: "string \<Rightarrow> (lex_error, token list \<times> position) expected" where
  "lexLlkMap text = lex_from (1, 1) text"

section \<open>Lexing a printed piece\<close>

text \<open>A piece of text lexes to some tokens in front of a continuation: from any position its tokens
  come first and lexing goes on with the continuation.\<close>

definition lexes :: "string \<Rightarrow> tok list \<Rightarrow> string \<Rightarrow> bool" where
  "lexes s ts rest \<longleftrightarrow>
     (\<forall>p. \<exists>pre p'. map fst pre = ts \<and>
        lex_from p (s @ rest) = bindR (lex_from p' rest) (\<lambda>(us, e). Inr (pre @ us, e)))"

lemma lexes_Nil: "lexes [] [] rest"
  unfolding lexes_def
  by (intro allI exI [of _ "[]"] exI) simp

lemma lexes_append:
  assumes "lexes s ts (s' @ rest)" "lexes s' ts' rest"
  shows "lexes (s @ s') (ts @ ts') rest"
  unfolding lexes_def
proof
  fix p
  obtain pre p1 where a: "map fst pre = ts"
      "lex_from p (s @ s' @ rest) = bindR (lex_from p1 (s' @ rest)) (\<lambda>(us, e). Inr (pre @ us, e))"
    using assms(1) unfolding lexes_def by blast
  obtain pre' p2 where b: "map fst pre' = ts'"
      "lex_from p1 (s' @ rest) = bindR (lex_from p2 rest) (\<lambda>(us, e). Inr (pre' @ us, e))"
    using assms(2) unfolding lexes_def by blast
  have "lex_from p ((s @ s') @ rest) = bindR (lex_from p2 rest) (\<lambda>(us, e). Inr ((pre @ pre') @ us, e))"
    using a(2) b(2) by (cases "lex_from p2 rest") auto
  then show "\<exists>pre p'. map fst pre = ts @ ts' \<and>
      lex_from p ((s @ s') @ rest) = bindR (lex_from p' rest) (\<lambda>(us, e). Inr (pre @ us, e))"
    using a(1) b(1) by (metis map_append)
qed

lemma lexes_emit:
  assumes "s \<noteq> []" "lex_step (s @ rest) = Emit t (length s)"
  shows "lexes s [t] rest"
  unfolding lexes_def
proof
  fix p
  have "lex_from p (s @ rest) = bindR (lex_from (advance_pos p s) rest) (\<lambda>(us, e). Inr ([(t, p)] @ us, e))"
    using assms by (subst lex_from.simps) (simp split: prod.split)
  then show "\<exists>pre p'. map fst pre = [t] \<and> lex_from p (s @ rest) = bindR (lex_from p' rest) (\<lambda>(us, e). Inr (pre @ us, e))"
    by (intro exI [of _ "[(t, p)]"] exI [of _ "advance_pos p s"]) simp
qed

lemma lexes_skip:
  assumes "s \<noteq> []" "lex_step (s @ rest) = Skip (length s)"
  shows "lexes s [] rest"
  unfolding lexes_def
proof
  fix p
  have "lex_from p (s @ rest) = lex_from (advance_pos p s) rest"
    using assms by (subst lex_from.simps) simp
  then show "\<exists>pre p'. map fst pre = [] \<and> lex_from p (s @ rest) = bindR (lex_from p' rest) (\<lambda>(us, e). Inr (pre @ us, e))"
    by (intro exI [of _ "[]"] exI [of _ "advance_pos p s"]) simp
qed

lemma lexes_space: "lexes '' '' [] rest"
  by (rule lexes_skip) (simp_all add: lex_step.simps is_space_def)

text \<open>Words and numbers end where the next character cannot extend them.\<close>

definition name_ok :: "string \<Rightarrow> bool" where
  "name_ok n \<longleftrightarrow> (case n of [] \<Rightarrow> False | c # cs \<Rightarrow> isIdentifierStart c \<and> (\<forall>d \<in> set cs. isIdentifierChar d))"

definition ends_word :: "string \<Rightarrow> bool" where
  "ends_word rest \<longleftrightarrow> (case rest of [] \<Rightarrow> True | c # _ \<Rightarrow> \<not> isIdentifierChar c)"

definition ends_number :: "string \<Rightarrow> bool" where
  "ends_number rest \<longleftrightarrow> (case rest of [] \<Rightarrow> True | c # _ \<Rightarrow> \<not> is_digit c)"

lemma ends_word_number: "ends_word rest \<Longrightarrow> ends_number rest"
  by (cases rest) (auto simp: ends_word_def ends_number_def isIdentifierChar_def)

lemma takeWhile_ends: "(\<forall>x \<in> set xs. P x) \<Longrightarrow> (case r of [] \<Rightarrow> True | c # _ \<Rightarrow> \<not> P c) \<Longrightarrow> takeWhile P (xs @ r) = xs"
  by (cases r) (auto simp: takeWhile_append)

lemma isIdentifierStart_not:
  "isIdentifierStart c \<Longrightarrow> \<not> is_space c \<and> c \<noteq> CHR ''/'' \<and> \<not> is_digit c \<and> c \<noteq> CHR 0x22"
  by (auto simp: isIdentifierStart_def is_alpha_def is_space_def is_digit_def)

lemma is_digit_not: "is_digit c \<Longrightarrow> \<not> is_space c \<and> c \<noteq> CHR ''/'' \<and> \<not> isIdentifierStart c"
  by (auto simp: isIdentifierStart_def is_alpha_def is_space_def is_digit_def)

lemma lexes_name: "name_ok n \<Longrightarrow> ends_word rest \<Longrightarrow> lexes n [TIdent n] rest"
proof -
  assume n: "name_ok n" and rest: "ends_word rest"
  obtain c cs where c: "n = c # cs" using n by (cases n) (auto simp: name_ok_def)
  have start: "isIdentifierStart c" "\<forall>d \<in> set cs. isIdentifierChar d" using n c by (auto simp: name_ok_def)
  have "takeWhile isIdentifierChar (cs @ rest) = cs"
    using start rest by (intro takeWhile_ends) (auto simp: ends_word_def)
  then show ?thesis
    using start isIdentifierStart_not [OF start(1)] c
    by (intro lexes_emit) (auto simp: lex_step.simps Let_def)
qed

lemma lexes_number:
  assumes "0 \<le> i" "i \<le> int64_max" "ends_number rest"
  shows "lexes (int_to_string i) [TInt i] rest"
proof -
  let ?s = "nat_to_string (nat i)"
  obtain c cs where c: "?s = c # cs" by (cases ?s) auto
  have digits: "\<forall>d \<in> set ?s. is_digit d" by (auto dest: nat_to_string_digits)
  then have "takeWhile is_digit (?s @ rest) = ?s"
    using assms by (intro takeWhile_ends) (auto simp: ends_number_def)
  then have "lex_number (?s @ rest) = Emit (TInt i) (length ?s)"
    using assms by (simp add: lex_number_def Let_def)
  moreover have "lex_step (?s @ rest) = lex_number (?s @ rest)"
    using c digits is_digit_not [of c] by (auto simp: lex_step.simps)
  ultimately have "lex_step (?s @ rest) = Emit (TInt i) (length ?s)" by simp
  then show ?thesis using assms by (intro lexes_emit) (auto simp: int_to_string_def)
qed

lemma lexes_string:
  assumes "CHR 0x22 \<notin> set s"
  shows "lexes (CHR 0x22 # s @ [CHR 0x22]) [TString s] rest"
proof -
  have "takeWhile (\<lambda>c. c \<noteq> CHR 0x22) (s @ CHR 0x22 # rest) = s"
    using assms by (intro takeWhile_ends) auto
  then show ?thesis
    by (intro lexes_emit)
      (auto simp: lex_step.simps lex_string_def Let_def is_space_def isIdentifierStart_def is_alpha_def is_digit_def)
qed

lemma lexes_punct2:
  assumes "s \<in> set kTwoChar"
  shows "lexes s [TPunct s] rest"
  using assms unfolding kTwoChar_def
  by (intro lexes_emit)
    (auto simp: lex_step.simps lex_punct_def is_space_def isIdentifierStart_def is_alpha_def is_digit_def kTwoChar_def)

lemma lexes_punct1:
  assumes "c \<in> set kOneChar" "take 2 (c # rest) \<notin> set kTwoChar" "take 2 (c # rest) \<noteq> ''//''" "take 2 (c # rest) \<noteq> ''/*''"
  shows "lexes [c] [TPunct [c]] rest"
proof -
  have "\<forall>c \<in> set kOneChar. \<not> is_space c \<and> \<not> isIdentifierStart c \<and> \<not> is_digit c \<and> c \<noteq> CHR 0x22"
    by (simp add: kOneChar_def is_space_def isIdentifierStart_def is_alpha_def is_digit_def)
  then have "\<not> is_space c \<and> \<not> isIdentifierStart c \<and> \<not> is_digit c \<and> c \<noteq> CHR 0x22" using assms(1) by blast
  then show ?thesis using assms by (intro lexes_emit) (auto simp: lex_step.simps lex_punct_def)
qed

lemma lexes_bracket:
  assumes "c \<in> {CHR ''('', CHR '')'', CHR '','', CHR '':''}"
  shows "lexes [c] [TPunct [c]] rest"
  using assms by (intro lexes_punct1) (auto simp: kOneChar_def kTwoChar_def)

section \<open>Every token the lexer produces is well formed\<close>

definition tok_ok :: "tok \<Rightarrow> bool" where
  "tok_ok t = (case t of
     TIdent n \<Rightarrow> name_ok n
   | TInt i \<Rightarrow> 0 \<le> i \<and> i \<le> int64_max
   | TString s \<Rightarrow> CHR 0x22 \<notin> set s
   | TPunct s \<Rightarrow> s \<in> set kTwoChar \<or> (\<exists>c \<in> set kOneChar. s = [c]))"

lemma lex_step_ok: "lex_step text = Emit t n \<Longrightarrow> tok_ok t"
proof (cases "text")
  case (Cons c cs)
  have "\<forall>d \<in> set (takeWhile isIdentifierChar cs). isIdentifierChar d" by (auto dest: set_takeWhileD)
  moreover have "CHR 0x22 \<notin> set (takeWhile (\<lambda>c. c \<noteq> CHR 0x22) cs)" by (auto dest: set_takeWhileD)
  moreover assume "lex_step text = Emit t n"
  ultimately show ?thesis
    using Cons
    by (auto simp: lex_step.simps lex_number_def lex_string_def lex_punct_def Let_def tok_ok_def name_ok_def
        split: if_splits option.splits)
qed (simp add: lex_step.simps)

lemma lex_tokens_ok: "lex_from p text = Inr (ts, e) \<Longrightarrow> \<forall>t \<in> set ts. tok_ok (fst t)"
proof (induction p "text" arbitrary: ts e rule: lex_from.induct)
  case (1 p "text")
  show ?case
  proof (cases "text = []")
    case True
    then show ?thesis using "1.prems" by (simp add: lex_from.simps)
  next
    case False
    show ?thesis
    proof (cases "lex_step text")
      case (Skip n)
      then show ?thesis using 1 False by (auto simp: lex_from.simps [of p "text"])
    next
      case (Emit t n)
      then obtain us where "lex_from (advance_pos p (take n text)) (drop n text) = Inr (us, e)" "ts = (t, p) # us"
        using "1.prems" False by (auto simp: lex_from.simps [of p "text"])
      then show ?thesis using 1(2) [OF False Emit] lex_step_ok [OF Emit] by auto
    next
      case (Bad e')
      then show ?thesis using "1.prems" False by (auto simp: lex_from.simps [of p "text"])
    qed
  qed
qed

end
