(* ===== verification/LlkMapParse.thy ===== *)
theory LlkMapParse
  imports LlkMapExpr LlkMapLex
begin

text \<open>
  The shared parser of the mapping language: the cursor, the expression grammar and domain values of
  \<^verbatim>\<open>LlkMapParser\<close> (\<^verbatim>\<open>lib/Mapping/LlkMap.cpp\<close>). The lemmas show that the parser always
  ends (every loop consumes a token), that it only builds well-formed trees, and what parsing the
  text of a printed expression gives: the expression, unless it has a member access directly behind an identifier.
\<close>

section \<open>Cursor\<close>

text \<open>The cursor is the list of tokens that are left; the \<^verbatim>\<open>End\<close> token that follows them is implicit
  and \<^verbatim>\<open>advance\<close> stays on it. A diagnostic records the current token, \<open>None\<close> for \<^verbatim>\<open>End\<close>.\<close>

type_synonym cursor = "token list"

datatype parse_error =
    ExpectedPunct string "token option"
  | ExpectedIdentifier string "token option"
  | ExpectedExpression "token option"
  | ExpectedIn "token option"
  | ExpectedLowerBound "token option"
  | ExpectedUpperBound "token option"
  | EmptyRange "token option"
  | ExpectedMember "token option"
  | ExpectedDomain "token option"
  | Stuck  \<comment> \<open>a loop that consumed nothing; shown unreachable below\<close>

type_synonym 'a parser = "cursor \<Rightarrow> (parse_error, 'a \<times> cursor) expected"

definition current :: "cursor \<Rightarrow> token option" where
  "current ts = (case ts of [] \<Rightarrow> None | t # _ \<Rightarrow> Some t)"

definition advance :: "cursor \<Rightarrow> cursor" where "advance ts = tl ts"

definition isPunct :: "string \<Rightarrow> cursor \<Rightarrow> bool" where
  "isPunct punct ts = (case ts of [] \<Rightarrow> False | t # _ \<Rightarrow> fst t = TPunct punct)"

definition expectPunct :: "string \<Rightarrow> cursor \<Rightarrow> (parse_error, cursor) expected" where
  "expectPunct punct ts =
     (if isPunct punct ts then Inr (advance ts) else Inl (ExpectedPunct punct (current ts)))"

definition expectIdentifier :: "string \<Rightarrow> string parser" where
  "expectIdentifier what ts =
     (case ts of
        (TIdent n, _) # rest \<Rightarrow> Inr (n, rest)
      | _ \<Rightarrow> Inl (ExpectedIdentifier what (current ts)))"

section \<open>Expressions\<close>

text \<open>Every grammar function takes the parser of a whole expression (\<open>self\<close>) as a parameter, since the
  grammar refers back to it for operands in parentheses, arguments, domains and bodies.\<close>

function bin_loop :: "string list \<Rightarrow> expr parser \<Rightarrow> expr \<Rightarrow> expr parser" where
  "bin_loop ops sub lhs ts =
     (case ts of
        (TPunct oper, _) # rest \<Rightarrow>
          if oper \<in> set ops then
            (case sub rest of
               Inl e \<Rightarrow> Inl e
             | Inr (rhs, ts') \<Rightarrow>
                 if length ts' < length ts then bin_loop ops sub (Binary oper lhs rhs) ts' else Inl Stuck)
          else Inr (lhs, ts)
      | _ \<Rightarrow> Inr (lhs, ts))"
  by pat_completeness auto
termination bin_loop
  by (relation "measure (\<lambda>(ops, sub, lhs, ts). length ts)") auto

definition parseBinary :: "string list \<Rightarrow> expr parser \<Rightarrow> expr parser" where
  "parseBinary ops sub ts = bindR (sub ts) (\<lambda>(lhs, ts'). bin_loop ops sub lhs ts')"

function args_loop :: "expr parser \<Rightarrow> expr list parser" where
  "args_loop self ts =
     (case self ts of
        Inl e \<Rightarrow> Inl e
      | Inr (arg, ts') \<Rightarrow>
          if isPunct '','' ts' then
            (if length (advance ts') < length ts
             then bindR (args_loop self (advance ts')) (\<lambda>(args, ts''). Inr (arg # args, ts''))
             else Inl Stuck)
          else Inr ([arg], ts'))"
  by pat_completeness auto
termination args_loop
  by (relation "measure (\<lambda>(self, ts). length ts)") auto

definition parseCallArgs :: "expr parser \<Rightarrow> expr list parser" where
  "parseCallArgs self ts =
     bindR (expectPunct ''('' ts) (\<lambda>ts1.
       if isPunct '')'' ts1 then Inr ([], advance ts1)
       else bindR (args_loop self ts1) (\<lambda>(args, ts2).
         bindR (expectPunct '')'' ts2) (\<lambda>ts3. Inr (args, ts3))))"

definition parseQuantifier :: "expr parser \<Rightarrow> string \<Rightarrow> expr parser" where
  "parseQuantifier self oper ts =
     bindR (expectIdentifier ''a quantifier variable'' ts) (\<lambda>(variable, ts1).
       (case ts1 of
          (TIdent w, _) # ts2 \<Rightarrow>
            if w = ''in'' then
              bindR (self ts2) (\<lambda>(dmn, ts3).
                bindR (expectPunct '':'' ts3) (\<lambda>ts4.
                  bindR (self ts4) (\<lambda>(body, ts5). Inr (Quantifier oper variable dmn body, ts5))))
            else Inl (ExpectedIn (current ts1))
        | _ \<Rightarrow> Inl (ExpectedIn (current ts1))))"

definition parsePrimary :: "expr parser \<Rightarrow> expr parser" where
  "parsePrimary self ts =
     (case ts of
        (TInt i, _) # rest \<Rightarrow> Inr (IntLit i, rest)
      | (TString s, _) # rest \<Rightarrow> Inr (StringLit s, rest)
      | (TPunct p, _) # rest \<Rightarrow>
          if p = ''('' then
            bindR (self rest) (\<lambda>(inner, ts1). bindR (expectPunct '')'' ts1) (\<lambda>ts2. Inr (inner, ts2)))
          else Inl (ExpectedExpression (current ts))
      | (TIdent name, _) # rest \<Rightarrow>
          if name = ''forall'' \<or> name = ''exists'' then parseQuantifier self name rest
          else if isPunct ''('' rest then
            bindR (parseCallArgs self rest) (\<lambda>(args, ts1). Inr (Call name args, ts1))
          else Inr (Ident name, rest)
      | [] \<Rightarrow> Inl (ExpectedExpression None))"

function postfix_loop :: "expr parser \<Rightarrow> expr \<Rightarrow> expr parser" where
  "postfix_loop self e ts =
     (if isPunct ''.'' ts then
        (case expectIdentifier ''a member name'' (advance ts) of
           Inl err \<Rightarrow> Inl err
         | Inr (member, ts1) \<Rightarrow>
             (case (if isPunct ''('' ts1 then parseCallArgs self ts1 else Inr ([], ts1)) of
                Inl err \<Rightarrow> Inl err
              | Inr (args, ts2) \<Rightarrow>
                  if length ts2 < length ts then postfix_loop self (MemberCall member e args) ts2 else Inl Stuck))
      else Inr (e, ts))"
  by pat_completeness auto
termination postfix_loop
  by (relation "measure (\<lambda>(self, e, ts). length ts)") auto

declare bin_loop.simps [simp del] args_loop.simps [simp del] postfix_loop.simps [simp del]

definition parsePostfix :: "expr parser \<Rightarrow> expr parser" where
  "parsePostfix self ts = bindR (parsePrimary self ts) (\<lambda>(e, ts'). postfix_loop self e ts')"

fun parseUnary :: "expr parser \<Rightarrow> expr parser" where
  "parseUnary self [] = parsePostfix self []"
| "parseUnary self (t # ts) =
     (case fst t of
        TPunct oper \<Rightarrow>
          if oper = ''!'' \<or> oper = ''-'' then
            bindR (parseUnary self ts) (\<lambda>(operand, ts'). Inr (Unary oper operand, ts'))
          else parsePostfix self (t # ts)
      | _ \<Rightarrow> parsePostfix self (t # ts))"

definition parseMultiplicative :: "expr parser \<Rightarrow> expr parser" where
  "parseMultiplicative self = parseBinary [''*'', ''/'', ''%''] (parseUnary self)"

definition parseAdditive :: "expr parser \<Rightarrow> expr parser" where
  "parseAdditive self = parseBinary [''+'', ''-''] (parseMultiplicative self)"

definition parseRelational :: "expr parser \<Rightarrow> expr parser" where
  "parseRelational self = parseBinary [''<'', ''<='', ''>'', ''>=''] (parseAdditive self)"

definition parseEquality :: "expr parser \<Rightarrow> expr parser" where
  "parseEquality self = parseBinary [''=='', ''!=''] (parseRelational self)"

definition parseAnd :: "expr parser \<Rightarrow> expr parser" where
  "parseAnd self = parseBinary [''&&''] (parseEquality self)"

definition parseOr :: "expr parser \<Rightarrow> expr parser" where
  "parseOr self = parseBinary [''||''] (parseAnd self)"

text \<open>The recursion through \<open>self\<close> is on fewer tokens; the test that says so always holds
  (\<open>Stuck\<close> is shown unreachable).\<close>

function parseExpression :: "expr parser" where
  "parseExpression ts = parseOr (\<lambda>ts'. if length ts' < length ts then parseExpression ts' else Inl Stuck) ts"
  by pat_completeness auto
termination parseExpression
  by (relation "measure length") auto

declare parseExpression.simps [simp del]

section \<open>Domain values\<close>

fun members_loop :: "layout_value list parser" where
  "members_loop ((TInt i, p) # ts) =
     (case ts of
        (TPunct c, q) # ts' \<Rightarrow>
          if c = '','' then bindR (members_loop ts') (\<lambda>(vs, r). Inr (IntV i # vs, r)) else Inr ([IntV i], ts)
      | _ \<Rightarrow> Inr ([IntV i], ts))"
| "members_loop ((TString s, p) # ts) =
     (case ts of
        (TPunct c, q) # ts' \<Rightarrow>
          if c = '','' then bindR (members_loop ts') (\<lambda>(vs, r). Inr (StrV s # vs, r)) else Inr ([StrV s], ts)
      | _ \<Rightarrow> Inr ([StrV s], ts))"
| "members_loop ts = Inl (ExpectedMember (current ts))"

definition parse_range :: "layout_value list parser" where
  "parse_range ts =
     (case ts of
        (TInt lower, _) # ts1 \<Rightarrow>
          bindR (expectPunct ''..'' ts1) (\<lambda>ts2.
            (case ts2 of
               (TInt upper, _) # ts3 \<Rightarrow>
                 bindR (expectPunct '']'' ts3) (\<lambda>ts4.
                   if upper < lower then Inl (EmptyRange (current ts4))
                   else Inr (map IntV [lower..upper], ts4))
             | _ \<Rightarrow> Inl (ExpectedUpperBound (current ts2))))
      | _ \<Rightarrow> Inl (ExpectedLowerBound (current ts)))"

definition parseDomainValues :: "layout_value list parser" where
  "parseDomainValues ts =
     (if isPunct ''['' ts then parse_range (advance ts)
      else if isPunct ''{'' ts then
        bindR (members_loop (advance ts)) (\<lambda>(vs, ts1). bindR (expectPunct ''}'' ts1) (\<lambda>ts2. Inr (vs, ts2)))
      else Inl (ExpectedDomain (current ts)))"

section \<open>Progress\<close>

text \<open>What the grammar functions need of the parser of a whole expression, on cursors shorter than a
  bound: it never gets stuck and it consumes at least one token.\<close>

definition progresses :: "nat \<Rightarrow> 'a parser \<Rightarrow> bool" where
  "progresses n p \<longleftrightarrow> (\<forall>ts. length ts < n \<longrightarrow>
     p ts \<noteq> Inl Stuck \<and> (\<forall>a ts'. p ts = Inr (a, ts') \<longrightarrow> length ts' < length ts))"

lemma progressesI:
  "(\<And>ts. length ts < n \<Longrightarrow> p ts \<noteq> Inl Stuck) \<Longrightarrow>
   (\<And>ts a ts'. length ts < n \<Longrightarrow> p ts = Inr (a, ts') \<Longrightarrow> length ts' < length ts) \<Longrightarrow> progresses n p"
  by (auto simp: progresses_def)

lemma progresses_stuck: "progresses n p \<Longrightarrow> length ts < n \<Longrightarrow> p ts \<noteq> Inl Stuck"
  by (auto simp: progresses_def)

lemma progresses_less: "progresses n p \<Longrightarrow> length ts < n \<Longrightarrow> p ts = Inr (a, ts') \<Longrightarrow> length ts' < length ts"
  by (auto simp: progresses_def)

lemma isPunct_length: "isPunct c ts \<Longrightarrow> length (advance ts) < length ts"
  by (cases ts) (auto simp: isPunct_def advance_def)

lemma expectPunct_Inr: "expectPunct c ts = Inr ts' \<Longrightarrow> isPunct c ts \<and> ts' = advance ts \<and> length ts' < length ts"
  using isPunct_length by (auto simp: expectPunct_def split: if_splits)

lemma expectPunct_not_stuck [simp]: "expectPunct c ts \<noteq> Inl Stuck"
  by (simp add: expectPunct_def)

lemma expectIdentifier_Inr: "expectIdentifier w ts = Inr (n, ts') \<Longrightarrow> \<exists>p. ts = (TIdent n, p) # ts'"
  by (auto simp: expectIdentifier_def split: list.splits tok.splits)

lemma expectIdentifier_not_stuck [simp]: "expectIdentifier w ts \<noteq> Inl Stuck"
  by (auto simp: expectIdentifier_def split: list.splits tok.splits)

lemma bin_loop_op:
  "oper \<in> set ops \<Longrightarrow> bin_loop ops sub lhs ((TPunct oper, q) # rest) =
     (case sub rest of
        Inl e \<Rightarrow> Inl e
      | Inr (rhs, ts') \<Rightarrow> if length ts' \<le> length rest then bin_loop ops sub (Binary oper lhs rhs) ts' else Inl Stuck)"
  by (subst bin_loop.simps) (simp add: less_Suc_eq_le split: sum.split prod.split)

lemma bin_loop_stop: "\<forall>oper \<in> set ops. \<not> isPunct oper ts \<Longrightarrow> bin_loop ops sub lhs ts = Inr (lhs, ts)"
  by (subst bin_loop.simps) (auto simp: isPunct_def split: list.splits tok.splits)

lemma bin_loop_progress:
  assumes "progresses n sub"
  shows "length ts < n \<Longrightarrow> bin_loop ops sub lhs ts \<noteq> Inl Stuck \<and>
    (\<forall>e ts'. bin_loop ops sub lhs ts = Inr (e, ts') \<longrightarrow> length ts' \<le> length ts)"
proof (induction ts arbitrary: lhs rule: length_induct)
  case (1 ts)
  show ?case
  proof (cases "\<exists>oper \<in> set ops. isPunct oper ts")
    case True
    then obtain oper q rest where ts: "ts = (TPunct oper, q) # rest" "oper \<in> set ops"
      by (cases ts) (auto simp: isPunct_def)
    show ?thesis
    proof (cases "sub rest")
      case (Inl e)
      then show ?thesis using ts progresses_stuck [OF assms, of rest] 1(2) by (auto simp: bin_loop_op)
    next
      case (Inr x)
      obtain rhs ts' where x: "x = (rhs, ts')" by (cases x)
      have "length ts' < length rest" using progresses_less [OF assms, of rest rhs ts'] Inr x ts 1(2) by simp
      then have less: "length ts' < length ts" "length ts' < n" "length ts' \<le> length rest" using ts 1(2) by auto
      then have "bin_loop ops sub (Binary oper lhs rhs) ts' \<noteq> Inl Stuck \<and>
          (\<forall>e u. bin_loop ops sub (Binary oper lhs rhs) ts' = Inr (e, u) \<longrightarrow> length u \<le> length ts')"
        using 1(1) by blast
      then show ?thesis using Inr x ts less by (auto simp: bin_loop_op)
    qed
  qed (simp add: bin_loop_stop)
qed

lemma parseBinary_progress:
  assumes "progresses n sub"
  shows "progresses n (parseBinary ops sub)"
proof (rule progressesI)
  fix ts :: cursor assume ts: "length ts < n"
  show "parseBinary ops sub ts \<noteq> Inl Stuck"
  proof (cases "sub ts")
    case (Inr x)
    obtain e ts' where x: "x = (e, ts')" by (cases x)
    then have "length ts' < n" using progresses_less [OF assms ts] Inr ts by fastforce
    then show ?thesis using Inr x bin_loop_progress [OF assms] by (simp add: parseBinary_def)
  qed (use progresses_stuck [OF assms ts] in \<open>simp add: parseBinary_def\<close>)
next
  fix ts :: cursor and e ts' assume ts: "length ts < n" and run: "parseBinary ops sub ts = Inr (e, ts')"
  then obtain lhs ts1 where 1: "sub ts = Inr (lhs, ts1)" "bin_loop ops sub lhs ts1 = Inr (e, ts')"
    by (auto simp: parseBinary_def)
  then have "length ts1 < length ts" using progresses_less [OF assms ts] by blast
  with bin_loop_progress [OF assms, of ts1] ts 1 show "length ts' < length ts" by fastforce
qed

lemma args_loop_more:
  "self ts = Inr (a, ts1) \<Longrightarrow> isPunct '','' ts1 \<Longrightarrow> length (advance ts1) < length ts \<Longrightarrow>
     args_loop self ts = bindR (args_loop self (advance ts1)) (\<lambda>(as, u). Inr (a # as, u))"
  by (subst args_loop.simps) simp

lemma args_loop_last: "self ts = Inr (a, ts1) \<Longrightarrow> \<not> isPunct '','' ts1 \<Longrightarrow> args_loop self ts = Inr ([a], ts1)"
  by (subst args_loop.simps) simp

lemma args_loop_fail: "self ts = Inl e \<Longrightarrow> args_loop self ts = Inl e"
  by (subst args_loop.simps) simp

lemma args_loop_progress:
  assumes "progresses n self"
  shows "length ts < n \<Longrightarrow> args_loop self ts \<noteq> Inl Stuck \<and>
    (\<forall>as ts'. args_loop self ts = Inr (as, ts') \<longrightarrow> length ts' < length ts)"
proof (induction ts rule: length_induct)
  case (1 ts)
  show ?case
  proof (cases "self ts")
    case (Inl e)
    then show ?thesis using progresses_stuck [OF assms 1(2)] by (simp add: args_loop_fail)
  next
    case (Inr x)
    obtain a ts1 where x: "x = (a, ts1)" by (cases x)
    have less: "length ts1 < length ts" using progresses_less [OF assms 1(2)] Inr x by blast
    show ?thesis
    proof (cases "isPunct '','' ts1")
      case True
      then have adv: "length (advance ts1) < length ts" using isPunct_length less by fastforce
      then have "args_loop self (advance ts1) \<noteq> Inl Stuck \<and>
          (\<forall>as ts'. args_loop self (advance ts1) = Inr (as, ts') \<longrightarrow> length ts' < length (advance ts1))"
        using 1(1) [rule_format, OF adv] 1(2) adv by simp
      then show ?thesis
        using args_loop_more [OF _ True adv] Inr x adv
        by (cases "args_loop self (advance ts1)") auto
    next
      case False
      then show ?thesis using Inr x less by (simp add: args_loop_last)
    qed
  qed
qed

lemma parseCallArgs_progress:
  assumes "progresses n self" "length ts \<le> n"
  shows "parseCallArgs self ts \<noteq> Inl Stuck" "parseCallArgs self ts = Inr (as, ts') \<Longrightarrow> length ts' < length ts"
proof -
  have args: "length ts1 < n" if "expectPunct ''('' ts = Inr ts1" for ts1
    using expectPunct_Inr [OF that] assms(2) by linarith
  show "parseCallArgs self ts \<noteq> Inl Stuck"
  proof (cases "expectPunct ''('' ts")
    case (Inl e)
    then show ?thesis using expectPunct_not_stuck [of "''(''" ts] by (simp add: parseCallArgs_def)
  next
    case (Inr ts1)
    then show ?thesis
      using args_loop_progress [OF assms(1) args [OF Inr]]
      by (simp add: parseCallArgs_def bindR_Inl_iff split: prod.splits)
  qed
  show "length ts' < length ts" if run: "parseCallArgs self ts = Inr (as, ts')"
  proof -
    obtain ts1 where ts1: "expectPunct ''('' ts = Inr ts1" using run by (auto simp: parseCallArgs_def)
    show ?thesis
    proof (cases "isPunct '')'' ts1")
      case True
      then have "length ts' < length ts1" using run ts1 isPunct_length [OF True] by (simp add: parseCallArgs_def)
      then show ?thesis using expectPunct_Inr [OF ts1] by linarith
    next
      case False
      then obtain ts2 where "args_loop self ts1 = Inr (as, ts2)" "expectPunct '')'' ts2 = Inr ts'"
        using run ts1 by (auto simp: parseCallArgs_def)
      then have "length ts2 < length ts1" "length ts' < length ts2"
        using args_loop_progress [OF assms(1) args [OF ts1]] expectPunct_Inr [of _ ts2] by blast+
      then show ?thesis using expectPunct_Inr [OF ts1] by linarith
    qed
  qed
qed

lemma parseQuantifier_Inr:
  assumes "parseQuantifier self oper ts = Inr (e, ts')"
  obtains v p q ts2 d ts3 ts4 b where "ts = (TIdent v, p) # (TIdent ''in'', q) # ts2"
    "self ts2 = Inr (d, ts3)" "expectPunct '':'' ts3 = Inr ts4" "self ts4 = Inr (b, ts')"
    "e = Quantifier oper v d b"
proof -
  obtain v ts1 where v: "expectIdentifier ''a quantifier variable'' ts = Inr (v, ts1)"
    using assms by (auto simp: parseQuantifier_def)
  then obtain p where ts: "ts = (TIdent v, p) # ts1" using expectIdentifier_Inr by blast
  show ?thesis
  proof (cases ts1)
    case Nil
    then show ?thesis using assms v by (simp add: parseQuantifier_def)
  next
    case (Cons t rest)
    then show ?thesis
      using assms v ts that by (cases t; cases "fst t") (auto simp: parseQuantifier_def split: if_splits)
  qed
qed

lemma parseQuantifier_progress:
  assumes self: "progresses n self" and ts: "length ts < n"
  shows "parseQuantifier self oper ts \<noteq> Inl Stuck"
    and "parseQuantifier self oper ts = Inr (e, ts') \<Longrightarrow> length ts' < length ts"
proof -
  have shorter: "length ts2 < n" "length ts2 < length ts"
    if "expectIdentifier w ts = Inr (v, (TIdent i, p) # ts2)" for w v i p ts2
    using expectIdentifier_Inr [OF that] ts by auto
  have second: "length ts4 < n \<and> length ts4 < length ts2"
    if "length ts2 < n" "self ts2 = Inr (d, ts3)" "expectPunct '':'' ts3 = Inr ts4" for ts2 d ts3 ts4
    using progresses_less [OF self that(1,2)] expectPunct_Inr [OF that(3)] that(1) by linarith
  have body: "self ts4 \<noteq> Inl Stuck"
    if "expectIdentifier w ts = Inr (v, (TIdent i, p) # ts2)" "self ts2 = Inr (d, ts3)" "expectPunct '':'' ts3 = Inr ts4"
    for w v i p ts2 d ts3 ts4
    using second [OF shorter(1) [OF that(1)] that(2,3)] progresses_stuck [OF self] by blast
  show "parseQuantifier self oper ts \<noteq> Inl Stuck"
    using shorter(1) progresses_stuck [OF self] expectPunct_not_stuck expectIdentifier_not_stuck
    by (auto simp: parseQuantifier_def bindR_Inl_iff dest: body split: list.splits tok.splits if_splits)
  assume "parseQuantifier self oper ts = Inr (e, ts')"
  then obtain v p q ts2 d ts3 ts4 b where steps: "ts = (TIdent v, p) # (TIdent ''in'', q) # ts2"
      "self ts2 = Inr (d, ts3)" "expectPunct '':'' ts3 = Inr ts4" "self ts4 = Inr (b, ts')"
    by (rule parseQuantifier_Inr)
  then have "length ts2 < n" using ts by simp
  then show "length ts' < length ts"
    using second [OF _ steps(2,3)] progresses_less [OF self _ steps(4)] steps(1) by fastforce
qed

lemma parsePrimary_progress:
  assumes self: "progresses n self"
  shows "progresses (Suc n) (parsePrimary self)"
proof (rule progressesI)
  fix ts :: cursor assume ts: "length ts < Suc n"
  show "parsePrimary self ts \<noteq> Inl Stuck"
  proof (cases ts)
    case (Cons t rest)
    then have rest: "length rest < n" using ts by simp
    show ?thesis
      using Cons progresses_stuck [OF self rest] parseQuantifier_progress(1) [OF self rest]
        parseCallArgs_progress(1) [OF self, of rest] rest expectPunct_not_stuck
      by (cases t; cases "fst t") (auto simp: parsePrimary_def bindR_Inl_iff)
  qed (simp add: parsePrimary_def)
next
  fix ts :: cursor and e ts' assume ts: "length ts < Suc n" and run: "parsePrimary self ts = Inr (e, ts')"
  obtain t q rest where t: "ts = (t, q) # rest" using run by (cases ts) (auto simp: parsePrimary_def)
  then have rest: "length rest < n" using ts by simp
  show "length ts' < length ts"
  proof (cases t)
    case (TIdent w)
    then show ?thesis
      using run t rest parseQuantifier_progress(2) [OF self rest] parseCallArgs_progress(2) [OF self, of rest]
      by (fastforce simp: parsePrimary_def split: if_splits)
  next
    case (TPunct c)
    then obtain ts1 where "self rest = Inr (e, ts1)" "expectPunct '')'' ts1 = Inr ts'"
      using run t by (auto simp: parsePrimary_def split: if_splits)
    then show ?thesis
      using progresses_less [OF self rest] expectPunct_Inr [of _ ts1 ts'] t by fastforce
  qed (use run t in \<open>auto simp: parsePrimary_def\<close>)
qed

lemma postfix_loop_step:
  "ts = (TPunct ''.'', q) # (TIdent member, q') # ts1 \<Longrightarrow>
   (if isPunct ''('' ts1 then parseCallArgs self ts1 else Inr ([], ts1)) = Inr (args, ts2) \<Longrightarrow>
   length ts2 < length ts \<Longrightarrow> postfix_loop self e ts = postfix_loop self (MemberCall member e args) ts2"
  by (subst postfix_loop.simps) (simp add: isPunct_def expectIdentifier_def advance_def)

lemma postfix_loop_stop: "\<not> isPunct ''.'' ts \<Longrightarrow> postfix_loop self e ts = Inr (e, ts)"
  by (subst postfix_loop.simps) simp

lemma postfix_loop_progress:
  assumes self: "progresses n self"
  shows "length ts < Suc n \<Longrightarrow> postfix_loop self e ts \<noteq> Inl Stuck \<and>
    (\<forall>e' ts'. postfix_loop self e ts = Inr (e', ts') \<longrightarrow> length ts' \<le> length ts)"
proof (induction ts arbitrary: e rule: length_induct)
  case (1 ts)
  show ?case
  proof (cases "isPunct ''.'' ts")
    case True
    show ?thesis
    proof (cases "expectIdentifier ''a member name'' (advance ts)")
      case (Inl err)
      then have "postfix_loop self e ts = Inl err" using True by (subst postfix_loop.simps) simp
      moreover have "err \<noteq> Stuck" using Inl expectIdentifier_not_stuck by force
      ultimately show ?thesis by simp
    next
      case (Inr x)
      obtain member ts1 where x: "x = (member, ts1)" by (cases x)
      obtain q' where adv: "advance ts = (TIdent member, q') # ts1" using expectIdentifier_Inr Inr x by blast
      have ts1: "length ts1 < n" "length ts1 < length ts" using True 1(2) adv isPunct_length [OF True] by auto
      let ?args = "if isPunct ''('' ts1 then parseCallArgs self ts1 else Inr ([], ts1)"
      have ns: "?args \<noteq> Inl Stuck" and less: "?args = Inr (as, ts2) \<Longrightarrow> length ts2 \<le> length ts1" for as ts2
        using parseCallArgs_progress [OF self, of ts1] ts1 by (auto split: if_splits dest: less_imp_le)
      show ?thesis
      proof (cases ?args)
        case (Inl err)
        then have "postfix_loop self e ts = Inl err"
          using True adv x \<open>expectIdentifier _ _ = Inr x\<close> by (subst postfix_loop.simps) simp
        then show ?thesis using Inl ns by auto
      next
        case (Inr y)
        obtain args ts2 where y: "y = (args, ts2)" by (cases y)
        have l2: "length ts2 < length ts" using less Inr y ts1 by fastforce
        have "postfix_loop self e ts = postfix_loop self (MemberCall member e args) ts2"
          using True x \<open>expectIdentifier _ _ = Inr x\<close> Inr y l2 by (subst postfix_loop.simps) simp
        moreover have "postfix_loop self (MemberCall member e args) ts2 \<noteq> Inl Stuck \<and>
            (\<forall>e' ts'. postfix_loop self (MemberCall member e args) ts2 = Inr (e', ts') \<longrightarrow> length ts' \<le> length ts2)"
          using 1(1) [rule_format, OF l2] 1(2) l2 by simp
        ultimately show ?thesis using l2 by (metis less_imp_le order_trans)
      qed
    qed
  qed (simp add: postfix_loop_stop)
qed

lemma parsePostfix_progress:
  assumes self: "progresses n self"
  shows "progresses (Suc n) (parsePostfix self)"
proof (rule progressesI)
  note prim = parsePrimary_progress [OF self]
  fix ts :: cursor assume ts: "length ts < Suc n"
  show "parsePostfix self ts \<noteq> Inl Stuck"
  proof (cases "parsePrimary self ts")
    case (Inr x)
    obtain e ts1 where x: "x = (e, ts1)" by (cases x)
    then have "length ts1 < Suc n" using progresses_less [OF prim ts] Inr ts by fastforce
    then show ?thesis using Inr x postfix_loop_progress [OF self] by (simp add: parsePostfix_def)
  qed (use progresses_stuck [OF prim ts] in \<open>simp add: parsePostfix_def\<close>)
next
  note prim = parsePrimary_progress [OF self]
  fix ts :: cursor and e ts' assume ts: "length ts < Suc n" and "parsePostfix self ts = Inr (e, ts')"
  then obtain e1 ts1 where 1: "parsePrimary self ts = Inr (e1, ts1)" "postfix_loop self e1 ts1 = Inr (e, ts')"
    by (auto simp: parsePostfix_def)
  then have "length ts1 < length ts" using progresses_less [OF prim ts] by blast
  then show "length ts' < length ts" using postfix_loop_progress [OF self, of ts1 e1] 1 ts by fastforce
qed

lemma parseUnary_progress:
  assumes self: "progresses n self"
  shows "progresses (Suc n) (parseUnary self)"
proof -
  note post = parsePostfix_progress [OF self]
  have "length ts < Suc n \<Longrightarrow> parseUnary self ts \<noteq> Inl Stuck \<and>
      (\<forall>e ts'. parseUnary self ts = Inr (e, ts') \<longrightarrow> length ts' < length ts)" for ts
  proof (induction ts)
    case Nil
    then show ?case using progresses_stuck [OF post] progresses_less [OF post] by fastforce
  next
    case (Cons t ts)
    have base: "parsePostfix self (t # ts) \<noteq> Inl Stuck \<and>
        (\<forall>e ts'. parsePostfix self (t # ts) = Inr (e, ts') \<longrightarrow> length ts' < length (t # ts))"
      using progresses_stuck [OF post Cons.prems] progresses_less [OF post Cons.prems] by blast
    show ?case
    proof (cases "\<exists>oper. fst t = TPunct oper \<and> (oper = ''!'' \<or> oper = ''-'')")
      case True
      then obtain oper where "fst t = TPunct oper" "oper = ''!'' \<or> oper = ''-''" by blast
      then have "parseUnary self (t # ts) = bindR (parseUnary self ts) (\<lambda>(e, ts'). Inr (Unary oper e, ts'))" by auto
      then show ?thesis using Cons by (cases "parseUnary self ts") fastforce+
    next
      case False
      then have "parseUnary self (t # ts) = parsePostfix self (t # ts)" by (auto split: tok.split)
      then show ?thesis using base by simp
    qed
  qed
  then show ?thesis unfolding progresses_def by blast
qed

lemma parseOr_progress: "progresses n self \<Longrightarrow> progresses (Suc n) (parseOr self)"
  unfolding parseOr_def parseAnd_def parseEquality_def parseRelational_def parseAdditive_def parseMultiplicative_def
  by (intro parseBinary_progress parseUnary_progress)

lemma parseExpression_progress: "progresses n parseExpression"
proof -
  have "parseExpression ts \<noteq> Inl Stuck \<and> (\<forall>e ts'. parseExpression ts = Inr (e, ts') \<longrightarrow> length ts' < length ts)" for ts
  proof (induction ts rule: length_induct)
    case (1 ts)
    let ?self = "\<lambda>ts'. if length ts' < length ts then parseExpression ts' else Inl Stuck"
    have "progresses (length ts) ?self" using 1 unfolding progresses_def by auto
    then have or: "progresses (Suc (length ts)) (parseOr ?self)" by (rule parseOr_progress)
    show ?case
      unfolding parseExpression.simps [of ts]
      using progresses_stuck [OF or, of ts] progresses_less [OF or, of ts] by blast
  qed
  then show ?thesis unfolding progresses_def by blast
qed

section \<open>The tokens of a printed expression\<close>

definition binary_ops :: "string list" where
  "binary_ops = [''||'', ''&&'', ''=='', ''!='', ''<'', ''<='', ''>'', ''>='', ''+'', ''-'', ''*'', ''/'', ''%'']"

definition word_ok :: "string \<Rightarrow> bool" where
  "word_ok n \<longleftrightarrow> name_ok n \<and> n \<noteq> ''forall'' \<and> n \<noteq> ''exists''"

text \<open>The trees the grammar can build.\<close>

fun wf_expr :: "expr \<Rightarrow> bool" where
  "wf_expr (IntLit i) \<longleftrightarrow> 0 \<le> i \<and> i \<le> int64_max"
| "wf_expr (StringLit s) \<longleftrightarrow> CHR 0x22 \<notin> set s"
| "wf_expr (Ident n) \<longleftrightarrow> word_ok n"
| "wf_expr (Call n args) \<longleftrightarrow> word_ok n \<and> (\<forall>a \<in> set args. wf_expr a)"
| "wf_expr (MemberCall n r args) \<longleftrightarrow> name_ok n \<and> wf_expr r \<and> (\<forall>a \<in> set args. wf_expr a)"
| "wf_expr (Unary n e) \<longleftrightarrow> (n = ''!'' \<or> n = ''-'') \<and> wf_expr e"
| "wf_expr (Binary n l r) \<longleftrightarrow> n \<in> set binary_ops \<and> wf_expr l \<and> wf_expr r"
| "wf_expr (Quantifier n v d b) \<longleftrightarrow> (n = ''forall'' \<or> n = ''exists'') \<and> name_ok v \<and> wf_expr d \<and> wf_expr b"

text \<open>Expressions whose text ends in an identifier: a following dot would be lexed into it.\<close>

fun ends_in_word :: "expr \<Rightarrow> bool" where
  "ends_in_word (Ident n) = True"
| "ends_in_word (MemberCall n r args) = (args = [])"
| "ends_in_word _ = False"

fun member_safe :: "expr \<Rightarrow> bool" where
  "member_safe (IntLit i) = True"
| "member_safe (StringLit s) = True"
| "member_safe (Ident n) = True"
| "member_safe (Call n args) = (\<forall>a \<in> set args. member_safe a)"
| "member_safe (MemberCall n r args) = (\<not> ends_in_word r \<and> member_safe r \<and> (\<forall>a \<in> set args. member_safe a))"
| "member_safe (Unary n e) = member_safe e"
| "member_safe (Binary n l r) = (member_safe l \<and> member_safe r)"
| "member_safe (Quantifier n v d b) = (member_safe d \<and> member_safe b)"

fun join_toks :: "tok list list \<Rightarrow> tok list" where
  "join_toks [] = []"
| "join_toks [t] = t"
| "join_toks (t # ts) = t @ TPunct '','' # join_toks ts"

fun etoks :: "expr \<Rightarrow> tok list" where
  "etoks (IntLit i) = [TInt i]"
| "etoks (StringLit s) = [TString s]"
| "etoks (Ident n) = [TIdent n]"
| "etoks (Call n args) = TIdent n # TPunct ''('' # join_toks (map etoks args) @ [TPunct '')'']"
| "etoks (MemberCall n r args) =
     (if isCompoundExpr r then TPunct ''('' # etoks r @ [TPunct '')''] else etoks r) @ [TPunct ''.'', TIdent n] @
     (if args \<noteq> [] then TPunct ''('' # join_toks (map etoks args) @ [TPunct '')''] else [])"
| "etoks (Unary n e) = TPunct ''('' # TPunct n # etoks e @ [TPunct '')'']"
| "etoks (Binary n l r) = TPunct ''('' # etoks l @ TPunct n # etoks r @ [TPunct '')'']"
| "etoks (Quantifier n v d b) =
     TPunct ''('' # TIdent n # TIdent v # TIdent ''in'' # etoks d @ TPunct '':'' # etoks b @ [TPunct '')'']"

section \<open>Parsing the tokens of an expression\<close>

definition agrees :: "nat \<Rightarrow> expr parser \<Rightarrow> bool" where
  "agrees n self \<longleftrightarrow> (\<forall>ts. length ts < n \<longrightarrow> self ts = parseExpression ts)"

definition closes :: "cursor \<Rightarrow> bool" where
  "closes rest \<longleftrightarrow> rest = [] \<or> isPunct '')'' rest \<or> isPunct '','' rest \<or> isPunct '':'' rest"

lemma isPunct_simps [simp]: "\<not> isPunct c []" "isPunct c ((t, q) # ts) \<longleftrightarrow> t = TPunct c"
  by (simp_all add: isPunct_def)

lemma closes_not: "closes rest \<Longrightarrow> c \<noteq> '')'' \<Longrightarrow> c \<noteq> '','' \<Longrightarrow> c \<noteq> '':'' \<Longrightarrow> \<not> isPunct c rest"
  by (cases rest) (auto simp: closes_def)

lemma closes_simps [simp]: "closes []" "closes ((TPunct '')'', q) # ts)" "closes ((TPunct '','', q) # ts)" "closes ((TPunct '':'', q) # ts)"
  by (simp_all add: closes_def)

lemmas level_defs = parseOr_def parseAnd_def parseEquality_def parseRelational_def parseAdditive_def parseMultiplicative_def

lemma levels_stop:
  assumes "parseUnary self ts = Inr (e, rest)" "closes rest"
  shows "parseOr self ts = Inr (e, rest)"
  using assms(1) closes_not [OF assms(2)]
  by (simp add: level_defs parseBinary_def bin_loop_stop)

lemma levels_binary:
  assumes "parseUnary self ts = Inr (l, (TPunct oper, q) # ts1)" "parseUnary self ts1 = Inr (r, rest)"
    and "closes rest" "length rest \<le> length ts1" "oper \<in> set binary_ops"
  shows "parseOr self ts = Inr (Binary oper l r, rest)"
proof -
  have cases: "oper = ''||'' \<or> oper = ''&&'' \<or> (oper = ''=='' \<or> oper = ''!='') \<or>
      (oper = ''<'' \<or> oper = ''<='' \<or> oper = ''>'' \<or> oper = ''>='') \<or> (oper = ''+'' \<or> oper = ''-'') \<or>
      (oper = ''*'' \<or> oper = ''/'' \<or> oper = ''%'')"
    using assms(5) by (simp add: binary_ops_def)
  show ?thesis
    using cases assms(1,2,4) closes_not [OF assms(3)]
    by (elim disjE) (simp_all add: level_defs parseBinary_def bin_loop_stop bin_loop_op)
qed

definition postfix_ok :: "expr \<Rightarrow> bool" where
  "postfix_ok e \<longleftrightarrow> (\<forall>n self pre rest. agrees n self \<longrightarrow> map fst pre = etoks e \<longrightarrow> length pre + length rest \<le> n \<longrightarrow>
     (ends_in_word e \<longrightarrow> \<not> isPunct ''('' rest) \<longrightarrow> parsePostfix self (pre @ rest) = postfix_loop self e rest)"

lemma postfix_okD:
  "postfix_ok e \<Longrightarrow> agrees n self \<Longrightarrow> map fst pre = etoks e \<Longrightarrow> length pre + length rest \<le> n \<Longrightarrow>
     \<not> isPunct ''('' rest \<Longrightarrow> parsePostfix self (pre @ rest) = postfix_loop self e rest"
  unfolding postfix_ok_def by blast

lemma etoks_start: "\<exists>t ts. etoks e = t # ts \<and> t \<noteq> TPunct ''!'' \<and> t \<noteq> TPunct ''-'' \<and> t \<noteq> TPunct '')''"
  by (induction e) auto

lemma postfix_ok_unary:
  assumes "postfix_ok e" "agrees n self" "map fst pre = etoks e" "length pre + length rest \<le> n"
    and "\<not> isPunct ''('' rest" "\<not> isPunct ''.'' rest"
  shows "parseUnary self (pre @ rest) = Inr (e, rest)"
proof -
  obtain t ts where "etoks e = t # ts" "t \<noteq> TPunct ''!''" "t \<noteq> TPunct ''-''" using etoks_start by blast
  then obtain q pre' where "pre = (t, q) # pre'" using assms(3) by (cases pre) auto
  then have "parseUnary self (pre @ rest) = parsePostfix self (pre @ rest)"
    using \<open>t \<noteq> TPunct ''!''\<close> \<open>t \<noteq> TPunct ''-''\<close> by (auto split: tok.split)
  then show ?thesis using postfix_okD [OF assms(1-5)] assms(6) by (simp add: postfix_loop_stop)
qed

lemma agrees_guard: "agrees (length ts) (\<lambda>ts'. if length ts' < length ts then parseExpression ts' else Inl Stuck)"
  by (simp add: agrees_def)

lemma expression_ok:
  assumes "postfix_ok e" "map fst pre = etoks e" "closes rest"
  shows "parseExpression (pre @ rest) = Inr (e, rest)"
proof -
  let ?ts = "pre @ rest"
  have "parseUnary (\<lambda>ts'. if length ts' < length ?ts then parseExpression ts' else Inl Stuck) ?ts = Inr (e, rest)"
    using closes_not [OF assms(3)] by (intro postfix_ok_unary [OF assms(1) agrees_guard assms(2)]) auto
  then show ?thesis unfolding parseExpression.simps [of ?ts] using assms(3) by (rule levels_stop)
qed

lemma expression_ok_unary:
  assumes "postfix_ok e" "map fst pre = etoks e" "closes rest" "oper = ''!'' \<or> oper = ''-''"
  shows "parseExpression ((TPunct oper, q) # pre @ rest) = Inr (Unary oper e, rest)"
proof -
  let ?ts = "(TPunct oper, q) # pre @ rest"
  have "parseUnary (\<lambda>ts'. if length ts' < length ?ts then parseExpression ts' else Inl Stuck) (pre @ rest) = Inr (e, rest)"
    using closes_not [OF assms(3)] by (intro postfix_ok_unary [OF assms(1) agrees_guard assms(2)]) auto
  then show ?thesis
    unfolding parseExpression.simps [of ?ts] using assms(3,4) by (intro levels_stop) auto
qed

lemma expression_ok_binary:
  assumes "postfix_ok l" "postfix_ok r" "map fst pre1 = etoks l" "map fst pre2 = etoks r" "closes rest"
    and "oper \<in> set binary_ops"
  shows "parseExpression (pre1 @ (TPunct oper, q) # pre2 @ rest) = Inr (Binary oper l r, rest)"
proof -
  let ?ts = "pre1 @ (TPunct oper, q) # pre2 @ rest"
  let ?self = "\<lambda>ts'. if length ts' < length ?ts then parseExpression ts' else Inl Stuck"
  have "oper \<noteq> ''(''" "oper \<noteq> ''.''" using assms(6) by (auto simp: binary_ops_def)
  then have "parseUnary ?self ?ts = Inr (l, (TPunct oper, q) # pre2 @ rest)"
    by (intro postfix_ok_unary [OF assms(1) agrees_guard assms(3)]) auto
  moreover have "parseUnary ?self (pre2 @ rest) = Inr (r, rest)"
    using closes_not [OF assms(5)] by (intro postfix_ok_unary [OF assms(2) agrees_guard assms(4)]) auto
  ultimately show ?thesis
    unfolding parseExpression.simps [of ?ts] using assms(5,6) by (intro levels_binary) auto
qed

lemma expectPunct_hit [simp]: "expectPunct c ((TPunct c, q) # ts) = Inr ts"
  by (simp add: expectPunct_def advance_def)

lemma join_toks_Cons: "join_toks (t # ts) = t @ (if ts = [] then [] else TPunct '','' # join_toks ts)"
  by (cases ts) auto

lemma args_ok:
  assumes "agrees n self" "\<And>a. a \<in> set args \<Longrightarrow> postfix_ok a" "args \<noteq> []"
    and "map fst pre = join_toks (map etoks args)" "length pre + Suc (length rest) < n"
  shows "args_loop self (pre @ (TPunct '')'', q) # rest) = Inr (args, (TPunct '')'', q) # rest)"
  using assms(2-)
proof (induction args arbitrary: pre)
  case (Cons a args)
  let ?close = "(TPunct '')'', q) # rest"
  show ?case
  proof (cases "args = []")
    case True
    have "parseExpression (pre @ ?close) = Inr (a, ?close)"
      using Cons.prems True by (intro expression_ok) auto
    then have "self (pre @ ?close) = Inr (a, ?close)" using assms(1) Cons.prems(4) by (simp add: agrees_def)
    then show ?thesis using True by (simp add: args_loop_last)
  next
    case False
    obtain pre1 q' pre2 where pre: "pre = pre1 @ (TPunct '','', q') # pre2" "map fst pre1 = etoks a"
        "map fst pre2 = join_toks (map etoks args)"
      using Cons.prems(3) False by (auto simp: join_toks_Cons map_eq_append_conv map_eq_Cons_conv)
    let ?tail = "(TPunct '','', q') # pre2 @ ?close"
    have "parseExpression (pre1 @ ?tail) = Inr (a, ?tail)"
      using Cons.prems(1) pre by (intro expression_ok) auto
    then have "self (pre @ ?close) = Inr (a, ?tail)" using assms(1) Cons.prems(4) pre by (simp add: agrees_def)
    moreover have "args_loop self (pre2 @ ?close) = Inr (args, ?close)"
      using Cons.prems pre False by (intro Cons.IH) auto
    ultimately show ?thesis using pre by (simp add: args_loop_more advance_def)
  qed
qed simp

lemma call_args_ok:
  assumes "agrees n self" "\<And>a. a \<in> set args \<Longrightarrow> postfix_ok a"
    and "map fst pre = TPunct ''('' # join_toks (map etoks args) @ [TPunct '')'']" "length pre + length rest \<le> n"
  shows "parseCallArgs self (pre @ rest) = Inr (args, rest)"
proof -
  obtain q1 mid q2 where pre: "pre = (TPunct ''('', q1) # mid @ [(TPunct '')'', q2)]"
      "map fst mid = join_toks (map etoks args)"
    using assms(3) by (auto simp: map_eq_append_conv map_eq_Cons_conv)
  show ?thesis
  proof (cases "args = []")
    case True
    then show ?thesis using pre by (simp add: parseCallArgs_def advance_def)
  next
    case False
    have loop: "args_loop self (mid @ (TPunct '')'', q2) # rest) = Inr (args, (TPunct '')'', q2) # rest)"
      using assms pre False by (intro args_ok) auto
    obtain a as where as: "args = a # as" using False by (cases args) auto
    obtain t ts where "etoks a = t # ts" "t \<noteq> TPunct '')''" using etoks_start by blast
    then have "\<not> isPunct '')'' (mid @ (TPunct '')'', q2) # rest)"
      using pre(2) as by (cases mid) (auto simp: join_toks_Cons)
    then show ?thesis using loop pre by (simp add: parseCallArgs_def)
  qed
qed

lemma paren_ok:
  assumes "agrees n self" "parseExpression (mid @ (TPunct '')'', q2) # rest) = Inr (e, (TPunct '')'', q2) # rest)"
    and "length mid + 1 + length rest < n"
  shows "parsePrimary self ((TPunct ''('', q1) # mid @ (TPunct '')'', q2) # rest) = Inr (e, rest)"
  using assms by (simp add: parsePrimary_def agrees_def)

lemma postfix_ok_paren:
  assumes "\<And>mid q rest. map fst mid = ts \<Longrightarrow>
      parseExpression (mid @ (TPunct '')'', q) # rest) = Inr (e, (TPunct '')'', q) # rest)"
    and "etoks e = TPunct ''('' # ts @ [TPunct '')'']"
  shows "postfix_ok e"
  unfolding postfix_ok_def
proof (intro allI impI)
  fix n self and pre rest :: cursor
  assume agrees: "agrees n self" and toks: "map fst pre = etoks e" and len: "length pre + length rest \<le> n"
  obtain q1 mid q2 where pre: "pre = (TPunct ''('', q1) # mid @ [(TPunct '')'', q2)]" "map fst mid = ts"
    using toks assms(2) by (auto simp: map_eq_append_conv map_eq_Cons_conv)
  have "parsePrimary self (pre @ rest) = Inr (e, rest)"
    using paren_ok [OF agrees assms(1) [OF pre(2)]] pre len by simp
  then show "parsePostfix self (pre @ rest) = postfix_loop self e rest" by (simp add: parsePostfix_def)
qed

lemma postfix_ok_call:
  assumes "word_ok n" "\<And>a. a \<in> set args \<Longrightarrow> postfix_ok a"
  shows "postfix_ok (Call n args)"
  unfolding postfix_ok_def
proof (intro allI impI)
  fix k self and pre rest :: cursor
  assume agrees: "agrees k self" and toks: "map fst pre = etoks (Call n args)" and len: "length pre + length rest \<le> k"
  obtain q pre' where pre: "pre = (TIdent n, q) # pre'"
      "map fst pre' = TPunct ''('' # join_toks (map etoks args) @ [TPunct '')'']"
    using toks by (auto simp: map_eq_Cons_conv)
  then have "isPunct ''('' (pre' @ rest)" by (cases pre') (auto simp: isPunct_def)
  then show "parsePostfix self (pre @ rest) = postfix_loop self (Call n args) rest"
    using call_args_ok [OF agrees assms(2) pre(2), of rest] pre(1) len assms(1)
    by (simp add: parsePostfix_def parsePrimary_def word_ok_def)
qed

lemma postfix_ok_member:
  assumes "postfix_ok r" "\<And>a. a \<in> set args \<Longrightarrow> postfix_ok a"
  shows "postfix_ok (MemberCall n r args)"
  unfolding postfix_ok_def
proof (intro allI impI)
  fix k self and pre rest :: cursor
  assume agrees: "agrees k self" and toks: "map fst pre = etoks (MemberCall n r args)"
    and len: "length pre + length rest \<le> k" and word: "ends_in_word (MemberCall n r args) \<longrightarrow> \<not> isPunct ''('' rest"
  obtain recv vs where vs: "pre = recv @ vs" "map fst vs = [TPunct ''.'', TIdent n] @
      (if args \<noteq> [] then TPunct ''('' # join_toks (map etoks args) @ [TPunct '')''] else [])"
    and recv: "map fst recv = (if isCompoundExpr r then TPunct ''('' # etoks r @ [TPunct '')''] else etoks r)"
    using map_eq_append_conv [THEN iffD1, OF toks [unfolded etoks.simps]] by metis
  obtain q1 q2 tail where "vs = (TPunct ''.'', q1) # (TIdent n, q2) # tail"
    and tail: "map fst tail = (if args \<noteq> [] then TPunct ''('' # join_toks (map etoks args) @ [TPunct '')''] else [])"
    using vs(2) by (auto simp: map_eq_Cons_conv simp del: if_split)
  then have pre: "pre = recv @ (TPunct ''.'', q1) # (TIdent n, q2) # tail" using vs(1) by simp
  let ?dot = "(TPunct ''.'', q1) # (TIdent n, q2) # tail @ rest"
  have "parsePostfix self (recv @ ?dot) = postfix_loop self r ?dot"
  proof (cases "isCompoundExpr r")
    case True
    then obtain p1 mid p2 where mid: "recv = (TPunct ''('', p1) # mid @ [(TPunct '')'', p2)]" "map fst mid = etoks r"
      using recv by (auto simp: map_eq_append_conv map_eq_Cons_conv)
    have "parseExpression (mid @ (TPunct '')'', p2) # ?dot) = Inr (r, (TPunct '')'', p2) # ?dot)"
      by (rule expression_ok [OF assms(1) mid(2)]) simp
    then show ?thesis using paren_ok [OF agrees] mid(1) pre len by (simp add: parsePostfix_def)
  next
    case False
    then show ?thesis using recv pre len by (intro postfix_okD [OF assms(1) agrees]) auto
  qed
  moreover have "(if isPunct ''('' (tail @ rest) then parseCallArgs self (tail @ rest) else Inr ([], tail @ rest)) = Inr (args, rest)"
  proof (cases "args = []")
    case True
    then show ?thesis using tail word by simp
  next
    case False
    then have "isPunct ''('' (tail @ rest)" using tail by (cases tail) (auto simp: isPunct_def)
    moreover have "parseCallArgs self (tail @ rest) = Inr (args, rest)"
      using tail False pre len by (intro call_args_ok [OF agrees assms(2)]) auto
    ultimately show ?thesis by simp
  qed
  ultimately show "parsePostfix self (pre @ rest) = postfix_loop self (MemberCall n r args) rest"
    using postfix_loop_step [of ?dot q1 n q2 "tail @ rest" self args rest r] pre by simp
qed

lemma wf_postfix_ok: "wf_expr e \<Longrightarrow> postfix_ok e"
proof (induction e)
  case (IntLit i)
  then show ?case
    by (auto simp: postfix_ok_def parsePostfix_def parsePrimary_def map_eq_Cons_conv)
next
  case (StringLit s)
  then show ?case
    by (auto simp: postfix_ok_def parsePostfix_def parsePrimary_def map_eq_Cons_conv)
next
  case (Ident n)
  then show ?case
    by (auto simp: postfix_ok_def parsePostfix_def parsePrimary_def map_eq_Cons_conv word_ok_def)
next
  case (Call n args)
  then show ?case by (intro postfix_ok_call) auto
next
  case (MemberCall n r args)
  then show ?case by (intro postfix_ok_member) auto
next
  case (Unary n e)
  show ?case
  proof (rule postfix_ok_paren)
    fix mid rest :: cursor and q :: position assume "map fst mid = TPunct n # etoks e"
    then obtain p pre where "mid = (TPunct n, p) # pre" "map fst pre = etoks e" by (auto simp: map_eq_Cons_conv)
    then show "parseExpression (mid @ (TPunct '')'', q) # rest) = Inr (Unary n e, (TPunct '')'', q) # rest)"
      using Unary by (simp add: expression_ok_unary)
  qed simp
next
  case (Binary n l r)
  show ?case
  proof (rule postfix_ok_paren)
    fix mid rest :: cursor and q :: position assume "map fst mid = etoks l @ TPunct n # etoks r"
    then obtain pre1 p pre2 where "mid = pre1 @ (TPunct n, p) # pre2" "map fst pre1 = etoks l" "map fst pre2 = etoks r"
      by (auto simp: map_eq_append_conv map_eq_Cons_conv)
    then show "parseExpression (mid @ (TPunct '')'', q) # rest) = Inr (Binary n l r, (TPunct '')'', q) # rest)"
      using Binary by (simp add: expression_ok_binary)
  qed simp
next
  case (Quantifier n v d b)
  show ?case
  proof (rule postfix_ok_paren)
    fix mid rest :: cursor and q :: position assume "map fst mid = TIdent n # TIdent v # TIdent ''in'' # etoks d @ TPunct '':'' # etoks b"
    then obtain p1 p2 p3 pre1 p4 pre2 where mid:
        "mid = (TIdent n, p1) # (TIdent v, p2) # (TIdent ''in'', p3) # pre1 @ (TPunct '':'', p4) # pre2"
        "map fst pre1 = etoks d" "map fst pre2 = etoks b"
      by (auto simp: map_eq_append_conv map_eq_Cons_conv)
    let ?close = "(TPunct '')'', q) # rest"
    let ?ts = "mid @ ?close"
    let ?self = "\<lambda>ts'. if length ts' < length ?ts then parseExpression ts' else Inl Stuck"
    have "parseExpression (pre1 @ (TPunct '':'', p4) # pre2 @ ?close) = Inr (d, (TPunct '':'', p4) # pre2 @ ?close)"
      "parseExpression (pre2 @ ?close) = Inr (b, ?close)"
      using Quantifier mid by (auto intro!: expression_ok)
    then have "parseQuantifier ?self n (tl ?ts) = Inr (Quantifier n v d b, ?close)"
      using mid(1) by (simp add: parseQuantifier_def expectIdentifier_def)
    then have "parseUnary ?self ?ts = Inr (Quantifier n v d b, ?close)"
      using mid(1) Quantifier.prems by (auto simp: parsePostfix_def parsePrimary_def postfix_loop_stop)
    then show "parseExpression ?ts = Inr (Quantifier n v d b, ?close)"
      unfolding parseExpression.simps [of ?ts] by (rule levels_stop) simp
  qed simp
qed

section \<open>Lexing a printed expression\<close>

lemma lexes_Cons: "lexes [c] ts (s @ rest) \<Longrightarrow> lexes s ts' rest \<Longrightarrow> lexes (c # s) (ts @ ts') rest"
  using lexes_append [of "[c]" ts s rest ts'] by simp

lemma lexes_bracket_Cons:
  "c = CHR ''('' \<or> c = CHR '')'' \<or> c = CHR '','' \<or> c = CHR '':'' \<Longrightarrow> lexes s ts rest \<Longrightarrow> lexes (c # s) (TPunct [c] # ts) rest"
  using lexes_Cons [of c "[TPunct [c]]" s rest ts] lexes_bracket [of c] by simp

lemma lexes_space_Cons: "lexes s ts rest \<Longrightarrow> lexes (CHR '' '' # s) ts rest"
  using lexes_Cons [of "CHR '' ''" "[]" s rest ts] lexes_space [of "s @ rest"] by simp

lemma lexes_name_append:
  "name_ok n \<Longrightarrow> ends_word (s @ rest) \<Longrightarrow> lexes s ts rest \<Longrightarrow> lexes (n @ s) (TIdent n # ts) rest"
  using lexes_append [of n "[TIdent n]" s rest ts] lexes_name [of n "s @ rest"] by simp

definition lex_ok :: "expr \<Rightarrow> bool" where
  "lex_ok e \<longleftrightarrow> (\<forall>rest. (ends_in_word e \<longrightarrow> ends_word rest) \<longrightarrow> ends_number rest \<longrightarrow>
     lexes (printExpr e) (etoks e) rest)"

lemma lex_ok_append:
  assumes "lex_ok e" "ends_word (s @ rest)" "lexes s ts rest"
  shows "lexes (printExpr e @ s) (etoks e @ ts) rest"
  using assms ends_word_number by (intro lexes_append) (auto simp: lex_ok_def)

lemma ends_word_simps [simp]:
  "ends_word []" "ends_word (CHR '' '' # s)" "ends_word (CHR '','' # s)" "ends_word (CHR '')'' # s)" "ends_word (CHR ''('' # s)"
  by (simp_all add: ends_word_def isIdentifierChar_def is_alpha_def is_digit_def)

lemma ends_number_dot [simp]: "ends_number (CHR ''.'' # s)"
  by (simp add: ends_number_def is_digit_def)

lemma lexes_args:
  assumes "\<And>a. a \<in> set args \<Longrightarrow> lex_ok a"
  shows "lexes (join_with '', '' (map printExpr args) @ '')'') (join_toks (map etoks args) @ [TPunct '')'']) rest"
  using assms
proof (induction args)
  case Nil
  then show ?case using lexes_bracket by simp
next
  case (Cons a args)
  show ?case
  proof (cases "args = []")
    case True
    then show ?thesis
      using Cons.prems lex_ok_append [of a "'')''" rest "[TPunct '')'']"] lexes_bracket by simp
  next
    case False
    have "lexes (CHR '','' # CHR '' '' # join_with '', '' (map printExpr args) @ '')'')
        (TPunct '','' # join_toks (map etoks args) @ [TPunct '')'']) rest"
      using Cons by (intro lexes_bracket_Cons lexes_space_Cons) auto
    then have "lexes (printExpr a @ CHR '','' # CHR '' '' # join_with '', '' (map printExpr args) @ '')'')
        (etoks a @ TPunct '','' # join_toks (map etoks args) @ [TPunct '')'']) rest"
      using Cons.prems by (intro lex_ok_append) auto
    then show ?thesis using False by (simp add: join_with_Cons join_toks_Cons)
  qed
qed

text \<open>The first character of a printed expression.\<close>

lemma name_start: "name_ok n \<Longrightarrow> \<exists>c cs. n = c # cs \<and> isIdentifierStart c"
  by (cases n) (auto simp: name_ok_def)

lemma print_start:
  assumes "wf_expr e"
  shows "\<exists>c cs. printExpr e = c # cs \<and> (isIdentifierStart c \<or> is_digit c \<or> c = CHR 0x22 \<or> c = CHR ''('')"
  using assms
proof (induction e)
  case (IntLit i)
  have "nat_to_string (nat i) \<noteq> []" by simp
  then obtain c cs where "nat_to_string (nat i) = c # cs" by (cases "nat_to_string (nat i)") auto
  moreover from this have "is_digit c" using nat_to_string_digits [of c "nat i"] by simp
  ultimately show ?case using IntLit by (simp add: int_to_string_def)
next
  case (Ident n)
  then show ?case using name_start [of n] by (auto simp: word_ok_def)
next
  case (Call n args)
  then have "name_ok n" by (simp add: word_ok_def)
  then show ?case using name_start by fastforce
qed (auto simp: quoted_def)

lemma lexes_unary:
  assumes "oper = ''!'' \<or> oper = ''-''" "s = c # cs" "isIdentifierStart c \<or> is_digit c \<or> c = CHR 0x22 \<or> c = CHR ''(''"
    and "lexes s ts rest"
  shows "lexes (oper @ s) (TPunct oper # ts) rest"
proof -
  have c: "c \<noteq> CHR ''='' \<and> c \<noteq> CHR ''>''"
    using assms(3) by (auto simp: isIdentifierStart_def is_alpha_def is_digit_def)
  from assms(1) obtain d where d: "oper = [d]" "d = CHR ''!'' \<or> d = CHR ''-''" by auto
  then have "lexes [d] [TPunct [d]] (s @ rest)"
    using assms(2) c by (intro lexes_punct1) (auto simp: kOneChar_def kTwoChar_def)
  then show ?thesis using lexes_Cons [of d "[TPunct [d]]" s rest ts] assms(4) d by simp
qed

lemma operators_lex: "\<forall>oper \<in> set binary_ops. oper \<in> set kTwoChar \<or> (\<exists>c \<in> set kOneChar. oper = [c])"
  by (simp add: binary_ops_def kTwoChar_def kOneChar_def)

lemma lexes_operator:
  assumes "oper \<in> set binary_ops" "lexes s ts rest"
  shows "lexes (oper @ CHR '' '' # s) (TPunct oper # ts) rest"
proof -
  have "lexes oper [TPunct oper] (CHR '' '' # s @ rest)"
  proof (cases "oper \<in> set kTwoChar")
    case True
    then show ?thesis by (rule lexes_punct2)
  next
    case False
    then obtain c where c: "oper = [c]" "c \<in> set kOneChar"
      using assms(1) operators_lex by blast
    have "take 2 (c # CHR '' '' # s @ rest) = [c, CHR '' '']" by (simp add: numeral_2_eq_2)
    then have "lexes [c] [TPunct [c]] (CHR '' '' # s @ rest)"
      using c(2) by (intro lexes_punct1) (auto simp: kTwoChar_def)
    then show ?thesis using c by simp
  qed
  then show ?thesis
    using lexes_append [of oper "[TPunct oper]" "CHR '' '' # s" rest ts] lexes_space_Cons [OF assms(2)] by simp
qed

lemma lexes_member:
  assumes "name_ok n" "ends_word (s @ rest)" "lexes s ts rest"
  shows "lexes (CHR ''.'' # n @ s) (TPunct ''.'' # TIdent n # ts) rest"
proof -
  obtain c cs where n: "n = c # cs" "isIdentifierStart c" using name_start assms(1) by blast
  then have "c \<noteq> CHR ''.''" by (auto simp: isIdentifierStart_def is_alpha_def)
  then have "lexes ''.'' [TPunct ''.''] ((n @ s) @ rest)"
    using n by (intro lexes_punct1) (auto simp: kOneChar_def kTwoChar_def)
  then show ?thesis using lexes_Cons [OF _ lexes_name_append [OF assms], of "CHR ''.''" "[TPunct ''.'']"] by simp
qed

lemma lexes_receiver:
  assumes "lex_ok r" "\<not> ends_in_word r" "lexes (CHR ''.'' # s) ts rest"
  shows "lexes ((if isCompoundExpr r then ''('' @ printExpr r @ '')'' else printExpr r) @ CHR ''.'' # s)
    ((if isCompoundExpr r then TPunct ''('' # etoks r @ [TPunct '')''] else etoks r) @ ts) rest"
proof (cases "isCompoundExpr r")
  case True
  have "lexes (CHR ''('' # printExpr r @ CHR '')'' # CHR ''.'' # s) (TPunct ''('' # etoks r @ TPunct '')'' # ts) rest"
    using assms by (intro lexes_bracket_Cons lex_ok_append) auto
  then show ?thesis using True by simp
next
  case False
  then show ?thesis using assms by (auto simp: lex_ok_def intro!: lexes_append)
qed

lemma wf_lex_ok: "wf_expr e \<Longrightarrow> member_safe e \<Longrightarrow> lex_ok e"
proof (induction e)
  case (IntLit i)
  then show ?case by (simp add: lex_ok_def lexes_number)
next
  case (StringLit s)
  then show ?case by (simp add: lex_ok_def lexes_string quoted_def)
next
  case (Ident n)
  then show ?case by (simp add: lex_ok_def lexes_name word_ok_def)
next
  case (Call n args)
  have "lexes (n @ CHR ''('' # join_with '', '' (map printExpr args) @ '')'')
      (TIdent n # TPunct ''('' # join_toks (map etoks args) @ [TPunct '')'']) rest" for rest
    using Call by (intro lexes_name_append lexes_bracket_Cons lexes_args) (auto simp: word_ok_def)
  then show ?case by (simp add: lex_ok_def)
next
  case (MemberCall n r args)
  let ?s = "if args \<noteq> [] then ''('' @ join_with '', '' (map printExpr args) @ '')'' else []"
  let ?ts = "if args \<noteq> [] then TPunct ''('' # join_toks (map etoks args) @ [TPunct '')''] else []"
  have tail: "lexes ?s ?ts rest" for rest
    using MemberCall lexes_Nil by (auto intro!: lexes_bracket_Cons lexes_args)
  show ?case unfolding lex_ok_def
  proof (intro allI impI)
    fix rest assume "ends_in_word (MemberCall n r args) \<longrightarrow> ends_word rest"
    then have "ends_word (?s @ rest)" by auto
    then have "lexes (CHR ''.'' # n @ ?s) (TPunct ''.'' # TIdent n # ?ts) rest"
      using MemberCall.prems tail by (intro lexes_member) auto
    then have "lexes ((if isCompoundExpr r then ''('' @ printExpr r @ '')'' else printExpr r) @ CHR ''.'' # n @ ?s)
        ((if isCompoundExpr r then TPunct ''('' # etoks r @ [TPunct '')''] else etoks r) @ TPunct ''.'' # TIdent n # ?ts) rest"
      using MemberCall by (intro lexes_receiver) auto
    then show "lexes (printExpr (MemberCall n r args)) (etoks (MemberCall n r args)) rest" by simp
  qed
next
  case (Unary n e)
  have e: "lexes (printExpr e @ '')'') (etoks e @ [TPunct '')'']) rest" for rest
    using Unary lexes_bracket by (intro lex_ok_append) auto
  obtain c cs where "printExpr e = c # cs" "isIdentifierStart c \<or> is_digit c \<or> c = CHR 0x22 \<or> c = CHR ''(''"
    using print_start Unary.prems by fastforce
  then have "lexes (n @ printExpr e @ '')'') (TPunct n # etoks e @ [TPunct '')'']) rest" for rest
    using Unary.prems e by (intro lexes_unary) auto
  then show ?case by (auto simp: lex_ok_def intro!: lexes_bracket_Cons)
next
  case (Binary n l r)
  have "lexes (printExpr r @ '')'') (etoks r @ [TPunct '')'']) rest" for rest
    using Binary lexes_bracket by (intro lex_ok_append) auto
  then have "lexes (n @ CHR '' '' # printExpr r @ '')'') (TPunct n # etoks r @ [TPunct '')'']) rest" for rest
    using Binary.prems by (intro lexes_operator) auto
  then have "lexes (printExpr l @ CHR '' '' # n @ CHR '' '' # printExpr r @ '')'')
      (etoks l @ TPunct n # etoks r @ [TPunct '')'']) rest" for rest
    using Binary by (intro lex_ok_append lexes_space_Cons) auto
  then show ?case by (auto simp: lex_ok_def intro!: lexes_bracket_Cons)
next
  case (Quantifier n v d b)
  have in_ok: "name_ok ''in''" "name_ok ''forall''" "name_ok ''exists''"
    by (simp_all add: name_ok_def isIdentifierStart_def isIdentifierChar_def is_alpha_def is_digit_def)
  have "lexes (printExpr b @ '')'') (etoks b @ [TPunct '')'']) rest" for rest
    using Quantifier lexes_bracket by (intro lex_ok_append) auto
  then have "lexes (printExpr d @ CHR '' '' # CHR '':'' # CHR '' '' # printExpr b @ '')'')
      (etoks d @ TPunct '':'' # etoks b @ [TPunct '')'']) rest" for rest
    using Quantifier by (intro lex_ok_append lexes_space_Cons lexes_bracket_Cons) (auto intro: lexes_Nil)
  then have "lexes (n @ CHR '' '' # v @ CHR '' '' # ''in'' @ CHR '' '' # printExpr d @ CHR '' '' # CHR '':'' # CHR '' '' # printExpr b @ '')'')
      (TIdent n # TIdent v # TIdent ''in'' # etoks d @ TPunct '':'' # etoks b @ [TPunct '')'']) rest" for rest
    using Quantifier.prems in_ok by (intro lexes_name_append lexes_space_Cons) auto
  then show ?case by (auto simp: lex_ok_def intro!: lexes_bracket_Cons)
qed

lemma print_parse:
  assumes "wf_expr e" "member_safe e"
  shows "\<exists>ts p. lexLlkMap (printExpr e) = Inr (ts, p) \<and> parseExpression ts = Inr (e, [])"
proof -
  have "lexes (printExpr e) (etoks e) []"
    using wf_lex_ok [OF assms] by (simp add: lex_ok_def ends_number_def)
  then obtain pre p' where pre: "map fst pre = etoks e"
      "lex_from (1, 1) (printExpr e) = bindR (lex_from p' []) (\<lambda>(us, q). Inr (pre @ us, q))"
    unfolding lexes_def by (metis append_Nil2)
  then have "lexLlkMap (printExpr e) = Inr (pre, p')" by (simp add: lexLlkMap_def lex_from.simps [of p'])
  moreover have "parseExpression (pre @ []) = Inr (e, [])"
    using wf_postfix_ok [OF assms(1)] pre(1) by (intro expression_ok) auto
  ultimately show ?thesis by auto
qed

section \<open>The parser builds well-formed trees\<close>

definition toks_ok :: "cursor \<Rightarrow> bool" where
  "toks_ok ts \<longleftrightarrow> (\<forall>t \<in> set ts. tok_ok (fst t))"

definition builds :: "('a \<Rightarrow> bool) \<Rightarrow> 'a parser \<Rightarrow> bool" where
  "builds ok p \<longleftrightarrow> (\<forall>ts a ts'. toks_ok ts \<longrightarrow> p ts = Inr (a, ts') \<longrightarrow> ok a \<and> toks_ok ts')"

lemma buildsD: "builds ok p \<Longrightarrow> p ts = Inr (a, ts') \<Longrightarrow> toks_ok ts \<Longrightarrow> ok a \<and> toks_ok ts'"
  unfolding builds_def by blast

lemma buildsI: "(\<And>ts a ts'. toks_ok ts \<Longrightarrow> p ts = Inr (a, ts') \<Longrightarrow> ok a \<and> toks_ok ts') \<Longrightarrow> builds ok p"
  unfolding builds_def by blast

lemma toks_ok_Cons [simp]: "toks_ok (t # ts) \<longleftrightarrow> tok_ok (fst t) \<and> toks_ok ts"
  by (simp add: toks_ok_def)

lemma toks_ok_advance: "toks_ok ts \<Longrightarrow> toks_ok (advance ts)"
  by (cases ts) (auto simp: advance_def toks_ok_def)

lemma toks_ok_expect: "expectPunct c ts = Inr ts' \<Longrightarrow> toks_ok ts \<Longrightarrow> toks_ok ts'"
  using expectPunct_Inr toks_ok_advance by blast

lemma tok_ok_ident [simp]: "tok_ok (TIdent n) \<longleftrightarrow> name_ok n"
  by (simp add: tok_ok_def)

lemma bin_loop_builds:
  assumes "builds wf_expr sub" "set ops \<subseteq> set binary_ops"
  shows "toks_ok ts \<Longrightarrow> wf_expr lhs \<Longrightarrow> bin_loop ops sub lhs ts = Inr (e, ts') \<Longrightarrow> wf_expr e \<and> toks_ok ts'"
proof (induction ts arbitrary: lhs rule: length_induct)
  case (1 ts)
  show ?case
  proof (cases "\<exists>oper \<in> set ops. isPunct oper ts")
    case True
    then obtain oper q rest where ts: "ts = (TPunct oper, q) # rest" "oper \<in> set ops"
      by (cases ts) (auto simp: isPunct_def)
    have run: "bin_loop ops sub lhs ts = (case sub rest of
        Inl e \<Rightarrow> Inl e
      | Inr (rhs, ts') \<Rightarrow> if length ts' \<le> length rest then bin_loop ops sub (Binary oper lhs rhs) ts' else Inl Stuck)"
      unfolding ts(1) by (rule bin_loop_op [OF ts(2)])
    obtain rhs ts1 where step: "sub rest = Inr (rhs, ts1)" "length ts1 \<le> length rest"
        "bin_loop ops sub (Binary oper lhs rhs) ts1 = Inr (e, ts')"
      using 1(4) unfolding run by (auto split: sum.splits if_splits)
    have ok: "wf_expr rhs" "toks_ok ts1" using buildsD [OF assms(1) step(1)] 1(2) ts(1) by simp_all
    have "length ts1 < length ts" using step(2) ts(1) by simp
    moreover have "wf_expr (Binary oper lhs rhs)" using ok(1) 1(3) ts(2) assms(2) by (simp add: subset_iff)
    ultimately show ?thesis using 1(1) ok(2) step(3) by blast
  next
    case False
    then show ?thesis using 1 by (simp add: bin_loop_stop)
  qed
qed

lemma parseBinary_builds:
  assumes "builds wf_expr sub" "set ops \<subseteq> set binary_ops"
  shows "builds wf_expr (parseBinary ops sub)"
proof (rule buildsI)
  show "wf_expr e \<and> toks_ok ts'" if ok: "toks_ok ts" and run: "parseBinary ops sub ts = Inr (e, ts')" for ts e ts'
  proof -
    obtain lhs ts1 where "sub ts = Inr (lhs, ts1)" "bin_loop ops sub lhs ts1 = Inr (e, ts')"
      using run by (auto simp: parseBinary_def)
    then show ?thesis using buildsD [OF assms(1) _ ok] bin_loop_builds [OF assms, of ts1 lhs e ts'] by blast
  qed
qed

lemma args_loop_builds:
  assumes "builds wf_expr self"
  shows "toks_ok ts \<Longrightarrow> args_loop self ts = Inr (as, ts') \<Longrightarrow> (\<forall>a \<in> set as. wf_expr a) \<and> toks_ok ts'"
proof (induction ts arbitrary: as rule: length_induct)
  case (1 ts)
  obtain a ts1 where a: "self ts = Inr (a, ts1)" using 1(3) by (cases "self ts") (auto simp: args_loop_fail)
  have ok: "wf_expr a" "toks_ok ts1" using buildsD [OF assms a 1(2)] by auto
  show ?case
  proof (cases "isPunct '','' ts1")
    case True
    show ?thesis
    proof (cases "length (advance ts1) < length ts")
      case less: True
      then obtain as' where "args_loop self (advance ts1) = Inr (as', ts')" "as = a # as'"
        using 1(3) args_loop_more [of self ts a ts1, OF a True less] by (auto split: sum.splits)
      then show ?thesis using 1(1) [rule_format, OF less] toks_ok_advance [OF ok(2)] ok by auto
    next
      case False
      then have "args_loop self ts = Inl Stuck" using a True by (subst args_loop.simps) simp
      then show ?thesis using 1(3) by simp
    qed
  next
    case False
    then show ?thesis using 1(3) args_loop_last [of self ts a ts1, OF a False] ok by auto
  qed
qed

lemma parseCallArgs_builds:
  assumes "builds wf_expr self" "toks_ok ts" "parseCallArgs self ts = Inr (as, ts')"
  shows "(\<forall>a \<in> set as. wf_expr a) \<and> toks_ok ts'"
proof -
  obtain ts1 where ts1: "expectPunct ''('' ts = Inr ts1" using assms(3) by (auto simp: parseCallArgs_def)
  have ok: "toks_ok ts1" using toks_ok_expect [OF ts1 assms(2)] .
  show ?thesis
  proof (cases "isPunct '')'' ts1")
    case True
    then show ?thesis using assms(3) ts1 toks_ok_advance [OF ok] by (auto simp: parseCallArgs_def)
  next
    case False
    then obtain ts2 where "args_loop self ts1 = Inr (as, ts2)" "expectPunct '')'' ts2 = Inr ts'"
      using assms(3) ts1 by (auto simp: parseCallArgs_def)
    then show ?thesis using args_loop_builds [OF assms(1) ok] toks_ok_expect by blast
  qed
qed

lemma parsePrimary_builds:
  assumes self: "builds wf_expr self"
  shows "builds wf_expr (parsePrimary self)"
proof (rule buildsI)
  fix ts e ts' assume ok: "toks_ok ts" and run: "parsePrimary self ts = Inr (e, ts')"
  obtain t q rest where t: "ts = (t, q) # rest" using run by (cases ts) (auto simp: parsePrimary_def)
  have rest: "toks_ok rest" and tok: "tok_ok t" using ok t by auto
  show "wf_expr e \<and> toks_ok ts'"
  proof (cases t)
    case (TIdent w)
    show ?thesis
    proof (cases "w = ''forall'' \<or> w = ''exists''")
      case True
      then have quant: "parseQuantifier self w rest = Inr (e, ts')" using run t TIdent by (auto simp: parsePrimary_def)
      obtain v p q' ts2 d ts3 ts4 b where steps: "rest = (TIdent v, p) # (TIdent ''in'', q') # ts2"
          "self ts2 = Inr (d, ts3)" "expectPunct '':'' ts3 = Inr ts4" "self ts4 = Inr (b, ts')"
          "e = Quantifier w v d b"
        using quant by (rule parseQuantifier_Inr)
      have "wf_expr d \<and> toks_ok ts3" using buildsD [OF self steps(2)] steps(1) rest by simp
      moreover from this have "wf_expr b \<and> toks_ok ts'"
        using buildsD [OF self steps(4)] toks_ok_expect [OF steps(3)] by blast
      ultimately show ?thesis using steps(1,5) rest True by auto
    next
      case False
      then have "word_ok w" using tok TIdent by (simp add: word_ok_def)
      then show ?thesis
        using run t TIdent False rest parseCallArgs_builds [OF self rest]
        by (auto simp: parsePrimary_def split: if_splits)
    qed
  next
    case (TPunct c)
    then obtain ts1 where "self rest = Inr (e, ts1)" "expectPunct '')'' ts1 = Inr ts'"
      using run t by (auto simp: parsePrimary_def split: if_splits)
    then show ?thesis using buildsD [OF self _ rest] toks_ok_expect by blast
  qed (use run t tok rest in \<open>auto simp: parsePrimary_def tok_ok_def\<close>)
qed

lemma postfix_loop_builds:
  assumes self: "builds wf_expr self"
  shows "toks_ok ts \<Longrightarrow> wf_expr e \<Longrightarrow> postfix_loop self e ts = Inr (e', ts') \<Longrightarrow> wf_expr e' \<and> toks_ok ts'"
proof (induction ts arbitrary: e rule: length_induct)
  case (1 ts)
  show ?case
  proof (cases "isPunct ''.'' ts")
    case True
    then obtain member ts1 where m: "expectIdentifier ''a member name'' (advance ts) = Inr (member, ts1)"
      using 1(4) by (subst (asm) postfix_loop.simps) (auto split: sum.splits)
    let ?args = "if isPunct ''('' ts1 then parseCallArgs self ts1 else Inr ([], ts1)"
    obtain args ts2 where a: "?args = Inr (args, ts2)" "length ts2 < length ts"
        "postfix_loop self (MemberCall member e args) ts2 = Inr (e', ts')"
      using 1(4) True m by (subst (asm) postfix_loop.simps) (auto split: sum.splits if_splits)
    obtain q where "advance ts = (TIdent member, q) # ts1" using expectIdentifier_Inr [OF m] by blast
    then have ok: "name_ok member" "toks_ok ts1" using toks_ok_advance [OF 1(2)] by auto
    have "(\<forall>x \<in> set args. wf_expr x) \<and> toks_ok ts2"
      using a(1) parseCallArgs_builds [OF self ok(2)] ok(2) by (auto split: if_splits)
    moreover have "toks_ok ts2 \<longrightarrow> wf_expr (MemberCall member e args) \<longrightarrow>
        postfix_loop self (MemberCall member e args) ts2 = Inr (e', ts') \<longrightarrow> wf_expr e' \<and> toks_ok ts'"
      using 1(1) a(2) by blast
    ultimately show ?thesis using a(3) ok(1) 1(3) by simp
  next
    case False
    then show ?thesis using 1 by (simp add: postfix_loop_stop)
  qed
qed

lemma parseUnary_builds:
  assumes self: "builds wf_expr self"
  shows "builds wf_expr (parseUnary self)"
proof -
  have post: "wf_expr e \<and> toks_ok ts'" if ok: "toks_ok ts" and run: "parsePostfix self ts = Inr (e, ts')" for ts e ts'
  proof -
    obtain a ts1 where "parsePrimary self ts = Inr (a, ts1)" "postfix_loop self a ts1 = Inr (e, ts')"
      using run by (auto simp: parsePostfix_def)
    then show ?thesis
      using buildsD [OF parsePrimary_builds [OF self] _ ok] postfix_loop_builds [OF self, of ts1 a e ts'] by blast
  qed
  have "toks_ok ts \<Longrightarrow> parseUnary self ts = Inr (e, ts') \<Longrightarrow> wf_expr e \<and> toks_ok ts'" for ts e ts'
  proof (induction ts arbitrary: e)
    case Nil
    then show ?case using post by simp
  next
    case (Cons t ts)
    show ?case
    proof (cases "\<exists>oper. fst t = TPunct oper \<and> (oper = ''!'' \<or> oper = ''-'')")
      case True
      then obtain oper where "fst t = TPunct oper" "oper = ''!'' \<or> oper = ''-''" by blast
      then obtain a where "parseUnary self ts = Inr (a, ts')" "e = Unary oper a"
        using Cons.prems(2) by (auto split: if_splits)
      then show ?thesis using Cons.IH [of a] Cons.prems(1) \<open>oper = ''!'' \<or> oper = ''-''\<close> by simp
    next
      case False
      then have "parseUnary self (t # ts) = parsePostfix self (t # ts)" by (auto split: tok.split)
      then show ?thesis using post [OF Cons.prems(1)] Cons.prems(2) by simp
    qed
  qed
  then show ?thesis by (rule buildsI)
qed

lemma parseExpression_builds: "builds wf_expr parseExpression"
proof -
  have "toks_ok ts \<Longrightarrow> parseExpression ts = Inr (e, ts') \<Longrightarrow> wf_expr e \<and> toks_ok ts'" for ts e ts'
  proof (induction ts arbitrary: e ts' rule: length_induct)
    case (1 ts)
    let ?self = "\<lambda>ts'. if length ts' < length ts then parseExpression ts' else Inl Stuck"
    have "builds wf_expr ?self" unfolding builds_def using 1(1) by auto
    then have "builds wf_expr (parseOr ?self)"
      unfolding level_defs by (intro parseBinary_builds parseUnary_builds) (auto simp: binary_ops_def)
    from buildsD [OF this _ 1(2)] show ?case using 1(3) by (subst (asm) parseExpression.simps)
  qed
  then show ?thesis by (rule buildsI)
qed


section \<open>Domain members\<close>

fun lit_tok :: "layout_value \<Rightarrow> tok" where
  "lit_tok (IntV i) = TInt i"
| "lit_tok (StrV s) = TString s"

lemma members_loop_sound:
  "members_loop ts = Inr (vs, rest) \<Longrightarrow>
     vs \<noteq> [] \<and> (\<exists>pre. ts = pre @ rest \<and> map fst pre = join_toks (map (\<lambda>v. [lit_tok v]) vs))"
proof (induction ts arbitrary: vs rule: members_loop.induct)
  case (1 i p ts)
  show ?case
  proof (cases "isPunct '','' ts")
    case True
    then obtain q ts1 where ts: "ts = (TPunct '','', q) # ts1" by (cases ts) (auto simp: isPunct_def)
    then obtain us where us: "members_loop ts1 = Inr (us, rest)" "vs = IntV i # us" using 1(2) by auto
    obtain pre u us' where pre: "us = u # us'" "ts1 = pre @ rest" "map fst pre = join_toks (map (\<lambda>v. [lit_tok v]) us)"
      using "1.IH" [OF ts refl refl refl us(1)] by (cases us) auto
    then show ?thesis using us ts by (intro conjI exI [of _ "(TInt i, p) # (TPunct '','', q) # pre"]) auto
  next
    case False
    then have "vs = [IntV i] \<and> rest = ts" using 1(2) by (auto simp: isPunct_def split: list.splits prod.splits tok.splits if_splits)
    then show ?thesis by (intro conjI exI [of _ "[(TInt i, p)]"]) auto
  qed
next
  case (2 s p ts)
  show ?case
  proof (cases "isPunct '','' ts")
    case True
    then obtain q ts1 where ts: "ts = (TPunct '','', q) # ts1" by (cases ts) (auto simp: isPunct_def)
    then obtain us where us: "members_loop ts1 = Inr (us, rest)" "vs = StrV s # us" using 2(2) by auto
    obtain pre u us' where pre: "us = u # us'" "ts1 = pre @ rest" "map fst pre = join_toks (map (\<lambda>v. [lit_tok v]) us)"
      using "2.IH" [OF ts refl refl refl us(1)] by (cases us) auto
    then show ?thesis using us ts by (intro conjI exI [of _ "(TString s, p) # (TPunct '','', q) # pre"]) auto
  next
    case False
    then have "vs = [StrV s] \<and> rest = ts" using 2(2) by (auto simp: isPunct_def split: list.splits prod.splits tok.splits if_splits)
    then show ?thesis by (intro conjI exI [of _ "[(TString s, p)]"]) auto
  qed
qed auto

lemma members_loop_complete:
  "vs \<noteq> [] \<Longrightarrow> map fst pre = join_toks (map (\<lambda>v. [lit_tok v]) vs) \<Longrightarrow> \<not> isPunct '','' rest \<Longrightarrow>
     members_loop (pre @ rest) = Inr (vs, rest)"
proof (induction vs arbitrary: pre)
  case (Cons v vs)
  show ?case
  proof (cases vs)
    case Nil
    then obtain p where "pre = [(lit_tok v, p)]" using Cons.prems(2) by auto
    then show ?thesis using Nil Cons.prems(3)
      by (cases v; cases rest) (auto simp: isPunct_def split: prod.splits tok.splits)
  next
    case (Cons w ws)
    then obtain p q pre' where pre: "pre = (lit_tok v, p) # (TPunct '','', q) # pre'"
        "map fst pre' = join_toks (map (\<lambda>v. [lit_tok v]) vs)"
      using Cons.prems(2) by auto
    then show ?thesis using Cons.IH [OF _ pre(2) Cons.prems(3)] Cons by (cases v) auto
  qed
qed simp

lemma expectPunct_iff: "expectPunct c ts = Inr ts' \<longleftrightarrow> (\<exists>q. ts = (TPunct c, q) # ts')"
  by (cases ts) (auto simp: expectPunct_def isPunct_def advance_def)

lemma parse_range_iff:
  "parse_range ts = Inr (vs, rest) \<longleftrightarrow>
     (\<exists>lower upper q1 q2 q3 q4. lower \<le> upper \<and> vs = map IntV [lower..upper] \<and>
        ts = (TInt lower, q1) # (TPunct ''..'', q2) # (TInt upper, q3) # (TPunct '']'', q4) # rest)"
  (is "?run \<longleftrightarrow> ?shape")
proof
  assume run: ?run
  then obtain lower q1 ts1 where 1: "ts = (TInt lower, q1) # ts1"
    by (auto simp: parse_range_def split: list.splits prod.splits tok.splits)
  then obtain q2 ts2 where 2: "ts1 = (TPunct ''..'', q2) # ts2"
    using run by (auto simp: parse_range_def expectPunct_iff)
  then obtain upper q3 ts3 where 3: "ts2 = (TInt upper, q3) # ts3"
    using run 1 by (auto simp: parse_range_def expectPunct_iff split: list.splits prod.splits tok.splits)
  then obtain q4 where 4: "ts3 = (TPunct '']'', q4) # rest" "lower \<le> upper" "vs = map IntV [lower..upper]"
    using run 1 2 by (auto simp: parse_range_def expectPunct_iff split: if_splits)
  show ?shape using 1 2 3 4 by blast
next
  assume ?shape
  then show ?run by (auto simp: parse_range_def expectPunct_def isPunct_def advance_def)
qed

section \<open>Members behind identifiers\<close>

text \<open>The lexer takes a dot for an identifier character. A member access whose receiver's text ends in an identifier
  therefore prints as one dotted identifier; \<open>fuse\<close> is the tree of that text.\<close>

fun fuse_member :: "string \<Rightarrow> expr \<Rightarrow> expr list \<Rightarrow> expr" where
  "fuse_member n (Ident m) [] = Ident (m @ ''.'' @ n)"
| "fuse_member n (Ident m) (a # as) = Call (m @ ''.'' @ n) (a # as)"
| "fuse_member n (MemberCall m r []) args = MemberCall (m @ ''.'' @ n) r args"
| "fuse_member n r args = MemberCall n r args"

fun fuse :: "expr \<Rightarrow> expr" where
  "fuse (Call n args) = Call n (map fuse args)"
| "fuse (MemberCall n r args) = fuse_member n (fuse r) (map fuse args)"
| "fuse (Unary n e) = Unary n (fuse e)"
| "fuse (Binary n l r) = Binary n (fuse l) (fuse r)"
| "fuse (Quantifier n v d b) = Quantifier n v (fuse d) (fuse b)"
| "fuse e = e"

lemma name_ok_dotted: "name_ok m \<Longrightarrow> name_ok n \<Longrightarrow> name_ok (m @ ''.'' @ n)"
  by (auto simp: name_ok_def isIdentifierStart_def isIdentifierChar_def split: list.splits)

lemma word_ok_dotted: "name_ok m \<Longrightarrow> name_ok n \<Longrightarrow> word_ok (m @ ''.'' @ n)"
  unfolding word_ok_def using name_ok_dotted [of m n]
  by (auto dest!: arg_cong [of _ _ "\<lambda>s. CHR ''.'' \<in> set s"])

lemma fuse_member_facts:
  assumes "name_ok n" "wf_expr r" "member_safe r" "\<forall>a \<in> set args. wf_expr a \<and> member_safe a"
  shows "wf_expr (fuse_member n r args)" "member_safe (fuse_member n r args)"
    "printExpr (fuse_member n r args) = printExpr (MemberCall n r args)"
  using assms
proof (atomize (full), induction n r args rule: fuse_member.induct)
  case (1 n m)
  then show ?case by (simp add: word_ok_dotted [simplified] word_ok_def [of m])
next
  case (2 n m a as)
  then show ?case by (simp add: word_ok_dotted [simplified] word_ok_def [of m])
next
  case (3 n m r args)
  then show ?case by (simp add: name_ok_dotted [simplified])
qed simp_all

lemma fuse_facts:
  assumes "wf_expr e"
  shows "wf_expr (fuse e) \<and> member_safe (fuse e) \<and> printExpr (fuse e) = printExpr e \<and>
    (isCompoundExpr (fuse e) \<longleftrightarrow> isCompoundExpr e)"
  using assms
proof (induction e rule: fuse.induct)
  case (1 n args)
  then have "map printExpr (map fuse args) = map printExpr args" by simp
  then show ?case using 1 by (simp del: map_map)
next
  case (2 n r args)
  then have args: "map printExpr (map fuse args) = map printExpr args" by simp
  have "isCompoundExpr (fuse_member n (fuse r) (map fuse args)) = False"
    by (cases "(n, fuse r, map fuse args)" rule: fuse_member.cases) simp_all
  then show ?case using 2 args fuse_member_facts [of n "fuse r" "map fuse args"] by (simp del: map_map)
qed simp_all

lemma fuse_fixed: "fuse e = e \<longleftrightarrow> member_safe e" if "wf_expr e"
proof
  show "member_safe e" if "fuse e = e" using that fuse_facts [OF \<open>wf_expr e\<close>] by metis
  show "fuse e = e" if "member_safe e" using that
  proof (induction e rule: fuse.induct)
    case (2 n r args)
    then show ?case by (cases "(n, r, args)" rule: fuse_member.cases) (simp_all add: map_idI)
  qed (simp_all add: map_idI)
qed

section \<open>Properties\<close>

text \<open>C21: What parsing makes of a printed expression. The text of every well-formed expression lexes, and parsing the
  whole token list leaves nothing over and gives the expression in which each member access whose receiver's text ends
  in an identifier is fused with it into a dotted name. So the same expression comes back exactly when it has no such
  member access.\<close>

theorem print_parse_roundtrip:
  assumes "wf_expr e"
  shows "(\<exists>ts p. lexLlkMap (printExpr e) = Inr (ts, p) \<and> parseExpression ts = Inr (fuse e, [])) \<and>
    (fuse e = e \<longleftrightarrow> member_safe e)"
  using print_parse [of "fuse e"] fuse_facts [OF assms] fuse_fixed [OF assms] by simp

definition sample_rule :: expr where
  "sample_rule = Quantifier ''forall'' ''w'' (Call ''instances'' [StringLit ''WG''])
     (Binary ''<='' (Binary ''*'' (Ident ''tile'') (Unary ''-'' (IntLit 2)))
       (MemberCall ''extent'' (Call ''peer'' [Ident ''w'', IntLit 1]) [IntLit 0]))"

lemma print_parse_roundtrip_witness:
  "(\<exists>ts p. lexLlkMap (printExpr sample_rule) = Inr (ts, p) \<and> parseExpression ts = Inr (sample_rule, [])) \<and>
   (\<exists>ts p. lexLlkMap ''x.count'' = Inr (ts, p) \<and> parseExpression ts = Inr (Ident ''x.count'', []))"
proof -
  have "wf_expr sample_rule" "member_safe sample_rule" "wf_expr (MemberCall ''count'' (Ident ''x'') [])"
    by (simp_all add: sample_rule_def word_ok_def name_ok_def isIdentifierStart_def isIdentifierChar_def
      is_alpha_def is_digit_def binary_ops_def int64_max_def)
  moreover have "printExpr (MemberCall ''count'' (Ident ''x'') []) = ''x.count''"
    "fuse (MemberCall ''count'' (Ident ''x'') []) = Ident ''x.count''" by code_simp+
  ultimately show ?thesis
    using print_parse_roundtrip [of sample_rule] print_parse_roundtrip [of "MemberCall ''count'' (Ident ''x'') []"] by metis
qed

text \<open>Parsing a text, printing the tree and parsing that text again is stable: if a source text lexes
  and parses completely, the tree is well formed, and (when no member access stands behind an
  identifier) the printed tree lexes and parses to the very same tree.\<close>

theorem parse_print_stable:
  assumes "lexLlkMap src = Inr (ts, p)" "parseExpression ts = Inr (e, rest)"
  shows "wf_expr e \<and> (member_safe e \<longrightarrow>
    (\<exists>ts' p'. lexLlkMap (printExpr e) = Inr (ts', p') \<and> parseExpression ts' = Inr (e, [])))"
proof -
  have "toks_ok ts" using lex_tokens_ok assms(1) by (fastforce simp: lexLlkMap_def toks_ok_def)
  then have "wf_expr e" using buildsD [OF parseExpression_builds assms(2)] by blast
  then show ?thesis using print_parse by blast
qed

lemma parse_print_stable_witness:
  "wf_expr (Binary ''+'' (Ident ''a'') (Binary ''*'' (IntLit 2) (Ident ''b'')))"
proof -
  let ?e = "Binary ''+'' (Ident ''a'') (Binary ''*'' (IntLit 2) (Ident ''b''))"
  have "wf_expr ?e" "member_safe ?e"
    by (simp_all add: word_ok_def name_ok_def isIdentifierStart_def isIdentifierChar_def
      is_alpha_def is_digit_def binary_ops_def int64_max_def)
  then obtain ts p where "lexLlkMap (printExpr ?e) = Inr (ts, p)" "parseExpression ts = Inr (?e, [])"
    using print_parse by blast
  then show ?thesis using parse_print_stable by blast
qed

text \<open>C36: the expression parser always ends. On every token list no loop of the grammar runs without
  consuming (the model's only way to get stuck is unreachable), a parsed expression consumes at least
  one token, and at the end of the input the parser reports a missing expression.\<close>

theorem parser_terminates:
  "parseExpression ts \<noteq> Inl Stuck \<and>
   (\<forall>e rest. parseExpression ts = Inr (e, rest) \<longrightarrow> length rest < length ts)"
  using parseExpression_progress progressesI by (auto simp: progresses_def)

lemma parser_terminates_witness:
  "\<exists>e rest. parseExpression [(TIdent ''a'', (1, 1)), (TPunct '')'', (1, 2))] = Inr (e, rest) \<and> length rest < 2"
proof -
  let ?ts = "[(TIdent ''a'', (1, 1)), (TPunct '')'', (1, 2))] :: cursor"
  have "postfix_ok (Ident ''a'')"
    by (intro wf_postfix_ok) (simp add: word_ok_def name_ok_def isIdentifierStart_def isIdentifierChar_def is_alpha_def is_digit_def)
  then have "parseExpression ?ts = Inr (Ident ''a'', [(TPunct '')'', (1, 2))])"
    using expression_ok [of "Ident ''a''" "[(TIdent ''a'', (1, 1))]" "[(TPunct '')'', (1, 2))]"] by simp
  then show ?thesis using parser_terminates [of ?ts] by auto
qed

text \<open>What a domain denotes. The domain parser accepts exactly an inclusive integer range with a
  nonempty interval, which gives every integer of the interval in order, and a nonempty brace list of
  literals, which gives the literals as written; it consumes exactly those tokens.\<close>

theorem domain_values_exact:
  "parseDomainValues ts = Inr (vs, rest) \<longleftrightarrow>
   (\<exists>pre. ts = pre @ rest \<and>
     ((\<exists>lower upper. lower \<le> upper \<and> vs = map IntV [lower..upper] \<and>
         map fst pre = [TPunct ''['', TInt lower, TPunct ''..'', TInt upper, TPunct '']'']) \<or>
      (vs \<noteq> [] \<and> map fst pre = TPunct ''{'' # join_toks (map (\<lambda>v. [lit_tok v]) vs) @ [TPunct ''}''])))"
  (is "?run \<longleftrightarrow> (\<exists>pre. ts = pre @ rest \<and> (?range pre \<or> ?list pre))")
proof
  assume ?run
  show "\<exists>pre. ts = pre @ rest \<and> (?range pre \<or> ?list pre)"
  proof (cases "isPunct ''['' ts")
    case True
    then obtain q0 us where us: "ts = (TPunct ''['', q0) # us" by (cases ts) auto
    then have "parse_range us = Inr (vs, rest)" using \<open>?run\<close> by (simp add: parseDomainValues_def advance_def)
    then obtain q1 q2 q3 q4 lower upper where
        "us = (TInt lower, q1) # (TPunct ''..'', q2) # (TInt upper, q3) # (TPunct '']'', q4) # rest"
        "lower \<le> upper" "vs = map IntV [lower..upper]"
      unfolding parse_range_iff by blast
    then show ?thesis using us
      by (intro exI [of _ "[(TPunct ''['', q0), (TInt lower, q1), (TPunct ''..'', q2), (TInt upper, q3), (TPunct '']'', q4)]"] conjI disjI1) auto
  next
    case False
    then obtain q0 us where us: "ts = (TPunct ''{'', q0) # us"
      using \<open>?run\<close> by (cases ts) (auto simp: parseDomainValues_def split: if_splits)
    then obtain ts2 q where run: "members_loop us = Inr (vs, ts2)" "ts2 = (TPunct ''}'', q) # rest"
      using \<open>?run\<close> by (auto simp: parseDomainValues_def expectPunct_iff advance_def)
    obtain pre where pre: "vs \<noteq> []" "us = pre @ ts2" "map fst pre = join_toks (map (\<lambda>v. [lit_tok v]) vs)"
      using members_loop_sound [OF run(1)] by blast
    then show ?thesis using us run(2)
      by (intro exI [of _ "(TPunct ''{'', q0) # pre @ [(TPunct ''}'', q)]"] conjI disjI2) simp_all
  qed
next
  assume "\<exists>pre. ts = pre @ rest \<and> (?range pre \<or> ?list pre)"
  then obtain pre where pre: "ts = pre @ rest" "?range pre \<or> ?list pre" by (elim exE conjE)
  from pre(2) show ?run
  proof
    assume "?range pre"
    then obtain lower upper where "lower \<le> upper" "vs = map IntV [lower..upper]"
        "map fst pre = [TPunct ''['', TInt lower, TPunct ''..'', TInt upper, TPunct '']'']" by (elim exE conjE)
    then show ?run using pre(1)
      by (auto simp: parseDomainValues_def parse_range_iff advance_def map_eq_Cons_conv)
  next
    assume list: "?list pre"
    then obtain q0 q mid where "pre = (TPunct ''{'', q0) # mid @ [(TPunct ''}'', q)]"
        "map fst mid = join_toks (map (\<lambda>v. [lit_tok v]) vs)"
      by (auto simp: map_eq_Cons_conv map_eq_append_conv)
    then show ?run using pre(1) list members_loop_complete [of vs mid "(TPunct ''}'', q) # rest"]
      by (auto simp: parseDomainValues_def advance_def expectPunct_def)
  qed
qed

text \<open>The exception the round trip makes: printing a member access on an identifier gives a text that
  lexes as one dotted identifier, so the member access is lost.\<close>

lemma member_on_identifier_is_lost:
  "\<exists>ts p. lexLlkMap (printExpr (MemberCall ''count'' (Ident ''x'') [])) = Inr (ts, p) \<and>
     parseExpression ts = Inr (Ident ''x.count'', [])"
proof -
  have "wf_expr (Ident ''x.count'')" "member_safe (Ident ''x.count'')"
    by (simp_all add: word_ok_def name_ok_def isIdentifierStart_def isIdentifierChar_def is_alpha_def is_digit_def)
  then have "\<exists>ts p. lexLlkMap (printExpr (Ident ''x.count'')) = Inr (ts, p) \<and> parseExpression ts = Inr (Ident ''x.count'', [])"
    by (rule print_parse)
  then show ?thesis by simp
qed

end
