(* ===== verification/ThreadPoolRt.thy ===== *)
theory ThreadPoolRt
  imports Prelude "HOL-Library.Multiset"
begin

text \<open>
  The worker pool of \<^verbatim>\<open>runtime/ThreadPool.cpp\<close>. Every thread is a program counter; a step of a thread is
  a function, and the scheduler picks which thread steps. Code under the mutex is one step, an atomic
  operation is one step, and waiting on a condition variable puts a thread to sleep until it is notified.
  The log records the callbacks of the current \<^verbatim>\<open>parallelFor\<close>. The lemmas show that a call runs every
  tile exactly once and that no wakeup is lost: every run of the threads ends with the caller returned.
\<close>

section \<open>State\<close>

datatype worker_pc =
    LoopTest        \<comment> \<open>at the test of \<^verbatim>\<open>running_\<close>\<close>
  | AtWait          \<comment> \<open>about to test the wait predicate under the mutex\<close>
  | Asleep          \<comment> \<open>blocked in \<^verbatim>\<open>cv_work_.wait\<close>\<close>
  | Grab            \<comment> \<open>at \<^verbatim>\<open>next_tile_.fetch_add\<close>\<close>
  | Exec int int    \<comment> \<open>at the callback of the next tile, with the end of the claimed range\<close>
  | Signal          \<comment> \<open>about to set \<^verbatim>\<open>worker_done_\<close> under the mutex\<close>
  | Exited

record worker =
  wpc :: worker_pc
  wrunning :: bool
  wdone :: bool

datatype caller_pc =
    Idle | Publish | NotifyWork | CGrab | CExec int int | CWait | CAsleep
  | NotifyStop | Joining | Destroyed

record pool =
  workers :: "worker list"
  caller :: caller_pc
  next_tile :: int
  total_tiles :: int
  grain_size :: int
  has_callback :: bool
  log :: "(int \<times> int) list"

text \<open>The constructor: at least one worker, all running, none done.\<close>

definition new_pool :: "int \<Rightarrow> pool" where
  "new_pool num_threads =
     \<lparr>workers = replicate (if num_threads < 1 then 1 else nat num_threads)
        \<lparr>wpc = LoopTest, wrunning = True, wdone = False\<rparr>,
      caller = Idle, next_tile = 0, total_tiles = 0, grain_size = 0, has_callback = False, log = []\<rparr>"

section \<open>Steps\<close>

text \<open>\<^verbatim>\<open>fetch_add\<close> on an atomic \<^verbatim>\<open>int64_t\<close> wraps.\<close>

definition wrap_int64 :: "int \<Rightarrow> int" where
  "wrap_int64 v = (v + 9223372036854775808) mod 18446744073709551616 - 9223372036854775808"

definition claim_tiles :: "pool \<Rightarrow> (int \<times> int) option \<times> pool" where
  "claim_tiles s =
     (let start = next_tile s in
       (if start \<ge> total_tiles s then None else Some (start, min (start + grain_size s) (total_tiles s)),
        s\<lparr>next_tile := wrap_int64 (start + grain_size s)\<rparr>))"

definition set_worker :: "nat \<Rightarrow> worker \<Rightarrow> pool \<Rightarrow> pool" where
  "set_worker i w s = s\<lparr>workers := (workers s)[i := w]\<rparr>"

definition worker_step :: "nat \<Rightarrow> pool \<Rightarrow> pool option" where
  "worker_step i s =
     (let w = workers s ! i in
      case wpc w of
        LoopTest \<Rightarrow> Some (set_worker i (w\<lparr>wpc := if wrunning w then AtWait else Exited\<rparr>) s)
      | AtWait \<Rightarrow>
          Some (set_worker i
            (w\<lparr>wpc := if \<not> wrunning w then Exited
                      else if has_callback s \<and> \<not> wdone w then Grab else Asleep\<rparr>) s)
      | Asleep \<Rightarrow> None
      | Grab \<Rightarrow>
          (case claim_tiles s of
             (None, s') \<Rightarrow> Some (set_worker i (w\<lparr>wpc := Signal\<rparr>) s')
           | (Some (t, e), s') \<Rightarrow> Some (set_worker i (w\<lparr>wpc := Exec t e\<rparr>) s'))
      | Exec t e \<Rightarrow>
          Some (set_worker i (w\<lparr>wpc := if t + 1 < e then Exec (t + 1) e else Grab\<rparr>)
            (s\<lparr>log := log s @ [(t, int i)]\<rparr>))
      | Signal \<Rightarrow>
          Some (set_worker i (w\<lparr>wpc := LoopTest, wdone := True\<rparr>)
            (s\<lparr>caller := if caller s = CAsleep then CWait else caller s\<rparr>))
      | Exited \<Rightarrow> None)"

definition wake :: "worker \<Rightarrow> worker" where
  "wake w = (if wpc w = Asleep then w\<lparr>wpc := AtWait\<rparr> else w)"

text \<open>The caller inside \<^verbatim>\<open>parallelFor\<close> and inside the destructor. \<open>Idle\<close> is outside both.\<close>

definition caller_step :: "pool \<Rightarrow> pool option" where
  "caller_step s =
     (case caller s of
        Idle \<Rightarrow> None
      | Publish \<Rightarrow>
          Some (s\<lparr>workers := map (\<lambda>w. w\<lparr>wdone := False\<rparr>) (workers s), has_callback := True, caller := NotifyWork\<rparr>)
      | NotifyWork \<Rightarrow> Some (s\<lparr>workers := map wake (workers s), caller := CGrab\<rparr>)
      | CGrab \<Rightarrow>
          (case claim_tiles s of
             (None, s') \<Rightarrow> Some (s'\<lparr>caller := CWait\<rparr>)
           | (Some (t, e), s') \<Rightarrow> Some (s'\<lparr>caller := CExec t e\<rparr>))
      | CExec t e \<Rightarrow>
          Some (s\<lparr>log := log s @ [(t, - 1)], caller := if t + 1 < e then CExec (t + 1) e else CGrab\<rparr>)
      | CWait \<Rightarrow>
          if \<forall>w \<in> set (workers s). wdone w then Some (s\<lparr>has_callback := False, caller := Idle\<rparr>)
          else Some (s\<lparr>caller := CAsleep\<rparr>)
      | CAsleep \<Rightarrow> None
      | NotifyStop \<Rightarrow> Some (s\<lparr>workers := map wake (workers s), caller := Joining\<rparr>)
      | Joining \<Rightarrow> if \<forall>w \<in> set (workers s). wpc w = Exited then Some (s\<lparr>caller := Destroyed\<rparr>) else None
      | Destroyed \<Rightarrow> None)"

text \<open>Entering \<^verbatim>\<open>parallelFor\<close> (which returns at once without tiles) and the destructor's locked part.\<close>

definition parallelFor :: "int \<Rightarrow> int \<Rightarrow> pool \<Rightarrow> pool" where
  "parallelFor tiles grain s =
     (if tiles \<le> 0 then s
      else s\<lparr>total_tiles := tiles, grain_size := max 1 grain, next_tile := 0, log := [], caller := Publish\<rparr>)"

definition destroy :: "pool \<Rightarrow> pool" where
  "destroy s = s\<lparr>workers := map (\<lambda>w. w\<lparr>wrunning := False\<rparr>) (workers s), caller := NotifyStop\<rparr>"

text \<open>A condition variable may wake a sleeper for no reason.\<close>

definition spurious_worker :: "nat \<Rightarrow> pool \<Rightarrow> pool" where
  "spurious_worker i s = set_worker i (wake (workers s ! i)) s"

definition spurious_caller :: "pool \<Rightarrow> pool" where
  "spurious_caller s = s\<lparr>caller := if caller s = CAsleep then CWait else caller s\<rparr>"

inductive thread_step :: "pool \<Rightarrow> pool \<Rightarrow> bool" where
  worker: "i < length (workers s) \<Longrightarrow> worker_step i s = Some s' \<Longrightarrow> thread_step s s'"
| caller: "caller_step s = Some s' \<Longrightarrow> thread_step s s'"

text \<open>Calls whose tile counter cannot wrap: every participant overshoots once.\<close>

definition fits :: "nat \<Rightarrow> int \<Rightarrow> int \<Rightarrow> bool" where
  "fits n tiles grain \<longleftrightarrow> tiles - 1 + max 1 grain * (int n + 2) \<le> int64_max"

inductive reachable :: "int \<Rightarrow> pool \<Rightarrow> bool" for n where
  start: "reachable n (new_pool n)"
| step: "reachable n s \<Longrightarrow> thread_step s s' \<Longrightarrow> reachable n s'"
| call: "reachable n s \<Longrightarrow> caller s = Idle \<Longrightarrow> fits (length (workers s)) tiles grain \<Longrightarrow>
    reachable n (parallelFor tiles grain s)"
| destroy: "reachable n s \<Longrightarrow> caller s = Idle \<Longrightarrow> reachable n (destroy s)"
| spurious_worker: "reachable n s \<Longrightarrow> i < length (workers s) \<Longrightarrow> reachable n (spurious_worker i s)"
| spurious_caller: "reachable n s \<Longrightarrow> reachable n (spurious_caller s)"

inductive_cases thread_stepE: "thread_step s s'"


section \<open>The invariant\<close>

fun in_call :: "caller_pc \<Rightarrow> bool" where
  "in_call (CExec t e) = True"
| "in_call c = (c = NotifyWork \<or> c = CGrab \<or> c = CWait \<or> c = CAsleep)"

definition stopping :: "caller_pc \<Rightarrow> bool" where
  "stopping c \<longleftrightarrow> c = NotifyStop \<or> c = Joining \<or> c = Destroyed"

fun busy :: "worker_pc \<Rightarrow> bool" where
  "busy Grab = True"
| "busy (Exec t e) = True"
| "busy Signal = True"
| "busy _ = False"

definition finished :: "worker \<Rightarrow> bool" where
  "finished w \<longleftrightarrow> wdone w \<or> wpc w = Signal"

fun claimed :: "worker_pc \<Rightarrow> int multiset" where
  "claimed (Exec t e) = mset [t..e - 1]"
| "claimed _ = {#}"

fun caller_claimed :: "caller_pc \<Rightarrow> int multiset" where
  "caller_claimed (CExec t e) = mset [t..e - 1]"
| "caller_claimed _ = {#}"

definition past_tiles :: "caller_pc \<Rightarrow> bool" where
  "past_tiles c \<longleftrightarrow> c = CWait \<or> c = CAsleep"

definition worker_ok :: "pool \<Rightarrow> worker \<Rightarrow> bool" where
  "worker_ok s w \<longleftrightarrow>
     (busy (wpc w) \<longrightarrow> in_call (caller s) \<and> \<not> wdone w) \<and>
     (wrunning w \<longleftrightarrow> \<not> stopping (caller s)) \<and>
     (wpc w = Exited \<longrightarrow> \<not> wrunning w) \<and>
     (wpc w = Asleep \<longrightarrow> caller s = NotifyWork \<or> caller s = NotifyStop \<or>
        (wrunning w \<and> (\<not> has_callback s \<or> wdone w))) \<and>
     (\<forall>t e. wpc w = Exec t e \<longrightarrow> t < e) \<and>
     (in_call (caller s) \<and> finished w \<longrightarrow> total_tiles s \<le> next_tile s)"

definition control_inv :: "pool \<Rightarrow> bool" where
  "control_inv s \<longleftrightarrow>
     (\<forall>w \<in> set (workers s). worker_ok s w) \<and>
     (has_callback s \<longleftrightarrow> in_call (caller s)) \<and>
     (caller s = CAsleep \<longrightarrow> (\<exists>w \<in> set (workers s). \<not> wdone w)) \<and>
     (\<forall>t e. caller s = CExec t e \<longrightarrow> t < e) \<and>
     (past_tiles (caller s) \<longrightarrow> total_tiles s \<le> next_tile s) \<and>
     (caller s = Publish \<longrightarrow> next_tile s = 0 \<and> log s = [])"

definition overshoots :: "pool \<Rightarrow> nat" where
  "overshoots s = (if past_tiles (caller s) then 1 else 0)
     + sum_list (map (\<lambda>w. if finished w then 1 else 0) (workers s))"

definition count_inv :: "pool \<Rightarrow> bool" where
  "count_inv s \<longleftrightarrow> (caller s = Publish \<or> in_call (caller s) \<longrightarrow>
     1 \<le> grain_size s \<and> fits (length (workers s)) (total_tiles s) (grain_size s) \<and> 1 \<le> total_tiles s \<and>
     (in_call (caller s) \<longrightarrow> 0 \<le> next_tile s \<and>
       next_tile s \<le> total_tiles s - 1 + grain_size s * (1 + int (overshoots s))))"

definition pending :: "pool \<Rightarrow> int multiset" where
  "pending s = caller_claimed (caller s) + sum_list (map (\<lambda>w. claimed (wpc w)) (workers s))"

definition tiles_inv :: "pool \<Rightarrow> bool" where
  "tiles_inv s \<longleftrightarrow> (in_call (caller s) \<longrightarrow>
     mset (map fst (log s)) + pending s = mset [0..min (next_tile s) (total_tiles s) - 1] \<and>
     (\<forall>(t, w) \<in> set (log s). - 1 \<le> w \<and> w < int (length (workers s))))"

lemma sum_list_update_add:
  fixes f :: "'a \<Rightarrow> 'b::comm_monoid_add"
  shows "i < length xs \<Longrightarrow> sum_list (map f (xs[i := y])) + f (xs ! i) = sum_list (map f xs) + f y"
  by (induction xs arbitrary: i) (auto simp: nth_Cons ac_simps split: nat.splits)

lemma sum_list_update_same:
  "i < length xs \<Longrightarrow> f y = f (xs ! i) \<Longrightarrow> sum_list (map f (xs[i := y])) = sum_list (map f xs)"
  using list_update_id [of "map f xs" i] by (simp add: map_update del: list_update_id)

lemma wrap_int64_id: "0 \<le> v \<Longrightarrow> v \<le> int64_max \<Longrightarrow> wrap_int64 v = v"
  by (simp add: wrap_int64_def int64_max_def)

lemma finished_bound: "sum_list (map (\<lambda>w. if finished w then 1 else 0) ws) \<le> length ws"
  by (induction ws) auto

lemma finished_strict:
  "w \<in> set ws \<Longrightarrow> \<not> finished w \<Longrightarrow> sum_list (map (\<lambda>w. if finished w then 1 else (0::nat)) ws) < length ws"
proof (induction ws)
  case (Cons v ws)
  then show ?case using finished_bound [of ws] by auto
qed simp

text \<open>A claim by a participant that has not overshot yet does not wrap.\<close>

lemma claim_exact:
  assumes "count_inv s" "in_call (caller s)" "overshoots s \<le> length (workers s)"
  shows "wrap_int64 (next_tile s + grain_size s) = next_tile s + grain_size s" "1 \<le> grain_size s" "0 \<le> next_tile s"
proof -
  let ?n = "int (length (workers s))"
  have inv: "1 \<le> grain_size s" "0 \<le> next_tile s" "fits (length (workers s)) (total_tiles s) (grain_size s)"
      "next_tile s \<le> total_tiles s - 1 + grain_size s * (1 + int (overshoots s))"
    using assms(1,2) by (auto simp: count_inv_def)
  have "grain_size s * (1 + int (overshoots s)) \<le> grain_size s * (1 + ?n)"
    using inv(1) assms(3) by (intro mult_left_mono) auto
  moreover have "total_tiles s - 1 + grain_size s * (?n + 2) \<le> int64_max"
    using inv(1,3) by (simp add: fits_def)
  ultimately have "next_tile s + grain_size s \<le> int64_max" using inv(4) by (simp add: algebra_simps)
  then show "wrap_int64 (next_tile s + grain_size s) = next_tile s + grain_size s"
    using inv(1,2) by (intro wrap_int64_id) auto
qed (use assms in \<open>auto simp: count_inv_def\<close>)

lemma range_split: "a \<le> b \<Longrightarrow> b \<le> c \<Longrightarrow> mset [a..c - 1] = mset [a..b - 1] + mset [b..c - (1::int)]"
proof -
  assume "a \<le> b" "b \<le> c"
  then have "[a..c - 1] = [a..b - 1] @ [b..c - 1]" using upto_split1 [of a b "c - 1"] by (cases "b = c") auto
  then show ?thesis by simp
qed

lemma range_first: "t < e \<Longrightarrow> mset [t..e - 1] = {#t#} + mset [t + 1..e - (1::int)]"
  by (subst upto_rec1) auto


section \<open>Control is preserved\<close>

lemma in_call_simps [simp]: "in_call CWait" "in_call CAsleep" "in_call CGrab" "in_call NotifyWork"
    "\<not> in_call Publish" "\<not> in_call Idle" "\<not> in_call NotifyStop" "\<not> in_call Joining" "\<not> in_call Destroyed"
  by simp_all

lemma all_list_update: "\<forall>x \<in> set xs. P x \<Longrightarrow> P y \<Longrightarrow> \<forall>x \<in> set (xs[i := y]). P x"
  using set_update_subset_insert [of xs i y] by blast

lemma in_call_not_stopping: "in_call c \<Longrightarrow> \<not> stopping c"
  by (cases c) (auto simp: stopping_def)

lemma control_worker: "control_inv s \<Longrightarrow> i < length (workers s) \<Longrightarrow> worker_ok s (workers s ! i)"
  by (auto simp: control_inv_def)

lemma worker_ok_later:
  "worker_ok s w \<Longrightarrow> caller s' = caller s \<Longrightarrow> has_callback s' = has_callback s \<Longrightarrow>
     total_tiles s' = total_tiles s \<Longrightarrow> next_tile s \<le> next_tile s' \<Longrightarrow> worker_ok s' w"
  unfolding worker_ok_def by auto

lemma change_worker:
  assumes "control_inv s" "i < length (workers s)" "workers s' = (workers s)[i := w']" "caller s' = caller s"
    "has_callback s' = has_callback s" "total_tiles s' = total_tiles s" "next_tile s \<le> next_tile s'"
    "worker_ok s' w'" "wdone w' = wdone (workers s ! i)"
    "caller s = Publish \<Longrightarrow> next_tile s' = next_tile s \<and> log s' = log s"
  shows "control_inv s'"
proof -
  have "worker_ok s' w" if "w \<in> set (workers s)" for w
    using worker_ok_later [of s w s'] assms that by (auto simp: control_inv_def)
  then have "\<forall>w \<in> set (workers s'). worker_ok s' w"
    using assms(3,8) set_update_subset_insert [of "workers s" i w'] by auto
  moreover have "\<exists>w \<in> set (workers s'). \<not> wdone w" if asleep: "caller s' = CAsleep"
  proof -
    obtain j where j: "j < length (workers s)" "\<not> wdone (workers s ! j)"
      using assms(1,4) asleep by (auto simp: control_inv_def in_set_conv_nth)
    then have "\<not> wdone (workers s' ! j)" using assms(2,3,9) by (cases "i = j") auto
    then show ?thesis using j assms(3) by (metis length_list_update nth_mem)
  qed
  ultimately show ?thesis using assms(1,4-7,10) by (auto simp: control_inv_def)
qed

lemma claim_next: "count_inv s \<Longrightarrow> in_call (caller s) \<Longrightarrow> overshoots s \<le> length (workers s) \<Longrightarrow>
    claim_tiles s =
      (if total_tiles s \<le> next_tile s then None
       else Some (next_tile s, min (next_tile s + grain_size s) (total_tiles s)),
       s\<lparr>next_tile := next_tile s + grain_size s\<rparr>)"
  using claim_exact by (simp add: claim_tiles_def Let_def)

lemma busy_overshoots:
  assumes "i < length (workers s)" "\<not> finished (workers s ! i)"
  shows "overshoots s \<le> length (workers s)"
  using finished_strict [OF nth_mem [OF assms(1)] assms(2)] by (auto simp: overshoots_def)

lemma caller_overshoots: "\<not> past_tiles (caller s) \<Longrightarrow> overshoots s \<le> length (workers s)"
  using finished_bound [of "workers s"] by (simp add: overshoots_def)

lemma worker_grab:
  assumes "control_inv s" "count_inv s" "i < length (workers s)" "wpc (workers s ! i) = Grab"
  shows "worker_step i s = Some (set_worker i
      ((workers s ! i)\<lparr>wpc := if total_tiles s \<le> next_tile s then Signal
         else Exec (next_tile s) (min (next_tile s + grain_size s) (total_tiles s))\<rparr>)
      (s\<lparr>next_tile := next_tile s + grain_size s\<rparr>))"
    and "in_call (caller s)" "1 \<le> grain_size s" "0 \<le> next_tile s"
proof -
  have ok: "in_call (caller s)" "\<not> finished (workers s ! i)"
    using control_worker [OF assms(1,3)] assms(4) by (auto simp: worker_ok_def finished_def)
  note over = busy_overshoots [OF assms(3) ok(2)]
  show "in_call (caller s)" "1 \<le> grain_size s" "0 \<le> next_tile s"
    using ok claim_exact [OF assms(2) ok(1) over] by auto
  show "worker_step i s = Some (set_worker i
      ((workers s ! i)\<lparr>wpc := if total_tiles s \<le> next_tile s then Signal
         else Exec (next_tile s) (min (next_tile s + grain_size s) (total_tiles s))\<rparr>)
      (s\<lparr>next_tile := next_tile s + grain_size s\<rparr>))"
    using assms(4) claim_next [OF assms(2) ok(1) over] by (simp add: worker_step_def)
qed

lemma caller_grab:
  assumes "count_inv s" "caller s = CGrab"
  shows "caller_step s = Some (s\<lparr>next_tile := next_tile s + grain_size s,
      caller := if total_tiles s \<le> next_tile s then CWait
        else CExec (next_tile s) (min (next_tile s + grain_size s) (total_tiles s))\<rparr>)"
    and "1 \<le> grain_size s" "0 \<le> next_tile s"
proof -
  have over: "in_call (caller s)" "overshoots s \<le> length (workers s)"
    using assms(2) caller_overshoots [of s] by (auto simp: past_tiles_def)
  show "1 \<le> grain_size s" "0 \<le> next_tile s" using claim_exact [OF assms(1) over] by auto
  show "caller_step s = Some (s\<lparr>next_tile := next_tile s + grain_size s,
      caller := if total_tiles s \<le> next_tile s then CWait
        else CExec (next_tile s) (min (next_tile s + grain_size s) (total_tiles s))\<rparr>)"
    using assms(2) claim_next [OF assms(1) over] by (simp add: caller_step_def)
qed

lemma signal_control:
  assumes "control_inv s" "i < length (workers s)" "wpc (workers s ! i) = Signal" "worker_step i s = Some s'"
  shows "control_inv s'"
proof -
  let ?w = "workers s ! i"
  let ?w' = "?w\<lparr>wpc := LoopTest, wdone := True\<rparr>"
  have ok: "worker_ok s ?w" using control_worker [OF assms(1,2)] .
  have s': "s' = s\<lparr>caller := if caller s = CAsleep then CWait else caller s, workers := (workers s)[i := ?w']\<rparr>"
    using assms(3,4) by (auto simp: worker_step_def set_worker_def)
  have call: "in_call (caller s)" "in_call (caller s')" "caller s' \<noteq> CAsleep" "\<not> stopping (caller s)" "\<not> stopping (caller s')"
    using ok assms(3) in_call_not_stopping [of "caller s"] by (auto simp: s' worker_ok_def stopping_def)
  have past: "total_tiles s \<le> next_tile s" using ok assms(3) call(1) by (simp add: worker_ok_def finished_def)
  have "worker_ok s' ?w'" using ok assms(3) call past by (auto simp: s' worker_ok_def)
  moreover have "worker_ok s' w" if "worker_ok s w" for w
    using that call by (auto simp: s' worker_ok_def split: if_splits)
  then have "\<forall>w \<in> set (workers s). worker_ok s' w" using assms(1) by (simp add: control_inv_def)
  moreover have "workers s' = (workers s)[i := ?w']" by (simp add: s')
  ultimately have "\<forall>w \<in> set (workers s'). worker_ok s' w" using all_list_update [of "workers s" "worker_ok s'" ?w' i] by simp
  then show ?thesis using assms(1) call past by (auto simp: control_inv_def s' past_tiles_def)
qed

lemmas change_this = change_worker [where w' = "workers s' ! i" and s' = s' and i = i for s' i]

lemma worker_control:
  assumes "control_inv s" "count_inv s" "i < length (workers s)" "worker_step i s = Some s'"
  shows "control_inv s'"
proof (cases "wpc (workers s ! i)")
  case Signal
  then show ?thesis using signal_control assms by blast
next
  case Grab
  note step = worker_grab [OF assms(1-3) Grab]
  then have s': "s' = set_worker i ((workers s ! i)\<lparr>wpc := if total_tiles s \<le> next_tile s then Signal
         else Exec (next_tile s) (min (next_tile s + grain_size s) (total_tiles s))\<rparr>)
      (s\<lparr>next_tile := next_tile s + grain_size s\<rparr>)" using assms(4) by simp
  show ?thesis using step(2-4) control_worker [OF assms(1,3)] assms(3) Grab
    by (intro change_this [OF assms(1,3)])
      (auto simp: s' set_worker_def worker_ok_def finished_def in_call_not_stopping split: if_splits)
next
  case (Exec t e)
  then have s': "s' = set_worker i ((workers s ! i)\<lparr>wpc := if t + 1 < e then worker_pc.Exec (t + 1) e else Grab\<rparr>)
            (s\<lparr>log := log s @ [(t, int i)]\<rparr>)" using assms(4) by (simp add: worker_step_def Let_def)
  show ?thesis using control_worker [OF assms(1,3)] assms(3) Exec
    by (intro change_this [OF assms(1,3)])
      (auto simp: s' set_worker_def worker_ok_def finished_def split: if_splits)
next
  case AtWait
  then have s': "s' = set_worker i
            ((workers s ! i)\<lparr>wpc := if \<not> wrunning (workers s ! i) then Exited
                      else if has_callback s \<and> \<not> wdone (workers s ! i) then Grab else Asleep\<rparr>) s"
    using assms(4) by (simp add: worker_step_def Let_def)
  have "has_callback s \<longleftrightarrow> in_call (caller s)" using assms(1) by (simp add: control_inv_def)
  then show ?thesis using control_worker [OF assms(1,3)] assms(3) AtWait
    by (intro change_this [OF assms(1,3)])
      (auto simp: s' set_worker_def worker_ok_def finished_def split: if_splits)
next
  case LoopTest
  then have s': "s' = set_worker i ((workers s ! i)\<lparr>wpc := if wrunning (workers s ! i) then AtWait else Exited\<rparr>) s"
    using assms(4) by (simp add: worker_step_def Let_def)
  show ?thesis using control_worker [OF assms(1,3)] assms(3) LoopTest
    by (intro change_this [OF assms(1,3)])
      (auto simp: s' set_worker_def worker_ok_def finished_def split: if_splits)
qed (use assms(4) in \<open>simp_all add: worker_step_def\<close>)

lemma stopping_simps [simp]: "stopping NotifyStop" "stopping Joining" "stopping Destroyed"
    "\<not> stopping Idle" "\<not> stopping Publish" "\<not> stopping NotifyWork" "\<not> stopping CGrab" "\<not> stopping (CExec t e)"
    "\<not> stopping CWait" "\<not> stopping CAsleep"
  by (simp_all add: stopping_def)

lemma past_tiles_simps [simp]: "past_tiles CWait" "past_tiles CAsleep"
    "\<not> past_tiles Idle" "\<not> past_tiles Publish" "\<not> past_tiles NotifyWork" "\<not> past_tiles CGrab"
    "\<not> past_tiles (CExec t e)" "\<not> past_tiles NotifyStop" "\<not> past_tiles Joining" "\<not> past_tiles Destroyed"
  by (simp_all add: past_tiles_def)

lemma wake_simps [simp]: "wdone (wake w) = wdone w" "wrunning (wake w) = wrunning w"
    "wpc (wake w) = (if wpc w = Asleep then AtWait else wpc w)" "finished (wake w) = finished w"
  by (simp_all add: wake_def finished_def)

text \<open>Replacing every worker: the update must keep the workers in order and undone workers undone.\<close>

lemma control_map:
  assumes "\<And>w. worker_ok s w \<Longrightarrow> worker_ok s' (f w)" "control_inv s" "workers s' = map f (workers s)"
  shows "\<forall>w \<in> set (workers s'). worker_ok s' w"
  using assms by (auto simp: control_inv_def)

lemma caller_control:
  assumes "control_inv s" "count_inv s" "caller_step s = Some s'"
  shows "control_inv s'"
proof -
  show ?thesis
  proof (cases "caller s")
    case CGrab
    note step = caller_grab [OF assms(2) CGrab]
    have "\<forall>w \<in> set (workers s'). worker_ok s' w"
      using step CGrab assms(3) by (intro control_map [where f = "\<lambda>w. w", OF _ assms(1)]) (auto simp: worker_ok_def split: if_splits)
    then show ?thesis using assms step CGrab by (auto simp: control_inv_def split: if_splits)
  next
    case Publish
    then have s': "s' = s\<lparr>workers := map (\<lambda>w. w\<lparr>wdone := False\<rparr>) (workers s), has_callback := True, caller := NotifyWork\<rparr>"
      using assms(3) by (simp add: caller_step_def)
    have "\<forall>w \<in> set (workers s'). worker_ok s' w"
      by (rule control_map [where f = "\<lambda>w. w\<lparr>wdone := False\<rparr>", OF _ assms(1)]) (auto simp: s' worker_ok_def Publish finished_def)
    then show ?thesis using assms(1) by (simp add: s' control_inv_def)
  next
    case NotifyWork
    then have s': "s' = s\<lparr>workers := map wake (workers s), caller := CGrab\<rparr>"
      using assms(3) by (simp add: caller_step_def)
    have "\<forall>w \<in> set (workers s'). worker_ok s' w"
      by (rule control_map [where f = wake, OF _ assms(1)]) (auto simp: s' worker_ok_def NotifyWork)
    then show ?thesis using assms(1) by (simp add: s' control_inv_def NotifyWork)
  next
    case (CExec t e)
    then have s': "s' = s\<lparr>log := log s @ [(t, - 1)], caller := if t + 1 < e then caller_pc.CExec (t + 1) e else CGrab\<rparr>"
      using assms(3) by (simp add: caller_step_def)
    have "\<forall>w \<in> set (workers s'). worker_ok s' w"
      by (rule control_map [where f = "\<lambda>w. w", OF _ assms(1)]) (auto simp: s' worker_ok_def CExec split: if_splits)
    then show ?thesis using assms(1) by (auto simp: s' control_inv_def CExec)
  next
    case CWait
    show ?thesis
    proof (cases "\<forall>w \<in> set (workers s). wdone w")
      case True
      then have s': "s' = s\<lparr>has_callback := False, caller := Idle\<rparr>" using assms(3) CWait by (simp add: caller_step_def)
      have "\<forall>w \<in> set (workers s'). worker_ok s' w"
        using assms(1) True by (auto simp: s' worker_ok_def CWait control_inv_def)
      then show ?thesis using assms(1) by (simp add: s' control_inv_def)
    next
      case False
      then have s': "s' = s\<lparr>caller := CAsleep\<rparr>" using assms(3) CWait by (auto simp: caller_step_def split: if_splits)
      have "\<forall>w \<in> set (workers s'). worker_ok s' w"
        by (rule control_map [where f = "\<lambda>w. w", OF _ assms(1)]) (auto simp: s' worker_ok_def CWait)
      then show ?thesis using assms(1) False by (auto simp: s' control_inv_def CWait)
    qed
  next
    case NotifyStop
    then have s': "s' = s\<lparr>workers := map wake (workers s), caller := Joining\<rparr>"
      using assms(3) by (simp add: caller_step_def)
    have "\<forall>w \<in> set (workers s'). worker_ok s' w"
      by (rule control_map [where f = wake, OF _ assms(1)]) (auto simp: s' worker_ok_def NotifyStop)
    then show ?thesis using assms(1) by (simp add: s' control_inv_def NotifyStop)
  next
    case Joining
    then have s': "s' = s\<lparr>caller := Destroyed\<rparr>" using assms(3) by (simp add: caller_step_def split: if_splits)
    have "\<forall>w \<in> set (workers s'). worker_ok s' w"
      by (rule control_map [where f = "\<lambda>w. w", OF _ assms(1)]) (auto simp: s' worker_ok_def Joining)
    then show ?thesis using assms(1) by (simp add: s' control_inv_def Joining)
  qed (use assms(3) in \<open>simp_all add: caller_step_def\<close>)
qed


section \<open>The tile counter and the tiles\<close>

lemma overshoots_update:
  "i < length (workers s) \<Longrightarrow> workers s' = (workers s)[i := w'] \<Longrightarrow> caller s' = caller s \<or> past_tiles (caller s) = past_tiles (caller s') \<Longrightarrow>
     overshoots s' + (if finished (workers s ! i) then 1 else 0) = overshoots s + (if finished w' then 1 else 0)"
  using sum_list_update_add [of i "workers s" "\<lambda>w. if finished w then 1 else (0::nat)" w']
  by (auto simp: overshoots_def)

lemma overshoot_bound_mono:
  fixes x T g :: int
  assumes "(a::nat) \<le> b" "1 \<le> g" "x \<le> T - 1 + g * (1 + int a)"
  shows "x \<le> T - 1 + g * (1 + int b)"
proof -
  have "g * (1 + int a) \<le> g * (1 + int b)" using assms(1,2) by (intro mult_left_mono) auto
  then show ?thesis using assms(3) by linarith
qed

lemma count_later:
  assumes "count_inv s" "length (workers s') = length (workers s)" "total_tiles s' = total_tiles s"
    "grain_size s' = grain_size s" "next_tile s' = next_tile s" "overshoots s \<le> overshoots s'"
    "in_call (caller s') \<longrightarrow> in_call (caller s)" "caller s' = Publish \<longrightarrow> caller s = Publish"
  shows "count_inv s'"
  using assms overshoot_bound_mono [OF assms(6)] by (auto simp: count_inv_def)

lemma count_grab:
  assumes "count_inv s" "length (workers s') = length (workers s)" "total_tiles s' = total_tiles s"
    "grain_size s' = grain_size s" "next_tile s' = next_tile s + grain_size s"
    "overshoots s' = (if total_tiles s \<le> next_tile s then Suc (overshoots s) else overshoots s)"
    "in_call (caller s)" "in_call (caller s')"
  shows "count_inv s'"
proof (cases "total_tiles s \<le> next_tile s")
  case True
  have "caller s' \<noteq> Publish" using assms(8) by auto
  then show ?thesis using assms True by (auto simp: count_inv_def algebra_simps)
next
  case False
  have "1 \<le> grain_size s" "caller s' \<noteq> Publish" using assms(1,7,8) by (auto simp: count_inv_def)
  moreover from this have "next_tile s + grain_size s \<le> total_tiles s - 1 + grain_size s * (1 + int (overshoots s))"
    using False by (intro overshoot_bound_mono [of 0 "overshoots s"]) simp_all
  ultimately show ?thesis using assms False by (auto simp: count_inv_def)
qed

lemma worker_count:
  assumes "control_inv s" "count_inv s" "i < length (workers s)" "worker_step i s = Some s'"
  shows "count_inv s'"
proof (cases "wpc (workers s ! i) = Grab")
  case True
  note step = worker_grab [OF assms(1-3) True]
  have fin: "\<not> finished (workers s ! i)"
    using control_worker [OF assms(1,3)] True by (auto simp: worker_ok_def finished_def)
  show ?thesis
    using step assms(4) True fin overshoots_update [OF assms(3), of s' "workers s' ! i"] assms(3)
    by (intro count_grab [OF assms(2)]) (auto simp: set_worker_def finished_def split: if_splits)
next
  case False
  have ok: "worker_ok s (workers s ! i)" using control_worker [OF assms(1,3)] .
  have eqs: "workers s' = (workers s)[i := workers s' ! i]" "length (workers s') = length (workers s)"
      "total_tiles s' = total_tiles s" "grain_size s' = grain_size s" "next_tile s' = next_tile s"
      "caller s' = (if wpc (workers s ! i) = Signal \<and> caller s = CAsleep then CWait else caller s)"
      "finished (workers s' ! i) = finished (workers s ! i)"
    using assms(3,4) False
    by (auto simp: worker_step_def set_worker_def Let_def finished_def split: worker_pc.splits if_splits)
  have "overshoots s \<le> overshoots s'"
    using overshoots_update [OF assms(3) eqs(1)] eqs(6,7) by (auto split: if_splits)
  then show ?thesis using eqs by (intro count_later [OF assms(2)]) (auto split: if_splits)
qed

lemma caller_count:
  assumes "control_inv s" "count_inv s" "caller_step s = Some s'"
  shows "count_inv s'"
proof (cases "caller s")
  case CGrab
  note step = caller_grab [OF assms(2) CGrab]
  show ?thesis using step assms(3) CGrab
    by (intro count_grab [OF assms(2)]) (auto simp: overshoots_def)
next
  case Publish
  then have s': "s' = s\<lparr>workers := map (\<lambda>w. w\<lparr>wdone := False\<rparr>) (workers s), has_callback := True, caller := NotifyWork\<rparr>"
    using assms(3) by (simp add: caller_step_def)
  have start: "next_tile s = 0" using assms(1) Publish by (simp add: control_inv_def)
  have "1 \<le> grain_size s" "1 \<le> total_tiles s" "fits (length (workers s)) (total_tiles s) (grain_size s)"
    using assms(2) Publish by (auto simp: count_inv_def)
  moreover from this have "0 \<le> grain_size s * (1 + int (overshoots s'))" by (intro mult_nonneg_nonneg) auto
  ultimately show ?thesis using start by (auto simp: count_inv_def s')
next
  case NotifyWork
  then show ?thesis using assms(3)
    by (intro count_later [OF assms(2)]) (auto simp: caller_step_def overshoots_def comp_def)
next
  case (CExec t e)
  then show ?thesis using assms(3)
    by (intro count_later [OF assms(2)]) (auto simp: caller_step_def overshoots_def split: if_splits)
next
  case CWait
  show ?thesis
  proof (cases "\<forall>w \<in> set (workers s). wdone w")
    case True
    then show ?thesis using assms(3) CWait by (auto simp: caller_step_def count_inv_def)
  next
    case False
    then have "s' = s\<lparr>caller := CAsleep\<rparr>" using assms(3) CWait by (auto simp: caller_step_def split: if_splits)
    then show ?thesis using CWait by (intro count_later [OF assms(2)]) (auto simp: overshoots_def)
  qed
qed (use assms(3) in \<open>auto simp: caller_step_def count_inv_def split: if_splits\<close>)

lemma pending_update:
  assumes "i < length (workers s)" "workers s' = (workers s)[i := w']" "caller_claimed (caller s') = caller_claimed (caller s)"
  shows "pending s' + claimed (wpc (workers s ! i)) = pending s + claimed (wpc w')"
  using sum_list_update_add [of i "workers s" "\<lambda>w. claimed (wpc w)" w'] assms
  by (simp add: pending_def ac_simps)

lemma tiles_claimed:
  assumes "tiles_inv s" "in_call (caller s)" "next_tile s' = next_tile s + grain_size s" "total_tiles s' = total_tiles s"
    "1 \<le> grain_size s" "0 \<le> next_tile s" "log s' = log s" "length (workers s') = length (workers s)"
    "pending s' = pending s + (if total_tiles s \<le> next_tile s then {#}
       else mset [next_tile s..min (next_tile s + grain_size s) (total_tiles s) - 1])"
  shows "tiles_inv s'"
proof (cases "total_tiles s \<le> next_tile s")
  case True
  then show ?thesis using assms by (auto simp: tiles_inv_def)
next
  case False
  have "mset [0..min (next_tile s + grain_size s) (total_tiles s) - 1] =
      mset [0..next_tile s - 1] + mset [next_tile s..min (next_tile s + grain_size s) (total_tiles s) - 1]"
    using False assms(5,6) by (intro range_split) auto
  then show ?thesis using assms False by (auto simp: tiles_inv_def)
qed

lemma tiles_executed:
  assumes "tiles_inv s" "in_call (caller s)" "next_tile s' = next_tile s" "total_tiles s' = total_tiles s"
    "log s' = log s @ [(t, v)]" "- 1 \<le> v" "v < int (length (workers s))" "length (workers s') = length (workers s)"
    "pending s' + {#t#} = pending s"
  shows "tiles_inv s'"
proof -
  have "mset (map fst (log s')) + pending s' = mset (map fst (log s)) + pending s"
    unfolding assms(9) [symmetric] using assms(5) by simp
  then have "in_call (caller s') \<Longrightarrow> mset (map fst (log s')) + pending s' = mset [0..min (next_tile s') (total_tiles s') - 1]"
    using assms(1-4) by (simp only: tiles_inv_def)
  then show ?thesis using assms by (auto simp: tiles_inv_def)
qed


lemma worker_tiles:
  assumes "control_inv s" "count_inv s" "tiles_inv s" "i < length (workers s)" "worker_step i s = Some s'"
  shows "tiles_inv s'"
proof (cases "wpc (workers s ! i)")
  case Grab
  note step = worker_grab [OF assms(1,2,4) Grab]
  let ?w' = "(workers s ! i)\<lparr>wpc := if total_tiles s \<le> next_tile s then Signal
         else Exec (next_tile s) (min (next_tile s + grain_size s) (total_tiles s))\<rparr>"
  have s': "s' = set_worker i ?w' (s\<lparr>next_tile := next_tile s + grain_size s\<rparr>)" using step(1) assms(5) by simp
  have "pending s' + claimed Grab = pending s + claimed (wpc ?w')"
    using pending_update [OF assms(4), of s' ?w'] Grab by (simp add: s' set_worker_def)
  then show ?thesis using step(2-4)
    by (intro tiles_claimed [OF assms(3)]) (auto simp: s' set_worker_def split: if_splits)
next
  case (Exec t e)
  have ok: "in_call (caller s)" "t < e" using control_worker [OF assms(1,4)] Exec by (auto simp: worker_ok_def)
  let ?w' = "(workers s ! i)\<lparr>wpc := if t + 1 < e then worker_pc.Exec (t + 1) e else Grab\<rparr>"
  have s': "s' = set_worker i ?w' (s\<lparr>log := log s @ [(t, int i)]\<rparr>)"
    using assms(5) Exec by (simp add: worker_step_def Let_def)
  have "pending s' + claimed (Exec t e) = pending s + claimed (wpc ?w')"
    using pending_update [OF assms(4), of s' ?w'] Exec by (simp add: s' set_worker_def)
  moreover have "claimed (Exec t e) = {#t#} + claimed (wpc ?w')" using range_first [OF ok(2)] by (auto simp: not_less)
  ultimately have "pending s' + {#t#} = pending s" by simp
  then show ?thesis using ok(1) assms(4)
    by (intro tiles_executed [OF assms(3), of s' t "int i"]) (auto simp: s' set_worker_def)
next
  case Signal
  let ?w' = "(workers s ! i)\<lparr>wpc := LoopTest, wdone := True\<rparr>"
  have s': "s' = set_worker i ?w' (s\<lparr>caller := if caller s = CAsleep then CWait else caller s\<rparr>)"
    using assms(5) Signal by (simp add: worker_step_def Let_def)
  have "pending s' = pending s"
    using pending_update [OF assms(4), of s' ?w'] Signal by (simp add: s' set_worker_def)
  then show ?thesis using assms(3) by (auto simp: tiles_inv_def s' set_worker_def)
next
  case LoopTest
  let ?w' = "(workers s ! i)\<lparr>wpc := if wrunning (workers s ! i) then AtWait else Exited\<rparr>"
  have s': "s' = set_worker i ?w' s" using assms(5) LoopTest by (simp add: worker_step_def Let_def)
  have "pending s' = pending s"
    using pending_update [OF assms(4), of s' ?w'] LoopTest by (simp add: s' set_worker_def)
  then show ?thesis using assms(3) by (auto simp: tiles_inv_def s' set_worker_def)
next
  case AtWait
  let ?w' = "(workers s ! i)\<lparr>wpc := if \<not> wrunning (workers s ! i) then Exited
                      else if has_callback s \<and> \<not> wdone (workers s ! i) then Grab else Asleep\<rparr>"
  have s': "s' = set_worker i ?w' s" using assms(5) AtWait by (simp add: worker_step_def Let_def)
  have "pending s' = pending s"
    using pending_update [OF assms(4), of s' ?w'] AtWait by (simp add: s' set_worker_def split: if_splits)
  then show ?thesis using assms(3) by (auto simp: tiles_inv_def s' set_worker_def)
qed (use assms(5) in \<open>simp_all add: worker_step_def Let_def\<close>)

lemma claimed_wake [simp]: "claimed (if p = Asleep then AtWait else p) = claimed p"
  by simp

lemma claimed_idle: "\<not> busy p \<Longrightarrow> claimed p = {#}"
  by (cases p) auto

lemma caller_tiles:
  assumes "control_inv s" "count_inv s" "tiles_inv s" "caller_step s = Some s'"
  shows "tiles_inv s'"
proof (cases "caller s")
  case CGrab
  note step = caller_grab [OF assms(2) CGrab]
  show ?thesis using step assms(4) CGrab by (intro tiles_claimed [OF assms(3)]) (auto simp: pending_def)
next
  case (CExec t e)
  have "t < e" using assms(1) CExec by (auto simp: control_inv_def)
  then have "caller_claimed (CExec t e) = {#t#} + caller_claimed (if t + 1 < e then caller_pc.CExec (t + 1) e else CGrab)"
    using range_first [of t e] by (auto simp: not_less)
  then show ?thesis using assms(4) CExec
    by (intro tiles_executed [OF assms(3), of s' t "- 1"]) (auto simp: caller_step_def pending_def)
next
  case Publish
  have "sum_list (map (\<lambda>w. claimed (wpc w)) ws) = {#}" if "\<forall>w \<in> set ws. worker_ok s w" for ws
    using that by (induction ws) (auto simp: worker_ok_def Publish claimed_idle)
  then show ?thesis using assms(1,4) Publish
    by (auto simp: caller_step_def tiles_inv_def pending_def control_inv_def comp_def min_def)
qed (use assms(3,4) in \<open>auto simp: caller_step_def tiles_inv_def pending_def comp_def split: if_splits\<close>)

section \<open>Reachable states\<close>

definition pool_inv :: "pool \<Rightarrow> bool" where
  "pool_inv s \<longleftrightarrow> control_inv s \<and> count_inv s \<and> tiles_inv s"

lemma thread_step_inv: "thread_step s s' \<Longrightarrow> pool_inv s \<Longrightarrow> pool_inv s'"
  by (elim thread_stepE)
    (auto simp: pool_inv_def intro: worker_control worker_count worker_tiles caller_control caller_count caller_tiles)

lemma thread_step_length: "thread_step s s' \<Longrightarrow> length (workers s') = length (workers s)"
  by (elim thread_stepE)
    (auto simp: worker_step_def caller_step_def set_worker_def claim_tiles_def Let_def
      split: worker_pc.splits caller_pc.splits if_splits)

lemma parallelFor_inv:
  assumes "pool_inv s" "caller s = Idle" "fits (length (workers s)) tiles grain"
  shows "pool_inv (parallelFor tiles grain s)"
proof (cases "tiles \<le> 0")
  case False
  let ?s = "parallelFor tiles grain s"
  have "worker_ok ?s w" if "worker_ok s w" for w
    using that assms(2) False by (auto simp: worker_ok_def parallelFor_def)
  then have "control_inv ?s" using assms(1,2) False by (auto simp: pool_inv_def control_inv_def parallelFor_def)
  moreover have "count_inv ?s" using assms(3) False by (auto simp: count_inv_def parallelFor_def fits_def)
  ultimately show ?thesis using False by (simp add: pool_inv_def tiles_inv_def parallelFor_def)
qed (use assms in \<open>simp add: parallelFor_def\<close>)

lemma destroy_inv:
  assumes "pool_inv s" "caller s = Idle"
  shows "pool_inv (destroy s)"
proof -
  have "worker_ok (destroy s) (w\<lparr>wrunning := False\<rparr>)" if "worker_ok s w" for w
    using that assms(2) by (auto simp: worker_ok_def destroy_def)
  then have "\<forall>w \<in> set (workers (destroy s)). worker_ok (destroy s) w"
    using assms(1) by (auto simp: pool_inv_def control_inv_def destroy_def)
  then show ?thesis using assms
    by (simp add: pool_inv_def control_inv_def count_inv_def tiles_inv_def destroy_def)
qed

lemma spurious_worker_inv:
  assumes "pool_inv s" "i < length (workers s)"
  shows "pool_inv (spurious_worker i s)"
proof -
  let ?w' = "wake (workers s ! i)" and ?s = "spurious_worker i s"
  have s': "workers ?s = (workers s)[i := ?w']" "caller ?s = caller s" "has_callback ?s = has_callback s"
      "total_tiles ?s = total_tiles s" "next_tile ?s = next_tile s" "grain_size ?s = grain_size s" "log ?s = log s"
    by (simp_all add: spurious_worker_def set_worker_def)
  have inv: "control_inv s" "count_inv s" "tiles_inv s" using assms(1) by (simp_all add: pool_inv_def)
  have "worker_ok ?s ?w'" using control_worker [OF inv(1) assms(2)] by (auto simp: worker_ok_def s')
  then have "control_inv ?s"
    by (intro change_worker [where w' = "?w'", OF inv(1) assms(2)]) (simp_all add: s')
  moreover have "overshoots ?s = overshoots s"
    using overshoots_update [OF assms(2), of ?s ?w'] s' by (simp split: if_splits)
  then have "count_inv ?s" by (intro count_later [OF inv(2)]) (simp_all add: s')
  moreover have "pending ?s = pending s"
    using pending_update [OF assms(2), of ?s ?w'] s' by (simp split: if_splits)
  then have "tiles_inv ?s" using inv(3) by (simp add: tiles_inv_def s')
  ultimately show ?thesis by (simp add: pool_inv_def)
qed

lemma spurious_caller_inv:
  assumes "pool_inv s"
  shows "pool_inv (spurious_caller s)"
proof (cases "caller s = CAsleep")
  case True
  let ?s = "spurious_caller s"
  have s': "?s = s\<lparr>caller := CWait\<rparr>" using True by (simp add: spurious_caller_def)
  have "worker_ok ?s w" if "worker_ok s w" for w using that True by (auto simp: worker_ok_def s')
  then have "control_inv ?s" using assms True by (auto simp: pool_inv_def control_inv_def s')
  moreover have "count_inv ?s" using assms True by (auto simp: pool_inv_def count_inv_def s' overshoots_def)
  moreover have "tiles_inv ?s" using assms True by (auto simp: pool_inv_def tiles_inv_def s' pending_def)
  ultimately show ?thesis by (simp add: pool_inv_def)
qed (use assms in \<open>simp add: spurious_caller_def\<close>)

lemma new_pool_inv: "pool_inv (new_pool n)"
  by (auto simp: pool_inv_def new_pool_def control_inv_def count_inv_def tiles_inv_def worker_ok_def)

lemma reachable_inv: "reachable n s \<Longrightarrow> pool_inv s"
  by (induction rule: reachable.induct)
    (auto intro: new_pool_inv thread_step_inv parallelFor_inv destroy_inv spurious_worker_inv spurious_caller_inv)


section \<open>Progress and termination\<close>

definition worker_weight :: "worker \<Rightarrow> nat" where
  "worker_weight w =
     (case wpc w of
        LoopTest \<Rightarrow> if wdone w then 3 else 8
      | AtWait \<Rightarrow> if wdone w then 2 else 7
      | Asleep \<Rightarrow> 1
      | Grab \<Rightarrow> 6
      | Exec t e \<Rightarrow> 6 + nat (e - t)
      | Signal \<Rightarrow> 5
      | Exited \<Rightarrow> 0)"

fun caller_weight :: "nat \<Rightarrow> caller_pc \<Rightarrow> nat" where
  "caller_weight n Idle = 0"
| "caller_weight n Publish = 5 + 11 * n"
| "caller_weight n NotifyWork = 4 + 6 * n"
| "caller_weight n CGrab = 3"
| "caller_weight n (CExec t e) = 3 + nat (e - t)"
| "caller_weight n CWait = 2"
| "caller_weight n CAsleep = 1"
| "caller_weight n NotifyStop = 3 + 6 * n"
| "caller_weight n Joining = 1"
| "caller_weight n Destroyed = 0"

definition work_left :: "pool \<Rightarrow> nat" where
  "work_left s = 2 * nat (total_tiles s - next_tile s) + sum_list (map worker_weight (workers s))
     + caller_weight (length (workers s)) (caller s)"

lemma work_left_update:
  assumes "i < length (workers s)" "workers s' = (workers s)[i := w']" "total_tiles s' = total_tiles s"
    "2 * nat (total_tiles s - next_tile s') + worker_weight w' + caller_weight (length (workers s)) (caller s')
       < 2 * nat (total_tiles s - next_tile s) + worker_weight (workers s ! i)
         + caller_weight (length (workers s)) (caller s)"
  shows "work_left s' < work_left s"
  using sum_list_update_add [OF assms(1), of worker_weight w'] assms by (simp add: work_left_def)

lemma weight_map_bound:
  assumes "\<And>w. worker_weight (f w) \<le> worker_weight w + k"
  shows "sum_list (map worker_weight (map f ws)) \<le> sum_list (map worker_weight ws) + k * length ws"
proof (induction ws)
  case (Cons w ws)
  then show ?case using assms [of w] by simp
qed simp

lemma worker_decreases:
  assumes "control_inv s" "count_inv s" "i < length (workers s)" "worker_step i s = Some s'"
  shows "work_left s' < work_left s"
proof -
  have ok: "worker_ok s (workers s ! i)" using control_worker [OF assms(1,3)] .
  have s': "workers s' = (workers s)[i := workers s' ! i]" "total_tiles s' = total_tiles s"
    using assms(3,4)
    by (auto simp: worker_step_def set_worker_def claim_tiles_def Let_def split: worker_pc.splits if_splits)
  show ?thesis
  proof (cases "wpc (workers s ! i)")
    case Grab
    note step = worker_grab [OF assms(1-3) Grab]
    show ?thesis using step assms(3,4) Grab
      by (intro work_left_update [OF assms(3) s']) (auto simp: set_worker_def worker_weight_def split: if_splits)
  next
    case (Exec t e)
    have "t < e" using ok Exec by (auto simp: worker_ok_def)
    then show ?thesis using assms(3,4) Exec
      by (intro work_left_update [OF assms(3) s']) (auto simp: worker_step_def set_worker_def Let_def worker_weight_def)
  next
    case Signal
    then show ?thesis using assms(3,4)
      by (intro work_left_update [OF assms(3) s']) (auto simp: worker_step_def set_worker_def Let_def worker_weight_def)
  next
    case LoopTest
    then show ?thesis using assms(3,4)
      by (intro work_left_update [OF assms(3) s']) (auto simp: worker_step_def set_worker_def Let_def worker_weight_def)
  next
    case AtWait
    then show ?thesis using assms(3,4)
      by (intro work_left_update [OF assms(3) s']) (auto simp: worker_step_def set_worker_def Let_def worker_weight_def)
  qed (use assms(4) in \<open>simp_all add: worker_step_def Let_def\<close>)
qed

lemma caller_decreases:
  assumes "control_inv s" "count_inv s" "caller_step s = Some s'"
  shows "work_left s' < work_left s"
proof (cases "caller s")
  case CGrab
  note step = caller_grab [OF assms(2) CGrab]
  show ?thesis using step assms(3) CGrab by (auto simp: work_left_def)
next
  case (CExec t e)
  have "t < e" using assms(1) CExec by (auto simp: control_inv_def)
  then show ?thesis using assms(3) CExec by (auto simp: caller_step_def work_left_def)
next
  case Publish
  have "worker_weight (w\<lparr>wdone := False\<rparr>) \<le> worker_weight w + 5" for w
    by (auto simp: worker_weight_def split: worker_pc.splits)
  then show ?thesis
    using assms(3) Publish weight_map_bound [of "\<lambda>w. w\<lparr>wdone := False\<rparr>" 5 "workers s"]
    by (auto simp: caller_step_def work_left_def)
next
  case NotifyWork
  have "worker_weight (wake w) \<le> worker_weight w + 6" for w by (auto simp: worker_weight_def split: worker_pc.splits)
  then show ?thesis
    using assms(3) NotifyWork weight_map_bound [of wake 6 "workers s"]
    by (auto simp: caller_step_def work_left_def)
next
  case NotifyStop
  have "worker_weight (wake w) \<le> worker_weight w + 6" for w by (auto simp: worker_weight_def split: worker_pc.splits)
  then show ?thesis
    using assms(3) NotifyStop weight_map_bound [of wake 6 "workers s"]
    by (auto simp: caller_step_def work_left_def)
qed (use assms(3) in \<open>auto simp: caller_step_def work_left_def split: if_splits\<close>)

lemma step_decreases: "pool_inv s \<Longrightarrow> thread_step s s' \<Longrightarrow> work_left s' < work_left s"
  by (elim thread_stepE) (auto simp: pool_inv_def intro: worker_decreases caller_decreases)

text \<open>A worker that cannot step sleeps with nothing to do or has exited.\<close>

lemma worker_blocked: "worker_step i s = None \<Longrightarrow> wpc (workers s ! i) = Asleep \<or> wpc (workers s ! i) = Exited"
  by (auto simp: worker_step_def Let_def split: worker_pc.splits prod.splits option.splits)

lemma no_deadlock:
  assumes "pool_inv s" "\<nexists>s'. thread_step s s'"
  shows "caller s = Idle \<or> caller s = Destroyed"
proof -
  have inv: "control_inv s" using assms(1) by (simp add: pool_inv_def)
  have blocked: "wpc (workers s ! i) = Asleep \<or> wpc (workers s ! i) = Exited" if "i < length (workers s)" for i
    using worker_blocked assms(2) that thread_step.worker by (metis option.exhaust)
  have "caller_step s = None" using assms(2) thread_step.caller by (metis option.exhaust)
  then consider "caller s = Idle" | "caller s = Destroyed" | "caller s = CAsleep"
      | "caller s = Joining" "\<exists>w \<in> set (workers s). wpc w \<noteq> Exited"
    by (auto simp: caller_step_def split: caller_pc.splits if_splits prod.splits option.splits)
  then show ?thesis
  proof cases
    case 3
    then obtain i where i: "i < length (workers s)" "\<not> wdone (workers s ! i)"
      using inv by (auto simp: control_inv_def in_set_conv_nth)
    then have "worker_ok s (workers s ! i)" "has_callback s" using control_worker [OF inv] inv 3 by (auto simp: control_inv_def)
    then show ?thesis using blocked [OF i(1)] i(2) 3 by (auto simp: worker_ok_def)
  next
    case 4
    then obtain i where i: "i < length (workers s)" "wpc (workers s ! i) \<noteq> Exited" by (auto simp: in_set_conv_nth)
    then show ?thesis using blocked [OF i(1)] control_worker [OF inv i(1)] 4 by (auto simp: worker_ok_def)
  qed auto
qed


text \<open>A schedule picks the thread of each step; \<open>None\<close> is the caller.\<close>

fun run_schedule :: "nat option list \<Rightarrow> pool \<Rightarrow> pool option" where
  "run_schedule [] s = Some s"
| "run_schedule (None # ps) s = (case caller_step s of None \<Rightarrow> None | Some s' \<Rightarrow> run_schedule ps s')"
| "run_schedule (Some i # ps) s =
     (if i < length (workers s) then (case worker_step i s of None \<Rightarrow> None | Some s' \<Rightarrow> run_schedule ps s') else None)"

lemma run_schedule_reachable: "reachable n s \<Longrightarrow> run_schedule ps s = Some t \<Longrightarrow> reachable n t"
  by (induction ps s rule: run_schedule.induct)
    (auto intro: reachable.step thread_step.intros split: option.splits if_splits)

lemma stopping_step: "pool_inv s \<Longrightarrow> thread_step s s' \<Longrightarrow> stopping (caller s') \<longleftrightarrow> stopping (caller s)"
  by (elim thread_stepE)
    (auto simp: worker_step_def caller_step_def set_worker_def claim_tiles_def Let_def
      split: worker_pc.splits caller_pc.splits if_splits)

lemma steps_inv: "thread_step\<^sup>*\<^sup>* s t \<Longrightarrow> pool_inv s \<Longrightarrow> pool_inv t \<and> (stopping (caller t) \<longleftrightarrow> stopping (caller s))"
  by (induction rule: rtranclp_induct) (auto simp: thread_step_inv stopping_step)

lemma no_infinite_run: "pool_inv s \<Longrightarrow> \<not> (\<exists>f. f 0 = s \<and> (\<forall>i. thread_step (f i) (f (Suc i))))"
proof
  assume inv: "pool_inv s" and "\<exists>f. f 0 = s \<and> (\<forall>i. thread_step (f i) (f (Suc i)))"
  then obtain f where f: "f 0 = s" "\<And>i. thread_step (f i) (f (Suc i))" by blast
  have "pool_inv (f i)" for i using inv f thread_step_inv by (induction i) auto
  then have "work_left (f (Suc i)) < work_left (f i)" for i using step_decreases f(2) by blast
  then have "work_left (f i) + i \<le> work_left (f 0)" for i by (induction i) (auto, metis Suc_leI add_Suc_right add_le_mono1 le_trans plus_nat.simps(2))
  from this [of "Suc (work_left (f 0))"] show False by simp
qed

lemma no_claims: "(\<And>w. w \<in> set ws \<Longrightarrow> claimed (wpc w) = {#}) \<Longrightarrow> sum_list (map (\<lambda>w. claimed (wpc w)) ws) = {#}"
  by (induction ws) auto

section \<open>Properties\<close>

text \<open>C1: a parallel loop runs every tile exactly once. Whenever \<^verbatim>\<open>parallelFor\<close> returns, whatever the
  interleaving of the workers, the spurious wakeups and the earlier calls, the callbacks it made are
  exactly the tiles from 0 to the requested number, each once, each under the id of a worker or
  of the caller.\<close>

theorem parallel_for_each_tile_once:
  assumes "reachable n s" "caller s = CWait" "caller_step s = Some s'" "caller s' = Idle"
  shows "mset (map fst (log s')) = mset [0..total_tiles s' - 1] \<and>
    (\<forall>(t, w) \<in> set (log s'). - 1 \<le> w \<and> w < int (length (workers s')))"
proof -
  have inv: "control_inv s" "tiles_inv s" using reachable_inv [OF assms(1)] by (simp_all add: pool_inv_def)
  have s': "s' = s\<lparr>has_callback := False, caller := Idle\<rparr>" and alldone: "\<forall>w \<in> set (workers s). wdone w"
    using assms(2-4) by (auto simp: caller_step_def split: if_splits)
  have "claimed (wpc w) = {#}" if "w \<in> set (workers s)" for w
    using inv(1) alldone that claimed_idle by (auto simp: control_inv_def worker_ok_def)
  then have "pending s = {#}" using assms(2) no_claims [of "workers s"] by (simp add: pending_def)
  moreover have "total_tiles s \<le> next_tile s" using inv(1) assms(2) by (simp add: control_inv_def)
  ultimately show ?thesis using inv(2) assms(2) by (auto simp: tiles_inv_def s' min_def)
qed

definition two_tiles :: pool where
  "two_tiles = parallelFor 2 1 (new_pool 1)"

text \<open>The caller publishes, both threads take a tile, and the caller finds the worker done.\<close>

definition two_tiles_schedule :: "nat option list" where
  "two_tiles_schedule = [None, None, Some 0, Some 0, Some 0, None, None, Some 0, None, Some 0, Some 0]"

lemma two_tiles_reachable: "reachable 1 two_tiles"
  unfolding two_tiles_def
  by (intro reachable.call reachable.start) (simp_all add: new_pool_def fits_def int64_max_def)

lemma parallel_for_each_tile_once_witness:
  "\<exists>s s'. run_schedule two_tiles_schedule two_tiles = Some s \<and> caller_step s = Some s' \<and>
     mset (map fst (log s')) = mset [0..total_tiles s' - 1]"
proof -
  let ?w = "\<lparr>wpc = LoopTest, wrunning = True, wdone = True\<rparr>"
  let ?s = "\<lparr>workers = [?w], caller = CWait, next_tile = 4, total_tiles = 2, grain_size = 1,
      has_callback = True, log = [(1, - 1), (0, 0)]\<rparr>"
  have run: "run_schedule two_tiles_schedule two_tiles = Some ?s"
    by (simp add: two_tiles_schedule_def two_tiles_def new_pool_def parallelFor_def caller_step_def worker_step_def
        set_worker_def claim_tiles_def wrap_int64_def wake_def)
  have step: "caller_step ?s = Some (?s\<lparr>has_callback := False, caller := Idle\<rparr>)" by (simp add: caller_step_def)
  show ?thesis
    using parallel_for_each_tile_once [OF run_schedule_reachable [OF two_tiles_reachable run] _ step] run step by auto
qed

definition two_tiles_midway :: pool where
  "two_tiles_midway = \<lparr>workers = [\<lparr>wpc = Exec 0 1, wrunning = True, wdone = False\<rparr>], caller = CGrab,
     next_tile = 2, total_tiles = 2, grain_size = 1, has_callback = True, log = [(1, - 1)]\<rparr>"

text \<open>C7: no tile is ever run twice and none outside the range, at any moment of a call, although the threads
  claim ranges from one counter and only synchronise at the end.\<close>

theorem tiles_never_repeat:
  assumes "reachable n s" "in_call (caller s)"
  shows "distinct (map fst (log s)) \<and> set (map fst (log s)) \<subseteq> {0..<total_tiles s}"
proof -
  let ?range = "[0..min (next_tile s) (total_tiles s) - 1]"
  obtain rest where rest: "mset rest = pending s" using ex_mset by blast
  have "mset (map fst (log s)) + pending s = mset ?range"
    using reachable_inv [OF assms(1)] assms(2) by (simp add: pool_inv_def tiles_inv_def)
  then have all: "mset (map fst (log s) @ rest) = mset ?range" using rest by simp
  have "distinct (map fst (log s) @ rest)" using mset_eq_imp_distinct_iff [OF all] by simp
  moreover have "set (map fst (log s)) \<subseteq> set ?range" using mset_eq_setD [OF all] by (metis Un_upper1 set_append)
  then have "set (map fst (log s)) \<subseteq> {0..<total_tiles s}" by (rule order_trans) auto
  ultimately show ?thesis by simp
qed

lemma tiles_never_repeat_witness: "distinct (map fst (log two_tiles_midway)) \<and> length (log two_tiles_midway) = 1"
proof -
  have run: "run_schedule [None, None, Some 0, Some 0, Some 0, None, None] two_tiles = Some two_tiles_midway"
    by (simp add: two_tiles_midway_def two_tiles_def new_pool_def parallelFor_def caller_step_def worker_step_def
        set_worker_def claim_tiles_def wrap_int64_def wake_def)
  show ?thesis
    using tiles_never_repeat [OF run_schedule_reachable [OF two_tiles_reachable run]] by (simp add: two_tiles_midway_def)
qed

text \<open>C4: no call hangs and no wakeup is lost. From every reachable state every run of the threads is
  finite, and where no thread can step any more the caller has returned from \<^verbatim>\<open>parallelFor\<close> or, when the pool was
  being destroyed, the destructor has joined every worker.\<close>

theorem pool_calls_return:
  assumes "reachable n s"
  shows "\<not> (\<exists>f. f 0 = s \<and> (\<forall>i. thread_step (f i) (f (Suc i)))) \<and>
    (\<forall>t. thread_step\<^sup>*\<^sup>* s t \<and> \<not> (\<exists>t'. thread_step t t') \<longrightarrow>
      (if stopping (caller s) then caller t = Destroyed \<and> (\<forall>w \<in> set (workers t). wpc w = Exited)
       else caller t = Idle))"
proof (intro conjI allI impI)
  have inv: "pool_inv s" using reachable_inv [OF assms] .
  show "\<not> (\<exists>f. f 0 = s \<and> (\<forall>i. thread_step (f i) (f (Suc i))))" using no_infinite_run [OF inv] .
  fix t assume t: "thread_step\<^sup>*\<^sup>* s t \<and> \<not> (\<exists>t'. thread_step t t')"
  then have inv': "pool_inv t" and stop: "stopping (caller t) \<longleftrightarrow> stopping (caller s)"
    using steps_inv [OF _ inv] by blast+
  have final: "caller t = Idle \<or> caller t = Destroyed" using no_deadlock [OF inv'] t by blast
  have "wpc w = Exited" if ended: "caller t = Destroyed" and w: "w \<in> set (workers t)" for w
  proof -
    obtain i where i: "i < length (workers t)" "w = workers t ! i" using w by (auto simp: in_set_conv_nth)
    have "worker_step i t = None" using t i(1) thread_step.worker by (metis option.exhaust)
    then show ?thesis using worker_blocked [of i t] control_worker [of t i] inv' i ended
      by (auto simp: pool_inv_def worker_ok_def)
  qed
  then show "if stopping (caller s) then caller t = Destroyed \<and> (\<forall>w \<in> set (workers t). wpc w = Exited)
       else caller t = Idle"
    using final stop by auto
qed

lemma pool_calls_return_witness:
  "\<not> (\<exists>f. f 0 = two_tiles \<and> (\<forall>i. thread_step (f i) (f (Suc i))))"
  using pool_calls_return [OF two_tiles_reachable] by blast

end
