(* ===== verification/PoolBarrier.thy ===== *)
theory PoolBarrier
  imports ThreadPoolRt
begin

text \<open>
  The reusable barrier of the worker pool (\<^verbatim>\<open>ThreadPool::barrier\<close>) and the per-worker scratch pointers
  (\<^verbatim>\<open>runtime/ThreadPool.cpp\<close>). Each atomic operation of the barrier is one step. The lemmas show what a
  single use of the barrier guarantees, and that a second use can leave every thread spinning.
\<close>

section \<open>Barrier\<close>

datatype barrier_pc =
    Outside        \<comment> \<open>not in the barrier; \<open>uses_left\<close> says how often it will still enter\<close>
  | Load           \<comment> \<open>at \<^verbatim>\<open>barrier_epoch_.load()\<close>\<close>
  | Count int      \<comment> \<open>at \<^verbatim>\<open>barrier_count_.fetch_add(1)\<close>, with the loaded epoch\<close>
  | Spin int       \<comment> \<open>in the loop that waits for another epoch\<close>
  | Bump           \<comment> \<open>last to arrive, at \<^verbatim>\<open>barrier_epoch_++\<close>\<close>
  | Reset          \<comment> \<open>at \<^verbatim>\<open>barrier_count_ = 0\<close>\<close>

record bthread =
  bpc :: barrier_pc
  uses_left :: nat

record barrier =
  threads :: "bthread list"
  barrier_epoch :: int
  barrier_count :: int
  barrier_target :: int

text \<open>As many threads as the target, each about to use the barrier \<open>uses\<close> times.\<close>

definition new_barrier :: "nat \<Rightarrow> nat \<Rightarrow> barrier" where
  "new_barrier n uses = \<lparr>threads = replicate n \<lparr>bpc = Outside, uses_left = uses\<rparr>,
     barrier_epoch = 0, barrier_count = 0, barrier_target = int n\<rparr>"

definition set_pc :: "nat \<Rightarrow> barrier_pc \<Rightarrow> barrier \<Rightarrow> barrier" where
  "set_pc i p s = s\<lparr>threads := (threads s)[i := (threads s ! i)\<lparr>bpc := p\<rparr>]\<rparr>"

definition barrier_step :: "nat \<Rightarrow> barrier \<Rightarrow> barrier" where
  "barrier_step i s =
     (case bpc (threads s ! i) of
        Outside \<Rightarrow>
          if uses_left (threads s ! i) = 0 then s
          else s\<lparr>threads := (threads s)[i := \<lparr>bpc = Load, uses_left = uses_left (threads s ! i) - 1\<rparr>]\<rparr>
      | Load \<Rightarrow> set_pc i (Count (barrier_epoch s)) s
      | Count epoch \<Rightarrow>
          (let count = barrier_count s + 1 in
            (set_pc i (if count = barrier_target s then Bump else Spin epoch) s)\<lparr>barrier_count := count\<rparr>)
      | Spin epoch \<Rightarrow> if barrier_epoch s = epoch then s else set_pc i Outside s
      | Bump \<Rightarrow> (set_pc i Reset s)\<lparr>barrier_epoch := barrier_epoch s + 1\<rparr>
      | Reset \<Rightarrow> (set_pc i Outside s)\<lparr>barrier_count := 0\<rparr>)"

inductive barrier_reachable :: "nat \<Rightarrow> nat \<Rightarrow> barrier \<Rightarrow> bool" for n uses where
  start: "barrier_reachable n uses (new_barrier n uses)"
| step: "barrier_reachable n uses s \<Longrightarrow> i < length (threads s) \<Longrightarrow> barrier_reachable n uses (barrier_step i s)"

section \<open>Scratch pointers\<close>

text \<open>Pointers are numbers and 0 is null; \<open>freed\<close> collects what \<^verbatim>\<open>free\<close> was called on.\<close>

record scratch_state =
  scratch :: "(nat \<times> nat) list"
  freed :: "nat list"

definition getScratch :: "int \<Rightarrow> scratch_state \<Rightarrow> nat" where
  "getScratch worker_id s =
     (if worker_id < 0 \<or> worker_id \<ge> int (length (scratch s)) then 0 else fst (scratch s ! nat worker_id))"

definition setScratch :: "int \<Rightarrow> nat \<Rightarrow> nat \<Rightarrow> scratch_state \<Rightarrow> scratch_state" where
  "setScratch worker_id ptr n s =
     (if worker_id < 0 \<or> worker_id \<ge> int (length (scratch s)) then s
      else s\<lparr>freed := fst (scratch s ! nat worker_id) # freed s,
             scratch := (scratch s)[nat worker_id := (ptr, n)]\<rparr>)"

lemma getScratch_setScratch:
  assumes "0 \<le> worker_id" "worker_id < int (length (scratch s))"
  shows "getScratch w (setScratch worker_id ptr n s) = (if w = worker_id then ptr else getScratch w s)"
  using assms by (auto simp: getScratch_def setScratch_def nth_list_update)

section \<open>One use\<close>

fun arrived :: "barrier_pc \<Rightarrow> bool" where
  "arrived (Spin e) = True"
| "arrived Bump = True"
| "arrived p = False"

definition num_arrived :: "barrier \<Rightarrow> int" where
  "num_arrived s = sum_list (map (\<lambda>t. if arrived (bpc t) then 1 else 0) (threads s))"

text \<open>Before the epoch moves: a thread has not entered or is on its way in, and the last to arrive is unique.\<close>

definition on_way_in :: "barrier \<Rightarrow> bthread \<Rightarrow> bool" where
  "on_way_in s t \<longleftrightarrow> (uses_left t = 1 \<and> bpc t = Outside) \<or>
     (uses_left t = 0 \<and> (bpc t = Load \<or> bpc t = Count 0 \<or> bpc t = Spin 0 \<or>
        (bpc t = Bump \<and> barrier_count s = barrier_target s)))"

definition gathering :: "barrier \<Rightarrow> bool" where
  "gathering s \<longleftrightarrow> barrier_epoch s = 0 \<and> barrier_count s = num_arrived s \<and>
     (\<forall>t \<in> set (threads s). on_way_in s t) \<and>
     (barrier_count s = barrier_target s \<longrightarrow>
        (\<exists>i < length (threads s). bpc (threads s ! i) = Bump \<and>
           (\<forall>j < length (threads s). bpc (threads s ! j) = Bump \<longrightarrow> j = i)))"

definition released :: "barrier \<Rightarrow> bool" where
  "released s \<longleftrightarrow> barrier_epoch s = 1 \<and>
     (\<forall>t \<in> set (threads s). uses_left t = 0 \<and> (bpc t = Spin 0 \<or> bpc t = Reset \<or> bpc t = Outside))"

definition once_inv :: "nat \<Rightarrow> barrier \<Rightarrow> bool" where
  "once_inv n s \<longleftrightarrow> length (threads s) = n \<and> barrier_target s = int n \<and> (gathering s \<or> released s)"

lemma arrived_le: "sum_list (map (\<lambda>t. if arrived (bpc t) then 1 else (0::int)) ts) \<le> int (length ts)"
  by (induction ts) auto

lemma all_arrived:
  "sum_list (map (\<lambda>t. if arrived (bpc t) then 1 else (0::int)) ts) = int (length ts) \<Longrightarrow> t \<in> set ts \<Longrightarrow> arrived (bpc t)"
proof (induction ts)
  case (Cons u ts)
  then show ?case using arrived_le [of ts] by (auto split: if_splits)
qed simp

lemma everyone_arrived:
  "\<forall>t \<in> set ts. arrived (bpc t) \<Longrightarrow> sum_list (map (\<lambda>t. if arrived (bpc t) then 1 else (0::int)) ts) = int (length ts)"
  by (induction ts) auto

lemma num_arrived_update:
  "i < length (threads s) \<Longrightarrow> threads s' = (threads s)[i := t] \<Longrightarrow>
     num_arrived s' + (if arrived (bpc (threads s ! i)) then 1 else 0) = num_arrived s + (if arrived (bpc t) then 1 else 0)"
  using sum_list_update_add [of i "threads s" "\<lambda>t. if arrived (bpc t) then 1 else (0::int)" t]
  by (simp add: num_arrived_def)

definition one_bump :: "bthread list \<Rightarrow> bool" where
  "one_bump ts \<longleftrightarrow> (\<exists>i < length ts. bpc (ts ! i) = Bump \<and> (\<forall>j < length ts. bpc (ts ! j) = Bump \<longrightarrow> j = i))"

lemma gatheringI:
  "barrier_epoch s = 0 \<Longrightarrow> barrier_count s = num_arrived s \<Longrightarrow> \<forall>t \<in> set (threads s). on_way_in s t \<Longrightarrow>
     (barrier_count s = barrier_target s \<Longrightarrow> one_bump (threads s)) \<Longrightarrow> gathering s"
  by (simp add: gathering_def one_bump_def)

lemma gatheringD:
  assumes "gathering s"
  shows "barrier_epoch s = 0" "barrier_count s = num_arrived s" "t \<in> set (threads s) \<Longrightarrow> on_way_in s t"
    "barrier_count s = barrier_target s \<Longrightarrow> one_bump (threads s)"
  using assms by (simp_all add: gathering_def one_bump_def)

lemma one_bump_cong:
  assumes "length us = length ts" "\<And>j. j < length ts \<Longrightarrow> bpc (us ! j) = Bump \<longleftrightarrow> bpc (ts ! j) = Bump"
  shows "one_bump us = one_bump ts"
  using assms by (auto simp: one_bump_def)

lemma gathering_move:
  assumes "gathering s" "i < length (threads s)" "threads s' = (threads s)[i := t]" "\<not> arrived (bpc (threads s ! i))"
    "\<not> arrived (bpc t)" "barrier_epoch s' = barrier_epoch s" "barrier_count s' = barrier_count s"
    "barrier_target s' = barrier_target s" "on_way_in s' t"
  shows "gathering s'"
proof -
  have "num_arrived s' = num_arrived s" using num_arrived_update [OF assms(2,3)] assms(4,5) by simp
  moreover have "on_way_in s' u" if "u \<in> set (threads s)" for u
    using gatheringD(3) [OF assms(1) that] assms(7,8) by (simp add: on_way_in_def)
  then have "\<forall>u \<in> set (threads s'). on_way_in s' u"
    using all_list_update [of "threads s" "on_way_in s'" t i] assms(3,9) by simp
  moreover have "bpc (threads s' ! j) = Bump \<longleftrightarrow> bpc (threads s ! j) = Bump" if "j < length (threads s)" for j
    using assms(2-5) that by (cases "j = i") auto
  then have "one_bump (threads s') = one_bump (threads s)" using assms(3) by (intro one_bump_cong) simp_all
  ultimately show ?thesis using gatheringD(1,2,4) [OF assms(1)] assms(6-8) by (intro gatheringI) simp_all
qed

lemma gathering_not_full:
  assumes "gathering s" "barrier_target s = int (length (threads s))" "t \<in> set (threads s)" "\<not> arrived (bpc t)"
  shows "barrier_count s < barrier_target s" "\<forall>u \<in> set (threads s). bpc u \<noteq> Bump"
proof -
  have "barrier_count s \<noteq> barrier_target s"
    using assms all_arrived [of "threads s" t] by (auto simp: gathering_def num_arrived_def)
  then show "barrier_count s < barrier_target s" "\<forall>u \<in> set (threads s). bpc u \<noteq> Bump"
    using arrived_le [of "threads s"] assms(1,2) by (auto simp: gathering_def num_arrived_def on_way_in_def)
qed

lemma gathering_arrive:
  assumes "gathering s" "barrier_target s = int (length (threads s))" "i < length (threads s)" "bpc (threads s ! i) = Count 0"
  shows "gathering (barrier_step i s)"
proof -
  let ?t = "threads s ! i"
  let ?t' = "?t\<lparr>bpc := if barrier_count s + 1 = barrier_target s then Bump else Spin 0\<rparr>"
  have s': "barrier_step i s = s\<lparr>threads := (threads s)[i := ?t'], barrier_count := barrier_count s + 1\<rparr>"
    using assms(4) by (simp add: barrier_step_def set_pc_def Let_def)
  have t: "?t \<in> set (threads s)" using assms(3) by simp
  then have way: "on_way_in s ?t" using assms(1) by (simp add: gathering_def)
  note room = gathering_not_full [OF assms(1,2) t]
  have none: "bpc (threads s ! j) \<noteq> Bump" if "j < length (threads s)" for j
    using room(2) assms(4) that nth_mem by fastforce
  have "num_arrived (barrier_step i s) = num_arrived s + 1"
    using num_arrived_update [OF assms(3), of "barrier_step i s" ?t'] assms(4) by (simp add: s')
  moreover have "on_way_in (barrier_step i s) u" if "u \<in> set (threads s)" for u
    using assms(1,4) that room by (auto simp: gathering_def on_way_in_def s')
  then have "\<forall>u \<in> set (threads (barrier_step i s)). on_way_in (barrier_step i s) u"
    using all_list_update [of "threads s" "on_way_in (barrier_step i s)" ?t' i] way assms(4)
    by (simp add: s' on_way_in_def)
  moreover have "one_bump (threads (barrier_step i s))" if "barrier_count s + 1 = barrier_target s"
    using that none assms(3) unfolding one_bump_def by (intro exI [of _ i]) (auto simp: s' nth_list_update)
  moreover have "barrier_epoch (barrier_step i s) = 0" "barrier_target (barrier_step i s) = barrier_target s"
      "barrier_count (barrier_step i s) = num_arrived s + 1"
    using gatheringD(1,2) [OF assms(1)] by (simp_all add: s')
  ultimately show ?thesis using gatheringD(2) [OF assms(1)] by (intro gatheringI) simp_all
qed

lemma gathering_release:
  assumes "gathering s" "barrier_target s = int (length (threads s))" "i < length (threads s)" "bpc (threads s ! i) = Bump"
  shows "released (barrier_step i s)"
proof -
  have full: "barrier_count s = barrier_target s"
    using gatheringD(3) [OF assms(1) nth_mem [OF assms(3)]] assms(4) by (simp add: on_way_in_def)
  obtain k where "\<forall>j < length (threads s). bpc (threads s ! j) = Bump \<longrightarrow> j = k"
    using gatheringD(4) [OF assms(1) full] unfolding one_bump_def by blast
  then have only: "bpc (threads s ! j) = Bump \<Longrightarrow> j < length (threads s) \<Longrightarrow> j = i" for j
    using assms(3,4) by blast
  have "bpc (threads s ! j) = Spin 0 \<and> uses_left (threads s ! j) = 0" if j: "j < length (threads s)" "j \<noteq> i" for j
  proof -
    have "arrived (bpc (threads s ! j))"
      using full gatheringD(2) [OF assms(1)] assms(2) j all_arrived [of "threads s" "threads s ! j"]
      by (simp add: num_arrived_def)
    moreover have "bpc (threads s ! j) \<noteq> Bump" using only j by blast
    moreover have "on_way_in s (threads s ! j)" using gatheringD(3) [OF assms(1) nth_mem [OF j(1)]] .
    ultimately show ?thesis by (auto simp: on_way_in_def)
  qed
  moreover have "uses_left (threads s ! i) = 0"
    using gatheringD(3) [OF assms(1) nth_mem [OF assms(3)]] assms(4) by (simp add: on_way_in_def)
  moreover have step: "barrier_step i s = s\<lparr>threads := (threads s)[i := (threads s ! i)\<lparr>bpc := Reset\<rparr>], barrier_epoch := 1\<rparr>"
    using gatheringD(1) [OF assms(1)] assms(4) by (simp add: barrier_step_def set_pc_def)
  ultimately have "uses_left (threads (barrier_step i s) ! j) = 0 \<and> (bpc (threads (barrier_step i s) ! j) = Spin 0 \<or>
      bpc (threads (barrier_step i s) ! j) = Reset)" if "j < length (threads s)" for j
    using assms(3) that by (cases "j = i") simp_all
  then have "\<forall>t \<in> set (threads (barrier_step i s)). uses_left t = 0 \<and> (bpc t = Spin 0 \<or> bpc t = Reset)"
    unfolding all_set_conv_all_nth using step by simp
  then show ?thesis using step by (auto simp: released_def)
qed

lemma released_step:
  assumes "released s" "i < length (threads s)"
  shows "released (barrier_step i s)"
proof -
  have "threads s ! i \<in> set (threads s)" using assms(2) by simp
  then have t: "uses_left (threads s ! i) = 0"
      "bpc (threads s ! i) = Spin 0 \<or> bpc (threads s ! i) = Reset \<or> bpc (threads s ! i) = Outside"
    using assms(1) by (auto simp: released_def)
  have "\<forall>t \<in> set ((threads s)[i := (threads s ! i)\<lparr>bpc := Outside\<rparr>]).
      uses_left t = 0 \<and> (bpc t = Spin 0 \<or> bpc t = Reset \<or> bpc t = Outside)"
    using assms(1) t(1) by (intro all_list_update) (simp_all add: released_def)
  moreover have "barrier_step i s = s \<or>
      (threads (barrier_step i s) = (threads s)[i := (threads s ! i)\<lparr>bpc := Outside\<rparr>] \<and> barrier_epoch (barrier_step i s) = 1)"
    using t assms(1) by (elim disjE) (simp_all add: barrier_step_def set_pc_def released_def)
  ultimately show ?thesis using assms(1) unfolding released_def by metis
qed

lemma once_step:
  assumes "once_inv n s" "i < length (threads s)"
  shows "once_inv n (barrier_step i s)"
proof -
  have same: "length (threads (barrier_step i s)) = length (threads s)" "barrier_target (barrier_step i s) = barrier_target s"
    by (auto simp: barrier_step_def set_pc_def Let_def split: barrier_pc.splits)
  show ?thesis
  proof (cases "released s")
    case True
    then show ?thesis using released_step assms same by (simp add: once_inv_def)
  next
    case False
    then have g: "gathering s" "barrier_target s = int (length (threads s))" using assms(1) by (auto simp: once_inv_def)
    have way: "on_way_in s (threads s ! i)" using g(1) assms(2) by (simp add: gathering_def)
    then consider "uses_left (threads s ! i) = 1" "bpc (threads s ! i) = Outside" | "bpc (threads s ! i) = Load" "uses_left (threads s ! i) = 0"
      | "bpc (threads s ! i) = Count 0" | "bpc (threads s ! i) = Spin 0" | "bpc (threads s ! i) = Bump"
      by (auto simp: on_way_in_def)
    then have "gathering (barrier_step i s) \<or> released (barrier_step i s)"
    proof cases
      case 1
      then show ?thesis
        by (intro disjI1 gathering_move [where t = "\<lparr>bpc = Load, uses_left = 0\<rparr>", OF g(1) assms(2)])
          (auto simp: barrier_step_def on_way_in_def)
    next
      case 2
      then show ?thesis using g(1)
        by (intro disjI1 gathering_move [where t = "(threads s ! i)\<lparr>bpc := Count 0\<rparr>", OF g(1) assms(2)])
          (auto simp: barrier_step_def on_way_in_def set_pc_def gathering_def)
    next
      case 4
      then have "barrier_step i s = s" using g(1) by (simp add: barrier_step_def gathering_def)
      then show ?thesis using g(1) by simp
    qed (use gathering_arrive [OF g assms(2)] gathering_release [OF g assms(2)] in auto)
    then show ?thesis using assms(1) same by (auto simp: once_inv_def)
  qed
qed

lemma new_barrier_inv: "0 < n \<Longrightarrow> once_inv n (new_barrier n 1)"
  by (auto simp: once_inv_def new_barrier_def gathering_def num_arrived_def on_way_in_def sum_list_replicate)

lemma once_reachable: "barrier_reachable n 1 s \<Longrightarrow> 0 < n \<Longrightarrow> once_inv n s"
  by (induction rule: barrier_reachable.induct) (auto intro: new_barrier_inv [simplified] once_step)


fun run_barrier :: "nat list \<Rightarrow> barrier \<Rightarrow> barrier" where
  "run_barrier [] s = s"
| "run_barrier (i # is) s = run_barrier is (barrier_step i s)"

lemma barrier_step_length [simp]: "length (threads (barrier_step i s)) = length (threads s)"
  by (auto simp: barrier_step_def set_pc_def Let_def split: barrier_pc.splits)

lemma run_barrier_reachable:
  "barrier_reachable n u s \<Longrightarrow> \<forall>i \<in> set is. i < length (threads s) \<Longrightarrow> barrier_reachable n u (run_barrier is s)"
proof (induction "is" arbitrary: s)
  case (Cons i "is")
  then show ?case using barrier_reachable.step [of n u s i] by simp
qed simp

section \<open>Properties\<close>

text \<open>One use of the barrier synchronises. With as many threads as the target, each entering once, a
  thread is past the barrier only when every thread has arrived, and as long as some thread is not
  past it some thread can move, so nobody is held up forever.\<close>

theorem barrier_single_use:
  assumes "barrier_reachable n 1 s" "0 < n"
  shows "((\<exists>t \<in> set (threads s). bpc t = Outside \<and> uses_left t = 0) \<longrightarrow>
      (\<forall>t \<in> set (threads s). uses_left t = 0 \<and> bpc t \<noteq> Load \<and> (\<forall>e. bpc t \<noteq> Count e))) \<and>
    ((\<exists>t \<in> set (threads s). bpc t \<noteq> Outside \<or> uses_left t \<noteq> 0) \<longrightarrow>
      (\<exists>i < length (threads s). barrier_step i s \<noteq> s))"
proof -
  have inv: "once_inv n s" using once_reachable assms by blast
  show ?thesis
  proof (cases "released s")
    case True
    have "\<exists>i < length (threads s). barrier_step i s \<noteq> s" if "\<exists>t \<in> set (threads s). bpc t \<noteq> Outside \<or> uses_left t \<noteq> 0"
    proof -
      obtain i where i: "i < length (threads s)" "bpc (threads s ! i) \<noteq> Outside \<or> uses_left (threads s ! i) \<noteq> 0"
        using \<open>\<exists>t \<in> set (threads s). bpc t \<noteq> Outside \<or> uses_left t \<noteq> 0\<close> by (auto simp: in_set_conv_nth)
      have "uses_left (threads s ! i) = 0" "bpc (threads s ! i) = Spin 0 \<or> bpc (threads s ! i) = Reset" "barrier_epoch s = 1"
        using True i nth_mem [OF i(1)] by (auto simp: released_def)
      then have "bpc (threads (barrier_step i s) ! i) \<noteq> bpc (threads s ! i)"
        using i(1) by (auto simp: barrier_step_def set_pc_def)
      then show ?thesis using i(1) by metis
    qed
    then show ?thesis using True by (auto simp: released_def)
  next
    case False
    then have g: "gathering s" and tgt: "barrier_target s = int (length (threads s))" and len: "length (threads s) = n"
      using inv by (auto simp: once_inv_def)
    have way: "on_way_in s t" if "t \<in> set (threads s)" for t using gatheringD(3) [OF g that] .
    have "\<exists>i < length (threads s). barrier_step i s \<noteq> s"
    proof (cases "barrier_count s = barrier_target s")
      case True
      then obtain i where i: "i < length (threads s)" "bpc (threads s ! i) = Bump"
        using gatheringD(4) [OF g] by (auto simp: one_bump_def)
      then have "barrier_epoch (barrier_step i s) \<noteq> barrier_epoch s" by (simp add: barrier_step_def)
      then show ?thesis using i(1) by metis
    next
      case False
      then have "\<exists>t \<in> set (threads s). \<not> arrived (bpc t)"
        using gatheringD(2) [OF g] tgt everyone_arrived [of "threads s"] by (auto simp: num_arrived_def)
      then obtain i where i: "i < length (threads s)" "\<not> arrived (bpc (threads s ! i))" by (auto simp: in_set_conv_nth)
      then have "bpc (threads (barrier_step i s) ! i) \<noteq> bpc (threads s ! i)"
        using way [OF nth_mem [OF i(1)]] i by (auto simp: on_way_in_def barrier_step_def set_pc_def Let_def split: if_splits)
      then show ?thesis using i(1) by metis
    qed
    moreover have "\<not> (\<exists>t \<in> set (threads s). bpc t = Outside \<and> uses_left t = 0)"
      using way by (fastforce simp: on_way_in_def)
    ultimately show ?thesis by blast
  qed
qed

lemma barrier_single_use_witness:
  "filter (\<lambda>t. uses_left t \<noteq> 0 \<or> bpc t = Load) (threads (run_barrier [0, 1, 0, 1, 0, 1, 1, 0] (new_barrier 2 1))) = []"
proof -
  have "barrier_reachable 2 1 (run_barrier [0, 1, 0, 1, 0, 1, 1, 0] (new_barrier 2 1))"
    by (intro run_barrier_reachable barrier_reachable.start) (auto simp: new_barrier_def)
  from barrier_single_use [OF this] show ?thesis
    by (simp add: new_barrier_def barrier_step_def set_pc_def numeral_2_eq_2)
qed

text \<open>A second use of the barrier can hang. With two threads that each use it twice, there is a
  schedule after which both threads spin in their second use and no step changes anything: the
  last thread of the first use raised the epoch, the other one entered again and was counted, and
  only then the count was reset.\<close>

theorem barrier_reuse_hangs:
  "\<exists>s. barrier_reachable 2 2 s \<and> map bpc (threads s) = [Spin 1, Spin 1] \<and> barrier_step 0 s = s \<and> barrier_step 1 s = s"
proof -
  let ?run = "[0, 0, 0, 1, 1, 1, 1, 0, 0, 0, 0, 1, 1, 1, 1]"
  let ?s = "run_barrier ?run (new_barrier 2 2)"
  have s: "?s = \<lparr>threads = [\<lparr>bpc = Spin 1, uses_left = 0\<rparr>, \<lparr>bpc = Spin 1, uses_left = 0\<rparr>],
      barrier_epoch = 1, barrier_count = 1, barrier_target = 2\<rparr>"
    by (simp add: new_barrier_def barrier_step_def set_pc_def numeral_2_eq_2)
  have "barrier_reachable 2 2 ?s"
    by (intro run_barrier_reachable barrier_reachable.start) (auto simp: new_barrier_def)
  moreover have "barrier_step 0 ?s = ?s" "barrier_step 1 ?s = ?s" unfolding s by (simp_all add: barrier_step_def)
  ultimately show ?thesis unfolding s by (intro exI conjI) simp_all
qed

end
