(* ===== verification/CostModel.thy ===== *)
theory CostModel
  imports Machine "HOL-Library.Log_Nat"
begin

text \<open>
  The multi-dimensional mapping cost (\<^verbatim>\<open>include/LLK/Mapping/CostModel.h\<close>, \<^verbatim>\<open>lib/Mapping/CostModel.cpp\<close>):
  metrics, objectives, ranking, bounds, aggregation and the estimate of a layout conversion. The lemmas
  show that ranking is a strict total order that never depends on the order of enumeration, and that
  the component-wise best of two costs is never ranked behind either.
\<close>

section \<open>Floating-point arithmetic\<close>

text \<open>IEEE binary64 with rounding to nearest, ties to even, on the values of the machine theory.\<close>

fun double_value :: "double \<Rightarrow> rat" where
  "double_value (Finite r) = r"
| "double_value _ = 0"

fun is_finite :: "double \<Rightarrow> bool" where
  "is_finite (Finite r) = True"
| "is_finite NegZero = True"
| "is_finite _ = False"

definition is_inf :: "double \<Rightarrow> bool" where "is_inf d \<longleftrightarrow> d = PlusInf \<or> d = MinusInf"

definition is_negative :: "double \<Rightarrow> bool" where
  "is_negative d = (case d of Finite r \<Rightarrow> r < 0 | NegZero \<Rightarrow> True | MinusInf \<Rightarrow> True | _ \<Rightarrow> False)"

fun double_class :: "double \<Rightarrow> nat" where
  "double_class MinusInf = 0"
| "double_class PlusInf = 2"
| "double_class _ = 1"

definition double_less :: "double \<Rightarrow> double \<Rightarrow> bool" where
  "double_less a b \<longleftrightarrow> a \<noteq> NotANumber \<and> b \<noteq> NotANumber \<and>
     (double_class a < double_class b \<or> (double_class a = double_class b \<and> double_value a < double_value b))"

definition double_eq :: "double \<Rightarrow> double \<Rightarrow> bool" where
  "double_eq a b \<longleftrightarrow> a \<noteq> NotANumber \<and> b \<noteq> NotANumber \<and>
     double_class a = double_class b \<and> double_value a = double_value b"

definition two_power :: "int \<Rightarrow> rat" where
  "two_power e = (if 0 \<le> e then 2 ^ nat e else 1 / 2 ^ nat (- e))"

definition exponent_of :: "rat \<Rightarrow> int" where
  "exponent_of r =
     (let (n, d) = quotient_of r; e = int (floorlog 2 (nat n)) - int (floorlog 2 (nat d)) in
      if r \<ge> two_power e then e else e - 1)"

definition round_double :: "rat \<Rightarrow> double" where
  "round_double r =
     (if r = 0 then Finite 0
      else let ulp = two_power (max (exponent_of \<bar>r\<bar>) (- 1022) - 52);
               v = of_nat (round_half_even (\<bar>r\<bar> / ulp)) * ulp in
        if v \<ge> two_power 1024 then (if r < 0 then MinusInf else PlusInf)
        else if v = 0 then (if r < 0 then NegZero else Finite 0)
        else Finite (if r < 0 then - v else v))"

definition double_add :: "double \<Rightarrow> double \<Rightarrow> double" where
  "double_add a b =
     (if a = NotANumber \<or> b = NotANumber \<or> (a = PlusInf \<and> b = MinusInf) \<or> (a = MinusInf \<and> b = PlusInf) then NotANumber
      else if is_inf a then a else if is_inf b then b
      else if a = NegZero \<and> b = NegZero then NegZero
      else round_double (double_value a + double_value b))"

definition signed_zero :: "bool \<Rightarrow> double" where
  "signed_zero neg = (if neg then NegZero else Finite 0)"

definition signed_inf :: "bool \<Rightarrow> double" where
  "signed_inf neg = (if neg then MinusInf else PlusInf)"

definition double_mult :: "double \<Rightarrow> double \<Rightarrow> double" where
  "double_mult a b =
     (let neg = (is_negative a \<noteq> is_negative b) in
      if a = NotANumber \<or> b = NotANumber then NotANumber
      else if is_inf a \<or> is_inf b then
        (if double_eq a (Finite 0) \<or> double_eq b (Finite 0) then NotANumber else signed_inf neg)
      else if double_value a = 0 \<or> double_value b = 0 then signed_zero neg
      else round_double (double_value a * double_value b))"

definition double_div :: "double \<Rightarrow> double \<Rightarrow> double" where
  "double_div a b =
     (let neg = (is_negative a \<noteq> is_negative b) in
      if a = NotANumber \<or> b = NotANumber \<or> (is_inf a \<and> is_inf b) then NotANumber
      else if is_inf a then signed_inf neg
      else if is_inf b then signed_zero neg
      else if double_value b = 0 then (if double_value a = 0 then NotANumber else signed_inf neg)
      else if double_value a = 0 then signed_zero neg
      else round_double (double_value a / double_value b))"

text \<open>Widening a \<^verbatim>\<open>uint64_t\<close>: the nearest number with 53 significant bits.\<close>

definition round53 :: "nat \<Rightarrow> nat" where
  "round53 n = (let k = floorlog 2 n - 53 in round_half_even (of_nat n / 2 ^ k) * 2 ^ k)"

definition double_of_nat :: "nat \<Rightarrow> double" where
  "double_of_nat n = Finite (of_nat (round53 n))"

text \<open>\<^verbatim>\<open>std::min\<close> and \<^verbatim>\<open>std::max\<close> on doubles.\<close>

definition double_min :: "double \<Rightarrow> double \<Rightarrow> double" where
  "double_min l r = (if double_less r l then r else l)"

definition double_max :: "double \<Rightarrow> double \<Rightarrow> double" where
  "double_max l r = (if double_less l r then r else l)"

section \<open>Costs and metrics\<close>

record cost =
  latencyCycles :: double
  dramBytes :: nat
  localBytes :: nat
  spillBytes :: nat
  computeUtilization :: double
  transferUtilization :: double

definition zero_cost :: cost where
  "zero_cost = \<lparr>latencyCycles = Finite 0, dramBytes = 0, localBytes = 0, spillBytes = 0,
     computeUtilization = Finite 0, transferUtilization = Finite 0\<rparr>"

datatype cost_metric = LatencyCycles | DramBytes | LocalBytes | SpillBytes | ComputeUtilization | TransferUtilization

definition kMetrics :: "(cost_metric \<times> string) list" where
  "kMetrics = [(LatencyCycles, ''latency_cycles''), (DramBytes, ''dram_bytes''), (LocalBytes, ''local_bytes''),
     (SpillBytes, ''spill_bytes''), (ComputeUtilization, ''compute_utilization''),
     (TransferUtilization, ''transfer_utilization'')]"

definition stringifyCostMetric :: "cost_metric \<Rightarrow> string" where
  "stringifyCostMetric metric = (case map_of kMetrics metric of Some name \<Rightarrow> name | None \<Rightarrow> [])"

definition symbolizeCostMetric :: "string \<Rightarrow> cost_metric option" where
  "symbolizeCostMetric text = map_option fst (find (\<lambda>info. snd info = text) kMetrics)"

definition symbolizeMicroMetric :: "string \<Rightarrow> cost_metric option" where
  "symbolizeMicroMetric text =
     (if text = ''latency_cycles'' then Some LatencyCycles
      else if text = ''dram_bytes'' then Some DramBytes
      else if text = ''sram_bytes'' then Some LocalBytes
      else if text = ''matrix_utilization'' then Some ComputeUtilization
      else if text = ''dma_utilization'' then Some TransferUtilization
      else if text = ''capacity_spill_bytes'' then Some SpillBytes
      else symbolizeCostMetric text)"

fun costMetric :: "cost \<Rightarrow> cost_metric \<Rightarrow> double" where
  "costMetric c LatencyCycles = latencyCycles c"
| "costMetric c DramBytes = double_of_nat (dramBytes c)"
| "costMetric c LocalBytes = double_of_nat (localBytes c)"
| "costMetric c SpillBytes = double_of_nat (spillBytes c)"
| "costMetric c ComputeUtilization = computeUtilization c"
| "costMetric c TransferUtilization = transferUtilization c"

definition addCost :: "cost \<Rightarrow> cost \<Rightarrow> cost" where
  "addCost lhs rhs = \<lparr>latencyCycles = double_add (latencyCycles lhs) (latencyCycles rhs),
     dramBytes = wrap64 (dramBytes lhs + dramBytes rhs), localBytes = wrap64 (localBytes lhs + localBytes rhs),
     spillBytes = wrap64 (spillBytes lhs + spillBytes rhs),
     computeUtilization = double_add (computeUtilization lhs) (computeUtilization rhs),
     transferUtilization = double_add (transferUtilization lhs) (transferUtilization rhs)\<rparr>"

section \<open>Ranking\<close>

record objective_order =
  primary :: cost_metric
  secondary :: "cost_metric list"
  minimize :: bool

definition compare_metric :: "objective_order \<Rightarrow> cost \<Rightarrow> cost \<Rightarrow> cost_metric \<Rightarrow> int" where
  "compare_metric order lhs rhs metric =
     (let l = costMetric lhs metric; r = costMetric rhs metric in
      if double_eq l r then 0
      else if (if minimize order then double_less l r else double_less r l) then - 1 else 1)"

fun compare_metrics :: "objective_order \<Rightarrow> cost \<Rightarrow> cost \<Rightarrow> cost_metric list \<Rightarrow> bool" where
  "compare_metrics order lhs rhs [] = False"
| "compare_metrics order lhs rhs (metric # rest) =
     (let verdict = compare_metric order lhs rhs metric in
      if verdict \<noteq> 0 then verdict < 0 else compare_metrics order lhs rhs rest)"

definition costLess :: "cost \<Rightarrow> cost \<Rightarrow> objective_order \<Rightarrow> bool" where
  "costLess lhs rhs order = compare_metrics order lhs rhs (primary order # secondary order)"

definition ranksBefore :: "cost \<Rightarrow> nat \<Rightarrow> cost \<Rightarrow> nat \<Rightarrow> objective_order \<Rightarrow> bool" where
  "ranksBefore lhs lhsId rhs rhsId order =
     (if costLess lhs rhs order then True
      else if costLess rhs lhs order then False
      else lhsId < rhsId)"

definition bestCostForObjective :: "cost \<Rightarrow> cost \<Rightarrow> objective_order \<Rightarrow> cost" where
  "bestCostForObjective lhs rhs order =
     (let pick = (\<lambda>f. if minimize order then double_min (f lhs) (f rhs) else double_max (f lhs) (f rhs));
          pickUnsigned = (\<lambda>f. if minimize order then min (f lhs) (f rhs) else max (f lhs) (f rhs)) in
      \<lparr>latencyCycles = pick latencyCycles, dramBytes = pickUnsigned dramBytes, localBytes = pickUnsigned localBytes,
       spillBytes = pickUnsigned spillBytes, computeUtilization = pick computeUtilization,
       transferUtilization = pick transferUtilization\<rparr>)"

definition infiniteCost :: cost where
  "infiniteCost = \<lparr>latencyCycles = PlusInf, dramBytes = uint64_max, localBytes = uint64_max, spillBytes = uint64_max,
     computeUtilization = PlusInf, transferUtilization = PlusInf\<rparr>"

definition boundIsDead :: "cost \<Rightarrow> bool" where
  "boundIsDead c \<longleftrightarrow> is_inf (latencyCycles c) \<and> is_inf (computeUtilization c) \<and> is_inf (transferUtilization c) \<and>
     dramBytes c = uint64_max \<and> localBytes c = uint64_max \<and> spillBytes c = uint64_max"

definition boundIsBetterThan :: "cost \<Rightarrow> cost \<Rightarrow> objective_order \<Rightarrow> bool" where
  "boundIsBetterThan lhs rhs order =
     (if boundIsDead lhs then False else if boundIsDead rhs then True else costLess lhs rhs order)"


section \<open>Aggregation\<close>

datatype cost_error =
    NoSamples
  | BadWeight
  | NonFiniteLatency
  | WeightOverflow
  | UnrepresentableCount string
  | LlroundOutOfRange  \<comment> \<open>\<^verbatim>\<open>std::llround\<close> beyond \<^verbatim>\<open>long long\<close>, unspecified in C++\<close>
  | NonFiniteMetric
  | UnknownMetric string
  | UnknownSecondaryMetric string
  | MemoryNotModeled
  | NoVectorResource
  | UnknownFootprint
  | DynamicExtent
  | UnsizedElement
  | UnknownComputeResource string
  | NoComputeResource
  | UnknownMemoryNode string
  | NotAVectorEngine
  | MemoryNotVisible

record weighted_cost =
  wc_cost :: cost
  weight :: double

record totals =
  totalWeight :: double
  latency_sum :: double
  dram_sum :: double
  local_sum :: double
  spill_sum :: double
  compute_sum :: double
  transfer_sum :: double

definition add_sample :: "weighted_cost \<Rightarrow> totals \<Rightarrow> (cost_error, totals) expected" where
  "add_sample sample t =
     (let w = weight sample; c = wc_cost sample; acc = (\<lambda>s v. double_add s (double_mult v w)) in
      if \<not> is_finite w \<or> double_less w (Finite 0) \<or> double_eq w (Finite 0) then Inl BadWeight
      else if \<not> is_finite (latencyCycles c) then Inl NonFiniteLatency
      else Inr \<lparr>totalWeight = double_add (totalWeight t) w,
        latency_sum = acc (latency_sum t) (latencyCycles c),
        dram_sum = acc (dram_sum t) (double_of_nat (dramBytes c)),
        local_sum = acc (local_sum t) (double_of_nat (localBytes c)),
        spill_sum = acc (spill_sum t) (double_of_nat (spillBytes c)),
        compute_sum = acc (compute_sum t) (computeUtilization c),
        transfer_sum = acc (transfer_sum t) (transferUtilization c)\<rparr>)"

fun sum_samples :: "weighted_cost list \<Rightarrow> totals \<Rightarrow> (cost_error, totals) expected" where
  "sum_samples [] t = Inr t"
| "sum_samples (s # ss) t = bindR (add_sample s t) (sum_samples ss)"

text \<open>Rounding half away from zero of a nonnegative mean.\<close>

definition round_count :: "double \<Rightarrow> double \<Rightarrow> string \<Rightarrow> (cost_error, nat) expected" where
  "round_count weight_sum value what =
     (let mean = double_div value weight_sum in
      if \<not> is_finite mean \<or> double_less mean (Finite 0) \<or> double_less (double_of_nat uint64_max) mean
      then Inl (UnrepresentableCount what)
      else let n = nat \<lfloor>double_value mean + 1 / 2\<rfloor> in
        if int n > int64_max then Inl LlroundOutOfRange else Inr n)"

definition weightedMeanCost :: "weighted_cost list \<Rightarrow> (cost_error, cost) expected" where
  "weightedMeanCost samples =
     (if samples = [] then Inl NoSamples
      else let z = Finite 0 in
        bindR (sum_samples samples \<lparr>totalWeight = z, latency_sum = z, dram_sum = z, local_sum = z, spill_sum = z,
            compute_sum = z, transfer_sum = z\<rparr>) (\<lambda>t.
          if \<not> is_finite (totalWeight t) \<or> double_less (totalWeight t) z \<or> double_eq (totalWeight t) z then Inl WeightOverflow
          else bindR (round_count (totalWeight t) (dram_sum t) ''dram byte count'') (\<lambda>dram.
            bindR (round_count (totalWeight t) (local_sum t) ''local byte count'') (\<lambda>local.
              bindR (round_count (totalWeight t) (spill_sum t) ''spill byte count'') (\<lambda>spill.
                let result = \<lparr>latencyCycles = double_div (latency_sum t) (totalWeight t),
                      dramBytes = dram, localBytes = local, spillBytes = spill,
                      computeUtilization = double_div (compute_sum t) (totalWeight t),
                      transferUtilization = double_div (transfer_sum t) (totalWeight t)\<rparr> in
                if \<not> is_finite (latencyCycles result) \<or> \<not> is_finite (computeUtilization result)
                    \<or> \<not> is_finite (transferUtilization result)
                then Inl NonFiniteMetric else Inr result)))))"

definition machineSyncPeriodCycles :: "machine_model \<Rightarrow> double option" where
  "machineSyncPeriodCycles m =
     (let cycles = wrap64 (barrierCycles (sync m) + waitCycles (sync m)) in
      if cycles = 0 then None else Some (double_of_nat cycles))"

definition utilizationEstimate :: "double \<Rightarrow> machine_model \<Rightarrow> nat \<Rightarrow> double option" where
  "utilizationEstimate busyCycles m parallelUnits =
     (if parallelUnits = 0 then None
      else map_option (\<lambda>period. double_div busyCycles (double_mult period (double_of_nat parallelUnits)))
        (machineSyncPeriodCycles m))"

fun resolve_secondary :: "string list \<Rightarrow> (cost_error, cost_metric list) expected" where
  "resolve_secondary [] = Inr []"
| "resolve_secondary (spelling # rest) =
     (case symbolizeMicroMetric spelling of
        None \<Rightarrow> Inl (UnknownSecondaryMetric spelling)
      | Some metric \<Rightarrow> bindR (resolve_secondary rest) (\<lambda>metrics. Inr (metric # metrics)))"

definition objectiveOrderFromMicro :: "string \<Rightarrow> bool \<Rightarrow> string list \<Rightarrow> (cost_error, objective_order) expected" where
  "objectiveOrderFromMicro metric minimise spellings =
     (case symbolizeMicroMetric metric of
        None \<Rightarrow> Inl (UnknownMetric metric)
      | Some p \<Rightarrow> bindR (resolve_secondary spellings) (\<lambda>metrics.
          Inr \<lparr>primary = p, secondary = metrics, minimize = minimise\<rparr>))"

definition canonicalCostString :: "cost \<Rightarrow> string" where
  "canonicalCostString c =
     fold (\<lambda>(metric, name) out.
         (if out \<noteq> [] then out @ '';'' else out) @ name @ ''='' @ formatDouble (costMetric c metric)) kMetrics []"

section \<open>Element types and layout conversions\<close>

text \<open>What the model reads of an \<^verbatim>\<open>mlir::Type\<close>: floats by kind and width, integers by width.\<close>

datatype elem_type = F64 | F32 | F16 | BF16 | OtherFloat nat | IntegerElem nat | OtherElem

fun elementTypeName :: "elem_type option \<Rightarrow> string" where
  "elementTypeName None = []"
| "elementTypeName (Some F64) = ''f64''"
| "elementTypeName (Some F32) = ''f32''"
| "elementTypeName (Some F16) = ''f16''"
| "elementTypeName (Some BF16) = ''bf16''"
| "elementTypeName (Some (OtherFloat w)) = CHR ''f'' # nat_to_string w"
| "elementTypeName (Some (IntegerElem w)) = CHR ''i'' # nat_to_string w"
| "elementTypeName (Some OtherElem) = []"

fun elem_width :: "elem_type \<Rightarrow> nat option" where
  "elem_width F64 = Some 64"
| "elem_width F32 = Some 32"
| "elem_width F16 = Some 16"
| "elem_width BF16 = Some 16"
| "elem_width (OtherFloat w) = Some w"
| "elem_width (IntegerElem w) = Some w"
| "elem_width OtherElem = None"

definition divideCeil :: "nat \<Rightarrow> nat \<Rightarrow> nat" where "divideCeil n d = (n + d - 1) div d"

definition elementByteWidth :: "elem_type option \<Rightarrow> nat option" where
  "elementByteWidth t = (case t of None \<Rightarrow> None | Some e \<Rightarrow> map_option (\<lambda>w. divideCeil w 8) (elem_width e))"

text \<open>The lanes of an engine for an element type: one when it declares none.\<close>

definition issue_lanes :: "compute_node \<Rightarrow> string \<Rightarrow> nat" where
  "issue_lanes engine dtype =
     (case map_of (lanes engine) dtype of Some n \<Rightarrow> if n > 0 then nat n else 1 | None \<Rightarrow> 1)"

definition elementwiseCycles :: "compute_node \<Rightarrow> string \<Rightarrow> nat \<Rightarrow> nat" where
  "elementwiseCycles engine dtype elements =
     wrap64 (divideCeil elements (issue_lanes engine dtype) * max 1 (issueCycles engine))"

definition selectTransformResource :: "machine_model \<Rightarrow> string \<Rightarrow> (cost_error, string) expected" where
  "selectTransformResource m memoryNode =
     (if findMemory m memoryNode = None then Inl MemoryNotModeled
      else case find (\<lambda>engine. isVisible m memoryNode (comp_attachedTo engine)) (computesOfKind m ''vector_engine'') of
          Some engine \<Rightarrow> Inr (comp_id engine)
        | None \<Rightarrow> Inl NoVectorResource)"

text \<open>A value type: shaped with its element count when static, or not shaped. Maps are compared only.\<close>

datatype value_type = ShapedType "nat option" elem_type | UnshapedType

record 'm transform_cost_input =
  inputType :: "value_type option"
  outputType :: "value_type option"
  srcMap :: "'m option"
  dstMap :: "'m option"
  memoryNode :: string
  computeResource :: string

fun as_shaped :: "value_type option \<Rightarrow> (nat option \<times> elem_type) option" where
  "as_shaped (Some (ShapedType n e)) = Some (n, e)"
| "as_shaped _ = None"

definition transformFootprintType :: "'m transform_cost_input \<Rightarrow> (nat option \<times> elem_type) option" where
  "transformFootprintType input =
     (case as_shaped (outputType input) of Some s \<Rightarrow> Some s | None \<Rightarrow> as_shaped (inputType input))"

definition transform_footprint :: "'m transform_cost_input \<Rightarrow> (cost_error, nat \<times> string \<times> nat) expected" where
  "transform_footprint input =
     (case transformFootprintType input of
        None \<Rightarrow> Inl UnknownFootprint
      | Some (None, _) \<Rightarrow> Inl DynamicExtent
      | Some (Some elements, e) \<Rightarrow>
          (case elementByteWidth (Some e) of
             None \<Rightarrow> Inl UnsizedElement
           | Some width \<Rightarrow>
               if elementTypeName (Some e) = [] then Inl UnsizedElement
               else Inr (elements, elementTypeName (Some e), width)))"

definition transform_engine :: "'m transform_cost_input \<Rightarrow> machine_model \<Rightarrow> (cost_error, compute_node) expected" where
  "transform_engine input m =
     (if computeResource input \<noteq> [] then
        (case findCompute m (computeResource input) of
           None \<Rightarrow> Inl (UnknownComputeResource (computeResource input))
         | Some engine \<Rightarrow> Inr engine)
      else (case computesOfKind m ''vector_engine'' of [] \<Rightarrow> Inl NoComputeResource | engine # _ \<Rightarrow> Inr engine))"

definition named_memory :: "machine_model \<Rightarrow> string \<Rightarrow> memory_node option" where
  "named_memory m name = (case findMemory m name of Some node \<Rightarrow> Some node | None \<Rightarrow> findMemoryOfKind m name)"

definition estimateTransformCost :: "'m transform_cost_input \<Rightarrow> machine_model \<Rightarrow> (cost_error, cost) expected" where
  "estimateTransformCost input m =
     bindR (transform_footprint input) (\<lambda>(elements, dtype, width).
       bindR (transform_engine input m) (\<lambda>engine.
         if memoryNode input \<noteq> [] \<and> named_memory m (memoryNode input) = None then Inl (UnknownMemoryNode (memoryNode input))
         else if comp_kind engine \<noteq> ''vector_engine'' then Inl NotAVectorEngine
         else if (case named_memory m (memoryNode input) of
             None \<Rightarrow> False
           | Some memory \<Rightarrow> \<not> isVisible m (mem_id memory) (comp_attachedTo engine)) then Inl MemoryNotVisible
         else
           let identity = srcMap input \<noteq> None \<and> dstMap input \<noteq> None \<and> srcMap input = dstMap input;
               latency = (if identity then Finite 0 else double_of_nat (elementwiseCycles engine dtype elements));
               utilization = (case utilizationEstimate latency m (workerThreads m) of None \<Rightarrow> Finite 0 | Some u \<Rightarrow> u) in
           Inr (zero_cost\<lparr>localBytes := wrap64 (elements * width), latencyCycles := latency,
             computeUtilization := utilization\<rparr>)))"


section \<open>Ranking is an order\<close>

definition no_nan :: "cost \<Rightarrow> bool" where
  "no_nan c \<longleftrightarrow> latencyCycles c \<noteq> NotANumber \<and> computeUtilization c \<noteq> NotANumber \<and> transferUtilization c \<noteq> NotANumber"

lemma no_nan_metric: "no_nan c \<Longrightarrow> costMetric c metric \<noteq> NotANumber"
  by (cases metric) (auto simp: no_nan_def double_of_nat_def)

text \<open>A family of strict weak orders, one per metric: \<open>same\<close> is the equivalence of \<open>before\<close>.\<close>

locale ranking =
  fixes before same :: "'m \<Rightarrow> 'c \<Rightarrow> 'c \<Rightarrow> bool"
  assumes before_irrefl: "\<not> before m a a"
    and before_trans: "before m a b \<Longrightarrow> before m b c \<Longrightarrow> before m a c"
    and before_same: "before m a b \<Longrightarrow> same m b c \<Longrightarrow> before m a c"
    and same_before: "same m a b \<Longrightarrow> before m b c \<Longrightarrow> before m a c"
    and same_trans: "same m a b \<Longrightarrow> same m b c \<Longrightarrow> same m a c"
    and same_sym: "same m a b \<Longrightarrow> same m b a"
    and before_not_same: "before m a b \<Longrightarrow> \<not> same m a b"

text \<open>The lexicographic combination along a list of metrics.\<close>

fun lex_before :: "('m \<Rightarrow> 'c \<Rightarrow> 'c \<Rightarrow> bool) \<Rightarrow> ('m \<Rightarrow> 'c \<Rightarrow> 'c \<Rightarrow> bool) \<Rightarrow> 'm list \<Rightarrow> 'c \<Rightarrow> 'c \<Rightarrow> bool" where
  "lex_before before same [] a b = False"
| "lex_before before same (m # ms) a b \<longleftrightarrow> before m a b \<or> (same m a b \<and> lex_before before same ms a b)"

definition tied :: "('m \<Rightarrow> 'c \<Rightarrow> 'c \<Rightarrow> bool) \<Rightarrow> 'm list \<Rightarrow> 'c \<Rightarrow> 'c \<Rightarrow> bool" where
  "tied same ms a b \<longleftrightarrow> (\<forall>m \<in> set ms. same m a b)"

lemma tied_Cons [simp]: "tied same (m # ms) a b \<longleftrightarrow> same m a b \<and> tied same ms a b" "tied same [] a b"
  by (simp_all add: tied_def)

context ranking
begin

lemma before_asym: "before m a b \<Longrightarrow> \<not> before m b a"
  using before_trans [of m a b a] before_irrefl by blast

lemma lex_asym: "lex_before before same ms a b \<Longrightarrow> \<not> lex_before before same ms b a"
proof (induction ms)
  case (Cons m ms)
  then show ?case
    using before_asym [of m a b] before_not_same [of m a b] before_not_same [of m b a] same_sym [of m a b] same_sym [of m b a]
    by auto
qed simp

lemma lex_trans: "lex_before before same ms a b \<Longrightarrow> lex_before before same ms b c \<Longrightarrow> lex_before before same ms a c"
proof (induction ms)
  case (Cons m ms)
  then show ?case
    using before_trans [of m a b c] before_same [of m a b c] same_before [of m a b c] same_trans [of m a b c] by auto
qed simp

lemma lex_tied: "lex_before before same ms a b \<Longrightarrow> tied same ms b c \<Longrightarrow> lex_before before same ms a c"
proof (induction ms)
  case (Cons m ms)
  then show ?case using before_same [of m a b c] same_trans [of m a b c] by auto
qed simp

lemma tied_lex: "tied same ms a b \<Longrightarrow> lex_before before same ms b c \<Longrightarrow> lex_before before same ms a c"
proof (induction ms)
  case (Cons m ms)
  then show ?case using same_before [of m a b c] same_trans [of m a b c] by auto
qed simp

lemma lex_total:
  "(\<And>m. before m a b \<or> same m a b \<or> before m b a) \<Longrightarrow>
     lex_before before same ms a b \<or> tied same ms a b \<or> lex_before before same ms b a"
proof (induction ms)
  case (Cons m ms)
  then show ?case using Cons.prems [of m] same_sym [of m a b] by auto
qed simp

lemma tied_sym: "tied same ms a b \<Longrightarrow> tied same ms b a"
  using same_sym by (auto simp: tied_def)

lemma tied_trans: "tied same ms a b \<Longrightarrow> tied same ms b c \<Longrightarrow> tied same ms a c"
  using same_trans by (fastforce simp: tied_def)

lemma no_worse_not_before: "(\<And>m. before m a b \<or> same m a b) \<Longrightarrow> \<not> lex_before before same ms b a"
proof (induction ms)
  case (Cons m ms)
  then show ?case
    using Cons.prems [of m] before_asym [of m a b] before_not_same [of m b a] before_not_same [of m a b] same_sym [of m a b]
      same_sym [of m b a]
    by auto
qed simp

end

text \<open>The direction of an objective, as a strict order on one metric.\<close>

definition metric_before :: "objective_order \<Rightarrow> cost_metric \<Rightarrow> cost \<Rightarrow> cost \<Rightarrow> bool" where
  "metric_before order metric lhs rhs =
     (if minimize order then double_less (costMetric lhs metric) (costMetric rhs metric)
      else double_less (costMetric rhs metric) (costMetric lhs metric))"

definition metric_same :: "cost_metric \<Rightarrow> cost \<Rightarrow> cost \<Rightarrow> bool" where
  "metric_same metric lhs rhs = double_eq (costMetric lhs metric) (costMetric rhs metric)"

interpretation objective: ranking "metric_before order" metric_same for order
  by unfold_locales (auto simp: metric_before_def metric_same_def double_less_def double_eq_def split: if_splits)

lemma metric_total:
  assumes "no_nan a" "no_nan b"
  shows "metric_before order m a b \<or> metric_same m a b \<or> metric_before order m b a"
  using no_nan_metric [OF assms(1), of m] no_nan_metric [OF assms(2), of m]
  by (auto simp: metric_before_def metric_same_def double_less_def double_eq_def)

lemma compare_metrics_lex: "compare_metrics order a b ms = lex_before (metric_before order) metric_same ms a b"
proof (induction ms)
  case (Cons m ms)
  then show ?case
    using objective.before_not_same [of order m a b]
    by (auto simp: compare_metric_def Let_def metric_before_def metric_same_def)
qed simp

lemma costLess_lex: "costLess a b order = lex_before (metric_before order) metric_same (primary order # secondary order) a b"
  by (simp only: costLess_def compare_metrics_lex)

section \<open>Rounding is monotone\<close>

lemma round_half_even_mono:
  assumes "0 \<le> r" "r \<le> s"
  shows "round_half_even r \<le> round_half_even s"
proof (cases "\<lfloor>r\<rfloor> = \<lfloor>s\<rfloor>")
  case True
  then show ?thesis using assms by (auto simp: round_half_even_def Let_def)
next
  case False
  then have "\<lfloor>r\<rfloor> + 1 \<le> \<lfloor>s\<rfloor>" using floor_mono [OF assms(2)] by simp
  then show ?thesis using assms by (auto simp: round_half_even_def Let_def)
qed

lemma round_half_even_nat: "round_half_even (of_nat n) = n"
  by (simp add: round_half_even_def)

lemma round53_bounds:
  assumes "0 < n"
  shows "2 ^ (floorlog 2 n - 1) \<le> round53 n" "round53 n \<le> 2 ^ floorlog 2 n"
proof -
  let ?e = "floorlog 2 n" and ?k = "floorlog 2 n - 53"
  have e: "2 ^ (?e - 1) \<le> n" "n < 2 ^ ?e" "0 < ?e" using assms floorlog_bounds [of n 2] floorlog_eq_zero_iff [of 2 n] by (auto intro: gr0I)
  have split: "(2::nat) ^ ?e = 2 ^ (?e - ?k) * 2 ^ ?k" by (simp add: power_add [symmetric])
  have "round_half_even (of_nat n / 2 ^ ?k) \<le> round_half_even (of_nat (2 ^ (?e - ?k)))"
  proof (rule round_half_even_mono)
    have "of_nat n \<le> (of_nat (2 ^ (?e - ?k) * 2 ^ ?k) :: rat)" using e(2) split by (intro of_nat_mono) simp
    then show "of_nat n / 2 ^ ?k \<le> (of_nat (2 ^ (?e - ?k)) :: rat)" by (simp add: field_simps)
  qed simp
  then have "round_half_even (of_nat n / 2 ^ ?k) \<le> 2 ^ (?e - ?k)" by (simp only: round_half_even_nat)
  then have "round_half_even (of_nat n / 2 ^ ?k) * 2 ^ ?k \<le> 2 ^ (?e - ?k) * 2 ^ ?k" by (rule mult_right_mono) simp
  then show "round53 n \<le> 2 ^ ?e" by (simp only: round53_def Let_def split)
  have split': "(2::nat) ^ (?e - 1) = 2 ^ (?e - 1 - ?k) * 2 ^ ?k"
    using e(3) by (simp add: power_add [symmetric])
  have "round_half_even (of_nat (2 ^ (?e - 1 - ?k))) \<le> round_half_even (of_nat n / 2 ^ ?k)"
  proof (rule round_half_even_mono)
    have "(of_nat (2 ^ (?e - 1 - ?k) * 2 ^ ?k) :: rat) \<le> of_nat n" using e(1) split' by (intro of_nat_mono) simp
    then show "(of_nat (2 ^ (?e - 1 - ?k)) :: rat) \<le> of_nat n / 2 ^ ?k" by (simp add: field_simps)
  qed simp
  then have "2 ^ (?e - 1 - ?k) \<le> round_half_even (of_nat n / 2 ^ ?k)" by (simp only: round_half_even_nat)
  then have "2 ^ (?e - 1 - ?k) * 2 ^ ?k \<le> round_half_even (of_nat n / 2 ^ ?k) * 2 ^ ?k" by (rule mult_right_mono) simp
  then show "2 ^ (?e - 1) \<le> round53 n" by (simp only: round53_def Let_def split')
qed

lemma round53_mono: "m \<le> n \<Longrightarrow> round53 m \<le> round53 n"
proof (cases "m = 0")
  case True
  then show ?thesis using round_half_even_nat [of 0] by (simp add: round53_def)
next
  case False
  assume "m \<le> n"
  then have le: "floorlog 2 m \<le> floorlog 2 n" by (intro floorlog_mono)
  show ?thesis
  proof (cases "floorlog 2 m = floorlog 2 n")
    case True
    have "round_half_even (of_nat m / 2 ^ (floorlog 2 n - 53)) \<le> round_half_even (of_nat n / 2 ^ (floorlog 2 n - 53))"
      using \<open>m \<le> n\<close> by (intro round_half_even_mono divide_right_mono) auto
    then show ?thesis using True by (simp add: round53_def Let_def)
  next
    case lt: False
    have "round53 m \<le> 2 ^ floorlog 2 m" using False round53_bounds(2) by simp
    also have "(2::nat) ^ floorlog 2 m \<le> 2 ^ (floorlog 2 n - 1)" using le lt by (intro power_increasing) auto
    also have "\<dots> \<le> round53 n" using False \<open>m \<le> n\<close> by (intro round53_bounds(1)) auto
    finally show ?thesis .
  qed
qed


text \<open>A value at least as good as another, in the order of doubles.\<close>

definition double_le :: "double \<Rightarrow> double \<Rightarrow> bool" where
  "double_le a b \<longleftrightarrow> double_less a b \<or> double_eq a b"

lemma double_le_pick:
  assumes "l \<noteq> NotANumber" "r \<noteq> NotANumber"
  shows "double_le (double_min l r) l" "double_le (double_min l r) r" "double_le l (double_max l r)" "double_le r (double_max l r)"
  using assms by (auto simp: double_le_def double_min_def double_max_def double_less_def double_eq_def)

lemma double_le_count: "m \<le> n \<Longrightarrow> double_le (double_of_nat m) (double_of_nat n)"
  using round53_mono [of m n] by (auto simp: double_le_def double_of_nat_def double_less_def double_eq_def)

lemma no_worse_iff:
  "metric_before order m a b \<or> metric_same m a b \<longleftrightarrow>
     (if minimize order then double_le (costMetric a m) (costMetric b m) else double_le (costMetric b m) (costMetric a m))"
  by (auto simp: metric_before_def metric_same_def double_le_def double_eq_def)

lemma best_no_worse:
  assumes "no_nan a" "no_nan b" "c = a \<or> c = b"
  shows "metric_before order m (bestCostForObjective a b order) c \<or> metric_same m (bestCostForObjective a b order) c"
proof -
  note facts = assms(1,2) [unfolded no_nan_def]
  show ?thesis
    unfolding no_worse_iff using assms(3) facts
    by (elim disjE; cases m; cases "minimize order")
      (simp_all add: bestCostForObjective_def double_le_pick double_le_count)
qed

text \<open>Ranking with ids as tie breakers.\<close>

context ranking
begin

definition ranks :: "'m list \<Rightarrow> 'c \<Rightarrow> 'i::linorder \<Rightarrow> 'c \<Rightarrow> 'i \<Rightarrow> bool" where
  "ranks ms a i b j \<longleftrightarrow> lex_before before same ms a b \<or> (tied same ms a b \<and> i < j)"

lemma ranks_trans: "ranks ms a i b j \<Longrightarrow> ranks ms b j c k \<Longrightarrow> ranks ms a i c k"
  unfolding ranks_def using lex_trans [of ms a b c] lex_tied [of ms a b c] tied_lex [of ms a b c] tied_trans [of ms a b c]
    less_trans [of i j k]
  by (elim disjE conjE) simp_all

lemma tied_not_lex: "tied same ms a b \<Longrightarrow> \<not> lex_before before same ms a b"
  using tied_lex [of ms b a b] lex_asym [of ms b b] tied_sym [of ms a b] lex_tied [of ms a b a] lex_asym [of ms a a] by blast

lemma ranks_irrefl: "\<not> ranks ms a i a i"
  using lex_asym [of ms a a] by (auto simp: ranks_def)

lemma ranks_total:
  assumes "\<And>m. before m a b \<or> same m a b \<or> before m b a" "i \<noteq> j"
  shows "ranks ms a i b j \<noteq> ranks ms b j a i"
  using lex_total [OF assms(1), of ms] tied_sym [of ms a b] tied_sym [of ms b a] tied_not_lex [of ms a b] tied_not_lex [of ms b a]
    lex_asym [of ms a b] lex_asym [of ms b a] assms(2)
  by (auto simp: ranks_def)

end

lemma ranksBefore_ranks:
  assumes "no_nan a" "no_nan b"
  shows "ranksBefore a i b j order =
    objective.ranks order (primary order # secondary order) a i b j"
  using objective.lex_total [OF metric_total [OF assms], where ms = "primary order # secondary order" and order = order]
    objective.tied_not_lex [of "primary order # secondary order" a b order]
    objective.tied_not_lex [of "primary order # secondary order" b a order]
    objective.tied_sym [of "primary order # secondary order" a b]
    objective.lex_asym [of order "primary order # secondary order" b a]
  unfolding ranksBefore_def costLess_lex objective.ranks_def by argo

section \<open>Properties\<close>

text \<open>The ranking of plans is a strict total order. On costs without NaN it is irreflexive, transitive and,
  for different plan ids, total, whatever the objective, so the best plan does not depend on
  the order in which the plans are found.\<close>

theorem ranking_strict_total:
  assumes "no_nan a" "no_nan b" "no_nan c"
  shows "\<not> ranksBefore a i a i order \<and>
    (ranksBefore a i b j order \<and> ranksBefore b j c k order \<longrightarrow> ranksBefore a i c k order) \<and>
    (i \<noteq> j \<longrightarrow> ranksBefore a i b j order \<noteq> ranksBefore b j a i order)"
  using objective.ranks_irrefl objective.ranks_trans [of order _ a i b j c k]
    objective.ranks_total [OF metric_total [OF assms(1,2)]]
  by (simp only: ranksBefore_ranks assms) blast

lemma ranking_strict_total_witness:
  "ranksBefore (zero_cost\<lparr>dramBytes := 4\<rparr>) 7 zero_cost 9 \<lparr>primary = LatencyCycles, secondary = [DramBytes], minimize = False\<rparr>
     \<noteq> ranksBefore zero_cost 9 (zero_cost\<lparr>dramBytes := 4\<rparr>) 7 \<lparr>primary = LatencyCycles, secondary = [DramBytes], minimize = False\<rparr>"
  using ranking_strict_total [of "zero_cost\<lparr>dramBytes := 4\<rparr>" zero_cost zero_cost 7
      "\<lparr>primary = LatencyCycles, secondary = [DramBytes], minimize = False\<rparr>" 9 0]
  by (simp add: no_nan_def zero_cost_def)

text \<open>The optimistic combination of two costs is admissible: no objective ranks either cost strictly ahead of their
  component-wise best, including the dimensions that are counted in 64-bit integers and compared as
  rounded doubles; and a dead bound is never better than anything.\<close>

theorem best_cost_admissible:
  assumes "no_nan a" "no_nan b"
  shows "\<not> costLess a (bestCostForObjective a b order) order \<and> \<not> costLess b (bestCostForObjective a b order) order \<and>
    \<not> boundIsBetterThan infiniteCost a order \<and> (boundIsBetterThan a infiniteCost order \<longleftrightarrow> \<not> boundIsDead a)"
proof -
  have "\<not> costLess a (bestCostForObjective a b order) order" "\<not> costLess b (bestCostForObjective a b order) order"
    unfolding costLess_lex by (intro objective.no_worse_not_before best_no_worse assms; simp)+
  moreover have "boundIsDead infiniteCost" by (simp add: boundIsDead_def infiniteCost_def is_inf_def)
  ultimately show ?thesis by (simp add: boundIsBetterThan_def)
qed

lemma best_cost_admissible_witness:
  "\<not> costLess zero_cost (bestCostForObjective zero_cost infiniteCost \<lparr>primary = LocalBytes, secondary = [], minimize = True\<rparr>)
     \<lparr>primary = LocalBytes, secondary = [], minimize = True\<rparr>"
  using best_cost_admissible [of zero_cost infiniteCost "\<lparr>primary = LocalBytes, secondary = [], minimize = True\<rparr>"]
  by (simp add: no_nan_def zero_cost_def infiniteCost_def)

end
