(* ===== verification/Binary64.thy ===== *)
theory Binary64
  imports CostModel
begin

text \<open>
  Facts on the rounding of the cost model's binary64 arithmetic that the searches need: rounding is monotone and
  fixes the numbers it produces, so adding a nonnegative cost never makes a sum smaller.
\<close>

section \<open>Powers of two and exponents\<close>

lemma two_power_powi: "two_power e = 2 powi e"
  by (simp add: two_power_def power_int_def power_one_over inverse_eq_divide)

lemma two_power_pos [simp]: "0 < two_power e"
  by (simp add: two_power_def)

lemma two_power_add: "two_power (a + b) = two_power a * two_power b"
  by (simp add: two_power_powi power_int_add)

lemma two_power_ne [simp]: "two_power e \<noteq> 0"
  by (simp add: two_power_def)

lemma two_power_nat: "two_power (int n) = 2 ^ n"
  by (simp add: two_power_def)

lemma two_power_shift: "2 ^ n * two_power e = two_power (e + int n)"
  by (simp add: two_power_add two_power_nat)

lemma two_power_le [simp]: "two_power a \<le> two_power b \<longleftrightarrow> a \<le> b"
proof -
  have less: "a < b \<Longrightarrow> two_power a < two_power b" for a b
    using power_int_strict_increasing [of a b "2::rat"] by (simp add: two_power_powi)
  show ?thesis using less [of a b] less [of b a] by (cases a b rule: linorder_cases) auto
qed

lemma two_power_less [simp]: "two_power a < two_power b \<longleftrightarrow> a < b"
  by (simp add: not_le [symmetric])

lemma floorlog_bounds:
  assumes "0 < n"
  shows "2 ^ (floorlog 2 n - 1) \<le> n" "n < 2 ^ floorlog 2 n" "0 < floorlog 2 n"
  using floorlog_bounds [of n 2] assms by (auto simp: floorlog_def)

lemma exponent_of_bounds:
  assumes "0 < r"
  shows "two_power (exponent_of r) \<le> r" "r < two_power (exponent_of r + 1)"
proof -
  obtain n d where nd: "quotient_of r = (n, d)" by fastforce
  have d: "0 < d" and r: "r = of_int n / of_int d"
    using quotient_of_denom_pos [OF nd] quotient_of_div [OF nd] by auto
  have n: "0 < n" using assms d r by (simp add: zero_less_divide_iff)
  let ?fn = "floorlog 2 (nat n)" and ?fd = "floorlog 2 (nat d)"
  have num: "two_power (int ?fn - 1) \<le> of_int n" "of_int n < two_power (int ?fn)"
  proof -
    have "2 ^ (?fn - 1) \<le> nat n" "nat n < 2 ^ ?fn" "0 < ?fn" using floorlog_bounds [of "nat n"] n by auto
    then have "(2::rat) ^ (?fn - 1) \<le> of_nat (nat n)" "of_nat (nat n) < (2::rat) ^ ?fn"
      by (simp_all add: numeral_power_le_of_nat_cancel_iff of_nat_less_numeral_power_cancel_iff)
    then show "two_power (int ?fn - 1) \<le> of_int n" "of_int n < two_power (int ?fn)"
      using n \<open>0 < ?fn\<close> two_power_nat [of "?fn - 1"] two_power_nat [of ?fn] by (simp_all add: of_nat_diff)
  qed
  have den: "two_power (int ?fd - 1) \<le> of_int d" "of_int d < two_power (int ?fd)"
  proof -
    have "2 ^ (?fd - 1) \<le> nat d" "nat d < 2 ^ ?fd" "0 < ?fd" using floorlog_bounds [of "nat d"] d by auto
    then have "(2::rat) ^ (?fd - 1) \<le> of_nat (nat d)" "of_nat (nat d) < (2::rat) ^ ?fd"
      by (simp_all add: numeral_power_le_of_nat_cancel_iff of_nat_less_numeral_power_cancel_iff)
    then show "two_power (int ?fd - 1) \<le> of_int d" "of_int d < two_power (int ?fd)"
      using d \<open>0 < ?fd\<close> two_power_nat [of "?fd - 1"] two_power_nat [of ?fd] by (simp_all add: of_nat_diff)
  qed
  have D: "0 < (of_int d :: rat)" using d by simp
  let ?e = "int ?fn - int ?fd"
  have lower: "two_power (?e - 1) \<le> r"
  proof -
    have "two_power (?e - 1) * of_int d \<le> two_power (?e - 1) * two_power (int ?fd)" using den by simp
    also have "\<dots> = two_power (int ?fn - 1)" by (simp add: two_power_add [symmetric])
    finally show ?thesis using num(1) D r by (simp add: pos_le_divide_eq)
  qed
  have upper: "r < two_power (?e + 1)"
  proof -
    have "of_int n < two_power (int ?fn)" by (rule num(2))
    also have "\<dots> = two_power (?e + 1) * two_power (int ?fd - 1)" by (simp add: two_power_add [symmetric])
    also have "\<dots> \<le> two_power (?e + 1) * of_int d" using den by simp
    finally show ?thesis using D r by (simp add: pos_divide_less_eq)
  qed
  have "exponent_of r = (if r \<ge> two_power ?e then ?e else ?e - 1)" by (simp add: exponent_of_def nd Let_def)
  then show "two_power (exponent_of r) \<le> r" "r < two_power (exponent_of r + 1)"
    using lower upper by (auto split: if_splits)
qed

lemma exponent_of_less: "0 < r \<Longrightarrow> r < two_power e \<Longrightarrow> exponent_of r < e"
  using le_less_trans [OF exponent_of_bounds(1) [of r], of "two_power e"] by simp

lemma exponent_of_ge: "0 < r \<Longrightarrow> two_power e \<le> r \<Longrightarrow> e \<le> exponent_of r"
  using le_less_trans [OF _ exponent_of_bounds(2) [of r], of "two_power e"] by simp

lemma exponent_of_mono: "0 < r \<Longrightarrow> r \<le> s \<Longrightarrow> exponent_of r \<le> exponent_of s"
  using exponent_of_ge [of s "exponent_of r"] exponent_of_bounds(1) [of r] by simp


section \<open>Rounding\<close>

definition ulp_exponent :: "rat \<Rightarrow> int" where
  "ulp_exponent r = max (exponent_of r) (- 1022) - 52"

definition rounded :: "rat \<Rightarrow> rat" where
  "rounded r = of_nat (round_half_even (r / two_power (ulp_exponent r))) * two_power (ulp_exponent r)"

lemma ulp_exponent_mono: "0 < r \<Longrightarrow> r \<le> s \<Longrightarrow> ulp_exponent r \<le> ulp_exponent s"
  using exponent_of_mono [of r s] by (simp add: ulp_exponent_def)

lemma round_double_rounded:
  "0 < r \<Longrightarrow> round_double r =
     (if rounded r \<ge> two_power 1024 then PlusInf else Finite (rounded r))"
  by (simp add: round_double_def Let_def rounded_def ulp_exponent_def)

lemma rounded_nonneg: "0 \<le> rounded r"
  by (simp add: rounded_def less_imp_le)

text \<open>The quotient by the unit in the last place has at most 53 bits.\<close>

lemma mantissa_bound:
  assumes "0 < r"
  shows "r / two_power (ulp_exponent r) < 2 ^ 53" "round_half_even (r / two_power (ulp_exponent r)) \<le> 2 ^ 53"
proof -
  have "r < two_power (ulp_exponent r + 53)"
  proof (cases "- 1022 \<le> exponent_of r")
    case True
    then have "ulp_exponent r + 53 = exponent_of r + 1" by (simp add: ulp_exponent_def)
    then show ?thesis using exponent_of_bounds(2) [OF assms] by (simp only:)
  next
    case False
    then have "exponent_of r + 1 \<le> ulp_exponent r + 53" by (simp add: ulp_exponent_def)
    then show ?thesis using exponent_of_bounds(2) [OF assms] by (meson less_le_trans two_power_le)
  qed
  also have "\<dots> = 2 ^ 53 * two_power (ulp_exponent r)" using two_power_nat [of 53] by (simp add: two_power_add)
  finally show less: "r / two_power (ulp_exponent r) < 2 ^ 53" by (simp add: pos_divide_less_eq)
  have "round_half_even (r / two_power (ulp_exponent r)) \<le> round_half_even (of_nat (2 ^ 53))"
    using less assms by (intro round_half_even_mono) (simp_all add: less_imp_le)
  then show "round_half_even (r / two_power (ulp_exponent r)) \<le> 2 ^ 53" by (simp only: round_half_even_nat)
qed

lemma rounded_mono:
  assumes "0 < r" "r \<le> s"
  shows "rounded r \<le> rounded s"
proof (cases "ulp_exponent r = ulp_exponent s")
  case True
  have "r / two_power (ulp_exponent s) \<le> s / two_power (ulp_exponent s)" using assms(2) by (simp add: divide_right_mono less_imp_le)
  then have "round_half_even (r / two_power (ulp_exponent s)) \<le> round_half_even (s / two_power (ulp_exponent s))"
    using assms by (intro round_half_even_mono) (simp_all add: less_imp_le)
  then show ?thesis by (simp add: rounded_def True)
next
  case False
  then have less: "ulp_exponent r + 1 \<le> ulp_exponent s" using ulp_exponent_mono [OF assms] by simp
  then have us: "ulp_exponent s = exponent_of s - 52" by (auto simp: ulp_exponent_def)
  have "of_nat (round_half_even (r / two_power (ulp_exponent r))) \<le> (2::rat) ^ 53"
    using mantissa_bound(2) [OF assms(1)] by (metis of_nat_le_iff of_nat_numeral of_nat_power)
  then have "rounded r \<le> 2 ^ 53 * two_power (ulp_exponent r)" by (simp add: rounded_def)
  also have "\<dots> = 2 ^ 52 * two_power (ulp_exponent r + 1)" using two_power_nat [of 1] by (simp add: two_power_add)
  also have "\<dots> \<le> 2 ^ 52 * two_power (ulp_exponent s)" using less by simp
  also have "\<dots> \<le> rounded s"
  proof -
    have "2 ^ 52 * two_power (ulp_exponent s) = two_power (exponent_of s)"
      using two_power_shift [of 52 "ulp_exponent s"] us by simp
    then have "2 ^ 52 * two_power (ulp_exponent s) \<le> s" using exponent_of_bounds(1) [of s] assms by simp
    then have "(of_nat (2 ^ 52) :: rat) \<le> s / two_power (ulp_exponent s)" by (simp add: pos_le_divide_eq)
    then have "round_half_even (of_nat (2 ^ 52)) \<le> round_half_even (s / two_power (ulp_exponent s))"
      by (intro round_half_even_mono) simp_all
    then have "2 ^ 52 \<le> round_half_even (s / two_power (ulp_exponent s))" by (simp only: round_half_even_nat)
    then have "(2::rat) ^ 52 \<le> of_nat (round_half_even (s / two_power (ulp_exponent s)))"
      by (metis of_nat_le_iff of_nat_numeral of_nat_power)
    then show ?thesis by (simp add: rounded_def)
  qed
  finally show ?thesis .
qed


text \<open>The numbers that rounding produces, and that it leaves as they are.\<close>

definition representable :: "rat \<Rightarrow> bool" where
  "representable r \<longleftrightarrow> r = 0 \<or> (\<exists>k j. r = of_nat k * two_power j \<and> 0 < k \<and> k \<le> 2 ^ 53 \<and> - 1074 \<le> j)"

lemma rounded_representable:
  assumes "0 < r"
  shows "representable (rounded r)"
proof (cases "round_half_even (r / two_power (ulp_exponent r)) = 0")
  case False
  moreover have "- 1074 \<le> ulp_exponent r" by (simp add: ulp_exponent_def)
  ultimately show ?thesis
    using mantissa_bound(2) [OF assms] unfolding representable_def rounded_def by blast
qed (simp add: representable_def rounded_def)

lemma rounded_multiple: "r = of_nat n * two_power (ulp_exponent r) \<Longrightarrow> rounded r = r"
proof -
  assume r: "r = of_nat n * two_power (ulp_exponent r)"
  have "r / two_power (ulp_exponent r) = of_nat n" by (subst r) simp
  then show "rounded r = r" using r by (simp add: rounded_def round_half_even_nat)
qed

lemma rounded_fixes:
  assumes "representable r" "0 < r"
  shows "rounded r = r"
proof -
  obtain k j where r: "r = of_nat k * two_power j" and k: "0 < k" "k \<le> 2 ^ 53" and j: "- 1074 \<le> j"
    using assms by (auto simp: representable_def)
  have K: "(of_nat k :: rat) \<le> 2 ^ 53" using k(2) by (metis of_nat_le_iff of_nat_numeral of_nat_power)
  show ?thesis
  proof (cases "k = 2 ^ 53")
    case True
    then have "r = two_power (53 + j)" using r two_power_nat [of 53] by (simp add: two_power_add)
    then have "exponent_of r \<le> 53 + j" using exponent_of_less [of r "53 + j + 1"] assms(2) by (simp add: two_power_add)
    then have le: "ulp_exponent r \<le> j + 1" using j by (simp add: ulp_exponent_def)
    have "r = of_nat (2 ^ nat (53 + j - ulp_exponent r)) * two_power (ulp_exponent r)"
      using le \<open>r = two_power (53 + j)\<close> two_power_shift [of "nat (53 + j - ulp_exponent r)" "ulp_exponent r"] by simp
    then show ?thesis by (rule rounded_multiple)
  next
    case False
    then have "(of_nat k :: rat) < 2 ^ 53" using K by (metis less_eq_rat_def of_nat_eq_iff of_nat_numeral of_nat_power)
    then have "r < 2 ^ 53 * two_power j" by (simp add: r)
    then have "r < two_power (53 + j)" using two_power_nat [of 53] by (simp add: two_power_add)
    then have "ulp_exponent r \<le> j" using exponent_of_less [of r "53 + j"] assms(2) j by (simp add: ulp_exponent_def)
    then have "r = of_nat (k * 2 ^ nat (j - ulp_exponent r)) * two_power (ulp_exponent r)"
      using two_power_shift [of "nat (j - ulp_exponent r)" "ulp_exponent r"] r by simp
    then show ?thesis by (rule rounded_multiple)
  qed
qed

section \<open>Sums of nonnegative costs\<close>

text \<open>A nonnegative cost: infinity, or a representable number below the range's end.\<close>

fun cost_value :: "double \<Rightarrow> bool" where
  "cost_value (Finite r) = (0 \<le> r \<and> representable r \<and> r < two_power 1024)"
| "cost_value PlusInf = True"
| "cost_value _ = False"

lemma cost_value_round: "0 \<le> r \<Longrightarrow> cost_value (round_double r)"
  using rounded_representable [of r] rounded_nonneg [of r]
  by (cases "r = 0") (simp_all add: round_double_rounded, simp add: round_double_def representable_def)

lemma round_double_ge:
  assumes "representable a" "0 \<le> a" "a \<le> r" "a < two_power 1024"
  shows "double_le (Finite a) (round_double r)"
proof (cases "a = 0")
  case True
  then show ?thesis using cost_value_round [of r] assms
    by (cases "round_double r") (auto simp: double_le_def double_less_def double_eq_def)
next
  case False
  then have "a \<le> rounded r" using rounded_mono [of a r] rounded_fixes [of a] assms by simp
  moreover have "0 < r" using False assms by simp
  ultimately show ?thesis
    by (auto simp: round_double_rounded double_le_def double_less_def double_eq_def)
qed

lemma cost_value_add:
  assumes "cost_value a" "cost_value b"
  shows "cost_value (double_add a b)" "double_le a (double_add a b)"
proof -
  have "cost_value (double_add a b) \<and> double_le a (double_add a b)"
  proof (cases a)
    case (Finite x)
    show ?thesis
    proof (cases b)
      case (Finite y)
      then show ?thesis
        using \<open>a = Finite x\<close> assms round_double_ge [of x "x + y"] cost_value_round [of "x + y"]
        by (simp add: double_add_def is_inf_def)
    qed (use \<open>a = Finite x\<close> assms in \<open>auto simp: double_add_def is_inf_def double_le_def double_less_def\<close>)
  next
    case PlusInf
    then show ?thesis using assms by (cases b) (auto simp: double_add_def is_inf_def double_le_def double_eq_def)
  qed (use assms in auto)
  then show "cost_value (double_add a b)" "double_le a (double_add a b)" by auto
qed


lemma cost_value_count:
  assumes "n \<le> uint64_max"
  shows "cost_value (double_of_nat n)"
proof (cases "n = 0")
  case True
  then show ?thesis using round_half_even_nat [of 0] by (simp add: double_of_nat_def round53_def representable_def)
next
  case False
  let ?e = "floorlog 2 n" and ?k = "floorlog 2 n - 53"
  let ?m = "round_half_even (of_nat n / 2 ^ ?k)"
  have n: "n < 2 ^ ?e" "2 ^ (?e - 1) \<le> n" "0 < ?e" using floorlog_bounds [of n] False by auto
  have e: "?e \<le> 64"
  proof (rule ccontr)
    assume "\<not> ?e \<le> 64"
    then have "(2::nat) ^ 64 \<le> 2 ^ (?e - 1)" by (intro power_increasing) auto
    then show False using n(2) assms by (simp add: uint64_max_def)
  qed
  have "2 ^ ?e \<le> (2::nat) ^ (53 + ?k)" by (intro power_increasing) auto
  then have "n \<le> 2 ^ (53 + ?k)" using n(1) by linarith
  then have "(of_nat n :: rat) \<le> 2 ^ (53 + ?k)" by (metis of_nat_le_iff of_nat_numeral of_nat_power)
  then have "(of_nat n :: rat) / 2 ^ ?k \<le> of_nat (2 ^ 53)" by (simp add: pos_divide_le_eq power_add)
  then have "?m \<le> round_half_even (of_nat (2 ^ 53))" by (intro round_half_even_mono) simp_all
  then have m: "?m \<le> 2 ^ 53" by (simp only: round_half_even_nat)
  have eq: "(of_nat (round53 n) :: rat) = of_nat ?m * two_power (int ?k)"
    by (simp add: round53_def Let_def two_power_nat)
  have "representable (of_nat (round53 n))"
  proof (cases "?m = 0")
    case False
    moreover have "- 1074 \<le> int ?k" by simp
    ultimately show ?thesis unfolding eq representable_def using m by blast
  qed (simp add: eq representable_def)
  moreover have "(of_nat (round53 n) :: rat) < two_power 1024"
  proof -
    have "round53 n \<le> 2 ^ ?e" using round53_bounds(2) [of n] False by simp
    also have "\<dots> \<le> 2 ^ 64" using e by (intro power_increasing) auto
    finally have "(of_nat (round53 n) :: rat) \<le> of_nat (2 ^ 64)" by (simp only: of_nat_le_iff)
    also have "\<dots> = two_power 64" using two_power_nat [of 64] by simp
    also have "\<dots> < two_power 1024" by (simp only: two_power_less)
    finally show ?thesis .
  qed
  ultimately show ?thesis by (simp add: double_of_nat_def)
qed

lemma cost_value_div:
  assumes "cost_value a" "a \<noteq> PlusInf" "double_less (Finite 0) b"
  shows "cost_value (double_div a b)"
  using assms by (cases a; cases b)
    (auto simp: double_div_def Let_def is_inf_def is_negative_def signed_zero_def representable_def
      double_less_def cost_value_round)

lemma cost_value_not_nan [simp]: "cost_value d \<Longrightarrow> d \<noteq> NotANumber"
  by (cases d) auto

lemma double_le_trans: "double_le a b \<Longrightarrow> double_le b c \<Longrightarrow> double_le a c"
  by (auto simp: double_le_def double_less_def double_eq_def)

end
