(* ===== verification/Routing.thy ===== *)
theory Routing
  imports Binary64 "HOL-Library.Product_Lexorder"
begin

text \<open>
  Memory-to-memory routing (\<^verbatim>\<open>include/LLK/Mapping/Routing.h\<close>, \<^verbatim>\<open>lib/Mapping/Routing.cpp\<close>): the legality of a
  hop, the engine of a hop, and the best-first enumeration of routes under a cap on routes and on hops. The
  lemmas show that every route returned is legal, that an enumeration that does not report truncation is
  complete, and that routes come best first, so that a capped enumeration holds the best ones.
\<close>

section \<open>Requests and routes\<close>

record route_request =
  rq_source :: string
  rq_destination :: string
  rq_bytes :: nat
  rq_alignment :: nat
  producerExecutor :: "string option"
  consumerExecutor :: "string option"
  layoutClass :: "string option"
  liveBytesOnIntermediate :: nat
  liveBytesByIntermediate :: "string \<rightharpoonup> nat"

record memory_route =
  rt_nodes :: "string list"
  rt_links :: "string list"
  rt_engines :: "string list"
  rt_cost :: cost

definition hopCount :: "memory_route \<Rightarrow> nat" where "hopCount r = length (rt_links r)"

record route_options =
  maxRoutes :: nat
  maxHops :: nat

datatype route_error =
    ZeroBytes
  | ZeroAlignment
  | UnknownSourceMemory string
  | UnknownDestinationMemory string
  | ProducerCannotSee string string
  | ConsumerCannotSee string string
  | AlignmentUnsupported string nat
  | LayoutUnsupported string string
  | ZeroLimit
  | NoRoute string string

section \<open>Legality of a hop\<close>

definition isDramClass :: "string \<Rightarrow> bool" where "isDramClass k \<longleftrightarrow> k = ''dram''"

definition supportsAlignment :: "memory_node \<Rightarrow> nat \<Rightarrow> bool" where
  "supportsAlignment memory alignment \<longleftrightarrow> alignmentBytes memory mod alignment = 0"

definition memorySupportsLayout :: "memory_node \<Rightarrow> string \<Rightarrow> bool" where
  "memorySupportsLayout memory layout \<longleftrightarrow> layout \<in> set (mem_supportedLayouts memory)"

definition legalEngine :: "machine_model \<Rightarrow> link_edge \<Rightarrow> string option" where
  "legalEngine m link =
     find (\<lambda>engineId. case findTransferEngine m engineId of
         Some engine \<Rightarrow> isVisible m (link_source link) (te_attachedTo engine) | None \<Rightarrow> False)
       (link_transferEngines link)"

definition room_for :: "memory_node \<Rightarrow> route_request \<Rightarrow> bool" where
  "room_for memory req \<longleftrightarrow>
     (let named = liveBytesByIntermediate req (mem_id memory);
          live = (case named of Some n \<Rightarrow> n | None \<Rightarrow> liveBytesOnIntermediate req);
          live' = min live (capacityBytes memory) in
      \<not> capacityBytes memory - live' < rq_bytes req)"

definition legalHop :: "machine_model \<Rightarrow> link_edge \<Rightarrow> memory_node \<Rightarrow> route_request \<Rightarrow> string \<Rightarrow> string option" where
  "legalHop m link memory req dst =
     (if transactionBytes link = 0 \<or> rq_bytes req mod transactionBytes link \<noteq> 0 then None
      else if \<not> supportsAlignment memory (rq_alignment req) then None
      else if (case layoutClass req of Some layout \<Rightarrow> \<not> memorySupportsLayout memory layout | None \<Rightarrow> False) then None
      else if mem_id memory \<noteq> dst \<and> \<not> room_for memory req then None
      else legalEngine m link)"

definition hasLegalExtension :: "machine_model \<Rightarrow> string \<Rightarrow> string list \<Rightarrow> route_request \<Rightarrow> string \<Rightarrow> bool" where
  "hasLegalExtension m memoryId visited req dst \<longleftrightarrow>
     (\<exists>link \<in> set (links m). link_source link = memoryId \<and>
        (case findMemory m (link_destination link) of
           None \<Rightarrow> False
         | Some memory \<Rightarrow> mem_id memory \<notin> set visited \<and> legalHop m link memory req dst \<noteq> None))"

text \<open>\<^verbatim>\<open>llvm::sort\<close> by link id, as for the content hash: the ids of a verified model are distinct.\<close>

definition outgoing :: "machine_model \<Rightarrow> string \<Rightarrow> link_edge list" where
  "outgoing m memoryId = sort_key link_id (filter (\<lambda>link. link_source link = memoryId) (links m))"

definition legalTransferEngine :: "machine_model \<Rightarrow> string \<Rightarrow> string \<Rightarrow> string option" where
  "legalTransferEngine m src dst =
     (let candidates = sort_key link_id (filter (\<lambda>link. link_source link = src \<and> link_destination link = dst) (links m)) in
      case find (\<lambda>link. legalEngine m link \<noteq> None) candidates of None \<Rightarrow> None | Some link \<Rightarrow> legalEngine m link)"

section \<open>The search\<close>

record partial_route =
  pr_nodes :: "string list"
  pr_links :: "string list"
  pr_engines :: "string list"
  pr_linkIds :: "string list"
  pr_cost :: double

definition worst_first :: "partial_route \<Rightarrow> partial_route \<Rightarrow> bool" where
  "worst_first lhs rhs \<longleftrightarrow>
     (if \<not> double_eq (pr_cost lhs) (pr_cost rhs) then double_less (pr_cost rhs) (pr_cost lhs)
      else if length (pr_links lhs) \<noteq> length (pr_links rhs) then length (pr_links lhs) > length (pr_links rhs)
      else pr_linkIds lhs > pr_linkIds rhs)"

text \<open>The priority queue is the list of its members; the top is one that is worse than no other.\<close>

definition pop_route :: "partial_route list \<Rightarrow> partial_route \<times> partial_route list" where
  "pop_route q = (let best = fold (\<lambda>x b. if worst_first b x then x else b) (tl q) (hd q) in (best, remove1 best q))"

definition hop_cost :: "route_request \<Rightarrow> link_edge \<Rightarrow> double" where
  "hop_cost req link =
     double_add (double_of_nat (link_latencyCycles link)) (double_div (double_of_nat (rq_bytes req)) (link_bandwidth link))"

definition advance_route :: "route_request \<Rightarrow> partial_route \<Rightarrow> link_edge \<Rightarrow> memory_node \<Rightarrow> string \<Rightarrow> partial_route" where
  "advance_route req p link memory engine =
     \<lparr>pr_nodes = pr_nodes p @ [mem_id memory], pr_links = pr_links p @ [link_id link],
      pr_engines = (if engine \<in> set (pr_engines p) then pr_engines p else pr_engines p @ [engine]),
      pr_linkIds = pr_linkIds p @ [link_id link], pr_cost = double_add (pr_cost p) (hop_cost req link)\<rparr>"

definition next_partial :: "machine_model \<Rightarrow> route_request \<Rightarrow> string \<Rightarrow> partial_route \<Rightarrow> link_edge \<Rightarrow> partial_route option" where
  "next_partial m req dst p link =
     (case findMemory m (link_destination link) of
        None \<Rightarrow> None
      | Some memory \<Rightarrow>
          if mem_id memory \<in> set (pr_nodes p) then None
          else map_option (advance_route req p link memory) (legalHop m link memory req dst))"

fun dram_charge :: "machine_model \<Rightarrow> nat \<Rightarrow> string list \<Rightarrow> nat \<Rightarrow> nat" where
  "dram_charge m n (a # b # rest) charged =
     (let touches = (\<lambda>i. case findMemory m i of Some node \<Rightarrow> isDramClass (mem_kind node) | None \<Rightarrow> False) in
      dram_charge m n (b # rest) (if touches a \<or> touches b then wrap64 (charged + n) else charged))"
| "dram_charge m n _ charged = charged"

definition finish_route :: "machine_model \<Rightarrow> route_request \<Rightarrow> partial_route \<Rightarrow> memory_route" where
  "finish_route m req p =
     \<lparr>rt_nodes = pr_nodes p, rt_links = pr_links p, rt_engines = pr_engines p,
      rt_cost = zero_cost\<lparr>latencyCycles := pr_cost p, localBytes := rq_bytes req,
        dramBytes := dram_charge m (rq_bytes req) (pr_nodes p) 0,
        transferUtilization := (case utilizationEstimate (pr_cost p) m (transferEngineCount m) of Some u \<Rightarrow> u | None \<Rightarrow> Finite 0)\<rparr>\<rparr>"

record route_search =
  frontier :: "partial_route list"
  found :: "memory_route list"
  hopCapPruned :: bool

definition search_step :: "machine_model \<Rightarrow> route_options \<Rightarrow> route_request \<Rightarrow> string \<Rightarrow> route_search \<Rightarrow> route_search" where
  "search_step m opts req dst s =
     (case pop_route (frontier s) of (current, rest) \<Rightarrow>
        if last (pr_nodes current) = dst then s\<lparr>frontier := rest, found := found s @ [finish_route m req current]\<rparr>
        else if length (pr_links current) \<ge> maxHops opts then
          s\<lparr>frontier := rest,
            hopCapPruned := hopCapPruned s \<or> hasLegalExtension m (last (pr_nodes current)) (pr_nodes current) req dst\<rparr>
        else s\<lparr>frontier := rest @ List.map_filter (next_partial m req dst current) (outgoing m (last (pr_nodes current)))\<rparr>)"

lemma fold_pick_in: "fold (\<lambda>x best. if better best x then x else best) xs y \<in> insert y (set xs)"
proof (induction xs arbitrary: y)
  case (Cons x xs)
  then show ?case using Cons.IH [of "if better y x then x else y"] by (auto split: if_splits)
qed simp

lemma pop_route_mset:
  assumes "q \<noteq> []" "pop_route q = (p, rest)"
  shows "p \<in> set q" "rest = remove1 p q"
  using assms fold_pick_in [of worst_first "tl q" "hd q"] by (cases q; auto simp: pop_route_def Let_def)+

text \<open>A route weighs less than the route it extends, by more than the number of links it can take.\<close>

definition route_weight :: "machine_model \<Rightarrow> route_options \<Rightarrow> partial_route \<Rightarrow> nat" where
  "route_weight m opts p = (length (links m) + 2) ^ (Suc (maxHops opts) - length (pr_links p))"

lemma next_partial_links: "next_partial m req dst p link = Some q \<Longrightarrow> pr_links q = pr_links p @ [link_id link]"
  by (auto simp: next_partial_def advance_route_def split: option.splits if_splits)

lemma map_filter_length: "length (List.map_filter f xs) \<le> length xs"
  by (simp add: List.map_filter_def)

lemma expansion_weight:
  assumes "length (pr_links p) < maxHops opts"
  shows "sum_list (map (route_weight m opts) (List.map_filter (next_partial m req dst p) (outgoing m i))) < route_weight m opts p"
proof -
  let ?N = "length (links m) + 2" and ?e = "maxHops opts - length (pr_links p)"
  let ?qs = "List.map_filter (next_partial m req dst p) (outgoing m i)"
  have "q \<in> set ?qs \<Longrightarrow> length (pr_links q) = Suc (length (pr_links p))" for q
    using next_partial_links by (fastforce simp: List.map_filter_def)
  then have "map (route_weight m opts) ?qs = map (\<lambda>_. ?N ^ ?e) ?qs"
    by (auto simp: route_weight_def)
  then have "sum_list (map (route_weight m opts) ?qs) = length ?qs * ?N ^ ?e" by (simp only: sum_list_triv of_nat_id)
  also have "length ?qs * ?N ^ ?e < ?N * ?N ^ ?e"
  proof -
    have "length (outgoing m i) \<le> length (links m)" by (simp add: outgoing_def)
    then have "length ?qs < ?N" using map_filter_length [of "next_partial m req dst p" "outgoing m i"] by linarith
    then show ?thesis by (intro mult_strict_right_mono) simp_all
  qed
  also have "\<dots> = route_weight m opts p" using assms by (simp add: route_weight_def Suc_diff_le)
  finally show ?thesis .
qed

lemma route_weight_pos: "0 < route_weight m opts p"
  by (simp add: route_weight_def)

lemma sum_remove1: "x \<in> set xs \<Longrightarrow> sum_list (map f (remove1 x xs)) + f x = (sum_list (map f xs) :: nat)"
  by (induction xs) auto

lemma step_weight:
  assumes "frontier s \<noteq> []"
  shows "sum_list (map (route_weight m opts) (frontier (search_step m opts req dst s)))
    < sum_list (map (route_weight m opts) (frontier s))"
proof -
  obtain p rest where pop: "pop_route (frontier s) = (p, rest)" by fastforce
  have sum: "sum_list (map (route_weight m opts) rest) + route_weight m opts p = sum_list (map (route_weight m opts) (frontier s))"
    using pop_route_mset [OF assms pop] sum_remove1 by simp
  show ?thesis
    using sum route_weight_pos [of m opts p] expansion_weight [of p opts m req dst "last (pr_nodes p)"]
    by (auto simp: search_step_def pop)
qed

function search_routes :: "machine_model \<Rightarrow> route_options \<Rightarrow> route_request \<Rightarrow> string \<Rightarrow> nat \<Rightarrow> route_search \<Rightarrow> route_search" where
  "search_routes m opts req dst limit s =
     (if frontier s = [] \<or> \<not> length (found s) < limit then s
      else search_routes m opts req dst limit (search_step m opts req dst s))"
  by pat_completeness auto
termination
  by (relation "measure (\<lambda>(m, opts, req, dst, limit, s). sum_list (map (route_weight m opts) (frontier s)))")
    (use step_weight in auto)

declare search_routes.simps [simp del]

definition start_route :: "string \<Rightarrow> partial_route" where
  "start_route i = \<lparr>pr_nodes = [i], pr_links = [], pr_engines = [], pr_linkIds = [], pr_cost = Finite 0\<rparr>"

definition check_sees :: "(string \<Rightarrow> string \<Rightarrow> route_error) \<Rightarrow> machine_model \<Rightarrow> string option \<Rightarrow> string \<Rightarrow> route_error option" where
  "check_sees err m executor memoryId =
     (case executor of Some e \<Rightarrow> if \<not> isVisible m memoryId e then Some (err e memoryId) else None | None \<Rightarrow> None)"

definition check_alignment :: "route_request \<Rightarrow> memory_node \<Rightarrow> route_error option" where
  "check_alignment req memory =
     (if \<not> supportsAlignment memory (rq_alignment req) then Some (AlignmentUnsupported (mem_id memory) (rq_alignment req)) else None)"

definition check_layout :: "route_request \<Rightarrow> memory_node \<Rightarrow> route_error option" where
  "check_layout req memory =
     (case layoutClass req of
        Some layout \<Rightarrow> if \<not> memorySupportsLayout memory layout then Some (LayoutUnsupported (mem_id memory) layout) else None
      | None \<Rightarrow> None)"

definition check_endpoints :: "route_request \<Rightarrow> memory_node \<Rightarrow> memory_node \<Rightarrow> route_error option" where
  "check_endpoints req src dst =
     orElse (check_alignment req src) (orElse (check_alignment req dst) (orElse (check_layout req src) (check_layout req dst)))"

text \<open>The result, and whether \<^verbatim>\<open>*truncated\<close> is set.\<close>

definition enumerateRoutes ::
  "machine_model \<Rightarrow> route_options \<Rightarrow> route_request \<Rightarrow> nat \<Rightarrow> (route_error, memory_route list) expected \<times> bool" where
  "enumerateRoutes m opts req limit =
     (if rq_bytes req = 0 then (Inl ZeroBytes, False)
      else if rq_alignment req = 0 then (Inl ZeroAlignment, False)
      else case findMemory m (rq_source req) of
        None \<Rightarrow> (Inl (UnknownSourceMemory (rq_source req)), False)
      | Some src \<Rightarrow>
        (case findMemory m (rq_destination req) of
           None \<Rightarrow> (Inl (UnknownDestinationMemory (rq_destination req)), False)
         | Some dst \<Rightarrow>
           (case orElse (check_sees ProducerCannotSee m (producerExecutor req) (rq_source req))
                (check_sees ConsumerCannotSee m (consumerExecutor req) (rq_destination req)) of
              Some e \<Rightarrow> (Inl e, False)
            | None \<Rightarrow>
              if mem_id src = mem_id dst then
                (Inr [\<lparr>rt_nodes = [mem_id src], rt_links = [], rt_engines = [], rt_cost = zero_cost\<rparr>], False)
              else case check_endpoints req src dst of
                Some e \<Rightarrow> (Inl e, False)
              | None \<Rightarrow>
                let effectiveLimit = min limit (maxRoutes opts) in
                if effectiveLimit = 0 then (Inl ZeroLimit, False)
                else let s = search_routes m opts req (mem_id dst) effectiveLimit
                       \<lparr>frontier = [start_route (mem_id src)], found = [], hopCapPruned = False\<rparr> in
                  (if found s = [] then Inl (NoRoute (rq_source req) (rq_destination req)) else Inr (found s),
                   hopCapPruned s \<or> length (found s) \<ge> effectiveLimit))))"


section \<open>Following links\<close>

text \<open>The partial route that a sequence of links builds, as long as every link leaves the last memory, which is
  not the destination, and makes a legal hop to a memory not on the route.\<close>

fun follow :: "machine_model \<Rightarrow> route_request \<Rightarrow> string \<Rightarrow> partial_route \<Rightarrow> link_edge list \<Rightarrow> partial_route option" where
  "follow m req dst p [] = Some p"
| "follow m req dst p (link # rest) =
     (if link \<in> set (links m) \<and> link_source link = last (pr_nodes p) \<and> last (pr_nodes p) \<noteq> dst
      then Option.bind (next_partial m req dst p link) (\<lambda>q. follow m req dst q rest) else None)"

lemma follow_append: "follow m req dst p (ks @ ls) = Option.bind (follow m req dst p ks) (\<lambda>q. follow m req dst q ls)"
  by (induction ks arbitrary: p) (auto split: bind_split)

definition hop_ok :: "machine_model \<Rightarrow> route_request \<Rightarrow> string \<Rightarrow> link_edge \<Rightarrow> bool" where
  "hop_ok m req dst link \<longleftrightarrow>
     (\<exists>memory. findMemory m (link_destination link) = Some memory \<and> legalHop m link memory req dst \<noteq> None)"

lemma findMemory_id: "findMemory m i = Some memory \<Longrightarrow> mem_id memory = i"
  using findById_Some by (fastforce simp: findMemory_def)

lemma next_partial_iff:
  "next_partial m req dst p link \<noteq> None \<longleftrightarrow> hop_ok m req dst link \<and> link_destination link \<notin> set (pr_nodes p)"
  by (auto simp: next_partial_def hop_ok_def dest: findMemory_id split: option.splits if_splits)

lemma next_partial_Some:
  assumes "next_partial m req dst p link = Some q"
  shows "pr_nodes q = pr_nodes p @ [link_destination link]" "pr_links q = pr_links p @ [link_id link]"
    "pr_linkIds q = pr_linkIds p @ [link_id link]" "pr_cost q = double_add (pr_cost p) (hop_cost req link)"
    "\<exists>memory e. findMemory m (link_destination link) = Some memory \<and> legalHop m link memory req dst = Some e \<and> e \<in> set (pr_engines q)"
    "set (pr_engines p) \<subseteq> set (pr_engines q)"
  using assms by (auto simp: next_partial_def advance_route_def dest: findMemory_id split: option.splits if_splits)

fun joined :: "string \<Rightarrow> link_edge list \<Rightarrow> bool" where
  "joined i [] = True"
| "joined i (link # rest) = (link_source link = i \<and> joined (link_destination link) rest)"

lemma follow_Some:
  assumes "follow m req dst p ls = Some q" "pr_nodes p \<noteq> []" "distinct (pr_nodes p)"
  shows "pr_nodes q = pr_nodes p @ map link_destination ls \<and> pr_links q = pr_links p @ map link_id ls \<and>
    pr_linkIds q = pr_linkIds p @ map link_id ls \<and> pr_cost q = fold (\<lambda>link c. double_add c (hop_cost req link)) ls (pr_cost p) \<and>
    distinct (pr_nodes q) \<and> joined (last (pr_nodes p)) ls \<and> set ls \<subseteq> set (links m) \<and>
    (\<forall>link \<in> set ls. link_source link \<noteq> dst) \<and> set (pr_engines p) \<subseteq> set (pr_engines q) \<and>
    (\<forall>link \<in> set ls. \<exists>memory e. findMemory m (link_destination link) = Some memory \<and>
       legalHop m link memory req dst = Some e \<and> e \<in> set (pr_engines q))"
  using assms
proof (induction ls arbitrary: p)
  case (Cons link ls)
  then obtain r where r: "next_partial m req dst p link = Some r" "follow m req dst r ls = Some q"
      and l: "link \<in> set (links m)" "link_source link = last (pr_nodes p)" "last (pr_nodes p) \<noteq> dst"
    by (auto split: if_splits bind_splits)
  have new: "link_destination link \<notin> set (pr_nodes p)" using next_partial_iff [of m req dst p link] r(1) by simp
  note facts = next_partial_Some [OF r(1)]
  have "pr_nodes r \<noteq> []" "distinct (pr_nodes r)" using facts(1) new Cons.prems by simp_all
  note ih = Cons.IH [OF r(2) this]
  have sub: "set (pr_engines r) \<subseteq> set (pr_engines q)" using ih by simp
  then have "\<exists>memory e. findMemory m (link_destination link) = Some memory \<and> legalHop m link memory req dst = Some e \<and>
      e \<in> set (pr_engines q)"
    using facts(5) by blast
  moreover have "set (pr_engines p) \<subseteq> set (pr_engines q)" using facts(6) sub by blast
  moreover have "distinct (pr_nodes p @ map link_destination (link # ls))"
    using ih facts(1) by (metis append.assoc append_Cons append_Nil list.simps(9))
  ultimately show ?case using ih l by (simp add: facts(1-4))
qed simp

lemma follow_iff:
  assumes "pr_nodes p \<noteq> []"
  shows "follow m req dst p ls \<noteq> None \<longleftrightarrow> set ls \<subseteq> set (links m) \<and> joined (last (pr_nodes p)) ls \<and>
    (\<forall>link \<in> set ls. link_source link \<noteq> dst \<and> hop_ok m req dst link) \<and> distinct (map link_destination ls) \<and>
    set (map link_destination ls) \<inter> set (pr_nodes p) = {}"
  using assms
proof (induction ls arbitrary: p)
  case (Cons link ls)
  show ?case
  proof (cases "next_partial m req dst p link")
    case None
    then show ?thesis using next_partial_iff [of m req dst p link] by auto
  next
    case (Some r)
    note facts = next_partial_Some [OF Some]
    have "hop_ok m req dst link" "link_destination link \<notin> set (pr_nodes p)"
      using next_partial_iff [of m req dst p link] Some by auto
    then show ?thesis using Cons.IH [of r] facts(1) Some by auto
  qed
qed simp

section \<open>Every route is legal\<close>

definition reached :: "machine_model \<Rightarrow> route_request \<Rightarrow> string \<Rightarrow> string \<Rightarrow> link_edge list \<Rightarrow> partial_route \<Rightarrow> bool" where
  "reached m req src dst ls p \<longleftrightarrow> follow m req dst (start_route src) ls = Some p"

lemma reached_facts:
  assumes "reached m req src dst ls p"
  shows "pr_nodes p = src # map link_destination ls" "pr_links p = map link_id ls" "pr_linkIds p = map link_id ls"
    "pr_cost p = fold (\<lambda>link c. double_add c (hop_cost req link)) ls (Finite 0)" "distinct (pr_nodes p)" "pr_nodes p \<noteq> []"
    "length (pr_links p) = length ls"
  using follow_Some [of m req dst "start_route src" ls p] assms by (auto simp: reached_def start_route_def)

lemma reached_hop:
  "reached m req src dst ls p \<Longrightarrow> follow m req dst p ks = Some q \<Longrightarrow> reached m req src dst (ls @ ks) q"
  by (simp add: reached_def follow_append)

lemma in_outgoing: "link \<in> set (outgoing m i) \<longleftrightarrow> link \<in> set (links m) \<and> link_source link = i"
  by (auto simp: outgoing_def)

text \<open>What one round does to a state, by the kind of the route it takes.\<close>

lemma search_step_cases:
  assumes "frontier s \<noteq> []"
  obtains (done_at) p where "p \<in> set (frontier s)" "last (pr_nodes p) = dst"
      "fst (pop_route (frontier s)) = p"
      "search_step m opts req dst s = s\<lparr>frontier := remove1 p (frontier s), found := found s @ [finish_route m req p]\<rparr>"
  | (capped) p where "p \<in> set (frontier s)" "last (pr_nodes p) \<noteq> dst" "maxHops opts \<le> length (pr_links p)"
      "fst (pop_route (frontier s)) = p"
      "search_step m opts req dst s = s\<lparr>frontier := remove1 p (frontier s),
         hopCapPruned := hopCapPruned s \<or> hasLegalExtension m (last (pr_nodes p)) (pr_nodes p) req dst\<rparr>"
  | (expanded) p qs where "p \<in> set (frontier s)" "last (pr_nodes p) \<noteq> dst" "length (pr_links p) < maxHops opts"
      "fst (pop_route (frontier s)) = p"
      "search_step m opts req dst s = s\<lparr>frontier := remove1 p (frontier s) @ qs\<rparr>"
      "\<And>q. q \<in> set qs \<longleftrightarrow> (\<exists>link. follow m req dst p [link] = Some q)"
proof -
  obtain p rest where pop: "pop_route (frontier s) = (p, rest)" by fastforce
  note p = pop_route_mset [OF assms pop]
  consider "last (pr_nodes p) = dst" | "last (pr_nodes p) \<noteq> dst" "maxHops opts \<le> length (pr_links p)"
    | "last (pr_nodes p) \<noteq> dst" "length (pr_links p) < maxHops opts" by linarith
  then show thesis
  proof cases
    case 1
    then show thesis using p pop by (intro done_at [of p]) (auto simp: search_step_def)
  next
    case 2
    then show thesis using p pop by (intro capped [of p]) (auto simp: search_step_def)
  next
    case 3
    let ?qs = "List.map_filter (next_partial m req dst p) (outgoing m (last (pr_nodes p)))"
    have "q \<in> set ?qs \<longleftrightarrow> (\<exists>link. follow m req dst p [link] = Some q)" for q
      using 3 by (auto simp: List.map_filter_def in_outgoing image_iff split: bind_splits)
    then show thesis using p pop 3 by (intro expanded [of p ?qs]) (auto simp: search_step_def)
  qed
qed


lemma search_routes_induct:
  assumes "P s" "\<And>s. frontier s \<noteq> [] \<Longrightarrow> length (found s) < limit \<Longrightarrow> P s \<Longrightarrow> P (search_step m opts req dst s)"
  shows "P (search_routes m opts req dst limit s)"
  using assms(1)
proof (induction "sum_list (map (route_weight m opts) (frontier s))" arbitrary: s rule: less_induct)
  case less
  show ?case
  proof (cases "frontier s = [] \<or> \<not> length (found s) < limit")
    case True
    then show ?thesis using less.prems by (simp add: search_routes.simps [of m opts req dst limit s])
  next
    case False
    then have "P (search_routes m opts req dst limit (search_step m opts req dst s))"
      using less.hyps [OF step_weight] assms(2) [of s] less.prems by blast
    then show ?thesis using False by (simp add: search_routes.simps [of m opts req dst limit s])
  qed
qed

lemma search_routes_end:
  "frontier (search_routes m opts req dst limit s) = [] \<or> limit \<le> length (found (search_routes m opts req dst limit s))"
proof (induction "sum_list (map (route_weight m opts) (frontier s))" arbitrary: s rule: less_induct)
  case less
  show ?case
  proof (cases "frontier s = [] \<or> \<not> length (found s) < limit")
    case True
    then show ?thesis by (auto simp: search_routes.simps [of m opts req dst limit s])
  next
    case False
    then show ?thesis using less.hyps [of "search_step m opts req dst s", OF step_weight] by (simp add: search_routes.simps [of m opts req dst limit s])
  qed
qed

definition in_reach :: "machine_model \<Rightarrow> route_options \<Rightarrow> route_request \<Rightarrow> string \<Rightarrow> string \<Rightarrow> partial_route \<Rightarrow> bool" where
  "in_reach m opts req src dst p \<longleftrightarrow> (\<exists>ls. reached m req src dst ls p \<and> length ls \<le> maxHops opts)"

definition search_sound :: "machine_model \<Rightarrow> route_options \<Rightarrow> route_request \<Rightarrow> string \<Rightarrow> string \<Rightarrow> route_search \<Rightarrow> bool" where
  "search_sound m opts req src dst s \<longleftrightarrow>
     (\<forall>p \<in> set (frontier s). in_reach m opts req src dst p) \<and>
     (\<forall>r \<in> set (found s). \<exists>p. in_reach m opts req src dst p \<and> last (pr_nodes p) = dst \<and> r = finish_route m req p)"

definition search_covers :: "machine_model \<Rightarrow> route_options \<Rightarrow> route_request \<Rightarrow> string \<Rightarrow> string \<Rightarrow> route_search \<Rightarrow> bool" where
  "search_covers m opts req src dst s \<longleftrightarrow>
     (\<forall>ls q. reached m req src dst ls q \<and> last (pr_nodes q) = dst \<and> (length ls \<le> maxHops opts \<or> \<not> hopCapPruned s) \<longrightarrow>
        (\<exists>p \<in> set (frontier s). \<exists>ks. follow m req dst p ks = Some q) \<or> finish_route m req q \<in> set (found s))"

lemma removed: "x \<in> set (remove1 y xs) \<Longrightarrow> x \<in> set xs"
  using notin_set_remove1 [of x xs y] by auto

lemma sound_step:
  assumes "frontier s \<noteq> []" "search_sound m opts req src dst s"
  shows "search_sound m opts req src dst (search_step m opts req dst s)"
proof (rule search_step_cases [OF assms(1), of dst m opts req])
  fix p assume p: "p \<in> set (frontier s)" "last (pr_nodes p) = dst"
    "search_step m opts req dst s = s\<lparr>frontier := remove1 p (frontier s), found := found s @ [finish_route m req p]\<rparr>"
  have "in_reach m opts req src dst p" using assms(2) p(1) by (simp add: search_sound_def)
  then show ?thesis using assms(2) p(2) unfolding p(3) search_sound_def by (auto dest: removed)
next
  fix p assume p: "p \<in> set (frontier s)"
    "search_step m opts req dst s = s\<lparr>frontier := remove1 p (frontier s),
       hopCapPruned := hopCapPruned s \<or> hasLegalExtension m (last (pr_nodes p)) (pr_nodes p) req dst\<rparr>"
  show ?thesis using assms(2) unfolding p(2) search_sound_def by (auto dest: removed)
next
  fix p qs assume p: "p \<in> set (frontier s)" "length (pr_links p) < maxHops opts"
    "search_step m opts req dst s = s\<lparr>frontier := remove1 p (frontier s) @ qs\<rparr>"
    "\<And>q. q \<in> set qs \<longleftrightarrow> (\<exists>link. follow m req dst p [link] = Some q)"
  obtain ls where ls: "reached m req src dst ls p" using assms(2) p(1) by (auto simp: search_sound_def in_reach_def)
  have "in_reach m opts req src dst q" if "q \<in> set qs" for q
  proof -
    from p(4) [THEN iffD1, OF that] obtain link where "follow m req dst p [link] = Some q" ..
    then have "reached m req src dst (ls @ [link]) q" using reached_hop [OF ls] by blast
    moreover have "length (ls @ [link]) \<le> maxHops opts" using p(2) reached_facts(7) [OF ls] by simp
    ultimately show ?thesis unfolding in_reach_def by blast
  qed
  then show ?thesis using assms(2) unfolding p(3) search_sound_def by (auto dest: removed)
qed

lemma remains: "x \<in> set xs \<Longrightarrow> x = y \<or> x \<in> set (remove1 y xs)"
  by (cases "x = y") auto

lemma covers_step:
  assumes "frontier s \<noteq> []" "search_sound m opts req src dst s" "search_covers m opts req src dst s"
  shows "search_covers m opts req src dst (search_step m opts req dst s)"
  unfolding search_covers_def
proof (intro allI impI, elim conjE)
  fix ls q
  let ?s' = "search_step m opts req dst s"
  let ?goal = "(\<exists>p \<in> set (frontier ?s'). \<exists>ks. follow m req dst p ks = Some q) \<or> finish_route m req q \<in> set (found ?s')"
  assume q: "reached m req src dst ls q" "last (pr_nodes q) = dst" "length ls \<le> maxHops opts \<or> \<not> hopCapPruned ?s'"
  show ?goal
  proof (rule search_step_cases [OF assms(1), of dst m opts req])
    fix p assume p: "p \<in> set (frontier s)" "last (pr_nodes p) = dst"
      "?s' = s\<lparr>frontier := remove1 p (frontier s), found := found s @ [finish_route m req p]\<rparr>"
    have "follow m req dst p ks = Some q \<Longrightarrow> q = p" for ks using p(2) by (cases ks) auto
    moreover have "(\<exists>p \<in> set (frontier s). \<exists>ks. follow m req dst p ks = Some q) \<or> finish_route m req q \<in> set (found s)"
      using assms(3) q p(3) by (simp add: search_covers_def)
    ultimately show ?goal using remains [of _ "frontier s" p] by (simp add: p(3)) blast
  next
    fix p assume p: "p \<in> set (frontier s)" "last (pr_nodes p) \<noteq> dst" "maxHops opts \<le> length (pr_links p)"
      "?s' = s\<lparr>frontier := remove1 p (frontier s),
         hopCapPruned := hopCapPruned s \<or> hasLegalExtension m (last (pr_nodes p)) (pr_nodes p) req dst\<rparr>"
    have "follow m req dst p ks \<noteq> Some q" for ks
    proof
      assume f: "follow m req dst p ks = Some q"
      then obtain link rest where ks: "ks = link # rest" using p(2) q(2) by (cases ks) auto
      obtain ps where ps: "reached m req src dst ps p" using assms(2) p(1) by (auto simp: search_sound_def in_reach_def)
      have "pr_links q = pr_links p @ map link_id ks"
        using follow_Some [OF f] reached_facts(5,6) [OF ps] by simp
      then have "maxHops opts < length ls" using reached_facts(7) [OF q(1)] p(3) ks by simp
      moreover have "hasLegalExtension m (last (pr_nodes p)) (pr_nodes p) req dst"
      proof -
        have l: "link \<in> set (links m)" "link_source link = last (pr_nodes p)" "next_partial m req dst p link \<noteq> None"
          using f ks by (auto split: if_splits bind_splits)
        then have "hop_ok m req dst link" "link_destination link \<notin> set (pr_nodes p)" using next_partial_iff by blast+
        then show ?thesis using l(1,2) findMemory_id by (fastforce simp: hasLegalExtension_def hop_ok_def)
      qed
      ultimately show False using q(3) p(4) by simp
    qed
    moreover have "(\<exists>p \<in> set (frontier s). \<exists>ks. follow m req dst p ks = Some q) \<or> finish_route m req q \<in> set (found s)"
      using assms(3) q p(4) by (auto simp: search_covers_def)
    ultimately show ?goal using remains [of _ "frontier s" p] by (simp add: p(4)) blast
  next
    fix p qs assume p: "p \<in> set (frontier s)" "last (pr_nodes p) \<noteq> dst"
      "?s' = s\<lparr>frontier := remove1 p (frontier s) @ qs\<rparr>"
      "\<And>q. q \<in> set qs \<longleftrightarrow> (\<exists>link. follow m req dst p [link] = Some q)"
    have "\<exists>r \<in> set qs. \<exists>ks. follow m req dst r ks = Some q" if f: "follow m req dst p ks = Some q" for ks
    proof -
      obtain link rest where ks: "ks = link # rest" using p(2) q(2) f by (cases ks) auto
      then obtain r where "follow m req dst p [link] = Some r" "follow m req dst r rest = Some q"
        using f follow_append [of m req dst p "[link]" rest] by (auto split: bind_splits)
      moreover have "r \<in> set qs" by (rule p(4) [THEN iffD2], rule exI) fact
      ultimately show ?thesis by blast
    qed
    moreover have "(\<exists>p \<in> set (frontier s). \<exists>ks. follow m req dst p ks = Some q) \<or> finish_route m req q \<in> set (found s)"
      using assms(3) q p(3) by (simp add: search_covers_def)
    ultimately show ?goal using remains [of _ "frontier s" p] by (simp add: p(3)) blast
  qed
qed


section \<open>Routes come best first\<close>

text \<open>The order of the queue as a key: cost, then number of links, then the link ids.\<close>

definition route_key :: "double \<Rightarrow> string list \<Rightarrow> (nat \<times> rat) \<times> nat \<times> string list" where
  "route_key c ids = ((double_class c, double_value c), length ids, ids)"

abbreviation partial_key :: "partial_route \<Rightarrow> (nat \<times> rat) \<times> nat \<times> string list" where
  "partial_key p \<equiv> route_key (pr_cost p) (pr_links p)"

abbreviation full_key :: "memory_route \<Rightarrow> (nat \<times> rat) \<times> nat \<times> string list" where
  "full_key r \<equiv> route_key (latencyCycles (rt_cost r)) (rt_links r)"

lemma full_key_finish [simp]: "full_key (finish_route m req p) = partial_key p"
  by (simp add: finish_route_def)

definition keyed :: "partial_route \<Rightarrow> bool" where
  "keyed p \<longleftrightarrow> cost_value (pr_cost p) \<and> pr_linkIds p = pr_links p"

lemma double_order:
  assumes "a \<noteq> NotANumber" "b \<noteq> NotANumber"
  shows "double_less a b \<longleftrightarrow> (double_class a, double_value a) < (double_class b, double_value b)"
    "double_eq a b \<longleftrightarrow> (double_class a, double_value a) = (double_class b, double_value b)"
    "double_le a b \<longleftrightarrow> (double_class a, double_value a) \<le> (double_class b, double_value b)"
  using assms by (auto simp: double_less_def double_eq_def double_le_def less_prod_def' less_eq_prod_def)

lemma worst_first_key:
  assumes "keyed a" "keyed b"
  shows "worst_first a b \<longleftrightarrow> partial_key b < partial_key a"
proof -
  have "pr_cost a \<noteq> NotANumber" "pr_cost b \<noteq> NotANumber" using assms by (auto simp: keyed_def)
  note order = double_order [OF this] double_order [OF this(2,1)]
  have ids: "pr_linkIds a = pr_links a" "pr_linkIds b = pr_links b" using assms by (simp_all add: keyed_def)
  let ?a = "(double_class (pr_cost a), double_value (pr_cost a))" and ?b = "(double_class (pr_cost b), double_value (pr_cost b))"
  have "worst_first a b \<longleftrightarrow> (if ?a \<noteq> ?b then ?b < ?a
      else if length (pr_links a) \<noteq> length (pr_links b) then length (pr_links b) < length (pr_links a)
      else pr_links b < pr_links a)"
    by (simp only: worst_first_def order ids)
  also have "\<dots> \<longleftrightarrow> (?b, length (pr_links b), pr_links b) < (?a, length (pr_links a), pr_links a)"
    by (auto simp: less_prod_def')
  finally show ?thesis by (simp add: route_key_def)
qed

lemma fold_worst:
  "keyed y \<Longrightarrow> \<forall>x \<in> set xs. keyed x \<Longrightarrow>
     (let b = fold (\<lambda>x b. if worst_first b x then x else b) xs y in \<forall>x \<in> insert y (set xs). partial_key b \<le> partial_key x)"
proof (induction xs arbitrary: y)
  case (Cons x xs)
  let ?y = "if worst_first y x then x else y"
  have le: "partial_key ?y \<le> partial_key y \<and> partial_key ?y \<le> partial_key x"
    using worst_first_key [of y x] Cons.prems by (auto simp: not_less)
  have "keyed ?y" using Cons.prems by simp
  with Cons.IH [of ?y] Cons.prems le show ?case by (auto simp: Let_def dest: order_trans split del: if_split)
qed simp

lemma pop_best:
  assumes "q \<noteq> []" "\<forall>p \<in> set q. keyed p" "x \<in> set q"
  shows "partial_key (fst (pop_route q)) \<le> partial_key x"
  using assms fold_worst [of "hd q" "tl q"] by (cases q) (auto simp: pop_route_def Let_def)

definition hop_costs_ok :: "machine_model \<Rightarrow> route_request \<Rightarrow> bool" where
  "hop_costs_ok m req \<longleftrightarrow> (\<forall>link \<in> set (links m). cost_value (hop_cost req link))"

lemma hop_keyed:
  assumes "hop_costs_ok m req" "follow m req dst p [link] = Some q" "keyed p"
  shows "keyed q" "partial_key p < partial_key q"
proof -
  have q: "next_partial m req dst p link = Some q" and l: "link \<in> set (links m)"
    using assms(2) by (auto split: if_splits bind_splits)
  note facts = next_partial_Some [OF q]
  have "cost_value (hop_cost req link)" using assms(1) l by (simp add: hop_costs_ok_def)
  then have sum: "cost_value (pr_cost q)" "double_le (pr_cost p) (pr_cost q)"
    using cost_value_add [of "pr_cost p" "hop_cost req link"] assms(3) facts(4) by (simp_all add: keyed_def)
  then show "keyed q" using assms(3) facts(2,3) by (simp add: keyed_def)
  have "pr_cost p \<noteq> NotANumber" "pr_cost q \<noteq> NotANumber" using sum(1) assms(3) by (auto simp: keyed_def)
  from sum(2) [unfolded double_order(3) [OF this]] show "partial_key p < partial_key q"
    by (auto simp: route_key_def facts(2) less_prod_def' less_eq_prod_def)
qed

lemma follow_keyed:
  "hop_costs_ok m req \<Longrightarrow> follow m req dst p ls = Some q \<Longrightarrow> keyed p \<Longrightarrow> keyed q \<and> partial_key p \<le> partial_key q"
proof (induction ls arbitrary: p)
  case (Cons link ls)
  then obtain r where r: "follow m req dst p [link] = Some r" "follow m req dst r ls = Some q"
    using follow_append [of m req dst p "[link]" ls] by (auto split: bind_splits)
  show ?case using Cons.IH [OF Cons.prems(1) r(2)] hop_keyed [OF Cons.prems(1) r(1) Cons.prems(3)] by auto
qed simp

lemma reached_keyed: "hop_costs_ok m req \<Longrightarrow> in_reach m opts req src dst p \<Longrightarrow> keyed p"
  using follow_keyed [of m req dst "start_route src" _ p]
  by (auto simp: in_reach_def reached_def start_route_def keyed_def representable_def)

definition search_ordered :: "route_search \<Rightarrow> bool" where
  "search_ordered s \<longleftrightarrow> sorted (map full_key (found s)) \<and>
     (\<forall>r \<in> set (found s). \<forall>p \<in> set (frontier s). full_key r \<le> partial_key p)"

lemma ordered_step:
  assumes "frontier s \<noteq> []" "search_sound m opts req src dst s" "hop_costs_ok m req" "search_ordered s"
  shows "search_ordered (search_step m opts req dst s)"
proof (rule search_step_cases [OF assms(1), of dst m opts req])
  have keyed: "\<forall>p \<in> set (frontier s). keyed p"
    using assms(2) reached_keyed [OF assms(3)] by (auto simp: search_sound_def)
  note best = pop_best [OF assms(1) keyed]
  {
    fix p assume p: "p \<in> set (frontier s)" "fst (pop_route (frontier s)) = p"
      "search_step m opts req dst s = s\<lparr>frontier := remove1 p (frontier s), found := found s @ [finish_route m req p]\<rparr>"
    show ?thesis using assms(4) p(1) best unfolding p(3) search_ordered_def p(2) by (auto simp: sorted_append dest: removed)
  next
    fix p assume p: "search_step m opts req dst s = s\<lparr>frontier := remove1 p (frontier s),
       hopCapPruned := hopCapPruned s \<or> hasLegalExtension m (last (pr_nodes p)) (pr_nodes p) req dst\<rparr>"
    show ?thesis using assms(4) unfolding p search_ordered_def by (auto dest: removed)
  next
    fix p qs assume p: "p \<in> set (frontier s)" "search_step m opts req dst s = s\<lparr>frontier := remove1 p (frontier s) @ qs\<rparr>"
      "\<And>q. q \<in> set qs \<longleftrightarrow> (\<exists>link. follow m req dst p [link] = Some q)"
    have "partial_key p \<le> partial_key q" if "q \<in> set qs" for q
    proof -
      from p(3) [THEN iffD1, OF that] obtain link where "follow m req dst p [link] = Some q" ..
      then show ?thesis using hop_keyed(2) [OF assms(3)] keyed p(1) by (auto intro: less_imp_le)
    qed
    moreover have "\<forall>r \<in> set (found s). full_key r \<le> partial_key p" using assms(4) p(1) by (simp add: search_ordered_def)
    ultimately show ?thesis using assms(4) unfolding p(2) search_ordered_def by (auto dest: removed intro: order_trans)
  }
qed


section \<open>The enumeration\<close>

definition initial_search :: "string \<Rightarrow> route_search" where
  "initial_search src = \<lparr>frontier = [start_route src], found = [], hopCapPruned = False\<rparr>"

lemma search_result:
  defines "run \<equiv> \<lambda>m opts req src dst limit. search_routes m opts req dst limit (initial_search src)"
  shows "search_sound m opts req src dst (run m opts req src dst limit)" "search_covers m opts req src dst (run m opts req src dst limit)"
    "length (found (run m opts req src dst limit)) \<le> limit"
    "hop_costs_ok m req \<Longrightarrow> search_ordered (run m opts req src dst limit)"
proof -
  have start: "search_sound m opts req src dst (initial_search src)" "search_covers m opts req src dst (initial_search src)"
      "length (found (initial_search src)) \<le> limit" "search_ordered (initial_search src)"
    by (auto simp: search_sound_def initial_search_def in_reach_def reached_def intro!: exI [of _ "[]"])
      (auto simp: search_covers_def search_ordered_def initial_search_def reached_def)
  let ?P = "\<lambda>s. search_sound m opts req src dst s \<and> search_covers m opts req src dst s \<and> length (found s) \<le> limit \<and>
    (hop_costs_ok m req \<longrightarrow> search_ordered s)"
  have "?P (run m opts req src dst limit)" unfolding run_def
  proof (rule search_routes_induct [of ?P])
    show "?P (initial_search src)" using start by blast
    fix s assume s: "frontier s \<noteq> []" "length (found s) < limit" "?P s"
    have "length (found (search_step m opts req dst s)) \<le> Suc (length (found s))"
      by (auto simp: search_step_def split: prod.split)
    then show "?P (search_step m opts req dst s)"
      using sound_step [OF s(1)] covers_step [OF s(1)] ordered_step [OF s(1)] s(2,3) by auto
  qed
  then show "search_sound m opts req src dst (run m opts req src dst limit)" "search_covers m opts req src dst (run m opts req src dst limit)"
    "length (found (run m opts req src dst limit)) \<le> limit"
    "hop_costs_ok m req \<Longrightarrow> search_ordered (run m opts req src dst limit)" by auto
qed

text \<open>A legal way: links of the machine that join the source to the destination without visiting a memory twice,
  each of them a legal hop.\<close>

definition legal_way :: "machine_model \<Rightarrow> route_request \<Rightarrow> link_edge list \<Rightarrow> bool" where
  "legal_way m req ls \<longleftrightarrow>
     set ls \<subseteq> set (links m) \<and> joined (rq_source req) ls \<and> (\<forall>link \<in> set ls. hop_ok m req (rq_destination req) link) \<and>
     distinct (rq_source req # map link_destination ls) \<and> last (rq_source req # map link_destination ls) = rq_destination req"

definition way_cost :: "route_request \<Rightarrow> link_edge list \<Rightarrow> double" where
  "way_cost req ls = fold (\<lambda>link c. double_add c (hop_cost req link)) ls (Finite 0)"

lemma joined_sources: "joined i ls \<Longrightarrow> link \<in> set ls \<Longrightarrow> link_source link \<in> set (butlast (i # map link_destination ls))"
proof (induction ls arbitrary: i)
  case (Cons l ls)
  then show ?case using Cons.IH [of "link_destination l"] by (cases "link = l") auto
qed simp

lemma last_not_butlast: "distinct xs \<Longrightarrow> xs \<noteq> [] \<Longrightarrow> last xs \<notin> set (butlast xs)"
  using append_butlast_last_id [of xs] by (metis distinct_butlast not_distinct_conv_prefix distinct_append disjoint_iff list.set_intros(1))

lemma legal_way_iff:
  "legal_way m req ls \<longleftrightarrow> (\<exists>p. reached m req (rq_source req) (rq_destination req) ls p \<and> last (pr_nodes p) = rq_destination req)"
proof -
  let ?start = "start_route (rq_source req)" and ?dst = "rq_destination req"
  have iff: "follow m req ?dst ?start ls \<noteq> None \<longleftrightarrow> set ls \<subseteq> set (links m) \<and> joined (rq_source req) ls \<and>
      (\<forall>link \<in> set ls. link_source link \<noteq> ?dst \<and> hop_ok m req ?dst link) \<and> distinct (rq_source req # map link_destination ls)"
    using follow_iff [of ?start m req ?dst ls] by (auto simp: start_route_def)
  have nodes: "pr_nodes p = rq_source req # map link_destination ls" if "reached m req (rq_source req) ?dst ls p" for p
    using reached_facts(1) [OF that] .
  have "link_source link \<noteq> ?dst" if "legal_way m req ls" "link \<in> set ls" for link
    using that joined_sources [of "rq_source req" ls link] last_not_butlast [of "rq_source req # map link_destination ls"]
    unfolding legal_way_def by (metis list.distinct(1))
  note sources = this
  show ?thesis
  proof
    assume way: "legal_way m req ls"
    then have "follow m req ?dst ?start ls \<noteq> None" unfolding iff using sources [OF way] by (auto simp: legal_way_def)
    then obtain p where p: "reached m req (rq_source req) ?dst ls p" by (auto simp: reached_def)
    then show "\<exists>p. reached m req (rq_source req) ?dst ls p \<and> last (pr_nodes p) = ?dst"
      using nodes [OF p] way by (auto simp: legal_way_def)
  next
    assume "\<exists>p. reached m req (rq_source req) ?dst ls p \<and> last (pr_nodes p) = ?dst"
    then obtain p where p: "reached m req (rq_source req) ?dst ls p" "last (pr_nodes p) = ?dst" by blast
    then have "follow m req ?dst ?start ls \<noteq> None" by (simp add: reached_def)
    then show "legal_way m req ls" using iff nodes [OF p(1)] p(2) by (simp add: legal_way_def)
  qed
qed

lemma enumerate_search:
  assumes "enumerateRoutes m opts req limit = (res, tr)" "rq_source req \<noteq> rq_destination req"
    "res = Inr routes \<or> (res = Inl (NoRoute s d) \<and> routes = [])"
  shows "routes = found (search_routes m opts req (rq_destination req) (min limit (maxRoutes opts)) (initial_search (rq_source req)))"
    "tr \<longleftrightarrow> hopCapPruned (search_routes m opts req (rq_destination req) (min limit (maxRoutes opts)) (initial_search (rq_source req)))
      \<or> length routes \<ge> min limit (maxRoutes opts)"
proof -
  let ?L = "min limit (maxRoutes opts)"
  have err: "\<exists>s d. e = NoRoute s d" if "res = Inl e" for e using assms(3) that by auto
  have b: "rq_bytes req \<noteq> 0" by (rule notI) (use assms(1) err in \<open>auto simp: enumerateRoutes_def\<close>)
  have a: "rq_alignment req \<noteq> 0" by (rule notI) (use assms(1) err b in \<open>auto simp: enumerateRoutes_def\<close>)
  note run = assms(1) [unfolded enumerateRoutes_def if_not_P [OF b] if_not_P [OF a]]
  obtain src where src: "findMemory m (rq_source req) = Some src"
    using run err by (cases "findMemory m (rq_source req)") auto
  obtain dst where dst: "findMemory m (rq_destination req) = Some dst"
    using run err src by (cases "findMemory m (rq_destination req)") auto
  note run = run [unfolded src dst option.case]
  let ?sees = "orElse (check_sees ProducerCannotSee m (producerExecutor req) (rq_source req))
    (check_sees ConsumerCannotSee m (consumerExecutor req) (rq_destination req))"
  have sees: "?sees = None"
  proof (cases ?sees)
    case (Some e)
    then have "res = Inl e" using run by simp
    moreover have "\<nexists>s d. e = NoRoute s d" using Some
      by (cases "check_sees ProducerCannotSee m (producerExecutor req) (rq_source req)")
        (auto simp: check_sees_def split: option.splits if_splits)
    ultimately show ?thesis using err by blast
  qed
  have ids: "mem_id src = rq_source req" "mem_id dst = rq_destination req" using src dst findMemory_id by auto
  note run = run [unfolded sees option.case ids if_not_P [OF assms(2)]]
  have ends: "check_endpoints req src dst = None"
  proof (cases "check_endpoints req src dst")
    case (Some e)
    then have "res = Inl e" using run by simp
    moreover have "\<nexists>s d. e = NoRoute s d" using Some
      by (auto simp: check_endpoints_def check_alignment_def check_layout_def split: option.splits if_splits)
    ultimately show ?thesis using err by blast
  qed
  note run = run [unfolded ends option.case Let_def]
  have L: "?L \<noteq> 0" by (rule notI) (use run err in auto)
  note run = run [unfolded if_not_P [OF L], folded initial_search_def]
  let ?s = "search_routes m opts req (rq_destination req) ?L (initial_search (rq_source req))"
  show r: "routes = found ?s" using run assms(3) by (auto split: if_splits)
  show "tr \<longleftrightarrow> hopCapPruned ?s \<or> length routes \<ge> ?L" using run by (simp add: r)
qed


text \<open>A request on the sample machine, for the witnesses.\<close>

definition sample_request :: route_request where
  "sample_request =
     \<lparr>rq_source = ''dram.0'', rq_destination = ''sram.0'', rq_bytes = 128, rq_alignment = 16, producerExecutor = None,
      consumerExecutor = Some ''pe.0'', layoutClass = None, liveBytesOnIntermediate = 0, liveBytesByIntermediate = (\<lambda>_. None)\<rparr>"

text \<open>What a legal hop is, for the link, the memory it enters and the engine that carries it.\<close>

definition live_bytes :: "route_request \<Rightarrow> string \<Rightarrow> nat" where
  "live_bytes req i = (case liveBytesByIntermediate req i of Some n \<Rightarrow> n | None \<Rightarrow> liveBytesOnIntermediate req)"

definition hop_facts :: "machine_model \<Rightarrow> route_request \<Rightarrow> link_edge \<Rightarrow> memory_node \<Rightarrow> string \<Rightarrow> bool" where
  "hop_facts m req link memory e \<longleftrightarrow>
     0 < transactionBytes link \<and> transactionBytes link dvd rq_bytes req \<and>
     rq_alignment req dvd alignmentBytes memory \<and>
     (case layoutClass req of Some layout \<Rightarrow> layout \<in> set (mem_supportedLayouts memory) | None \<Rightarrow> True) \<and>
     (if mem_id memory = rq_destination req then True
      else rq_bytes req = 0 \<or> live_bytes req (mem_id memory) + rq_bytes req \<le> capacityBytes memory) \<and>
     e \<in> set (link_transferEngines link) \<and>
     (\<exists>engine. findTransferEngine m e = Some engine \<and> isVisible m (link_source link) (te_attachedTo engine))"

lemma legalHop_facts:
  assumes "legalHop m link memory req (rq_destination req) = Some e"
  shows "hop_facts m req link memory e"
proof -
  have engine: "legalEngine m link = Some e"
    and tx: "transactionBytes link \<noteq> 0" "rq_bytes req mod transactionBytes link = 0"
    and al: "supportsAlignment memory (rq_alignment req)"
    and lay: "\<forall>layout. layoutClass req = Some layout \<longrightarrow> memorySupportsLayout memory layout"
    and room: "mem_id memory = rq_destination req \<or> room_for memory req"
    using assms by (auto simp: legalHop_def split: if_splits option.splits)
  have "e \<in> set (link_transferEngines link)"
    "\<exists>engine. findTransferEngine m e = Some engine \<and> isVisible m (link_source link) (te_attachedTo engine)"
    using engine by (auto simp: legalEngine_def find_Some_iff split: option.splits)
  then show ?thesis
    using tx al lay room
    by (auto simp: hop_facts_def live_bytes_def supportsAlignment_def memorySupportsLayout_def room_for_def Let_def mod_eq_0_iff_dvd
        split: option.splits)
qed

text \<open>C22: every route returned is legal. It starts at the source, ends at the destination, visits no memory twice,
  follows links of the machine that join its memories, and takes at most \<^verbatim>\<open>maxHops\<close> of them. On every
  hop the value is a whole number of transactions, the memory entered has the alignment, the layout and, before
  the destination, the room, and an engine of the link that sees its source is recorded in the route. No more
  routes are returned than the caps allow.\<close>

theorem routes_legal:
  assumes "enumerateRoutes m opts req limit = (Inr routes, tr)" "rq_source req \<noteq> rq_destination req" "r \<in> set routes"
  shows "length routes \<le> min limit (maxRoutes opts) \<and>
    (\<exists>ls. rt_links r = map link_id ls \<and> rt_nodes r = rq_source req # map link_destination ls \<and>
      legal_way m req ls \<and> hopCount r \<le> maxHops opts \<and> latencyCycles (rt_cost r) = way_cost req ls \<and>
      (\<forall>link \<in> set ls. \<exists>memory e. findMemory m (link_destination link) = Some memory \<and>
         hop_facts m req link memory e \<and> e \<in> set (rt_engines r)))"
proof -
  let ?dst = "rq_destination req"
  note run = enumerate_search(1) [OF assms(1,2), of routes] note result = search_result [where m = m and opts = opts and req = req and src = "rq_source req" and dst = ?dst and limit = "min limit (maxRoutes opts)"]
  obtain p where p: "in_reach m opts req (rq_source req) ?dst p" "last (pr_nodes p) = ?dst" "r = finish_route m req p"
    using result(1) assms(3) run by (auto simp: search_sound_def)
  obtain ls where ls: "reached m req (rq_source req) ?dst ls p" "length ls \<le> maxHops opts" using p(1) by (auto simp: in_reach_def)
  have "legal_way m req ls" using ls(1) p(2) legal_way_iff by blast
  moreover have "\<forall>link \<in> set ls. \<exists>memory e. findMemory m (link_destination link) = Some memory \<and>
      legalHop m link memory req ?dst = Some e \<and> e \<in> set (pr_engines p)"
    using follow_Some [OF ls(1) [unfolded reached_def]] by (simp add: start_route_def)
  then have "\<forall>link \<in> set ls. \<exists>memory e. findMemory m (link_destination link) = Some memory \<and>
      hop_facts m req link memory e \<and> e \<in> set (pr_engines p)" by (meson legalHop_facts)
  ultimately show ?thesis
    using reached_facts [OF ls(1)] ls(2) p(3) result(3) run by (auto simp: finish_route_def hopCount_def way_cost_def)
qed

text \<open>C15: an enumeration that does not report truncation is complete. Its routes are exactly the legal ways from
  the source to the destination, of any length; in particular it fails with "no route" exactly when there is none.\<close>

theorem routes_complete:
  assumes "enumerateRoutes m opts req limit = (res, False)" "rq_source req \<noteq> rq_destination req"
    "res = Inr routes \<or> (res = Inl (NoRoute s d) \<and> routes = [])"
  shows "(\<lambda>r. (rt_nodes r, rt_links r)) ` set routes =
    {(rq_source req # map link_destination ls, map link_id ls) | ls. legal_way m req ls}"
proof -
  let ?dst = "rq_destination req" and ?L = "min limit (maxRoutes opts)"
  let ?s = "search_routes m opts req ?dst ?L (initial_search (rq_source req))"
  note run = enumerate_search [OF assms] and result = search_result [where m = m and opts = opts and req = req and src = "rq_source req" and dst = ?dst and limit = ?L]
  have no_cap: "\<not> hopCapPruned ?s" "length (found ?s) < ?L" using run by auto
  then have "frontier ?s = []" using search_routes_end [of m opts req ?dst ?L "initial_search (rq_source req)"] by auto
  then have all: "finish_route m req q \<in> set routes" if "reached m req (rq_source req) ?dst ls q" "last (pr_nodes q) = ?dst" for ls q
    using result(2) no_cap(1) that run(1) by (auto simp: search_covers_def)
  show ?thesis
  proof (intro equalityI subsetI; elim imageE CollectE exE conjE)
    fix x r assume x: "x = (rt_nodes r, rt_links r)" "r \<in> set routes"
    then obtain p ls where "reached m req (rq_source req) ?dst ls p" "last (pr_nodes p) = ?dst" "r = finish_route m req p"
      using result(1) run(1) by (auto simp: search_sound_def in_reach_def)
    then show "x \<in> {(rq_source req # map link_destination ls, map link_id ls) | ls. legal_way m req ls}"
      using x(1) reached_facts(1,2) legal_way_iff by (fastforce simp: finish_route_def)
  next
    fix x ls assume x: "x = (rq_source req # map link_destination ls, map link_id ls)" "legal_way m req ls"
    then obtain q where q: "reached m req (rq_source req) ?dst ls q" "last (pr_nodes q) = ?dst" using legal_way_iff by blast
    then have "x = (\<lambda>r. (rt_nodes r, rt_links r)) (finish_route m req q)"
      using reached_facts(1,2) [OF q(1)] x(1) by (simp add: finish_route_def)
    then show "x \<in> (\<lambda>r. (rt_nodes r, rt_links r)) ` set routes" using all [OF q] by blast
  qed
qed


text \<open>The sample request has one route, over the one link of the machine.\<close>

definition sample_link :: link_edge where
  "sample_link =
     \<lparr>link_id = ''l.0'', link_source = ''dram.0'', link_destination = ''sram.0'', link_bandwidth = Finite 8,
      link_latencyCycles = 20, transactionBytes = 64, link_transferEngines = [''dma.0''], link_concurrency = 1,
      directionality = Unidirectional\<rparr>"

definition sample_partial :: partial_route where
  "sample_partial =
     \<lparr>pr_nodes = [''dram.0'', ''sram.0''], pr_links = [''l.0''], pr_engines = [''dma.0''], pr_linkIds = [''l.0''],
      pr_cost = double_add (Finite 0) (hop_cost sample_request sample_link)\<rparr>"

abbreviation sample_options :: route_options where "sample_options \<equiv> \<lparr>maxRoutes = 8, maxHops = 4\<rparr>"

lemma sample_fields [simp]:
  "transactionBytes sample_link = 64" "link_source sample_link = ''dram.0''" "link_destination sample_link = ''sram.0''"
  "link_id sample_link = ''l.0''" "rq_bytes sample_request = 128" "rq_alignment sample_request = 16"
  "layoutClass sample_request = None" "rq_source sample_request = ''dram.0''" "rq_destination sample_request = ''sram.0''"
  "producerExecutor sample_request = None" "consumerExecutor sample_request = Some ''pe.0''"
  by (simp_all add: sample_link_def sample_request_def)

lemma start_route_fields: "pr_nodes (start_route i) = [i]" "pr_links (start_route i) = []"
  by (simp_all add: start_route_def)

lemma sample_links: "links sample_machine = [sample_link]"
  by (simp add: sample_machine_def sample_link_def)

lemma sample_sram:
  obtains node where "findMemory sample_machine ''sram.0'' = Some node" "mem_id node = ''sram.0''" "alignmentBytes node = 16"
  by (simp add: sample_machine_def findMemory_def findById_def)

lemma sample_dram:
  obtains node where "findMemory sample_machine ''dram.0'' = Some node" "mem_id node = ''dram.0''" "alignmentBytes node = 64"
  by (simp add: sample_machine_def findMemory_def findById_def)

lemma sample_engine: "legalEngine sample_machine sample_link = Some ''dma.0''"
  by (simp add: legalEngine_def sample_link_def isVisible_def isWithin_def within_walk.simps findExecutor_def findMemory_def
      findTransferEngine_def findById_def sample_machine_def)

lemma sample_hop: "hop_ok sample_machine sample_request ''sram.0'' sample_link"
  by (rule sample_sram) (simp add: hop_ok_def legalHop_def supportsAlignment_def sample_engine)

lemma sample_expansion:
  "List.map_filter (next_partial sample_machine sample_request ''sram.0'' (start_route ''dram.0'')) (outgoing sample_machine ''dram.0'')
     = [sample_partial]"
proof (rule sample_sram)
  fix node assume node: "findMemory sample_machine ''sram.0'' = Some node" "mem_id node = ''sram.0''" "alignmentBytes node = 16"
  have "next_partial sample_machine sample_request ''sram.0'' (start_route ''dram.0'') sample_link = Some sample_partial"
    by (simp add: next_partial_def advance_route_def legalHop_def sample_partial_def start_route_def supportsAlignment_def node sample_engine)
  then show ?thesis by (simp add: outgoing_def sample_links List.map_filter_def)
qed

lemma sample_routes:
  "enumerateRoutes sample_machine sample_options sample_request 8 = (Inr [finish_route sample_machine sample_request sample_partial], False)"
proof (rule sample_sram, rule sample_dram)
  fix src dst
  assume dst: "findMemory sample_machine ''sram.0'' = Some dst" "mem_id dst = ''sram.0''" "alignmentBytes dst = 16"
    and src: "findMemory sample_machine ''dram.0'' = Some src" "mem_id src = ''dram.0''" "alignmentBytes src = 64"
  let ?step = "search_step sample_machine sample_options sample_request ''sram.0''"
  let ?fin = "finish_route sample_machine sample_request sample_partial"
  have steps: "?step (initial_search ''dram.0'') = \<lparr>frontier = [sample_partial], found = [], hopCapPruned = False\<rparr>"
      "?step \<lparr>frontier = [sample_partial], found = [], hopCapPruned = False\<rparr> = \<lparr>frontier = [], found = [?fin], hopCapPruned = False\<rparr>"
    using sample_expansion
    by (simp_all add: search_step_def initial_search_def pop_route_def start_route_fields)
      (simp add: sample_partial_def)
  note run = search_routes.simps [of sample_machine sample_options sample_request "''sram.0''" 8]
  have "search_routes sample_machine sample_options sample_request ''sram.0'' 8 (initial_search ''dram.0'')
      = \<lparr>frontier = [], found = [?fin], hopCapPruned = False\<rparr>"
    by (subst run, simp add: steps, simp add: initial_search_def, subst run, simp add: steps, subst run, simp)
  moreover have "isVisible sample_machine ''sram.0'' ''pe.0''"
    by (simp add: isVisible_def isWithin_def within_walk.simps findExecutor_def findMemory_def findById_def sample_machine_def)
  ultimately show ?thesis
    by (simp add: enumerateRoutes_def src dst check_sees_def check_endpoints_def check_alignment_def check_layout_def
        supportsAlignment_def initial_search_def)
qed


lemma routes_legal_witness:
  "\<exists>ls. rt_links (finish_route sample_machine sample_request sample_partial) = map link_id ls \<and> legal_way sample_machine sample_request ls"
  using routes_legal [OF sample_routes] by auto

lemma routes_complete_witness:
  "{(''dram.0'' # map link_destination ls, map link_id ls) | ls. legal_way sample_machine sample_request ls} =
     {([''dram.0'', ''sram.0''], [''l.0''])}"
  using routes_complete [OF sample_routes, of "[finish_route sample_machine sample_request sample_partial]"]
  by (simp add: finish_route_def sample_partial_def)

lemma verified_hop_costs:
  assumes "verifyMachineModel m = None" "rq_bytes req \<le> uint64_max"
    "\<forall>link \<in> set (links m). link_bandwidth link \<noteq> NotANumber \<and> link_latencyCycles link \<le> uint64_max"
  shows "hop_costs_ok m req"
  unfolding hop_costs_ok_def
proof
  fix link assume link: "link \<in> set (links m)"
  then have "check_link m link = None" using verify_sections [OF assms(1)] by blast
  then have "double_less (Finite 0) (link_bandwidth link)"
    using assms(3) link by (cases "link_bandwidth link") (auto simp: check_link_def fail_if_def double_less_def split: if_splits)
  then have "cost_value (double_div (double_of_nat (rq_bytes req)) (link_bandwidth link))"
    using cost_value_div [OF cost_value_count [OF assms(2)]] by (simp add: double_of_nat_def)
  then show "cost_value (hop_cost req link)"
    using cost_value_add(1) cost_value_count assms(3) link by (simp add: hop_cost_def)
qed

text \<open>Routes come best first, by cost, then by number of links, then by link ids. On a verified machine, also
  when a cap cut the enumeration, no legal way within the hop cap that is left out ranks before a route returned.\<close>

theorem routes_best_first:
  assumes "enumerateRoutes m opts req limit = (Inr routes, tr)" "rq_source req \<noteq> rq_destination req"
    "verifyMachineModel m = None" "rq_bytes req \<le> uint64_max"
    "\<forall>link \<in> set (links m). link_bandwidth link \<noteq> NotANumber \<and> link_latencyCycles link \<le> uint64_max"
  shows "sorted (map full_key routes) \<and>
    (\<forall>ls. legal_way m req ls \<and> length ls \<le> maxHops opts \<and> map link_id ls \<notin> rt_links ` set routes \<longrightarrow>
       (\<forall>r \<in> set routes. full_key r \<le> route_key (way_cost req ls) (map link_id ls)))"
proof -
  let ?dst = "rq_destination req" and ?L = "min limit (maxRoutes opts)"
  let ?s = "search_routes m opts req ?dst ?L (initial_search (rq_source req))"
  note run = enumerate_search(1) [OF assms(1,2), of routes]
    and result = search_result [where m = m and opts = opts and req = req and src = "rq_source req" and dst = ?dst and limit = ?L]
  have costs: "hop_costs_ok m req" using verified_hop_costs assms(3-5) by blast
  have ordered: "search_ordered ?s" by (rule result(4) [OF costs])
  have "full_key r \<le> route_key (way_cost req ls) (map link_id ls)"
    if ls: "legal_way m req ls" "length ls \<le> maxHops opts" "map link_id ls \<notin> rt_links ` set routes" and r: "r \<in> set routes" for ls r
  proof -
    obtain q where q: "reached m req (rq_source req) ?dst ls q" "last (pr_nodes q) = ?dst" using ls(1) legal_way_iff by blast
    note facts = reached_facts [OF q(1)]
    have key: "partial_key q = route_key (way_cost req ls) (map link_id ls)" by (simp add: facts(2,4) way_cost_def)
    have "rt_links (finish_route m req q) = map link_id ls" by (simp add: finish_route_def facts(2))
    then have "finish_route m req q \<notin> set (found ?s)" using ls(3) run by (metis image_eqI)
    then obtain p ks where p: "p \<in> set (frontier ?s)" "follow m req ?dst p ks = Some q"
      using result(2) [unfolded search_covers_def, rule_format, of ls q] q ls(2) by blast
    have "keyed p" using reached_keyed [OF costs] result(1) p(1) by (auto simp: search_sound_def)
    then have "partial_key p \<le> partial_key q" using follow_keyed [OF costs p(2)] by blast
    moreover have "full_key r \<le> partial_key p" using ordered p(1) r run by (simp add: search_ordered_def)
    ultimately show ?thesis using key by simp
  qed
  moreover have "sorted (map full_key routes)" using ordered run by (simp add: search_ordered_def)
  ultimately show ?thesis by blast
qed

lemma routes_best_first_witness:
  "sorted (map full_key [finish_route sample_machine sample_request sample_partial])"
proof -
  have "rq_bytes sample_request \<le> uint64_max"
    "list_all (\<lambda>link. link_bandwidth link \<noteq> NotANumber \<and> link_latencyCycles link \<le> uint64_max) (links sample_machine)"
    by (simp_all add: sample_links uint64_max_def) (simp add: sample_link_def)
  then show ?thesis using routes_best_first [OF sample_routes _ sample_verified] by (simp add: list_all_iff del: list.map)
qed

end
