(* ===== verification/Worklist.thy ===== *)
theory Worklist
  imports Prelude "HOL-Library.Multiset"
begin

text \<open>
  The traversal in dependency order that the event scheduler and the strict event check share
  (\<^verbatim>\<open>lib/Mapping/EventSchedule.cpp\<close>): counters of unfinished predecessors, and a set of ready events from
  which one is taken at a time. The locale states what the traversal needs of the container that
  holds the ready events; the scheduler takes the smallest ev from a heap, the check takes the last
  from a stack.
\<close>

section \<open>Operations\<close>

text \<open>\<open>preds ! ev\<close> are the predecessors of \<open>ev\<close>, with repetitions. \<open>dependents_of preds dep\<close> lists the
  events that name \<open>dep\<close>, in the order the two nested loops push them.\<close>

definition dependents_of :: "nat list list \<Rightarrow> nat \<Rightarrow> nat list" where
  "dependents_of preds dep =
     concat (map (\<lambda>ev. map (\<lambda>_. ev) (filter (\<lambda>d. d = dep) (preds ! ev))) [0..<length preds])"

fun release :: "nat list \<Rightarrow> nat list \<Rightarrow> nat list \<Rightarrow> nat list \<times> nat list" where
  "release [] rem ready = (rem, ready)"
| "release (d # ds) rem ready =
     (let r = rem ! d - 1 in release ds (rem[d := r]) (if r = 0 then ready @ [d] else ready))"

definition initial_ready :: "nat list \<Rightarrow> nat list" where
  "initial_ready rem = filter (\<lambda>ev. rem ! ev = 0) [0..<length rem]"

text \<open>The heap with the smallest ev on top, as the list of its members, and the stack.\<close>

definition pop_min :: "nat list \<Rightarrow> nat \<times> nat list" where
  "pop_min xs = (let m = fold min (tl xs) (hd xs) in (m, remove1 m xs))"

definition pop_back :: "nat list \<Rightarrow> nat \<times> nat list" where
  "pop_back xs = (last xs, butlast xs)"

record traversal =
  remaining :: "nat list"
  ready :: "nat list"
  visited :: "nat list"

definition start_traversal :: "nat list list \<Rightarrow> traversal" where
  "start_traversal preds =
     (let rem = map length preds in \<lparr>remaining = rem, ready = initial_ready rem, visited = []\<rparr>)"

definition visit :: "(nat list \<Rightarrow> nat \<times> nat list) \<Rightarrow> nat list list \<Rightarrow> traversal \<Rightarrow> traversal" where
  "visit pop preds s =
     (case pop (ready s) of
        (ev, rest) \<Rightarrow>
          (case release (dependents_of preds ev) (remaining s) rest of
             (rem', ready') \<Rightarrow> \<lparr>remaining = rem', ready = ready', visited = visited s @ [ev]\<rparr>))"

fun traverse :: "(nat list \<Rightarrow> nat \<times> nat list) \<Rightarrow> nat list list \<Rightarrow> nat \<Rightarrow> traversal \<Rightarrow> traversal" where
  "traverse pop preds 0 s = s"
| "traverse pop preds (Suc k) s = (if ready s = [] then s else traverse pop preds k (visit pop preds s))"

section \<open>Releasing dependents\<close>

lemma release_spec:
  "(\<And>x. count_list ds x \<le> rem ! x) \<Longrightarrow> \<forall>x \<in> set ds. x < length rem \<Longrightarrow> release ds rem q = (rem', q') \<Longrightarrow>
     length rem' = length rem \<and> (\<forall>x < length rem. rem' ! x = rem ! x - count_list ds x) \<and>
     (\<exists>new. q' = q @ new \<and> distinct new \<and> set new = {x \<in> set ds. rem ! x = count_list ds x})"
proof (induction ds arbitrary: rem q)
  case (Cons d ds)
  let ?r = "rem ! d - 1"
  let ?rem = "rem[d := ?r]"
  have d: "d < length rem" "0 < rem ! d" using Cons.prems(1) [of d] Cons.prems(2) by auto
  have le: "count_list ds x \<le> ?rem ! x" for x
    using Cons.prems(1) [of x] d by (cases "x = d") auto
  have bound: "\<forall>x \<in> set ds. x < length ?rem" using Cons.prems(2) by simp
  let ?q = "if ?r = 0 then q @ [d] else q"
  have run: "release ds ?rem ?q = (rem', q')" using Cons.prems(3) by (simp add: Let_def)
  obtain new where new: "length rem' = length rem" "\<forall>x < length rem. rem' ! x = ?rem ! x - count_list ds x"
      "q' = ?q @ new" "distinct new" "set new = {x \<in> set ds. ?rem ! x = count_list ds x}"
    using Cons.IH [OF le bound run] by auto
  have vals: "\<forall>x < length rem. rem' ! x = rem ! x - count_list (d # ds) x"
    using new(2) d by (auto simp: nth_list_update)
  show ?case
  proof (cases "?r = 0")
    case True
    then have "count_list ds d = 0" using le [of d] d by simp
    then have notin: "d \<notin> set ds" by (simp add: count_list_0_iff)
    then have "distinct (d # new)" using new(4,5) by auto
    moreover have "set (d # new) = {x \<in> set (d # ds). rem ! x = count_list (d # ds) x}"
    proof (rule set_eqI)
      fix x show "x \<in> set (d # new) \<longleftrightarrow> x \<in> {x \<in> set (d # ds). rem ! x = count_list (d # ds) x}"
        using new(5) notin True d \<open>count_list ds d = 0\<close> by (cases "x = d") simp_all
    qed
    moreover have "q' = q @ (d # new)" using new(3) True by simp
    ultimately show ?thesis using new(1) vals by blast
  next
    case False
    have "set new = {x \<in> set (d # ds). rem ! x = count_list (d # ds) x}"
    proof -
      have "rem ! d = Suc (count_list ds d) \<Longrightarrow> d \<in> set ds" using False by (metis count_notin diff_Suc_1)
      moreover have "?rem ! d = count_list ds d \<longleftrightarrow> rem ! d = Suc (count_list ds d)" using d by auto
      moreover have "?rem ! x = count_list ds x \<longleftrightarrow> rem ! x = count_list (d # ds) x" if "x \<noteq> d" for x using that by simp
      ultimately have "x \<in> set ds \<and> ?rem ! x = count_list ds x \<longleftrightarrow> x \<in> set (d # ds) \<and> rem ! x = count_list (d # ds) x" for x
        by (cases "x = d") (simp_all, blast)
      then show ?thesis using new(5) by simp
    qed
    moreover have "q' = q @ new" using new(3) False by simp
    ultimately show ?thesis using new(1,4) vals by blast
  qed
qed simp

lemma count_concat_ids:
  "distinct ids \<Longrightarrow> count_list (concat (map (\<lambda>ev. map (\<lambda>_. ev) (filter (\<lambda>d. d = dep) (f ev)))  ids)) x
     = (if x \<in> set ids then count_list (f x) dep else 0)"
proof (induction ids)
  case (Cons i ids)
  have "count_list (map (\<lambda>_. i) (filter (\<lambda>d. d = dep) ys)) x = (if x = i then count_list ys dep else 0)" for ys
    by (induction ys) auto
  then show ?case using Cons by (auto simp: count_list_append)
qed simp

lemma count_dependents:
  "count_list (dependents_of preds dep) x = (if x < length preds then count_list (preds ! x) dep else 0)"
  by (simp add: dependents_of_def count_concat_ids)

lemma dependents_bound: "x \<in> set (dependents_of preds dep) \<Longrightarrow> x < length preds"
  by (auto simp: dependents_of_def)

section \<open>The traversal visits in dependency order\<close>

definition preds_ok :: "nat list list \<Rightarrow> bool" where
  "preds_ok preds \<longleftrightarrow> (\<forall>ps \<in> set preds. \<forall>d \<in> set ps. d < length preds)"

definition open_preds :: "nat list list \<Rightarrow> nat list \<Rightarrow> nat \<Rightarrow> nat" where
  "open_preds preds done_ids x = length (filter (\<lambda>d. d \<notin> set done_ids) (preds ! x))"

definition traversal_inv :: "nat list list \<Rightarrow> traversal \<Rightarrow> bool" where
  "traversal_inv preds s \<longleftrightarrow> length (remaining s) = length preds \<and>
     (\<forall>x < length preds. remaining s ! x = open_preds preds (visited s) x) \<and>
     distinct (visited s @ ready s) \<and>
     (\<forall>x. x \<in> set (visited s @ ready s) \<longleftrightarrow> x < length preds \<and> remaining s ! x = 0) \<and>
     (\<forall>i < length (visited s). \<forall>d \<in> set (preds ! (visited s ! i)). d \<in> set (take i (visited s)))"

lemma start_inv: "traversal_inv preds (start_traversal preds)"
  by (auto simp: traversal_inv_def start_traversal_def initial_ready_def open_preds_def Let_def)

lemma open_preds_visit:
  "ev \<notin> set vs \<Longrightarrow> open_preds preds (vs @ [ev]) x = open_preds preds vs x - count_list (preds ! x) ev"
proof -
  assume notin: "ev \<notin> set vs"
  have "length (filter (\<lambda>d. d \<notin> set (vs @ [ev])) ps) + count_list ps ev = length (filter (\<lambda>d. d \<notin> set vs) ps)" for ps
    using notin by (induction ps) auto
  from this [of "preds ! x"] show ?thesis by (simp add: open_preds_def)
qed

lemma count_le_open: "ev \<notin> set vs \<Longrightarrow> count_list (preds ! x) ev \<le> open_preds preds vs x"
proof -
  assume notin: "ev \<notin> set vs"
  have "count_list ps ev \<le> length (filter (\<lambda>d. d \<notin> set vs) ps)" for ps using notin by (induction ps) auto
  then show ?thesis by (simp add: open_preds_def)
qed

locale worklist =
  fixes pop :: "nat list \<Rightarrow> nat \<times> nat list"
  assumes pop_mset: "xs \<noteq> [] \<Longrightarrow> mset xs = add_mset (fst (pop xs)) (mset (snd (pop xs)))"
begin

lemma visit_inv:
  assumes inv: "traversal_inv preds s" and more: "ready s \<noteq> []"
  shows "traversal_inv preds (visit pop preds s) \<and>
    visited (visit pop preds s) = visited s @ [fst (pop (ready s))] \<and> fst (pop (ready s)) \<in> set (ready s)"
proof -
  obtain x rest where pop: "pop (ready s) = (x, rest)" by fastforce
  then have ms: "mset (ready s) = add_mset x (mset rest)" using pop_mset [OF more] by simp
  let ?n = "length preds" and ?ds = "dependents_of preds x"
  have x: "x \<in> set (ready s)" using ms by (metis set_mset_mset union_single_eq_member)
  have rest: "set (ready s) = insert x (set rest)" "distinct (ready s) \<longleftrightarrow> distinct (x # rest)"
    using mset_eq_setD [of "ready s" "x # rest"] mset_eq_imp_distinct_iff [of "ready s" "x # rest"] ms by simp_all
  have old: "length (remaining s) = ?n" "distinct (visited s @ ready s)"
      "\<And>y. y < ?n \<Longrightarrow> remaining s ! y = open_preds preds (visited s) y"
      "\<And>y. y \<in> set (visited s @ ready s) \<longleftrightarrow> y < ?n \<and> remaining s ! y = 0"
    using inv by (simp_all add: traversal_inv_def)
  have fresh: "x \<notin> set (visited s)" "x \<notin> set rest" "distinct (visited s @ x # rest)" "x < ?n" "remaining s ! x = 0"
    using old(2,4) x rest by auto
  have le: "count_list ?ds y \<le> remaining s ! y" for y
    using count_le_open [OF fresh(1), of preds y] old(3) by (auto simp: count_dependents)
  obtain rem' q' where rel: "release ?ds (remaining s) rest = (rem', q')" by fastforce
  obtain new where new: "length rem' = ?n" "\<And>y. y < ?n \<Longrightarrow> rem' ! y = remaining s ! y - count_list ?ds y"
      "q' = rest @ new" "distinct new" "set new = {y \<in> set ?ds. remaining s ! y = count_list ?ds y}"
    using release_spec [of ?ds "remaining s" rest rem' q', OF le _ rel] old(1) dependents_bound by auto
  have v: "visit pop preds s = \<lparr>remaining = rem', ready = rest @ new, visited = visited s @ [x]\<rparr>"
    by (simp add: visit_def pop rel new(3))
  have "rem' ! y = open_preds preds (visited s @ [x]) y" if "y < ?n" for y
    using new(2) old(3) that open_preds_visit [OF fresh(1)] by (simp add: count_dependents)
  moreover have newpos: "0 < remaining s ! y" if "y \<in> set new" for y
    using that count_list_0_iff [of ?ds y] unfolding new(5) by auto
  then have "set new \<inter> set (visited s @ x # rest) = {}" using old(4) rest(1) by fastforce
  then have "distinct ((visited s @ [x]) @ rest @ new)" using fresh(3) new(4) by auto
  moreover have "y \<in> set ((visited s @ [x]) @ rest @ new) \<longleftrightarrow> y < ?n \<and> rem' ! y = 0" for y
  proof (cases "y \<in> set (visited s @ ready s)")
    case True
    then show ?thesis using old(4) [of y] new(2) [of y] rest(1) by auto
  next
    case False
    then have pos: "y < ?n \<Longrightarrow> 0 < remaining s ! y" using old(4) [of y] by auto
    have "y \<in> set new \<longleftrightarrow> y \<in> set ?ds \<and> remaining s ! y = count_list ?ds y" unfolding new(5) by simp
    then have "y \<in> set new \<longleftrightarrow> y < ?n \<and> remaining s ! y = count_list ?ds y"
      using pos dependents_bound [of y preds x] count_notin [of y ?ds] by (cases "y \<in> set ?ds") simp_all
    moreover have "y \<in> set ((visited s @ [x]) @ rest @ new) \<longleftrightarrow> y \<in> set new" using False rest(1) by auto
    moreover have "y < ?n \<Longrightarrow> rem' ! y = 0 \<longleftrightarrow> remaining s ! y = count_list ?ds y"
      using new(2) [of y] le [of y] by linarith
    ultimately show ?thesis by blast
  qed
  moreover have "d \<in> set (take i (visited s @ [x]))"
    if "i < length (visited s @ [x])" "d \<in> set (preds ! ((visited s @ [x]) ! i))" for i d
  proof (cases "i < length (visited s)")
    case True
    then show ?thesis using inv that by (auto simp: traversal_inv_def nth_append)
  next
    case False
    then have i: "i = length (visited s)" using that by simp
    have "open_preds preds (visited s) x = 0" using old(3) fresh(4,5) by simp
    then show ?thesis using i that by (auto simp: open_preds_def filter_empty_conv)
  qed
  ultimately show ?thesis using new(1) x pop v by (auto simp: traversal_inv_def)
qed

lemma traverse_inv: "traversal_inv preds s \<Longrightarrow> traversal_inv preds (traverse pop preds k s)"
  by (induction k arbitrary: s) (auto simp: visit_inv)

end


section \<open>Enough rounds, and the acyclic case\<close>

lemma visited_bound: "traversal_inv preds s \<Longrightarrow> length (visited s) + length (ready s) \<le> length preds"
proof -
  assume inv: "traversal_inv preds s"
  then have "distinct (visited s @ ready s)" "set (visited s @ ready s) \<subseteq> {..<length preds}"
    by (auto simp: traversal_inv_def)
  then have "length (visited s @ ready s) \<le> card {..<length preds}" by (metis card_mono distinct_card finite_lessThan)
  then show ?thesis by simp
qed

definition dependency_edges :: "nat list list \<Rightarrow> (nat \<times> nat) set" where
  "dependency_edges preds = {(d, x). x < length preds \<and> d \<in> set (preds ! x)}"

lemma dependency_edges_finite: "finite (dependency_edges preds)"
proof -
  have "dependency_edges preds = (\<Union>x \<in> {..<length preds}. (\<lambda>d. (d, x)) ` set (preds ! x))"
    by (auto simp: dependency_edges_def)
  then show ?thesis by simp
qed

context worklist
begin

lemma visit_visited: "traversal_inv preds s \<Longrightarrow> ready s \<noteq> [] \<Longrightarrow> length (visited (visit pop preds s)) = Suc (length (visited s))"
  using visit_inv by simp

lemma traverse_stops:
  "traversal_inv preds s \<Longrightarrow> length preds \<le> length (visited s) + k \<Longrightarrow> ready (traverse pop preds k s) = []"
proof (induction k arbitrary: s)
  case 0
  then have "length (ready s) = 0" using visited_bound [of preds s] by linarith
  then show ?case by simp
next
  case (Suc k)
  show ?case
  proof (cases "ready s = []")
    case False
    then show ?thesis using Suc visit_inv [of preds s] visit_visited [of preds s] by simp
  qed simp
qed

lemma traverse_more:
  "traversal_inv preds s \<Longrightarrow> length preds \<le> length (visited s) + k \<Longrightarrow> k \<le> k' \<Longrightarrow>
     traverse pop preds k' s = traverse pop preds k s"
proof (induction k arbitrary: s k')
  case 0
  then have "length (ready s) = 0" using visited_bound [of preds s] by linarith
  then have "ready s = []" by simp
  then show ?case by (cases k') auto
next
  case (Suc k)
  then obtain k'' where k': "k' = Suc k''" "k \<le> k''" by (cases k') auto
  show ?case
  proof (cases "ready s = []")
    case False
    have "traverse pop preds k'' (visit pop preds s) = traverse pop preds k (visit pop preds s)"
      using Suc.prems visit_inv [OF Suc.prems(1) False] visit_visited [OF Suc.prems(1) False] k'(2)
      by (intro Suc.IH) simp_all
    then show ?thesis using False k'(1) by simp
  qed (simp add: k')
qed

text \<open>The whole traversal: as many rounds as there are events are enough.\<close>

lemma traversal_done:
  "traversal_inv preds (traverse pop preds (length preds) (start_traversal preds))"
  "ready (traverse pop preds (length preds) (start_traversal preds)) = []"
  using traverse_inv [OF start_inv, of preds "length preds"] traverse_stops [OF start_inv, of preds "length preds"]
  by simp_all

lemma traversal_complete_iff:
  assumes "preds_ok preds"
  shows "set (visited (traverse pop preds (length preds) (start_traversal preds))) = {..<length preds}
    \<longleftrightarrow> acyclic (dependency_edges preds)"
proof
  let ?s = "traverse pop preds (length preds) (start_traversal preds)"
  have inv: "traversal_inv preds ?s" and empty: "ready ?s = []" using traversal_done by auto
  have dist: "distinct (visited ?s)" and sub: "\<And>x. x \<in> set (visited ?s) \<longleftrightarrow> x < length preds \<and> remaining ?s ! x = 0"
    and rem: "\<And>x. x < length preds \<Longrightarrow> remaining ?s ! x = open_preds preds (visited ?s) x"
    and topo: "\<And>i d. i < length (visited ?s) \<Longrightarrow> d \<in> set (preds ! (visited ?s ! i)) \<Longrightarrow> d \<in> set (take i (visited ?s))"
    using inv empty by (auto simp: traversal_inv_def)
  {
    assume all: "set (visited ?s) = {..<length preds}"
    let ?pos = "\<lambda>x. THE i. i < length (visited ?s) \<and> visited ?s ! i = x"
    have pos: "?pos (visited ?s ! i) = i" if "i < length (visited ?s)" for i
      using that dist nth_eq_iff_index_eq by (intro the_equality) auto
    have "dependency_edges preds \<subseteq> measure ?pos"
    proof
      fix e assume "e \<in> dependency_edges preds"
      then obtain d x where e: "e = (d, x)" "x < length preds" "d \<in> set (preds ! x)" by (auto simp: dependency_edges_def)
      then obtain i where i: "i < length (visited ?s)" "x = visited ?s ! i" using all by (metis in_set_conv_nth lessThan_iff)
      have "d \<in> set (take i (visited ?s))" using topo [OF i(1)] e(3) i(2) by blast
      then obtain j where "j < i" "d = visited ?s ! j" using i(1) by (auto simp: in_set_conv_nth)
      then show "e \<in> measure ?pos" using pos i e(1) by simp
    qed
    then show "acyclic (dependency_edges preds)" using wf_acyclic wf_subset wf_measure by blast
  }
  assume acyc: "acyclic (dependency_edges preds)"
  then have wf: "wf (dependency_edges preds)" using finite_acyclic_wf dependency_edges_finite by blast
  have "x < length preds \<Longrightarrow> x \<in> set (visited ?s)" for x
  proof (induction x rule: wf_induct [OF wf])
    case (1 x)
    have "\<forall>d \<in> set (preds ! x). d \<in> set (visited ?s)"
    proof
      fix d assume d: "d \<in> set (preds ! x)"
      then have "d < length preds" using assms nth_mem [OF 1(2)] by (auto simp: preds_ok_def)
      then show "d \<in> set (visited ?s)" using 1 d by (simp add: dependency_edges_def)
    qed
    then have "open_preds preds (visited ?s) x = 0" by (auto simp: open_preds_def filter_empty_conv)
    then show ?case using sub rem 1(2) by simp
  qed
  then show "set (visited ?s) = {..<length preds}" using sub by auto
qed

end

lemma fold_min_spec: "fold min xs (m::nat) \<in> insert m (set xs) \<and> (\<forall>x \<in> insert m (set xs). fold min xs m \<le> x)"
proof (induction xs arbitrary: m)
  case (Cons x xs)
  have "fold min xs (min x m) \<in> insert (min x m) (set xs)" "\<forall>y \<in> insert (min x m) (set xs). fold min xs (min x m) \<le> y"
    using Cons.IH [of "min x m"] by auto
  moreover have "min x m \<in> {x, m}" by (auto simp: min_def)
  ultimately show ?case by (auto intro: min.coboundedI1 min.coboundedI2)
qed simp

interpretation min_heap: worklist pop_min
proof
  fix xs :: "nat list" assume "xs \<noteq> []"
  then have "fold min (tl xs) (hd xs) \<in> set xs" using fold_min_spec [of "tl xs" "hd xs"] by (cases xs) auto
  then show "mset xs = add_mset (fst (pop_min xs)) (mset (snd (pop_min xs)))" by (simp add: pop_min_def Let_def)
qed

interpretation stack: worklist pop_back
proof
  fix xs :: "nat list" assume "xs \<noteq> []"
  then have "xs = butlast xs @ [last xs]" by simp
  then have "mset xs = mset (butlast xs) + {#last xs#}" by (metis mset_append mset_single_iff_right mset.simps(1) mset.simps(2))
  then show "mset xs = add_mset (fst (pop_back xs)) (mset (snd (pop_back xs)))" by (simp add: pop_back_def)
qed

lemma pop_min_least: "xs \<noteq> [] \<Longrightarrow> fst (pop_min xs) \<in> set xs \<and> (\<forall>x \<in> set xs. fst (pop_min xs) \<le> x)"
  using fold_min_spec [of "tl xs" "hd xs"] by (cases xs) (auto simp: pop_min_def Let_def)

end
