(* ===== verification/EventSchedule.thy ===== *)
theory EventSchedule
  imports CostModel Worklist
begin

text \<open>
  The shared event scheduler: the normalized events of \<^verbatim>\<open>include/LLK/Mapping/CostEvent.h\<close> and the list
  scheduler, the DRAM traffic, the plan cost and the strict resource check of
  \<^verbatim>\<open>lib/Mapping/EventSchedule.cpp\<close>. The lemmas show that a schedule respects dependencies and the
  widths of the resource and owner pools, that it never predicts more than the sequential time, and that
  a stream the strict check accepts is scheduled completely.
\<close>

section \<open>Events\<close>

datatype cost_event_kind = ComputeEvent | TransferHop | TransformEvent | Synchronization | CapacityEvent

datatype storage_access = ReadAccess | WriteAccess

record storage_use =
  allocationId :: nat
  occurrence :: nat
  access :: storage_access

record plan_cost_event =
  kind :: cost_event_kind
  resource :: string
  event_cost :: cost
  workItems :: nat
  bytes :: nat
  sourceBytes :: nat
  destinationBytes :: nat
  fillElements :: nat
  deps :: "nat list"
  owner :: string
  srcMemory :: string
  dstMemory :: string
  sourceNode :: string
  event_occurrence :: nat
  planStep :: "nat option"
  connectionId :: "nat option"
  hopIndex :: nat
  storageUses :: "storage_use list"

text \<open>Rounding up and conversion to \<^verbatim>\<open>uint64_t\<close>. C++ leaves the conversion of a value outside the range
  undefined; such an event is not \<open>cycles_defined\<close>.\<close>

definition cycles_defined :: "plan_cost_event \<Rightarrow> bool" where
  "cycles_defined e \<longleftrightarrow> is_finite (latencyCycles (event_cost e)) \<and>
     0 \<le> \<lceil>double_value (latencyCycles (event_cost e))\<rceil> \<and>
     \<lceil>double_value (latencyCycles (event_cost e))\<rceil> \<le> int uint64_max"

definition eventCycles :: "plan_cost_event \<Rightarrow> nat" where
  "eventCycles e = nat \<lceil>double_value (latencyCycles (event_cost e))\<rceil>"

section \<open>Resource pools\<close>

record pool_info =
  key :: string
  slots :: nat

definition poolFor :: "plan_cost_event \<Rightarrow> machine_model \<Rightarrow> pool_info" where
  "poolFor e m =
     (case kind e of
        TransferHop \<Rightarrow>
          \<lparr>key = ''dma/'' @ resource e,
           slots = max 1 (case findTransferEngine m (resource e) of Some engine \<Rightarrow> te_count engine | None \<Rightarrow> 1)\<rparr>
      | Synchronization \<Rightarrow> \<lparr>key = ''sync/'' @ resource e, slots = 1\<rparr>
      | CapacityEvent \<Rightarrow> \<lparr>key = ''sync/'' @ resource e, slots = 1\<rparr>
      | _ \<Rightarrow>
          (case findCompute m (resource e) of
             None \<Rightarrow> \<lparr>key = ''vector/'' @ resource e, slots = 1\<rparr>
           | Some engine \<Rightarrow>
               \<lparr>key = (if comp_kind engine = ''matrix_engine'' then ''matrix/'' else ''vector/'') @ resource e,
                slots = max 1 (comp_concurrency engine)\<rparr>))"

text \<open>A pool is the list of the times at which its slots become free.\<close>

type_synonym resource_pool = "nat list"

definition new_resource_pool :: "nat \<Rightarrow> resource_pool" where "new_resource_pool n = replicate (max 1 n) 0"

fun first_min :: "nat list \<Rightarrow> nat" where
  "first_min [] = 0"
| "first_min [t] = 0"
| "first_min (t # ts) = (let j = first_min ts in if ts ! j < t then Suc j else 0)"

definition earliestFree :: "resource_pool \<Rightarrow> nat" where "earliestFree p = p ! first_min p"

definition acquire :: "nat \<Rightarrow> nat \<Rightarrow> resource_pool \<Rightarrow> resource_pool" where
  "acquire beg duration p = p[first_min p := wrap64 (beg + duration)]"

definition ownerSlots :: "machine_model \<Rightarrow> string \<Rightarrow> nat" where
  "ownerSlots m ownerId =
     (case findExecutor m ownerId of
        Some executor \<Rightarrow> max 1 (ex_concurrency executor)
      | None \<Rightarrow> max 1 (ownerCount m ownerId))"

section \<open>Scheduling\<close>

record scheduled_event =
  sched_id :: nat
  sched_start :: nat
  sched_finish :: nat

record event_schedule =
  predictedCycles :: nat
  criticalId :: nat
  sequentialCycles :: nat
  entries :: "scheduled_event list"

text \<open>The dependencies the scheduler keeps: a self or out-of-range edge is dropped.\<close>

definition kept_deps :: "nat \<Rightarrow> nat \<Rightarrow> nat list \<Rightarrow> nat list" where
  "kept_deps n i ds = filter (\<lambda>d. \<not> (d = i \<or> d \<ge> n)) ds"

definition event_preds :: "plan_cost_event list \<Rightarrow> nat list list" where
  "event_preds events = map (\<lambda>i. kept_deps (length events) i (deps (events ! i))) [0..<length events]"

text \<open>The pools an event occupies: its resource's, and its owner's when owners are given for every event.\<close>

definition event_pools :: "plan_cost_event list \<Rightarrow> machine_model \<Rightarrow> string list \<Rightarrow> nat \<Rightarrow> pool_info list" where
  "event_pools events m owners i =
     poolFor (events ! i) m #
     (if length owners = length events \<and> owners ! i \<noteq> []
      then [\<lparr>key = ''owner/'' @ owners ! i, slots = ownerSlots m (owners ! i)\<rparr>] else [])"

record sched_state =
  start_at :: "nat list"
  finish_at :: "nat list"
  trav :: traversal
  pools :: "string \<rightharpoonup> resource_pool"

text \<open>\<^verbatim>\<open>try_emplace\<close>: a pool is created once, with the slots its first event asks for.\<close>

definition pool_for_key :: "pool_info \<Rightarrow> (string \<rightharpoonup> resource_pool) \<Rightarrow> resource_pool" where
  "pool_for_key info ps = (case ps (key info) of Some p \<Rightarrow> p | None \<Rightarrow> new_resource_pool (slots info))"

text \<open>The search for a beg that suits every pool: raise it to the earliest free slots until it stays.\<close>

definition raise_begin :: "nat list \<Rightarrow> nat \<Rightarrow> nat" where
  "raise_begin frees beg = fold max frees beg"

function settle :: "nat list \<Rightarrow> nat \<Rightarrow> nat" where
  "settle frees beg =
     (let candidate = raise_begin frees beg in if candidate = beg then beg else settle frees candidate)"
  by pat_completeness auto

lemma raise_begin_ge: "beg \<le> raise_begin frees beg"
proof (induction frees arbitrary: beg)
  case (Cons f frees)
  show ?case using Cons.IH [of "max f beg"] by (simp add: raise_begin_def)
qed (simp add: raise_begin_def)

lemma raise_begin_bound: "x \<in> set frees \<Longrightarrow> x \<le> raise_begin frees beg"
proof (induction frees arbitrary: beg)
  case (Cons f frees)
  then show ?case using raise_begin_ge [of "max f beg" frees] by (auto simp: raise_begin_def)
qed simp

lemma raise_begin_in: "raise_begin frees beg \<in> insert beg (set frees)"
proof (induction frees arbitrary: beg)
  case (Cons f frees)
  then show ?case using Cons.IH [of "max f beg"] by (auto simp: raise_begin_def max_def split: if_splits)
qed (simp add: raise_begin_def)

lemma raise_begin_idem: "raise_begin frees (raise_begin frees beg) = raise_begin frees beg"
proof -
  have "raise_begin frees (raise_begin frees beg) \<in> insert (raise_begin frees beg) (set frees)"
    by (rule raise_begin_in)
  then show ?thesis
    using raise_begin_bound [of _ frees beg] raise_begin_ge [of "raise_begin frees beg" frees]
    by (auto intro: le_antisym)
qed

termination settle
proof (relation "measure (\<lambda>(frees, b). if raise_begin frees b = b then 0 else 1)", goal_cases)
  case (2 frees beg x)
  then show ?case using raise_begin_idem [of frees beg] by auto
qed simp

declare settle.simps [simp del]

lemma settle_raise: "settle frees beg = raise_begin frees beg"
  using settle.simps [of frees beg] settle.simps [of frees "raise_begin frees beg"] raise_begin_idem [of frees beg]
  by (simp add: Let_def)

definition occupy :: "nat \<Rightarrow> nat \<Rightarrow> pool_info \<Rightarrow> (string \<rightharpoonup> resource_pool) \<Rightarrow> (string \<rightharpoonup> resource_pool)" where
  "occupy beg cycles info ps = ps(key info \<mapsto> acquire beg cycles (pool_for_key info ps))"

definition schedule_step :: "plan_cost_event list \<Rightarrow> machine_model \<Rightarrow> string list \<Rightarrow> sched_state \<Rightarrow> sched_state" where
  "schedule_step events m owners s =
     (let i = fst (pop_min (ready (trav s)));
          infos = event_pools events m owners i;
          earliest = fold (\<lambda>d t. max t (finish_at s ! d)) (kept_deps (length events) i (deps (events ! i))) 0;
          beg = settle (map (\<lambda>info. earliestFree (pool_for_key info (pools s))) infos) earliest;
          cycles = eventCycles (events ! i) in
      \<lparr>start_at = (start_at s)[i := beg], finish_at = (finish_at s)[i := wrap64 (beg + cycles)],
       trav = visit pop_min (event_preds events) (trav s),
       pools = fold (occupy beg cycles) infos (pools s)\<rparr>)"

fun schedule_loop :: "plan_cost_event list \<Rightarrow> machine_model \<Rightarrow> string list \<Rightarrow> nat \<Rightarrow> sched_state \<Rightarrow> sched_state" where
  "schedule_loop events m owners 0 s = s"
| "schedule_loop events m owners (Suc k) s =
     (if ready (trav s) = [] then s else schedule_loop events m owners k (schedule_step events m owners s))"

definition initial_sched :: "plan_cost_event list \<Rightarrow> sched_state" where
  "initial_sched events =
     \<lparr>start_at = replicate (length events) 0, finish_at = replicate (length events) 0,
      trav = start_traversal (event_preds events), pools = (\<lambda>_. None)\<rparr>"

text \<open>The final pass: the last finish, the first event that reaches it, and the sum of all cycles.\<close>

definition critical_event :: "nat list \<Rightarrow> nat \<times> nat" where
  "critical_event finishes =
     fold (\<lambda>i (predicted, crit). if finishes ! i > predicted then (finishes ! i, i) else (predicted, crit))
       [0..<length finishes] (0, 0)"

definition sequential_cycles :: "plan_cost_event list \<Rightarrow> nat" where
  "sequential_cycles events = fold (\<lambda>e total. wrap64 (total + eventCycles e)) events 0"

definition final_sched :: "plan_cost_event list \<Rightarrow> machine_model \<Rightarrow> string list \<Rightarrow> sched_state" where
  "final_sched events m owners = schedule_loop events m owners (length events) (initial_sched events)"

definition scheduleNormalizedEvents :: "plan_cost_event list \<Rightarrow> machine_model \<Rightarrow> string list \<Rightarrow> event_schedule" where
  "scheduleNormalizedEvents events m owners =
     (let s = final_sched events m owners; (predicted, crit) = critical_event (finish_at s) in
      \<lparr>predictedCycles = predicted, criticalId = (if predicted = 0 then 0 else crit),
       sequentialCycles = sequential_cycles events,
       entries = map (\<lambda>i. \<lparr>sched_id = i, sched_start = start_at s ! i, sched_finish = finish_at s ! i\<rparr>) [0..<length events]\<rparr>)"


section \<open>Traffic and plan cost\<close>

definition memory_kind_of :: "machine_model \<Rightarrow> string \<Rightarrow> string" where
  "memory_kind_of m name =
     (case findMemory m name of Some node \<Rightarrow> if mem_kind node = [] then name else mem_kind node | None \<Rightarrow> name)"

definition event_traffic :: "machine_model \<Rightarrow> plan_cost_event \<Rightarrow> nat \<Rightarrow> nat" where
  "event_traffic m e total_bytes =
     (let sourceBytes' = (if sourceBytes e \<noteq> 0 then sourceBytes e else bytes e);
          destinationBytes' = (if destinationBytes e \<noteq> 0 then destinationBytes e else bytes e);
          t = (if srcMemory e \<noteq> [] \<and> memory_kind_of m (srcMemory e) = ''dram''
               then wrap64 (total_bytes + sourceBytes') else total_bytes) in
      if dstMemory e \<noteq> [] \<and> memory_kind_of m (dstMemory e) = ''dram'' then wrap64 (t + destinationBytes') else t)"

definition dramTrafficBytes :: "plan_cost_event list \<Rightarrow> machine_model \<Rightarrow> nat" where
  "dramTrafficBytes events m = fold (event_traffic m) events 0"

datatype plan_event_source = Accumulation | Snapshot

record plan_event_dag =
  dag_events :: "plan_cost_event list"
  dag_source :: plan_event_source

definition busy_cycles :: "(cost_event_kind \<Rightarrow> bool) \<Rightarrow> plan_cost_event list \<Rightarrow> nat" where
  "busy_cycles counts events =
     fold (\<lambda>e busy. if counts (kind e) then wrap64 (busy + eventCycles e) else busy) events 0"

definition schedulePlanEvents :: "plan_event_dag \<Rightarrow> machine_model \<Rightarrow> cost" where
  "schedulePlanEvents dag m =
     (let events = dag_events dag;
          schedule = scheduleNormalizedEvents events m (map owner events);
          load = (\<lambda>busy units. case utilizationEstimate (double_of_nat busy) m units of Some u \<Rightarrow> u | None \<Rightarrow> Finite 0) in
      zero_cost\<lparr>latencyCycles := double_of_nat (predictedCycles schedule),
        localBytes := fold (\<lambda>e total_bytes. wrap64 (total_bytes + bytes e)) events 0,
        dramBytes := dramTrafficBytes events m,
        computeUtilization := load (busy_cycles (\<lambda>k. k = ComputeEvent) events) (workerThreads m),
        transferUtilization := load (busy_cycles (\<lambda>k. k = TransferHop) events) (transferEngineCount m)\<rparr>)"

section \<open>The strict check\<close>

datatype event_error =
    UnmodelledCompute nat string
  | ZeroConcurrency nat string
  | UnmodelledEngine nat string
  | ZeroEngineCount nat string
  | SelfDependency nat
  | DependencyOutOfRange nat nat
  | RepeatedDependency nat nat
  | DependencyCycle

definition check_resource :: "machine_model \<Rightarrow> nat \<Rightarrow> plan_cost_event \<Rightarrow> event_error option" where
  "check_resource m i e =
     (case kind e of
        TransferHop \<Rightarrow>
          (case findTransferEngine m (resource e) of
             None \<Rightarrow> Some (UnmodelledEngine i (resource e))
           | Some node \<Rightarrow> if te_count node = 0 then Some (ZeroEngineCount i (resource e)) else None)
      | Synchronization \<Rightarrow> None
      | CapacityEvent \<Rightarrow> None
      | _ \<Rightarrow>
          (case findCompute m (resource e) of
             None \<Rightarrow> Some (UnmodelledCompute i (resource e))
           | Some node \<Rightarrow> if comp_concurrency node = 0 then Some (ZeroConcurrency i (resource e)) else None))"

fun check_deps :: "nat \<Rightarrow> nat \<Rightarrow> nat list \<Rightarrow> nat list \<Rightarrow> event_error option" where
  "check_deps n i prior [] = None"
| "check_deps n i prior (d # ds) =
     (if d = i then Some (SelfDependency i)
      else if d \<ge> n then Some (DependencyOutOfRange i d)
      else if d \<in> set prior then Some (RepeatedDependency i d)
      else check_deps n i (prior @ [d]) ds)"

fun check_events :: "machine_model \<Rightarrow> nat \<Rightarrow> nat \<Rightarrow> plan_cost_event list \<Rightarrow> event_error option" where
  "check_events m n i [] = None"
| "check_events m n i (e # es) =
     (case check_resource m i e of
        Some err \<Rightarrow> Some err
      | None \<Rightarrow> (case check_deps n i [] (deps e) of Some err \<Rightarrow> Some err | None \<Rightarrow> check_events m n (Suc i) es))"

definition validateEventResources :: "plan_event_dag \<Rightarrow> machine_model \<Rightarrow> event_error option" where
  "validateEventResources dag m =
     (let events = dag_events dag; n = length events; preds = map deps events in
      case check_events m n 0 events of
        Some err \<Rightarrow> Some err
      | None \<Rightarrow>
          if length (visited (traverse pop_back preds n (start_traversal preds))) \<noteq> n then Some DependencyCycle
          else None)"

section \<open>The schedule follows the traversal\<close>

lemma trav_step [simp]: "trav (schedule_step events m owners s) = visit pop_min (event_preds events) (trav s)"
  by (simp add: schedule_step_def Let_def)

lemma trav_loop: "trav (schedule_loop events m owners k s) = traverse pop_min (event_preds events) k (trav s)"
  by (induction k arbitrary: s) auto

lemma event_preds_length [simp]: "length (event_preds events) = length events"
  by (simp add: event_preds_def)

lemma event_preds_ok: "preds_ok (event_preds events)"
  by (auto simp: preds_ok_def event_preds_def kept_deps_def)

lemma event_preds_nth: "i < length events \<Longrightarrow> event_preds events ! i = kept_deps (length events) i (deps (events ! i))"
  by (simp add: event_preds_def)

text \<open>An induction over the rounds of the loop: what one visit of a ready event preserves holds at the end.\<close>

lemma schedule_loop_induct:
  assumes "traversal_inv (event_preds events) (trav s)" "P s"
    and "\<And>s. traversal_inv (event_preds events) (trav s) \<Longrightarrow> ready (trav s) \<noteq> [] \<Longrightarrow> P s \<Longrightarrow> P (schedule_step events m owners s)"
  shows "P (schedule_loop events m owners k s)"
  using assms(1,2)
proof (induction k arbitrary: s)
  case (Suc k)
  show ?case
  proof (cases "ready (trav s) = []")
    case False
    have "traversal_inv (event_preds events) (trav (schedule_step events m owners s))"
      using min_heap.visit_inv [OF Suc.prems(1) False] by simp
    then show ?thesis using Suc.IH Suc.prems assms(3) False by simp
  qed (use Suc.prems in simp)
qed simp

lemma final_sched_induct:
  assumes "P (initial_sched events)"
    and "\<And>s. traversal_inv (event_preds events) (trav s) \<Longrightarrow> ready (trav s) \<noteq> [] \<Longrightarrow> P s \<Longrightarrow> P (schedule_step events m owners s)"
  shows "P (final_sched events m owners)"
  unfolding final_sched_def
  by (rule schedule_loop_induct [where P = P, OF _ assms]) (auto simp: initial_sched_def start_inv)

lemma final_traversal:
  "trav (final_sched events m owners) = traverse pop_min (event_preds events) (length events) (start_traversal (event_preds events))"
  by (simp add: final_sched_def trav_loop initial_sched_def)

text \<open>What one step does, with the event taken from the heap named.\<close>

definition next_event :: "sched_state \<Rightarrow> nat" where "next_event s = fst (pop_min (ready (trav s)))"

definition deps_finish :: "plan_cost_event list \<Rightarrow> sched_state \<Rightarrow> nat \<Rightarrow> nat" where
  "deps_finish events s i = fold (\<lambda>d t. max t (finish_at s ! d)) (kept_deps (length events) i (deps (events ! i))) 0"

definition pool_frees :: "plan_cost_event list \<Rightarrow> machine_model \<Rightarrow> string list \<Rightarrow> sched_state \<Rightarrow> nat \<Rightarrow> nat list" where
  "pool_frees events m owners s i =
     map (\<lambda>info. earliestFree (pool_for_key info (pools s))) (event_pools events m owners i)"

definition begin_of :: "plan_cost_event list \<Rightarrow> machine_model \<Rightarrow> string list \<Rightarrow> sched_state \<Rightarrow> nat \<Rightarrow> nat" where
  "begin_of events m owners s i = raise_begin (pool_frees events m owners s i) (deps_finish events s i)"

lemma step_fields:
  "start_at (schedule_step events m owners s) = (start_at s)[next_event s := begin_of events m owners s (next_event s)]"
  "finish_at (schedule_step events m owners s) =
     (finish_at s)[next_event s := wrap64 (begin_of events m owners s (next_event s) + eventCycles (events ! next_event s))]"
  "pools (schedule_step events m owners s) =
     fold (occupy (begin_of events m owners s (next_event s)) (eventCycles (events ! next_event s))) (event_pools events m owners (next_event s)) (pools s)"
  by (simp_all add: schedule_step_def Let_def settle_raise begin_of_def pool_frees_def deps_finish_def next_event_def)

lemma deps_finish_ge: "d \<in> set ds \<Longrightarrow> f d \<le> fold (\<lambda>d t. max t (f d)) ds (t::nat)"
proof (induction ds arbitrary: t)
  case (Cons x ds)
  have "\<And>t. t \<le> fold (\<lambda>d t. max t (f d)) ds t" by (induction ds) (auto intro: order_trans [OF max.cobounded1])
  from this [of "max t (f x)"] show ?case using Cons by auto
qed simp

lemma deps_finish_in: "fold (\<lambda>d t. max t (f d)) ds (t::nat) \<in> insert t (f ` set ds)"
proof (induction ds arbitrary: t)
  case (Cons x ds)
  then show ?case using Cons.IH [of "max t (f x)"] by (auto simp: max_def split: if_splits)
qed simp


section \<open>Timing\<close>

abbreviation cycles_at :: "plan_cost_event list \<Rightarrow> nat \<Rightarrow> nat" where
  "cycles_at events i \<equiv> eventCycles (events ! i)"

definition spent :: "plan_cost_event list \<Rightarrow> sched_state \<Rightarrow> nat" where
  "spent events s = sum_list (map (cycles_at events) (visited (trav s)))"

definition total_cycles :: "plan_cost_event list \<Rightarrow> nat" where
  "total_cycles events = sum_list (map eventCycles events)"

definition pools_by :: "nat \<Rightarrow> (string \<rightharpoonup> resource_pool) \<Rightarrow> bool" where
  "pools_by t ps \<longleftrightarrow> (\<forall>k p. ps k = Some p \<longrightarrow> p \<noteq> [] \<and> (\<forall>x \<in> set p. x \<le> t))"

definition timing_inv :: "plan_cost_event list \<Rightarrow> sched_state \<Rightarrow> bool" where
  "timing_inv events s \<longleftrightarrow>
     length (start_at s) = length events \<and> length (finish_at s) = length events \<and>
     (\<forall>i < length events. finish_at s ! i \<le> spent events s) \<and> pools_by (spent events s) (pools s) \<and>
     (\<forall>i \<in> set (visited (trav s)). finish_at s ! i = start_at s ! i + cycles_at events i \<and>
        (\<forall>d \<in> set (event_preds events ! i). finish_at s ! d \<le> start_at s ! i)) \<and>
     (\<forall>i < length events. i \<notin> set (visited (trav s)) \<longrightarrow> start_at s ! i = 0 \<and> finish_at s ! i = 0)"

lemma first_min_bound: "p \<noteq> [] \<Longrightarrow> first_min p < length p"
  by (induction p rule: first_min.induct) (auto simp: Let_def)

lemma first_min_least: "\<forall>t \<in> set p. p ! first_min p \<le> t"
proof (induction p rule: first_min.induct)
  case (3 u v ts)
  then have "\<forall>t \<in> set (v # ts). (v # ts) ! first_min (v # ts) \<le> t" by simp
  then show ?case by (fastforce simp: Let_def not_less)
qed auto

lemma new_pool_by [simp]: "new_resource_pool n \<noteq> []" "x \<in> set (new_resource_pool n) \<Longrightarrow> x = 0" "length (new_resource_pool n) = max 1 n"
  by (auto simp: new_resource_pool_def)

lemma pool_for_key_by: "pools_by t ps \<Longrightarrow> pool_for_key info ps \<noteq> [] \<and> (\<forall>x \<in> set (pool_for_key info ps). x \<le> t)"
  by (auto simp: pools_by_def pool_for_key_def split: option.splits dest: new_pool_by(2))

lemma earliestFree_in: "p \<noteq> [] \<Longrightarrow> earliestFree p \<in> set p"
  using first_min_bound by (simp add: earliestFree_def)

text \<open>The event taken next is new, in range, and everything it waits for ended within the cycles spent.\<close>

lemma next_event_facts:
  assumes "traversal_inv (event_preds events) (trav s)" "ready (trav s) \<noteq> []"
  shows "next_event s < length events" "next_event s \<notin> set (visited (trav s))"
    "visited (trav (schedule_step events m owners s)) = visited (trav s) @ [next_event s]"
    "spent events (schedule_step events m owners s) = spent events s + cycles_at events (next_event s)"
proof -
  have v: "visited (visit pop_min (event_preds events) (trav s)) = visited (trav s) @ [next_event s]"
    and "next_event s \<in> set (ready (trav s))"
    using min_heap.visit_inv [OF assms] by (auto simp: next_event_def)
  then show "next_event s < length events" "next_event s \<notin> set (visited (trav s))"
    using assms(1) by (auto simp: traversal_inv_def)
  show "visited (trav (schedule_step events m owners s)) = visited (trav s) @ [next_event s]"
    "spent events (schedule_step events m owners s) = spent events s + cycles_at events (next_event s)"
    using v by (simp_all add: spent_def)
qed

lemma spent_bound: "traversal_inv (event_preds events) (trav s) \<Longrightarrow> spent events s \<le> total_cycles events"
proof -
  assume inv: "traversal_inv (event_preds events) (trav s)"
  then have d: "distinct (visited (trav s))" "set (visited (trav s)) \<subseteq> {..<length events}"
    by (auto simp: traversal_inv_def)
  have "spent events s = sum (cycles_at events) (set (visited (trav s)))"
    using d(1) by (simp add: spent_def sum_list_distinct_conv_sum_set)
  also have "\<dots> \<le> sum (cycles_at events) {..<length events}" using d(2) by (intro sum_mono2) auto
  also have "\<dots> = sum_list (map (cycles_at events) [0..<length events])"
    by (simp add: sum_list_distinct_conv_sum_set lessThan_atLeast0)
  also have "map (cycles_at events) [0..<length events] = map eventCycles events" by (rule nth_equalityI) auto
  finally show ?thesis by (simp add: total_cycles_def)
qed

lemma begin_spent:
  assumes "timing_inv events s" "i < length events"
  shows "begin_of events m owners s i \<le> spent events s" "deps_finish events s i \<le> begin_of events m owners s i"
    "info \<in> set (event_pools events m owners i) \<Longrightarrow> earliestFree (pool_for_key info (pools s)) \<le> begin_of events m owners s i"
proof -
  have pby: "pools_by (spent events s) (pools s)" using assms(1) by (simp add: timing_inv_def)
  have "deps_finish events s i \<in> insert 0 ((\<lambda>d. finish_at s ! d) ` set (kept_deps (length events) i (deps (events ! i))))"
    unfolding deps_finish_def by (rule deps_finish_in)
  then have df: "deps_finish events s i \<le> spent events s"
    using assms(1) by (auto simp: timing_inv_def kept_deps_def)
  have "f \<le> spent events s" if "f \<in> set (pool_frees events m owners s i)" for f
    using that pool_for_key_by [OF pby] earliestFree_in by (auto simp: pool_frees_def)
  then show "begin_of events m owners s i \<le> spent events s"
    using raise_begin_in [of "pool_frees events m owners s i" "deps_finish events s i"] df unfolding begin_of_def by auto
  show "deps_finish events s i \<le> begin_of events m owners s i" unfolding begin_of_def by (rule raise_begin_ge)
  show "earliestFree (pool_for_key info (pools s)) \<le> begin_of events m owners s i" if "info \<in> set (event_pools events m owners i)"
    unfolding begin_of_def using that by (intro raise_begin_bound) (auto simp: pool_frees_def)
qed

lemma acquire_by:
  assumes "p \<noteq> []" "\<forall>x \<in> set p. x \<le> t" "beg + c \<le> t'" "t \<le> t'" "t' \<le> uint64_max"
  shows "acquire beg c p \<noteq> [] \<and> (\<forall>x \<in> set (acquire beg c p). x \<le> t')"
  using assms set_update_subset_insert [of p "first_min p" "wrap64 (beg + c)"] by (fastforce simp: acquire_def)

lemma pools_update_by:
  assumes "pools_by t ps" "beg + c \<le> t'" "t \<le> t'" "t' \<le> uint64_max"
  shows "pools_by t' (fold (occupy beg c) infos ps)"
proof -
  have "pools_by t' ps" using assms(1,3) by (fastforce simp: pools_by_def)
  then show ?thesis
  proof (induction infos arbitrary: ps)
    case (Cons info infos)
    have "acquire beg c (pool_for_key info ps) \<noteq> [] \<and> (\<forall>x \<in> set (acquire beg c (pool_for_key info ps)). x \<le> t')"
      using pool_for_key_by [OF Cons.prems, of info] assms by (intro acquire_by [of _ t']) auto
    then have "pools_by t' (occupy beg c info ps)" using Cons.prems by (auto simp: pools_by_def occupy_def)
    then show ?case using Cons.IH by simp
  qed simp
qed


lemma timing_step:
  assumes "traversal_inv (event_preds events) (trav s)" "ready (trav s) \<noteq> []" "timing_inv events s"
    "total_cycles events \<le> uint64_max"
  shows "timing_inv events (schedule_step events m owners s)"
proof -
  let ?i = "next_event s" and ?s' = "schedule_step events m owners s"
  let ?b = "begin_of events m owners s ?i"
  note ev = next_event_facts(1,2) [OF assms(1,2)] next_event_facts(3,4) [OF assms(1,2), where m = m and owners = owners]
  note beg = begin_spent [OF assms(3) ev(1), where m = m and owners = owners]
  have "spent events ?s' \<le> total_cycles events"
    using spent_bound [of events ?s'] min_heap.visit_inv [OF assms(1,2)] by simp
  then have fit: "?b + cycles_at events ?i \<le> spent events ?s'" "spent events ?s' \<le> uint64_max" "spent events s \<le> spent events ?s'"
    using beg(1) ev(4) assms(4) by auto
  then have fin: "finish_at ?s' = (finish_at s)[?i := ?b + cycles_at events ?i]" by (simp add: step_fields)
  have start: "start_at ?s' = (start_at s)[?i := ?b]" by (simp add: step_fields)
  have len: "length (start_at s) = length events" "length (finish_at s) = length events"
    using assms(3) by (simp_all add: timing_inv_def)
  have topo: "d \<in> set (visited (trav s))" if j: "j \<in> set (visited (trav s))" and d: "d \<in> set (event_preds events ! j)" for j d
  proof -
    obtain k where "k < length (visited (trav s))" "j = visited (trav s) ! k" using j by (auto simp: in_set_conv_nth)
    then have "d \<in> set (take k (visited (trav s)))" using assms(1) d by (auto simp: traversal_inv_def)
    then show ?thesis by (rule in_set_takeD)
  qed
  have self: "?i \<notin> set (event_preds events ! ?i)" using ev(1) by (simp add: event_preds_nth kept_deps_def)
  have deps: "finish_at s ! d \<le> ?b" if "d \<in> set (event_preds events ! ?i)" for d
    using that beg(2) deps_finish_ge [of d "event_preds events ! ?i" "\<lambda>d. finish_at s ! d" 0] ev(1)
    by (simp add: deps_finish_def event_preds_nth)
  have "finish_at ?s' ! j \<le> spent events ?s'" if "j < length events" for j
    using assms(3) that fit len by (cases "j = ?i") (auto simp: fin timing_inv_def intro: order_trans)
  moreover have "pools_by (spent events ?s') (pools ?s')"
    unfolding step_fields using assms(3) fit by (intro pools_update_by [of "spent events s"]) (simp_all add: timing_inv_def)
  moreover have "finish_at ?s' ! j = start_at ?s' ! j + cycles_at events j \<and>
      (\<forall>d \<in> set (event_preds events ! j). finish_at ?s' ! d \<le> start_at ?s' ! j)"
    if "j \<in> set (visited (trav ?s'))" for j
  proof (cases "j = ?i")
    case True
    have "finish_at ?s' ! d = finish_at s ! d" if "d \<in> set (event_preds events ! ?i)" for d
      using self that by (cases "d = ?i") (auto simp: fin)
    then show ?thesis using True deps len ev(1) by (simp add: fin start)
  next
    case False
    then have j: "j \<in> set (visited (trav s))" using that ev(3) by simp
    have "finish_at ?s' ! d = finish_at s ! d" if "d \<in> set (event_preds events ! j)" for d
      using topo [OF j that] ev(2) by (cases "d = ?i") (auto simp: fin)
    then show ?thesis using False j assms(3) by (simp add: fin start timing_inv_def)
  qed
  moreover have "start_at ?s' ! j = 0 \<and> finish_at ?s' ! j = 0" if "j < length events" "j \<notin> set (visited (trav ?s'))" for j
    using assms(3) that ev(3) by (cases "j = ?i") (auto simp: fin start timing_inv_def)
  ultimately show ?thesis using len unfolding timing_inv_def by (simp add: fin start)
qed

lemma final_timing: "total_cycles events \<le> uint64_max \<Longrightarrow> timing_inv events (final_sched events m owners)"
proof (rule final_sched_induct [where P = "timing_inv events"])
  show "timing_inv events (initial_sched events)"
    by (auto simp: initial_sched_def timing_inv_def pools_by_def start_traversal_def Let_def)
qed (rule timing_step)

lemma final_traversal_inv: "traversal_inv (event_preds events) (trav (final_sched events m owners))"
  using min_heap.traversal_done(1) [of "event_preds events"] by (simp add: final_traversal)


section \<open>Widths of the pools\<close>

definition pool_keys :: "plan_cost_event list \<Rightarrow> machine_model \<Rightarrow> string list \<Rightarrow> nat \<Rightarrow> string set" where
  "pool_keys events m owners i = key ` set (event_pools events m owners i)"

text \<open>The number of slots depends on the key only: the prefix tells the kind of pool.\<close>

lemma poolFor_key: "key (poolFor e m) = key (poolFor e' m) \<Longrightarrow> slots (poolFor e m) = slots (poolFor e' m)"
  by (cases "kind e"; cases "kind e'") (auto simp: poolFor_def split: option.splits if_splits)

lemma poolFor_not_owner: "take 6 (key (poolFor e m)) \<noteq> ''owner/''"
  by (cases "kind e") (auto simp: poolFor_def split: option.splits)

lemma event_pools_cases:
  assumes "info \<in> set (event_pools events m owners i)"
  obtains "info = poolFor (events ! i) m" | s where "info = \<lparr>key = ''owner/'' @ s, slots = ownerSlots m s\<rparr>"
  using assms by (auto simp: event_pools_def split: if_splits)

lemma event_pools_slots:
  assumes "info \<in> set (event_pools events m owners i)" "info' \<in> set (event_pools events m owners j)" "key info = key info'"
  shows "slots info = slots info'"
proof -
  note keys = poolFor_key [of "events ! i" m "events ! j"] poolFor_not_owner [of "events ! i" m]
    poolFor_not_owner [of "events ! j" m]
  show ?thesis
    by (rule event_pools_cases [OF assms(1)]; rule event_pools_cases [OF assms(2)])
      (use assms(3) keys in \<open>auto dest: sym\<close>)
qed

lemma event_pools_distinct: "distinct (map key (event_pools events m owners i))"
  using poolFor_not_owner [of "events ! i" m] by (auto simp: event_pools_def)

lemma poolFor_slots: "1 \<le> slots (poolFor e m)"
  by (cases "kind e") (auto simp: poolFor_def split: option.splits)

lemma event_pools_positive: "info \<in> set (event_pools events m owners i) \<Longrightarrow> 1 \<le> slots info"
  using poolFor_slots by (auto simp: event_pools_def ownerSlots_def split: if_splits option.splits)

lemma occupy_all:
  "distinct (map key infos) \<Longrightarrow>
     fold (occupy beg c) infos ps k =
       (case find (\<lambda>info. key info = k) infos of
          Some info \<Rightarrow> Some (acquire beg c (pool_for_key info ps)) | None \<Rightarrow> ps k)"
proof (induction infos arbitrary: ps)
  case (Cons info infos)
  have same: "pool_for_key other (occupy beg c info ps) = pool_for_key other ps" if "other \<in> set infos" for other
  proof -
    have "key other \<in> key ` set infos" using that by simp
    then have "key other \<noteq> key info" using Cons.prems by auto
    then show ?thesis by (simp add: pool_for_key_def occupy_def)
  qed
  have "fold (occupy beg c) infos (occupy beg c info ps) k =
      (case find (\<lambda>info. key info = k) infos of
          Some other \<Rightarrow> Some (acquire beg c (pool_for_key other (occupy beg c info ps))) | None \<Rightarrow> occupy beg c info ps k)"
    using Cons by simp
  then have run: "fold (occupy beg c) (info # infos) ps k =
      (case find (\<lambda>info. key info = k) infos of
          Some other \<Rightarrow> Some (acquire beg c (pool_for_key other (occupy beg c info ps))) | None \<Rightarrow> occupy beg c info ps k)"
    by simp
  show ?case
  proof (cases "key info = k")
    case True
    then have "find (\<lambda>info. key info = k) infos = None" using Cons.prems by (auto simp: find_None_iff image_iff)
    then show ?thesis unfolding run using True by (simp add: occupy_def)
  next
    case False
    show ?thesis
    proof (cases "find (\<lambda>info. key info = k) infos")
      case None
      then show ?thesis unfolding run using False by (simp add: occupy_def)
    next
      case (Some other)
      then have "other \<in> set infos" by (auto simp: find_Some_iff)
      then show ?thesis unfolding run using Some False same by simp
    qed
  qed
qed simp

text \<open>The assignment of the scheduled events to slots: two events in one slot do not overlap, and the
  slot is free from the last finish on.\<close>

definition slots_used :: "plan_cost_event list \<Rightarrow> machine_model \<Rightarrow> string list \<Rightarrow> sched_state \<Rightarrow> string \<Rightarrow> (nat \<Rightarrow> nat) \<Rightarrow> bool" where
  "slots_used events m owners s k slot \<longleftrightarrow>
     (case pools s k of
        None \<Rightarrow> \<forall>i \<in> set (visited (trav s)). k \<notin> pool_keys events m owners i
      | Some p \<Rightarrow>
          (\<forall>i info. info \<in> set (event_pools events m owners i) \<and> key info = k \<longrightarrow> length p = slots info) \<and>
          (\<forall>i \<in> set (visited (trav s)). k \<in> pool_keys events m owners i \<longrightarrow>
             slot i < length p \<and> finish_at s ! i \<le> p ! slot i) \<and>
          (\<forall>i \<in> set (visited (trav s)). \<forall>j \<in> set (visited (trav s)).
             k \<in> pool_keys events m owners i \<and> k \<in> pool_keys events m owners j \<and> i \<noteq> j \<and> slot i = slot j \<longrightarrow>
               finish_at s ! i \<le> start_at s ! j \<or> finish_at s ! j \<le> start_at s ! i))"

definition width_inv :: "plan_cost_event list \<Rightarrow> machine_model \<Rightarrow> string list \<Rightarrow> sched_state \<Rightarrow> bool" where
  "width_inv events m owners s \<longleftrightarrow> timing_inv events s \<and> (\<forall>k. \<exists>slot. slots_used events m owners s k slot)"

lemma slots_step_other:
  assumes "slots_used events m owners s k slot" "k \<notin> pool_keys events m owners x" "x \<notin> set (visited (trav s))"
    "visited (trav s') = visited (trav s) @ [x]" "pools s' k = pools s k"
    "finish_at s' = (finish_at s)[x := f]" "start_at s' = (start_at s)[x := b]"
  shows "slots_used events m owners s' k slot"
proof -
  have "finish_at s' ! i = finish_at s ! i \<and> start_at s' ! i = start_at s ! i" if "i \<in> set (visited (trav s))" for i
    using that assms(3,6,7) by (cases "i = x") auto
  then show ?thesis using assms(1,2,4,5) by (auto simp: slots_used_def split: option.splits)
qed

lemma slots_step_own:
  assumes used: "slots_used events m owners s k slot"
    and info: "info \<in> set (event_pools events m owners x)" "key info = k"
    and x: "x \<notin> set (visited (trav s))" "visited (trav s') = visited (trav s) @ [x]" "x < length (start_at s)" "x < length (finish_at s)"
    and pool: "pools s' k = Some ((pool_for_key info (pools s))[first_min (pool_for_key info (pools s)) := f])"
    and times: "finish_at s' = (finish_at s)[x := f]" "start_at s' = (start_at s)[x := b]"
      "earliestFree (pool_for_key info (pools s)) \<le> b" "b \<le> f"
    and some_slot: "pool_for_key info (pools s) \<noteq> []"
  shows "slots_used events m owners s' k (slot(x := first_min (pool_for_key info (pools s))))"
proof -
  let ?p = "pool_for_key info (pools s)"
  let ?j = "first_min ?p"
  have j: "?j < length ?p" using first_min_bound [OF some_slot] .
  have len: "length ?p = slots info" if "key info' = k" "info' \<in> set (event_pools events m owners i)" for i info'
    using used info event_pools_positive [OF info(1)] that
    by (auto simp: slots_used_def pool_for_key_def split: option.splits)
  have old: "slot i < length ?p \<and> finish_at s ! i \<le> ?p ! slot i"
    if "i \<in> set (visited (trav s))" "k \<in> pool_keys events m owners i" for i
    using used that info(2) by (auto simp: slots_used_def pool_for_key_def split: option.splits)
  have apart: "finish_at s ! i \<le> start_at s ! l \<or> finish_at s ! l \<le> start_at s ! i"
    if "i \<in> set (visited (trav s))" "l \<in> set (visited (trav s))" "k \<in> pool_keys events m owners i"
      "k \<in> pool_keys events m owners l" "i \<noteq> l" "slot i = slot l" for i l
    using used that info(2) by (auto simp: slots_used_def split: option.splits)
  have keep: "finish_at s' ! i = finish_at s ! i" "start_at s' ! i = start_at s ! i" if "i \<in> set (visited (trav s))" for i
    using that x(1) times(1,2) by (cases "i = x"; auto)+
  have new: "finish_at s' ! x = f" "start_at s' ! x = b" using x(3,4) times(1,2) by auto
  have before: "finish_at s ! i \<le> b" if "i \<in> set (visited (trav s))" "k \<in> pool_keys events m owners i" "slot i = ?j" for i
    using old [OF that(1,2)] that(3) times(3) by (simp add: earliestFree_def)
  have "\<forall>i info'. info' \<in> set (event_pools events m owners i) \<and> key info' = k \<longrightarrow> length (?p[?j := f]) = slots info'"
    using len event_pools_slots [OF info(1)] info(2) by fastforce
  moreover have "\<forall>i \<in> set (visited (trav s')). k \<in> pool_keys events m owners i \<longrightarrow>
      (slot(x := ?j)) i < length (?p[?j := f]) \<and> finish_at s' ! i \<le> (?p[?j := f]) ! (slot(x := ?j)) i"
  proof (intro ballI impI)
    fix i assume i: "i \<in> set (visited (trav s'))" "k \<in> pool_keys events m owners i"
    show "(slot(x := ?j)) i < length (?p[?j := f]) \<and> finish_at s' ! i \<le> (?p[?j := f]) ! (slot(x := ?j)) i"
    proof (cases "i = x")
      case True
      then show ?thesis using j new by simp
    next
      case False
      then have iv: "i \<in> set (visited (trav s))" using i(1) x(2) by simp
      show ?thesis
        using old [OF iv i(2)] before [OF iv i(2)] keep [OF iv] times(4) False
        by (cases "slot i = ?j") auto
    qed
  qed
  moreover have "\<forall>i \<in> set (visited (trav s')). \<forall>l \<in> set (visited (trav s')).
      k \<in> pool_keys events m owners i \<and> k \<in> pool_keys events m owners l \<and> i \<noteq> l \<and> (slot(x := ?j)) i = (slot(x := ?j)) l \<longrightarrow>
        finish_at s' ! i \<le> start_at s' ! l \<or> finish_at s' ! l \<le> start_at s' ! i"
  proof (intro ballI impI)
    fix i l assume il: "i \<in> set (visited (trav s'))" "l \<in> set (visited (trav s'))"
      "k \<in> pool_keys events m owners i \<and> k \<in> pool_keys events m owners l \<and> i \<noteq> l \<and> (slot(x := ?j)) i = (slot(x := ?j)) l"
    consider "i = x" "l \<noteq> x" "l \<in> set (visited (trav s))" | "l = x" "i \<noteq> x" "i \<in> set (visited (trav s))"
      | "i \<noteq> x" "l \<noteq> x" "i \<in> set (visited (trav s))" "l \<in> set (visited (trav s))"
      using il x(2) by auto
    then show "finish_at s' ! i \<le> start_at s' ! l \<or> finish_at s' ! l \<le> start_at s' ! i"
    proof cases
      case 1
      then show ?thesis using before [of l] il(3) keep [OF 1(3)] new by auto
    next
      case 2
      then show ?thesis using before [of i] il(3) keep [OF 2(3)] new by auto
    next
      case 3
      then show ?thesis using apart [of i l] il(3) keep [OF 3(3)] keep [OF 3(4)] by simp
    qed
  qed
  ultimately show ?thesis unfolding slots_used_def pool by simp
qed


lemma width_step:
  assumes "traversal_inv (event_preds events) (trav s)" "ready (trav s) \<noteq> []" "width_inv events m owners s"
    "total_cycles events \<le> uint64_max"
  shows "width_inv events m owners (schedule_step events m owners s)"
proof -
  let ?x = "next_event s" and ?s' = "schedule_step events m owners s"
  let ?b = "begin_of events m owners s ?x"
  have timing: "timing_inv events s" and used: "\<And>k. \<exists>slot. slots_used events m owners s k slot"
    using assms(3) by (simp_all add: width_inv_def)
  have timing': "timing_inv events ?s'" by (rule timing_step [OF assms(1,2) timing assms(4)])
  note ev = next_event_facts(1,2) [OF assms(1,2)] next_event_facts(3,4) [OF assms(1,2), where m = m and owners = owners]
  note beg = begin_spent [OF timing ev(1), where m = m and owners = owners]
  have len: "?x < length (start_at s)" "?x < length (finish_at s)" using timing ev(1) by (simp_all add: timing_inv_def)
  have "spent events ?s' \<le> total_cycles events"
    using spent_bound [of events ?s'] min_heap.visit_inv [OF assms(1,2)] by simp
  then have nowrap: "wrap64 (?b + cycles_at events ?x) = ?b + cycles_at events ?x" using beg(1) ev(4) assms(4) by simp
  have times: "finish_at ?s' = (finish_at s)[?x := ?b + cycles_at events ?x]" "start_at ?s' = (start_at s)[?x := ?b]"
    by (simp_all add: step_fields nowrap)
  have "\<exists>slot. slots_used events m owners ?s' k slot" for k
  proof -
    obtain slot where slot: "slots_used events m owners s k slot" using used by blast
    have pool: "pools ?s' k = (case find (\<lambda>info. key info = k) (event_pools events m owners ?x) of
        Some info \<Rightarrow> Some (acquire ?b (cycles_at events ?x) (pool_for_key info (pools s))) | None \<Rightarrow> pools s k)"
      unfolding step_fields by (rule occupy_all [OF event_pools_distinct])
    show ?thesis
    proof (cases "find (\<lambda>info. key info = k) (event_pools events m owners ?x)")
      case None
      then have "k \<notin> pool_keys events m owners ?x" by (auto simp: pool_keys_def find_None_iff)
      then show ?thesis
        using slots_step_other [OF slot _ ev(2,3) _ times] pool None by auto
    next
      case (Some info)
      then have info: "info \<in> set (event_pools events m owners ?x)" "key info = k" by (auto simp: find_Some_iff)
      have "pool_for_key info (pools s) \<noteq> []" using pool_for_key_by timing by (auto simp: timing_inv_def)
      moreover have "pools ?s' k = Some ((pool_for_key info (pools s))
          [first_min (pool_for_key info (pools s)) := ?b + cycles_at events ?x])"
        using pool Some nowrap by (simp add: acquire_def)
      ultimately show ?thesis
        using slots_step_own [OF slot info ev(2,3) len _ times beg(3) [OF info(1)]] by auto
    qed
  qed
  then show ?thesis using timing' by (simp add: width_inv_def)
qed

lemma final_width: "total_cycles events \<le> uint64_max \<Longrightarrow> width_inv events m owners (final_sched events m owners)"
proof (rule final_sched_induct [where P = "width_inv events m owners"])
  have "timing_inv events (initial_sched events)"
    by (auto simp: initial_sched_def timing_inv_def pools_by_def start_traversal_def Let_def)
  then show "width_inv events m owners (initial_sched events)"
    by (auto simp: width_inv_def slots_used_def initial_sched_def start_traversal_def Let_def)
qed (rule width_step)

text \<open>At any time a pool holds no more events than it has slots.\<close>

definition active_in :: "plan_cost_event list \<Rightarrow> machine_model \<Rightarrow> string list \<Rightarrow> event_schedule \<Rightarrow> string \<Rightarrow> nat \<Rightarrow> nat set" where
  "active_in events m owners sch k t =
     {i. i < length events \<and> k \<in> pool_keys events m owners i \<and>
         sched_start (entries sch ! i) \<le> t \<and> t < sched_finish (entries sch ! i)}"

lemma schedule_entry:
  "i < length events \<Longrightarrow> entries (scheduleNormalizedEvents events m owners) ! i =
     \<lparr>sched_id = i, sched_start = start_at (final_sched events m owners) ! i, sched_finish = finish_at (final_sched events m owners) ! i\<rparr>"
  by (simp add: scheduleNormalizedEvents_def Let_def split: prod.split)

lemma active_bound:
  assumes "total_cycles events \<le> uint64_max" "info \<in> set (event_pools events m owners j)"
  shows "card (active_in events m owners (scheduleNormalizedEvents events m owners) (key info) t) \<le> slots info"
proof -
  let ?s = "final_sched events m owners" and ?k = "key info"
  let ?act = "active_in events m owners (scheduleNormalizedEvents events m owners) ?k t"
  have inv: "timing_inv events ?s" "\<exists>slot. slots_used events m owners ?s ?k slot"
    using final_width [OF assms(1)] by (simp_all add: width_inv_def)
  then obtain slot where slot: "slots_used events m owners ?s ?k slot" by blast
  have act: "i \<in> set (visited (trav ?s))" "?k \<in> pool_keys events m owners i" "start_at ?s ! i \<le> t" "t < finish_at ?s ! i"
    if "i \<in> ?act" for i
    using that inv(1) by (auto simp: active_in_def schedule_entry timing_inv_def)
  show ?thesis
  proof (cases "pools ?s ?k")
    case None
    then have "?act = {}" using slot act by (auto simp: slots_used_def)
    then show ?thesis by simp
  next
    case (Some p)
    have "length p = slots info" using slot Some assms(2) by (auto simp: slots_used_def)
    moreover have "slot ` ?act \<subseteq> {..<length p}" using slot Some act by (auto simp: slots_used_def)
    moreover have "inj_on slot ?act"
    proof (rule inj_onI, rule ccontr)
      fix i l assume il: "i \<in> ?act" "l \<in> ?act" "slot i = slot l" "i \<noteq> l"
      then have "finish_at ?s ! i \<le> start_at ?s ! l \<or> finish_at ?s ! l \<le> start_at ?s ! i"
        using slot Some act(1,2) [OF il(1)] act(1,2) [OF il(2)] by (auto simp: slots_used_def)
      then show False using act(3,4) [OF il(1)] act(3,4) [OF il(2)] by simp
    qed
    ultimately show ?thesis by (metis card_inj_on_le card_lessThan finite_lessThan)
  qed
qed

section \<open>The prediction\<close>

lemma critical_event_from:
  fixes fs :: "nat list"
  shows "fold (\<lambda>i (predicted, crit). if fs ! i > predicted then (fs ! i, i) else (predicted, crit)) is (p0, c0) = (p, c) \<Longrightarrow>
     p0 \<le> p \<and> (\<forall>i \<in> set is. fs ! i \<le> p) \<and> ((p = p0 \<and> c = c0) \<or> (c \<in> set is \<and> fs ! c = p \<and> p0 < p))"
proof (induction "is" arbitrary: p0 c0)
  case (Cons i "is")
  show ?case
  proof (cases "fs ! i > p0")
    case True
    then have "fold (\<lambda>i (predicted, crit). if fs ! i > predicted then (fs ! i, i) else (predicted, crit)) is (fs ! i, i) = (p, c)"
      using Cons.prems by simp
    from Cons.IH [OF this] True show ?thesis by auto
  next
    case False
    then have "fold (\<lambda>i (predicted, crit). if fs ! i > predicted then (fs ! i, i) else (predicted, crit)) is (p0, c0) = (p, c)"
      using Cons.prems by simp
    from Cons.IH [OF this] False show ?thesis by auto
  qed
qed simp

lemma critical_event_spec:
  assumes "critical_event fs = (p, c)"
  shows "\<forall>i < length fs. fs ! i \<le> p" "p = 0 \<or> (c < length fs \<and> fs ! c = p)"
  using critical_event_from [OF assms [unfolded critical_event_def]] by auto

lemma sequential_total: "total_cycles events \<le> uint64_max \<Longrightarrow> sequential_cycles events = total_cycles events"
proof -
  have "t + sum_list (map eventCycles es) \<le> uint64_max \<Longrightarrow>
      fold (\<lambda>e total. wrap64 (total + eventCycles e)) es t = t + sum_list (map eventCycles es)" for t es
    by (induction es arbitrary: t) (auto simp: add.assoc)
  from this [of 0 events] show "total_cycles events \<le> uint64_max \<Longrightarrow> ?thesis"
    by (simp add: sequential_cycles_def total_cycles_def)
qed

section \<open>What the strict check decides\<close>

lemma check_deps_None:
  "check_deps n i prior ds = None \<longleftrightarrow> (\<forall>d \<in> set ds. d \<noteq> i \<and> d < n \<and> d \<notin> set prior) \<and> distinct ds"
  by (induction ds arbitrary: prior) auto

definition resource_known :: "machine_model \<Rightarrow> plan_cost_event \<Rightarrow> bool" where
  "resource_known m e \<longleftrightarrow>
     (case kind e of
        TransferHop \<Rightarrow> \<exists>node. findTransferEngine m (resource e) = Some node \<and> 0 < te_count node
      | Synchronization \<Rightarrow> True
      | CapacityEvent \<Rightarrow> True
      | _ \<Rightarrow> \<exists>node. findCompute m (resource e) = Some node \<and> 0 < comp_concurrency node)"

lemma check_resource_None: "check_resource m i e = None \<longleftrightarrow> resource_known m e"
  by (auto simp: check_resource_def resource_known_def split: cost_event_kind.splits option.splits)

lemma check_events_None:
  "check_events m n i es = None \<longleftrightarrow>
     (\<forall>j < length es. resource_known m (es ! j) \<and> check_deps n (i + j) [] (deps (es ! j)) = None)"
proof (induction es arbitrary: i)
  case (Cons e es)
  have "check_events m n i (e # es) = None \<longleftrightarrow>
      resource_known m e \<and> check_deps n i [] (deps e) = None \<and> check_events m n (Suc i) es = None"
    by (auto simp: check_resource_None [of m i e, symmetric] split: option.splits)
  then show ?case using Cons.IH [of "Suc i"] by (auto simp: All_less_Suc2)
qed simp

definition strict_events :: "machine_model \<Rightarrow> plan_cost_event list \<Rightarrow> bool" where
  "strict_events m events \<longleftrightarrow>
     (\<forall>i < length events. resource_known m (events ! i) \<and> distinct (deps (events ! i)) \<and>
        (\<forall>d \<in> set (deps (events ! i)). d \<noteq> i \<and> d < length events))"

lemma check_events_strict: "check_events m (length events) 0 events = None \<longleftrightarrow> strict_events m events"
  by (auto simp: check_events_None check_deps_None strict_events_def)

lemma strict_preds:
  assumes "strict_events m events"
  shows "map deps events = event_preds events"
proof (rule nth_equalityI)
  fix i assume "i < length (map deps events)"
  then have i: "i < length events" by simp
  have "\<forall>d \<in> set (deps (events ! i)). \<not> (d = i \<or> length events \<le> d)"
    using assms i by (simp add: strict_events_def not_le)
  then show "map deps events ! i = event_preds events ! i"
    using i by (simp add: event_preds_nth kept_deps_def)
qed simp

lemma full_traversal:
  assumes "worklist pop" "preds_ok preds"
  shows "length (visited (traverse pop preds (length preds) (start_traversal preds))) = length preds \<longleftrightarrow>
    set (visited (traverse pop preds (length preds) (start_traversal preds))) = {..<length preds}"
proof -
  let ?v = "visited (traverse pop preds (length preds) (start_traversal preds))"
  have "distinct ?v" "set ?v \<subseteq> {..<length preds}"
    using worklist.traversal_done(1) [OF assms(1), of preds] by (auto simp: traversal_inv_def)
  then show ?thesis
    by (metis card_lessThan card_subset_eq distinct_card finite_lessThan)
qed

lemma validate_None:
  "validateEventResources dag m = None \<longleftrightarrow>
     strict_events m (dag_events dag) \<and> acyclic (dependency_edges (event_preds (dag_events dag)))"
proof -
  let ?es = "dag_events dag"
  show ?thesis
  proof (cases "strict_events m ?es")
    case True
    have "worklist pop_back" by (rule stack.worklist_axioms)
    then have "length (visited (traverse pop_back (event_preds ?es) (length ?es) (start_traversal (event_preds ?es)))) = length ?es
        \<longleftrightarrow> acyclic (dependency_edges (event_preds ?es))"
      using full_traversal [of pop_back "event_preds ?es"] stack.traversal_complete_iff [of "event_preds ?es"] event_preds_ok [of ?es]
      by simp
    then show ?thesis
      using True strict_preds [OF True] check_events_strict [of m ?es] by (simp add: validateEventResources_def Let_def)
  next
    case False
    then have "check_events m (length ?es) 0 ?es \<noteq> None" using check_events_strict by blast
    then show ?thesis using False by (auto simp: validateEventResources_def Let_def)
  qed
qed


section \<open>The schedule of an event stream\<close>

text \<open>The cycles of every event convert to 64 bits and their sum stays within them.\<close>

definition cycles_fit :: "plan_cost_event list \<Rightarrow> bool" where
  "cycles_fit events \<longleftrightarrow> (\<forall>e \<in> set events. cycles_defined e) \<and> total_cycles events \<le> uint64_max"

abbreviation start_of :: "event_schedule \<Rightarrow> nat \<Rightarrow> nat" where "start_of sch i \<equiv> sched_start (entries sch ! i)"
abbreviation finish_of :: "event_schedule \<Rightarrow> nat \<Rightarrow> nat" where "finish_of sch i \<equiv> sched_finish (entries sch ! i)"

text \<open>Two events for the witnesses: a hop, then work on what it brought.\<close>

definition sample_event :: "cost_event_kind \<Rightarrow> string \<Rightarrow> nat \<Rightarrow> nat list \<Rightarrow> plan_cost_event" where
  "sample_event k res c ds =
     \<lparr>kind = k, resource = res, event_cost = zero_cost\<lparr>latencyCycles := Finite (of_nat c)\<rparr>, workItems = 0, bytes = 64,
      sourceBytes = 0, destinationBytes = 0, fillElements = 0, deps = ds, owner = [], srcMemory = [],
      dstMemory = [], sourceNode = [], event_occurrence = 0, planStep = None, connectionId = None, hopIndex = 0,
      storageUses = []\<rparr>"

definition sample_events :: "plan_cost_event list" where
  "sample_events = [sample_event TransferHop ''dma.0'' 10 [], sample_event ComputeEvent ''vpu.0'' 4 [0]]"

lemma sample_fit: "cycles_fit sample_events"
  by (simp add: cycles_fit_def sample_events_def sample_event_def cycles_defined_def total_cycles_def eventCycles_def uint64_max_def)

lemma sample_strict: "strict_events sample_machine sample_events"
proof -
  have "resource_known sample_machine (sample_event TransferHop ''dma.0'' 10 [])"
      "resource_known sample_machine (sample_event ComputeEvent ''vpu.0'' 4 [0])"
    by (simp_all add: sample_event_def resource_known_def findTransferEngine_def findCompute_def findById_def sample_machine_def)
  moreover have "deps (sample_event k r c ds) = ds" for k r c ds by (simp add: sample_event_def)
  ultimately show ?thesis by (simp add: strict_events_def sample_events_def All_less_Suc2)
qed

lemma sample_acyclic: "acyclic (dependency_edges (event_preds sample_events))"
proof (rule acyclic_subset)
  show "dependency_edges (event_preds sample_events) \<subseteq> less_than"
    by (auto simp: dependency_edges_def event_preds_def kept_deps_def sample_events_def sample_event_def less_Suc_eq)
qed (rule wf_acyclic [OF wf_less_than])

lemma sample_valid: "validateEventResources \<lparr>dag_events = sample_events, dag_source = Accumulation\<rparr> sample_machine = None"
  using sample_strict sample_acyclic by (simp add: validate_None)

text \<open>C14: a stream the strict check accepts is scheduled completely and in dependency order. Every event
  occupies exactly its cycles, and none starts before everything it depends on has finished.\<close>

theorem schedule_respects_dependencies:
  assumes "validateEventResources dag m = None" "cycles_fit (dag_events dag)" "i < length (dag_events dag)"
  shows "let sch = scheduleNormalizedEvents (dag_events dag) m owners; e = dag_events dag ! i in
    finish_of sch i = start_of sch i + eventCycles e \<and> (\<forall>d \<in> set (deps e). finish_of sch d \<le> start_of sch i)"
proof -
  let ?es = "dag_events dag"
  let ?s = "final_sched ?es m owners"
  have strict: "strict_events m ?es" "acyclic (dependency_edges (event_preds ?es))"
    using assms(1) by (simp_all add: validate_None)
  have "set (visited (trav ?s)) = {..<length ?es}"
    using min_heap.traversal_complete_iff [of "event_preds ?es"] event_preds_ok [of ?es] strict(2)
    by (simp add: final_traversal)
  moreover have "timing_inv ?es ?s" using assms(2) by (simp add: cycles_fit_def final_timing)
  ultimately have "finish_at ?s ! i = start_at ?s ! i + cycles_at ?es i"
      "\<forall>d \<in> set (event_preds ?es ! i). finish_at ?s ! d \<le> start_at ?s ! i"
    using assms(3) by (auto simp: timing_inv_def)
  moreover have "event_preds ?es ! i = deps (?es ! i)" using strict_preds [OF strict(1)] assms(3) by (metis nth_map)
  moreover have "\<forall>d \<in> set (deps (?es ! i)). d < length ?es" using strict(1) assms(3) by (auto simp: strict_events_def)
  ultimately show ?thesis using assms(3) by (simp add: Let_def schedule_entry)
qed

lemma schedule_respects_dependencies_witness:
  "finish_of (scheduleNormalizedEvents sample_events sample_machine []) 0 \<le> start_of (scheduleNormalizedEvents sample_events sample_machine []) 1"
  using schedule_respects_dependencies [OF sample_valid, of 1 "[]"] sample_fit
  by (simp add: Let_def) (simp add: sample_events_def sample_event_def)

text \<open>C20: no pool is ever oversubscribed, on any machine and for any dependencies. At every moment, the
  number of events in flight on a resource, or under an owner, is at most the slots of its pool: the count of
  the transfer engine, the concurrency of the compute node or the width of the owner, and at least one.\<close>

theorem schedule_respects_slots:
  assumes "cycles_fit events" "info \<in> set (event_pools events m owners j)"
  shows "card {i. i < length events \<and> key info \<in> key ` set (event_pools events m owners i) \<and>
      start_of (scheduleNormalizedEvents events m owners) i \<le> t \<and> t < finish_of (scheduleNormalizedEvents events m owners) i}
    \<le> slots info"
  using active_bound [OF _ assms(2)] assms(1) by (simp add: cycles_fit_def active_in_def pool_keys_def)

lemma schedule_respects_slots_witness:
  "card {i. i < 2 \<and> ''dma/dma.0'' \<in> key ` set (event_pools sample_events sample_machine [] i) \<and>
      start_of (scheduleNormalizedEvents sample_events sample_machine []) i \<le> 3 \<and>
      3 < finish_of (scheduleNormalizedEvents sample_events sample_machine []) i} \<le> 1"
proof -
  have "poolFor (sample_events ! 0) sample_machine \<in> set (event_pools sample_events sample_machine [] 0)"
    by (simp add: event_pools_def)
  note schedule_respects_slots [OF sample_fit this, of 3]
  moreover have "poolFor (sample_events ! 0) sample_machine = \<lparr>key = ''dma/dma.0'', slots = 1\<rparr>"
    by (simp add: poolFor_def sample_events_def sample_event_def findTransferEngine_def findById_def sample_machine_def)
  moreover have "length sample_events = 2" by (simp add: sample_events_def)
  ultimately show ?thesis by simp
qed

text \<open>C30: the prediction is the last finish, which the critical event attains, and overlap never makes it
  larger than the sum of all cycles. This holds on every stream, with cyclic or dropped dependencies too.\<close>

theorem prediction_bounds:
  assumes "cycles_fit events"
  shows "let sch = scheduleNormalizedEvents events m owners in
    predictedCycles sch \<le> sequentialCycles sch \<and> sequentialCycles sch = (\<Sum>e\<leftarrow>events. eventCycles e) \<and>
    (\<forall>i < length events. finish_of sch i \<le> predictedCycles sch) \<and>
    (predictedCycles sch = 0 \<or> (criticalId sch < length events \<and> finish_of sch (criticalId sch) = predictedCycles sch))"
proof -
  let ?s = "final_sched events m owners"
  obtain p c where pc: "critical_event (finish_at ?s) = (p, c)" by fastforce
  have fit: "total_cycles events \<le> uint64_max" using assms by (simp add: cycles_fit_def)
  have inv: "timing_inv events ?s" by (rule final_timing [OF fit])
  then have len: "length (finish_at ?s) = length events" by (simp add: timing_inv_def)
  have spec: "\<forall>i < length events. finish_at ?s ! i \<le> p" "p = 0 \<or> (c < length events \<and> finish_at ?s ! c = p)"
    using critical_event_spec [OF pc] len by auto
  have "spent events ?s \<le> total_cycles events" by (rule spent_bound [OF final_traversal_inv])
  moreover have "p = 0 \<or> p \<le> spent events ?s" using spec(2) inv by (auto simp: timing_inv_def)
  ultimately have "p \<le> total_cycles events" by auto
  moreover have "predictedCycles (scheduleNormalizedEvents events m owners) = p"
      "sequentialCycles (scheduleNormalizedEvents events m owners) = total_cycles events"
      "p \<noteq> 0 \<Longrightarrow> criticalId (scheduleNormalizedEvents events m owners) = c"
    using pc sequential_total [OF fit] by (simp_all add: scheduleNormalizedEvents_def Let_def)
  ultimately show ?thesis using spec schedule_entry [of _ events m owners] by (auto simp: Let_def total_cycles_def)
qed

lemma prediction_bounds_witness:
  "predictedCycles (scheduleNormalizedEvents sample_events sample_machine []) \<le> 14"
  using prediction_bounds [OF sample_fit, of sample_machine "[]"]
  by (simp add: Let_def) (simp add: sample_events_def sample_event_def eventCycles_def)

text \<open>C35: the strict check is exact. It accepts a stream exactly when every compute and transform event names
  a compute node with a positive concurrency, every hop a transfer engine with a positive count, the dependencies
  of every event are distinct other events of the stream, and no event depends on itself through others.\<close>

theorem strict_check_exact:
  "validateEventResources dag m = None \<longleftrightarrow>
     (\<forall>i < length (dag_events dag). resource_known m (dag_events dag ! i) \<and> distinct (deps (dag_events dag ! i)) \<and>
        (\<forall>d \<in> set (deps (dag_events dag ! i)). d \<noteq> i \<and> d < length (dag_events dag))) \<and>
     acyclic {(d, i). i < length (dag_events dag) \<and> d \<in> set (deps (dag_events dag ! i))}"
proof -
  let ?es = "dag_events dag"
  have "dependency_edges (event_preds ?es) = {(d, i). i < length ?es \<and> d \<in> set (deps (?es ! i))}" if "strict_events m ?es"
  proof -
    have "event_preds ?es ! i = deps (?es ! i)" if "i < length ?es" for i
      using strict_preds [OF \<open>strict_events m ?es\<close>] that by (metis nth_map)
    then show ?thesis by (auto simp: dependency_edges_def)
  qed
  then show ?thesis unfolding validate_None strict_events_def [symmetric] by (metis (no_types, lifting))
qed


lemma strict_check_exact_witness:
  "validateEventResources \<lparr>dag_events = sample_events, dag_source = Accumulation\<rparr> sample_machine = None \<and>
   resource_known sample_machine (sample_events ! 0)"
proof -
  have "0 < length sample_events" by (simp add: sample_events_def)
  then show ?thesis
    using strict_check_exact [of "\<lparr>dag_events = sample_events, dag_source = Accumulation\<rparr>" sample_machine] sample_valid
    by (metis plan_event_dag.select_convs(1))
qed

end
