(* ===== verification/StorageLiveness.thy ===== *)
theory StorageLiveness
  imports EventSchedule "HOL-Library.Product_Lexorder"
begin

text \<open>
  Live storage of a scheduled plan: \<^verbatim>\<open>lib/Mapping/StorageLiveness.cpp\<close> with the allocations of
  \<^verbatim>\<open>include/LLK/Mapping/MappingPlan.h\<close>. Every allocation gets a window of time from the scheduled events that
  touch it, allocations that reuse storage share the window of their root, and the peak of each memory is taken
  over the starts of the windows. The lemmas show what the windows cover, that the peak is the maximum over all
  times, and which ordering edges the reuse of storage needs.
\<close>

section \<open>Data\<close>

record storage_allocation =
  alloc_id :: nat
  alloc_value :: nat
  memory :: string
  alloc_bytes :: nat
  aliasOf :: "nat option"
  beginStep :: nat
  endStep :: nat
  borrowed :: bool
  simultaneousOccurrences :: nat

record plan_step_edge =
  pse_from :: nat
  pse_to :: nat

record live_window =
  lw_start :: nat
  lw_end :: nat
  residency :: nat
  readStart :: nat
  writeStart :: nat
  written :: bool
  touched :: bool

definition new_window :: live_window where
  "new_window = \<lparr>lw_start = 0, lw_end = 0, residency = 0, readStart = 0, writeStart = 0, written = False, touched = False\<rparr>"

record storage_liveness_result =
  peakBytes :: "(string, nat) smap"
  requiredReuseEdges :: "plan_step_edge list"

datatype liveness_error =
    ScheduleSize nat nat
  | DuplicateAllocation nat
  | ScheduleNames nat nat
  | UnknownAllocation nat nat
  | UntouchedAllocation nat string
  | CyclicAlias nat
  | UnknownAlias nat nat
  | FootprintOverflow nat
  | LiveOverflow string

section \<open>Reuse edges\<close>

text \<open>\<^verbatim>\<open>indexById[id] = index\<close> in a loop: the last index wins.\<close>

definition index_by_id :: "storage_allocation list \<Rightarrow> nat \<Rightarrow> nat option" where
  "index_by_id allocs i = map_of (rev (zip (map alloc_id allocs) [0 ..< length allocs])) i"

text \<open>\<^verbatim>\<open>rootOf\<close> follows the aliases until there is none, it is unknown, or an index comes back. Indices come from
  the map, so they are always in range.\<close>

function root_walk :: "storage_allocation list \<Rightarrow> nat list \<Rightarrow> nat \<Rightarrow> nat" where
  "root_walk allocs seen i =
     (if i < length allocs then
        (case aliasOf (allocs ! i) of
           None \<Rightarrow> i
         | Some goal \<Rightarrow>
             (case index_by_id allocs goal of
                None \<Rightarrow> i
              | Some j \<Rightarrow> if i \<in> set seen then i else root_walk allocs (seen @ [i]) j))
      else i)"
  by pat_completeness auto

lemma seen_decreases:
  "i < (n::nat) \<Longrightarrow> i \<notin> set seen \<Longrightarrow> card ({..< n} - set (seen @ [i])) < card ({..< n} - set seen)"
proof -
  assume "i < n" "i \<notin> set seen"
  then have i: "i \<in> {..< n} - set seen" by simp
  have "{..< n} - set (seen @ [i]) = {..< n} - set seen - {i}" by auto
  then show ?thesis using card_Diff1_less [OF _ i] by simp
qed

termination root_walk
  by (relation "measure (\<lambda>(allocs, seen, i). card ({..< length allocs} - set seen))", rule wf_measure,
      simp only: in_measure prod.case, rule seen_decreases)

declare root_walk.simps [simp del]

definition root_of :: "storage_allocation list \<Rightarrow> nat \<Rightarrow> nat" where
  "root_of allocs i = root_walk allocs [] i"

text \<open>The members of each root, in the order of their steps.\<close>

definition members_of :: "storage_allocation list \<Rightarrow> nat \<Rightarrow> nat list" where
  "members_of allocs r = filter (\<lambda>i. root_of allocs i = r) [0 ..< length allocs]"

definition step_order :: "storage_allocation list \<Rightarrow> nat list \<Rightarrow> nat list" where
  "step_order allocs ms = sort_key (\<lambda>i. (beginStep (allocs ! i), alloc_id (allocs ! i))) ms"

definition occupant_edges :: "storage_allocation list \<Rightarrow> nat list \<Rightarrow> plan_step_edge list" where
  "occupant_edges allocs ms =
     (if length ms < 2 then []
      else let ms = step_order allocs ms in
        map (\<lambda>(p, i). \<lparr>pse_from = endStep (allocs ! p), pse_to = beginStep (allocs ! i)\<rparr>) (zip ms (tl ms)))"

definition requiredReuseEdgesFor :: "storage_allocation list \<Rightarrow> plan_step_edge list" where
  "requiredReuseEdgesFor allocs =
     remdups_adj (sort_key (\<lambda>e. (pse_from e, pse_to e))
       (concat (map (\<lambda>r. occupant_edges allocs (members_of allocs r)) [0 ..< length allocs])))"

section \<open>Windows\<close>

definition open_window :: "scheduled_event \<Rightarrow> live_window \<Rightarrow> live_window" where
  "open_window placed w =
     (if touched w then w
      else w\<lparr>touched := True, lw_start := sched_start placed, lw_end := sched_finish placed,
        readStart := sched_start placed, writeStart := sched_start placed\<rparr>)"

definition touch_window :: "scheduled_event \<Rightarrow> storage_access \<Rightarrow> live_window \<Rightarrow> live_window" where
  "touch_window placed a w =
     (let w = open_window placed w;
          w = w\<lparr>lw_end := max (lw_end w) (sched_finish placed)\<rparr>
      in if a = WriteAccess then w\<lparr>written := True, writeStart := min (writeStart w) (sched_start placed)\<rparr>
         else w\<lparr>readStart := min (readStart w) (sched_start placed)\<rparr>)"

text \<open>The uses of one event; the occurrences are kept as distinct pairs of index and occurrence.\<close>

fun touch_uses ::
  "storage_allocation list \<Rightarrow> nat \<Rightarrow> scheduled_event \<Rightarrow> storage_use list \<Rightarrow> (nat \<times> nat) list \<Rightarrow> live_window list \<Rightarrow>
   (liveness_error, (nat \<times> nat) list \<times> live_window list) expected" where
  "touch_uses allocs e placed [] occs ws = Inr (occs, ws)"
| "touch_uses allocs e placed (u # us) occs ws =
     (case index_by_id allocs (allocationId u) of
        None \<Rightarrow> Inl (UnknownAllocation e (allocationId u))
      | Some i \<Rightarrow>
          touch_uses allocs e placed us (List.insert (i, occurrence u) occs)
            (ws[i := touch_window placed (access u) (ws ! i)]))"

definition occurrence_count :: "(nat \<times> nat) list \<Rightarrow> nat \<Rightarrow> nat" where
  "occurrence_count occs i = length (filter (\<lambda>p. fst p = i) occs)"

definition raise_residency :: "(nat \<times> nat) list \<Rightarrow> live_window list \<Rightarrow> live_window list" where
  "raise_residency occs ws =
     map (\<lambda>(i, w). if i \<in> fst ` set occs then w\<lparr>residency := max (residency w) (occurrence_count occs i)\<rparr> else w)
       (enumerate 0 ws)"

fun event_windows ::
  "storage_allocation list \<Rightarrow> nat \<Rightarrow> plan_cost_event list \<Rightarrow> scheduled_event list \<Rightarrow> live_window list \<Rightarrow>
   (liveness_error, live_window list) expected" where
  "event_windows allocs e (ev # evs) (placed # ps) ws =
     (if sched_id placed \<noteq> e then Inl (ScheduleNames e (sched_id placed))
      else bindR (touch_uses allocs e placed (storageUses ev) [] ws)
        (\<lambda>(occs, ws'). event_windows allocs (Suc e) evs ps (raise_residency occs ws')))"
| "event_windows allocs e _ _ ws = Inr ws"

definition close_window :: "live_window \<Rightarrow> live_window" where
  "close_window w =
     (let w = w\<lparr>lw_start := if written w then writeStart w else readStart w\<rparr>
      in if residency w = 0 then w\<lparr>residency := 1\<rparr> else w)"

fun close_windows :: "storage_allocation list \<Rightarrow> live_window list \<Rightarrow> (liveness_error, live_window list) expected" where
  "close_windows (a # as) (w # ws) =
     (if \<not> touched w then Inl (UntouchedAllocation (alloc_id a) (memory a))
      else bindR (close_windows as ws) (\<lambda>rest. Inr (close_window w # rest)))"
| "close_windows _ _ = Inr []"

section \<open>Roots and groups\<close>

function chain_root :: "storage_allocation list \<Rightarrow> nat list \<Rightarrow> nat \<Rightarrow> (liveness_error, nat) expected" where
  "chain_root allocs seen i =
     (if i < length allocs then
        (case aliasOf (allocs ! i) of
           None \<Rightarrow> Inr i
         | Some goal \<Rightarrow>
             if i \<in> set seen then Inl (CyclicAlias (alloc_id (allocs ! i)))
             else (case index_by_id allocs goal of
                None \<Rightarrow> Inl (UnknownAlias (alloc_id (allocs ! i)) goal)
              | Some j \<Rightarrow> chain_root allocs (seen @ [i]) j))
      else Inr i)"
  by pat_completeness auto

termination chain_root
  by (relation "measure (\<lambda>(allocs, seen, i). card ({..< length allocs} - set seen))", rule wf_measure,
      simp only: in_measure prod.case, rule seen_decreases)

declare chain_root.simps [simp del]

fun map_result :: "('a \<Rightarrow> ('e, 'b) expected) \<Rightarrow> 'a list \<Rightarrow> ('e, 'b list) expected" where
  "map_result f [] = Inr []"
| "map_result f (x # xs) = bindR (f x) (\<lambda>y. bindR (map_result f xs) (\<lambda>ys. Inr (y # ys)))"

definition merge_window :: "live_window \<Rightarrow> live_window \<Rightarrow> live_window" where
  "merge_window g w = g\<lparr>lw_start := min (lw_start g) (lw_start w), lw_end := max (lw_end g) (lw_end w),
     residency := max (residency g) (residency w)\<rparr>"

definition add_to_group :: "nat \<times> live_window \<Rightarrow> (nat, live_window) smap \<Rightarrow> (nat, live_window) smap" where
  "add_to_group entry groups = (case entry of (base, w) \<Rightarrow>
     (case map_of groups base of
        None \<Rightarrow> smap_insert base w groups
      | Some g \<Rightarrow> smap_assign base (merge_window g w) groups))"

definition window_groups :: "nat list \<Rightarrow> live_window list \<Rightarrow> (nat, live_window) smap" where
  "window_groups roots ws = fold add_to_group (zip roots ws) []"

section \<open>Peak\<close>

definition candidate_times :: "(nat, live_window) smap \<Rightarrow> nat list" where
  "candidate_times groups = remdups_adj (sort (map (lw_start \<circ> snd) groups))"

definition held_in :: "(string, nat) smap \<Rightarrow> string \<Rightarrow> nat" where
  "held_in m k = (case map_of m k of None \<Rightarrow> 0 | Some v \<Rightarrow> v)"

fun live_at ::
  "storage_allocation list \<Rightarrow> nat \<Rightarrow> (nat, live_window) smap \<Rightarrow> (string, nat) smap \<Rightarrow>
   (liveness_error, (string, nat) smap) expected" where
  "live_at allocs t [] live = Inr live"
| "live_at allocs t ((r, w) # gs) live =
     (if t < lw_start w \<or> t \<ge> lw_end w then live_at allocs t gs live
      else let a = allocs ! r; weight = alloc_bytes a * residency w in
      if weight > uint64_max then Inl (FootprintOverflow (alloc_id a))
      else if held_in live (memory a) + weight > uint64_max then Inl (LiveOverflow (memory a))
      else live_at allocs t gs (smap_assign (memory a) (held_in live (memory a) + weight) live))"

definition raise_peaks :: "(string, nat) smap \<Rightarrow> (string, nat) smap \<Rightarrow> (string, nat) smap" where
  "raise_peaks live peaks = fold (\<lambda>(m, held) p. smap_assign m (max (held_in p m) held) p) live peaks"

fun peaks_over ::
  "storage_allocation list \<Rightarrow> (nat, live_window) smap \<Rightarrow> nat list \<Rightarrow> (string, nat) smap \<Rightarrow>
   (liveness_error, (string, nat) smap) expected" where
  "peaks_over allocs groups [] peaks = Inr peaks"
| "peaks_over allocs groups (t # ts) peaks =
     bindR (live_at allocs t groups []) (\<lambda>live. peaks_over allocs groups ts (raise_peaks live peaks))"

fun first_duplicate :: "nat list \<Rightarrow> nat list \<Rightarrow> nat option" where
  "first_duplicate seen [] = None"
| "first_duplicate seen (x # xs) = (if x \<in> set seen then Some x else first_duplicate (x # seen) xs)"

definition analyzeStorageLiveness ::
  "storage_allocation list \<Rightarrow> plan_cost_event list \<Rightarrow> event_schedule \<Rightarrow>
   (liveness_error, storage_liveness_result) expected" where
  "analyzeStorageLiveness allocs events schedule =
     (if length (entries schedule) \<noteq> length events
        then Inl (ScheduleSize (length (entries schedule)) (length events))
      else case first_duplicate [] (map alloc_id allocs) of
        Some i \<Rightarrow> Inl (DuplicateAllocation i)
      | None \<Rightarrow>
          bindR (event_windows allocs 0 events (entries schedule) (replicate (length allocs) new_window))
            (\<lambda>ws. bindR (close_windows allocs ws)
              (\<lambda>windows. bindR (map_result (chain_root allocs []) [0 ..< length allocs])
                (\<lambda>roots. let groups = window_groups roots windows in
                  bindR (peaks_over allocs groups (candidate_times groups) [])
                    (\<lambda>peaks. Inr \<lparr>peakBytes = peaks, requiredReuseEdges = requiredReuseEdgesFor allocs\<rparr>)))))"

section \<open>Uses of one allocation\<close>

text \<open>The scheduled uses of an allocation, in the order of the stream, and how many versions of it one event
  runs over.\<close>

definition event_uses :: "storage_allocation list \<Rightarrow> plan_cost_event \<Rightarrow> nat \<Rightarrow> storage_use list" where
  "event_uses allocs ev i = filter (\<lambda>u. index_by_id allocs (allocationId u) = Some i) (storageUses ev)"

definition use_spans ::
  "storage_allocation list \<Rightarrow> plan_cost_event list \<Rightarrow> scheduled_event list \<Rightarrow> nat \<Rightarrow> (scheduled_event \<times> storage_access) list" where
  "use_spans allocs evs ps i =
     concat (map (\<lambda>(ev, p). map (\<lambda>u. (p, access u)) (event_uses allocs ev i)) (zip evs ps))"

definition event_versions :: "storage_allocation list \<Rightarrow> plan_cost_event \<Rightarrow> nat \<Rightarrow> nat" where
  "event_versions allocs ev i = card (occurrence ` set (event_uses allocs ev i))"

definition touch_spans :: "(scheduled_event \<times> storage_access) list \<Rightarrow> live_window \<Rightarrow> live_window" where
  "touch_spans spans w = fold (\<lambda>(p, a). touch_window p a) spans w"

lemma touch_window_residency [simp]:
  "touch_window p a (w\<lparr>residency := x\<rparr>) = (touch_window p a w)\<lparr>residency := x\<rparr>"
  "residency (touch_window p a w) = residency w"
  by (simp_all add: touch_window_def open_window_def Let_def)

lemma touch_spans_residency [simp]:
  "touch_spans spans (w\<lparr>residency := x\<rparr>) = (touch_spans spans w)\<lparr>residency := x\<rparr>"
  "residency (touch_spans spans w) = residency w"
  unfolding touch_spans_def by (induction spans arbitrary: w) (auto split: prod.splits)

lemma index_by_id_range: "index_by_id allocs n = Some i \<Longrightarrow> i < length allocs"
  by (auto simp: index_by_id_def dest!: map_of_SomeD set_zip_rightD)

lemma touch_uses_Inr:
  assumes "touch_uses allocs e p us occs ws = Inr (occs', ws')" "length ws = length allocs" "distinct occs"
  shows "length ws' = length ws \<and> distinct occs' \<and>
    set occs' = set occs \<union> {(i, occurrence u) | i u. u \<in> set us \<and> index_by_id allocs (allocationId u) = Some i} \<and>
    (\<forall>i < length ws. ws' ! i =
      touch_spans (map (\<lambda>u. (p, access u)) (filter (\<lambda>u. index_by_id allocs (allocationId u) = Some i) us)) (ws ! i))"
  using assms
proof (induction allocs e p us occs ws rule: touch_uses.induct)
  case (1 allocs e placed occs ws)
  then show ?case by (simp add: touch_spans_def)
next
  case (2 allocs e placed u us occs ws)
  obtain j where j: "index_by_id allocs (allocationId u) = Some j"
    using "2.prems"(1) by (auto split: option.splits)
  note range = index_by_id_range [OF j]
  have IH: "length ws' = length ws \<and> distinct occs' \<and>
    set occs' = insert (j, occurrence u) (set occs) \<union>
      {(i, occurrence u) | i u. u \<in> set us \<and> index_by_id allocs (allocationId u) = Some i} \<and>
    (\<forall>i < length ws. ws' ! i =
      touch_spans (map (\<lambda>u. (placed, access u)) (filter (\<lambda>u. index_by_id allocs (allocationId u) = Some i) us))
        (ws[j := touch_window placed (access u) (ws ! j)] ! i))"
    using "2.IH" [OF j] "2.prems" j by auto
  moreover have "insert (j, occurrence u) (set occs) \<union>
      {(i, occurrence u) | i u. u \<in> set us \<and> index_by_id allocs (allocationId u) = Some i} =
    set occs \<union> {(i, occurrence v) | i v. v \<in> set (u # us) \<and> index_by_id allocs (allocationId v) = Some i}"
    using j by auto
  ultimately show ?case using range "2.prems"(2) j by (auto simp: touch_spans_def nth_list_update)
qed

lemma raise_residency_nth:
  "i < length ws \<Longrightarrow> raise_residency occs ws ! i =
     (if i \<in> fst ` set occs then (ws ! i)\<lparr>residency := max (residency (ws ! i)) (occurrence_count occs i)\<rparr> else ws ! i)"
  by (simp add: raise_residency_def nth_enumerate_eq)

lemma length_raise_residency [simp]: "length (raise_residency occs ws) = length ws"
  by (simp add: raise_residency_def)

lemma occurrence_count_card:
  assumes "distinct occs" "set occs = {(i, occurrence u) | i u. u \<in> set us \<and> index_by_id allocs (allocationId u) = Some i}"
  shows "occurrence_count occs i = card (occurrence ` set (filter (\<lambda>u. index_by_id allocs (allocationId u) = Some i) us))"
proof -
  have "occurrence_count occs i = card (set (filter (\<lambda>p. fst p = i) occs))"
    unfolding occurrence_count_def using assms(1) by (intro distinct_card [symmetric]) simp
  also have "set (filter (\<lambda>p. fst p = i) occs) =
      Pair i ` occurrence ` set (filter (\<lambda>u. index_by_id allocs (allocationId u) = Some i) us)"
    using assms(2) by auto
  finally show ?thesis by (simp add: card_image inj_on_def)
qed

lemma one_event_window:
  assumes "touch_uses allocs e p (storageUses ev) [] ws = Inr (occs, ws')" "length ws = length allocs" "i < length ws"
  shows "raise_residency occs ws' ! i =
    (touch_spans (map (\<lambda>u. (p, access u)) (event_uses allocs ev i)) (ws ! i))
      \<lparr>residency := max (residency (ws ! i)) (event_versions allocs ev i)\<rparr>"
    and "length (raise_residency occs ws') = length ws"
proof -
  note facts = touch_uses_Inr [OF assms(1,2)]
  have occs: "distinct occs"
    "set occs = {(i, occurrence u) | i u. u \<in> set (storageUses ev) \<and> index_by_id allocs (allocationId u) = Some i}"
    using facts by auto
  have count: "occurrence_count occs i = event_versions allocs ev i"
    using occurrence_count_card [OF occs] by (simp add: event_versions_def event_uses_def)
  have none: "event_versions allocs ev i = 0" if "i \<notin> fst ` set occs"
    using that unfolding occs(2) by (force simp: event_versions_def event_uses_def)
  have win: "ws' ! i = touch_spans (map (\<lambda>u. (p, access u)) (event_uses allocs ev i)) (ws ! i)"
    using facts assms(3) by (simp add: event_uses_def)
  show "raise_residency occs ws' ! i = (touch_spans (map (\<lambda>u. (p, access u)) (event_uses allocs ev i)) (ws ! i))
      \<lparr>residency := max (residency (ws ! i)) (event_versions allocs ev i)\<rparr>"
    using facts assms(3) none by (cases "i \<in> fst ` set occs") (simp_all add: raise_residency_nth win count)
  show "length (raise_residency occs ws') = length ws" using facts by simp
qed

lemma event_windows_Inr:
  assumes "event_windows allocs e evs ps ws = Inr ws'" "length ws = length allocs" "length ps = length evs"
  shows "length ws' = length ws \<and>
    (\<forall>i < length ws. ws' ! i = (touch_spans (use_spans allocs evs ps i) (ws ! i))
      \<lparr>residency := fold (\<lambda>ev r. max r (event_versions allocs ev i)) evs (residency (ws ! i))\<rparr>)"
  using assms
proof (induction allocs e evs ps ws arbitrary: ws' rule: event_windows.induct)
  case (1 allocs e ev evs placed ps ws)
  obtain occs us where uses: "touch_uses allocs e placed (storageUses ev) [] ws = Inr (occs, us)"
    and rest: "event_windows allocs (Suc e) evs ps (raise_residency occs us) = Inr ws'"
    using "1.prems"(1) by (auto split: if_splits)
  note one = one_event_window [OF uses "1.prems"(2)]
  have len: "length us = length ws" using touch_uses_Inr [OF uses "1.prems"(2)] by simp
  have id: "sched_id placed = e" using "1.prems"(1) by (auto split: if_splits)
  have "length ws' = length (raise_residency occs us) \<and>
    (\<forall>i < length (raise_residency occs us). ws' ! i = (touch_spans (use_spans allocs evs ps i) (raise_residency occs us ! i))
      \<lparr>residency := fold (\<lambda>ev r. max r (event_versions allocs ev i)) evs (residency (raise_residency occs us ! i))\<rparr>)"
    by (rule "1.IH" [OF _ rest]) (use uses id "1.prems" len in simp_all)
  then show ?case using len one(1)
    by (simp add: use_spans_def) (simp add: touch_spans_def fold_append)
qed (auto simp: use_spans_def touch_spans_def)

section \<open>What a window is\<close>

text \<open>From the uses alone: the end is the last completion; the start is the first start among the writes and the
  first use of the stream, or among the reads of an allocation that nothing writes.\<close>

definition starts_of :: "storage_access \<Rightarrow> (scheduled_event \<times> storage_access) list \<Rightarrow> nat list" where
  "starts_of a spans = map (sched_start \<circ> fst) (filter (\<lambda>s. snd s = a) spans)"

definition is_written :: "(scheduled_event \<times> storage_access) list \<Rightarrow> bool" where
  "is_written spans \<longleftrightarrow> WriteAccess \<in> snd ` set spans"

definition span_start :: "(scheduled_event \<times> storage_access) list \<Rightarrow> nat" where
  "span_start spans = Min (set (sched_start (fst (hd spans)) #
     (if is_written spans then starts_of WriteAccess spans else starts_of ReadAccess spans)))"

definition span_end :: "(scheduled_event \<times> storage_access) list \<Rightarrow> nat" where
  "span_end spans = Max (set (map (sched_finish \<circ> fst) spans))"

lemma touch_spans_more:
  assumes "touched w"
  shows "touched (touch_spans spans w) \<and>
    lw_end (touch_spans spans w) = fold max (map (sched_finish \<circ> fst) spans) (lw_end w) \<and>
    (written (touch_spans spans w) \<longleftrightarrow> written w \<or> is_written spans) \<and>
    writeStart (touch_spans spans w) = fold min (starts_of WriteAccess spans) (writeStart w) \<and>
    readStart (touch_spans spans w) = fold min (starts_of ReadAccess spans) (readStart w)"
  using assms
proof (induction spans arbitrary: w)
  case Nil
  then show ?case by (simp add: touch_spans_def is_written_def starts_of_def)
next
  case (Cons s spans)
  obtain p a where s: "s = (p, a)" by (cases s)
  let ?w = "touch_window p a w"
  have step: "touch_spans (s # spans) w = touch_spans spans ?w" by (simp add: touch_spans_def s)
  show ?case
  proof (cases a)
    case ReadAccess
    have w: "touched ?w" "lw_end ?w = max (sched_finish p) (lw_end w)" "written ?w = written w"
      "writeStart ?w = writeStart w" "readStart ?w = min (sched_start p) (readStart w)"
      using Cons.prems ReadAccess by (simp_all add: touch_window_def open_window_def Let_def max.commute min.commute)
    show ?thesis unfolding step using Cons.IH [OF w(1)]
      by (simp add: w [unfolded ReadAccess] s ReadAccess starts_of_def is_written_def)
  next
    case WriteAccess
    have w: "touched ?w" "lw_end ?w = max (sched_finish p) (lw_end w)" "written ?w"
      "writeStart ?w = min (sched_start p) (writeStart w)" "readStart ?w = readStart w"
      using Cons.prems WriteAccess by (simp_all add: touch_window_def open_window_def Let_def max.commute min.commute)
    show ?thesis unfolding step using Cons.IH [OF w(1)]
      by (simp add: w [unfolded WriteAccess] s WriteAccess starts_of_def is_written_def)
  qed
qed

lemma touch_spans_new:
  assumes "spans \<noteq> []"
  shows "touched (touch_spans spans new_window)"
    and "written (touch_spans spans new_window) \<longleftrightarrow> is_written spans"
    and "lw_end (touch_spans spans new_window) = span_end spans"
    and "is_written spans \<Longrightarrow> writeStart (touch_spans spans new_window) = span_start spans"
    and "\<not> is_written spans \<Longrightarrow> readStart (touch_spans spans new_window) = span_start spans"
proof -
  obtain p a rest where spans: "spans = (p, a) # rest" using assms by (cases spans) auto
  let ?w = "touch_window p a new_window"
  have w: "touched ?w" "lw_end ?w = sched_finish p" "written ?w \<longleftrightarrow> a = WriteAccess" "writeStart ?w = sched_start p"
    "readStart ?w = sched_start p"
    by (cases a; simp add: touch_window_def open_window_def new_window_def)+
  have step: "touch_spans spans new_window = touch_spans rest ?w" by (simp add: touch_spans_def spans)
  note more = touch_spans_more [OF w(1), of rest]
  show "touched (touch_spans spans new_window)" unfolding step using more by simp
  show "written (touch_spans spans new_window) \<longleftrightarrow> is_written spans"
    unfolding step using more by (auto simp: w spans is_written_def)
  show "lw_end (touch_spans spans new_window) = span_end spans"
    unfolding step unfolding span_end_def spans using more Max.set_eq_fold [of "sched_finish p" "map (sched_finish \<circ> fst) rest"]
    by (simp add: w)
  have again: "set (sched_start p # starts_of b spans) = set (sched_start p # starts_of b rest)" for b
    by (auto simp: spans starts_of_def)
  have fold_Min: "fold min (starts_of b rest) (sched_start p) = Min (set (sched_start p # starts_of b spans))" for b
    unfolding again Min.set_eq_fold ..
  show "writeStart (touch_spans spans new_window) = span_start spans" if "is_written spans"
    unfolding step span_start_def using more fold_Min that by (simp add: w spans)
  show "readStart (touch_spans spans new_window) = span_start spans" if "\<not> is_written spans"
    unfolding step span_start_def using more fold_Min that by (simp add: w spans)
qed

text \<open>The closed window of each allocation after all events.\<close>

definition versions ::
  "storage_allocation list \<Rightarrow> plan_cost_event list \<Rightarrow> nat \<Rightarrow> nat" where
  "versions allocs evs i = Max (insert 1 ((\<lambda>ev. event_versions allocs ev i) ` set evs))"

lemma close_windows_Inr:
  assumes "close_windows allocs ws = Inr ws'" "length ws = length allocs"
  shows "ws' = map close_window ws \<and> list_all touched ws"
  using assms
proof (induction allocs ws arbitrary: ws' rule: close_windows.induct)
  case (1 a as w ws)
  then show ?case by (auto split: if_splits)
qed auto

lemma residency_fold: "fold (\<lambda>ev r. max r (f ev)) evs r0 = Max (insert r0 (f ` set evs))" for f :: "'a \<Rightarrow> nat"
proof (induction evs arbitrary: r0)
  case (Cons ev evs)
  then show ?case by (cases "evs = []") (simp_all add: ac_simps)
qed simp

lemma versions_residency:
  "(if R = 0 then 1 else R) = versions allocs evs i" if "R = fold (\<lambda>ev r. max r (event_versions allocs ev i)) evs 0"
  using that unfolding residency_fold versions_def
  by (cases "evs = []") (auto simp: max_def)

lemma analyzed_window:
  assumes "event_windows allocs 0 evs ps (replicate (length allocs) new_window) = Inr ws"
    and "close_windows allocs ws = Inr windows" and "length ps = length evs" and "i < length allocs"
  shows "length windows = length allocs" and "use_spans allocs evs ps i \<noteq> []"
    and "lw_start (windows ! i) = span_start (use_spans allocs evs ps i)"
    and "lw_end (windows ! i) = span_end (use_spans allocs evs ps i)"
    and "residency (windows ! i) = versions allocs evs i"
proof -
  let ?spans = "use_spans allocs evs ps i" and ?R = "fold (\<lambda>ev r. max r (event_versions allocs ev i)) evs 0"
  have ws: "length ws = length allocs" "ws ! i = (touch_spans ?spans new_window)\<lparr>residency := ?R\<rparr>"
    using event_windows_Inr [OF assms(1) _ assms(3)] assms(4) by (auto simp: new_window_def)
  have closed: "windows = map close_window ws" "list_all touched ws"
    using close_windows_Inr [OF assms(2) ws(1)] by auto
  show "length windows = length allocs" using closed ws by simp
  have "touched (ws ! i)" using closed(2) ws(1) assms(4) by (simp add: list_all_length)
  then have "touched (touch_spans ?spans new_window)" using ws(2) by simp
  then show spans: "?spans \<noteq> []" by (auto simp: touch_spans_def new_window_def)
  have win: "windows ! i = close_window ((touch_spans ?spans new_window)\<lparr>residency := ?R\<rparr>)"
    using closed(1) ws assms(4) by simp
  note new = touch_spans_new [OF spans]
  show "lw_start (windows ! i) = span_start ?spans"
    using new unfolding win by (cases "is_written ?spans") (simp_all add: close_window_def Let_def)
  show "lw_end (windows ! i) = span_end ?spans"
    using new unfolding win by (simp add: close_window_def Let_def)
  show "residency (windows ! i) = versions allocs evs i"
    using versions_residency [of ?R allocs i evs] unfolding win by (simp add: close_window_def Let_def split: if_splits)
qed

section \<open>The peak over all times\<close>

definition live_total :: "storage_allocation list \<Rightarrow> (nat, live_window) smap \<Rightarrow> nat \<Rightarrow> string \<Rightarrow> nat" where
  "live_total allocs groups t m = sum_list (map (\<lambda>(r, w).
     if lw_start w \<le> t \<and> t < lw_end w \<and> memory (allocs ! r) = m
     then alloc_bytes (allocs ! r) * residency w else 0) groups)"

lemma held_in_assign: "smap_ok live \<Longrightarrow> held_in (smap_assign k v live) m = (if m = k then v else held_in live m)"
  by (simp add: held_in_def map_of_smap_assign)

lemma live_at_Inr:
  assumes "live_at allocs t gs live = Inr live'" "smap_ok live"
  shows "smap_ok live' \<and> held_in live' m = held_in live m + live_total allocs gs t m"
  using assms
proof (induction allocs t gs live rule: live_at.induct)
  case (2 allocs t r w gs live)
  show ?case
  proof (cases "t < lw_start w \<or> t \<ge> lw_end w")
    case True
    then show ?thesis using 2 by (auto simp: live_total_def)
  next
    case False
    let ?a = "allocs ! r"
    have rest: "live_at allocs t gs (smap_assign (memory ?a) (held_in live (memory ?a) + alloc_bytes ?a * residency w) live) = Inr live'"
      and fit: "\<not> alloc_bytes ?a * residency w > uint64_max"
        "\<not> held_in live (memory ?a) + alloc_bytes ?a * residency w > uint64_max"
      using "2.prems"(1) False by (auto simp: Let_def split: if_splits)
    have "smap_ok live' \<and> held_in live' m =
        held_in (smap_assign (memory ?a) (held_in live (memory ?a) + alloc_bytes ?a * residency w) live) m + live_total allocs gs t m"
      by (rule "2.IH" (2)) (use False fit rest "2.prems"(2) in \<open>simp_all add: smap_ok_assign\<close>)
    then show ?thesis using False "2.prems"(2) by (auto simp: held_in_assign live_total_def)
  qed
qed (simp add: live_total_def)

lemma raise_peaks_facts:
  assumes "smap_ok live" "smap_ok peaks"
  shows "smap_ok (raise_peaks live peaks) \<and> held_in (raise_peaks live peaks) m = max (held_in peaks m) (held_in live m)"
  using assms
proof (induction live arbitrary: peaks)
  case Nil
  then show ?case by (simp add: raise_peaks_def held_in_def)
next
  case (Cons x live)
  obtain k v where x: "x = (k, v)" by (cases x)
  have step: "raise_peaks (x # live) peaks = raise_peaks live (smap_assign k (max (held_in peaks k) v) peaks)"
    by (simp add: raise_peaks_def x)
  have "map_of live k = None" using Cons.prems(1) by (intro map_of_below) (simp add: x)
  then have k: "held_in live k = 0" by (simp add: held_in_def)
  have "smap_ok (raise_peaks (x # live) peaks) \<and> held_in (raise_peaks (x # live) peaks) m =
      max (held_in (smap_assign k (max (held_in peaks k) v) peaks) m) (held_in live m)"
    unfolding step by (rule Cons.IH) (use Cons.prems in \<open>simp_all add: x smap_ok_assign\<close>)
  then show ?case using Cons.prems(2) k by (cases "m = k") (simp_all add: held_in_assign, simp_all add: held_in_def x)
qed

lemma peaks_over_Inr:
  assumes "peaks_over allocs groups ts peaks = Inr peaks'" "smap_ok peaks"
  shows "smap_ok peaks' \<and> held_in peaks' m = fold max (map (\<lambda>t. live_total allocs groups t m) ts) (held_in peaks m)"
  using assms
proof (induction allocs groups ts peaks rule: peaks_over.induct)
  case (2 allocs groups t ts peaks)
  obtain live where live: "live_at allocs t groups [] = Inr live"
    and rest: "peaks_over allocs groups ts (raise_peaks live peaks) = Inr peaks'"
    using "2.prems"(1) by auto
  have ok: "smap_ok live" "held_in live m = live_total allocs groups t m"
    using live_at_Inr [OF live] by (simp_all add: held_in_def)
  note raised = raise_peaks_facts [OF ok(1) "2.prems"(2)]
  have "smap_ok peaks' \<and> held_in peaks' m =
      fold max (map (\<lambda>t. live_total allocs groups t m) ts) (held_in (raise_peaks live peaks) m)"
    by (rule "2.IH" [OF rest]) (use raised in simp)
  then show ?case using raised ok(2) by (simp add: max.commute)
qed simp

lemma sum_list_zero: "(\<And>x. x \<in> set xs \<Longrightarrow> f x = (0::nat)) \<Longrightarrow> sum_list (map f xs) = 0"
  by (induction xs) auto

text \<open>The total changes only at starts and ends, and it only grows at starts.\<close>

lemma live_total_at_start:
  "live_total allocs groups t m = 0 \<or>
   (\<exists>s \<in> lw_start ` snd ` set groups. live_total allocs groups t m \<le> live_total allocs groups s m)"
proof (cases "\<exists>g \<in> set groups. lw_start (snd g) \<le> t")
  case False
  then have "live_total allocs groups t m = 0"
    unfolding live_total_def by (intro sum_list_zero) auto
  then show ?thesis ..
next
  case True
  let ?starts = "{s \<in> lw_start ` snd ` set groups. s \<le> t}"
  have starts: "finite ?starts" "?starts \<noteq> {}" using True by auto
  let ?s = "Max ?starts"
  have s: "?s \<in> ?starts" using Max_in [OF starts] .
  have "live_total allocs groups t m \<le> live_total allocs groups ?s m"
    unfolding live_total_def
  proof (rule sum_list_mono, clarify)
    fix r w assume g: "(r, w) \<in> set groups"
    have "lw_start w \<le> ?s" if "lw_start w \<le> t"
      using g that starts(1) by (intro Max_ge) force+
    moreover have "?s \<le> t" using s by simp
    ultimately show "(if lw_start w \<le> t \<and> t < lw_end w \<and> memory (allocs ! r) = m then alloc_bytes (allocs ! r) * residency w else 0)
        \<le> (if lw_start w \<le> ?s \<and> ?s < lw_end w \<and> memory (allocs ! r) = m then alloc_bytes (allocs ! r) * residency w else 0)"
      by auto
  qed
  with s show ?thesis by blast
qed

lemma candidate_times_set: "set (candidate_times groups) = lw_start ` snd ` set groups"
  by (simp add: candidate_times_def image_comp)

lemma fold_max_facts:
  "(\<forall>x \<in> set xs. x \<le> fold max xs (a::nat)) \<and> a \<le> fold max xs a \<and> fold max xs a \<in> insert a (set xs)"
proof (induction xs arbitrary: a)
  case (Cons x xs)
  from Cons [of "max x a"] show ?case by (auto simp: max_def split: if_splits)
qed simp

lemma peak_is_maximum:
  assumes "peaks_over allocs groups (candidate_times groups) [] = Inr peaks"
  shows "live_total allocs groups t m \<le> held_in peaks m"
    and "\<exists>t. live_total allocs groups t m = held_in peaks m"
proof -
  have held: "held_in peaks m = fold max (map (\<lambda>t. live_total allocs groups t m) (candidate_times groups)) 0"
    using peaks_over_Inr [OF assms] by (simp add: held_in_def)
  note mx = fold_max_facts [of "map (\<lambda>t. live_total allocs groups t m) (candidate_times groups)" 0]
  have at: "live_total allocs groups s m \<le> held_in peaks m" if "s \<in> lw_start ` snd ` set groups" for s
  proof -
    have "live_total allocs groups s m \<in> set (map (\<lambda>t. live_total allocs groups t m) (candidate_times groups))"
      unfolding set_map candidate_times_set using that by (rule imageI)
    with mx show ?thesis unfolding held by blast
  qed
  show "live_total allocs groups t m \<le> held_in peaks m"
    using live_total_at_start [of allocs groups t m] at by force
  have "\<exists>t. live_total allocs groups t m = 0"
  proof -
    have "live_total allocs groups (Max (insert 0 (lw_end ` snd ` set groups))) m = 0"
      unfolding live_total_def
    proof (rule sum_list_zero, clarify)
      fix r w assume "(r, w) \<in> set groups"
      then have "lw_end w \<le> Max (insert 0 (lw_end ` snd ` set groups))" by (intro Max_ge) force+
      then have "\<not> Max (insert 0 (lw_end ` snd ` set groups)) < lw_end w" by (simp only: not_less)
      then show "(if lw_start w \<le> Max (insert 0 (lw_end ` snd ` set groups)) \<and> Max (insert 0 (lw_end ` snd ` set groups)) < lw_end w \<and>
          memory (allocs ! r) = m then alloc_bytes (allocs ! r) * residency w else 0) = 0" by (simp only: simp_thms if_False)
    qed
    then show ?thesis ..
  qed
  then show "\<exists>t. live_total allocs groups t m = held_in peaks m"
    using mx unfolding held by auto
qed

section \<open>Groups of allocations that share storage\<close>

lemma chain_root_walk: "chain_root allocs seen i = Inr r \<Longrightarrow> root_walk allocs seen i = r"
proof (induction allocs seen i rule: chain_root.induct)
  case (1 allocs seen i)
  show ?case
  proof (cases "i < length allocs \<and> aliasOf (allocs ! i) \<noteq> None")
    case False
    with "1.prems" show ?thesis
      by (subst root_walk.simps, subst (asm) chain_root.simps) (auto split: if_splits)
  next
    case True
    then obtain goal where goal: "aliasOf (allocs ! i) = Some goal" by auto
    have fresh: "i \<notin> set seen" using "1.prems" True goal by (subst (asm) chain_root.simps) (auto split: if_splits)
    with "1.prems" True goal obtain j where j: "index_by_id allocs goal = Some j"
      "chain_root allocs (seen @ [i]) j = Inr r"
      by (subst (asm) chain_root.simps) (auto split: option.splits)
    have "root_walk allocs (seen @ [i]) j = r" using "1.IH" True goal fresh j by simp
    then show ?thesis using True goal fresh j by (subst root_walk.simps) simp
  qed
qed

lemma map_result_Inr: "map_result f xs = Inr ys \<Longrightarrow> length ys = length xs \<and> (\<forall>k < length xs. f (xs ! k) = Inr (ys ! k))"
proof (induction xs arbitrary: ys)
  case (Cons x xs)
  then obtain y zs where "f x = Inr y" "map_result f xs = Inr zs" "ys = y # zs" by auto
  with Cons.IH show ?case by (auto simp: nth_Cons split: nat.splits)
qed simp

lemma analyzed_roots:
  assumes "map_result (chain_root allocs []) [0 ..< length allocs] = Inr roots"
  shows "roots = map (root_of allocs) [0 ..< length allocs]"
proof (rule nth_equalityI)
  note facts = map_result_Inr [OF assms]
  then show "length roots = length (map (root_of allocs) [0 ..< length allocs])" by simp
  fix k assume "k < length roots"
  then have "k < length allocs" "chain_root allocs [] k = Inr (roots ! k)" using facts by auto
  then show "roots ! k = map (root_of allocs) [0 ..< length allocs] ! k"
    using chain_root_walk by (simp add: root_of_def)
qed

definition of_root :: "nat \<Rightarrow> (nat \<times> 'a) list \<Rightarrow> 'a set" where
  "of_root r xs = {w. (r, w) \<in> set xs}"

lemma of_root_snoc: "of_root r (xs @ [(b, w)]) = (if b = r then insert w (of_root r xs) else of_root r xs)"
  by (auto simp: of_root_def)

lemma finite_of_root [simp]: "finite (of_root r xs)"
proof (rule finite_subset)
  show "of_root r xs \<subseteq> snd ` set xs" by (force simp: of_root_def)
qed simp

lemma of_root_empty: "of_root r xs = {} \<longleftrightarrow> r \<notin> fst ` set xs"
  by (force simp: of_root_def)

definition covers :: "live_window set \<Rightarrow> live_window option \<Rightarrow> bool" where
  "covers ws g = (case g of
     None \<Rightarrow> ws = {}
   | Some w \<Rightarrow> ws \<noteq> {} \<and> lw_start w = Min (lw_start ` ws) \<and> lw_end w = Max (lw_end ` ws) \<and>
       residency w = Max (residency ` ws))"

lemma covers_merge:
  assumes "covers ws (Some g)" "finite ws"
  shows "covers (insert w ws) (Some (merge_window g w))"
  using assms by (simp add: covers_def merge_window_def min.commute max.commute)

lemma groups_facts:
  "smap_ok (fold add_to_group xs []) \<and> covers (of_root r xs) (map_of (fold add_to_group xs []) r)"
proof (induction xs rule: rev_induct)
  case Nil
  then show ?case by (simp add: of_root_def covers_def)
next
  case (snoc x xs)
  obtain b w where x: "x = (b, w)" by (cases x)
  let ?G = "fold add_to_group xs []"
  have ok: "smap_ok ?G" and cov: "covers (of_root r xs) (map_of ?G r)" using snoc by auto
  have step: "fold add_to_group (xs @ [x]) [] = add_to_group (b, w) ?G" by (simp add: x)
  have "smap_ok (add_to_group (b, w) ?G)"
    using ok by (auto simp: add_to_group_def smap_ok_insert smap_ok_assign split: option.splits)
  moreover have "covers (of_root r (xs @ [(b, w)])) (map_of (add_to_group (b, w) ?G) r)"
  proof (cases "b = r")
    case False
    then have "map_of (add_to_group (b, w) ?G) r = map_of ?G r"
      using ok by (auto simp: add_to_group_def map_of_smap_insert map_of_smap_assign split: option.splits)
    then show ?thesis using cov False by (simp add: of_root_snoc)
  next
    case True
    show ?thesis
    proof (cases "map_of ?G r")
      case None
      then have "map_of (add_to_group (b, w) ?G) r = Some w" "of_root r xs = {}"
        using ok True cov by (auto simp: add_to_group_def map_of_smap_insert covers_def)
      then show ?thesis using True by (simp add: of_root_snoc covers_def)
    next
      case (Some g)
      then have "map_of (add_to_group (b, w) ?G) r = Some (merge_window g w)"
        using ok True by (simp add: add_to_group_def map_of_smap_assign)
      then show ?thesis using True cov Some by (simp add: of_root_snoc covers_merge)
    qed
  qed
  ultimately show ?case unfolding step unfolding x by blast
qed

section \<open>The peak from the uses\<close>

text \<open>The members of a root, and the window and versions they need together.\<close>

definition member_set :: "storage_allocation list \<Rightarrow> nat \<Rightarrow> nat set" where
  "member_set allocs r = set (members_of allocs r)"

definition root_start :: "storage_allocation list \<Rightarrow> plan_cost_event list \<Rightarrow> scheduled_event list \<Rightarrow> nat \<Rightarrow> nat" where
  "root_start allocs evs ps r = Min ((\<lambda>i. span_start (use_spans allocs evs ps i)) ` member_set allocs r)"

definition root_end :: "storage_allocation list \<Rightarrow> plan_cost_event list \<Rightarrow> scheduled_event list \<Rightarrow> nat \<Rightarrow> nat" where
  "root_end allocs evs ps r = Max ((\<lambda>i. span_end (use_spans allocs evs ps i)) ` member_set allocs r)"

definition root_versions :: "storage_allocation list \<Rightarrow> plan_cost_event list \<Rightarrow> nat \<Rightarrow> nat" where
  "root_versions allocs evs r = Max ((\<lambda>i. versions allocs evs i) ` member_set allocs r)"

text \<open>The bytes a memory holds at one time: each root that is live then, once, with all its versions.\<close>

definition held_at ::
  "storage_allocation list \<Rightarrow> plan_cost_event list \<Rightarrow> scheduled_event list \<Rightarrow> string \<Rightarrow> nat \<Rightarrow> nat" where
  "held_at allocs evs ps m t = (\<Sum>r \<in> root_of allocs ` {..< length allocs}.
     if memory (allocs ! r) = m \<and> root_start allocs evs ps r \<le> t \<and> t < root_end allocs evs ps r
     then alloc_bytes (allocs ! r) * root_versions allocs evs r else 0)"

lemma of_root_windows:
  assumes "length windows = length allocs"
  shows "of_root r (zip (map (root_of allocs) [0 ..< length allocs]) windows) = (\<lambda>i. windows ! i) ` member_set allocs r"
proof -
  have "w \<in> of_root r (zip (map (root_of allocs) [0 ..< length allocs]) windows) \<longleftrightarrow>
      (\<exists>i < length allocs. root_of allocs i = r \<and> w = windows ! i)" (is "?l \<longleftrightarrow> ?r") for w
  proof
    assume ?l then show ?r using assms by (auto simp: of_root_def in_set_zip)
  next
    assume ?r
    then obtain i where i: "i < length allocs" "root_of allocs i = r" "w = windows ! i" by auto
    then show ?l using assms unfolding of_root_def in_set_zip mem_Collect_eq by (intro exI [of _ i]) simp
  qed
  then show ?thesis by (auto simp: member_set_def members_of_def)
qed

lemma live_total_sum:
  assumes "smap_ok groups"
  shows "live_total allocs groups t m = (\<Sum>r \<in> fst ` set groups.
     let w = the (map_of groups r) in
     if lw_start w \<le> t \<and> t < lw_end w \<and> memory (allocs ! r) = m then alloc_bytes (allocs ! r) * residency w else 0)"
proof -
  let ?f = "\<lambda>(r, w). if lw_start w \<le> t \<and> t < lw_end w \<and> memory (allocs ! r) = m then alloc_bytes (allocs ! r) * residency w else 0"
  have keys: "distinct (map fst groups)" using smap_ok_distinct [OF assms] .
  have "live_total allocs groups t m = sum ?f (set groups)"
    unfolding live_total_def using keys by (intro sum_list_distinct_conv_sum_set) (simp add: distinct_map)
  also have "\<dots> = sum ((\<lambda>r. ?f (r, the (map_of groups r))) \<circ> fst) (set groups)"
    using keys by (intro sum.cong) auto
  also have "\<dots> = (\<Sum>r \<in> fst ` set groups. ?f (r, the (map_of groups r)))"
    using keys by (intro sum.reindex [symmetric]) (simp add: distinct_map)
  finally show ?thesis by (simp add: Let_def)
qed

lemma analyzed_total:
  assumes windows: "event_windows allocs 0 evs ps (replicate (length allocs) new_window) = Inr ws"
      "close_windows allocs ws = Inr windows" "length ps = length evs"
    and roots: "map_result (chain_root allocs []) [0 ..< length allocs] = Inr roots"
  shows "live_total allocs (window_groups roots windows) t m = held_at allocs evs ps m t"
proof -
  let ?xs = "zip (map (root_of allocs) [0 ..< length allocs]) windows"
  have G: "window_groups roots windows = fold add_to_group ?xs []"
    unfolding window_groups_def analyzed_roots [OF roots] ..
  have len: "length windows = length allocs"
    using event_windows_Inr [OF windows(1) _ windows(3)] close_windows_Inr [OF windows(2)] by simp
  have image: "f ` of_root r ?xs = g ` member_set allocs r"
    if "\<And>i. i < length allocs \<Longrightarrow> f (windows ! i) = g i" for f :: "live_window \<Rightarrow> nat" and g r
    unfolding of_root_windows [OF len] image_image
    by (rule image_cong) (use that in \<open>auto simp: member_set_def members_of_def\<close>)
  note win = analyzed_window [OF windows]
  have keys: "fst ` set (window_groups roots windows) = root_of allocs ` {..< length allocs}"
  proof -
    have "r \<in> fst ` set (window_groups roots windows) \<longleftrightarrow> of_root r ?xs \<noteq> {}" for r
      using groups_facts [of ?xs r] map_of_eq_None_iff [of "fold add_to_group ?xs []" r] unfolding G
      by (auto simp: covers_def split: option.splits)
    moreover have "fst ` set ?xs = root_of allocs ` {..< length allocs}"
      using len by (force simp: set_zip)
    ultimately show ?thesis unfolding of_root_empty by auto
  qed
  have group: "lw_start (the (map_of (window_groups roots windows) r)) = root_start allocs evs ps r \<and>
      lw_end (the (map_of (window_groups roots windows) r)) = root_end allocs evs ps r \<and>
      residency (the (map_of (window_groups roots windows) r)) = root_versions allocs evs r"
    if "r \<in> root_of allocs ` {..< length allocs}" for r
  proof -
    have "r \<in> fst ` set (window_groups roots windows)" unfolding keys by (rule that)
    then have "map_of (window_groups roots windows) r \<noteq> None" unfolding map_of_eq_None_iff by simp
    then obtain g where g: "map_of (window_groups roots windows) r = Some g" by blast
    have "covers (of_root r ?xs) (map_of (window_groups roots windows) r)"
      unfolding G by (rule conjunct2 [OF groups_facts])
    then have "covers (of_root r ?xs) (Some g)" unfolding g .
    then have "lw_start g = Min (lw_start ` of_root r ?xs)" "lw_end g = Max (lw_end ` of_root r ?xs)"
      "residency g = Max (residency ` of_root r ?xs)" by (simp_all add: covers_def)
    moreover have "lw_start ` of_root r ?xs = (\<lambda>i. span_start (use_spans allocs evs ps i)) ` member_set allocs r"
      by (rule image) (rule win(3))
    moreover have "lw_end ` of_root r ?xs = (\<lambda>i. span_end (use_spans allocs evs ps i)) ` member_set allocs r"
      by (rule image) (rule win(4))
    moreover have "residency ` of_root r ?xs = (\<lambda>i. versions allocs evs i) ` member_set allocs r"
      by (rule image) (rule win(5))
    ultimately show ?thesis
      unfolding root_start_def root_end_def root_versions_def g option.sel by (simp only: simp_thms)
  qed
  have "smap_ok (window_groups roots windows)" using groups_facts [of ?xs] unfolding G by blast
  from live_total_sum [OF this] show ?thesis
    unfolding held_at_def keys by (auto simp: group Let_def intro!: sum.cong)
qed

text \<open>Two values of one memory: the second reuses the storage of the first and is read in two versions at once.\<close>

definition tiny_allocations :: "storage_allocation list" where
  "tiny_allocations =
     [\<lparr>alloc_id = 7, alloc_value = 1, memory = ''l1'', alloc_bytes = 4, aliasOf = None, beginStep = 0, endStep = 1,
       borrowed = False, simultaneousOccurrences = 1\<rparr>,
      \<lparr>alloc_id = 9, alloc_value = 2, memory = ''l1'', alloc_bytes = 4, aliasOf = Some 7, beginStep = 1, endStep = 2,
       borrowed = False, simultaneousOccurrences = 2\<rparr>]"

definition tiny_events :: "plan_cost_event list" where
  "tiny_events =
     [(sample_event ComputeEvent ''u'' 2 [])\<lparr>event_cost := zero_cost, storageUses := [\<lparr>allocationId = 7, occurrence = 0, access = WriteAccess\<rparr>]\<rparr>,
      (sample_event ComputeEvent ''u'' 3 [0])\<lparr>event_cost := zero_cost, storageUses := [\<lparr>allocationId = 7, occurrence = 0, access = ReadAccess\<rparr>,
        \<lparr>allocationId = 9, occurrence = 0, access = WriteAccess\<rparr>, \<lparr>allocationId = 9, occurrence = 1, access = WriteAccess\<rparr>]\<rparr>]"

definition tiny_schedule :: event_schedule where
  "tiny_schedule = \<lparr>predictedCycles = 5, criticalId = 1, sequentialCycles = 5,
     entries = [\<lparr>sched_id = 0, sched_start = 0, sched_finish = 2\<rparr>, \<lparr>sched_id = 1, sched_start = 2, sched_finish = 5\<rparr>]\<rparr>"

lemma tiny_analyzed:
  "analyzeStorageLiveness tiny_allocations tiny_events tiny_schedule =
     Inr \<lparr>peakBytes = [(''l1'', 8)], requiredReuseEdges = [\<lparr>pse_from = 1, pse_to = 1\<rparr>]\<rparr>"
proof -
  have windows: "event_windows tiny_allocations 0 tiny_events (entries tiny_schedule)
      (replicate (length tiny_allocations) new_window) =
    bindR (touch_uses tiny_allocations 0 (entries tiny_schedule ! 0) (storageUses (tiny_events ! 0)) []
        (replicate (length tiny_allocations) new_window))
      (\<lambda>(occs, ws). bindR (touch_uses tiny_allocations 1 (entries tiny_schedule ! 1) (storageUses (tiny_events ! 1)) []
        (raise_residency occs ws)) (\<lambda>(occs, ws). Inr (raise_residency occs ws)))"
    by (simp add: tiny_events_def tiny_schedule_def)
  have uses: "storageUses (tiny_events ! 0) = [\<lparr>allocationId = 7, occurrence = 0, access = WriteAccess\<rparr>]"
    "storageUses (tiny_events ! 1) = [\<lparr>allocationId = 7, occurrence = 0, access = ReadAccess\<rparr>,
      \<lparr>allocationId = 9, occurrence = 0, access = WriteAccess\<rparr>, \<lparr>allocationId = 9, occurrence = 1, access = WriteAccess\<rparr>]"
    by (simp_all add: tiny_events_def)
  have covered: "length (entries tiny_schedule) = length tiny_events" by (simp add: tiny_events_def tiny_schedule_def)
  let ?w0 = "\<lparr>lw_start = 0, lw_end = 5, residency = 1, readStart = 0, writeStart = 0, written = True, touched = True\<rparr>"
  let ?w1 = "\<lparr>lw_start = 2, lw_end = 5, residency = 2, readStart = 2, writeStart = 2, written = True, touched = True\<rparr>"
  have ws: "event_windows tiny_allocations 0 tiny_events (entries tiny_schedule)
      (replicate (length tiny_allocations) new_window) = Inr [?w0, ?w1]"
    unfolding windows uses by code_simp
  have closed: "close_windows tiny_allocations [?w0, ?w1] = Inr [?w0, ?w1]" by code_simp
  have roots: "map_result (chain_root tiny_allocations []) [0 ..< length tiny_allocations] = Inr [0, 0]" by code_simp
  let ?g = "[(0 :: nat, ?w0\<lparr>residency := 2\<rparr>)]"
  have groups: "window_groups [0, 0] [?w0, ?w1] = ?g" by code_simp
  have times: "candidate_times ?g = [0]" by code_simp
  have edges: "requiredReuseEdgesFor tiny_allocations = [\<lparr>pse_from = 1, pse_to = 1\<rparr>]" by code_simp
  have fresh: "first_duplicate [] (map alloc_id tiny_allocations) = None" by code_simp
  have peaks: "peaks_over tiny_allocations ?g [0] [] = Inr [(''l1'', 8)]"
    by (simp add: tiny_allocations_def held_in_def uint64_max_def raise_peaks_def)
  show ?thesis
    by (simp only: analyzeStorageLiveness_def covered fresh ws closed roots groups times peaks edges Let_def
      bindR.simps option.case simp_thms if_False not_True_eq_False)
qed

text \<open>C27: The peak that analyzeStorageLiveness reports for a memory is the maximum over all times of the bytes its
  live storage holds: each root of reused storage once, from the first start to the last completion of the uses
  of its members, with as many versions as the stream runs over at once.\<close>

theorem storage_peak_exact:
  assumes "analyzeStorageLiveness allocs events schedule = Inr res"
  shows "(\<forall>t. held_at allocs events (entries schedule) m t \<le> held_in (peakBytes res) m) \<and>
    (\<exists>t. held_at allocs events (entries schedule) m t = held_in (peakBytes res) m)"
proof -
  obtain ws windows roots peaks where len: "length (entries schedule) = length events"
    and windows: "event_windows allocs 0 events (entries schedule) (replicate (length allocs) new_window) = Inr ws"
      "close_windows allocs ws = Inr windows"
    and roots: "map_result (chain_root allocs []) [0 ..< length allocs] = Inr roots"
    and peaks: "peaks_over allocs (window_groups roots windows) (candidate_times (window_groups roots windows)) [] = Inr peaks"
    and res: "peakBytes res = peaks"
    using assms by (auto simp: analyzeStorageLiveness_def Let_def split: if_splits option.splits)
  note total = analyzed_total [OF windows len roots]
  show ?thesis
    using peak_is_maximum [OF peaks, where m = m] unfolding total res by blast
qed

theorem storage_peak_exact_witness:
  "held_at tiny_allocations tiny_events (entries tiny_schedule) ''l1'' 3 \<le> 8 \<and>
   (\<exists>t. held_at tiny_allocations tiny_events (entries tiny_schedule) ''l1'' t = 8)"
proof -
  have "held_in [(''l1'', 8)] ''l1'' = 8" by (simp add: held_in_def)
  then show ?thesis using storage_peak_exact [OF tiny_analyzed, of "''l1''"] by simp
qed

section \<open>What the reuse edges are for\<close>

lemma chained:
  assumes "\<And>k. Suc k < length ms \<Longrightarrow> P (ms ! k) (ms ! Suc k)"
    and "\<And>a b c. \<lbrakk>b \<in> set ms; P a b; P b c\<rbrakk> \<Longrightarrow> P a c"
    and "k < l" "l < length ms"
  shows "P (ms ! k) (ms ! l)"
  using assms(3,4)
proof (induction l)
  case (Suc l)
  show ?case
  proof (cases "k = l")
    case True
    with Suc assms(1) show ?thesis by simp
  next
    case False
    with Suc have "P (ms ! k) (ms ! l)" by simp
    then show ?thesis using assms(1) [of l] assms(2) [of "ms ! l" "ms ! k" "ms ! Suc l"] Suc.prems by simp
  qed
qed simp

lemma occupant_edge:
  assumes "2 \<le> length ms" "Suc k < length ms"
  shows "\<lparr>pse_from = endStep (allocs ! (step_order allocs ms ! k)),
    pse_to = beginStep (allocs ! (step_order allocs ms ! Suc k))\<rparr> \<in> set (occupant_edges allocs ms)"
proof -
  let ?ms = "step_order allocs ms"
  have len: "length ?ms = length ms" by (simp add: step_order_def)
  then have k: "k < length (zip ?ms (tl ?ms))" using assms by simp
  then have "zip ?ms (tl ?ms) ! k = (?ms ! k, ?ms ! Suc k)" by (simp add: nth_tl)
  then have "(?ms ! k, ?ms ! Suc k) \<in> set (zip ?ms (tl ?ms))" using nth_mem [OF k] by simp
  then show ?thesis using assms(1) unfolding occupant_edges_def by (force simp: Let_def)
qed

lemma required_edges_set:
  "set (requiredReuseEdgesFor allocs) = (\<Union>r < length allocs. set (occupant_edges allocs (members_of allocs r)))"
  by (auto simp: requiredReuseEdgesFor_def)

lemma index_walk: "i < length allocs \<Longrightarrow> root_walk allocs seen i < length allocs"
proof (induction allocs seen i rule: root_walk.induct)
  case (1 allocs seen i)
  then show ?case
    by (subst root_walk.simps) (auto split: option.splits dest: index_by_id_range)
qed

text \<open>C25: The edges that requiredReuseEdgesFor reports make reuse sound. In any order of the steps that is transitive,
  runs every allocation from its begin to its end and respects the reported edges, two allocations that share a
  root never overlap: one has ended before the other begins.\<close>

theorem reuse_edges_sound:
  assumes "transp before" and "\<forall>a \<in> set allocs. before (beginStep a) (endStep a)"
    and "\<forall>e \<in> set (requiredReuseEdgesFor allocs). before (pse_from e) (pse_to e)"
    and "i < length allocs" "j < length allocs" "i \<noteq> j" "root_of allocs i = root_of allocs j"
  shows "before (endStep (allocs ! i)) (beginStep (allocs ! j)) \<or> before (endStep (allocs ! j)) (beginStep (allocs ! i))"
proof -
  let ?ms = "step_order allocs (members_of allocs (root_of allocs i))"
  let ?P = "\<lambda>a b. before (endStep (allocs ! a)) (beginStep (allocs ! b))"
  have set: "set ?ms = set (members_of allocs (root_of allocs i))" by (simp add: step_order_def)
  have root: "root_of allocs i < length allocs" using assms(4) by (simp add: root_of_def index_walk)
  have in_range: "b < length allocs" if "b \<in> set ?ms" for b using that unfolding set by (simp add: members_of_def)
  have "i \<in> set ?ms" "j \<in> set ?ms" using assms(4-7) unfolding set by (simp_all add: members_of_def)
  then obtain k l where k: "k < length ?ms" "?ms ! k = i" and l: "l < length ?ms" "?ms ! l = j"
    unfolding in_set_conv_nth by blast
  with assms(6) have kl: "k \<noteq> l" by auto
  have step: "?P (?ms ! n) (?ms ! Suc n)" if "Suc n < length ?ms" for n
  proof -
    have "\<lparr>pse_from = endStep (allocs ! (?ms ! n)), pse_to = beginStep (allocs ! (?ms ! Suc n))\<rparr>
        \<in> set (requiredReuseEdgesFor allocs)"
      using occupant_edge [of "members_of allocs (root_of allocs i)" n allocs] that root
      unfolding required_edges_set by (auto simp: step_order_def)
    with assms(3) show ?thesis by force
  qed
  have trans: "?P a c" if "b \<in> set ?ms" "?P a b" "?P b c" for a b c
  proof -
    have "before (beginStep (allocs ! b)) (endStep (allocs ! b))" using assms(2) in_range [OF that(1)] by simp
    with that(2,3) assms(1) show ?thesis by (meson transpE)
  qed
  from kl consider "k < l" | "l < k" by linarith
  then show ?thesis
  proof cases
    case 1
    have "?P (?ms ! k) (?ms ! l)"
      by (rule chained [of ?ms ?P, OF _ _ 1 l(1)]) (erule step, erule (2) trans)
    then show ?thesis unfolding k(2) l(2) ..
  next
    case 2
    have "?P (?ms ! l) (?ms ! k)"
      by (rule chained [of ?ms ?P, OF _ _ 2 k(1)]) (erule step, erule (2) trans)
    then show ?thesis unfolding k(2) l(2) ..
  qed
qed

theorem reuse_edges_sound_witness:
  "endStep (tiny_allocations ! 0) \<le> beginStep (tiny_allocations ! 1) \<or>
   endStep (tiny_allocations ! 1) \<le> beginStep (tiny_allocations ! 0)"
proof -
  have "transp ((\<le>) :: nat \<Rightarrow> nat \<Rightarrow> bool)" by (rule transpI) simp
  moreover have "\<forall>a \<in> set tiny_allocations. beginStep a \<le> endStep a" by (simp add: tiny_allocations_def)
  moreover have "requiredReuseEdgesFor tiny_allocations = [\<lparr>pse_from = 1, pse_to = 1\<rparr>]" by code_simp
  then have "\<forall>e \<in> set (requiredReuseEdgesFor tiny_allocations). pse_from e \<le> pse_to e" by simp
  moreover have "0 < length tiny_allocations" "1 < length tiny_allocations" by (simp_all add: tiny_allocations_def)
  moreover have "root_of tiny_allocations 0 = root_of tiny_allocations 1" by code_simp
  ultimately show ?thesis by (intro reuse_edges_sound) simp_all
qed

end
