(* ===== verification/WorkloadGraph.thy ===== *)
theory WorkloadGraph
  imports Prelude
begin

text \<open>
  The workload graph: \<^verbatim>\<open>include/LLK/Mapping/WorkloadGraph.h\<close> and its construction and canonicalization in
  \<^verbatim>\<open>lib/Mapping/WorkloadGraph.cpp\<close>. Types, attributes and access maps belong to MLIR; the code here reads them
  by their printed form only, so that is what the model keeps. The lemmas show that canonicalization does not
  depend on the order in which a graph was built.
\<close>

section \<open>Data\<close>

record workload_value =
  wv_id :: nat
  wv_type :: string
  wv_name :: string
  wv_external :: bool
  loopCarried :: bool
  carriedFrom :: "nat option"
  memoryKind :: "string option"

record workload_port =
  wp_value :: nat
  wp_type :: string
  accessMap :: "string option"

datatype port_side = InputPort | OutputPort

record port_ref =
  ref_node :: nat
  ref_direction :: port_side
  ref_index :: nat

record workload_node =
  wn_id :: nat
  wn_op :: string
  wn_inputs :: "workload_port list"
  wn_outputs :: "workload_port list"
  wn_attributes :: "string option"
  sourceOrdinal :: nat
  executionMultiplicity :: "nat option"
  simultaneousMultiplicity :: "nat option"

record workload_graph =
  wg_nodes :: "workload_node list"
  wg_values :: "workload_value list"

section \<open>Construction and lookup\<close>

definition addValue :: "workload_value \<Rightarrow> workload_graph \<Rightarrow> nat \<times> workload_graph" where
  "addValue v g =
     (let i = length (wg_values g) in (i, g\<lparr>wg_values := wg_values g @ [v\<lparr>wv_id := i\<rparr>]\<rparr>))"

definition addNode :: "workload_node \<Rightarrow> workload_graph \<Rightarrow> workload_graph" where
  "addNode n g = g\<lparr>wg_nodes := wg_nodes g @ [n]\<rparr>"

definition findNode :: "workload_graph \<Rightarrow> nat \<Rightarrow> workload_node option" where
  "findNode g i = (if i \<ge> length (wg_nodes g) then None else Some (wg_nodes g ! i))"

definition findValue :: "workload_graph \<Rightarrow> nat \<Rightarrow> workload_value option" where
  "findValue g i = (if i \<ge> length (wg_values g) then None else Some (wg_values g ! i))"

definition markLoopCarried :: "nat \<Rightarrow> nat option \<Rightarrow> workload_graph \<Rightarrow> workload_graph" where
  "markLoopCarried i from_value g =
     (if i \<ge> length (wg_values g) then g
      else g\<lparr>wg_values := (wg_values g)[i := (wg_values g ! i)\<lparr>loopCarried := True, carriedFrom := from_value\<rparr>]\<rparr>)"

definition lookupPort :: "workload_graph \<Rightarrow> port_ref \<Rightarrow> workload_port option" where
  "lookupPort g r =
     (case findNode g (ref_node r) of
        None \<Rightarrow> None
      | Some n \<Rightarrow>
          (case ref_direction r of
             InputPort \<Rightarrow> if ref_index r \<ge> length (wn_inputs n) then None else Some (wn_inputs n ! ref_index r)
           | OutputPort \<Rightarrow> if ref_index r \<ge> length (wn_outputs n) then None else Some (wn_outputs n ! ref_index r)))"

definition canonicalPortRefString :: "port_ref \<Rightarrow> string" where
  "canonicalPortRefString r = ''node='' @ nat_to_string (ref_node r) @
     (if ref_direction r = InputPort then '',input='' else '',output='') @ nat_to_string (ref_index r)"

section \<open>Canonicalization\<close>

definition nodeContentKey :: "workload_node \<Rightarrow> string" where
  "nodeContentKey n = wn_op n @ ''|in:'' @ concat (map (\<lambda>p. wp_type p @ '','') (wn_inputs n)) @
     ''|out:'' @ concat (map (\<lambda>p. wp_type p @ '','') (wn_outputs n)) @
     ''|attr:'' @ (case wn_attributes n of None \<Rightarrow> [] | Some a \<Rightarrow> a) @
     ''|ordinal:'' @ nat_to_string (sourceOrdinal n)"

text \<open>The node and result index that produce each value; a later output overwrites an earlier one.\<close>

definition producers :: "workload_graph \<Rightarrow> (nat \<times> nat \<times> nat) list" where
  "producers g = concat (map (\<lambda>(k, n). map (\<lambda>(r, p). (wp_value p, k, r)) (enumerate 0 (wn_outputs n)))
     (enumerate 0 (wg_nodes g)))"

definition producer_of :: "workload_graph \<Rightarrow> nat \<Rightarrow> (nat \<times> nat) option" where
  "producer_of g v = map_of (rev (producers g)) v"

definition value_key :: "workload_graph \<Rightarrow> nat \<Rightarrow> string" where
  "value_key g i =
     (case (wv_external (wg_values g ! i), producer_of g i) of
        (False, Some (k, r)) \<Rightarrow> ''def:'' @ nodeContentKey (wg_nodes g ! k) @ ''#'' @ nat_to_string r
      | _ \<Rightarrow> ''ext:'' @ wv_name (wg_values g ! i))"

definition value_order :: "workload_graph \<Rightarrow> nat list" where
  "value_order g = sort_key (value_key g) [0 ..< length (wg_values g)]"

definition node_order :: "workload_graph \<Rightarrow> nat list" where
  "node_order g = sort_key (\<lambda>k. nodeContentKey (wg_nodes g ! k)) [0 ..< length (wg_nodes g)]"

definition invert_order :: "nat list \<Rightarrow> nat list" where
  "invert_order order =
     fold (\<lambda>(new_id, old) remap. remap[old := new_id]) (enumerate 0 order) (replicate (length order) 0)"

definition renumber_value :: "nat list \<Rightarrow> nat \<Rightarrow> workload_value \<Rightarrow> workload_value" where
  "renumber_value remap new_id v = v\<lparr>wv_id := new_id,
     carriedFrom := (case carriedFrom v of
        None \<Rightarrow> None
      | Some f \<Rightarrow> if f < length remap then Some (remap ! f) else None)\<rparr>"

definition renumber_port :: "nat list \<Rightarrow> workload_port \<Rightarrow> workload_port" where
  "renumber_port remap p = p\<lparr>wp_value := remap ! wp_value p\<rparr>"

definition renumber_node :: "nat list \<Rightarrow> nat \<Rightarrow> workload_node \<Rightarrow> workload_node" where
  "renumber_node remap new_id n = n\<lparr>wn_id := new_id, wn_inputs := map (renumber_port remap) (wn_inputs n),
     wn_outputs := map (renumber_port remap) (wn_outputs n)\<rparr>"

text \<open>The graph with its canonical ids, and the final id of every temporary one.\<close>

definition finalize :: "workload_graph \<Rightarrow> workload_graph \<times> nat list" where
  "finalize g =
     (let remap = invert_order (value_order g) in
      (\<lparr>wg_nodes = map (\<lambda>(new_id, k). renumber_node remap new_id (wg_nodes g ! k)) (enumerate 0 (node_order g)),
        wg_values = map (\<lambda>(new_id, i). renumber_value remap new_id (wg_values g ! i)) (enumerate 0 (value_order g))\<rparr>,
       remap))"

section \<open>Canonical text\<close>

definition value_line :: "workload_value \<Rightarrow> string" where
  "value_line v = ''value '' @ nat_to_string (wv_id v) @ (if wv_external v then '' external '' else '' internal '') @
     wv_type v @ (case memoryKind v of None \<Rightarrow> [] | Some m \<Rightarrow> '' memory='' @ m) @ '' name='' @ wv_name v @ [char_of (10 :: nat)]"

definition port_list :: "workload_port list \<Rightarrow> string" where
  "port_list ps = concat (map (\<lambda>p. nat_to_string (wp_value p) @ '','') ps)"

definition node_line :: "workload_node \<Rightarrow> string" where
  "node_line n = ''node '' @ nat_to_string (wn_id n) @ '' '' @ wn_op n @ '' in=['' @ port_list (wn_inputs n) @
     ''] out=['' @ port_list (wn_outputs n) @ '']'' @
     (case wn_attributes n of None \<Rightarrow> [] | Some a \<Rightarrow> '' attrs='' @ a) @ [char_of (10 :: nat)]"

definition canonicalString :: "workload_graph \<Rightarrow> string" where
  "canonicalString g = concat (map value_line (wg_values g)) @ concat (map node_line (wg_nodes g))"

section \<open>The inverse of an order\<close>

lemma length_fold_update: "length (fold (\<lambda>(k, j) r. r[j := k]) ps r) = length r"
  by (induction ps arbitrary: r) (auto split: prod.splits)

lemma fold_update_other: "j \<notin> snd ` set ps \<Longrightarrow> fold (\<lambda>(k, j) r. r[j := k]) ps r ! j = r ! j"
  by (induction ps arbitrary: r) (auto split: prod.splits)

lemma fold_update_hit:
  assumes "distinct (map snd ps)" "(k, j) \<in> set ps" "j < length r"
  shows "fold (\<lambda>(k, j) r. r[j := k]) ps r ! j = k"
  using assms
proof (induction ps arbitrary: r)
  case (Cons p ps)
  obtain k' j' where p: "p = (k', j')" by (cases p)
  show ?case
  proof (cases "p = (k, j)")
    case True
    with Cons.prems show ?thesis by (simp add: fold_update_other image_iff)
  next
    case False
    with Cons.prems p have "j \<noteq> j'" by (force simp: image_iff)
    then show ?thesis using Cons False p by simp
  qed
qed simp

lemma invert_order_nth:
  assumes "distinct order" "set order = {..< length order}" "k < length order"
  shows "invert_order order ! (order ! k) = k"
  unfolding invert_order_def
proof (rule fold_update_hit)
  show "distinct (map snd (enumerate 0 order))" using assms(1) by simp
  show "(k, order ! k) \<in> set (enumerate 0 order)" using assms(3) by (auto simp: in_set_enumerate_eq)
  show "order ! k < length (replicate (length order) 0)" using assms(2,3) nth_mem [OF assms(3)] by auto
qed

lemma length_invert_order [simp]: "length (invert_order order) = length order"
  by (simp add: invert_order_def length_fold_update)

lemma value_order_facts [simp]:
  "distinct (value_order g)" "set (value_order g) = {..< length (wg_values g)}"
  "length (value_order g) = length (wg_values g)"
  by (auto simp: value_order_def)

lemma node_order_facts [simp]:
  "distinct (node_order g)" "set (node_order g) = {..< length (wg_nodes g)}"
  "length (node_order g) = length (wg_nodes g)"
  by (auto simp: node_order_def)

section \<open>The same graph, built in another order\<close>

text \<open>\<open>built_again pi sigma g g'\<close>: the graph \<open>g'\<close> has the values and nodes of \<open>g\<close>, added in another order; value \<open>i\<close> of
  \<open>g\<close> is value \<open>pi i\<close> of \<open>g'\<close>, node \<open>k\<close> is node \<open>sigma k\<close>, and references to values are renamed with them.\<close>

definition rename_value :: "(nat \<Rightarrow> nat) \<Rightarrow> workload_value \<Rightarrow> workload_value" where
  "rename_value pi v = v\<lparr>wv_id := pi (wv_id v), carriedFrom := map_option pi (carriedFrom v)\<rparr>"

definition rename_port :: "(nat \<Rightarrow> nat) \<Rightarrow> workload_port \<Rightarrow> workload_port" where
  "rename_port pi p = p\<lparr>wp_value := pi (wp_value p)\<rparr>"

definition rename_node :: "(nat \<Rightarrow> nat) \<Rightarrow> workload_node \<Rightarrow> workload_node" where
  "rename_node pi n = n\<lparr>wn_inputs := map (rename_port pi) (wn_inputs n), wn_outputs := map (rename_port pi) (wn_outputs n)\<rparr>"

definition built_again :: "(nat \<Rightarrow> nat) \<Rightarrow> (nat \<Rightarrow> nat) \<Rightarrow> workload_graph \<Rightarrow> workload_graph \<Rightarrow> bool" where
  "built_again pi sigma g g' \<longleftrightarrow>
     length (wg_values g') = length (wg_values g) \<and> length (wg_nodes g') = length (wg_nodes g) \<and>
     bij_betw pi {..< length (wg_values g)} {..< length (wg_values g)} \<and>
     bij_betw sigma {..< length (wg_nodes g)} {..< length (wg_nodes g)} \<and>
     (\<forall>i < length (wg_values g). wg_values g' ! pi i = rename_value pi (wg_values g ! i)) \<and>
     (\<forall>k < length (wg_nodes g). wg_nodes g' ! sigma k = rename_node pi (wg_nodes g ! k))"

text \<open>References stay inside the graph, and each value is the result of one output at most.\<close>

definition closed_graph :: "workload_graph \<Rightarrow> bool" where
  "closed_graph g \<longleftrightarrow>
     (\<forall>v \<in> set (wg_values g). \<forall>f. carriedFrom v = Some f \<longrightarrow> f < length (wg_values g)) \<and>
     (\<forall>n \<in> set (wg_nodes g). \<forall>p \<in> set (wn_inputs n) \<union> set (wn_outputs n). wp_value p < length (wg_values g))"

definition single_producers :: "workload_graph \<Rightarrow> bool" where
  "single_producers g \<longleftrightarrow> distinct (map fst (producers g))"

text \<open>The content decides the order: no two values and no two nodes have the same key.\<close>

definition keys_decide :: "workload_graph \<Rightarrow> bool" where
  "keys_decide g \<longleftrightarrow> distinct (map (value_key g) [0 ..< length (wg_values g)]) \<and> distinct (map nodeContentKey (wg_nodes g))"

lemma rename_node_key [simp]: "nodeContentKey (rename_node pi n) = nodeContentKey n"
  by (simp add: nodeContentKey_def rename_node_def rename_port_def o_def)

lemma producers_iff:
  "(v, k, r) \<in> set (producers g) \<longleftrightarrow>
     k < length (wg_nodes g) \<and> r < length (wn_outputs (wg_nodes g ! k)) \<and> wp_value (wn_outputs (wg_nodes g ! k) ! r) = v"
  (is "?l \<longleftrightarrow> ?r")
proof
  assume ?l then show ?r by (auto simp: producers_def in_set_enumerate_eq)
next
  assume r: ?r
  then have "(r, wn_outputs (wg_nodes g ! k) ! r) \<in> set (enumerate 0 (wn_outputs (wg_nodes g ! k)))"
    "(k, wg_nodes g ! k) \<in> set (enumerate 0 (wg_nodes g))" by (auto simp: in_set_enumerate_eq)
  with r show ?l unfolding producers_def by force
qed

lemma producer_of_iff:
  assumes "single_producers g"
  shows "producer_of g v = Some (k, r) \<longleftrightarrow> (v, k, r) \<in> set (producers g)"
proof -
  have "distinct (map fst (rev (producers g)))" using assms by (simp add: single_producers_def rev_map [symmetric])
  then show ?thesis unfolding producer_of_def by (simp add: map_of_eq_Some_iff)
qed

text \<open>An order by keys that are all different is determined by the keys.\<close>

lemma sorted_order_unique:
  fixes key :: "nat \<Rightarrow> 'k::linorder"
  assumes "inj_on key A" "distinct xs" "distinct ys" "set xs = A" "set ys = A"
    "sorted (map key xs)" "sorted (map key ys)"
  shows "xs = ys"
proof -
  have "map key xs = map key ys"
  proof (rule sorted_distinct_set_unique)
    show "sorted (map key xs)" "sorted (map key ys)" using assms by auto
    show "distinct (map key xs)" "distinct (map key ys)" using assms by (auto simp: distinct_map)
    show "set (map key xs) = set (map key ys)" using assms by simp
  qed
  then show ?thesis using assms by (metis map_inj_on sup.idem)
qed

lemma order_renamed:
  fixes key :: "nat \<Rightarrow> 'k::linorder"
  assumes bij: "bij_betw pi {..< n} {..< n}" and key: "\<And>i. i < n \<Longrightarrow> key' (pi i) = key i"
    and inj: "distinct (map key [0 ..< n])"
  shows "sort_key key' [0 ..< n] = map pi (sort_key key [0 ..< n])"
proof (rule sorted_order_unique [where A = "{..< n}"])
  have inj': "inj_on key {..< n}" using inj by (simp add: distinct_map atLeast0LessThan)
  show "inj_on key' {..< n}"
  proof (rule inj_onI)
    fix a b assume "a \<in> {..< n}" "b \<in> {..< n}" and eq: "key' a = key' b"
    then have "a \<in> pi ` {..< n}" "b \<in> pi ` {..< n}" unfolding bij_betw_imp_surj_on [OF bij] by auto
    then obtain i j where i: "i < n" "a = pi i" and j: "j < n" "b = pi j" by auto
    with eq key have "key i = key j" by simp
    with inj_onD [OF inj'] i j have "i = j" by simp
    with i j show "a = b" by simp
  qed
  show "distinct (sort_key key' [0 ..< n])" by simp
  show "distinct (map pi (sort_key key [0 ..< n]))" using bij by (simp add: distinct_map bij_betw_def atLeast0LessThan)
  show "set (sort_key key' [0 ..< n]) = {..< n}" by auto
  show "set (map pi (sort_key key [0 ..< n])) = {..< n}" using bij by (simp add: bij_betw_def atLeast0LessThan)
  show "sorted (map key' (sort_key key' [0 ..< n]))" by simp
  have "map key' (map pi (sort_key key [0 ..< n])) = map key (sort_key key [0 ..< n])" using key by simp
  then show "sorted (map key' (map pi (sort_key key [0 ..< n])))" by (simp only: sorted_sort_key)
qed

lemma invert_renamed:
  assumes bij: "bij_betw pi {..< length order} {..< length order}"
    and order: "distinct order" "set order = {..< length order}" and j: "j < length order"
  shows "invert_order (map pi order) ! pi j = invert_order order ! j"
proof -
  obtain k where k: "k < length order" "order ! k = j" using order j by (metis in_set_conv_nth lessThan_iff)
  have "invert_order (map pi order) ! (map pi order ! k) = k"
  proof (rule invert_order_nth)
    show "distinct (map pi order)" using order bij by (simp add: distinct_map bij_betw_def)
    show "set (map pi order) = {..< length (map pi order)}" using order bij by (simp add: bij_betw_def)
  qed (use k in simp)
  with k invert_order_nth [OF order k(1)] show ?thesis by simp
qed

lemma built_again_keys:
  assumes built: "built_again pi sigma g g'" and single: "single_producers g" "single_producers g'"
    and closed: "closed_graph g" and i: "i < length (wg_values g)"
  shows "value_key g' (pi i) = value_key g i"
proof -
  note b = built [unfolded built_again_def]
  have val: "wg_values g' ! pi i = rename_value pi (wg_values g ! i)" using b i by blast
  have moved: "(v, k, r) \<in> set (producers g) \<Longrightarrow> (pi v, sigma k, r) \<in> set (producers g')" for v k r
    unfolding producers_iff using b by (auto simp: bij_betw_def rename_node_def rename_port_def)
  have origin: "\<exists>k. (i, k, r) \<in> set (producers g)" if "(pi i, k', r) \<in> set (producers g')" for k' r
  proof -
    from that b have "k' \<in> sigma ` {..< length (wg_nodes g)}" by (simp add: producers_iff bij_betw_def)
    then obtain k where k: "k < length (wg_nodes g)" "k' = sigma k" by auto
    have node: "wg_nodes g' ! k' = rename_node pi (wg_nodes g ! k)" using b k by blast
    with that have r: "r < length (wn_outputs (wg_nodes g ! k))"
      and same: "pi (wp_value (wn_outputs (wg_nodes g ! k) ! r)) = pi i"
      by (auto simp: producers_iff rename_node_def rename_port_def)
    have "wp_value (wn_outputs (wg_nodes g ! k) ! r) < length (wg_values g)"
      using closed k r unfolding closed_graph_def by (meson UnI2 nth_mem)
    with same i b have "wp_value (wn_outputs (wg_nodes g ! k) ! r) = i"
      unfolding bij_betw_def inj_on_def by blast
    with k r show ?thesis unfolding producers_iff by blast
  qed
  show ?thesis
  proof (cases "producer_of g i")
    case None
    have "producer_of g' (pi i) = None"
    proof (rule ccontr)
      assume "producer_of g' (pi i) \<noteq> None"
      then obtain k' r where "(pi i, k', r) \<in> set (producers g')"
        using producer_of_iff [OF single(2)] by fastforce
      with origin obtain k where "(i, k, r) \<in> set (producers g)" by blast
      then have "producer_of g i = Some (k, r)" unfolding producer_of_iff [OF single(1)] .
      with None show False by simp
    qed
    with None val show ?thesis by (simp add: value_key_def rename_value_def split: bool.splits)
  next
    case (Some kr)
    obtain k r where kr: "kr = (k, r)" by (cases kr)
    with Some have p: "(i, k, r) \<in> set (producers g)" using producer_of_iff [OF single(1)] by simp
    with moved producer_of_iff [OF single(2)] have "producer_of g' (pi i) = Some (sigma k, r)" by simp
    moreover have "k < length (wg_nodes g)" using p by (simp add: producers_iff)
    then have "wg_nodes g' ! sigma k = rename_node pi (wg_nodes g ! k)" using b by blast
    ultimately show ?thesis using Some kr val by (simp add: value_key_def rename_value_def split: bool.splits)
  qed
qed

text \<open>C33: Canonicalization does not depend on the order of construction. A graph whose values and nodes were added in
  another order, with its references renamed accordingly, gets the same canonical ids, and so the same canonical text,
  provided its content keys tell its values and its nodes apart.\<close>

theorem finalize_order_independent:
  assumes "built_again pi sigma g g'" "closed_graph g" "single_producers g" "single_producers g'" "keys_decide g"
  shows "fst (finalize g') = fst (finalize g)"
proof -
  note b = assms(1) [unfolded built_again_def]
  have vals: "value_order g' = map pi (value_order g)"
    unfolding value_order_def using b assms(5)
    by (simp only: keys_decide_def, intro order_renamed)
      (auto intro: built_again_keys [OF assms(1,3,4,2)])
  have nodes: "node_order g' = map sigma (node_order g)"
  proof -
    have "nodeContentKey (wg_nodes g' ! sigma k) = nodeContentKey (wg_nodes g ! k)" if "k < length (wg_nodes g)" for k
      using b that by auto
    moreover have "distinct (map (\<lambda>k. nodeContentKey (wg_nodes g ! k)) [0 ..< length (wg_nodes g)])"
      using assms(5) by (simp add: keys_decide_def distinct_conv_nth)
    ultimately show ?thesis unfolding node_order_def using b by (simp only:, intro order_renamed) auto
  qed
  let ?r = "invert_order (value_order g)" and ?r' = "invert_order (value_order g')"
  have remap: "?r' ! pi i = ?r ! i" if "i < length (wg_values g)" for i
    unfolding vals using b that by (intro invert_renamed) simp_all
  have each_value: "renumber_value ?r' new_id (wg_values g' ! pi i) = renumber_value ?r new_id (wg_values g ! i)"
    if "i < length (wg_values g)" for i new_id
  proof -
    have "wg_values g' ! pi i = rename_value pi (wg_values g ! i)" using b that by blast
    moreover have "f < length (wg_values g) \<and> pi f < length (wg_values g')" if "carriedFrom (wg_values g ! i) = Some f" for f
      using that assms(2) \<open>i < _\<close> b unfolding closed_graph_def bij_betw_def by (metis image_eqI lessThan_iff nth_mem)
    ultimately show ?thesis using remap b
      by (auto simp: renumber_value_def rename_value_def split: option.splits)
  qed
  have node: "renumber_node ?r' new_id (wg_nodes g' ! sigma k) = renumber_node ?r new_id (wg_nodes g ! k)"
    if "k < length (wg_nodes g)" for k new_id
  proof -
    have "wg_nodes g' ! sigma k = rename_node pi (wg_nodes g ! k)" using b that by blast
    moreover have "renumber_port ?r' (rename_port pi p) = renumber_port ?r p"
      if "p \<in> set (wn_inputs (wg_nodes g ! k)) \<union> set (wn_outputs (wg_nodes g ! k))" for p
    proof -
      have "wp_value p < length (wg_values g)"
        using that assms(2) \<open>k < _\<close> unfolding closed_graph_def by (meson nth_mem)
      then show ?thesis using remap by (simp add: renumber_port_def rename_port_def)
    qed
    ultimately show ?thesis by (simp add: renumber_node_def rename_node_def)
  qed
  have "node_order g ! k < length (wg_nodes g)" if "k < length (wg_nodes g)" for k
    using nth_mem [of k "node_order g"] that by simp
  then have "wg_nodes (fst (finalize g')) = wg_nodes (fst (finalize g))"
    by (intro nth_equalityI) (simp_all add: finalize_def Let_def nodes nth_enumerate_eq node)
  moreover have "value_order g ! i < length (wg_values g)" if "i < length (wg_values g)" for i
    using nth_mem [of i "value_order g"] that by simp
  then have "wg_values (fst (finalize g')) = wg_values (fst (finalize g))"
    by (intro nth_equalityI) (simp_all add: finalize_def Let_def vals nth_enumerate_eq each_value [unfolded vals])

  ultimately show ?thesis by simp
qed

text \<open>Two arguments and their sum, built in two orders.\<close>

definition plain_value :: "nat \<Rightarrow> string \<Rightarrow> string \<Rightarrow> bool \<Rightarrow> workload_value" where
  "plain_value i ty n ext = \<lparr>wv_id = i, wv_type = ty, wv_name = n, wv_external = ext, loopCarried = False,
     carriedFrom = None, memoryKind = None\<rparr>"

definition plain_port :: "nat \<Rightarrow> workload_port" where
  "plain_port v = \<lparr>wp_value = v, wp_type = ''f32'', accessMap = None\<rparr>"

definition plain_node :: "string \<Rightarrow> nat list \<Rightarrow> nat list \<Rightarrow> nat \<Rightarrow> workload_node" where
  "plain_node n ins outs ord = \<lparr>wn_id = 0, wn_op = n, wn_inputs = map plain_port ins, wn_outputs = map plain_port outs,
     wn_attributes = None, sourceOrdinal = ord, executionMultiplicity = Some 1, simultaneousMultiplicity = Some 1\<rparr>"

definition sum_graph :: workload_graph where
  "sum_graph = \<lparr>wg_nodes = [plain_node ''add'' [0, 1] [2] 0, plain_node ''neg'' [2] [3] 1],
     wg_values = [plain_value 0 ''f32'' ''arg0'' True, plain_value 1 ''f32'' ''arg1'' True,
       plain_value 2 ''f32'' ''add.result0'' False, plain_value 3 ''f32'' ''neg.result0'' False]\<rparr>"

definition sum_graph_again :: workload_graph where
  "sum_graph_again = \<lparr>wg_nodes = [plain_node ''neg'' [0] [3] 1, plain_node ''add'' [2, 1] [0] 0],
     wg_values = [plain_value 0 ''f32'' ''add.result0'' False, plain_value 1 ''f32'' ''arg1'' True,
       plain_value 2 ''f32'' ''arg0'' True, plain_value 3 ''f32'' ''neg.result0'' False]\<rparr>"

theorem finalize_order_independent_witness: "fst (finalize sum_graph_again) = fst (finalize sum_graph)"
proof (rule finalize_order_independent)
  let ?pi = "\<lambda>i::nat. if i = 0 then 2 else if i = 2 then 0 else i" and ?sigma = "\<lambda>k::nat. 1 - k"
  show "built_again ?pi ?sigma sum_graph sum_graph_again"
    unfolding built_again_def
    by (simp add: sum_graph_def sum_graph_again_def plain_value_def plain_node_def plain_port_def rename_value_def
        rename_node_def rename_port_def bij_betw_def inj_on_def lessThan_Suc numeral_eq_Suc All_less_Suc2 insert_commute)
  show "closed_graph sum_graph"
    by (simp add: closed_graph_def sum_graph_def plain_value_def plain_node_def plain_port_def)
  show "single_producers sum_graph" "single_producers sum_graph_again" "keys_decide sum_graph" by code_simp+
qed

text \<open>Two external values with one name keep the order in which they were added, so the canonical text does depend on it.\<close>

lemma same_names_keep_order:
  "canonicalString (fst (finalize \<lparr>wg_nodes = [], wg_values = [plain_value 0 ''f32'' ''arg1'' True, plain_value 1 ''i8'' ''arg1'' True]\<rparr>)) \<noteq>
   canonicalString (fst (finalize \<lparr>wg_nodes = [], wg_values = [plain_value 0 ''i8'' ''arg1'' True, plain_value 1 ''f32'' ''arg1'' True]\<rparr>))"
  by code_simp

text \<open>After canonicalization an id is the position it names.\<close>

lemma finalized_ids:
  "findNode (fst (finalize g)) k = Some n \<Longrightarrow> wn_id n = k"
  "findValue (fst (finalize g)) i = Some v \<Longrightarrow> wv_id v = i"
  by (auto simp: findNode_def findValue_def finalize_def Let_def nth_enumerate_eq renumber_node_def renumber_value_def
      split: if_splits)

section \<open>Multiplicity\<close>

text \<open>The operations that enclose a node, from the inside out, with the constant operands extraction can see.\<close>

datatype enclosing_op =
    ForLoop "(int option \<times> int option \<times> int option) option"
  | SpatialFor "(int option \<times> int option \<times> int option) option"
  | Pipeline "int option"
  | OtherOp

definition loopTripCount :: "(int option \<times> int option \<times> int option) option \<Rightarrow> nat option" where
  "loopTripCount operands =
     (case operands of
        Some (Some lower, Some upper, Some step) \<Rightarrow>
          if step \<le> 0 then None
          else if upper \<le> lower then Some 0
          else let span = nat ((upper - lower) mod 2 ^ 64); stride = nat step in
            if span > uint64_max - (stride - 1) then None
            else Some (wrap64 (span + stride - 1) div stride)
      | _ \<Rightarrow> None)"

definition pipelineStages :: "int option \<Rightarrow> nat option" where
  "pipelineStages stages = (case stages of Some s \<Rightarrow> if s > 0 then Some (nat s) else None | None \<Rightarrow> None)"

definition mul_overflow :: "nat \<Rightarrow> nat \<Rightarrow> nat option" where
  "mul_overflow a b = (if a * b > uint64_max then None else Some (a * b))"

fun execution_factors :: "nat \<Rightarrow> enclosing_op list \<Rightarrow> nat option" where
  "execution_factors product [] = Some product"
| "execution_factors product (parent # parents) =
     (case parent of
        OtherOp \<Rightarrow> execution_factors product parents
      | ForLoop b \<Rightarrow> Option.bind (loopTripCount b) (\<lambda>f. Option.bind (mul_overflow product f) (\<lambda>p. execution_factors p parents))
      | SpatialFor b \<Rightarrow> Option.bind (loopTripCount b) (\<lambda>f. Option.bind (mul_overflow product f) (\<lambda>p. execution_factors p parents))
      | Pipeline s \<Rightarrow> Option.bind (pipelineStages s) (\<lambda>f. Option.bind (mul_overflow product f) (\<lambda>p. execution_factors p parents)))"

definition executionMultiplicityOf :: "enclosing_op list \<Rightarrow> nat option" where
  "executionMultiplicityOf parents = execution_factors 1 parents"

fun residency_factors :: "nat \<Rightarrow> enclosing_op list \<Rightarrow> nat option" where
  "residency_factors product [] = Some product"
| "residency_factors product (parent # parents) =
     (case parent of
        SpatialFor b \<Rightarrow> Option.bind (loopTripCount b) (\<lambda>f. Option.bind (mul_overflow product f) (\<lambda>p. residency_factors p parents))
      | Pipeline s \<Rightarrow> Option.bind (pipelineStages s) (\<lambda>f. Option.bind (mul_overflow product f) (\<lambda>p. residency_factors p parents))
      | _ \<Rightarrow> residency_factors product parents)"

definition simultaneousMultiplicityOf :: "enclosing_op list \<Rightarrow> nat option" where
  "simultaneousMultiplicityOf parents = residency_factors 1 parents"

text \<open>The iterations a loop runs, counted.\<close>

definition iterations :: "int \<Rightarrow> int \<Rightarrow> int \<Rightarrow> nat" where
  "iterations lower upper step = card {k :: nat. lower + int k * step < upper}"

lemma int_le_div_iff: "0 < (b::int) \<Longrightarrow> a \<le> c div b \<longleftrightarrow> a * b \<le> c"
proof
  assume b: "0 < b" and "a \<le> c div b"
  then have "a * b \<le> c div b * b" by simp
  also have "\<dots> \<le> c" using minus_mod_eq_div_mult [of c b] pos_mod_sign [OF b, of c] by linarith
  finally show "a * b \<le> c" .
next
  assume "0 < b" "a * b \<le> c"
  then show "a \<le> c div b" using zdiv_mono1 [of "a * b" c b] by simp
qed

lemma iterations_ceiling:
  assumes "0 < step" "lower < upper"
  shows "iterations lower upper step = nat ((upper - lower + step - 1) div step)"
proof -
  have "{k :: nat. lower + int k * step < upper} = {..< nat ((upper - lower + step - 1) div step)}"
  proof (rule set_eqI, unfold mem_Collect_eq lessThan_iff)
    fix k :: nat
    have "lower + int k * step < upper \<longleftrightarrow> (int k + 1) * step \<le> upper - lower + step - 1"
      by (simp only: distrib_right mult_1) linarith
    also have "\<dots> \<longleftrightarrow> int k + 1 \<le> (upper - lower + step - 1) div step"
      by (rule int_le_div_iff [OF assms(1), symmetric])
    also have "\<dots> \<longleftrightarrow> k < nat ((upper - lower + step - 1) div step)" by linarith
    finally show "lower + int k * step < upper \<longleftrightarrow> k < nat ((upper - lower + step - 1) div step)" .
  qed
  then show ?thesis by (simp add: iterations_def)
qed

lemma trip_count_exact:
  assumes "in_int64 lower" "in_int64 upper" "loopTripCount (Some (Some lower, Some upper, Some step)) = Some n"
  shows "0 < step" "n = iterations lower upper step"
proof -
  show step: "0 < step" using assms(3) by (simp add: loopTripCount_def split: if_splits)
  show "n = iterations lower upper step"
  proof (cases "upper \<le> lower")
    case True
    have "\<not> lower + int k * step < upper" for k :: nat
      using True step mult_nonneg_nonneg [of "int k" step] by linarith
    then have "iterations lower upper step = 0" by (simp add: iterations_def)
    with True assms(3) step show ?thesis by (simp add: loopTripCount_def)
  next
    case False
    have span: "(upper - lower) mod 2 ^ 64 = upper - lower"
      using False assms(1,2) by (intro mod_pos_pos_trivial) (simp_all add: in_int64_def int64_max_def int64_min_def)
    let ?span = "nat (upper - lower)" and ?stride = "nat step"
    have "n = (?span + ?stride - 1) div ?stride"
      using assms(3) False step unfolding loopTripCount_def Let_def option.case prod.case span
      by (simp_all del: One_nat_def split: if_splits)
    also have "?span + ?stride - 1 = nat (upper - lower + step - 1)" using step False by linarith
    also have "\<dots> div ?stride = nat ((upper - lower + step - 1) div step)"
      using step False by (intro nat_div_distrib [symmetric]) simp
    finally show ?thesis using iterations_ceiling step False by simp
  qed
qed

text \<open>How often one enclosing operation runs its body, and how many of these runs are resident at once.\<close>

fun runs_of :: "enclosing_op \<Rightarrow> nat" where
  "runs_of (ForLoop (Some (Some l, Some u, Some s))) = iterations l u s"
| "runs_of (SpatialFor (Some (Some l, Some u, Some s))) = iterations l u s"
| "runs_of (Pipeline (Some s)) = nat s"
| "runs_of _ = 1"

fun resident_of :: "enclosing_op \<Rightarrow> nat" where
  "resident_of (ForLoop b) = 1"
| "resident_of parent = runs_of parent"

fun bounds_fit :: "enclosing_op \<Rightarrow> bool" where
  "bounds_fit (ForLoop (Some (Some l, Some u, s))) = (in_int64 l \<and> in_int64 u)"
| "bounds_fit (SpatialFor (Some (Some l, Some u, s))) = (in_int64 l \<and> in_int64 u)"
| "bounds_fit _ = True"

lemma trip_count_runs:
  assumes "loopTripCount b = Some f" "bounds_fit (ForLoop b) \<or> bounds_fit (SpatialFor b)"
  shows "f = runs_of (ForLoop b)" "f = runs_of (SpatialFor b)"
proof -
  obtain l u s where b: "b = Some (Some l, Some u, Some s)"
    using assms by (auto simp: loopTripCount_def split: option.splits)
  show "f = runs_of (ForLoop b)" "f = runs_of (SpatialFor b)"
    using trip_count_exact(2) [of l u s f] assms by (auto simp: b)
qed

lemma pipeline_runs: "pipelineStages s = Some f \<Longrightarrow> f = runs_of (Pipeline s)"
  by (cases s) (auto simp: pipelineStages_def split: if_splits)

lemma execution_factors_step:
  assumes "execution_factors p (x # xs) = Some n" "bounds_fit x"
  shows "execution_factors (p * runs_of x) xs = Some n"
proof (cases x)
  case (ForLoop b)
  with assms obtain f where "loopTripCount b = Some f" "execution_factors (p * f) xs = Some n"
    by (auto simp: bind_eq_Some_conv mul_overflow_def split: if_splits)
  with trip_count_runs(1) assms(2) ForLoop show ?thesis by metis
next
  case (SpatialFor b)
  with assms obtain f where "loopTripCount b = Some f" "execution_factors (p * f) xs = Some n"
    by (auto simp: bind_eq_Some_conv mul_overflow_def split: if_splits)
  with trip_count_runs(2) assms(2) SpatialFor show ?thesis by metis
next
  case (Pipeline s)
  with assms obtain f where "pipelineStages s = Some f" "execution_factors (p * f) xs = Some n"
    by (auto simp: bind_eq_Some_conv mul_overflow_def split: if_splits)
  with pipeline_runs Pipeline show ?thesis by metis
qed (use assms in simp)

lemma residency_factors_step:
  assumes "residency_factors p (x # xs) = Some n" "bounds_fit x"
  shows "residency_factors (p * resident_of x) xs = Some n"
proof (cases x)
  case (SpatialFor b)
  with assms obtain f where "loopTripCount b = Some f" "residency_factors (p * f) xs = Some n"
    by (auto simp: bind_eq_Some_conv mul_overflow_def split: if_splits)
  with trip_count_runs(2) assms(2) SpatialFor show ?thesis by (metis resident_of.simps(2))
next
  case (Pipeline s)
  with assms obtain f where "pipelineStages s = Some f" "residency_factors (p * f) xs = Some n"
    by (auto simp: bind_eq_Some_conv mul_overflow_def split: if_splits)
  with pipeline_runs Pipeline show ?thesis by (metis resident_of.simps(3))
qed (use assms in simp_all)

lemma execution_factors_exact:
  "list_all bounds_fit ps \<Longrightarrow> execution_factors p ps = Some n \<Longrightarrow> n = p * prod_list (map runs_of ps)"
proof (induction ps arbitrary: p)
  case (Cons x xs)
  then have "bounds_fit x" "list_all bounds_fit xs" by simp_all
  with Cons.IH [of "p * runs_of x"] execution_factors_step [OF Cons.prems(2)] show ?case by (simp add: mult.assoc)
qed simp

lemma residency_factors_exact:
  "list_all bounds_fit ps \<Longrightarrow> residency_factors p ps = Some n \<Longrightarrow> n = p * prod_list (map resident_of ps)"
proof (induction ps arbitrary: p)
  case (Cons x xs)
  then have "bounds_fit x" "list_all bounds_fit xs" by simp_all
  with Cons.IH [of "p * resident_of x"] residency_factors_step [OF Cons.prems(2)] show ?case by (simp add: mult.assoc)
qed simp

lemma resident_dvd_runs: "prod_list (map resident_of ps) dvd prod_list (map runs_of ps)"
proof (induction ps)
  case (Cons x ps)
  moreover have "resident_of x dvd runs_of x" by (cases x) auto
  ultimately show ?case by (auto intro: mult_dvd_mono)
qed simp

text \<open>A multiplicity that extraction reports is the number of runs: the product of the iterations that the enclosing
  loops perform and of the pipeline stages, without overflow. The residency it reports is the part of them that temporal
  loops do not serialize, and divides the multiplicity.\<close>

theorem multiplicity_exact:
  assumes "list_all bounds_fit parents" "executionMultiplicityOf parents = Some n"
    "simultaneousMultiplicityOf parents = Some m"
  shows "n = prod_list (map runs_of parents) \<and> m = prod_list (map resident_of parents) \<and> m dvd n"
  using execution_factors_exact [OF assms(1), of 1 n] residency_factors_exact [OF assms(1), of 1 m] assms(2,3)
    resident_dvd_runs [of parents]
  by (simp add: executionMultiplicityOf_def simultaneousMultiplicityOf_def)

text \<open>A pipeline of two stages in a spatial loop of four steps, inside a loop of three.\<close>

theorem multiplicity_exact_witness:
  "iterations 0 10 4 * iterations 0 8 2 * 2 = 24 \<and> iterations 0 8 2 * 2 = 8"
proof -
  let ?ps = "[Pipeline (Some 2), SpatialFor (Some (Some 0, Some 8, Some 2)), ForLoop (Some (Some 0, Some 10, Some 4))]"
  have "loopTripCount (Some (Some 0, Some 8, Some 2)) = Some 4" "loopTripCount (Some (Some 0, Some 10, Some 4)) = Some 3"
    by (simp_all add: loopTripCount_def uint64_max_def)
  then have "executionMultiplicityOf ?ps = Some 24" "simultaneousMultiplicityOf ?ps = Some 8"
    by (simp_all add: executionMultiplicityOf_def simultaneousMultiplicityOf_def pipelineStages_def mul_overflow_def uint64_max_def)
  moreover have "list_all bounds_fit ?ps" by (simp add: in_int64_def int64_max_def int64_min_def)
  ultimately show ?thesis using multiplicity_exact [of ?ps 24 8] by auto
qed

end
