(* ===== verification/StorageReuse.thy ===== *)
theory StorageReuse
  imports StorageLiveness WorkloadGraph
begin

text \<open>
  Reuse of storage in \<^verbatim>\<open>lib/Mapping/StoragePlan.cpp\<close>: the pass of \<^verbatim>\<open>finalizeStoragePlan\<close> that lets a later
  allocation share the buffer of an earlier one, and \<^verbatim>\<open>computePeakStorage\<close>, which checks the sharing and
  summarizes the bytes that are live over the plan steps. The lemmas show that the pass always ends, that what it
  decides is what the check accepts, that an allocation in a buffer ends in an earlier step than the next begins unless they meet in an update in place,
  and that the peak is exact.
\<close>

section \<open>Peak over the plan steps\<close>

definition kMaxStorageSteps :: nat where "kMaxStorageSteps = 1048576"

datatype storage_error =
    EndsBeforeBegin nat
  | DuplicateStorage nat
  | BorrowedAliases nat
  | CyclicStorage nat
  | UnknownStorage nat nat
  | AliasesBorrowed nat nat
  | OtherMemory nat nat
  | TooFewBytes nat nat
  | StepRange
  | LiveBytesOverflow string
  | FootprintTooLarge nat

fun check_allocations :: "nat list \<Rightarrow> storage_allocation list \<Rightarrow> storage_error option" where
  "check_allocations seen [] = None"
| "check_allocations seen (a # as) =
     (if beginStep a > endStep a then Some (EndsBeforeBegin (alloc_id a))
      else if alloc_id a \<in> set seen then Some (DuplicateStorage (alloc_id a))
      else check_allocations (alloc_id a # seen) as)"

text \<open>The root an alias chain reaches; \<open>i\<close> is the allocation the chain starts from.\<close>

function storage_chain :: "storage_allocation list \<Rightarrow> nat \<Rightarrow> nat list \<Rightarrow> nat \<Rightarrow> (storage_error, nat) expected" where
  "storage_chain allocs i seen current =
     (if current < length allocs then
        (case aliasOf (allocs ! current) of
           None \<Rightarrow> Inr current
         | Some goal \<Rightarrow>
             if borrowed (allocs ! current) then Inl (BorrowedAliases (alloc_id (allocs ! current)))
             else if current \<in> set seen then Inl (CyclicStorage (alloc_id (allocs ! current)))
             else (case index_by_id allocs goal of
                None \<Rightarrow> Inl (UnknownStorage (alloc_id (allocs ! i)) goal)
              | Some j \<Rightarrow>
                  if borrowed (allocs ! j) then Inl (AliasesBorrowed (alloc_id (allocs ! i)) (alloc_id (allocs ! j)))
                  else storage_chain allocs i (seen @ [current]) j))
      else Inr current)"
  by pat_completeness auto

termination storage_chain
  by (relation "measure (\<lambda>(allocs, i, seen, current). card ({..< length allocs} - set seen))", rule wf_measure,
      simp only: in_measure prod.case, rule seen_decreases)

declare storage_chain.simps [simp del]

definition storage_root :: "storage_allocation list \<Rightarrow> nat \<Rightarrow> (storage_error, nat) expected" where
  "storage_root allocs i =
     bindR (storage_chain allocs i [] i) (\<lambda>r.
       if r = i then Inr r
       else if memory (allocs ! i) \<noteq> memory (allocs ! r) then Inl (OtherMemory (alloc_id (allocs ! i)) (alloc_id (allocs ! r)))
       else if alloc_bytes (allocs ! i) > alloc_bytes (allocs ! r) then Inl (TooFewBytes (alloc_id (allocs ! i)) (alloc_id (allocs ! r)))
       else Inr r)"

definition min_step :: "storage_allocation list \<Rightarrow> nat" where
  "min_step allocs = fold (\<lambda>a m. min m (beginStep a)) allocs (beginStep (hd allocs))"

definition max_step :: "storage_allocation list \<Rightarrow> nat" where
  "max_step allocs = fold (\<lambda>a m. max m (endStep a)) allocs (endStep (hd allocs))"

text \<open>The roots in use at one step, with their bytes.\<close>

definition step_groups :: "storage_allocation list \<Rightarrow> nat list \<Rightarrow> nat \<Rightarrow> (string \<times> nat, nat) smap" where
  "step_groups allocs roots t =
     fold (\<lambda>i groups.
         let a = allocs ! i in
         if t < beginStep a \<or> t > endStep a then groups
         else smap_assign (memory a, roots ! i) (alloc_bytes (allocs ! (roots ! i))) groups)
       [0 ..< length allocs] []"

fun live_groups :: "((string \<times> nat) \<times> nat) list \<Rightarrow> (string, nat) smap \<Rightarrow> (storage_error, (string, nat) smap) expected" where
  "live_groups [] live = Inr live"
| "live_groups (((m, r), b) # gs) live =
     (if held_in live m + b > uint64_max then Inl (LiveBytesOverflow m)
      else live_groups gs (smap_assign m (held_in live m + b) live))"

fun step_peaks ::
  "storage_allocation list \<Rightarrow> nat list \<Rightarrow> nat list \<Rightarrow> (string, nat) smap \<Rightarrow> (storage_error, (string, nat) smap) expected" where
  "step_peaks allocs roots [] peak = Inr peak"
| "step_peaks allocs roots (t # ts) peak =
     bindR (live_groups (step_groups allocs roots t) []) (\<lambda>live. step_peaks allocs roots ts (raise_peaks live peak))"

definition computePeakStorage :: "storage_allocation list \<Rightarrow> (storage_error, (string, nat) smap) expected" where
  "computePeakStorage allocs =
     (if allocs = [] then Inr []
      else case check_allocations [] allocs of
        Some e \<Rightarrow> Inl e
      | None \<Rightarrow>
          bindR (map_result (storage_root allocs) [0 ..< length allocs])
            (\<lambda>roots.
              if max_step allocs - min_step allocs > kMaxStorageSteps then Inl StepRange
              else step_peaks allocs roots [min_step allocs ..< Suc (max_step allocs)] []))"

text \<open>Occupancy when no schedule is available: every allocation weighs as many copies as are resident.\<close>

fun weigh_allocations :: "storage_allocation list \<Rightarrow> (storage_error, storage_allocation list) expected" where
  "weigh_allocations [] = Inr []"
| "weigh_allocations (a # as) =
     (if alloc_bytes a * simultaneousOccurrences a > uint64_max then Inl (FootprintTooLarge (alloc_id a))
      else bindR (weigh_allocations as) (\<lambda>rest. Inr (a\<lparr>alloc_bytes := alloc_bytes a * simultaneousOccurrences a\<rparr> # rest)))"

definition step_occupancy :: "storage_allocation list \<Rightarrow> (storage_error, (string, nat) smap) expected" where
  "step_occupancy allocs = bindR (weigh_allocations allocs) computePeakStorage"

section \<open>The reuse pass\<close>

text \<open>The value whose storage a carried value is; the walk gives up after 64 steps.\<close>

fun storage_value_walk :: "nat \<Rightarrow> workload_graph \<Rightarrow> nat \<Rightarrow> nat" where
  "storage_value_walk 0 g v = v"
| "storage_value_walk (Suc guard) g v =
     (case findValue g v of
        None \<Rightarrow> v
      | Some entry \<Rightarrow>
          (case carriedFrom entry of
             None \<Rightarrow> v
           | Some next \<Rightarrow> if next = v then v else storage_value_walk guard g next))"

definition storageValueOf :: "workload_graph \<Rightarrow> nat \<Rightarrow> nat" where
  "storageValueOf g v = storage_value_walk 64 g v"

text \<open>The allocation that holds each produced value: the first one that is not borrowed.\<close>

definition producedAllocation :: "storage_allocation list \<Rightarrow> nat \<Rightarrow> nat option" where
  "producedAllocation allocs v = map_of (map (\<lambda>a. (alloc_value a, alloc_id a)) (filter (\<lambda>a. \<not> borrowed a) allocs)) v"

text \<open>The allocations each node reads, by the id of the node.\<close>

definition node_reads :: "workload_graph \<Rightarrow> storage_allocation list \<Rightarrow> nat \<Rightarrow> nat list" where
  "node_reads g allocs n =
     fold (\<lambda>p reads. case producedAllocation allocs (storageValueOf g (wp_value p)) of
         None \<Rightarrow> reads | Some h \<Rightarrow> if h \<in> set reads then reads else reads @ [h])
       (concat (map wn_inputs (filter (\<lambda>node. wn_id node = n) (wg_nodes g)))) []"

text \<open>The loop that follows the aliases has no guard; it does not return on a cycle.\<close>

partial_function (option) rootIndex :: "storage_allocation list \<Rightarrow> nat \<Rightarrow> nat option" where
  "rootIndex allocs current =
     (if current < length allocs then
        (case aliasOf (allocs ! current) of
           None \<Rightarrow> Some current
         | Some goal \<Rightarrow> (case index_by_id allocs goal of None \<Rightarrow> Some current | Some j \<Rightarrow> rootIndex allocs j))
      else Some current)"

declare rootIndex.simps [code]

fun opt_all :: "'a option list \<Rightarrow> 'a list option" where
  "opt_all [] = Some []"
| "opt_all (x # xs) = Option.bind x (\<lambda>y. map_option ((#) y) (opt_all xs))"

text \<open>The last step at which a buffer is in use, by its root or by an allocation that shares it.\<close>

definition rootLastUse :: "storage_allocation list \<Rightarrow> nat list \<Rightarrow> nat \<Rightarrow> nat \<Rightarrow> nat" where
  "rootLastUse allocs roots later candidate =
     fold (\<lambda>i last_use. if i \<noteq> later \<and> roots ! i = candidate then max last_use (endStep (allocs ! i)) else last_use)
       [0 ..< length allocs] (endStep (allocs ! candidate))"

definition reuse_admissible :: "storage_allocation list \<Rightarrow> nat list \<Rightarrow> nat list \<Rightarrow> nat \<Rightarrow> nat \<Rightarrow> bool" where
  "reuse_admissible allocs roots readable later candidate =
     (let a = allocs ! candidate; b = allocs ! later in
      if candidate = later then False
      else if borrowed a \<or> memory a \<noteq> memory b \<or> alloc_bytes a < alloc_bytes b then False
      else if simultaneousOccurrences b > simultaneousOccurrences a then False
      else if aliasOf a \<noteq> None then False
      else let last_use = rootLastUse allocs roots later candidate;
               in_place = (alloc_id a \<in> set readable \<and> last_use \<le> beginStep b);
               disjoint = (last_use < beginStep b)
           in in_place \<or> disjoint)"

text \<open>The best candidate has the smallest id.\<close>

definition best_candidate :: "storage_allocation list \<Rightarrow> nat list \<Rightarrow> nat list \<Rightarrow> nat \<Rightarrow> nat option" where
  "best_candidate allocs roots readable later =
     fold (\<lambda>earlier best.
         let candidate = roots ! earlier in
         if \<not> reuse_admissible allocs roots readable later candidate then best
         else (case best of
            None \<Rightarrow> Some candidate
          | Some k \<Rightarrow> if alloc_id (allocs ! k) > alloc_id (allocs ! candidate) then Some candidate else best))
       [0 ..< length allocs] None"

text \<open>One allocation of the pass. \<open>reads n\<close> are the allocations node \<open>n\<close> reads; an allocation without a writer
  looks up node 0.\<close>

definition reuse_step ::
  "(nat \<Rightarrow> nat option) \<Rightarrow> (nat \<Rightarrow> nat list) \<Rightarrow> nat \<Rightarrow> storage_allocation list \<Rightarrow> storage_allocation list option" where
  "reuse_step writer reads later allocs =
     (if borrowed (allocs ! later) then Some allocs
      else Option.bind (opt_all (map (rootIndex allocs) [0 ..< length allocs])) (\<lambda>roots.
        let readable = reads (case writer (alloc_id (allocs ! later)) of None \<Rightarrow> 0 | Some n \<Rightarrow> n) in
        case best_candidate allocs roots readable later of
          None \<Rightarrow> Some allocs
        | Some k \<Rightarrow> Some (allocs[later := (allocs ! later)\<lparr>aliasOf := Some (alloc_id (allocs ! k))\<rparr>])))"

fun reuse_pass ::
  "(nat \<Rightarrow> nat option) \<Rightarrow> (nat \<Rightarrow> nat list) \<Rightarrow> nat list \<Rightarrow> storage_allocation list \<Rightarrow> storage_allocation list option" where
  "reuse_pass writer reads [] allocs = Some allocs"
| "reuse_pass writer reads (later # rest) allocs =
     Option.bind (reuse_step writer reads later allocs) (reuse_pass writer reads rest)"

definition reuse_storage ::
  "workload_graph \<Rightarrow> (nat \<Rightarrow> nat option) \<Rightarrow> storage_allocation list \<Rightarrow> storage_allocation list option" where
  "reuse_storage g writer allocs = reuse_pass writer (node_reads g allocs) [0 ..< length allocs] allocs"

section \<open>What the pass keeps\<close>

text \<open>Allocations whose aliases form trees: \<open>R i\<close> is the root of \<open>i\<close>, \<open>rank\<close> decreases along the aliases. An
  allocation that shares a buffer fits into its root and follows it, no borrowed storage takes part, and two
  allocations of one buffer follow one another.\<close>

definition fits_root :: "storage_allocation \<Rightarrow> storage_allocation \<Rightarrow> bool" where
  "fits_root a r \<longleftrightarrow> \<not> borrowed a \<and> \<not> borrowed r \<and> memory a = memory r \<and> alloc_bytes a \<le> alloc_bytes r \<and>
     simultaneousOccurrences a \<le> simultaneousOccurrences r \<and> endStep r \<le> beginStep a"

definition takes_turns :: "storage_allocation \<Rightarrow> storage_allocation \<Rightarrow> bool" where
  "takes_turns a b \<longleftrightarrow> endStep a \<le> beginStep b \<or> endStep b \<le> beginStep a"

text \<open>An update in place: the writer of the allocation, or node 0 when it has none, reads the allocation whose storage it
  reuses. Where one allocation of a buffer ends in the very step in which another begins, some allocation that begins in
  that step takes the buffer in place.\<close>

definition in_place :: "(nat \<Rightarrow> nat option) \<Rightarrow> (nat \<Rightarrow> nat list) \<Rightarrow> storage_allocation \<Rightarrow> bool" where
  "in_place writer reads a =
     (case aliasOf a of None \<Rightarrow> False
      | Some goal \<Rightarrow> goal \<in> set (reads (case writer (alloc_id a) of None \<Rightarrow> 0 | Some n \<Rightarrow> n)))"

definition meets_in_place ::
  "(nat \<Rightarrow> nat option) \<Rightarrow> (nat \<Rightarrow> nat list) \<Rightarrow> storage_allocation list \<Rightarrow> (nat \<Rightarrow> nat) \<Rightarrow> bool" where
  "meets_in_place writer reads allocs R \<longleftrightarrow>
     (\<forall>i < length allocs. \<forall>j < length allocs. i \<noteq> j \<longrightarrow> R i = R j \<longrightarrow>
        endStep (allocs ! i) = beginStep (allocs ! j) \<longrightarrow>
        (\<exists>l < length allocs. R l = R j \<and> beginStep (allocs ! l) = beginStep (allocs ! j) \<and>
           in_place writer reads (allocs ! l)))"

definition forest :: "storage_allocation list \<Rightarrow> (nat \<Rightarrow> nat) \<Rightarrow> (nat \<Rightarrow> nat) \<Rightarrow> bool" where
  "forest allocs R rank \<longleftrightarrow> distinct (map alloc_id allocs) \<and>
     (\<forall>i < length allocs. R i < length allocs \<and> R (R i) = R i \<and> (aliasOf (allocs ! i) = None \<longleftrightarrow> R i = i)) \<and>
     (\<forall>i < length allocs. \<forall>goal. aliasOf (allocs ! i) = Some goal \<longrightarrow>
        (\<exists>j < length allocs. index_by_id allocs goal = Some j \<and> R j = R i \<and> rank j < rank i))"

definition shares_safely :: "storage_allocation list \<Rightarrow> (nat \<Rightarrow> nat) \<Rightarrow> bool" where
  "shares_safely allocs R \<longleftrightarrow>
     (\<forall>i < length allocs. R i \<noteq> i \<longrightarrow> fits_root (allocs ! i) (allocs ! R i)) \<and>
     (\<forall>i < length allocs. \<forall>j < length allocs. i \<noteq> j \<longrightarrow> R i = R j \<longrightarrow> takes_turns (allocs ! i) (allocs ! j))"

lemma index_by_id_nth:
  assumes "distinct (map alloc_id allocs)" "i < length allocs"
  shows "index_by_id allocs (alloc_id (allocs ! i)) = Some i"
proof -
  have "distinct (map fst (rev (zip (map alloc_id allocs) [0 ..< length allocs])))"
    using assms(1) by (simp add: rev_map [symmetric])
  moreover have "(alloc_id (allocs ! i), i) \<in> set (zip (map alloc_id allocs) [0 ..< length allocs])"
    unfolding in_set_zip using assms(2) by (intro exI [of _ i]) simp
  ultimately show ?thesis unfolding index_by_id_def by (simp add: map_of_eq_Some_iff)
qed

lemma index_by_id_same: "map alloc_id xs = map alloc_id ys \<Longrightarrow> index_by_id xs = index_by_id ys"
  unfolding index_by_id_def by (rule ext) (metis length_map)

lemma forest_edge:
  assumes "forest allocs R rank" "i < length allocs" "aliasOf (allocs ! i) = Some goal"
  obtains j where "j < length allocs" "index_by_id allocs goal = Some j" "R j = R i" "rank j < rank i"
  using assms unfolding forest_def by blast

lemma forest_root:
  assumes "forest allocs R rank" "i < length allocs"
  shows "R i < length allocs" "R (R i) = R i" "aliasOf (allocs ! i) = None \<longleftrightarrow> R i = i"
  using assms unfolding forest_def by blast+

lemma rootIndex_forest:
  assumes "forest allocs R rank" "i < length allocs"
  shows "rootIndex allocs i = Some (R i)"
  using assms(2)
proof (induction "rank i" arbitrary: i rule: less_induct)
  case less
  note facts = forest_root [OF assms(1) less.prems]
  show ?case
  proof (cases "aliasOf (allocs ! i)")
    case None
    with facts less.prems show ?thesis by (subst rootIndex.simps) simp
  next
    case (Some goal)
    obtain j where j: "j < length allocs" "index_by_id allocs goal = Some j" "R j = R i" "rank j < rank i"
      by (rule forest_edge [OF assms(1) less.prems Some])
    show ?thesis using less.hyps [OF j(4,1)] j Some less.prems by (subst rootIndex.simps) simp
  qed
qed

lemma root_walk_forest:
  assumes "forest allocs R rank" "i < length allocs" "\<And>s. s \<in> set seen \<Longrightarrow> rank i < rank s"
  shows "root_walk allocs seen i = R i"
  using assms(2,3)
proof (induction "rank i" arbitrary: i seen rule: less_induct)
  case less
  note facts = forest_root [OF assms(1) less.prems(1)]
  have fresh: "i \<notin> set seen" using less.prems(2) by blast
  show ?case
  proof (cases "aliasOf (allocs ! i)")
    case None
    with facts less.prems show ?thesis by (subst root_walk.simps) simp
  next
    case (Some goal)
    obtain j where j: "j < length allocs" "index_by_id allocs goal = Some j" "R j = R i" "rank j < rank i"
      by (rule forest_edge [OF assms(1) less.prems(1) Some])
    have "root_walk allocs (seen @ [i]) j = R j"
      by (rule less.hyps [OF j(4,1)]) (use less.prems(2) j(4) in \<open>auto intro: less_trans [OF j(4)]\<close>)
    then show ?thesis using j Some less.prems fresh by (subst root_walk.simps) simp
  qed
qed

lemma root_of_forest: "forest allocs R rank \<Longrightarrow> i < length allocs \<Longrightarrow> root_of allocs i = R i"
  unfolding root_of_def by (rule root_walk_forest) simp_all

lemma storage_chain_forest:
  assumes "forest allocs R rank" "shares_safely allocs R" "i < length allocs" "\<And>s. s \<in> set seen \<Longrightarrow> rank i < rank s"
  shows "storage_chain allocs k seen i = Inr (R i)"
  using assms(3,4)
proof (induction "rank i" arbitrary: i seen rule: less_induct)
  case less
  note facts = forest_root [OF assms(1) less.prems(1)]
  have fresh: "i \<notin> set seen" using less.prems(2) by blast
  show ?case
  proof (cases "aliasOf (allocs ! i)")
    case None
    with facts less.prems show ?thesis by (subst storage_chain.simps) simp
  next
    case (Some goal)
    obtain j where j: "j < length allocs" "index_by_id allocs goal = Some j" "R j = R i" "rank j < rank i"
      by (rule forest_edge [OF assms(1) less.prems(1) Some])
    have "R i \<noteq> i" using facts Some by simp
    then have own: "\<not> borrowed (allocs ! i)" "\<not> borrowed (allocs ! R i)"
      using assms(2) less.prems(1) unfolding shares_safely_def fits_root_def by blast+
    have "\<not> borrowed (allocs ! j)"
      using own(2) j(1,3) assms(2) unfolding shares_safely_def fits_root_def by (cases "R j = j") auto
    moreover have "storage_chain allocs k (seen @ [i]) j = Inr (R j)"
      by (rule less.hyps [OF j(4,1)]) (use less.prems(2) j(4) in \<open>auto intro: less_trans [OF j(4)]\<close>)
    ultimately show ?thesis using j Some own less.prems fresh by (subst storage_chain.simps) simp
  qed
qed

section \<open>One step of the pass\<close>

lemma rootLastUse_facts:
  "endStep (allocs ! k) \<le> rootLastUse allocs roots later k"
  "i < length allocs \<Longrightarrow> i \<noteq> later \<Longrightarrow> roots ! i = k \<Longrightarrow> endStep (allocs ! i) \<le> rootLastUse allocs roots later k"
proof -
  let ?f = "\<lambda>i last_use. if i \<noteq> later \<and> roots ! i = k then max last_use (endStep (allocs ! i)) else last_use"
  have mono: "x \<le> fold ?f xs x" for xs x
  proof (induction xs arbitrary: x)
    case (Cons y ys)
    have "x \<le> ?f y x" by simp
    also have "\<dots> \<le> fold ?f (y # ys) x" using Cons [of "?f y x"] by simp
    finally show ?case .
  qed simp
  have hit: "endStep (allocs ! i) \<le> fold ?f xs x" if "i \<in> set xs" "i \<noteq> later" "roots ! i = k" for i xs x
    using that
  proof (induction xs arbitrary: x)
    case (Cons y ys)
    show ?case
    proof (cases "y = i")
      case True
      then have "endStep (allocs ! i) \<le> ?f y x" using Cons.prems by simp
      also have "\<dots> \<le> fold ?f (y # ys) x" using mono [of "?f y x" ys] by simp
      finally show ?thesis .
    qed (use Cons in simp)
  qed simp
  show "endStep (allocs ! k) \<le> rootLastUse allocs roots later k" unfolding rootLastUse_def by (rule mono)
  show "endStep (allocs ! i) \<le> rootLastUse allocs roots later k" if "i < length allocs" "i \<noteq> later" "roots ! i = k"
    unfolding rootLastUse_def by (rule hit) (use that in auto)
qed

lemma best_candidate_Some:
  assumes "best_candidate allocs roots readable later = Some k"
  shows "\<exists>e < length allocs. k = roots ! e \<and> reuse_admissible allocs roots readable later k"
proof -
  let ?f = "\<lambda>earlier best.
         let candidate = roots ! earlier in
         if \<not> reuse_admissible allocs roots readable later candidate then best
         else (case best of
            None \<Rightarrow> Some candidate
          | Some k \<Rightarrow> if alloc_id (allocs ! k) > alloc_id (allocs ! candidate) then Some candidate else best)"
  have "\<exists>e \<in> set xs. k = roots ! e \<and> reuse_admissible allocs roots readable later k"
    if "fold ?f xs None = Some k" for xs
    using that
  proof (induction xs rule: rev_induct)
    case (snoc x xs)
    then show ?case
      by (auto simp: Let_def split: if_splits option.splits)
  qed simp
  from this [of "[0 ..< length allocs]"] assms show ?thesis unfolding best_candidate_def by auto
qed

lemma takes_turns_commute: "takes_turns a b \<longleftrightarrow> takes_turns b a"
  by (auto simp: takes_turns_def)

lemma reuse_step_sound:
  assumes forest: "forest allocs R rank" and safe: "shares_safely allocs R" and meets: "meets_in_place writer reads allocs R"
    and later: "later < length allocs" "aliasOf (allocs ! later) = None"
    and steps: "\<forall>a \<in> set allocs. beginStep a \<le> endStep a"
  shows "\<exists>allocs' R' rank' al. reuse_step writer reads later allocs = Some allocs' \<and>
    allocs' = allocs[later := (allocs ! later)\<lparr>aliasOf := al\<rparr>] \<and> forest allocs' R' rank' \<and> shares_safely allocs' R' \<and>
    meets_in_place writer reads allocs' R'"
proof -
  let ?roots = "map R [0 ..< length allocs]"
  have all: "opt_all (map (rootIndex allocs) xs) = Some (map R xs)" if "set xs \<subseteq> {..< length allocs}" for xs
    using that by (induction xs) (auto simp: rootIndex_forest [OF forest])
  have roots: "opt_all (map (rootIndex allocs) [0 ..< length allocs]) = Some ?roots" by (rule all) auto
  let ?readable = "reads (case writer (alloc_id (allocs ! later)) of None \<Rightarrow> 0 | Some n \<Rightarrow> n)"
  let ?best = "best_candidate allocs ?roots ?readable later"
  have unchanged: "allocs = allocs[later := (allocs ! later)\<lparr>aliasOf := aliasOf (allocs ! later)\<rparr>]"
    by simp
  show ?thesis
  proof (cases "borrowed (allocs ! later) \<or> ?best = None")
    case True
    then have "reuse_step writer reads later allocs = Some allocs"
      by (auto simp: reuse_step_def roots simp del: upt.simps split: option.splits)
    with unchanged forest safe meets show ?thesis by blast
  next
    case False
    then obtain k where k: "?best = Some k" and own: "\<not> borrowed (allocs ! later)" by auto
    obtain e where e: "e < length allocs" "k = ?roots ! e" and adm: "reuse_admissible allocs ?roots ?readable later k"
      using best_candidate_Some [OF k] by blast
    then have k_root: "k < length allocs" "R k = k" using forest_root [OF forest e(1)] by simp_all
    let ?allocs = "allocs[later := (allocs ! later)\<lparr>aliasOf := Some (alloc_id (allocs ! k))\<rparr>]"
    have step: "reuse_step writer reads later allocs = Some ?allocs"
      using own k by (simp add: reuse_step_def roots Let_def del: upt.simps)
    have fit: "k \<noteq> later" "\<not> borrowed (allocs ! k)" "memory (allocs ! k) = memory (allocs ! later)"
      "alloc_bytes (allocs ! later) \<le> alloc_bytes (allocs ! k)"
      "simultaneousOccurrences (allocs ! later) \<le> simultaneousOccurrences (allocs ! k)"
      and last_use: "rootLastUse allocs ?roots later k \<le> beginStep (allocs ! later)"
      and read: "rootLastUse allocs ?roots later k < beginStep (allocs ! later) \<or> alloc_id (allocs ! k) \<in> set ?readable"
      using adm by (auto simp: reuse_admissible_def Let_def split: if_splits)
    have used: "endStep (allocs ! i) \<le> rootLastUse allocs ?roots later k" if "i < length allocs" "R i = k" for i
    proof -
      have "i \<noteq> later" using that later forest_root(3) [OF forest later(1)] fit(1) by auto
      then show ?thesis using rootLastUse_facts(2) [of i allocs later ?roots k] that by simp
    qed
    have before: "endStep (allocs ! i) \<le> beginStep (allocs ! later)" if "i < length allocs" "R i = k" for i
      using used [OF that] last_use by linarith
    have now: "in_place writer reads (?allocs ! later)" if "i < length allocs" "R i = k"
      "beginStep (allocs ! later) \<le> endStep (allocs ! i)" for i
      using used [OF that(1,2)] that(3) read later(1) by (simp add: in_place_def)
    have root_later: "R later = later" using forest_root(3) [OF forest later(1)] later(2) by simp
    let ?R = "\<lambda>i. if R i = later then k else R i"
    let ?rank = "\<lambda>i. if R i = later then rank i + rank k + 1 else rank i"
    have same_ids: "map alloc_id ?allocs = map alloc_id allocs" by (simp add: map_update list_update_same_conv later)
    note index = index_by_id_same [OF same_ids]
    have distinct: "distinct (map alloc_id allocs)" using forest unfolding forest_def by blast
    have R_k: "?R k = k" using k_root fit(1) by simp
    have "forest ?allocs ?R ?rank"
      unfolding forest_def
    proof (intro conjI allI impI)
      show "distinct (map alloc_id ?allocs)" unfolding same_ids by (rule distinct)
    next
      fix i assume i: "i < length ?allocs"
      then have i': "i < length allocs" by simp
      note r = forest_root [OF forest i']
      show "?R i < length ?allocs" using r k_root by simp
      show "?R (?R i) = ?R i" using r k_root fit(1) by simp
      show "aliasOf (?allocs ! i) = None \<longleftrightarrow> ?R i = i"
        using r root_later fit(1) later(1) i' k_root(2) by (cases "i = later") auto
      fix goal assume goal: "aliasOf (?allocs ! i) = Some goal"
      show "\<exists>j < length ?allocs. index_by_id ?allocs goal = Some j \<and> ?R j = ?R i \<and> ?rank j < ?rank i"
      proof (cases "i = later")
        case True
        then have "goal = alloc_id (allocs ! k)" using goal later(1) by simp
        then have "index_by_id ?allocs goal = Some k" unfolding index using index_by_id_nth [OF distinct k_root(1)] by simp
        then show ?thesis using True k_root root_later fit(1) by (intro exI [of _ k]) simp
      next
        case False
        then have "aliasOf (allocs ! i) = Some goal" using goal by simp
        then obtain j where j: "j < length allocs" "index_by_id allocs goal = Some j" "R j = R i" "rank j < rank i"
          by (rule forest_edge [OF forest i'])
        then show ?thesis unfolding index by (intro exI [of _ j]) simp
      qed
    qed
    moreover
    have nth: "beginStep (?allocs ! i) = beginStep (allocs ! i) \<and> endStep (?allocs ! i) = endStep (allocs ! i) \<and>
        borrowed (?allocs ! i) = borrowed (allocs ! i) \<and> memory (?allocs ! i) = memory (allocs ! i) \<and>
        alloc_bytes (?allocs ! i) = alloc_bytes (allocs ! i) \<and>
        simultaneousOccurrences (?allocs ! i) = simultaneousOccurrences (allocs ! i)" for i
      using later(1) by (cases "i = later") simp_all
    have old: "fits_root (allocs ! i) (allocs ! R i)" if "i < length allocs" "R i \<noteq> i" for i
      using safe that unfolding shares_safely_def by blast
    have order: "beginStep (allocs ! i) \<le> endStep (allocs ! i)" if "i < length allocs" for i
      using steps that by simp
    have after: "endStep (allocs ! k) \<le> beginStep (allocs ! i) \<and> beginStep (allocs ! later) \<le> beginStep (allocs ! i)"
      if "i < length allocs" "R i = later" for i
    proof -
      have "beginStep (allocs ! later) \<le> beginStep (allocs ! i)"
        using old [OF that(1)] order [OF later(1)] that(2) by (cases "i = later") (auto simp: fits_root_def)
      with before [OF k_root] show ?thesis by linarith
    qed
    have "shares_safely ?allocs ?R"
      unfolding shares_safely_def
    proof (intro conjI allI impI)
      fix i assume "i < length ?allocs"
      then have i: "i < length allocs" by simp
      show "fits_root (?allocs ! i) (?allocs ! ?R i)" if "?R i \<noteq> i"
      proof (cases "R i = later")
        case True
        have "fits_root (allocs ! i) (allocs ! k)"
          using old [OF i] True fit own after [OF i True] by (cases "i = later") (auto simp: fits_root_def)
        then show ?thesis using True nth unfolding fits_root_def by simp
      next
        case False
        then show ?thesis using old [OF i] that nth unfolding fits_root_def by simp
      qed
      fix j assume "j < length ?allocs" and "i \<noteq> j" and same: "?R i = ?R j"
      then have j: "j < length allocs" by simp
      have "takes_turns (allocs ! i) (allocs ! j)"
      proof (cases "R i = R j")
        case True
        then show ?thesis using safe i j \<open>i \<noteq> j\<close> unfolding shares_safely_def by blast
      next
        case False
        then consider "R i = later" "R j = k" | "R j = later" "R i = k" using same by (auto split: if_splits)
        then show ?thesis
        proof cases
          case 1
          then show ?thesis using before [OF j] after [OF i] unfolding takes_turns_def by fastforce
        next
          case 2
          then show ?thesis using before [OF i] after [OF j] unfolding takes_turns_def by fastforce
        qed
      qed
      then show "takes_turns (?allocs ! i) (?allocs ! j)" unfolding takes_turns_def using nth by simp
    qed
    moreover have "meets_in_place writer reads ?allocs ?R"
      unfolding meets_in_place_def
    proof (intro allI impI)
      fix i j assume "i < length ?allocs" "j < length ?allocs" and "i \<noteq> j" and same: "?R i = ?R j"
        and "endStep (?allocs ! i) = beginStep (?allocs ! j)"
      then have i: "i < length allocs" and j: "j < length allocs" and touch: "endStep (allocs ! i) = beginStep (allocs ! j)"
        using nth by simp_all
      show "\<exists>l < length ?allocs. ?R l = ?R j \<and> beginStep (?allocs ! l) = beginStep (?allocs ! j) \<and>
          in_place writer reads (?allocs ! l)"
      proof (cases "R i = R j")
        case True
        then obtain l where l: "l < length allocs" "R l = R j" "beginStep (allocs ! l) = beginStep (allocs ! j)"
          "in_place writer reads (allocs ! l)" using meets i j \<open>i \<noteq> j\<close> touch unfolding meets_in_place_def by blast
        then have "l \<noteq> later" using later(2) by (auto simp: in_place_def)
        with l nth show ?thesis by (intro exI [of _ l]) simp
      next
        case False
        then consider "R i = later" "R j = k" | "R j = later" "R i = k" using same by (auto split: if_splits)
        then have "in_place writer reads (?allocs ! later) \<and> beginStep (allocs ! later) = beginStep (allocs ! j)"
        proof cases
          case 1
          then show ?thesis using now [OF j] before [OF j] after [OF i] order [OF i] order [OF j] touch by linarith
        next
          case 2
          then show ?thesis using now [OF i] before [OF i] after [OF j] touch by linarith
        qed
        moreover have "?R later = ?R j" using same False root_later by (auto split: if_splits)
        ultimately show ?thesis using later(1) nth by (intro exI [of _ later]) simp
      qed
    qed
    ultimately show ?thesis using step by blast
  qed
qed

section \<open>The whole pass\<close>

text \<open>Allocations that differ in their aliases only.\<close>

definition same_but_aliases :: "storage_allocation list \<Rightarrow> storage_allocation list \<Rightarrow> bool" where
  "same_but_aliases allocs allocs' \<longleftrightarrow>
     map (\<lambda>a. a\<lparr>aliasOf := None\<rparr>) allocs' = map (\<lambda>a. a\<lparr>aliasOf := None\<rparr>) allocs"

lemma same_but_aliases_steps:
  assumes "same_but_aliases allocs allocs'" "\<forall>a \<in> set allocs. beginStep a \<le> endStep a"
  shows "\<forall>a \<in> set allocs'. beginStep a \<le> endStep a"
proof
  fix a assume "a \<in> set allocs'"
  then have "a\<lparr>aliasOf := None\<rparr> \<in> set (map (\<lambda>a. a\<lparr>aliasOf := None\<rparr>) allocs)"
    unfolding assms(1) [unfolded same_but_aliases_def, symmetric] by simp
  then obtain b where "b \<in> set allocs" "a\<lparr>aliasOf := None\<rparr> = b\<lparr>aliasOf := None\<rparr>" by auto
  then show "beginStep a \<le> endStep a" using assms(2)
    by (metis storage_allocation.select_convs(6,7) storage_allocation.surjective storage_allocation.update_convs(5))
qed

lemma same_but_aliases_update:
  "same_but_aliases allocs (allocs[i := (allocs ! i)\<lparr>aliasOf := al\<rparr>])"
  by (cases "i < length allocs") (simp_all add: same_but_aliases_def map_update list_update_same_conv list_update_beyond)

lemma same_but_aliases_nth:
  assumes "same_but_aliases allocs allocs'" "i < length allocs"
  shows "(allocs' ! i)\<lparr>aliasOf := None\<rparr> = (allocs ! i)\<lparr>aliasOf := None\<rparr>"
proof -
  have "map (\<lambda>a. a\<lparr>aliasOf := None\<rparr>) allocs' ! i = map (\<lambda>a. a\<lparr>aliasOf := None\<rparr>) allocs ! i"
    using assms(1) unfolding same_but_aliases_def by simp
  moreover have "length allocs' = length allocs" using assms(1) unfolding same_but_aliases_def by (metis length_map)
  ultimately show ?thesis using assms(2) by simp
qed

lemma reuse_pass_sound:
  assumes "forest allocs R rank" "shares_safely allocs R" "meets_in_place writer reads allocs R"
    and "\<forall>a \<in> set allocs. beginStep a \<le> endStep a"
    and "distinct order" "\<And>l. l \<in> set order \<Longrightarrow> l < length allocs \<and> aliasOf (allocs ! l) = None"
  shows "\<exists>allocs' R' rank'. reuse_pass writer reads order allocs = Some allocs' \<and> same_but_aliases allocs allocs' \<and>
    forest allocs' R' rank' \<and> shares_safely allocs' R' \<and> meets_in_place writer reads allocs' R'"
  using assms
proof (induction order arbitrary: allocs R rank)
  case Nil
  then show ?case by (auto simp: same_but_aliases_def)
next
  case (Cons later order)
  have later: "later < length allocs" "aliasOf (allocs ! later) = None" using Cons.prems(6) by simp_all
  obtain allocs1 R1 rank1 al where step: "reuse_step writer reads later allocs = Some allocs1"
    and allocs1: "allocs1 = allocs[later := (allocs ! later)\<lparr>aliasOf := al\<rparr>]"
    and ok: "forest allocs1 R1 rank1" "shares_safely allocs1 R1" "meets_in_place writer reads allocs1 R1"
    using reuse_step_sound [OF Cons.prems(1,2,3) later Cons.prems(4)] by blast
  have same: "same_but_aliases allocs allocs1" unfolding allocs1 by (rule same_but_aliases_update)
  have "\<exists>allocs' R' rank'. reuse_pass writer reads order allocs1 = Some allocs' \<and> same_but_aliases allocs1 allocs' \<and>
    forest allocs' R' rank' \<and> shares_safely allocs' R' \<and> meets_in_place writer reads allocs' R'"
  proof (rule Cons.IH [OF ok same_but_aliases_steps [OF same Cons.prems(4)]])
    show "distinct order" using Cons.prems(5) by simp
    fix l assume l: "l \<in> set order"
    then have "l \<noteq> later" "l < length allocs" "aliasOf (allocs ! l) = None" using Cons.prems(5,6) by auto
    then show "l < length allocs1 \<and> aliasOf (allocs1 ! l) = None" unfolding allocs1 by simp
  qed
  then obtain allocs' R' rank' where rest: "reuse_pass writer reads order allocs1 = Some allocs'"
    "same_but_aliases allocs1 allocs'" "forest allocs' R' rank'" "shares_safely allocs' R'"
    "meets_in_place writer reads allocs' R'" by blast
  have "reuse_pass writer reads (later # order) allocs = Some allocs'" using step rest(1) by simp
  moreover have "same_but_aliases allocs allocs'" using same rest(2) unfolding same_but_aliases_def by simp
  ultimately show ?case using rest(3,4,5) by blast
qed

text \<open>Fresh allocations: each has its own id and its own storage, and ends after it begins.\<close>

definition fresh_allocations :: "storage_allocation list \<Rightarrow> bool" where
  "fresh_allocations allocs \<longleftrightarrow> distinct (map alloc_id allocs) \<and>
     (\<forall>a \<in> set allocs. aliasOf a = None \<and> beginStep a \<le> endStep a)"

lemma reuse_storage_forest:
  assumes "fresh_allocations allocs"
  obtains allocs' R rank where "reuse_storage g writer allocs = Some allocs'" "same_but_aliases allocs allocs'"
    "forest allocs' R rank" "shares_safely allocs' R" "meets_in_place writer (node_reads g allocs) allocs' R"
    "\<forall>a \<in> set allocs'. beginStep a \<le> endStep a"
proof -
  have "forest allocs (\<lambda>i. i) (\<lambda>i. 0)" "shares_safely allocs (\<lambda>i. i)"
    "meets_in_place writer (node_reads g allocs) allocs (\<lambda>i. i)"
    using assms by (simp_all add: forest_def shares_safely_def meets_in_place_def fresh_allocations_def)
  moreover have steps: "\<forall>a \<in> set allocs. beginStep a \<le> endStep a" using assms by (simp add: fresh_allocations_def)
  moreover have "l < length allocs \<and> aliasOf (allocs ! l) = None" if "l \<in> set [0 ..< length allocs]" for l
    using assms that by (simp add: fresh_allocations_def)
  ultimately obtain allocs' R rank where "reuse_storage g writer allocs = Some allocs'" "same_but_aliases allocs allocs'"
    "forest allocs' R rank" "shares_safely allocs' R" "meets_in_place writer (node_reads g allocs) allocs' R"
    unfolding reuse_storage_def by (metis reuse_pass_sound distinct_upt)
  with same_but_aliases_steps steps that show ?thesis by blast
qed

text \<open>One allocation of a buffer gives way to another: it ends in an earlier step than the other begins, or in the very
  step, and then an allocation of the same buffer that begins in this step is an update in place.\<close>

definition gives_way ::
  "(nat \<Rightarrow> nat option) \<Rightarrow> (nat \<Rightarrow> nat list) \<Rightarrow> storage_allocation list \<Rightarrow> nat \<Rightarrow> nat \<Rightarrow> bool" where
  "gives_way writer reads allocs i j \<longleftrightarrow>
     endStep (allocs ! i) < beginStep (allocs ! j) \<or>
     endStep (allocs ! i) = beginStep (allocs ! j) \<and>
       (\<exists>l < length allocs. root_of allocs l = root_of allocs j \<and> beginStep (allocs ! l) = beginStep (allocs ! j) \<and>
          in_place writer reads (allocs ! l))"

text \<open>C23: For allocations with their own ids and storage, the reuse pass always ends, changes nothing but aliases, and
  shares safely. Of two allocations that end up in one buffer, one ends in a strictly earlier step than the other begins;
  the one exception is an update in place, where they meet in a step in which the writer of an allocation of this buffer
  reads the allocation it reuses. An allocation that shares a buffer is not borrowed storage, lies in the memory of the
  buffer and needs no more bytes and no more simultaneous versions than the buffer has.\<close>

theorem reuse_shares_safely:
  assumes "fresh_allocations allocs"
  shows "\<exists>allocs'. reuse_storage g writer allocs = Some allocs' \<and> same_but_aliases allocs allocs' \<and>
    (\<forall>i < length allocs. \<forall>j < length allocs. i \<noteq> j \<longrightarrow> root_of allocs' i = root_of allocs' j \<longrightarrow>
       gives_way writer (node_reads g allocs) allocs' i j \<or> gives_way writer (node_reads g allocs) allocs' j i) \<and>
    (\<forall>i < length allocs. root_of allocs' i \<noteq> i \<longrightarrow> fits_root (allocs ! i) (allocs ! root_of allocs' i))"
proof -
  let ?reads = "node_reads g allocs"
  obtain allocs' R rank where ok: "reuse_storage g writer allocs = Some allocs'" "same_but_aliases allocs allocs'"
    "forest allocs' R rank" "shares_safely allocs' R" "meets_in_place writer ?reads allocs' R"
    by (rule reuse_storage_forest [OF assms])
  have len: "length allocs' = length allocs" using ok(2) unfolding same_but_aliases_def by (metis length_map)
  have root: "root_of allocs' i = R i" "R i < length allocs" if "i < length allocs" for i
    using that root_of_forest [OF ok(3)] forest_root(1) [OF ok(3)] len by simp_all
  have nth: "beginStep (allocs' ! i) = beginStep (allocs ! i) \<and> endStep (allocs' ! i) = endStep (allocs ! i) \<and>
      borrowed (allocs' ! i) = borrowed (allocs ! i) \<and> memory (allocs' ! i) = memory (allocs ! i) \<and>
      alloc_bytes (allocs' ! i) = alloc_bytes (allocs ! i) \<and>
      simultaneousOccurrences (allocs' ! i) = simultaneousOccurrences (allocs ! i)" if "i < length allocs" for i
    using same_but_aliases_nth [OF ok(2) that]
    by (metis storage_allocation.select_convs storage_allocation.surjective storage_allocation.update_convs(5))
  have meet: "gives_way writer ?reads allocs' i j"
    if ij: "i < length allocs" "j < length allocs" "i \<noteq> j" and same: "R i = R j"
      and "endStep (allocs' ! i) \<le> beginStep (allocs' ! j)" for i j
  proof (cases "endStep (allocs' ! i) = beginStep (allocs' ! j)")
    case True
    then obtain l where "l < length allocs'" "R l = R j" "beginStep (allocs' ! l) = beginStep (allocs' ! j)"
      "in_place writer ?reads (allocs' ! l)" using ok(5) ij same len unfolding meets_in_place_def by metis
    then show ?thesis using True root len ij(2) unfolding gives_way_def by (intro disjI2 conjI exI [of _ l]) simp_all
  next
    case False
    then show ?thesis using that(5) unfolding gives_way_def by simp
  qed
  have "gives_way writer ?reads allocs' i j \<or> gives_way writer ?reads allocs' j i"
    if ij: "i < length allocs" "j < length allocs" "i \<noteq> j" and same: "root_of allocs' i = root_of allocs' j" for i j
  proof -
    have "R i = R j" using same root ij by simp
    then have "takes_turns (allocs' ! i) (allocs' ! j)" using ok(4) ij len unfolding shares_safely_def by metis
    with \<open>R i = R j\<close> show ?thesis using meet [OF ij] meet [of j i] ij unfolding takes_turns_def by auto
  qed
  moreover have "fits_root (allocs ! i) (allocs ! root_of allocs' i)" if "i < length allocs" "root_of allocs' i \<noteq> i" for i
    using ok(4) that root nth unfolding shares_safely_def fits_root_def len by metis
  ultimately show ?thesis using ok(1,2) by blast
qed

section \<open>What the peak is\<close>

text \<open>The bytes one memory holds at a step: each buffer that an allocation of that memory uses then, once.\<close>

definition held_at_step :: "storage_allocation list \<Rightarrow> nat \<Rightarrow> string \<Rightarrow> nat" where
  "held_at_step allocs t m =
     (\<Sum>r \<in> {root_of allocs i | i. i < length allocs \<and> memory (allocs ! i) = m \<and> beginStep (allocs ! i) \<le> t \<and> t \<le> endStep (allocs ! i)}.
        alloc_bytes (allocs ! r))"

lemma storage_chain_walk: "storage_chain allocs k seen i = Inr r \<Longrightarrow> root_walk allocs seen i = r"
proof (induction allocs k seen i rule: storage_chain.induct)
  case (1 allocs k seen i)
  show ?case
  proof (cases "i < length allocs \<and> aliasOf (allocs ! i) \<noteq> None")
    case False
    with "1.prems" show ?thesis
      by (subst root_walk.simps, subst (asm) storage_chain.simps) (auto split: if_splits)
  next
    case True
    then obtain goal where goal: "aliasOf (allocs ! i) = Some goal" by auto
    have own: "\<not> borrowed (allocs ! i)" "i \<notin> set seen"
      using "1.prems" True goal by (subst (asm) storage_chain.simps, auto split: if_splits)+
    with "1.prems" True goal obtain j where j: "index_by_id allocs goal = Some j"
      "storage_chain allocs k (seen @ [i]) j = Inr r" "\<not> borrowed (allocs ! j)"
      by (subst (asm) storage_chain.simps) (auto split: option.splits if_splits)
    have "root_walk allocs (seen @ [i]) j = r" using "1.IH" True goal own j by simp
    then show ?thesis using True goal own j by (subst root_walk.simps) simp
  qed
qed

lemma storage_root_Inr: "storage_root allocs i = Inr r \<Longrightarrow> root_of allocs i = r"
  by (auto simp: storage_root_def root_of_def dest: storage_chain_walk split: if_splits)

lemma fold_assign_facts:
  assumes "\<And>i. i \<in> set xs \<Longrightarrow> P i \<Longrightarrow> val i = g (ky i)"
  shows "smap_ok (fold (\<lambda>i m. if P i then smap_assign (ky i) (val i) m else m) xs []) \<and>
    map_of (fold (\<lambda>i m. if P i then smap_assign (ky i) (val i) m else m) xs []) k =
      (if \<exists>i \<in> set xs. P i \<and> ky i = k then Some (g k) else None)"
  using assms
proof (induction xs rule: rev_induct)
  case (snoc x xs)
  let ?G = "fold (\<lambda>i m. if P i then smap_assign (ky i) (val i) m else m) xs []"
  have IH: "smap_ok ?G" "map_of ?G k = (if \<exists>i \<in> set xs. P i \<and> ky i = k then Some (g k) else None)"
    using snoc by simp_all
  show ?case
  proof (cases "P x")
    case True
    then have "val x = g (ky x)" using snoc.prems by simp
    then show ?thesis using True IH by (auto simp: smap_ok_assign map_of_smap_assign)
  next
    case False
    then show ?thesis using IH by auto
  qed
qed simp

definition live_in :: "storage_allocation list \<Rightarrow> nat \<Rightarrow> nat \<Rightarrow> bool" where
  "live_in allocs t i \<longleftrightarrow> beginStep (allocs ! i) \<le> t \<and> t \<le> endStep (allocs ! i)"

lemma step_groups_facts:
  "smap_ok (step_groups allocs roots t) \<and> map_of (step_groups allocs roots t) (m, r) =
     (if \<exists>i < length allocs. live_in allocs t i \<and> memory (allocs ! i) = m \<and> roots ! i = r then Some (alloc_bytes (allocs ! r)) else None)"
proof -
  let ?key = "\<lambda>i. (memory (allocs ! i), roots ! i)" and ?val = "\<lambda>i. alloc_bytes (allocs ! (roots ! i))"
  have eq: "step_groups allocs roots t =
      fold (\<lambda>i m. if live_in allocs t i then smap_assign (?key i) (?val i) m else m) [0 ..< length allocs] []"
    unfolding step_groups_def live_in_def Let_def by (intro fold_cong) (auto simp: not_le)
  show ?thesis
    unfolding eq
    using fold_assign_facts [where xs = "[0 ..< length allocs]" and P = "live_in allocs t" and val = ?val
      and g = "\<lambda>(m, r). alloc_bytes (allocs ! r)" and ky = ?key and k = "(m, r)"]
    by auto
qed

lemma live_groups_Inr:
  assumes "live_groups gs live = Inr live'" "smap_ok live"
  shows "smap_ok live' \<and> held_in live' m = held_in live m + sum_list (map (\<lambda>((m', r), b). if m' = m then b else 0) gs)"
  using assms
proof (induction gs live rule: live_groups.induct)
  case (2 m' r b gs live)
  then have rest: "live_groups gs (smap_assign m' (held_in live m' + b) live) = Inr live'"
    and fit: "\<not> held_in live m' + b > uint64_max" by (auto split: if_splits)
  from "2.IH" [OF fit rest] "2.prems"(2) show ?case by (auto simp: held_in_assign smap_ok_assign)
qed simp

lemma step_total:
  assumes "live_groups (step_groups allocs (map (root_of allocs) [0 ..< length allocs]) t) [] = Inr live"
  shows "smap_ok live \<and> held_in live m = held_at_step allocs t m"
proof -
  let ?roots = "map (root_of allocs) [0 ..< length allocs]"
  let ?G = "step_groups allocs ?roots t"
  let ?f = "\<lambda>((m', r), b). if m' = m then b else (0 :: nat)"
  let ?A = "{root_of allocs i | i. i < length allocs \<and> memory (allocs ! i) = m \<and> beginStep (allocs ! i) \<le> t \<and> t \<le> endStep (allocs ! i)}"
  have ok: "smap_ok ?G" using step_groups_facts by blast
  have mem: "((m', r), b) \<in> set ?G \<longleftrightarrow> map_of ?G (m', r) = Some b" for m' r b using smap_find_iff [OF ok] by blast
  have keys: "distinct (map fst ?G)" using smap_ok_distinct [OF ok] .
  have "sum_list (map ?f ?G) = sum ?f (set ?G)"
    using keys by (intro sum_list_distinct_conv_sum_set) (simp add: distinct_map)
  also have "\<dots> = sum ?f {x \<in> set ?G. fst (fst x) = m}"
    by (rule sum.mono_neutral_right) (auto split: prod.splits)
  also have "\<dots> = sum ?f ((\<lambda>r. ((m, r), alloc_bytes (allocs ! r))) ` ?A)"
  proof (rule sum.cong)
    show "{x \<in> set ?G. fst (fst x) = m} = (\<lambda>r. ((m, r), alloc_bytes (allocs ! r))) ` ?A" (is "?l = ?r")
    proof (rule set_eqI)
      fix x :: "(string \<times> nat) \<times> nat"
      obtain m' r b where x: "x = ((m', r), b)" by (cases x) auto
      have "x \<in> ?l \<longleftrightarrow> m' = m \<and> map_of ?G (m', r) = Some b" unfolding x mem [symmetric] by auto
      also have "\<dots> \<longleftrightarrow> x \<in> ?r" unfolding x conjunct2 [OF step_groups_facts] live_in_def by auto
      finally show "x \<in> ?l \<longleftrightarrow> x \<in> ?r" .
    qed
  qed simp
  also have "\<dots> = held_at_step allocs t m"
    unfolding held_at_step_def by (subst sum.reindex) (auto simp: inj_on_def)
  finally show ?thesis using live_groups_Inr [OF assms, of m] by (simp add: held_in_def)
qed

lemma step_peaks_Inr:
  assumes "step_peaks allocs roots ts peak = Inr peak'" "roots = map (root_of allocs) [0 ..< length allocs]" "smap_ok peak"
  shows "smap_ok peak' \<and> held_in peak' m = fold max (map (\<lambda>t. held_at_step allocs t m) ts) (held_in peak m)"
  using assms
proof (induction allocs roots ts peak rule: step_peaks.induct)
  case (2 allocs roots t ts peak)
  obtain live where live: "live_groups (step_groups allocs roots t) [] = Inr live"
    and rest: "step_peaks allocs roots ts (raise_peaks live peak) = Inr peak'"
    using "2.prems"(1) by auto
  have ok: "smap_ok live" "held_in live m = held_at_step allocs t m"
    using step_total [OF live [unfolded "2.prems"(2)], of m] by auto
  note raised = raise_peaks_facts [OF ok(1) "2.prems"(3)]
  have "smap_ok peak' \<and> held_in peak' m =
      fold max (map (\<lambda>t. held_at_step allocs t m) ts) (held_in (raise_peaks live peak) m)"
    by (rule "2.IH" [OF rest "2.prems"(2)]) (use raised in simp)
  then show ?case using raised ok(2) by (simp add: max.commute)
qed simp

lemma min_step_le: "a \<in> set allocs \<Longrightarrow> min_step allocs \<le> beginStep a"
proof -
  have "fold (\<lambda>a m. min m (beginStep a)) xs x \<le> x \<and> (\<forall>a \<in> set xs. fold (\<lambda>a m. min m (beginStep a)) xs x \<le> beginStep a)" for xs x
  proof (induction xs arbitrary: x)
    case (Cons a xs)
    from Cons [of "min x (beginStep a)"] show ?case by auto
  qed simp
  then show "a \<in> set allocs \<Longrightarrow> min_step allocs \<le> beginStep a" unfolding min_step_def by blast
qed

lemma max_step_ge: "a \<in> set allocs \<Longrightarrow> endStep a \<le> max_step allocs"
proof -
  have "x \<le> fold (\<lambda>a m. max m (endStep a)) xs x \<and> (\<forall>a \<in> set xs. endStep a \<le> fold (\<lambda>a m. max m (endStep a)) xs x)" for xs x
  proof (induction xs arbitrary: x)
    case (Cons a xs)
    from Cons [of "max x (endStep a)"] show ?case by auto
  qed simp
  then show "a \<in> set allocs \<Longrightarrow> endStep a \<le> max_step allocs" unfolding max_step_def by blast
qed

lemma held_outside:
  assumes "t < min_step allocs \<or> max_step allocs < t"
  shows "held_at_step allocs t m = 0"
proof -
  have "\<not> (beginStep (allocs ! i) \<le> t \<and> t \<le> endStep (allocs ! i))" if "i < length allocs" for i
    using min_step_le [OF nth_mem [OF that]] max_step_ge [OF nth_mem [OF that]] assms by linarith
  then have "{root_of allocs i | i. i < length allocs \<and> memory (allocs ! i) = m \<and> beginStep (allocs ! i) \<le> t \<and> t \<le> endStep (allocs ! i)} = {}"
    by blast
  then show ?thesis unfolding held_at_step_def by (simp only: sum.empty)
qed

text \<open>The peak that computePeakStorage reports for a memory is the maximum over all steps of the bytes it holds,
  where allocations that share a buffer count once, with the bytes of the buffer.\<close>

theorem step_peak_exact:
  assumes "computePeakStorage allocs = Inr peak"
  shows "(\<forall>t. held_at_step allocs t m \<le> held_in peak m) \<and> (\<exists>t. held_at_step allocs t m = held_in peak m)"
proof (cases "allocs = []")
  case True
  then show ?thesis using assms by (simp add: computePeakStorage_def held_at_step_def held_in_def)
next
  case False
  let ?ts = "[min_step allocs ..< Suc (max_step allocs)]"
  obtain roots where roots: "map_result (storage_root allocs) [0 ..< length allocs] = Inr roots"
    and peaks: "step_peaks allocs roots ?ts [] = Inr peak"
    using assms False by (auto simp: computePeakStorage_def split: option.splits if_splits)
  have "roots = map (root_of allocs) [0 ..< length allocs]"
  proof (rule nth_equalityI)
    note facts = map_result_Inr [OF roots]
    then show "length roots = length (map (root_of allocs) [0 ..< length allocs])" by simp
    show "roots ! k = map (root_of allocs) [0 ..< length allocs] ! k" if "k < length roots" for k
      using that facts storage_root_Inr by simp
  qed
  then have held: "held_in peak m = fold max (map (\<lambda>t. held_at_step allocs t m) ?ts) 0"
    using step_peaks_Inr [OF peaks] by (simp add: held_in_def)
  note mx = fold_max_facts [of "map (\<lambda>t. held_at_step allocs t m) ?ts" 0]
  have "held_at_step allocs t m \<le> held_in peak m" for t
  proof (cases "t \<in> set ?ts")
    case True
    then show ?thesis using mx unfolding held by (metis image_eqI set_map)
  next
    case False
    then have "t < min_step allocs \<or> max_step allocs < t" by (auto simp: not_le)
    then show ?thesis by (simp only: held_outside)
  qed
  moreover have "held_at_step allocs (Suc (max_step allocs)) m = 0" by (rule held_outside) simp
  then have "\<exists>t. held_at_step allocs t m = held_in peak m" using mx unfolding held by auto
  ultimately show ?thesis by blast
qed

section \<open>The check accepts what the pass decides\<close>

lemma check_allocations_None:
  "check_allocations seen allocs = None \<longleftrightarrow>
     (\<forall>a \<in> set allocs. beginStep a \<le> endStep a) \<and> distinct (map alloc_id allocs) \<and> set (map alloc_id allocs) \<inter> set seen = {}"
  by (induction seen allocs rule: check_allocations.induct) (auto simp: not_less)

lemma storage_root_forest:
  assumes "forest allocs R rank" "shares_safely allocs R" "i < length allocs"
  shows "storage_root allocs i = Inr (R i)"
proof -
  have "storage_chain allocs i [] i = Inr (R i)" by (rule storage_chain_forest [OF assms]) simp
  moreover have "R i \<noteq> i \<Longrightarrow> fits_root (allocs ! i) (allocs ! R i)"
    using assms(2,3) unfolding shares_safely_def by blast
  ultimately show ?thesis by (cases "R i = i") (auto simp: storage_root_def fits_root_def)
qed

lemma map_result_all: "(\<And>x. x \<in> set xs \<Longrightarrow> f x = Inr (h x)) \<Longrightarrow> map_result f xs = Inr (map h xs)"
  by (induction xs) simp_all

lemma live_groups_Inl: "live_groups gs live = Inl e \<Longrightarrow> \<exists>m. e = LiveBytesOverflow m"
  by (induction gs live rule: live_groups.induct) (auto split: if_splits)

lemma step_peaks_Inl: "step_peaks allocs roots ts peak = Inl e \<Longrightarrow> \<exists>m. e = LiveBytesOverflow m"
  by (induction allocs roots ts peak rule: step_peaks.induct) (auto simp: bindR_Inl_iff dest: live_groups_Inl)

lemma weigh_allocations_Inr:
  "weigh_allocations allocs = Inr ws \<Longrightarrow> ws = map (\<lambda>a. a\<lparr>alloc_bytes := alloc_bytes a * simultaneousOccurrences a\<rparr>) allocs"
  by (induction allocs arbitrary: ws) (auto split: if_splits)

lemma weigh_allocations_Inl: "weigh_allocations allocs = Inl e \<Longrightarrow> \<exists>i. e = FootprintTooLarge i"
  by (induction allocs) (auto simp: bindR_Inl_iff split: if_splits)

lemma peak_of_forest:
  assumes "forest allocs R rank" "shares_safely allocs R" "\<forall>a \<in> set allocs. beginStep a \<le> endStep a"
    and "computePeakStorage allocs = Inl e"
  shows "e = StepRange \<or> (\<exists>m. e = LiveBytesOverflow m)"
proof -
  have "check_allocations [] allocs = None" using assms(1,3) by (simp add: check_allocations_None forest_def)
  moreover have "map_result (storage_root allocs) [0 ..< length allocs] = Inr (map R [0 ..< length allocs])"
    by (rule map_result_all) (use storage_root_forest [OF assms(1,2)] in simp)
  ultimately show ?thesis
    using assms(4) by (auto simp: computePeakStorage_def simp del: upt.simps dest: step_peaks_Inl split: if_splits)
qed

text \<open>The check of the aliases accepts what the reuse pass decides. The occupancy of its result, with every
  allocation weighted by its simultaneous versions, can be refused for its size only: a footprint or a sum of bytes
  that overflows, or a range of steps that is too long; never for a duplicate, cyclic, unknown, borrowed, misplaced or
  oversized alias.\<close>

theorem reuse_accepted:
  assumes "fresh_allocations allocs" "reuse_storage g writer allocs = Some allocs'" "step_occupancy allocs' = Inl e"
  shows "e = StepRange \<or> (\<exists>m. e = LiveBytesOverflow m) \<or> (\<exists>i. e = FootprintTooLarge i)"
proof (cases "weigh_allocations allocs'")
  case (Inl e')
  then have "e = e'" using assms(3) by (simp add: step_occupancy_def)
  with weigh_allocations_Inl [OF Inl] show ?thesis by blast
next
  case (Inr ws)
  note ws = weigh_allocations_Inr [OF Inr]
  obtain R rank where ok: "forest allocs' R rank" "shares_safely allocs' R" "\<forall>a \<in> set allocs'. beginStep a \<le> endStep a"
    using reuse_storage_forest [OF assms(1), of g writer] assms(2) by (metis option.inject)
  have ids: "map alloc_id ws = map alloc_id allocs'" unfolding ws by (simp add: o_def)
  have len: "length ws = length allocs'" unfolding ws by simp
  have nth: "ws ! i = (allocs' ! i)\<lparr>alloc_bytes := alloc_bytes (allocs' ! i) * simultaneousOccurrences (allocs' ! i)\<rparr>"
    if "i < length allocs'" for i unfolding ws using that by simp
  have "forest ws R rank"
    using ok(1) unfolding forest_def ids len index_by_id_same [OF ids] by (simp add: nth)
  moreover have "shares_safely ws R"
    unfolding shares_safely_def len
  proof (intro conjI allI impI)
    fix i assume i: "i < length allocs'"
    show "fits_root (ws ! i) (ws ! R i)" if "R i \<noteq> i"
    proof -
      have "fits_root (allocs' ! i) (allocs' ! R i)" using ok(2) i that unfolding shares_safely_def by blast
      then show ?thesis
        using nth [OF i] nth [OF forest_root(1) [OF ok(1) i]] by (simp add: fits_root_def mult_le_mono)
    qed
    fix j assume j: "j < length allocs'" and "i \<noteq> j" "R i = R j"
    then have "takes_turns (allocs' ! i) (allocs' ! j)" using ok(2) i unfolding shares_safely_def by blast
    then show "takes_turns (ws ! i) (ws ! j)" using nth i j by (simp add: takes_turns_def)
  qed
  moreover have "\<forall>a \<in> set ws. beginStep a \<le> endStep a" unfolding ws using ok(3) by simp
  moreover have "computePeakStorage ws = Inl e" using assms(3) Inr by (simp add: step_occupancy_def)
  ultimately show ?thesis using peak_of_forest by blast
qed

text \<open>Three values in one memory. The second is written by the node that reads the first and reads nothing else; the
  third begins after both have ended.\<close>

definition reuse_value :: "nat \<Rightarrow> nat \<Rightarrow> nat \<Rightarrow> nat \<Rightarrow> nat option \<Rightarrow> storage_allocation" where
  "reuse_value i v b e al = \<lparr>alloc_id = i, alloc_value = v, memory = ''l1'', alloc_bytes = 4, aliasOf = al, beginStep = b,
     endStep = e, borrowed = False, simultaneousOccurrences = 1\<rparr>"

definition reuse_example :: "storage_allocation list" where
  "reuse_example = [reuse_value 1 0 0 1 None, reuse_value 2 1 1 1 None, reuse_value 3 9 2 2 None]"

definition reuse_example_writer :: "nat \<Rightarrow> nat option" where
  "reuse_example_writer = (\<lambda>i. if i = 1 then Some 0 else if i = 2 then Some 1 else Some 7)"

lemma reuse_example_result:
  "reuse_storage (fst (finalize sum_graph)) reuse_example_writer reuse_example =
     Some [reuse_value 1 0 0 1 None, reuse_value 2 1 1 1 (Some 1), reuse_value 3 9 2 2 (Some 1)]"
  by code_simp

lemma reuse_example_fresh: "fresh_allocations reuse_example"
  by (simp add: fresh_allocations_def reuse_example_def reuse_value_def)

theorem reuse_shares_safely_witness:
  "let reads = node_reads (fst (finalize sum_graph)) reuse_example;
       after = [reuse_value 1 0 0 1 None, reuse_value 2 1 1 1 (Some 1), reuse_value 3 9 2 2 (Some 1)] in
   (gives_way reuse_example_writer reads after 0 1 \<or> gives_way reuse_example_writer reads after 1 0) \<and>
   (gives_way reuse_example_writer reads after 1 2 \<or> gives_way reuse_example_writer reads after 2 1) \<and>
   fits_root (reuse_example ! 1) (reuse_example ! 0)"
proof -
  let ?r = "[reuse_value 1 0 0 1 None, reuse_value 2 1 1 1 (Some 1), reuse_value 3 9 2 2 (Some 1)]"
  have "root_of ?r 0 = 0" "root_of ?r (Suc 0) = 0" "root_of ?r (Suc (Suc 0)) = 0" by code_simp+
  moreover have "length reuse_example = Suc (Suc (Suc 0))" by (simp add: reuse_example_def)
  ultimately show ?thesis
    using reuse_shares_safely [OF reuse_example_fresh, of "fst (finalize sum_graph)" reuse_example_writer]
    unfolding reuse_example_result Let_def numeral_2_eq_2 One_nat_def option.inject ex_simps simp_thms
    by (metis lessI less_Suc_eq n_not_Suc_n zero_less_Suc zero_neq_one One_nat_def)
qed

theorem step_peak_exact_witness:
  "(\<exists>t. held_at_step [reuse_value 1 2 0 1 None, reuse_value 2 3 1 1 (Some 1)] t ''l1'' = 4)"
proof -
  let ?r = "[reuse_value 1 2 0 1 None, reuse_value 2 3 1 1 (Some 1)]"
  have "map_result (storage_root ?r) [0 ..< length ?r] = Inr [0, 0]" by code_simp
  moreover have "step_groups ?r [0, 0] 0 = [((''l1'', 0), 4)]" "step_groups ?r [0, 0] 1 = [((''l1'', 0), 4)]" by code_simp+
  moreover have "check_allocations [] ?r = None" "min_step ?r = 0" "max_step ?r = 1" by code_simp+
  ultimately have "computePeakStorage ?r = Inr [(''l1'', 4)]"
    by (simp add: computePeakStorage_def kMaxStorageSteps_def held_in_def uint64_max_def raise_peaks_def)
  from step_peak_exact [OF this, of "''l1''"] show ?thesis by (simp add: held_in_def)
qed

text \<open>A buffer of the largest size, twice resident.\<close>

theorem reuse_accepted_witness:
  "step_occupancy [(reuse_value 1 2 0 1 None)\<lparr>alloc_bytes := uint64_max, simultaneousOccurrences := 2\<rparr>] = Inl (FootprintTooLarge 1) \<and>
   (FootprintTooLarge 1 = StepRange \<or> (\<exists>m. FootprintTooLarge 1 = LiveBytesOverflow m) \<or> (\<exists>i. FootprintTooLarge 1 = FootprintTooLarge i))"
proof -
  let ?a = "(reuse_value 1 2 0 1 None)\<lparr>alloc_bytes := uint64_max, simultaneousOccurrences := 2\<rparr>"
  have fresh: "fresh_allocations [?a]" by (simp add: fresh_allocations_def reuse_value_def)
  have "rootIndex [?a] 0 = Some 0" by (subst rootIndex.simps) (simp add: reuse_value_def)
  then have "reuse_storage sum_graph (\<lambda>_. None) [?a] = Some [?a]"
    by (simp add: reuse_storage_def reuse_step_def best_candidate_def reuse_admissible_def Let_def)
  moreover have "step_occupancy [?a] = Inl (FootprintTooLarge 1)"
    by (simp add: step_occupancy_def reuse_value_def uint64_max_def)
  ultimately show ?thesis using reuse_accepted [OF fresh, of sum_graph "\<lambda>_. None" "[?a]"] by simp
qed

text \<open>A copy that a movement stages has no writer; the pass then takes the reads of node 0 for its own, and the copy
  reuses a buffer in place.\<close>

lemma copy_reuses_in_place:
  "reuse_pass (\<lambda>_. None) (\<lambda>n. if n = 0 then [1] else []) [0, 1] [reuse_value 1 2 0 1 None, reuse_value 2 2 1 2 None] =
     Some [reuse_value 1 2 0 1 None, reuse_value 2 2 1 2 (Some 1)]"
  by code_simp

end
