(* ===== verification/PlanSteps.thy ===== *)
theory PlanSteps
  imports StorageReuse Worklist
begin

text \<open>
  The plan steps of \<^verbatim>\<open>finalizeStoragePlan\<close> in \<^verbatim>\<open>lib/Mapping/StoragePlan.cpp\<close>: producers and consumers of
  values, the topological order of the nodes, one compute step per node, one copy and one wait per movement hop,
  and the dependency edges between them. Graphs are finalized, so the id of a node is its position. The topological
  order is the traversal of \<open>Worklist\<close> that takes the smallest ready node. The lemmas show that the numbering of
  the steps follows the edges derived from connections, except those to nodes that read a carried value.
\<close>

section \<open>Data\<close>

datatype connection_kind = DirectKind | TransferKind | LayoutTransformKind | TransferAndTransformKind | ReplicateKind | ReduceKind

record layout_transform =
  srcLayout :: string
  dstLayout :: string
  srcMap :: "string option"
  dstMap :: "string option"
  memoryNode :: string
  computeResource :: string

text \<open>The fields of a connection that the step builder reads.\<close>

record plan_connection =
  pc_id :: nat
  pc_value :: nat
  pc_kind :: connection_kind
  pc_route :: "string list"
  pc_engines :: "string list"
  pc_transform :: "layout_transform option"
  pc_consumerPorts :: "port_ref list"

datatype plan_step_kind = ComputeStep | MovementStep | SynchronizationStep

record plan_step =
  ps_id :: nat
  ps_kind :: plan_step_kind
  ps_node :: nat
  ps_connection :: nat
  ps_hop :: "nat option"

record synchronization_step =
  sy_id :: nat
  waitsFor :: "nat list"
  precedes :: "port_ref list"
  requiresBarrier :: bool

record plan_movement_hop =
  mh_index :: nat
  srcMemoryNode :: string
  dstMemoryNode :: string
  hop_engine :: string
  sourceStorageId :: nat
  destinationStorageId :: nat
  movementStep :: nat
  waitStep :: nat

text \<open>The local variables of the function that number and record the steps.\<close>

record step_state =
  nextStep :: nat
  planSteps :: "plan_step list"
  computeStep :: "nat \<Rightarrow> nat option"
  connectionStep :: "nat \<Rightarrow> nat option"
  syncStep :: "nat \<Rightarrow> nat option"
  connectionHops :: "plan_movement_hop list list"
  emitted :: "bool list"
  synchronization :: "synchronization_step list"
  nextSyncId :: nat

datatype step_error = CyclicGraph | MissingNode nat

section \<open>Producers, consumers and the order of nodes\<close>

definition valueProducer :: "workload_graph \<Rightarrow> nat \<Rightarrow> nat option" where
  "valueProducer g v =
     map_of (rev (concat (map (\<lambda>n. map (\<lambda>p. (wp_value p, wn_id n)) (wn_outputs n)) (wg_nodes g)))) v"

definition valueConsumers :: "workload_graph \<Rightarrow> nat \<Rightarrow> nat list" where
  "valueConsumers g v =
     fold (\<lambda>n cs. if list_ex (\<lambda>p. storageValueOf g (wp_value p) = v) (wn_inputs n) \<and> wn_id n \<notin> set cs then cs @ [wn_id n] else cs)
       (wg_nodes g) []"

definition node_preds :: "workload_graph \<Rightarrow> nat list list" where
  "node_preds g = map (\<lambda>n. remdups (filter (\<lambda>p. p \<noteq> wn_id n)
     (List.map_filter (\<lambda>p. valueProducer g (storageValueOf g (wp_value p))) (wn_inputs n)))) (wg_nodes g)"

definition topo_order :: "workload_graph \<Rightarrow> nat list" where
  "topo_order g = visited (traverse pop_min (node_preds g) (length (node_preds g)) (start_traversal (node_preds g)))"

section \<open>Steps\<close>

definition materializesMovement :: "plan_connection \<Rightarrow> bool" where
  "materializesMovement c \<longleftrightarrow> pc_kind c \<noteq> DirectKind \<or> pc_transform c \<noteq> None \<or> length (pc_route c) > 1"

definition hopCountFor :: "plan_connection \<Rightarrow> nat" where
  "hopCountFor c = (if length (pc_route c) > 1 then length (pc_route c) - 1 else 0)"

definition stepPairs :: "plan_connection \<Rightarrow> nat" where
  "stepPairs c = (if hopCountFor c > 0 then hopCountFor c else 1)"

definition connectionsByValue :: "plan_connection list \<Rightarrow> nat \<Rightarrow> nat list" where
  "connectionsByValue conns v =
     sort_key (\<lambda>i. pc_id (conns ! i)) (filter (\<lambda>i. pc_value (conns ! i) = v) [0 ..< length conns])"

definition addStep :: "plan_step_kind \<Rightarrow> nat \<Rightarrow> nat \<Rightarrow> nat option \<Rightarrow> step_state \<Rightarrow> step_state" where
  "addStep k n c h s = s\<lparr>nextStep := nextStep s + 1,
     planSteps := planSteps s @ [\<lparr>ps_id = nextStep s, ps_kind = k, ps_node = n, ps_connection = c, ps_hop = h\<rparr>]\<rparr>"

definition emit_hop :: "plan_connection \<Rightarrow> nat \<Rightarrow> nat \<Rightarrow> step_state \<Rightarrow> step_state" where
  "emit_hop c index hop s =
     (let tag = (if hopCountFor c > 0 then Some hop else None);
          final = (hop + 1 = stepPairs c);
          movement = nextStep s;
          s = addStep MovementStep 0 (pc_id c) tag s;
          s = s\<lparr>nextSyncId := nextSyncId s + 1, synchronization := synchronization s @
            [\<lparr>sy_id = nextSyncId s, waitsFor = [pc_id c], precedes = (if final then pc_consumerPorts c else []),
              requiresBarrier = (length (pc_engines c) > 1)\<rparr>]\<rparr>;
          wait = nextStep s;
          s = addStep SynchronizationStep 0 (pc_id c) tag s;
          s = (if hopCountFor c > 0 then
                 s\<lparr>connectionHops := (connectionHops s)[index := connectionHops s ! index @
                   [\<lparr>mh_index = hop, srcMemoryNode = pc_route c ! hop, dstMemoryNode = pc_route c ! (hop + 1), hop_engine = [],
                     sourceStorageId = 0, destinationStorageId = 0, movementStep = movement, waitStep = wait\<rparr>]]\<rparr>
               else s);
          s = (if hop = 0 then s\<lparr>connectionStep := (connectionStep s)(pc_id c \<mapsto> movement)\<rparr> else s)
      in s\<lparr>syncStep := (syncStep s)(pc_id c \<mapsto> wait)\<rparr>)"

definition emitConnection :: "plan_connection list \<Rightarrow> nat \<Rightarrow> step_state \<Rightarrow> step_state" where
  "emitConnection conns index s =
     (let c = conns ! index in
      if \<not> materializesMovement c then s else fold (emit_hop c index) [0 ..< stepPairs c] s)"

definition emit_once :: "plan_connection list \<Rightarrow> nat \<Rightarrow> step_state \<Rightarrow> step_state" where
  "emit_once conns index s =
     (if emitted s ! index then s
      else let s = emitConnection conns index s in s\<lparr>emitted := (emitted s)[index := True]\<rparr>)"

fun emit_inputs :: "plan_connection list \<Rightarrow> nat list \<Rightarrow> nat list \<Rightarrow> step_state \<Rightarrow> step_state" where
  "emit_inputs conns seen [] s = s"
| "emit_inputs conns seen (v # vs) s =
     (if v \<in> set seen then emit_inputs conns seen vs s
      else emit_inputs conns (v # seen) vs (fold (emit_once conns) (connectionsByValue conns v) s))"

fun visit_nodes :: "workload_graph \<Rightarrow> plan_connection list \<Rightarrow> nat list \<Rightarrow> step_state \<Rightarrow> (step_error, step_state) expected" where
  "visit_nodes g conns [] s = Inr s"
| "visit_nodes g conns (n # ns) s =
     (case findNode g n of
        None \<Rightarrow> Inl (MissingNode n)
      | Some node \<Rightarrow>
          let s = emit_inputs conns [] (map wp_value (wn_inputs node)) s;
              k = nextStep s;
              s = addStep ComputeStep n 0 None s
          in visit_nodes g conns ns (s\<lparr>computeStep := (computeStep s)(n \<mapsto> k)\<rparr>))"

definition initial_steps :: "plan_connection list \<Rightarrow> step_state" where
  "initial_steps conns = \<lparr>nextStep = 0, planSteps = [], computeStep = (\<lambda>_. None), connectionStep = (\<lambda>_. None),
     syncStep = (\<lambda>_. None), connectionHops = replicate (length conns) [], emitted = replicate (length conns) False,
     synchronization = [], nextSyncId = 0\<rparr>"

definition build_steps :: "workload_graph \<Rightarrow> plan_connection list \<Rightarrow> (step_error, step_state) expected" where
  "build_steps g conns =
     (if length (topo_order g) \<noteq> length (wg_nodes g) then Inl CyclicGraph
      else bindR (visit_nodes g conns (topo_order g) (initial_steps conns))
        (\<lambda>s. Inr (fold (emit_once conns) [0 ..< length conns] s)))"

section \<open>Edges\<close>

definition edge :: "nat \<Rightarrow> nat \<Rightarrow> plan_step_edge" where
  "edge a b = \<lparr>pse_from = a, pse_to = b\<rparr>"

definition producer_edges :: "workload_graph \<Rightarrow> step_state \<Rightarrow> plan_connection \<Rightarrow> nat \<Rightarrow> plan_step_edge list" where
  "producer_edges g s c movement =
     (case valueProducer g (pc_value c) of
        None \<Rightarrow> []
      | Some n \<Rightarrow> (case computeStep s n of None \<Rightarrow> [] | Some k \<Rightarrow> [edge k movement]))"

definition consumer_edges :: "workload_graph \<Rightarrow> step_state \<Rightarrow> plan_connection \<Rightarrow> nat \<Rightarrow> plan_step_edge list" where
  "consumer_edges g s c tail =
     List.map_filter (\<lambda>n. map_option (edge tail) (computeStep s n)) (valueConsumers g (pc_value c))"

definition hop_edges :: "workload_graph \<Rightarrow> step_state \<Rightarrow> plan_connection \<Rightarrow> plan_movement_hop list \<Rightarrow> plan_step_edge list" where
  "hop_edges g s c hops =
     concat (map (\<lambda>h. (if h = 0 then producer_edges g s c (movementStep (hops ! h))
          else [edge (waitStep (hops ! (h - 1))) (movementStep (hops ! h))]) @
        [edge (movementStep (hops ! h)) (waitStep (hops ! h))]) [0 ..< length hops]) @
     consumer_edges g s c (waitStep (last hops))"

definition connection_edges :: "workload_graph \<Rightarrow> step_state \<Rightarrow> plan_connection list \<Rightarrow> nat \<Rightarrow> plan_step_edge list" where
  "connection_edges g s conns index =
     (let c = conns ! index; hops = connectionHops s ! index in
      case connectionStep s (pc_id c) of
        None \<Rightarrow> []
      | Some movement \<Rightarrow>
          if hops \<noteq> [] then hop_edges g s c hops
          else producer_edges g s c movement @
            (case syncStep s (pc_id c) of
               None \<Rightarrow> consumer_edges g s c movement
             | Some wait \<Rightarrow> edge movement wait # consumer_edges g s c wait))"

definition stepEdges :: "workload_graph \<Rightarrow> plan_connection list \<Rightarrow> step_state \<Rightarrow> plan_step_edge list" where
  "stepEdges g conns s =
     remdups_adj (sort_key (\<lambda>e. (pse_from e, pse_to e)) (concat (map (connection_edges g s conns) [0 ..< length conns])))"

section \<open>What emitting a connection does\<close>

lemma stepPairs_pos: "0 < stepPairs c"
  by (simp add: stepPairs_def)

definition hop_at :: "plan_connection \<Rightarrow> nat \<Rightarrow> nat \<Rightarrow> plan_movement_hop" where
  "hop_at c first h = \<lparr>mh_index = h, srcMemoryNode = pc_route c ! h, dstMemoryNode = pc_route c ! (h + 1), hop_engine = [],
     sourceStorageId = 0, destinationStorageId = 0, movementStep = first + 2 * h, waitStep = first + 2 * h + 1\<rparr>"

lemma emit_hop_fields:
  "nextStep (emit_hop c i h s) = nextStep s + 2" "computeStep (emit_hop c i h s) = computeStep s"
  "emitted (emit_hop c i h s) = emitted s"
  "connectionStep (emit_hop c i h s) = (if h = 0 then (connectionStep s)(pc_id c \<mapsto> nextStep s) else connectionStep s)"
  "syncStep (emit_hop c i h s) = (syncStep s)(pc_id c \<mapsto> nextStep s + 1)"
  "connectionHops (emit_hop c i h s) = (if hopCountFor c > 0 then (connectionHops s)[i := connectionHops s ! i @
     [\<lparr>mh_index = h, srcMemoryNode = pc_route c ! h, dstMemoryNode = pc_route c ! (h + 1), hop_engine = [],
       sourceStorageId = 0, destinationStorageId = 0, movementStep = nextStep s, waitStep = nextStep s + 1\<rparr>]]
     else connectionHops s)"
  by (simp_all add: emit_hop_def addStep_def Let_def)

lemma emit_hops:
  assumes "index < length (connectionHops s)"
  shows "nextStep (fold (emit_hop c index) [0 ..< m] s) = nextStep s + 2 * m \<and>
    computeStep (fold (emit_hop c index) [0 ..< m] s) = computeStep s \<and>
    emitted (fold (emit_hop c index) [0 ..< m] s) = emitted s \<and>
    connectionStep (fold (emit_hop c index) [0 ..< m] s) =
      (if m = 0 then connectionStep s else (connectionStep s)(pc_id c \<mapsto> nextStep s)) \<and>
    syncStep (fold (emit_hop c index) [0 ..< m] s) =
      (if m = 0 then syncStep s else (syncStep s)(pc_id c \<mapsto> nextStep s + 2 * m - 1)) \<and>
    connectionHops (fold (emit_hop c index) [0 ..< m] s) =
      (if hopCountFor c > 0 then (connectionHops s)[index := connectionHops s ! index @ map (hop_at c (nextStep s)) [0 ..< m]]
       else connectionHops s)"
proof (induction m)
  case (Suc m)
  define t where "t = fold (emit_hop c index) [0 ..< m] s"
  have "fold (emit_hop c index) [0 ..< Suc m] s = emit_hop c index m t" by (simp add: t_def)
  with Suc.IH [folded t_def] assms show ?case
    by (cases m) (auto simp: emit_hop_fields hop_at_def fun_eq_iff)
qed simp

section \<open>The numbering follows the edges\<close>

text \<open>A node reads a value under any name, that of a carried value included, or names it as an input of its own. In the
  plans considered, nodes are numbered by position, connections have their own ids, no node names what it writes
  itself, and a carried value that a connection moves has no node that writes it, since only the results of loops and
  the arguments of their bodies are carried. Nodes that read carried values are allowed.\<close>

definition reads_value :: "workload_graph \<Rightarrow> nat \<Rightarrow> nat \<Rightarrow> bool" where
  "reads_value g n v \<longleftrightarrow> (\<exists>p \<in> set (wn_inputs (wg_nodes g ! n)). storageValueOf g (wp_value p) = v)"

definition names_value :: "workload_graph \<Rightarrow> nat \<Rightarrow> nat \<Rightarrow> bool" where
  "names_value g n v \<longleftrightarrow> v \<in> wp_value ` set (wn_inputs (wg_nodes g ! n))"

definition plain_plan :: "workload_graph \<Rightarrow> plan_connection list \<Rightarrow> bool" where
  "plain_plan g conns \<longleftrightarrow>
     (\<forall>n < length (wg_nodes g). wn_id (wg_nodes g ! n) = n) \<and> distinct (map pc_id conns) \<and>
     (\<forall>n < length (wg_nodes g). \<forall>p \<in> set (wn_inputs (wg_nodes g ! n)). valueProducer g (wp_value p) \<noteq> Some n) \<and>
     (\<forall>c \<in> set conns. storageValueOf g (pc_value c) = pc_value c \<or> valueProducer g (pc_value c) = None)"

text \<open>The state after the nodes \<open>ns\<close>: an emitted connection has its steps in a row, after the step of its producer and
  before the steps of the nodes that name its value; no node among \<open>ns\<close> names the value of a connection that is not
  emitted yet.\<close>

definition placed :: "workload_graph \<Rightarrow> nat list \<Rightarrow> step_state \<Rightarrow> plan_connection \<Rightarrow> nat \<Rightarrow> bool" where
  "placed g ns s c i \<longleftrightarrow>
     (\<exists>first. connectionStep s (pc_id c) = Some first \<and> syncStep s (pc_id c) = Some (first + 2 * stepPairs c - 1) \<and>
        first + 2 * stepPairs c \<le> nextStep s \<and>
        connectionHops s ! i = (if hopCountFor c > 0 then map (hop_at c first) [0 ..< stepPairs c] else []) \<and>
        (\<forall>n k. valueProducer g (pc_value c) = Some n \<longrightarrow> computeStep s n = Some k \<longrightarrow> n \<in> set ns \<and> k < first) \<and>
        (\<forall>n. valueProducer g (pc_value c) = Some n \<longrightarrow> n \<in> set ns) \<and>
        (\<forall>n \<in> set ns. \<forall>k. names_value g n (pc_value c) \<longrightarrow> computeStep s n = Some k \<longrightarrow> first + 2 * stepPairs c \<le> k))"

definition numbered_inv :: "workload_graph \<Rightarrow> plan_connection list \<Rightarrow> nat list \<Rightarrow> step_state \<Rightarrow> bool" where
  "numbered_inv g conns ns s \<longleftrightarrow>
     length (emitted s) = length conns \<and> length (connectionHops s) = length conns \<and>
     (\<forall>n k. computeStep s n = Some k \<longrightarrow> n \<in> set ns \<and> k < nextStep s) \<and>
     (\<forall>i < length conns. if emitted s ! i \<and> materializesMovement (conns ! i) then placed g ns s (conns ! i) i
        else connectionStep s (pc_id (conns ! i)) = None \<and> syncStep s (pc_id (conns ! i)) = None \<and> connectionHops s ! i = []) \<and>
     (\<forall>i < length conns. \<not> emitted s ! i \<longrightarrow> (\<forall>n \<in> set ns. \<not> names_value g n (pc_value (conns ! i))))"

lemma numbered_inv_initial: "numbered_inv g conns [] (initial_steps conns)"
  by (simp add: numbered_inv_def initial_steps_def)

lemma placed_other:
  assumes "placed g ns s c i" "connectionStep s' (pc_id c) = connectionStep s (pc_id c)" "syncStep s' (pc_id c) = syncStep s (pc_id c)"
    "connectionHops s' ! i = connectionHops s ! i" "nextStep s \<le> nextStep s'" "computeStep s' = computeStep s"
  shows "placed g ns s' c i"
  using assms unfolding placed_def by fastforce

lemma emit_once_inv:
  assumes inv: "numbered_inv g conns ns s" and i: "i < length conns" and ids: "distinct (map pc_id conns)"
    and producer: "\<And>n. valueProducer g (pc_value (conns ! i)) = Some n \<Longrightarrow> n \<in> set ns"
  shows "numbered_inv g conns ns (emit_once conns i s) \<and> emitted (emit_once conns i s) ! i \<and>
    (\<forall>j. emitted s ! j \<longrightarrow> emitted (emit_once conns i s) ! j)"
proof (cases "emitted s ! i")
  case True
  then show ?thesis using inv by (simp add: emit_once_def)
next
  case False
  note v = inv [unfolded numbered_inv_def]
  let ?c = "conns ! i" and ?s = "emit_once conns i s"
  have len: "i < length (emitted s)" "i < length (connectionHops s)" using v i by simp_all
  have unread: "\<not> names_value g n (pc_value ?c)" if "n \<in> set ns" for n using v i False that by blast
  show ?thesis
  proof (cases "materializesMovement ?c")
    case moves: False
    then have s: "?s = s\<lparr>emitted := (emitted s)[i := True]\<rparr>" using False by (simp add: emit_once_def emitConnection_def)
    have "placed g ns ?s c j \<longleftrightarrow> placed g ns s c j" for c j unfolding placed_def s by simp
    then have "numbered_inv g conns ns ?s"
      unfolding numbered_inv_def using v moves len unfolding s by (auto simp: nth_list_update)
    then show ?thesis using len s by (auto simp: nth_list_update)
  next
    case True
    let ?t = "fold (emit_hop ?c i) [0 ..< stepPairs ?c] s"
    note t = emit_hops [OF len(2), of ?c "stepPairs ?c"]
    have s: "?s = ?t\<lparr>emitted := (emitted ?t)[i := True]\<rparr>" using False True by (simp add: emit_once_def emitConnection_def Let_def)
    have old: "connectionHops s ! i = []" using v i False by auto
    have "numbered_inv g conns ns ?s"
      unfolding numbered_inv_def
    proof (intro conjI allI ballI impI)
      show "length (emitted ?s) = length conns" "length (connectionHops ?s) = length conns" unfolding s using t v by simp_all
      show "n \<in> set ns" if "computeStep ?s n = Some k" for n k using that v t unfolding s by auto
      show "k < nextStep ?s" if "computeStep ?s n = Some k" for n k using that v t unfolding s by fastforce
    next
      fix j assume j: "j < length conns"
      show "if emitted ?s ! j \<and> materializesMovement (conns ! j) then placed g ns ?s (conns ! j) j
        else connectionStep ?s (pc_id (conns ! j)) = None \<and> syncStep ?s (pc_id (conns ! j)) = None \<and> connectionHops ?s ! j = []"
      proof (cases "j = i")
        case j_i: True
        have "placed g ns ?s ?c i"
          unfolding placed_def s using t v len producer unread old stepPairs_pos [of ?c]
          by (intro exI [of _ "nextStep s"]) (auto simp: nth_list_update)
        then show ?thesis using True j_i len t unfolding s by simp
      next
        case other: False
        then have "pc_id (conns ! j) \<noteq> pc_id ?c" using ids i j by (auto simp: distinct_conv_nth)
        then have same: "connectionStep ?s (pc_id (conns ! j)) = connectionStep s (pc_id (conns ! j))"
          "syncStep ?s (pc_id (conns ! j)) = syncStep s (pc_id (conns ! j))" "connectionHops ?s ! j = connectionHops s ! j"
          "nextStep s \<le> nextStep ?s" "computeStep ?s = computeStep s" "emitted ?s ! j = emitted s ! j"
          using t other unfolding s by auto
        have "if emitted s ! j \<and> materializesMovement (conns ! j) then placed g ns s (conns ! j) j
          else connectionStep s (pc_id (conns ! j)) = None \<and> syncStep s (pc_id (conns ! j)) = None \<and> connectionHops s ! j = []"
          using v j by blast
        then show ?thesis using placed_other [OF _ same(1-5)] same by (auto split: if_splits)
      qed
    next
      fix j n assume "j < length conns" "\<not> emitted ?s ! j" "n \<in> set ns"
      then show "\<not> names_value g n (pc_value (conns ! j))" using v len t unfolding s by (cases "j = i") auto
    qed
    then show ?thesis using len t unfolding s by (auto simp: nth_list_update)
  qed
qed

lemma fold_emit_inv:
  assumes ids: "distinct (map pc_id conns)"
  shows "numbered_inv g conns ns s \<Longrightarrow>
    (\<And>i. i \<in> set order \<Longrightarrow> i < length conns \<and> (\<forall>n. valueProducer g (pc_value (conns ! i)) = Some n \<longrightarrow> n \<in> set ns)) \<Longrightarrow>
    numbered_inv g conns ns (fold (emit_once conns) order s) \<and>
    (\<forall>i \<in> set order. emitted (fold (emit_once conns) order s) ! i) \<and>
    (\<forall>j. emitted s ! j \<longrightarrow> emitted (fold (emit_once conns) order s) ! j)"
proof (induction order arbitrary: s)
  case (Cons i order)
  have i: "i < length conns" "\<And>n. valueProducer g (pc_value (conns ! i)) = Some n \<Longrightarrow> n \<in> set ns"
    using Cons.prems(2) [of i] by auto
  have first: "numbered_inv g conns ns (emit_once conns i s) \<and> emitted (emit_once conns i s) ! i \<and>
    (\<forall>j. emitted s ! j \<longrightarrow> emitted (emit_once conns i s) ! j)"
    by (rule emit_once_inv [OF Cons.prems(1) i(1) ids]) (rule i(2))
  have "j < length conns \<and> (\<forall>n. valueProducer g (pc_value (conns ! j)) = Some n \<longrightarrow> n \<in> set ns)" if "j \<in> set order" for j
    using Cons.prems(2) [of j] that by simp
  with Cons.IH [OF conjunct1 [OF first] this] first show ?case by simp
qed simp

lemma emit_inputs_inv:
  assumes ids: "distinct (map pc_id conns)"
  shows "numbered_inv g conns ns s \<Longrightarrow>
    (\<And>i. i < length conns \<Longrightarrow> pc_value (conns ! i) \<in> set vs \<Longrightarrow>
      \<forall>n. valueProducer g (pc_value (conns ! i)) = Some n \<longrightarrow> n \<in> set ns) \<Longrightarrow>
    (\<And>i. i < length conns \<Longrightarrow> pc_value (conns ! i) \<in> set seen \<Longrightarrow> emitted s ! i) \<Longrightarrow>
    numbered_inv g conns ns (emit_inputs conns seen vs s) \<and>
    (\<forall>i < length conns. pc_value (conns ! i) \<in> set vs \<union> set seen \<longrightarrow> emitted (emit_inputs conns seen vs s) ! i)"
proof (induction vs arbitrary: seen s)
  case (Cons v vs)
  show ?case
  proof (cases "v \<in> set seen")
    case True
    have "numbered_inv g conns ns (emit_inputs conns seen vs s) \<and>
      (\<forall>i < length conns. pc_value (conns ! i) \<in> set vs \<union> set seen \<longrightarrow> emitted (emit_inputs conns seen vs s) ! i)"
      by (rule Cons.IH [OF Cons.prems(1)]) (use Cons.prems(2,3) in auto)
    then show ?thesis using True by auto
  next
    case False
    let ?s = "fold (emit_once conns) (connectionsByValue conns v) s"
    have "i < length conns \<and> (\<forall>n. valueProducer g (pc_value (conns ! i)) = Some n \<longrightarrow> n \<in> set ns)"
      if "i \<in> set (connectionsByValue conns v)" for i
      using that Cons.prems(2) [of i] by (auto simp: connectionsByValue_def)
    then have mid: "numbered_inv g conns ns ?s \<and> (\<forall>i \<in> set (connectionsByValue conns v). emitted ?s ! i) \<and>
        (\<forall>j. emitted s ! j \<longrightarrow> emitted ?s ! j)"
      by (rule fold_emit_inv [OF ids Cons.prems(1)])
    have "numbered_inv g conns ns (emit_inputs conns (v # seen) vs ?s) \<and>
      (\<forall>i < length conns. pc_value (conns ! i) \<in> set vs \<union> set (v # seen) \<longrightarrow> emitted (emit_inputs conns (v # seen) vs ?s) ! i)"
    proof (rule Cons.IH)
      show "numbered_inv g conns ns ?s" using mid by blast
      show "\<forall>n. valueProducer g (pc_value (conns ! i)) = Some n \<longrightarrow> n \<in> set ns"
        if "i < length conns" "pc_value (conns ! i) \<in> set vs" for i using Cons.prems(2) that by simp
      show "emitted ?s ! i" if "i < length conns" "pc_value (conns ! i) \<in> set (v # seen)" for i
      proof (cases "pc_value (conns ! i) = v")
        case True
        then have "i \<in> set (connectionsByValue conns v)" using that(1) by (simp add: connectionsByValue_def)
        with mid show ?thesis by blast
      next
        case False
        then have "emitted s ! i" using Cons.prems(3) that by simp
        with mid show ?thesis by blast
      qed
    qed
    then show ?thesis using False by auto
  qed
qed simp

lemma compute_step_inv:
  assumes inv: "numbered_inv g conns ns s" and fresh: "n \<notin> set ns"
    and emitted: "\<And>i. i < length conns \<Longrightarrow> names_value g n (pc_value (conns ! i)) \<Longrightarrow> emitted s ! i"
  shows "numbered_inv g conns (ns @ [n]) ((addStep ComputeStep n 0 None s)\<lparr>computeStep := (computeStep s)(n \<mapsto> nextStep s)\<rparr>)"
proof -
  let ?s = "(addStep ComputeStep n 0 None s)\<lparr>computeStep := (computeStep s)(n \<mapsto> nextStep s)\<rparr>"
  note v = inv [unfolded numbered_inv_def]
  have same: "nextStep ?s = nextStep s + 1" "connectionStep ?s = connectionStep s" "syncStep ?s = syncStep s"
    "connectionHops ?s = connectionHops s" "emitted ?s = emitted s" "computeStep ?s = (computeStep s)(n \<mapsto> nextStep s)"
    by (simp_all add: addStep_def)
  have placed: "placed g (ns @ [n]) ?s c i" if "placed g ns s c i" for c i
    using that fresh unfolding placed_def same by (elim exE, intro exI) (auto split: if_splits)
  show ?thesis
    unfolding numbered_inv_def same
  proof (intro conjI allI ballI impI)
    show "length (emitted s) = length conns" "length (connectionHops s) = length conns" using v by simp_all
    show "m \<in> set (ns @ [n])" "k < nextStep s + 1" if "((computeStep s)(n \<mapsto> nextStep s)) m = Some k" for m k
      using that v by (auto split: if_splits intro: less_SucI)
    show "if emitted s ! i \<and> materializesMovement (conns ! i) then placed g (ns @ [n]) ?s (conns ! i) i
      else connectionStep s (pc_id (conns ! i)) = None \<and> syncStep s (pc_id (conns ! i)) = None \<and> connectionHops s ! i = []"
      if "i < length conns" for i
      using v that placed by auto
    show "\<not> names_value g m (pc_value (conns ! i))" if "i < length conns" "\<not> emitted s ! i" "m \<in> set (ns @ [n])" for i m
      using v that emitted by auto
  qed
qed

section \<open>The whole construction\<close>

lemma length_node_preds [simp]: "length (node_preds g) = length (wg_nodes g)"
  by (simp add: node_preds_def)

lemma valueProducer_range:
  assumes "\<forall>n < length (wg_nodes g). wn_id (wg_nodes g ! n) = n" "valueProducer g v = Some n"
  shows "n < length (wg_nodes g)"
proof -
  have "(v, n) \<in> set (concat (map (\<lambda>n. map (\<lambda>p. (wp_value p, wn_id n)) (wn_outputs n)) (wg_nodes g)))"
    using map_of_SomeD [OF assms(2) [unfolded valueProducer_def]] by simp
  then obtain node where "node \<in> set (wg_nodes g)" "n = wn_id node" by auto
  then show ?thesis using assms(1) by (metis in_set_conv_nth)
qed

lemma set_map_filter: "set (List.map_filter f xs) = {y. \<exists>x \<in> set xs. f x = Some y}"
  by (induction xs) (auto simp: List.map_filter_simps split: option.splits)

lemma node_preds_nth:
  assumes "n < length (wg_nodes g)"
  shows "set (node_preds g ! n) = {q. q \<noteq> wn_id (wg_nodes g ! n) \<and>
    (\<exists>p \<in> set (wn_inputs (wg_nodes g ! n)). valueProducer g (storageValueOf g (wp_value p)) = Some q)}"
  using assms by (auto simp: node_preds_def set_map_filter)

lemma topo_facts:
  shows "distinct (topo_order g)" "set (topo_order g) \<subseteq> {..< length (wg_nodes g)}"
    and "k < length (topo_order g) \<Longrightarrow> set (node_preds g ! (topo_order g ! k)) \<subseteq> set (take k (topo_order g))"
  using min_heap.traversal_done(1) [of "node_preds g"] unfolding topo_order_def [symmetric] traversal_inv_def
  by (auto simp: topo_order_def)

lemma visit_nodes_inv:
  assumes plain: "plain_plan g conns" and inv: "numbered_inv g conns (take k (topo_order g)) s"
    and "k \<le> length (topo_order g)"
  shows "\<exists>s'. visit_nodes g conns (drop k (topo_order g)) s = Inr s' \<and> numbered_inv g conns (topo_order g) s'"
  using inv assms(3)
proof (induction "length (topo_order g) - k" arbitrary: k s)
  case 0
  then show ?case by simp
next
  case (Suc m)
  let ?topo = "topo_order g"
  let ?n = "?topo ! k" and ?ns = "take k ?topo"
  have k: "k < length ?topo" using Suc.hyps(2) by linarith
  have drop: "drop k ?topo = ?n # drop (Suc k) ?topo" using Cons_nth_drop_Suc [OF k] by simp
  have n: "?n < length (wg_nodes g)" using topo_facts(2) nth_mem [OF k] by auto
  have ids: "wn_id (wg_nodes g ! ?n) = ?n" "distinct (map pc_id conns)" using plain n unfolding plain_plan_def by blast+
  let ?vs = "map wp_value (wn_inputs (wg_nodes g ! ?n))"
  have producers: "\<forall>q. valueProducer g (pc_value (conns ! i)) = Some q \<longrightarrow> q \<in> set ?ns"
    if i: "i < length conns" and read: "pc_value (conns ! i) \<in> set ?vs" for i
  proof (intro allI impI)
    fix q assume q: "valueProducer g (pc_value (conns ! i)) = Some q"
    obtain p where p: "p \<in> set (wn_inputs (wg_nodes g ! ?n))" "pc_value (conns ! i) = wp_value p" using read by auto
    have "storageValueOf g (wp_value p) = wp_value p"
      using plain i q nth_mem [OF i] unfolding plain_plan_def p(2) [symmetric] by fastforce
    then have "valueProducer g (storageValueOf g (wp_value p)) = Some q" using q p(2) by simp
    moreover have "q \<noteq> ?n" using plain n p(1) q unfolding plain_plan_def p(2) by blast
    ultimately have "q \<in> set (node_preds g ! ?n)" using p(1) unfolding node_preds_nth [OF n] ids(1) by blast
    with topo_facts(3) [OF k] show "q \<in> set ?ns" by blast
  qed
  let ?s = "emit_inputs conns [] ?vs s"
  have mid: "numbered_inv g conns ?ns ?s \<and>
      (\<forall>i < length conns. pc_value (conns ! i) \<in> set ?vs \<union> set [] \<longrightarrow> emitted ?s ! i)"
    by (rule emit_inputs_inv [OF ids(2) Suc.prems(1) producers]) simp_all
  let ?t = "(addStep ComputeStep ?n 0 None ?s)\<lparr>computeStep := (computeStep ?s)(?n \<mapsto> nextStep ?s)\<rparr>"
  have "numbered_inv g conns (?ns @ [?n]) ?t"
  proof (rule compute_step_inv)
    show "numbered_inv g conns ?ns ?s" using mid by blast
    show "?n \<notin> set ?ns"
      using topo_facts(1) [of g] k by (auto simp: distinct_conv_nth in_set_conv_nth)
    fix i assume i: "i < length conns" "names_value g ?n (pc_value (conns ! i))"
    then have "pc_value (conns ! i) \<in> set ?vs" by (simp add: names_value_def)
    then show "emitted ?s ! i" using mid i by blast
  qed
  then have "numbered_inv g conns (take (Suc k) ?topo) ?t" using take_Suc_conv_app_nth [OF k] by simp
  then have "\<exists>s'. visit_nodes g conns (drop (Suc k) ?topo) ?t = Inr s' \<and> numbered_inv g conns ?topo s'"
    by (intro Suc.hyps(1)) (use Suc.hyps(2) k in simp_all)
  moreover have "findNode g ?n = Some (wg_nodes g ! ?n)" using n by (simp add: findNode_def)
  ultimately show ?case unfolding drop by (simp add: Let_def addStep_def)
qed

lemma preds_ok_node_preds: "\<forall>n < length (wg_nodes g). wn_id (wg_nodes g ! n) = n \<Longrightarrow> preds_ok (node_preds g)"
  unfolding preds_ok_def
proof (intro ballI)
  fix ps q assume ids: "\<forall>n < length (wg_nodes g). wn_id (wg_nodes g ! n) = n" and "ps \<in> set (node_preds g)" "q \<in> set ps"
  then obtain n where "n < length (wg_nodes g)" "q \<in> set (node_preds g ! n)" by (metis in_set_conv_nth length_node_preds)
  then show "q < length (node_preds g)" using valueProducer_range [OF ids] by (auto simp: node_preds_nth)
qed

lemma topo_complete: "length (topo_order g) = length (wg_nodes g) \<longleftrightarrow> set (topo_order g) = {..< length (wg_nodes g)}"
proof
  assume "length (topo_order g) = length (wg_nodes g)"
  then have "card (set (topo_order g)) = card {..< length (wg_nodes g)}" using topo_facts(1) [of g] by (simp add: distinct_card)
  then show "set (topo_order g) = {..< length (wg_nodes g)}" by (intro card_subset_eq topo_facts(2)) simp_all
next
  assume "set (topo_order g) = {..< length (wg_nodes g)}"
  then show "length (topo_order g) = length (wg_nodes g)" using distinct_card [OF topo_facts(1) [of g]] by simp
qed

lemma build_steps_inv:
  assumes plain: "plain_plan g conns" and built: "build_steps g conns = Inr s"
  shows "numbered_inv g conns (topo_order g) s \<and> (\<forall>i < length conns. emitted s ! i) \<and> set (topo_order g) = {..< length (wg_nodes g)}"
proof -
  have all: "set (topo_order g) = {..< length (wg_nodes g)}"
    using built topo_complete [of g] by (simp add: build_steps_def split: if_splits)
  obtain s1 where s1: "visit_nodes g conns (topo_order g) (initial_steps conns) = Inr s1" "numbered_inv g conns (topo_order g) s1"
    using visit_nodes_inv [OF plain, of 0 "initial_steps conns"] numbered_inv_initial by auto
  have s: "s = fold (emit_once conns) [0 ..< length conns] s1" using built s1(1) by (simp add: build_steps_def split: if_splits)
  have "i < length conns \<and> (\<forall>n. valueProducer g (pc_value (conns ! i)) = Some n \<longrightarrow> n \<in> set (topo_order g))"
    if "i \<in> set [0 ..< length conns]" for i
    using that valueProducer_range plain unfolding all plain_plan_def by auto
  then have "numbered_inv g conns (topo_order g) s \<and> (\<forall>i \<in> set [0 ..< length conns]. emitted s ! i)"
    unfolding s using fold_emit_inv [OF _ s1(2)] plain unfolding plain_plan_def by blast
  with all show ?thesis by simp
qed

lemma valueConsumers_reads:
  assumes "\<forall>n < length (wg_nodes g). wn_id (wg_nodes g ! n) = n" "n \<in> set (valueConsumers g v)"
  shows "n < length (wg_nodes g) \<and> reads_value g n v"
proof -
  let ?f = "\<lambda>n cs. if list_ex (\<lambda>p. storageValueOf g (wp_value p) = v) (wn_inputs n) \<and> wn_id n \<notin> set cs then cs @ [wn_id n] else cs"
  have "n \<in> set (fold ?f nodes cs) \<Longrightarrow>
      n \<in> set cs \<or> (\<exists>node \<in> set nodes. n = wn_id node \<and> (\<exists>p \<in> set (wn_inputs node). storageValueOf g (wp_value p) = v))" for nodes cs
  proof (induction nodes arbitrary: cs)
    case (Cons node nodes)
    from Cons.IH [of "?f node cs"] Cons.prems show ?case by (auto simp: list_ex_iff split: if_splits)
  qed simp
  from this [of "wg_nodes g" "[]"] assms(2) obtain node where node: "node \<in> set (wg_nodes g)" "n = wn_id node"
    "\<exists>p \<in> set (wn_inputs node). storageValueOf g (wp_value p) = v" unfolding valueConsumers_def by auto
  then show ?thesis using assms(1) unfolding reads_value_def by (metis in_set_conv_nth)
qed

lemma hop_edges_cases:
  assumes "e \<in> set (hop_edges g s c hops)"
  shows "e \<in> set (consumer_edges g s c (waitStep (last hops))) \<or> (\<exists>h < length hops.
    e \<in> set (if h = 0 then producer_edges g s c (movementStep (hops ! h))
      else [edge (waitStep (hops ! (h - 1))) (movementStep (hops ! h))]) \<or>
    e = edge (movementStep (hops ! h)) (waitStep (hops ! h)))"
proof (cases "e \<in> set (consumer_edges g s c (waitStep (last hops)))")
  case False
  define first_edges where "first_edges h = (if h = 0 then producer_edges g s c (movementStep (hops ! h))
      else [edge (waitStep (hops ! (h - 1))) (movementStep (hops ! h))])" for h
  have "e \<in> set (concat (map (\<lambda>h. first_edges h @ [edge (movementStep (hops ! h)) (waitStep (hops ! h))]) [0 ..< length hops]))"
    using assms False unfolding hop_edges_def first_edges_def set_append by blast
  then obtain h where "h < length hops" "e \<in> set (first_edges h) \<or> e = edge (movementStep (hops ! h)) (waitStep (hops ! h))"
    by auto
  then show ?thesis unfolding first_edges_def by blast
qed simp

text \<open>The edges to the nodes that read the value of a connection under the name of a carried value only.\<close>

definition carried_edge :: "workload_graph \<Rightarrow> plan_connection list \<Rightarrow> step_state \<Rightarrow> plan_step_edge \<Rightarrow> bool" where
  "carried_edge g conns s e \<longleftrightarrow>
     (\<exists>c \<in> set conns. \<exists>n < length (wg_nodes g). reads_value g n (pc_value c) \<and> \<not> names_value g n (pc_value c) \<and>
        syncStep s (pc_id c) = Some (pse_from e) \<and> computeStep s n = Some (pse_to e))"

text \<open>C26: The edges that step construction derives from the connections of a plan, before the reuse of storage adds its
  own, join existing steps, and each leads from a smaller to a larger step unless it is an edge from the last wait of a
  connection to a node that reads the value of the connection under the name of a carried value only. The steps are
  emitted when a node names the value, so such a node can come before the movement it waits for. In a plan without such
  readers, running the steps in the order of their ids respects all these edges.\<close>

theorem step_edges_forward:
  assumes "plain_plan g conns" "build_steps g conns = Inr s"
  shows "\<forall>e \<in> set (stepEdges g conns s).
    pse_from e < nextStep s \<and> pse_to e < nextStep s \<and> (pse_from e < pse_to e \<or> carried_edge g conns s e)"
proof
  fix e assume "e \<in> set (stepEdges g conns s)"
  then obtain i where i: "i < length conns" and e: "e \<in> set (connection_edges g s conns i)"
    by (auto simp: stepEdges_def)
  let ?c = "conns ! i"
  have ids: "\<forall>n < length (wg_nodes g). wn_id (wg_nodes g ! n) = n" using assms(1) unfolding plain_plan_def by blast
  note inv = build_steps_inv [OF assms]
  then have bound: "\<And>n k. computeStep s n = Some k \<Longrightarrow> k < nextStep s" unfolding numbered_inv_def by blast
  show "pse_from e < nextStep s \<and> pse_to e < nextStep s \<and> (pse_from e < pse_to e \<or> carried_edge g conns s e)"
  proof (cases "materializesMovement ?c")
    case False
    then have "connectionStep s (pc_id ?c) = None" using inv i unfolding numbered_inv_def by auto
    then show ?thesis using e by (simp add: connection_edges_def)
  next
    case True
    then have "placed g (topo_order g) s ?c i" using inv i unfolding numbered_inv_def by auto
    then obtain first where first: "connectionStep s (pc_id ?c) = Some first"
      "syncStep s (pc_id ?c) = Some (first + 2 * stepPairs ?c - 1)" "first + 2 * stepPairs ?c \<le> nextStep s"
      "connectionHops s ! i = (if hopCountFor ?c > 0 then map (hop_at ?c first) [0 ..< stepPairs ?c] else [])"
      and before: "\<And>n k. valueProducer g (pc_value ?c) = Some n \<Longrightarrow> computeStep s n = Some k \<Longrightarrow> k < first"
      and after: "\<And>n k. n \<in> set (topo_order g) \<Longrightarrow> names_value g n (pc_value ?c) \<Longrightarrow> computeStep s n = Some k \<Longrightarrow>
        first + 2 * stepPairs ?c \<le> k"
      unfolding placed_def by blast
    let ?last = "first + 2 * stepPairs ?c - 1"
    have pos: "0 < stepPairs ?c" by (rule stepPairs_pos)
    have producer: "pse_from e < pse_to e \<and> pse_to e < nextStep s" if mem: "e \<in> set (producer_edges g s ?c first)"
    proof -
      obtain n k where "valueProducer g (pc_value ?c) = Some n" "computeStep s n = Some k" "e = edge k first"
        using mem by (auto simp: producer_edges_def dest!: sym [of "Some _"] split: option.splits)
      then show ?thesis using before first(3) pos by (simp add: edge_def)
    qed
    have consumer: "pse_from e < nextStep s \<and> pse_to e < nextStep s \<and> (pse_from e < pse_to e \<or> carried_edge g conns s e)"
      if mem: "e \<in> set (consumer_edges g s ?c ?last)"
    proof -
      obtain n k where n: "n \<in> set (valueConsumers g (pc_value ?c))" "computeStep s n = Some k" "e = edge ?last k"
        using mem by (auto simp: consumer_edges_def set_map_filter)
      note reads = valueConsumers_reads [OF ids n(1)]
      have "pse_from e < pse_to e \<or> carried_edge g conns s e"
      proof (cases "names_value g n (pc_value ?c)")
        case True
        then have "first + 2 * stepPairs ?c \<le> k" using after n(2) reads inv by blast
        then have "?last < k" using pos by linarith
        then show ?thesis using n(3) by (simp add: edge_def)
      next
        case False
        have "?c \<in> set conns" using i by simp
        then have "carried_edge g conns s e"
          unfolding carried_edge_def using False reads first(2) n(2,3) by (intro bexI [of _ ?c] exI [of _ n]) (simp_all add: edge_def)
        then show ?thesis ..
      qed
      then show ?thesis using n(3) bound [OF n(2)] pos first(3) by (simp add: edge_def)
    qed
    show ?thesis
    proof (cases "hopCountFor ?c > 0")
      case hops: True
      have hop: "connectionHops s ! i ! h = hop_at ?c first h" if "h < stepPairs ?c" for h using first(4) hops that by simp
      have len: "length (connectionHops s ! i) = stepPairs ?c" using first(4) hops by simp
      then have "connectionHops s ! i \<noteq> []" using pos by auto
      then have last: "waitStep (last (connectionHops s ! i)) = ?last"
        using hop [of "stepPairs ?c - 1"] pos len by (simp add: last_conv_nth hop_at_def)
      have "e \<in> set (hop_edges g s ?c (connectionHops s ! i))"
        using e first(1) \<open>connectionHops s ! i \<noteq> []\<close> by (simp add: connection_edges_def Let_def)
      then have "e \<in> set (consumer_edges g s ?c ?last) \<or> (\<exists>h < stepPairs ?c.
          e \<in> set (if h = 0 then producer_edges g s ?c (movementStep (connectionHops s ! i ! h))
            else [edge (waitStep (connectionHops s ! i ! (h - 1))) (movementStep (connectionHops s ! i ! h))]) \<or>
          e = edge (movementStep (connectionHops s ! i ! h)) (waitStep (connectionHops s ! i ! h)))"
        using hop_edges_cases [of e g s ?c "connectionHops s ! i"] unfolding last len by blast
      then consider h where "h < stepPairs ?c" "e \<in> set (if h = 0 then producer_edges g s ?c (movementStep (connectionHops s ! i ! h))
            else [edge (waitStep (connectionHops s ! i ! (h - 1))) (movementStep (connectionHops s ! i ! h))])"
        | h where "h < stepPairs ?c" "e = edge (movementStep (connectionHops s ! i ! h)) (waitStep (connectionHops s ! i ! h))"
        | "e \<in> set (consumer_edges g s ?c ?last)" by blast
      then show ?thesis
      proof cases
        case (1 h)
        show ?thesis
        proof (cases "h = 0")
          case True
          then show ?thesis using 1 producer hop [of h] by (simp add: hop_at_def)
        next
          case False
          then have "pse_from e < pse_to e \<and> pse_to e < nextStep s"
            using 1 hop [of h] hop [of "h - 1"] first(3) by (simp add: hop_at_def edge_def)
          then show ?thesis by simp
        qed
      next
        case (2 h)
        then have "pse_from e < pse_to e \<and> pse_to e < nextStep s" using hop [of h] first(3) by (simp add: hop_at_def edge_def)
        then show ?thesis by simp
      next
        case 3
        then show ?thesis by (rule consumer)
      qed
    next
      case False
      then have "connectionHops s ! i = []" using first(4) by simp
      then have "e \<in> set (producer_edges g s ?c first) \<or> e = edge first ?last \<or> e \<in> set (consumer_edges g s ?c ?last)"
        using e first(1,2) by (auto simp: connection_edges_def Let_def)
      moreover have "e = edge first ?last \<Longrightarrow> pse_from e < pse_to e \<and> pse_to e < nextStep s"
        using pos first(3) by (auto simp: edge_def)
      ultimately show ?thesis using producer consumer by (meson less_trans)
    qed
  qed
qed

text \<open>Step construction refuses a finalized graph exactly when the dependencies between its nodes have a cycle, and then
  reports the cycle.\<close>

theorem build_steps_refuses_cycles:
  assumes "plain_plan g conns"
  shows "build_steps g conns = Inl e \<longleftrightarrow> e = CyclicGraph \<and> \<not> acyclic (dependency_edges (node_preds g))"
proof -
  have ids: "\<forall>n < length (wg_nodes g). wn_id (wg_nodes g ! n) = n" using assms unfolding plain_plan_def by blast
  have acyclic: "length (topo_order g) = length (wg_nodes g) \<longleftrightarrow> acyclic (dependency_edges (node_preds g))"
    using min_heap.traversal_complete_iff [OF preds_ok_node_preds [OF ids]] topo_complete [of g]
    unfolding topo_order_def by simp
  obtain s1 where "visit_nodes g conns (topo_order g) (initial_steps conns) = Inr s1"
    using visit_nodes_inv [OF assms, of 0 "initial_steps conns"] numbered_inv_initial by auto
  then show ?thesis using acyclic by (auto simp: build_steps_def)
qed

text \<open>A value that crosses from one memory to another between its producer and its reader.\<close>

definition pair_graph :: workload_graph where
  "pair_graph = \<lparr>wg_nodes = [(plain_node ''add'' [2, 3] [0] 0)\<lparr>wn_id := 0\<rparr>, (plain_node ''neg'' [0] [1] 1)\<lparr>wn_id := 1\<rparr>],
     wg_values = [plain_value 0 ''f32'' ''add.result0'' False, plain_value 1 ''f32'' ''neg.result0'' False,
       plain_value 2 ''f32'' ''arg0'' True, plain_value 3 ''f32'' ''arg1'' True]\<rparr>"

definition pair_connections :: "plan_connection list" where
  "pair_connections = [\<lparr>pc_id = 5, pc_value = 0, pc_kind = TransferKind, pc_route = [''dram'', ''l2'', ''l1''], pc_engines = [''dma''],
     pc_transform = None, pc_consumerPorts = [\<lparr>ref_node = 1, ref_direction = InputPort, ref_index = 0\<rparr>]\<rparr>]"

lemma pair_plain: "plain_plan pair_graph pair_connections"
  unfolding plain_plan_def by code_simp

lemma pair_steps_forward:
  "case build_steps pair_graph pair_connections of Inl e \<Rightarrow> False
   | Inr s \<Rightarrow> stepEdges pair_graph pair_connections s = [edge 0 1, edge 1 2, edge 2 3, edge 3 4, edge 4 5]"
  by code_simp

text \<open>A reader of a carried value that runs before the movement of the value it carries: node 1 reads value 2, whose
  storage is value 0; node 2 reads value 0 through the connection. The wait, step 3, gets an edge to the compute step
  1 of node 1.\<close>

definition carried_graph :: workload_graph where
  "carried_graph = \<lparr>wg_nodes = [(plain_node ''p'' [] [0] 0)\<lparr>wn_id := 0\<rparr>, (plain_node ''c'' [2] [1] 1)\<lparr>wn_id := 1\<rparr>,
       (plain_node ''d'' [0] [3] 2)\<lparr>wn_id := 2\<rparr>],
     wg_values = [plain_value 0 ''f32'' ''p'' False, plain_value 1 ''f32'' ''c'' False,
       (plain_value 2 ''f32'' ''loop'' True)\<lparr>loopCarried := True, carriedFrom := Some 0\<rparr>, plain_value 3 ''f32'' ''d'' False]\<rparr>"

definition carried_connections :: "plan_connection list" where
  "carried_connections = map (\<lambda>c. c\<lparr>pc_route := [''dram'', ''l1'']\<rparr>) pair_connections"

lemma carried_plain: "plain_plan carried_graph carried_connections"
  unfolding plain_plan_def by code_simp

lemma carried_reader_before_movement:
  "case build_steps carried_graph carried_connections of Inl e \<Rightarrow> False
   | Inr s \<Rightarrow> stepEdges carried_graph carried_connections s = [edge 0 2, edge 2 3, edge 3 1, edge 3 4]"
  by code_simp

theorem step_edges_forward_witness:
  "\<exists>s. build_steps carried_graph carried_connections = Inr s \<and>
     stepEdges carried_graph carried_connections s = [edge 0 2, edge 2 3, edge 3 1, edge 3 4] \<and>
     4 < nextStep s \<and> carried_edge carried_graph carried_connections s (edge 3 1)"
proof -
  obtain s where s: "build_steps carried_graph carried_connections = Inr s"
    "stepEdges carried_graph carried_connections s = [edge 0 2, edge 2 3, edge 3 1, edge 3 4]"
    using carried_reader_before_movement by (cases "build_steps carried_graph carried_connections") simp_all
  then have "4 < nextStep s" "carried_edge carried_graph carried_connections s (edge 3 1)"
    using step_edges_forward [OF carried_plain s(1)] unfolding s(2) by (simp_all add: edge_def)
  with s show ?thesis by blast
qed

text \<open>Two nodes that read each other.\<close>

definition loop_graph :: workload_graph where
  "loop_graph = \<lparr>wg_nodes = [(plain_node ''a'' [1] [0] 0)\<lparr>wn_id := 0\<rparr>, (plain_node ''b'' [0] [1] 1)\<lparr>wn_id := 1\<rparr>],
     wg_values = [plain_value 0 ''f32'' ''a'' False, plain_value 1 ''f32'' ''b'' False]\<rparr>"

theorem build_steps_refuses_cycles_witness:
  "build_steps loop_graph [] = Inl CyclicGraph \<and> \<not> acyclic (dependency_edges (node_preds loop_graph))"
proof -
  have "plain_plan loop_graph []"
    unfolding plain_plan_def by code_simp
  moreover have "topo_order loop_graph = []" by code_simp
  then have "build_steps loop_graph [] = Inl CyclicGraph" by (simp add: build_steps_def loop_graph_def)
  ultimately show ?thesis using build_steps_refuses_cycles by blast
qed


end
