(* ===== verification/Invocation.thy ===== *)
theory Invocation
  imports Shape Hash
begin

text \<open>
  The call boundary of a compiled kernel: \<^verbatim>\<open>runtime/MappedInvocation.cpp\<close> with
  \<^verbatim>\<open>include/LLK/Runtime/KernelAbi.h\<close> and \<^verbatim>\<open>include/LLK/Runtime/MappedInvocation.h\<close>. The ABI of a kernel
  and its validation, its hash, and the checks that a list of buffers passes before any code runs.
  The lemmas show what an accepted call guarantees: every element access stays inside the allocation
  of its buffer, outputs touch nothing another buffer touches, and the extents agree with the symbols.

  Pointers are numbers below \<open>2 ^ 64\<close>, and 0 is the null pointer. Unsigned sums and products wrap
  (\<open>wrap64\<close>) behind the guards the code has for them.
\<close>

section \<open>Data\<close>

definition kMappedAbiVersionV1 :: nat where "kMappedAbiVersionV1 = 1"
definition kMappedAbiVersionV2 :: nat where "kMappedAbiVersionV2 = 2"
definition kMappedMaxDescriptors :: nat where "kMappedMaxDescriptors = 12"

datatype abi_port_role = InputRole | OutputRole

record kernel_abi_argument =
  role :: abi_port_role
  arg_port :: nat

record kernel_port =
  kp_shape :: "int list"
  kp_elementType :: string
  kp_dimensions :: "dimension list"

record kernel_abi =
  ka_inputs :: "kernel_port list"
  ka_outputs :: "kernel_port list"
  ka_version :: nat
  ka_arguments :: "kernel_abi_argument list"
  ka_results :: "nat list"
  ka_symbols :: "(string, symbol_constraint) smap"

definition isSymbolicKernelAbi :: "kernel_abi \<Rightarrow> bool" where
  "isSymbolicKernelAbi abi \<longleftrightarrow> ka_version abi = kMappedAbiVersionV2"

record memref2d =
  allocated :: nat
  aligned :: nat
  md_offset :: int
  size0 :: int
  size1 :: int
  stride0 :: int
  stride1 :: int

text \<open>The tag is set by the caller; an \<^verbatim>\<open>enum class\<close> can also hold a value no enumerator has.\<close>

datatype element_type = F32 | BF16 | F16 | I32 | I8 | OtherTag int

record invocation_buffer =
  descriptor :: memref2d
  buf_elementType :: element_type
  allocationBytes :: nat

record type_info =
  ti_name :: "string option"
  ti_bytes :: nat

record span =
  sp_begin :: nat
  sp_end :: nat

text \<open>One constructor per diagnostic. The side (\<^verbatim>\<open>"input"\<close> or \<^verbatim>\<open>"output"\<close>) is the direction.\<close>

datatype invocation_error =
    UnsupportedTag port_direction nat
  | DtypeMismatch port_direction nat
  | ExtentMismatch port_direction nat
  | NullPointer port_direction nat
  | NonzeroOffset port_direction nat
  | NotRowMajor port_direction nat
  | RangeSizeOverflow port_direction nat
  | AllocationOverflow port_direction nat
  | AlignedOutside port_direction nat
  | TouchedOverflow port_direction nat
  | TouchedExceeds port_direction nat
  | NegativeDescriptor port_direction nat
  | EmptyNotNull port_direction nat
  | InputArity
  | OutputArity
  | OverlapsInput nat nat
  | OverlapsOutput nat nat
  | UnsupportedVersion nat
  | TooManyDescriptors
  | NotRankTwo port_direction nat
  | NotPositive port_direction nat
  | UnsupportedElementType port_direction nat string
  | ContractRejected shape_error
  | NoArguments
  | ArgumentOutOfRange nat
  | ArgumentRebinds nat
  | PortUnbound port_direction nat
  | ResultUnbound nat
  | ExtentsConflict shape_error

section \<open>Arithmetic and spans\<close>

definition to_uint64 :: "int \<Rightarrow> nat" where "to_uint64 v = nat (v mod 18446744073709551616)"

definition checkedMul :: "nat \<Rightarrow> nat \<Rightarrow> nat option" where
  "checkedMul lhs rhs =
     (if rhs \<noteq> 0 \<and> lhs > uint64_max div rhs then None else Some (wrap64 (lhs * rhs)))"

fun getTypeInfo :: "element_type \<Rightarrow> type_info" where
  "getTypeInfo F32 = \<lparr>ti_name = Some ''f32'', ti_bytes = 4\<rparr>"
| "getTypeInfo BF16 = \<lparr>ti_name = Some ''bf16'', ti_bytes = 2\<rparr>"
| "getTypeInfo F16 = \<lparr>ti_name = Some ''f16'', ti_bytes = 2\<rparr>"
| "getTypeInfo I32 = \<lparr>ti_name = Some ''i32'', ti_bytes = 4\<rparr>"
| "getTypeInfo I8 = \<lparr>ti_name = Some ''i8'', ti_bytes = 1\<rparr>"
| "getTypeInfo (OtherTag _) = \<lparr>ti_name = None, ti_bytes = 0\<rparr>"

definition overlaps :: "span \<Rightarrow> span \<Rightarrow> bool" where
  "overlaps lhs rhs \<longleftrightarrow> sp_begin lhs < sp_end rhs \<and> sp_begin rhs < sp_end lhs"

fun first_overlap :: "span list \<Rightarrow> span \<Rightarrow> nat option" where
  "first_overlap [] s = None"
| "first_overlap (t # ts) s = (if overlaps t s then Some 0 else map_option Suc (first_overlap ts s))"

text \<open>The checks that an output overlaps no input and no earlier output.\<close>

definition output_overlap :: "nat \<Rightarrow> span list \<Rightarrow> span list \<Rightarrow> span \<Rightarrow> invocation_error option" where
  "output_overlap i inputSpans outputSpans s =
     (case first_overlap inputSpans s of
        Some j \<Rightarrow> Some (OverlapsInput i j)
      | None \<Rightarrow> map_option (OverlapsOutput i) (first_overlap outputSpans s))"

text \<open>The common end of \<^verbatim>\<open>validateVersion1Buffer\<close> and \<^verbatim>\<open>validateSymbolicRange\<close>.\<close>

definition check_range ::
  "invocation_buffer \<Rightarrow> port_direction \<Rightarrow> nat \<Rightarrow> nat \<Rightarrow> (invocation_error, span) expected" where
  "check_range b kind index requiredBytes =
     (let d = descriptor b; info = getTypeInfo (buf_elementType b) in
      if allocationBytes b > uint64_max - allocated d then Inl (AllocationOverflow kind index)
      else let allocationEnd = wrap64 (allocated d + allocationBytes b) in
      if aligned d mod ti_bytes info \<noteq> 0 \<or> aligned d < allocated d \<or> aligned d > allocationEnd
        then Inl (AlignedOutside kind index)
      else if requiredBytes > uint64_max - aligned d then Inl (TouchedOverflow kind index)
      else let finish = wrap64 (aligned d + requiredBytes) in
      if finish > allocationEnd then Inl (TouchedExceeds kind index)
      else Inr \<lparr>sp_begin = aligned d, sp_end = finish\<rparr>)"

definition required_bytes :: "memref2d \<Rightarrow> nat \<Rightarrow> nat option" where
  "required_bytes d bytes =
     (case checkedMul (to_uint64 (size0 d)) (to_uint64 (size1 d)) of
        None \<Rightarrow> None
      | Some elements \<Rightarrow> checkedMul elements bytes)"

section \<open>Version 1\<close>

definition validateVersion1Buffer ::
  "kernel_port \<Rightarrow> invocation_buffer \<Rightarrow> port_direction \<Rightarrow> nat \<Rightarrow> (invocation_error, span) expected" where
  "validateVersion1Buffer port b kind index =
     (let d = descriptor b; info = getTypeInfo (buf_elementType b) in
      if ti_name info = None then Inl (UnsupportedTag kind index)
      else if Some (kp_elementType port) \<noteq> ti_name info then Inl (DtypeMismatch kind index)
      else if size0 d \<noteq> kp_shape port ! 0 \<or> size1 d \<noteq> kp_shape port ! 1 then Inl (ExtentMismatch kind index)
      else if allocated d = 0 \<or> aligned d = 0 then Inl (NullPointer kind index)
      else if md_offset d \<noteq> 0 then Inl (NonzeroOffset kind index)
      else if stride0 d \<noteq> size1 d \<or> stride1 d \<noteq> 1 then Inl (NotRowMajor kind index)
      else case required_bytes d (ti_bytes info) of
        None \<Rightarrow> Inl (RangeSizeOverflow kind index)
      | Some requiredBytes \<Rightarrow> check_range b kind index requiredBytes)"

fun version1_inputs ::
  "nat \<Rightarrow> kernel_port list \<Rightarrow> invocation_buffer list \<Rightarrow> (invocation_error, span list) expected" where
  "version1_inputs i (p # ps) (b # bs) =
     bindR (validateVersion1Buffer p b Input i)
       (\<lambda>s. bindR (version1_inputs (Suc i) ps bs) (\<lambda>rest. Inr (s # rest)))"
| "version1_inputs i _ _ = Inr []"

fun version1_outputs ::
  "nat \<Rightarrow> span list \<Rightarrow> span list \<Rightarrow> kernel_port list \<Rightarrow> invocation_buffer list \<Rightarrow> invocation_error option" where
  "version1_outputs i ins outs (p # ps) (b # bs) =
     (case validateVersion1Buffer p b Output i of
        Inl e \<Rightarrow> Some e
      | Inr s \<Rightarrow> orElse (output_overlap i ins outs s) (version1_outputs (Suc i) ins (outs @ [s]) ps bs))"
| "version1_outputs i ins outs _ _ = None"

definition validateVersion1 ::
  "kernel_abi \<Rightarrow> invocation_buffer list \<Rightarrow> invocation_buffer list \<Rightarrow> invocation_error option" where
  "validateVersion1 abi inputs outputs =
     (if length inputs \<noteq> length (ka_inputs abi) then Some InputArity
      else if length outputs \<noteq> length (ka_outputs abi) then Some OutputArity
      else case version1_inputs 0 (ka_inputs abi) inputs of
        Inl e \<Rightarrow> Some e
      | Inr ins \<Rightarrow> version1_outputs 0 ins [] (ka_outputs abi) outputs)"

section \<open>Validation of the ABI\<close>

definition supportedElementType :: "string \<Rightarrow> bool" where
  "supportedElementType t \<longleftrightarrow> t = ''f32'' \<or> t = ''bf16'' \<or> t = ''f16'' \<or> t = ''i32'' \<or> t = ''i8''"

fun validateStaticPorts :: "port_direction \<Rightarrow> nat \<Rightarrow> kernel_port list \<Rightarrow> invocation_error option" where
  "validateStaticPorts kind i [] = None"
| "validateStaticPorts kind i (p # ps) =
     (if length (kp_shape p) \<noteq> 2 then Some (NotRankTwo kind i)
      else if kp_shape p ! 0 \<le> 0 \<or> kp_shape p ! 1 \<le> 0 then Some (NotPositive kind i)
      else if \<not> supportedElementType (kp_elementType p)
        then Some (UnsupportedElementType kind i (kp_elementType p))
      else validateStaticPorts kind (Suc i) ps)"

fun validateSymbolicPorts :: "port_direction \<Rightarrow> nat \<Rightarrow> kernel_port list \<Rightarrow> invocation_error option" where
  "validateSymbolicPorts kind i [] = None"
| "validateSymbolicPorts kind i (p # ps) =
     (if (if kp_dimensions p = [] then length (kp_shape p) else length (kp_dimensions p)) \<noteq> 2
        then Some (NotRankTwo kind i)
      else if \<not> supportedElementType (kp_elementType p)
        then Some (UnsupportedElementType kind i (kp_elementType p))
      else validateSymbolicPorts kind (Suc i) ps)"

definition contract_port :: "port_direction \<Rightarrow> nat \<Rightarrow> kernel_port \<Rightarrow> shape_port" where
  "contract_port kind i p =
     \<lparr>port_name = stringifyDirection kind @ nat_to_string i, port_dir = kind,
      port_shape = (if kp_dimensions p \<noteq> [] then kp_dimensions p else map Constant (kp_shape p))\<rparr>"

definition contract_ports :: "port_direction \<Rightarrow> kernel_port list \<Rightarrow> shape_port list" where
  "contract_ports kind ps = map (\<lambda>(i, p). contract_port kind i p) (enumerate 0 ps)"

definition buildShapeContract :: "kernel_abi \<Rightarrow> shape_contract" where
  "buildShapeContract abi =
     \<lparr>ports = contract_ports Input (ka_inputs abi) @ contract_ports Output (ka_outputs abi),
      symbols = ka_symbols abi\<rparr>"

fun bind_arguments ::
  "nat \<Rightarrow> kernel_abi_argument list \<Rightarrow> bool list \<Rightarrow> bool list \<Rightarrow>
   (invocation_error, bool list \<times> bool list) expected" where
  "bind_arguments i [] boundInputs boundOutputs = Inr (boundInputs, boundOutputs)"
| "bind_arguments i (a # as) boundInputs boundOutputs =
     (let bound = (if role a = InputRole then boundInputs else boundOutputs) in
      if arg_port a \<ge> length bound then Inl (ArgumentOutOfRange i)
      else if bound ! arg_port a then Inl (ArgumentRebinds i)
      else if role a = InputRole then bind_arguments (Suc i) as (boundInputs[arg_port a := True]) boundOutputs
      else bind_arguments (Suc i) as boundInputs (boundOutputs[arg_port a := True]))"

fun check_all_bound :: "port_direction \<Rightarrow> nat \<Rightarrow> bool list \<Rightarrow> invocation_error option" where
  "check_all_bound kind i [] = None"
| "check_all_bound kind i (b # bs) = (if \<not> b then Some (PortUnbound kind i) else check_all_bound kind (Suc i) bs)"

definition check_bindings :: "kernel_abi \<Rightarrow> invocation_error option" where
  "check_bindings abi =
     (case bind_arguments 0 (ka_arguments abi)
             (replicate (length (ka_inputs abi)) False) (replicate (length (ka_outputs abi)) False) of
        Inl e \<Rightarrow> Some e
      | Inr (boundInputs, boundOutputs) \<Rightarrow>
          orElse (check_all_bound Input 0 boundInputs)
            (orElse (check_all_bound Output 0 boundOutputs)
              (first_error (\<lambda>port. if port \<ge> length (ka_outputs abi) \<or> \<not> boundOutputs ! port
                 then Some (ResultUnbound port) else None) (ka_results abi))))"

definition validateKernelAbi :: "kernel_abi \<Rightarrow> invocation_error option" where
  "validateKernelAbi abi =
     (if ka_version abi \<noteq> kMappedAbiVersionV1 \<and> ka_version abi \<noteq> kMappedAbiVersionV2
        then Some (UnsupportedVersion (ka_version abi))
      else if length (ka_inputs abi) > kMappedMaxDescriptors \<or>
              length (ka_outputs abi) > kMappedMaxDescriptors - length (ka_inputs abi)
        then Some TooManyDescriptors
      else if \<not> isSymbolicKernelAbi abi
        then orElse (validateStaticPorts Input 0 (ka_inputs abi)) (validateStaticPorts Output 0 (ka_outputs abi))
      else orElse (validateSymbolicPorts Input 0 (ka_inputs abi))
        (orElse (validateSymbolicPorts Output 0 (ka_outputs abi))
          (case validateShapeContract (buildShapeContract abi) of
             Some e \<Rightarrow> Some (ContractRejected e)
           | None \<Rightarrow> if ka_arguments abi = [] then Some NoArguments else check_bindings abi)))"

section \<open>The hash of the ABI\<close>

text \<open>The bytes the hash is fed, in order. Sizes and extents are written as 64-bit little-endian words.\<close>

definition abi_nat :: "nat \<Rightarrow> string" where "abi_nat n = le_bytes (of_nat n)"
definition abi_int :: "int \<Rightarrow> string" where "abi_int v = le_bytes (of_int v)"
definition abi_text :: "string \<Rightarrow> string" where "abi_text s = abi_nat (length s) @ s"

definition abi_list :: "('a \<Rightarrow> string) \<Rightarrow> 'a list \<Rightarrow> string" where
  "abi_list f xs = abi_nat (length xs) @ concat (map f xs)"

definition static_port_bytes :: "kernel_port \<Rightarrow> string" where
  "static_port_bytes p = abi_list abi_int (kp_shape p) @ abi_text (kp_elementType p)"

definition symbol_bytes :: "string \<times> symbol_constraint \<Rightarrow> string" where
  "symbol_bytes entry = (case entry of (name, c) \<Rightarrow>
     abi_text name @ abi_int (sc_min c) @ abi_nat (case sc_max c of None \<Rightarrow> 0 | Some _ \<Rightarrow> 1) @
     abi_int (case sc_max c of None \<Rightarrow> 0 | Some m \<Rightarrow> m) @ abi_int (multipleOf c))"

fun dimension_bytes :: "dimension \<Rightarrow> string" where
  "dimension_bytes (Constant k) = char_of (0::nat) # abi_int k"
| "dimension_bytes (Symbol n) = char_of (1::nat) # abi_text n"

definition symbolic_port_bytes :: "kernel_port \<Rightarrow> string" where
  "symbolic_port_bytes p = abi_text (kp_elementType p) @
     (if kp_dimensions p = [] then abi_list abi_int (kp_shape p)
      else abi_list dimension_bytes (kp_dimensions p))"

definition argument_bytes :: "kernel_abi_argument \<Rightarrow> string" where
  "argument_bytes a = char_of (if role a = InputRole then 0 else 1 :: nat) # abi_nat (arg_port a)"

definition abi_bytes :: "kernel_abi \<Rightarrow> string" where
  "abi_bytes abi = abi_nat (ka_version abi) @
     (if \<not> isSymbolicKernelAbi abi then
        abi_nat 0x434f4d5041435431 @ abi_nat 0x524f5f4449534a31 @
        abi_list static_port_bytes (ka_inputs abi) @ abi_list static_port_bytes (ka_outputs abi)
      else
        abi_nat 0x4142495f56325f31 @ abi_nat 0x53594d424f4c4943 @ abi_nat 0x4f55544f574e4552 @
        abi_list symbol_bytes (ka_symbols abi) @
        abi_list symbolic_port_bytes (ka_inputs abi) @ abi_list symbolic_port_bytes (ka_outputs abi) @
        abi_list argument_bytes (ka_arguments abi) @ abi_list abi_nat (ka_results abi))"

definition computeKernelAbiHash :: "kernel_abi \<Rightarrow> uint64" where
  "computeKernelAbiHash abi = stableHashBytes 14695981039346656037 (abi_bytes abi)"

section \<open>Version 2 and the entry points\<close>

definition validateSymbolicExtents ::
  "kernel_port \<Rightarrow> invocation_buffer \<Rightarrow> port_direction \<Rightarrow> nat \<Rightarrow> (invocation_error, int list) expected" where
  "validateSymbolicExtents port b kind index =
     (let d = descriptor b; info = getTypeInfo (buf_elementType b) in
      if ti_name info = None then Inl (UnsupportedTag kind index)
      else if Some (kp_elementType port) \<noteq> ti_name info then Inl (DtypeMismatch kind index)
      else if size0 d < 0 \<or> size1 d < 0 then Inl (NegativeDescriptor kind index)
      else if md_offset d \<noteq> 0 then Inl (NonzeroOffset kind index)
      else if stride0 d \<noteq> size1 d \<or> stride1 d \<noteq> 1 then Inl (NotRowMajor kind index)
      else Inr [size0 d, size1 d])"

definition validateSymbolicRange ::
  "invocation_buffer \<Rightarrow> port_direction \<Rightarrow> nat \<Rightarrow> nat \<Rightarrow> (invocation_error, span) expected" where
  "validateSymbolicRange b kind index requiredBytes =
     (let d = descriptor b in
      if requiredBytes = 0 \<and> (allocated d = 0 \<or> aligned d = 0) then
        (if allocated d \<noteq> 0 \<or> aligned d \<noteq> 0 \<or> allocationBytes b \<noteq> 0 then Inl (EmptyNotNull kind index)
         else Inr \<lparr>sp_begin = aligned d, sp_end = aligned d\<rparr>)
      else if requiredBytes \<noteq> 0 \<and> (allocated d = 0 \<or> aligned d = 0) then Inl (NullPointer kind index)
      else check_range b kind index requiredBytes)"

text \<open>\<^verbatim>\<open>(*shape)[0]\<close> and \<^verbatim>\<open>(*shape)[1]\<close> are the two sizes of the descriptor.\<close>

fun validateSide ::
  "port_direction \<Rightarrow> nat \<Rightarrow> kernel_port list \<Rightarrow> invocation_buffer list \<Rightarrow>
   (invocation_error, (port_shape_values \<times> span) list) expected" where
  "validateSide direction i (p # ps) (b # bs) =
     bindR (validateSymbolicExtents p b direction i)
       (\<lambda>shape. case required_bytes (descriptor b) (ti_bytes (getTypeInfo (buf_elementType b))) of
          None \<Rightarrow> Inl (RangeSizeOverflow direction i)
        | Some requiredBytes \<Rightarrow>
            bindR (validateSymbolicRange b direction i requiredBytes)
              (\<lambda>s. bindR (validateSide direction (Suc i) ps bs)
                (\<lambda>rest. Inr ((\<lparr>psv_direction = direction, psv_index = i, psv_extents = shape\<rparr>, s) # rest))))"
| "validateSide direction i _ _ = Inr []"

fun check_outputs :: "nat \<Rightarrow> span list \<Rightarrow> span list \<Rightarrow> span list \<Rightarrow> invocation_error option" where
  "check_outputs i ins outs [] = None"
| "check_outputs i ins outs (s # ss) =
     orElse (output_overlap i ins outs s) (check_outputs (Suc i) ins (outs @ [s]) ss)"

definition resolveMappedShapeValues ::
  "kernel_abi \<Rightarrow> invocation_buffer list \<Rightarrow> invocation_buffer list \<Rightarrow> (invocation_error, shape_values) expected" where
  "resolveMappedShapeValues abi inputs outputs =
     (case validateKernelAbi abi of
        Some e \<Rightarrow> Inl e
      | None \<Rightarrow>
          if \<not> isSymbolicKernelAbi abi then
            (case validateVersion1 abi inputs outputs of Some e \<Rightarrow> Inl e | None \<Rightarrow> Inr [])
          else if length inputs \<noteq> length (ka_inputs abi) then Inl InputArity
          else if length outputs \<noteq> length (ka_outputs abi) then Inl OutputArity
          else bindR (validateSide Input 0 (ka_inputs abi) inputs)
            (\<lambda>ins. bindR (validateSide Output 0 (ka_outputs abi) outputs)
              (\<lambda>outs. case check_outputs 0 (map snd ins) [] (map snd outs) of
                 Some e \<Rightarrow> Inl e
               | None \<Rightarrow>
                   (case bindShapeValues (buildShapeContract abi) (map fst (ins @ outs)) of
                      Inl e \<Rightarrow> Inl (ExtentsConflict e)
                    | Inr vals \<Rightarrow> Inr vals))))"

definition validateMappedInvocation ::
  "kernel_abi \<Rightarrow> invocation_buffer list \<Rightarrow> invocation_buffer list \<Rightarrow> invocation_error option" where
  "validateMappedInvocation abi inputs outputs =
     (case resolveMappedShapeValues abi inputs outputs of Inl e \<Rightarrow> Some e | Inr _ \<Rightarrow> None)"

section \<open>What the arithmetic computes\<close>

lemma checkedMul_exact: "checkedMul l r = (if l * r \<le> uint64_max then Some (l * r) else None)"
proof (cases "r = 0")
  case False
  then have "l > uint64_max div r \<longleftrightarrow> \<not> l * r \<le> uint64_max"
    by (metis less_eq_div_iff_mult_less_eq not_le gr0I)
  with False show ?thesis by (auto simp: checkedMul_def)
qed (simp add: checkedMul_def)

lemma to_uint64_nat: "0 \<le> v \<Longrightarrow> v \<le> int64_max \<Longrightarrow> to_uint64 v = nat v"
  by (simp add: to_uint64_def int64_max_def)

definition touched_size :: "invocation_buffer \<Rightarrow> nat" where
  "touched_size b = nat (size0 (descriptor b)) * nat (size1 (descriptor b)) * ti_bytes (getTypeInfo (buf_elementType b))"

definition buffer_typed :: "invocation_buffer \<Rightarrow> bool" where
  "buffer_typed b \<longleftrightarrow> in_int64 (size0 (descriptor b)) \<and> in_int64 (size1 (descriptor b)) \<and>
     allocated (descriptor b) \<le> uint64_max \<and> aligned (descriptor b) \<le> uint64_max \<and>
     allocationBytes b \<le> uint64_max"

lemma required_bytes_exact:
  assumes "0 \<le> size0 (descriptor b)" "0 \<le> size1 (descriptor b)" "buffer_typed b"
    and "required_bytes (descriptor b) (ti_bytes (getTypeInfo (buf_elementType b))) = Some r"
  shows "r = touched_size b"
  using assms
  by (auto simp: required_bytes_def checkedMul_exact touched_size_def to_uint64_nat buffer_typed_def
      in_int64_def split: if_splits)

lemma check_range_Inr:
  assumes "buffer_typed b"
  shows "check_range b kind i req = Inr s \<longleftrightarrow>
    allocated (descriptor b) + allocationBytes b \<le> uint64_max \<and>
    ti_bytes (getTypeInfo (buf_elementType b)) dvd aligned (descriptor b) \<and>
    allocated (descriptor b) \<le> aligned (descriptor b) \<and>
    aligned (descriptor b) + req \<le> allocated (descriptor b) + allocationBytes b \<and>
    s = \<lparr>sp_begin = aligned (descriptor b), sp_end = aligned (descriptor b) + req\<rparr>"
proof (cases "allocated (descriptor b) + allocationBytes b \<le> uint64_max")
  case True
  then have "\<not> allocationBytes b > uint64_max - allocated (descriptor b)" by simp
  then show ?thesis using assms True
    by (auto simp: check_range_def Let_def buffer_typed_def dvd_eq_mod_eq_0)
next
  case False
  then have "allocationBytes b > uint64_max - allocated (descriptor b)"
    using assms unfolding buffer_typed_def by linarith
  then show ?thesis using False by (simp add: check_range_def Let_def)
qed

section \<open>What an accepted buffer satisfies\<close>

definition buffer_ok :: "invocation_buffer \<Rightarrow> span \<Rightarrow> bool" where
  "buffer_ok b s \<longleftrightarrow> (let d = descriptor b in
     ti_name (getTypeInfo (buf_elementType b)) \<noteq> None \<and>
     0 \<le> size0 d \<and> 0 \<le> size1 d \<and> md_offset d = 0 \<and> stride0 d = size1 d \<and> stride1 d = 1 \<and>
     s = \<lparr>sp_begin = aligned d, sp_end = aligned d + touched_size b\<rparr> \<and>
     (touched_size b \<noteq> 0 \<longrightarrow>
       0 < allocated d \<and> allocated d \<le> aligned d \<and>
       aligned d + touched_size b \<le> allocated d + allocationBytes b \<and>
       allocated d + allocationBytes b \<le> uint64_max \<and>
       ti_bytes (getTypeInfo (buf_elementType b)) dvd aligned d))"

definition static_port_ok :: "kernel_port \<Rightarrow> bool" where
  "static_port_ok p \<longleftrightarrow> length (kp_shape p) = 2 \<and> 0 < kp_shape p ! 0 \<and> 0 < kp_shape p ! 1 \<and>
     supportedElementType (kp_elementType p)"

definition symbolic_port_ok :: "kernel_port \<Rightarrow> bool" where
  "symbolic_port_ok p \<longleftrightarrow> supportedElementType (kp_elementType p) \<and>
     (if kp_dimensions p = [] then length (kp_shape p) = 2 else length (kp_dimensions p) = 2)"

lemma validateStaticPorts_None: "validateStaticPorts kind i ps = None \<longleftrightarrow> list_all static_port_ok ps"
  by (induction kind i ps rule: validateStaticPorts.induct) (auto simp: static_port_ok_def not_le)

lemma validateSymbolicPorts_None: "validateSymbolicPorts kind i ps = None \<longleftrightarrow> list_all symbolic_port_ok ps"
  by (induction kind i ps rule: validateSymbolicPorts.induct) (auto simp: symbolic_port_ok_def)

lemma validateVersion1Buffer_ok:
  assumes "validateVersion1Buffer p b kind i = Inr s" "buffer_typed b" "static_port_ok p"
  shows "buffer_ok b s"
proof -
  have nonneg: "0 \<le> size0 (descriptor b)" "0 \<le> size1 (descriptor b)"
    using assms by (auto simp: validateVersion1Buffer_def static_port_ok_def Let_def split: if_splits)
  obtain r where r: "required_bytes (descriptor b) (ti_bytes (getTypeInfo (buf_elementType b))) = Some r"
    and range: "check_range b kind i r = Inr s"
    using assms(1) by (auto simp: validateVersion1Buffer_def Let_def split: if_splits option.splits)
  have "r = touched_size b" using required_bytes_exact [OF nonneg assms(2) r] .
  with range nonneg assms show ?thesis
    unfolding check_range_Inr [OF assms(2)]
    by (auto simp: buffer_ok_def validateVersion1Buffer_def Let_def split: if_splits)
qed

lemma validateSymbolicExtents_Inr:
  "validateSymbolicExtents p b kind i = Inr shape \<longleftrightarrow>
     (let d = descriptor b in ti_name (getTypeInfo (buf_elementType b)) = Some (kp_elementType p) \<and>
        0 \<le> size0 d \<and> 0 \<le> size1 d \<and> md_offset d = 0 \<and> stride0 d = size1 d \<and> stride1 d = 1 \<and>
        shape = [size0 d, size1 d])"
  by (auto simp: validateSymbolicExtents_def Let_def)

lemma validateSymbolicRange_ok:
  assumes "validateSymbolicRange b kind i (touched_size b) = Inr s"
    and "validateSymbolicExtents p b kind i = Inr shape" and "buffer_typed b"
  shows "buffer_ok b s"
  using assms(1,2) check_range_Inr [OF assms(3), of kind i "touched_size b" s]
  by (auto simp: validateSymbolicRange_def validateSymbolicExtents_Inr buffer_ok_def Let_def split: if_splits)

section \<open>What an accepted call satisfies\<close>

lemma first_overlap_None [simp]: "first_overlap ts s = None \<longleftrightarrow> list_all (\<lambda>t. \<not> overlaps t s) ts"
  by (induction ts) auto

lemma output_overlap_None [simp]:
  "output_overlap i ins outs s = None \<longleftrightarrow>
     list_all (\<lambda>t. \<not> overlaps t s) ins \<and> list_all (\<lambda>t. \<not> overlaps t s) outs"
  by (auto simp: output_overlap_def split: option.splits simp flip: first_overlap_None)

text \<open>No output span overlaps an input span or an earlier output span.\<close>

definition disjoint_spans :: "span list \<Rightarrow> span list \<Rightarrow> bool" where
  "disjoint_spans ins outs \<longleftrightarrow>
     list_all (\<lambda>s. list_all (\<lambda>t. \<not> overlaps t s) ins) outs \<and> sorted_wrt (\<lambda>t s. \<not> overlaps t s) outs"

lemma check_outputs_None:
  "check_outputs i ins outs ss = None \<longleftrightarrow>
     list_all (\<lambda>s. list_all (\<lambda>t. \<not> overlaps t s) ins \<and> list_all (\<lambda>t. \<not> overlaps t s) outs) ss \<and>
     sorted_wrt (\<lambda>t s. \<not> overlaps t s) ss"
  by (induction i ins outs ss rule: check_outputs.induct) (auto simp: list_all_iff)

lemma check_outputs_disjoint: "check_outputs 0 ins [] ss = None \<longleftrightarrow> disjoint_spans ins ss"
  by (auto simp: check_outputs_None disjoint_spans_def list_all_iff)

lemma version1_inputs_ok:
  assumes "version1_inputs i ps bs = Inr ss" "length bs = length ps"
    and "list_all static_port_ok ps" "list_all buffer_typed bs"
  shows "list_all2 buffer_ok bs ss"
  using assms
proof (induction i ps bs arbitrary: ss rule: version1_inputs.induct)
  case (1 i p ps b bs)
  then show ?case by (auto dest!: validateVersion1Buffer_ok)
qed auto

lemma version1_outputs_ok:
  assumes "version1_outputs i ins outs ps bs = None" "length bs = length ps"
    and "list_all static_port_ok ps" "list_all buffer_typed bs"
  shows "\<exists>ss. list_all2 buffer_ok bs ss \<and> check_outputs i ins outs ss = None"
  using assms
proof (induction i ins outs ps bs rule: version1_outputs.induct)
  case (1 i ins outs p ps b bs)
  then obtain s where s: "validateVersion1Buffer p b Output i = Inr s"
    by (auto split: sum.splits)
  with 1 obtain ss where "list_all2 buffer_ok bs ss" "check_outputs (Suc i) ins (outs @ [s]) ss = None" by auto
  moreover have "buffer_ok b s" using validateVersion1Buffer_ok [OF s] 1 by simp
  ultimately show ?case using 1 s by (intro exI [of _ "s # ss"]) auto
qed (auto intro: exI [of _ "[]"])

text \<open>The entry a descriptor of one side supplies to the shape layer.\<close>

definition side_entry :: "port_direction \<Rightarrow> nat \<Rightarrow> invocation_buffer \<Rightarrow> port_shape_values" where
  "side_entry direction i b = \<lparr>psv_direction = direction, psv_index = i,
     psv_extents = [size0 (descriptor b), size1 (descriptor b)]\<rparr>"

lemma validateSide_ok:
  assumes "validateSide direction i ps bs = Inr es" "length bs = length ps" "list_all buffer_typed bs"
  shows "list_all2 buffer_ok bs (map snd es) \<and>
    map fst es = map (\<lambda>(k, b). side_entry direction k b) (enumerate i bs)"
  using assms
proof (induction direction i ps bs arbitrary: es rule: validateSide.induct)
  case (1 direction i p ps b bs)
  obtain shape r s rest where extents: "validateSymbolicExtents p b direction i = Inr shape"
    and r: "required_bytes (descriptor b) (ti_bytes (getTypeInfo (buf_elementType b))) = Some r"
    and range: "validateSymbolicRange b direction i r = Inr s"
    and rest: "validateSide direction (Suc i) ps bs = Inr rest"
    and es: "es = (\<lparr>psv_direction = direction, psv_index = i, psv_extents = shape\<rparr>, s) # rest"
    using 1 by (auto split: option.splits)
  have typed: "buffer_typed b" using 1 by simp
  have nonneg: "0 \<le> size0 (descriptor b)" "0 \<le> size1 (descriptor b)"
    and shape: "shape = [size0 (descriptor b), size1 (descriptor b)]"
    using extents by (auto simp: validateSymbolicExtents_Inr Let_def)
  have "r = touched_size b" using required_bytes_exact [OF nonneg typed r] .
  then have "buffer_ok b s" using validateSymbolicRange_ok [OF _ extents typed] range by simp
  moreover have "list_all2 buffer_ok bs (map snd rest) \<and>
      map fst rest = map (\<lambda>(k, b). side_entry direction k b) (enumerate (Suc i) bs)"
    using 1 extents r range rest by simp
  ultimately show ?case by (simp add: es shape side_entry_def)
qed auto

lemma validateKernelAbi_ports:
  assumes "validateKernelAbi abi = None"
  shows "if isSymbolicKernelAbi abi
    then list_all symbolic_port_ok (ka_inputs abi) \<and> list_all symbolic_port_ok (ka_outputs abi)
    else list_all static_port_ok (ka_inputs abi) \<and> list_all static_port_ok (ka_outputs abi)"
  using assms by (auto simp: validateKernelAbi_def validateStaticPorts_None validateSymbolicPorts_None split: if_splits)

lemma resolve_symbolic:
  assumes "resolveMappedShapeValues abi inputs outputs = Inr vals" "isSymbolicKernelAbi abi"
    and "list_all buffer_typed (inputs @ outputs)"
  obtains ins outs where "list_all2 buffer_ok inputs ins" "list_all2 buffer_ok outputs outs"
    "disjoint_spans ins outs" "length inputs = length (ka_inputs abi)" "length outputs = length (ka_outputs abi)"
    "bindShapeValues (buildShapeContract abi)
       (map (\<lambda>(k, b). side_entry Input k b) (enumerate 0 inputs) @
        map (\<lambda>(k, b). side_entry Output k b) (enumerate 0 outputs)) = Inr vals"
proof -
  obtain ins outs where "length inputs = length (ka_inputs abi)" "length outputs = length (ka_outputs abi)"
    "validateSide Input 0 (ka_inputs abi) inputs = Inr ins"
    "validateSide Output 0 (ka_outputs abi) outputs = Inr outs"
    "check_outputs 0 (map snd ins) [] (map snd outs) = None"
    "bindShapeValues (buildShapeContract abi) (map fst (ins @ outs)) = Inr vals"
    using assms(1,2) by (auto simp: resolveMappedShapeValues_def split: option.splits if_splits sum.splits)
  with that [of "map snd ins" "map snd outs"] assms(3) validateSide_ok [of Input 0 "ka_inputs abi" inputs ins]
    validateSide_ok [of Output 0 "ka_outputs abi" outputs outs]
  show ?thesis by (auto simp: check_outputs_disjoint)
qed

lemma accepted_buffers:
  assumes "validateMappedInvocation abi inputs outputs = None" "list_all buffer_typed (inputs @ outputs)"
  obtains ins outs where "list_all2 buffer_ok inputs ins" "list_all2 buffer_ok outputs outs" "disjoint_spans ins outs"
proof (cases "isSymbolicKernelAbi abi")
  case True
  obtain vals where "resolveMappedShapeValues abi inputs outputs = Inr vals"
    using assms(1) by (auto simp: validateMappedInvocation_def split: sum.splits)
  from resolve_symbolic [OF this True assms(2)] that show ?thesis by metis
next
  case False
  have valid: "validateKernelAbi abi = None" and v1: "validateVersion1 abi inputs outputs = None"
    using assms(1) False
    by (auto simp: validateMappedInvocation_def resolveMappedShapeValues_def split: option.splits sum.splits)
  obtain ins where ins: "version1_inputs 0 (ka_inputs abi) inputs = Inr ins"
    and outs: "version1_outputs 0 ins [] (ka_outputs abi) outputs = None"
    and len: "length inputs = length (ka_inputs abi)" "length outputs = length (ka_outputs abi)"
    using v1 by (auto simp: validateVersion1_def split: if_splits sum.splits)
  note static = validateKernelAbi_ports [OF valid]
  have "list_all2 buffer_ok inputs ins"
    using version1_inputs_ok [OF ins] len static False assms(2) by simp
  moreover obtain ss where "list_all2 buffer_ok outputs ss" "check_outputs 0 ins [] ss = None"
    using version1_outputs_ok [OF outs] len static False assms(2) by auto
  ultimately show ?thesis using that by (auto simp: check_outputs_disjoint)
qed

lemma list_all2_member: "list_all2 P xs ys \<Longrightarrow> x \<in> set xs \<Longrightarrow> \<exists>y \<in> set ys. P x y"
  by (induction rule: list_all2_induct) auto

lemma accepted_buffer:
  assumes "validateMappedInvocation abi inputs outputs = None" "list_all buffer_typed (inputs @ outputs)"
    and "b \<in> set (inputs @ outputs)"
  obtains s where "buffer_ok b s"
proof -
  obtain ins outs where "list_all2 buffer_ok inputs ins" "list_all2 buffer_ok outputs outs"
    using accepted_buffers [OF assms(1,2)] by metis
  then have "list_all2 buffer_ok (inputs @ outputs) (ins @ outs)" by (rule list_all2_appendI)
  from list_all2_member [OF this assms(3)] that show ?thesis by blast
qed

section \<open>The bytes a kernel touches\<close>

text \<open>The address of element \<open>(i, j)\<close> as a memref addresses it, and the bytes of all elements.\<close>

definition element_bytes :: "invocation_buffer \<Rightarrow> int" where
  "element_bytes b = int (ti_bytes (getTypeInfo (buf_elementType b)))"

definition element_address :: "invocation_buffer \<Rightarrow> int \<Rightarrow> int \<Rightarrow> int" where
  "element_address b i j = (let d = descriptor b in
     int (aligned d) + (md_offset d + i * stride0 d + j * stride1 d) * element_bytes b)"

definition in_extent :: "invocation_buffer \<Rightarrow> int \<Rightarrow> int \<Rightarrow> bool" where
  "in_extent b i j \<longleftrightarrow> 0 \<le> i \<and> i < size0 (descriptor b) \<and> 0 \<le> j \<and> j < size1 (descriptor b)"

definition touched_addresses :: "invocation_buffer \<Rightarrow> int set" where
  "touched_addresses b = {element_address b i j + k | i j k. in_extent b i j \<and> 0 \<le> k \<and> k < element_bytes b}"

lemma row_major_bound:
  fixes i j m n :: int
  assumes "0 \<le> i" "i < m" "0 \<le> j" "j < n"
  shows "0 \<le> i * n + j" "i * n + j + 1 \<le> m * n"
proof -
  show "0 \<le> i * n + j" using assms by simp
  have "(i + 1) * n \<le> m * n" using assms by (intro mult_right_mono) auto
  then show "i * n + j + 1 \<le> m * n" using assms by (simp add: algebra_simps)
qed

lemma touched_size_int:
  "0 \<le> size0 (descriptor b) \<Longrightarrow> 0 \<le> size1 (descriptor b) \<Longrightarrow>
   int (touched_size b) = size0 (descriptor b) * size1 (descriptor b) * element_bytes b"
  by (simp add: touched_size_def element_bytes_def)

lemma element_bytes_positive: "buffer_ok b s \<Longrightarrow> 0 < element_bytes b"
  by (cases "buf_elementType b") (auto simp: element_bytes_def buffer_ok_def Let_def)

lemma element_inside:
  assumes ok: "buffer_ok b s" and ij: "in_extent b i j"
  shows "int (aligned (descriptor b)) \<le> element_address b i j"
    and "element_address b i j + element_bytes b \<le> int (aligned (descriptor b) + touched_size b)"
    and "touched_size b \<noteq> 0"
proof -
  let ?d = "descriptor b" and ?e = "element_bytes b"
  have pos: "0 < ?e" using element_bytes_positive [OF ok] .
  have geo: "0 \<le> size0 ?d" "0 \<le> size1 ?d" "md_offset ?d = 0" "stride0 ?d = size1 ?d" "stride1 ?d = 1"
    using ok by (auto simp: buffer_ok_def Let_def)
  have idx: "0 \<le> i * size1 ?d + j" "i * size1 ?d + j + 1 \<le> size0 ?d * size1 ?d"
    using row_major_bound ij unfolding in_extent_def by auto
  have addr: "element_address b i j = int (aligned ?d) + (i * size1 ?d + j) * ?e"
    using geo by (simp add: element_address_def Let_def)
  show "int (aligned ?d) \<le> element_address b i j" using addr idx pos by simp
  have upper: "(i * size1 ?d + j + 1) * ?e \<le> int (touched_size b)"
    unfolding touched_size_int [OF geo(1,2)] using idx pos by (intro mult_right_mono) auto
  then show "element_address b i j + ?e \<le> int (aligned ?d + touched_size b)"
    using addr by (simp add: algebra_simps)
  have "0 < (i * size1 ?d + j + 1) * ?e" using idx pos by (intro mult_pos_pos) auto
  with upper show "touched_size b \<noteq> 0" by linarith
qed

lemma touched_in_span:
  assumes "buffer_ok b s"
  shows "touched_addresses b \<subseteq> {int (sp_begin s) ..< int (sp_end s)}"
proof
  fix a assume "a \<in> touched_addresses b"
  then obtain i j k where a: "a = element_address b i j + k" "in_extent b i j" "0 \<le> k" "k < element_bytes b"
    by (auto simp: touched_addresses_def)
  have "s = \<lparr>sp_begin = aligned (descriptor b), sp_end = aligned (descriptor b) + touched_size b\<rparr>"
    using assms by (simp add: buffer_ok_def Let_def)
  with element_inside [OF assms a(2)] a show "a \<in> {int (sp_begin s) ..< int (sp_end s)}" by auto
qed

lemma disjoint_touched:
  assumes "buffer_ok b s" "buffer_ok c t" "\<not> overlaps s t"
  shows "touched_addresses b \<inter> touched_addresses c = {}"
  using touched_in_span [OF assms(1)] touched_in_span [OF assms(2)] assms(3)
  by (fastforce simp: overlaps_def)

text \<open>C5: In an invocation that validateMappedInvocation accepts, every element access of a kernel over the
  declared extents stays inside the allocation of its buffer, is aligned for its element type, and needs no
  wrap-around of the address space.\<close>

theorem invocation_accesses_in_bounds:
  assumes "validateMappedInvocation abi inputs outputs = None"
    and "list_all buffer_typed (inputs @ outputs)"
    and "b \<in> set (inputs @ outputs)" and "in_extent b i j"
  shows "0 < element_bytes b \<and> 0 < allocated (descriptor b) \<and>
    int (allocated (descriptor b)) \<le> element_address b i j \<and>
    element_address b i j + element_bytes b \<le> int (allocated (descriptor b) + allocationBytes b) \<and>
    allocated (descriptor b) + allocationBytes b \<le> uint64_max \<and>
    element_bytes b dvd element_address b i j"
proof -
  obtain s where ok: "buffer_ok b s"
    using accepted_buffer [OF assms(1,2,3)] .
  note inside = element_inside [OF ok assms(4)]
  have bounds: "0 < allocated (descriptor b)" "allocated (descriptor b) \<le> aligned (descriptor b)"
    "aligned (descriptor b) + touched_size b \<le> allocated (descriptor b) + allocationBytes b"
    "allocated (descriptor b) + allocationBytes b \<le> uint64_max"
    "ti_bytes (getTypeInfo (buf_elementType b)) dvd aligned (descriptor b)"
    using ok inside(3) by (auto simp: buffer_ok_def Let_def)
  have "element_bytes b dvd int (aligned (descriptor b))" using bounds(5) by (simp add: element_bytes_def)
  then have "element_bytes b dvd element_address b i j" by (simp add: element_address_def Let_def)
  moreover have "int (allocated (descriptor b)) \<le> element_address b i j"
    "element_address b i j + element_bytes b \<le> int (allocated (descriptor b) + allocationBytes b)"
    using inside bounds by linarith+
  ultimately show ?thesis using bounds element_bytes_positive [OF ok] by simp
qed

text \<open>C11: In an accepted invocation no output shares a byte with an input or with another output.\<close>

theorem invocation_outputs_disjoint:
  assumes "validateMappedInvocation abi inputs outputs = None"
    and "list_all buffer_typed (inputs @ outputs)"
  shows "(\<forall>b \<in> set inputs. \<forall>c \<in> set outputs. touched_addresses b \<inter> touched_addresses c = {}) \<and>
    sorted_wrt (\<lambda>b c. touched_addresses b \<inter> touched_addresses c = {}) outputs"
proof -
  obtain ins outs where ins: "list_all2 buffer_ok inputs ins" and outs: "list_all2 buffer_ok outputs outs"
    and disj: "disjoint_spans ins outs"
    using accepted_buffers [OF assms] .
  have "touched_addresses b \<inter> touched_addresses c = {}" if "b \<in> set inputs" "c \<in> set outputs" for b c
    using list_all2_member [OF ins that(1)] list_all2_member [OF outs that(2)] disj disjoint_touched
    by (fastforce simp: disjoint_spans_def list_all_iff)
  moreover have "sorted_wrt (\<lambda>b c. touched_addresses b \<inter> touched_addresses c = {}) outputs"
    unfolding sorted_wrt_iff_nth_less
  proof (intro allI impI)
    fix i j assume ij: "i < j" "j < length outputs"
    then have "\<not> overlaps (outs ! i) (outs ! j)"
      using disj list_all2_lengthD [OF outs] by (auto simp: disjoint_spans_def sorted_wrt_iff_nth_less)
    moreover have "buffer_ok (outputs ! i) (outs ! i)" "buffer_ok (outputs ! j) (outs ! j)"
      using list_all2_nthD [OF outs] ij by auto
    ultimately show "touched_addresses (outputs ! i) \<inter> touched_addresses (outputs ! j) = {}"
      by (rule disjoint_touched [rotated 2])
  qed
  ultimately show ?thesis by blast
qed

section \<open>Extents and symbols\<close>

lemma port_positions_outputs:
  "port_positions i j (map (\<lambda>(k, p). contract_port Output k p) (enumerate j ps)) =
     map (Pair Output) [j ..< j + length ps]"
  by (induction ps arbitrary: j) (simp_all add: contract_port_def upt_conv_Cons del: upt_Suc)

lemma port_positions_sides:
  "port_positions i 0 (map (\<lambda>(k, p). contract_port Input k p) (enumerate i ps) @ contract_ports Output qs) =
     map (Pair Input) [i ..< i + length ps] @ map (Pair Output) [0 ..< length qs]"
proof (induction ps arbitrary: i)
  case Nil
  then show ?case using port_positions_outputs [of i 0 qs] by (simp add: contract_ports_def)
next
  case (Cons p ps)
  then show ?case by (simp add: contract_port_def upt_conv_Cons del: upt_Suc)
qed

lemma port_positions_contract:
  "port_positions 0 0 (ports (buildShapeContract abi)) =
     map (Pair Input) [0 ..< length (ka_inputs abi)] @ map (Pair Output) [0 ..< length (ka_outputs abi)]"
  using port_positions_sides [of 0 "ka_inputs abi" "ka_outputs abi"]
  by (simp add: buildShapeContract_def contract_ports_def)

lemma side_entries_index:
  "e \<in> set (map (\<lambda>(k, b). side_entry direction k b) (enumerate 0 bs)) \<longleftrightarrow>
     (\<exists>k < length bs. e = side_entry direction k (bs ! k))"
  by (auto simp: in_set_enumerate_eq image_iff Bex_def)

lemma supplied_extents:
  fixes inputs outputs :: "invocation_buffer list"
  defines "es \<equiv> map (\<lambda>(k, b). side_entry Input k b) (enumerate 0 inputs) @
        map (\<lambda>(k, b). side_entry Output k b) (enumerate 0 outputs)"
  assumes "e \<in> set es" and "k < length inputs + length outputs"
    and "(psv_direction e, psv_index e) =
      (map (Pair Input) [0 ..< length inputs] @ map (Pair Output) [0 ..< length outputs]) ! k"
  shows "psv_extents e = [size0 (descriptor ((inputs @ outputs) ! k)), size1 (descriptor ((inputs @ outputs) ! k))]"
  using assms(2-) unfolding es_def set_append Un_iff side_entries_index
  by (auto simp: side_entry_def nth_append split: if_splits)

text \<open>C29: The values that resolveMappedShapeValues returns for a symbolic ABI satisfy its shape contract, and
  every port evaluated under them is the extents of the buffer in its position.\<close>

theorem resolved_values_match_buffers:
  assumes "resolveMappedShapeValues abi inputs outputs = Inr vals" and "isSymbolicKernelAbi abi"
    and "list_all buffer_typed (inputs @ outputs)" and "contract_typed (buildShapeContract abi)"
  shows "validateShapeValues (buildShapeContract abi) vals = None \<and>
    map (\<lambda>p. map (dim_value vals) (port_shape p)) (ports (buildShapeContract abi)) =
      map (\<lambda>b. [Some (size0 (descriptor b)), Some (size1 (descriptor b))]) (inputs @ outputs)"
proof
  obtain ins outs where len: "length inputs = length (ka_inputs abi)" "length outputs = length (ka_outputs abi)"
    and bind: "bindShapeValues (buildShapeContract abi)
       (map (\<lambda>(k, b). side_entry Input k b) (enumerate 0 inputs) @
        map (\<lambda>(k, b). side_entry Output k b) (enumerate 0 outputs)) = Inr vals"
    using resolve_symbolic [OF assms(1,2,3)] by metis
  show "validateShapeValues (buildShapeContract abi) vals = None"
    using bindShapeValues_valid [OF assms(4) bind] .
  have size: "length (ports (buildShapeContract abi)) = length (inputs @ outputs)"
    using len by (simp add: buildShapeContract_def contract_ports_def)
  show "map (\<lambda>p. map (dim_value vals) (port_shape p)) (ports (buildShapeContract abi)) =
      map (\<lambda>b. [Some (size0 (descriptor b)), Some (size1 (descriptor b))]) (inputs @ outputs)"
  proof (rule nth_equalityI)
    fix k assume "k < length (map (\<lambda>p. map (dim_value vals) (port_shape p)) (ports (buildShapeContract abi)))"
    then have k: "k < length (ports (buildShapeContract abi))" "k < length inputs + length outputs"
      using size by auto
    from bindShapeValues_ports [OF bind k(1)] obtain e where
      e: "e \<in> set (map (\<lambda>(k, b). side_entry Input k b) (enumerate 0 inputs) @
        map (\<lambda>(k, b). side_entry Output k b) (enumerate 0 outputs))"
      and pos: "(psv_direction e, psv_index e) = port_positions 0 0 (ports (buildShapeContract abi)) ! k"
      and dims: "map (dim_value vals) (port_shape (ports (buildShapeContract abi) ! k)) = map Some (psv_extents e)"
      by blast
    have "psv_extents e = [size0 (descriptor ((inputs @ outputs) ! k)), size1 (descriptor ((inputs @ outputs) ! k))]"
      using e k(2) pos unfolding port_positions_contract len [symmetric] by (rule supplied_extents)
    with dims k size show "map (\<lambda>p. map (dim_value vals) (port_shape p)) (ports (buildShapeContract abi)) ! k =
        map (\<lambda>b. [Some (size0 (descriptor b)), Some (size1 (descriptor b))]) (inputs @ outputs) ! k" by (simp del: map_append)
  qed (use size in simp)
qed

section \<open>Argument binding\<close>

abbreviation input_arg :: "nat \<Rightarrow> kernel_abi_argument" where
  "input_arg k \<equiv> \<lparr>role = InputRole, arg_port = k\<rparr>"

abbreviation output_arg :: "nat \<Rightarrow> kernel_abi_argument" where
  "output_arg k \<equiv> \<lparr>role = OutputRole, arg_port = k\<rparr>"

lemma argument_cases:
  obtains (as_input) k where "a = input_arg k" | (as_output) k where "a = output_arg k"
proof (cases "role a")
  case InputRole
  then have "a = input_arg (arg_port a)" by simp
  then show thesis by (rule as_input)
next
  case OutputRole
  then have "a = output_arg (arg_port a)" by simp
  then show thesis by (rule as_output)
qed

lemma set_flag: "k < length bs \<Longrightarrow> bs[p := True] ! k \<longleftrightarrow> k = p \<or> bs ! k"
  by (cases "k = p") auto

lemma bind_arguments_Inr:
  "bind_arguments i as bi bo = Inr (bi', bo') \<longleftrightarrow>
     distinct as \<and>
     (\<forall>k. input_arg k \<in> set as \<longrightarrow> k < length bi \<and> \<not> bi ! k) \<and>
     (\<forall>k. output_arg k \<in> set as \<longrightarrow> k < length bo \<and> \<not> bo ! k) \<and>
     bi' = map (\<lambda>k. bi ! k \<or> input_arg k \<in> set as) [0 ..< length bi] \<and>
     bo' = map (\<lambda>k. bo ! k \<or> output_arg k \<in> set as) [0 ..< length bo]"
proof (induction as arbitrary: i bi bo)
  case Nil
  then show ?case by (auto simp: map_nth)
next
  case (Cons a as)
  show ?case
  proof (cases a rule: argument_cases)
    case (as_input p)
    have "map (\<lambda>k. bi[p := True] ! k \<or> input_arg k \<in> set as) [0 ..< length bi] =
        map (\<lambda>k. bi ! k \<or> input_arg k \<in> set (a # as)) [0 ..< length bi]"
      using as_input by (auto simp: set_flag)
    then show ?thesis using as_input by (auto simp: Cons.IH set_flag split: if_splits)
  next
    case (as_output p)
    have "map (\<lambda>k. bo[p := True] ! k \<or> output_arg k \<in> set as) [0 ..< length bo] =
        map (\<lambda>k. bo ! k \<or> output_arg k \<in> set (a # as)) [0 ..< length bo]"
      using as_output by (auto simp: set_flag)
    then show ?thesis using as_output by (auto simp: Cons.IH set_flag split: if_splits)
  qed
qed

lemma check_all_bound_None: "check_all_bound kind i bs = None \<longleftrightarrow> list_all (\<lambda>b. b) bs"
  by (induction bs arbitrary: i) auto

definition argument_set :: "kernel_abi \<Rightarrow> kernel_abi_argument set" where
  "argument_set abi = input_arg ` {..< length (ka_inputs abi)} \<union> output_arg ` {..< length (ka_outputs abi)}"

lemma check_bindings_None:
  "check_bindings abi = None \<longleftrightarrow>
     distinct (ka_arguments abi) \<and> set (ka_arguments abi) = argument_set abi \<and>
     list_all (\<lambda>r. r < length (ka_outputs abi)) (ka_results abi)" (is "_ \<longleftrightarrow> ?rhs")
proof -
  let ?as = "ka_arguments abi" and ?n = "length (ka_inputs abi)" and ?m = "length (ka_outputs abi)"
  have run: "check_bindings abi = None \<longleftrightarrow> distinct ?as \<and>
     (\<forall>k. input_arg k \<in> set ?as \<longrightarrow> k < ?n) \<and> (\<forall>k. output_arg k \<in> set ?as \<longrightarrow> k < ?m) \<and>
     (\<forall>k < ?n. input_arg k \<in> set ?as) \<and> (\<forall>k < ?m. output_arg k \<in> set ?as) \<and>
     list_all (\<lambda>r. r < ?m) (ka_results abi)"
  proof (cases "bind_arguments 0 ?as (replicate ?n False) (replicate ?m False)")
    case (Inl e)
    have "bind_arguments 0 ?as (replicate ?n False) (replicate ?m False) \<noteq> Inr (bi, bo)" for bi bo
      using Inl by simp
    then have "\<not> (distinct ?as \<and> (\<forall>k. input_arg k \<in> set ?as \<longrightarrow> k < ?n) \<and> (\<forall>k. output_arg k \<in> set ?as \<longrightarrow> k < ?m))"
      unfolding bind_arguments_Inr by auto
    with Inl show ?thesis by (auto simp: check_bindings_def)
  next
    case (Inr r)
    obtain bi bo where r: "r = (bi, bo)" by (cases r)
    note bound = Inr [unfolded r bind_arguments_Inr]
    have "check_bindings abi = None \<longleftrightarrow> list_all (\<lambda>b. b) bi \<and> list_all (\<lambda>b. b) bo \<and>
        (\<forall>p \<in> set (ka_results abi). p < ?m \<and> bo ! p)"
      by (auto simp: check_bindings_def Inr r check_all_bound_None)
    also have "\<dots> \<longleftrightarrow> (\<forall>k < ?n. input_arg k \<in> set ?as) \<and> (\<forall>k < ?m. output_arg k \<in> set ?as) \<and>
        list_all (\<lambda>r. r < ?m) (ka_results abi)"
      using bound by (auto simp: list_all_iff)
    finally show ?thesis using bound by auto
  qed
  also have "\<dots> \<longleftrightarrow> ?rhs"
  proof -
    have "set ?as = argument_set abi \<longleftrightarrow>
        (\<forall>k. input_arg k \<in> set ?as \<longleftrightarrow> k < ?n) \<and> (\<forall>k. output_arg k \<in> set ?as \<longleftrightarrow> k < ?m)"
    proof
      assume "set ?as = argument_set abi"
      then show "(\<forall>k. input_arg k \<in> set ?as \<longleftrightarrow> k < ?n) \<and> (\<forall>k. output_arg k \<in> set ?as \<longleftrightarrow> k < ?m)"
        by (auto simp: argument_set_def)
    next
      assume members: "(\<forall>k. input_arg k \<in> set ?as \<longleftrightarrow> k < ?n) \<and> (\<forall>k. output_arg k \<in> set ?as \<longleftrightarrow> k < ?m)"
      have "a \<in> set ?as \<longleftrightarrow> a \<in> argument_set abi" for a
        by (cases a rule: argument_cases) (use members in \<open>auto simp: argument_set_def\<close>)
      then show "set ?as = argument_set abi" by blast
    qed
    then show ?thesis by auto
  qed
  finally show ?thesis .
qed

text \<open>ValidateKernelAbi accepts exactly the ABIs of at most twelve descriptors that are either version 1
  with static rank-two ports of a supported type, or version 2 with rank-two ports, a well-formed shape
  contract, one signature argument for each port and results that name output ports.\<close>

theorem abi_validation_exact:
  assumes "contract_typed (buildShapeContract abi)"
  shows "validateKernelAbi abi = None \<longleftrightarrow>
    length (ka_inputs abi) + length (ka_outputs abi) \<le> 12 \<and>
    (ka_version abi = 1 \<and> list_all static_port_ok (ka_inputs abi @ ka_outputs abi) \<or>
     ka_version abi = 2 \<and> list_all symbolic_port_ok (ka_inputs abi @ ka_outputs abi) \<and>
       contract_wf (buildShapeContract abi) \<and> ka_inputs abi @ ka_outputs abi \<noteq> [] \<and>
       distinct (ka_arguments abi) \<and> set (ka_arguments abi) = argument_set abi \<and>
       list_all (\<lambda>r. r < length (ka_outputs abi)) (ka_results abi))"
proof -
  have "length (ka_inputs abi) > 12 \<or> length (ka_outputs abi) > 12 - length (ka_inputs abi) \<longleftrightarrow>
      \<not> length (ka_inputs abi) + length (ka_outputs abi) \<le> 12" by auto
  moreover have "ka_arguments abi = [] \<longleftrightarrow> ka_inputs abi @ ka_outputs abi = []"
    if "set (ka_arguments abi) = argument_set abi"
    using that by (auto simp: argument_set_def lessThan_empty_iff)
  moreover note validateShapeContract_wf [OF assms]
  ultimately show ?thesis
    by (auto simp: validateKernelAbi_def isSymbolicKernelAbi_def kMappedAbiVersionV1_def kMappedAbiVersionV2_def
        kMappedMaxDescriptors_def validateStaticPorts_None validateSymbolicPorts_None check_bindings_None
        split: option.splits)
qed

section \<open>The bytes under the hash\<close>

text \<open>A prefix code on the values that satisfy a predicate: the width of a field is fixed by its type.\<close>

locale wire_code =
  fixes ok :: "'a \<Rightarrow> bool" and enc :: "'a \<Rightarrow> string"
  assumes uniq: "ok a \<Longrightarrow> ok b \<Longrightarrow> enc a @ r = enc b @ s \<Longrightarrow> a = b \<and> r = s"
begin

lemma concat_uniq:
  "length xs = length ys \<Longrightarrow> list_all ok xs \<Longrightarrow> list_all ok ys \<Longrightarrow>
   concat (map enc xs) @ r = concat (map enc ys) @ s \<Longrightarrow> xs = ys \<and> r = s"
proof (induction xs ys rule: list_induct2)
  case (Cons x xs y ys)
  then have "enc x @ concat (map enc xs) @ r = enc y @ concat (map enc ys) @ s" by simp
  then have "x = y \<and> concat (map enc xs) @ r = concat (map enc ys) @ s"
    by (rule uniq [rotated 2]) (use Cons in auto)
  with Cons show ?case by simp
qed simp

end

lemma le_bytes_length [simp]: "length (le_bytes v) = 8"
  by (simp add: le_bytes_def)

lemma le_bytes_uniq: "le_bytes v @ r = le_bytes w @ s \<Longrightarrow> v = w \<and> r = s"
  using le_bytes_inj [of v w] by (simp add: append_eq_append_conv)

interpretation wire_nat: wire_code "\<lambda>n. n \<le> uint64_max" abi_nat
proof
  fix a b :: nat and r s
  assume small: "a \<le> uint64_max" "b \<le> uint64_max" and eq: "abi_nat a @ r = abi_nat b @ s"
  have "(of_nat a :: uint64) = of_nat b" and rest: "r = s"
    using le_bytes_uniq [OF eq [unfolded abi_nat_def]] by auto
  then have "unat (of_nat a :: uint64) = unat (of_nat b :: uint64)" by simp
  then show "a = b \<and> r = s" using small rest by (simp add: unat_of_nat uint64_max_def)
qed

interpretation wire_int: wire_code in_int64 abi_int
proof
  fix a b :: int and r s
  assume range: "in_int64 a" "in_int64 b" and eq: "abi_int a @ r = abi_int b @ s"
  have "(of_int a :: uint64) = of_int b" and rest: "r = s"
    using le_bytes_uniq [OF eq [unfolded abi_int_def]] by auto
  then have "sint (of_int a :: uint64) = sint (of_int b :: uint64)" by simp
  moreover have "sint (of_int c :: uint64) = c" if "in_int64 c" for c
    using that by (simp add: int_word_sint in_int64_def int64_min_def int64_max_def)
  ultimately show "a = b \<and> r = s" using range rest by simp
qed

definition text_ok :: "string \<Rightarrow> bool" where "text_ok s \<longleftrightarrow> length s \<le> uint64_max"

interpretation wire_text: wire_code text_ok abi_text
proof
  fix a b r s assume ok: "text_ok a" "text_ok b" and eq: "abi_text a @ r = abi_text b @ s"
  have "length a = length b \<and> a @ r = b @ s"
    by (rule wire_nat.uniq) (use ok eq in \<open>auto simp: text_ok_def abi_text_def\<close>)
  then show "a = b \<and> r = s" by (auto simp: append_eq_append_conv)
qed

definition list_ok :: "('a \<Rightarrow> bool) \<Rightarrow> 'a list \<Rightarrow> bool" where
  "list_ok ok xs \<longleftrightarrow> length xs \<le> uint64_max \<and> list_all ok xs"

lemma wire_list:
  assumes "wire_code ok enc"
  shows "wire_code (list_ok ok) (abi_list enc)"
proof
  fix xs ys r s assume ok: "list_ok ok xs" "list_ok ok ys" and eq: "abi_list enc xs @ r = abi_list enc ys @ s"
  have "length xs = length ys \<and> concat (map enc xs) @ r = concat (map enc ys) @ s"
    by (rule wire_nat.uniq) (use ok eq in \<open>auto simp: list_ok_def abi_list_def\<close>)
  with wire_code.concat_uniq [OF assms] ok show "xs = ys \<and> r = s" by (auto simp: list_ok_def)
qed

interpretation wire_ints: wire_code "list_ok in_int64" "abi_list abi_int"
  by (rule wire_list) unfold_locales

interpretation wire_nats: wire_code "list_ok (\<lambda>n. n \<le> uint64_max)" "abi_list abi_nat"
  by (rule wire_list) unfold_locales

definition symbol_ok :: "string \<times> symbol_constraint \<Rightarrow> bool" where
  "symbol_ok entry \<longleftrightarrow> text_ok (fst entry) \<and> constraint_typed (snd entry)"

interpretation wire_symbol: wire_code symbol_ok symbol_bytes
proof
  fix a b r s assume ok: "symbol_ok a" "symbol_ok b" and eq: "symbol_bytes a @ r = symbol_bytes b @ s"
  obtain n c n' c' where ab: "a = (n, c)" "b = (n', c')" by (cases a; cases b)
  let ?flag = "\<lambda>c. case sc_max c of None \<Rightarrow> 0 | Some _ \<Rightarrow> (1::nat)"
  let ?max = "\<lambda>c. case sc_max c of None \<Rightarrow> 0 | Some m \<Rightarrow> m"
  have typed: "text_ok n" "text_ok n'" "in_int64 (sc_min c)" "in_int64 (sc_min c')"
    "?flag c \<le> uint64_max" "?flag c' \<le> uint64_max" "in_int64 (?max c)" "in_int64 (?max c')"
    "in_int64 (multipleOf c)" "in_int64 (multipleOf c')"
    using ok ab by (auto simp: symbol_ok_def constraint_typed_def uint64_max_def in_int64_def int64_min_def
        int64_max_def split: option.splits)
  note step = eq [unfolded ab symbol_bytes_def prod.case append_assoc]
  from wire_text.uniq [OF typed(1,2) step] have n: "n = n'" and
    step: "abi_int (sc_min c) @ abi_nat (?flag c) @ abi_int (?max c) @ abi_int (multipleOf c) @ r =
      abi_int (sc_min c') @ abi_nat (?flag c') @ abi_int (?max c') @ abi_int (multipleOf c') @ s" by auto
  from wire_int.uniq [OF typed(3,4) step] have mn: "sc_min c = sc_min c'" and
    step: "abi_nat (?flag c) @ abi_int (?max c) @ abi_int (multipleOf c) @ r =
      abi_nat (?flag c') @ abi_int (?max c') @ abi_int (multipleOf c') @ s" by auto
  from wire_nat.uniq [OF typed(5,6) step] have flag: "?flag c = ?flag c'" and
    step: "abi_int (?max c) @ abi_int (multipleOf c) @ r = abi_int (?max c') @ abi_int (multipleOf c') @ s" by auto
  from wire_int.uniq [OF typed(7,8) step] have mx: "?max c = ?max c'" and
    step: "abi_int (multipleOf c) @ r = abi_int (multipleOf c') @ s" by auto
  from wire_int.uniq [OF typed(9,10) step] have "multipleOf c = multipleOf c' \<and> r = s" .
  with n mn flag mx show "a = b \<and> r = s" by (auto simp: ab split: option.splits)
qed

definition dimension_ok :: "dimension \<Rightarrow> bool" where
  "dimension_ok d = (case d of Constant k \<Rightarrow> in_int64 k | Symbol n \<Rightarrow> text_ok n)"

interpretation wire_dimension: wire_code dimension_ok dimension_bytes
proof
  fix a b r s assume "dimension_ok a" "dimension_ok b" "dimension_bytes a @ r = dimension_bytes b @ s"
  then show "a = b \<and> r = s"
    by (cases a; cases b) (auto simp: dimension_ok_def dest: wire_int.uniq wire_text.uniq)
qed

interpretation wire_dimensions: wire_code "list_ok dimension_ok" "abi_list dimension_bytes"
  by (rule wire_list) unfold_locales

text \<open>A version 1 port has extents only, a version 2 port dimensions only.\<close>

definition static_wire :: "kernel_port \<Rightarrow> bool" where
  "static_wire p \<longleftrightarrow> list_ok in_int64 (kp_shape p) \<and> text_ok (kp_elementType p) \<and> kp_dimensions p = []"

definition symbolic_wire :: "kernel_port \<Rightarrow> bool" where
  "symbolic_wire p \<longleftrightarrow> kp_shape p = [] \<and> text_ok (kp_elementType p) \<and>
     list_ok dimension_ok (kp_dimensions p) \<and> kp_dimensions p \<noteq> []"

interpretation wire_static: wire_code static_wire static_port_bytes
proof
  fix p q r s assume ok: "static_wire p" "static_wire q" and eq: "static_port_bytes p @ r = static_port_bytes q @ s"
  have "kp_shape p = kp_shape q \<and> abi_text (kp_elementType p) @ r = abi_text (kp_elementType q) @ s"
    by (rule wire_ints.uniq) (use ok eq in \<open>auto simp: static_wire_def static_port_bytes_def\<close>)
  moreover from this have "kp_elementType p = kp_elementType q \<and> r = s"
    using ok by (intro wire_text.uniq) (auto simp: static_wire_def)
  ultimately show "p = q \<and> r = s" using ok by (simp add: static_wire_def)
qed

interpretation wire_symbolic: wire_code symbolic_wire symbolic_port_bytes
proof
  fix p q r s
  assume ok: "symbolic_wire p" "symbolic_wire q" and eq: "symbolic_port_bytes p @ r = symbolic_port_bytes q @ s"
  have "kp_elementType p = kp_elementType q \<and>
      abi_list dimension_bytes (kp_dimensions p) @ r = abi_list dimension_bytes (kp_dimensions q) @ s"
    by (rule wire_text.uniq) (use ok eq in \<open>auto simp: symbolic_wire_def symbolic_port_bytes_def\<close>)
  moreover from this have "kp_dimensions p = kp_dimensions q \<and> r = s"
    using ok by (intro wire_dimensions.uniq) (auto simp: symbolic_wire_def)
  ultimately show "p = q \<and> r = s" using ok by (simp add: symbolic_wire_def)
qed

definition argument_ok :: "kernel_abi_argument \<Rightarrow> bool" where
  "argument_ok a \<longleftrightarrow> arg_port a \<le> uint32_max"

interpretation wire_argument: wire_code argument_ok argument_bytes
proof
  fix a b r s assume ok: "argument_ok a" "argument_ok b" and eq: "argument_bytes a @ r = argument_bytes b @ s"
  have small: "arg_port a \<le> uint64_max" "arg_port b \<le> uint64_max"
    using ok by (auto simp: argument_ok_def uint32_max_def uint64_max_def)
  have tag: "(role a = InputRole) = (role b = InputRole)"
    and rest: "abi_nat (arg_port a) @ r = abi_nat (arg_port b) @ s"
    using eq by (auto simp: argument_bytes_def split: if_splits)
  have "role a = role b" using tag by (cases "role a"; cases "role b") auto
  with wire_nat.uniq [OF small rest] show "a = b \<and> r = s" by simp
qed

interpretation wire_symbols: wire_code "list_ok symbol_ok" "abi_list symbol_bytes"
  by (rule wire_list) unfold_locales

interpretation wire_statics: wire_code "list_ok static_wire" "abi_list static_port_bytes"
  by (rule wire_list) unfold_locales

interpretation wire_symbolics: wire_code "list_ok symbolic_wire" "abi_list symbolic_port_bytes"
  by (rule wire_list) unfold_locales

interpretation wire_arguments: wire_code "list_ok argument_ok" "abi_list argument_bytes"
  by (rule wire_list) unfold_locales

text \<open>The field types of the ABI, and what each version leaves empty.\<close>

definition wire_ok :: "kernel_abi \<Rightarrow> bool" where
  "wire_ok abi \<longleftrightarrow> ka_version abi \<le> uint32_max \<and>
     (if isSymbolicKernelAbi abi
      then list_ok symbolic_wire (ka_inputs abi) \<and> list_ok symbolic_wire (ka_outputs abi) \<and>
        list_ok symbol_ok (ka_symbols abi) \<and> list_ok argument_ok (ka_arguments abi) \<and>
        list_ok (\<lambda>n. n \<le> uint64_max) (ka_results abi)
      else list_ok static_wire (ka_inputs abi) \<and> list_ok static_wire (ka_outputs abi) \<and>
        ka_symbols abi = [] \<and> ka_arguments abi = [] \<and> ka_results abi = [])"

lemma abi_nat_uniq:
  "a \<le> uint64_max \<Longrightarrow> b \<le> uint64_max \<Longrightarrow> abi_nat a @ r = abi_nat b @ s \<longleftrightarrow> a = b \<and> r = s"
  using wire_nat.uniq by blast

lemma abi_bytes_version:
  assumes "wire_ok a" "wire_ok b" "abi_bytes a = abi_bytes b"
  shows "ka_version a = ka_version b"
proof -
  have "ka_version a \<le> uint64_max" "ka_version b \<le> uint64_max"
    using assms(1,2) by (auto simp: wire_ok_def uint32_max_def uint64_max_def)
  then show ?thesis using assms(3) wire_nat.uniq unfolding abi_bytes_def by blast
qed

text \<open>The bytes that computeKernelAbiHash feeds to FNV-1a determine the ABI: two ABIs with the same bytes are
  equal, whatever their versions, so a collision of hashes is a collision of FNV-1a itself.\<close>

theorem abi_bytes_injective:
  assumes "wire_ok a" and "wire_ok b"
  shows "abi_bytes a = abi_bytes b \<longleftrightarrow> a = b"
proof
  assume eq: "abi_bytes a = abi_bytes b"
  note version = abi_bytes_version [OF assms eq]
  show "a = b"
  proof (cases "isSymbolicKernelAbi a")
    case False
    then have b: "\<not> isSymbolicKernelAbi b" using version by (simp add: isSymbolicKernelAbi_def)
    have "abi_list static_port_bytes (ka_inputs a) @ abi_list static_port_bytes (ka_outputs a) @ [] =
        abi_list static_port_bytes (ka_inputs b) @ abi_list static_port_bytes (ka_outputs b) @ []"
      using eq version False b by (simp add: abi_bytes_def)
    then have "ka_inputs a = ka_inputs b \<and> ka_outputs a = ka_outputs b"
      using assms False b unfolding wire_ok_def by (metis wire_statics.uniq)
    then show ?thesis using assms False b version by (simp add: wire_ok_def)
  next
    case True
    then have b: "isSymbolicKernelAbi b" using version by (simp add: isSymbolicKernelAbi_def)
    have step: "abi_list symbol_bytes (ka_symbols a) @ abi_list symbolic_port_bytes (ka_inputs a) @
        abi_list symbolic_port_bytes (ka_outputs a) @ abi_list argument_bytes (ka_arguments a) @
        abi_list abi_nat (ka_results a) @ [] =
        abi_list symbol_bytes (ka_symbols b) @ abi_list symbolic_port_bytes (ka_inputs b) @
        abi_list symbolic_port_bytes (ka_outputs b) @ abi_list argument_bytes (ka_arguments b) @
        abi_list abi_nat (ka_results b) @ []"
      using eq version True b by (simp add: abi_bytes_def)
    have ok: "list_ok symbol_ok (ka_symbols a)" "list_ok symbol_ok (ka_symbols b)"
      "list_ok symbolic_wire (ka_inputs a)" "list_ok symbolic_wire (ka_inputs b)"
      "list_ok symbolic_wire (ka_outputs a)" "list_ok symbolic_wire (ka_outputs b)"
      "list_ok argument_ok (ka_arguments a)" "list_ok argument_ok (ka_arguments b)"
      "list_ok (\<lambda>n. n \<le> uint64_max) (ka_results a)" "list_ok (\<lambda>n. n \<le> uint64_max) (ka_results b)"
      using assms True b by (auto simp: wire_ok_def)
    note symbols = wire_symbols.uniq [OF ok(1,2) step]
    note inputs = wire_symbolics.uniq [OF ok(3,4) conjunct2 [OF symbols]]
    note outputs = wire_symbolics.uniq [OF ok(5,6) conjunct2 [OF inputs]]
    note arguments = wire_arguments.uniq [OF ok(7,8) conjunct2 [OF outputs]]
    note results = wire_nats.uniq [OF ok(9,10) conjunct2 [OF arguments]]
    show ?thesis using symbols inputs outputs arguments results version by simp
  qed
qed simp

section \<open>A concrete call\<close>

text \<open>A kernel over \<open>N\<close> rows of four floats, called with two rows that lie side by side in memory.\<close>

definition copy_port :: kernel_port where
  "copy_port = \<lparr>kp_shape = [], kp_elementType = ''f32'', kp_dimensions = [Symbol ''N'', Constant 4]\<rparr>"

definition copy_abi :: kernel_abi where
  "copy_abi = \<lparr>ka_inputs = [copy_port], ka_outputs = [copy_port], ka_version = 2,
     ka_arguments = [\<lparr>role = OutputRole, arg_port = 0\<rparr>, \<lparr>role = InputRole, arg_port = 0\<rparr>],
     ka_results = [0], ka_symbols = [(''N'', \<lparr>sc_min = 0, sc_max = Some 64, multipleOf = 2\<rparr>)]\<rparr>"

definition copy_buffer :: "nat \<Rightarrow> invocation_buffer" where
  "copy_buffer p = \<lparr>descriptor = \<lparr>allocated = p, aligned = p, md_offset = 0, size0 = 2, size1 = 4,
     stride0 = 4, stride1 = 1\<rparr>, buf_elementType = F32, allocationBytes = 32\<rparr>"

lemma copy_contract:
  "buildShapeContract copy_abi =
    \<lparr>ports = [\<lparr>port_name = ''input0'', port_dir = Input, port_shape = [Symbol ''N'', Constant 4]\<rparr>,
              \<lparr>port_name = ''output0'', port_dir = Output, port_shape = [Symbol ''N'', Constant 4]\<rparr>],
     symbols = [(''N'', \<lparr>sc_min = 0, sc_max = Some 64, multipleOf = 2\<rparr>)]\<rparr>"
  by (simp add: buildShapeContract_def contract_ports_def contract_port_def copy_abi_def copy_port_def
      nat_to_string.simps [of 0] digit_char_def char_of_def bit_0)

lemma copy_contract_valid: "validateShapeContract (buildShapeContract copy_abi) = None"
  by (simp add: copy_contract validateShapeContract_def validateSymbolTable_def check_symbol_def
      above_maximum_def hasMultipleInRange_def use_symbol_def smod_nonneg_pos)

lemma copy_typed: "contract_typed (buildShapeContract copy_abi)"
  by (simp add: copy_contract contract_typed_def constraint_typed_def in_int64_def int64_min_def int64_max_def)

lemma copy_abi_valid: "validateKernelAbi copy_abi = None"
  using copy_contract_valid
  by (simp add: validateKernelAbi_def isSymbolicKernelAbi_def kMappedAbiVersionV1_def kMappedAbiVersionV2_def
      kMappedMaxDescriptors_def check_bindings_def supportedElementType_def copy_abi_def copy_port_def Let_def)

lemma copy_symbolic: "isSymbolicKernelAbi copy_abi"
  by (simp add: isSymbolicKernelAbi_def kMappedAbiVersionV2_def copy_abi_def)

lemma copy_buffers_typed: "list_all buffer_typed ([copy_buffer 4096] @ [copy_buffer 4128])"
  by (simp add: buffer_typed_def copy_buffer_def in_int64_def int64_min_def int64_max_def uint64_max_def)

lemma copy_side:
  "p = 4096 \<or> p = 4128 \<Longrightarrow> validateSide direction 0 [copy_port] [copy_buffer p] =
     Inr [(\<lparr>psv_direction = direction, psv_index = 0, psv_extents = [2, 4]\<rparr>, \<lparr>sp_begin = p, sp_end = p + 32\<rparr>)]"
  by (auto simp: copy_port_def copy_buffer_def validateSymbolicExtents_def required_bytes_def checkedMul_exact
      to_uint64_def validateSymbolicRange_def check_range_def uint64_max_def wrap64_def Let_def)

lemma copy_binds:
  "bindShapeValues (buildShapeContract copy_abi)
     [\<lparr>psv_direction = Input, psv_index = 0, psv_extents = [2, 4]\<rparr>,
      \<lparr>psv_direction = Output, psv_index = 0, psv_extents = [2, 4]\<rparr>] = Inr [(''N'', 2)]"
  using copy_contract_valid
  by (simp add: copy_contract bindShapeValues_def check_bound_def check_constraint_def smod_nonneg_pos numeral_2_eq_2)

lemma copy_resolves:
  "resolveMappedShapeValues copy_abi [copy_buffer 4096] [copy_buffer 4128] = Inr [(''N'', 2)]"
proof -
  have ports: "ka_inputs copy_abi = [copy_port]" "ka_outputs copy_abi = [copy_port]" by (simp_all add: copy_abi_def)
  show ?thesis using copy_abi_valid copy_symbolic copy_binds
    by (simp add: resolveMappedShapeValues_def ports copy_side output_overlap_def overlaps_def del: validateSide.simps)
qed

lemma copy_accepted: "validateMappedInvocation copy_abi [copy_buffer 4096] [copy_buffer 4128] = None"
  by (simp add: validateMappedInvocation_def copy_resolves)

theorem invocation_accesses_in_bounds_witness:
  "validateMappedInvocation copy_abi [copy_buffer 4096] [copy_buffer 4128] = None \<and>
   in_extent (copy_buffer 4128) 1 3 \<and>
   element_address (copy_buffer 4128) 1 3 + element_bytes (copy_buffer 4128) \<le>
     int (allocated (descriptor (copy_buffer 4128)) + allocationBytes (copy_buffer 4128))"
proof -
  have "in_extent (copy_buffer 4128) 1 3" by (simp add: in_extent_def copy_buffer_def)
  with invocation_accesses_in_bounds [OF copy_accepted copy_buffers_typed, of "copy_buffer 4128" 1 3]
  show ?thesis using copy_accepted by simp
qed

theorem invocation_outputs_disjoint_witness:
  "validateMappedInvocation copy_abi [copy_buffer 4096] [copy_buffer 4128] = None \<and>
   touched_addresses (copy_buffer 4096) \<inter> touched_addresses (copy_buffer 4128) = {}"
  using invocation_outputs_disjoint [OF copy_accepted copy_buffers_typed] copy_accepted by simp

theorem resolved_values_match_buffers_witness:
  "resolveMappedShapeValues copy_abi [copy_buffer 4096] [copy_buffer 4128] = Inr [(''N'', 2)] \<and>
   validateShapeValues (buildShapeContract copy_abi) [(''N'', 2)] = None"
  using resolved_values_match_buffers [OF copy_resolves copy_symbolic copy_buffers_typed copy_typed] copy_resolves
  by simp

theorem abi_validation_exact_witness:
  "contract_typed (buildShapeContract copy_abi) \<and> contract_wf (buildShapeContract copy_abi)"
  using abi_validation_exact [OF copy_typed] copy_abi_valid copy_typed by (simp add: copy_abi_def)

lemma copy_wire: "wire_ok copy_abi"
  by (simp add: wire_ok_def copy_symbolic) 
    (simp add: copy_abi_def copy_port_def list_ok_def symbolic_wire_def text_ok_def dimension_ok_def symbol_ok_def
      constraint_typed_def argument_ok_def in_int64_def int64_min_def int64_max_def uint64_max_def uint32_max_def)

theorem abi_bytes_injective_witness:
  "wire_ok copy_abi \<and> wire_ok (copy_abi\<lparr>ka_results := []\<rparr>) \<and>
   abi_bytes copy_abi \<noteq> abi_bytes (copy_abi\<lparr>ka_results := []\<rparr>)"
proof -
  have ok: "wire_ok (copy_abi\<lparr>ka_results := []\<rparr>)"
    using copy_wire copy_symbolic by (simp add: wire_ok_def isSymbolicKernelAbi_def list_ok_def)
  have "copy_abi \<noteq> copy_abi\<lparr>ka_results := []\<rparr>" by (simp add: copy_abi_def)
  with abi_bytes_injective [OF copy_wire ok] copy_wire ok show ?thesis by simp
qed

text \<open>The overlap test compares spans, not bytes: an empty output span strictly inside an input span counts as
  an overlap although it touches nothing.\<close>

lemma empty_span_overlaps:
  "overlaps \<lparr>sp_begin = 4096, sp_end = 4128\<rparr> \<lparr>sp_begin = 4112, sp_end = 4112\<rparr>"
  by (simp add: overlaps_def)

end
