(* ===== verification/Variants.thy ===== *)
theory Variants
  imports Shape Hash
begin

text \<open>
  Identities of compiled variants and the ordered sets of guarded variants a dynamic kernel is dispatched
  over: \<^verbatim>\<open>runtime/CompiledVariantIdentity.cpp\<close> and \<^verbatim>\<open>include/LLK/Runtime/CompiledVariantIdentity.h\<close>. The
  lemmas show which sets \<^verbatim>\<open>DynamicVariantSet::create\<close> accepts, how \<^verbatim>\<open>select\<close> relates to the classification of
  the guards against the contract, and that the canonical strings determine what they describe.
\<close>

section \<open>Data\<close>

definition kCompiledVariantIdentityVersion :: nat where "kCompiledVariantIdentityVersion = 1"
definition kDynamicVariantSetVersion :: nat where "kDynamicVariantSetVersion = 1"

record compiled_identity =
  ci_version :: nat
  ci_canonical :: string
  ci_contentHash :: string

record identity_inputs =
  sourceContent :: string
  symbolicContract :: string
  symbolicContractVersion :: nat
  numericalContract :: string
  ii_guards :: "shape_predicate list"
  abiVersion :: nat
  abiHash :: uint64
  staticSchedule :: string
  targetIdentity :: string
  backendIdentity :: string
  executionMode :: string
  compilerVersion :: string

record guarded_variant =
  gv_id :: string
  gv_identity :: compiled_identity
  gv_guards :: "shape_predicate list"
  gv_baseline :: bool

record variant_set =
  variants :: "guarded_variant list"
  maxVariants :: nat

datatype variant_error =
    ZeroBudget
  | NoVariants
  | BudgetExceeded nat nat
  | EmptyVariantId
  | DuplicateVariantId string
  | EmptyGuardSymbol
  | NonPositiveDivisor string
  | GuardedBaseline
  | BaselineNotLast
  | UnguardedVariant string
  | NoBaseline
  | SeveralBaselines

section \<open>Rendering and hashing\<close>

text \<open>A rendering is a sequence of length-delimited fields (\<open>sized\<close>), appended one after the other.\<close>

definition render_fields :: "string list \<Rightarrow> string" where
  "render_fields xs = concat (map sized xs)"

definition fnv1a :: "string \<Rightarrow> uint64" where
  "fnv1a s = foldl (\<lambda>hash byte. (hash XOR byte_word byte) * 1099511628211) 14695981039346656037 s"

definition hash_to_string :: "uint64 \<Rightarrow> string" where "hash_to_string h = nat_to_string (unat h)"

fun predicateKindName :: "predicate_kind \<Rightarrow> string" where
  "predicateKindName DivisibleBy = ''divisible_by''"
| "predicateKindName EqualTo = ''equal_to''"
| "predicateKindName AtLeast = ''at_least''"

definition guard_fields :: "shape_predicate \<Rightarrow> string list" where
  "guard_fields g = [predicateKindName (pred_kind g), pred_symbol g, int_to_string (pred_value g)]"

definition canonicalShapeGuards :: "shape_predicate list \<Rightarrow> string" where
  "canonicalShapeGuards guards = render_fields
     ([''llk-shape-guards-v1'', nat_to_string (length guards)] @ concat (map guard_fields guards))"

definition identity_fields :: "identity_inputs \<Rightarrow> string list" where
  "identity_fields i =
     [''llk-compiled-variant'', nat_to_string kCompiledVariantIdentityVersion, sourceContent i,
      symbolicContract i, nat_to_string (symbolicContractVersion i), numericalContract i,
      canonicalShapeGuards (ii_guards i), nat_to_string (abiVersion i), hash_to_string (abiHash i),
      staticSchedule i, targetIdentity i, backendIdentity i, executionMode i, compilerVersion i]"

definition makeCompiledVariantIdentity :: "identity_inputs \<Rightarrow> compiled_identity" where
  "makeCompiledVariantIdentity i =
     (let canonical = render_fields (identity_fields i) in
      \<lparr>ci_version = kCompiledVariantIdentityVersion, ci_canonical = canonical,
       ci_contentHash = hash_to_string (fnv1a canonical)\<rparr>)"

definition canonicalMeasurementIdentity :: "string \<Rightarrow> shape_values \<Rightarrow> string \<Rightarrow> string" where
  "canonicalMeasurementIdentity variantCanonical vals profileCanonical = render_fields
     ([''llk-measurement-v2'', variantCanonical, nat_to_string (length vals)] @
      concat (map (\<lambda>(name, v). [name, int_to_string v]) vals) @ [profileCanonical])"

section \<open>Guards and variant sets\<close>

definition guardHolds :: "shape_predicate \<Rightarrow> shape_values \<Rightarrow> bool" where
  "guardHolds p vals =
     (case map_of vals (pred_symbol p) of
        None \<Rightarrow> False
      | Some extent \<Rightarrow>
          if extent < 0 then False
          else (case pred_kind p of
            DivisibleBy \<Rightarrow> pred_value p > 0 \<and> extent smod pred_value p = 0
          | EqualTo \<Rightarrow> extent = pred_value p
          | AtLeast \<Rightarrow> extent \<ge> pred_value p))"

definition validateGuard :: "shape_predicate \<Rightarrow> variant_error option" where
  "validateGuard p =
     (if pred_symbol p = [] then Some EmptyGuardSymbol
      else if pred_kind p = DivisibleBy \<and> pred_value p \<le> 0 then Some (NonPositiveDivisor (pred_symbol p))
      else None)"

definition check_role :: "bool \<Rightarrow> guarded_variant \<Rightarrow> variant_error option" where
  "check_role final v =
     (if gv_baseline v then
        if gv_guards v \<noteq> [] then Some GuardedBaseline
        else if \<not> final then Some BaselineNotLast
        else None
      else if gv_guards v = [] then Some (UnguardedVariant (gv_id v))
      else None)"

fun check_variants ::
  "string list \<Rightarrow> nat \<Rightarrow> guarded_variant list \<Rightarrow> (variant_error, nat) expected" where
  "check_variants ids baselines [] = Inr baselines"
| "check_variants ids baselines (v # vs) =
     (if gv_id v = [] then Inl EmptyVariantId
      else if gv_id v \<in> set ids then Inl (DuplicateVariantId (gv_id v))
      else case orElse (first_error validateGuard (gv_guards v)) (check_role (vs = []) v) of
        Some e \<Rightarrow> Inl e
      | None \<Rightarrow> check_variants (gv_id v # ids) (if gv_baseline v then Suc baselines else baselines) vs)"

definition createVariantSet :: "guarded_variant list \<Rightarrow> nat \<Rightarrow> (variant_error, variant_set) expected" where
  "createVariantSet vs budget =
     (if budget = 0 then Inl ZeroBudget
      else if vs = [] then Inl NoVariants
      else if length vs > budget then Inl (BudgetExceeded (length vs) budget)
      else bindR (check_variants [] 0 vs) (\<lambda>baselines.
        if baselines = 0 then Inl NoBaseline
        else if baselines > 1 then Inl SeveralBaselines
        else Inr \<lparr>variants = vs, maxVariants = budget\<rparr>))"

definition variant_matches :: "shape_values \<Rightarrow> guarded_variant \<Rightarrow> bool" where
  "variant_matches vals v \<longleftrightarrow> \<not> gv_baseline v \<and> list_all (\<lambda>g. guardHolds g vals) (gv_guards v)"

definition selectVariant :: "variant_set \<Rightarrow> shape_values \<Rightarrow> guarded_variant" where
  "selectVariant s vals =
     (case List.find (variant_matches vals) (variants s) of
        Some v \<Rightarrow> v
      | None \<Rightarrow> last (variants s))"

definition variant_fields :: "guarded_variant \<Rightarrow> string list" where
  "variant_fields v =
     [gv_id v, ci_canonical (gv_identity v), canonicalShapeGuards (gv_guards v), if gv_baseline v then ''1'' else ''0'']"

definition canonicalVariantSet :: "variant_set \<Rightarrow> string" where
  "canonicalVariantSet s = render_fields
     ([''llk-dynamic-variants'', nat_to_string kDynamicVariantSetVersion, nat_to_string (maxVariants s),
       nat_to_string (length (variants s))] @ concat (map variant_fields (variants s)))"

definition variantSetHash :: "variant_set \<Rightarrow> string" where
  "variantSetHash s = hash_to_string (fnv1a (canonicalVariantSet s))"

section \<open>Canonical strings determine what they render\<close>

lemma sized_nonempty [simp]: "sized s \<noteq> []"
  by (simp add: sized_def)

lemma render_fields_inj [simp]: "render_fields xs = render_fields ys \<longleftrightarrow> xs = ys"
proof
  show "render_fields xs = render_fields ys \<Longrightarrow> xs = ys"
    unfolding render_fields_def
  proof (induction xs arbitrary: ys)
    case Nil
    then show ?case by (cases ys) auto
  next
    case (Cons x xs)
    then obtain y ys' where ys: "ys = y # ys'" by (cases ys) auto
    with Cons.prems sized.uniq [of x "concat (map sized xs)" y "concat (map sized ys')"] Cons.IH
    show ?case by simp
  qed
qed simp

lemma fixed_blocks_inj:
  assumes "\<And>x. length (f x) = n" "\<And>x y. f x = f y \<Longrightarrow> x = y"
    and "length xs = length ys" "concat (map f xs) @ r = concat (map f ys) @ s"
  shows "xs = ys \<and> r = s"
  using assms(3,4)
proof (induction xs ys rule: list_induct2)
  case (Cons x xs y ys)
  have "f x @ (concat (map f xs) @ r) = f y @ (concat (map f ys) @ s)" using Cons.prems by simp
  then have "f x = f y \<and> concat (map f xs) @ r = concat (map f ys) @ s"
    using assms(1) by (subst (asm) append_eq_append_conv) auto
  then show ?case using assms(2) Cons.IH by auto
qed simp

lemma predicateKindName_inj [simp]: "predicateKindName k = predicateKindName l \<longleftrightarrow> k = l"
  by (cases k; cases l) auto

lemma guard_fields_inj: "guard_fields g = guard_fields h \<Longrightarrow> g = h"
  by (simp add: guard_fields_def)

lemma canonicalShapeGuards_inj [simp]: "canonicalShapeGuards gs = canonicalShapeGuards hs \<longleftrightarrow> gs = hs"
proof
  assume "canonicalShapeGuards gs = canonicalShapeGuards hs"
  then have "length gs = length hs" "concat (map guard_fields gs) = concat (map guard_fields hs)"
    by (auto simp: canonicalShapeGuards_def)
  then show "gs = hs"
    using fixed_blocks_inj [of guard_fields 3 gs hs "[]" "[]"] guard_fields_inj by (auto simp: guard_fields_def)
qed simp

lemma hash_to_string_inj [simp]: "hash_to_string g = hash_to_string h \<longleftrightarrow> g = h"
  by (simp add: hash_to_string_def word_unat_eq_iff)

lemma identity_fields_inj: "identity_fields i = identity_fields j \<longleftrightarrow> i = j"
  by (auto simp: identity_fields_def intro: identity_inputs.equality)

lemma measurement_inj:
  "canonicalMeasurementIdentity v vals p = canonicalMeasurementIdentity w wals q \<longleftrightarrow> v = w \<and> vals = wals \<and> p = q"
proof
  let ?f = "\<lambda>(name, v). [name, int_to_string v]"
  assume "canonicalMeasurementIdentity v vals p = canonicalMeasurementIdentity w wals q"
  then have v: "v = w" and eq: "length vals = length wals" "concat (map ?f vals) @ [p] = concat (map ?f wals) @ [q]"
    by (auto simp: canonicalMeasurementIdentity_def)
  have "vals = wals \<and> [p] = [q]"
    by (rule fixed_blocks_inj [OF _ _ eq]) auto
  with v show "v = w \<and> vals = wals \<and> p = q" by simp
qed simp

text \<open>What the canonical string of a set records of a variant.\<close>

definition variant_key :: "guarded_variant \<Rightarrow> string \<times> string \<times> shape_predicate list \<times> bool" where
  "variant_key v = (gv_id v, ci_canonical (gv_identity v), gv_guards v, gv_baseline v)"

definition key_fields :: "string \<times> string \<times> shape_predicate list \<times> bool \<Rightarrow> string list" where
  "key_fields k = (case k of (i, c, g, b) \<Rightarrow> [i, c, canonicalShapeGuards g, if b then ''1'' else ''0''])"

lemma variant_fields_key: "variant_fields v = key_fields (variant_key v)"
  by (simp add: variant_fields_def variant_key_def key_fields_def)

lemma key_fields_inj: "key_fields k = key_fields l \<Longrightarrow> k = l"
  by (cases k; cases l) (auto simp: key_fields_def split: if_splits)

lemma key_fields_length: "length (key_fields k) = 4"
  by (simp add: key_fields_def split: prod.splits)

lemma canonicalVariantSet_inj:
  "canonicalVariantSet s = canonicalVariantSet t \<longleftrightarrow>
     maxVariants s = maxVariants t \<and> map variant_key (variants s) = map variant_key (variants t)"
proof -
  have blocks: "concat (map variant_fields vs) = concat (map key_fields (map variant_key vs))" for vs
    by (simp add: variant_fields_key comp_def cong: map_cong)
  show ?thesis
  proof
    assume eq: "canonicalVariantSet s = canonicalVariantSet t"
    then have mx: "maxVariants s = maxVariants t" and len: "length (variants s) = length (variants t)"
      and "concat (map variant_fields (variants s)) = concat (map variant_fields (variants t))"
      unfolding canonicalVariantSet_def render_fields_inj by simp_all
    then have "concat (map key_fields (map variant_key (variants s))) @ [] =
        concat (map key_fields (map variant_key (variants t))) @ []"
      unfolding blocks append_Nil2 by -
    from fixed_blocks_inj [of key_fields 4, OF key_fields_length key_fields_inj _ this] len mx
    show "maxVariants s = maxVariants t \<and> map variant_key (variants s) = map variant_key (variants t)"
      unfolding length_map by blast
  next
    assume eq: "maxVariants s = maxVariants t \<and> map variant_key (variants s) = map variant_key (variants t)"
    then have "length (variants s) = length (variants t)" using map_eq_imp_length_eq by blast
    with eq show "canonicalVariantSet s = canonicalVariantSet t"
      unfolding canonicalVariantSet_def blocks by (simp only:)
  qed
qed

text \<open>The canonical strings determine what they describe: the inputs of a compiled variant, the variant,
  observation and profile of a measurement, and the budget and the ordered variants of a set.\<close>

theorem variant_identities_injective:
  "(ci_canonical (makeCompiledVariantIdentity i) = ci_canonical (makeCompiledVariantIdentity j) \<longleftrightarrow> i = j) \<and>
   (canonicalMeasurementIdentity v vals p = canonicalMeasurementIdentity w wals q \<longleftrightarrow>
      v = w \<and> vals = wals \<and> p = q) \<and>
   (canonicalVariantSet s = canonicalVariantSet t \<longleftrightarrow>
      maxVariants s = maxVariants t \<and> map variant_key (variants s) = map variant_key (variants t))"
  by (simp add: makeCompiledVariantIdentity_def identity_fields_inj measurement_inj canonicalVariantSet_inj Let_def)

section \<open>Which sets are accepted\<close>

definition guards_valid :: "guarded_variant \<Rightarrow> bool" where
  "guards_valid v \<longleftrightarrow> list_all (\<lambda>g. pred_symbol g \<noteq> [] \<and> (pred_kind g = DivisibleBy \<longrightarrow> 0 < pred_value g)) (gv_guards v)"

lemma validateGuard_None: "validateGuard g = None \<longleftrightarrow> pred_symbol g \<noteq> [] \<and> (pred_kind g = DivisibleBy \<longrightarrow> 0 < pred_value g)"
  by (auto simp: validateGuard_def)

lemma variant_check_None:
  "orElse (first_error validateGuard (gv_guards v)) (check_role final v) = None \<longleftrightarrow>
     guards_valid v \<and> (gv_baseline v = (gv_guards v = [])) \<and> (gv_baseline v \<longrightarrow> final)"
  by (auto simp: guards_valid_def list_all_iff validateGuard_None check_role_def)

text \<open>Guarded variants first, one baseline last: \<open>create\<close> enforces it through the position of the baseline.\<close>

lemma check_variants_Inr:
  "check_variants ids n vs = Inr k \<longleftrightarrow>
     distinct (map gv_id vs) \<and> gv_id ` set vs \<inter> set ids = {} \<and> [] \<notin> gv_id ` set vs \<and>
     list_all (\<lambda>v. guards_valid v \<and> gv_baseline v = (gv_guards v = [])) vs \<and>
     list_all (\<lambda>v. \<not> gv_baseline v) (butlast vs) \<and>
     k = (if vs \<noteq> [] \<and> gv_baseline (last vs) then Suc n else n)"
proof (induction vs arbitrary: ids n)
  case (Cons v vs)
  show ?case
  proof (cases "orElse (first_error validateGuard (gv_guards v)) (check_role (vs = []) v)")
    case (Some e)
    then have "\<not> (guards_valid v \<and> (gv_baseline v = (gv_guards v = [])) \<and> (gv_baseline v \<longrightarrow> vs = []))"
      using variant_check_None [of v "vs = []"] by simp
    with Some show ?thesis by auto
  next
    case None
    then have ok: "guards_valid v" "gv_baseline v = (gv_guards v = [])" "gv_baseline v \<longrightarrow> vs = []"
      using variant_check_None [of v "vs = []"] by auto
    have "check_variants ids n (v # vs) = (if gv_id v = [] then Inl EmptyVariantId
        else if gv_id v \<in> set ids then Inl (DuplicateVariantId (gv_id v))
        else check_variants (gv_id v # ids) (if gv_baseline v then Suc n else n) vs)"
      by (simp only: check_variants.simps None option.case)
    then show ?thesis using ok by (cases "vs = []") (auto simp: Cons.IH)
  qed
qed auto

lemma variant_set_shape:
  "createVariantSet vs budget = Inr s \<longleftrightarrow>
     s = \<lparr>variants = vs, maxVariants = budget\<rparr> \<and> length vs \<le> budget \<and>
     (\<exists>gs base. vs = gs @ [base] \<and> gv_baseline base \<and> gv_guards base = [] \<and>
        list_all (\<lambda>v. \<not> gv_baseline v \<and> gv_guards v \<noteq> [] \<and> guards_valid v) gs) \<and>
     distinct (map gv_id vs) \<and> [] \<notin> gv_id ` set vs"
proof (cases vs rule: rev_cases)
  case Nil
  then show ?thesis by (auto simp: createVariantSet_def)
next
  case (snoc gs base)
  have "createVariantSet vs budget = Inr s \<longleftrightarrow> s = \<lparr>variants = vs, maxVariants = budget\<rparr> \<and> length vs \<le> budget \<and>
      check_variants [] 0 vs = Inr 1"
    using snoc by (auto simp: createVariantSet_def not_less)
  also have "check_variants [] 0 vs = Inr 1 \<longleftrightarrow> distinct (map gv_id vs) \<and> [] \<notin> gv_id ` set vs \<and>
      list_all (\<lambda>v. \<not> gv_baseline v \<and> gv_guards v \<noteq> [] \<and> guards_valid v) gs \<and> gv_baseline base \<and> gv_guards base = []"
    unfolding check_variants_Inr snoc by (auto simp: list_all_iff guards_valid_def)
  finally show ?thesis unfolding snoc by auto
qed

text \<open>DynamicVariantSet::create accepts exactly the lists within a positive budget that consist of guarded
  variants followed by one unguarded baseline, with distinct nonempty ids and well-formed guards.\<close>

theorem variant_set_exact:
  "createVariantSet vs budget = Inr s \<longleftrightarrow>
     s = \<lparr>variants = vs, maxVariants = budget\<rparr> \<and> length vs \<le> budget \<and>
     (\<exists>gs base. vs = gs @ [base] \<and> gv_baseline base \<and> gv_guards base = [] \<and>
        list_all (\<lambda>v. \<not> gv_baseline v \<and> gv_guards v \<noteq> [] \<and> guards_valid v) gs) \<and>
     distinct (map gv_id vs) \<and> [] \<notin> gv_id ` set vs"
  by (rule variant_set_shape)

section \<open>Dispatch\<close>

lemma guardHolds_iff:
  "guardHolds g vals \<longleftrightarrow> (\<exists>v. map_of vals (pred_symbol g) = Some v \<and> 0 \<le> v \<and>
     (pred_kind g = DivisibleBy \<longrightarrow> 0 < pred_value g) \<and> predicate_holds (pred_kind g) (pred_value g) v)"
  by (auto simp: guardHolds_def split: option.splits predicate_kind.splits)

lemma find_first: "List.find P xs = Some x \<Longrightarrow> x \<in> set xs \<and> P x"
  by (induction xs) (auto split: if_splits)

lemma find_no_later: "i < length xs \<Longrightarrow> P (xs ! i) \<Longrightarrow> \<exists>j \<le> i. List.find P xs = Some (xs ! j)"
proof (induction xs arbitrary: i)
  case (Cons x xs)
  show ?case
  proof (cases "P x")
    case True
    then show ?thesis by (intro exI [of _ 0]) simp
  next
    case False
    with Cons obtain k where k: "i = Suc k" "k < length xs" "P (xs ! k)" by (cases i) auto
    with Cons.IH obtain j where "j \<le> k" "List.find P xs = Some (xs ! j)" by blast
    with False k show ?thesis by (intro exI [of _ "Suc j"]) simp
  qed
qed simp

text \<open>Of a guarded variant the classification decides what it can: a disproven guard excludes it, and guards
  that are all proven make it match.\<close>

lemma disproven_never_matches:
  assumes "contract_typed c" "validateShapeValues c vals = None" "list_all (\<lambda>(n, v). v \<le> int64_max) vals"
    and "guards_valid v" "g \<in> set (gv_guards v)" "classifyPredicate g c = Disproven"
  shows "\<not> variant_matches vals v"
proof
  assume "variant_matches vals v"
  then obtain x where x: "map_of vals (pred_symbol g) = Some x" "predicate_holds (pred_kind g) (pred_value g) x"
    using assms(5) by (auto simp: variant_matches_def list_all_iff guardHolds_iff)
  have "x \<le> int64_max" using assms(3) map_of_SomeD [OF x(1)] by (auto simp: list_all_iff)
  then obtain sc where "map_of (symbols c) (pred_symbol g) = Some sc" "constraint_typed sc" "0 \<le> sc_min sc"
    "0 < multipleOf sc" "admits sc x"
    using validated_constraint [OF assms(1,2) x(1)] by blast
  moreover have "pred_kind g = DivisibleBy \<Longrightarrow> 0 < pred_value g"
    using assms(4,5) by (auto simp: guards_valid_def list_all_iff)
  ultimately show False using classify_conservative [of sc x c g] x(2) assms(6) by blast
qed

lemma proven_declared: "classifyPredicate g c = Proven \<Longrightarrow> \<exists>sc. (pred_symbol g, sc) \<in> set (symbols c)"
  by (auto simp: classifyPredicate_def split: option.splits dest: map_of_SomeD)

lemma validated_binds:
  assumes "contract_typed c" "validateShapeValues c vals = None" "(n, sc) \<in> set (symbols c)"
  obtains x where "map_of vals n = Some x" "0 \<le> x"
proof -
  have "check_declared vals (n, sc) = None"
    using assms by (auto simp: validateShapeValues_iff)
  with that show thesis by (auto simp: check_declared_None)
qed

lemma proven_always_matches:
  assumes "contract_typed c" "validateShapeValues c vals = None" "list_all (\<lambda>(n, v). v \<le> int64_max) vals"
    and "guards_valid v" "\<not> gv_baseline v" "list_all (\<lambda>g. classifyPredicate g c = Proven) (gv_guards v)"
  shows "variant_matches vals v"
  unfolding variant_matches_def list_all_iff
proof (intro conjI ballI)
  fix g assume g: "g \<in> set (gv_guards v)"
  then have proven: "classifyPredicate g c = Proven" using assms(6) by (simp add: list_all_iff)
  then obtain x where x: "map_of vals (pred_symbol g) = Some x" "0 \<le> x"
    using proven_declared validated_binds [OF assms(1,2)] by metis
  have "x \<le> int64_max" using assms(3) map_of_SomeD [OF x(1)] by (auto simp: list_all_iff)
  then obtain sc where "map_of (symbols c) (pred_symbol g) = Some sc" "constraint_typed sc" "0 \<le> sc_min sc"
    "0 < multipleOf sc" "admits sc x"
    using validated_constraint [OF assms(1,2) x(1)] by blast
  moreover have divisor: "pred_kind g = DivisibleBy \<Longrightarrow> 0 < pred_value g"
    using assms(4) g by (auto simp: guards_valid_def list_all_iff)
  ultimately show "guardHolds g vals"
    using classify_conservative [of sc x c g] proven x by (auto simp: guardHolds_iff)
qed (use assms in simp)

lemma created_variants:
  assumes "createVariantSet vs budget = Inr s"
  shows "variants s = vs" and "v \<in> set vs \<Longrightarrow> guards_valid v" and "gv_baseline (last vs)" and "vs \<noteq> []"
  using assms unfolding variant_set_shape by (auto simp: list_all_iff guards_valid_def)

text \<open>C39: Dispatch agrees with the classification of guards. For a set that create accepts and a binding that the
  shape contract admits, a guarded variant with a guard classified as disproven is never selected, and nothing
  after a variant whose guards are all classified as proven is selected.\<close>

theorem dispatch_respects_classification:
  assumes set: "createVariantSet vs budget = Inr s"
    and contract: "contract_typed c" "validateShapeValues c vals = None" "list_all (\<lambda>(n, v). v \<le> int64_max) vals"
    and i: "i < length vs" "\<not> gv_baseline (vs ! i)"
  shows "(list_ex (\<lambda>g. classifyPredicate g c = Disproven) (gv_guards (vs ! i)) \<longrightarrow> selectVariant s vals \<noteq> vs ! i) \<and>
    (list_all (\<lambda>g. classifyPredicate g c = Proven) (gv_guards (vs ! i)) \<longrightarrow>
       (\<exists>j \<le> i. selectVariant s vals = vs ! j))"
proof (intro conjI impI)
  note created = created_variants [OF set]
  have valid: "guards_valid (vs ! i)" using created(2) i(1) by simp
  {
    assume "list_ex (\<lambda>g. classifyPredicate g c = Disproven) (gv_guards (vs ! i))"
    then have no: "\<not> variant_matches vals (vs ! i)"
      using disproven_never_matches [OF contract valid] by (auto simp: list_ex_iff)
    show "selectVariant s vals \<noteq> vs ! i"
    proof (cases "List.find (variant_matches vals) vs")
      case None
      then show ?thesis using created i(2) by (auto simp: selectVariant_def)
    next
      case (Some v)
      then show ?thesis using find_first [OF Some] no created by (auto simp: selectVariant_def)
    qed
  next
    assume "list_all (\<lambda>g. classifyPredicate g c = Proven) (gv_guards (vs ! i))"
    then have "variant_matches vals (vs ! i)" using proven_always_matches [OF contract valid i(2)] by simp
    then show "\<exists>j \<le> i. selectVariant s vals = vs ! j"
      using find_no_later [of i vs "variant_matches vals"] i(1) created by (auto simp: selectVariant_def)
  }
qed

section \<open>A concrete set\<close>

definition rows_variant :: "string \<Rightarrow> shape_predicate list \<Rightarrow> guarded_variant" where
  "rows_variant name gs = \<lparr>gv_id = name,
     gv_identity = \<lparr>ci_version = 1, ci_canonical = name, ci_contentHash = ''0''\<rparr>,
     gv_guards = gs, gv_baseline = (gs = [])\<rparr>"

definition rows_variants :: "guarded_variant list" where
  "rows_variants =
     [rows_variant ''odd'' [\<lparr>pred_kind = EqualTo, pred_symbol = ''N'', pred_value = 7\<rparr>],
      rows_variant ''eights'' [\<lparr>pred_kind = DivisibleBy, pred_symbol = ''N'', pred_value = 4\<rparr>],
      rows_variant ''any'' []]"

lemma rows_variants_created: "createVariantSet rows_variants 4 = Inr \<lparr>variants = rows_variants, maxVariants = 4\<rparr>"
  by (simp add: createVariantSet_def rows_variants_def rows_variant_def validateGuard_def check_role_def)

theorem dispatch_respects_classification_witness:
  "createVariantSet rows_variants 4 = Inr \<lparr>variants = rows_variants, maxVariants = 4\<rparr> \<and>
   list_ex (\<lambda>g. classifyPredicate g rows_contract = Disproven) (gv_guards (rows_variants ! 0)) \<and>
   selectVariant \<lparr>variants = rows_variants, maxVariants = 4\<rparr> [(''N'', 16)] \<noteq> rows_variants ! 0"
proof -
  have dis: "list_ex (\<lambda>g. classifyPredicate g rows_contract = Disproven) (gv_guards (rows_variants ! 0))"
    by (simp add: rows_variants_def rows_variant_def classifyPredicate_def rows_defs above_maximum_def smod_nonneg_pos)
  have base: "0 < length rows_variants" "\<not> gv_baseline (rows_variants ! 0)"
    by (simp_all add: rows_variants_def rows_variant_def)
  have range: "list_all (\<lambda>(n, v). v \<le> int64_max) [(''N'', 16)]" by (simp add: int64_max_def)
  from dispatch_respects_classification [OF rows_variants_created rows_typed rows_values_valid range base] dis
  show ?thesis using rows_variants_created by blast
qed

end
