(* ===== verification/KernelCache.thy ===== *)
theory KernelCache
  imports Hash "HOL-Library.AList"
begin

text \<open>
  The cache of compiled kernels: \<^verbatim>\<open>runtime/JitCache.cpp\<close> without its MLIR lowering,
  \<^verbatim>\<open>include/LLK/Runtime/JitCache.h\<close> and \<^verbatim>\<open>include/LLK/Runtime/KernelKey.h\<close>. One level is a list of nodes
  in order of use and an index from keys to nodes; every operation holds the lock of the level, so an
  interleaving of threads is a sequence of operations. The lemmas show that a level refines a plain list
  of entries ordered by recency, that the index and the list agree after any operations, that entries in
  recent use survive, and that the packed keys determine what they pack.

  A list node is a number that is never used twice, so that a pointer into the list can be followed after
  later operations. The index (\<^verbatim>\<open>std::unordered_map\<close>) is an association list with distinct keys.
\<close>

section \<open>Keys\<close>

datatype d_type = DBF16 | DFP16 | DFP32
datatype cpu_isa = AVX2 | AVX512_BF16 | AVX512_VNNI | AMX_BF16 | NEON | SVE | ISA_UNKNOWN
datatype operation_kind = FusedSwiGLU | RoPE | Attention
datatype weight_layout = RowMajor | PackedKN
datatype math_mode = Strict | BoundedFast | UnsafeFast

fun d_type_code :: "d_type \<Rightarrow> nat" where
  "d_type_code DBF16 = 0" | "d_type_code DFP16 = 1" | "d_type_code DFP32 = 2"

fun cpu_isa_code :: "cpu_isa \<Rightarrow> nat" where
  "cpu_isa_code AVX2 = 0" | "cpu_isa_code AVX512_BF16 = 1" | "cpu_isa_code AVX512_VNNI = 2"
| "cpu_isa_code AMX_BF16 = 3" | "cpu_isa_code NEON = 4" | "cpu_isa_code SVE = 5" | "cpu_isa_code ISA_UNKNOWN = 6"

fun operation_code :: "operation_kind \<Rightarrow> nat" where
  "operation_code FusedSwiGLU = 0" | "operation_code RoPE = 1" | "operation_code Attention = 2"

fun layout_code :: "weight_layout \<Rightarrow> nat" where
  "layout_code RowMajor = 0" | "layout_code PackedKN = 1"

fun math_code :: "math_mode \<Rightarrow> nat" where
  "math_code Strict = 0" | "math_code BoundedFast = 1" | "math_code UnsafeFast = 2"

record kernel_key =
  kk_operation :: operation_kind
  input_type :: d_type
  output_type :: d_type
  M_bucket :: uint64
  kk_N :: uint64
  kk_K :: uint64
  kk_layout :: weight_layout
  isa :: cpu_isa
  kk_math :: math_mode
  thread_count :: "16 word"
  compiler_version :: uint64
  schedule_version :: uint64

text \<open>\<^verbatim>\<open>KernelKey::hash\<close>: a bijective mixing step for each field in turn.\<close>

definition key_mix :: "uint64 \<Rightarrow> uint64" where
  "key_mix x =
     (let x = (x XOR drop_bit 30 x) * 0xbf58476d1ce4e5b9;
          x = (x XOR drop_bit 27 x) * 0x94d049bb133111eb
      in x XOR drop_bit 31 x)"

definition key_feed :: "uint64 \<Rightarrow> uint64 \<Rightarrow> uint64" where
  "key_feed h v = key_mix (h XOR v)"

definition key_words :: "kernel_key \<Rightarrow> uint64 list" where
  "key_words k =
     [of_nat (operation_code (kk_operation k)), of_nat (d_type_code (input_type k)),
      of_nat (d_type_code (output_type k)), M_bucket k, kk_N k, kk_K k,
      of_nat (layout_code (kk_layout k)), of_nat (cpu_isa_code (isa k)), of_nat (math_code (kk_math k)),
      ucast (thread_count k), compiler_version k, schedule_version k]"

definition kernelKeyHash :: "kernel_key \<Rightarrow> uint64" where
  "kernelKeyHash k = foldl key_feed 0x9ae16a3b2f90404f (key_words k)"

record weight_key =
  weight_ptr :: uint64
  shape_hash :: uint64
  wk_BK :: uint64
  wk_BN :: uint64
  wk_K :: uint64
  wk_N :: uint64

record tensor2d =
  t_data :: uint64
  dim0 :: int
  dim1 :: int
  t_stride0 :: int
  t_stride1 :: int

definition weightShapeHash :: "tensor2d \<Rightarrow> uint64" where
  "weightShapeHash w = foldl (\<lambda>hash v. (hash XOR v) * 1099511628211) 14695981039346656037
     (map of_int [dim0 w, dim1 w, t_stride0 w, t_stride1 w])"

definition makeWeightKey :: "tensor2d \<Rightarrow> int \<Rightarrow> weight_key" where
  "makeWeightKey w BK = \<lparr>weight_ptr = t_data w, shape_hash = weightShapeHash w,
     wk_BK = of_int BK, wk_BN = of_int (dim1 w), wk_K = of_int (dim0 w), wk_N = of_int (dim1 w)\<rparr>"

text \<open>\<^verbatim>\<open>std::hash<llk::WeightKey>\<close>\<close>

definition weightKeyHash :: "weight_key \<Rightarrow> uint64" where
  "weightKeyHash w = weight_ptr w XOR shape_hash w XOR wk_BK w XOR push_bit 16 (wk_BN w) XOR
     push_bit 32 (wk_K w) XOR push_bit 48 (wk_N w)"

text \<open>\<^verbatim>\<open>KernelKey::toString\<close>; \<^verbatim>\<open>int64_t\<close> fields print as signed numbers.\<close>

definition kernelKeyText :: "kernel_key \<Rightarrow> string" where
  "kernelKeyText k =
     ''KernelKey{op='' @ nat_to_string (operation_code (kk_operation k)) @
     '' dtype_in='' @ nat_to_string (d_type_code (input_type k)) @
     '' dtype_out='' @ nat_to_string (d_type_code (output_type k)) @
     '' M_bucket='' @ int_to_string (sint (M_bucket k)) @ '' N='' @ int_to_string (sint (kk_N k)) @
     '' K='' @ int_to_string (sint (kk_K k)) @
     '' layout='' @ nat_to_string (layout_code (kk_layout k)) @
     '' isa='' @ nat_to_string (cpu_isa_code (isa k)) @
     '' math='' @ nat_to_string (math_code (kk_math k)) @
     '' threads='' @ nat_to_string (unat (thread_count k)) @
     '' compiler='' @ nat_to_string (unat (compiler_version k)) @
     '' schedule='' @ nat_to_string (unat (schedule_version k)) @ ''}''"

text \<open>\<^verbatim>\<open>memcpy\<close> of bytes to an offset of a buffer; the host is little-endian.\<close>

definition poke :: "nat \<Rightarrow> string \<Rightarrow> string \<Rightarrow> string" where
  "poke off bytes s = take off s @ bytes @ drop (off + length bytes) s"

definition code_byte :: "nat \<Rightarrow> string" where "code_byte n = [char_of n]"

definition le_bytes16 :: "16 word \<Rightarrow> string" where
  "le_bytes16 v = map (\<lambda>i. char_of (unat (drop_bit (8 * i) v AND 0xff))) [0..<2]"

definition zero_buffer :: "nat \<Rightarrow> string" where "zero_buffer n = replicate n (char_of (0::nat))"

definition kernelKeyToString :: "kernel_key \<Rightarrow> string" where
  "kernelKeyToString k = fold (\<lambda>(off, bytes). poke off bytes)
     [(0, code_byte (operation_code (kk_operation k))), (1, code_byte (d_type_code (input_type k))),
      (2, code_byte (d_type_code (output_type k))), (3, le_bytes (M_bucket k)), (11, le_bytes (kk_N k)),
      (19, le_bytes (kk_K k)), (27, code_byte (layout_code (kk_layout k))),
      (28, code_byte (cpu_isa_code (isa k))), (29, code_byte (math_code (kk_math k))),
      (30, le_bytes16 (thread_count k)), (32, le_bytes (compiler_version k)),
      (40, le_bytes (schedule_version k))] (zero_buffer 48)"

definition weightKeyToString :: "weight_key \<Rightarrow> string" where
  "weightKeyToString k = fold (\<lambda>(off, bytes). poke off bytes)
     [(0, le_bytes (weight_ptr k)), (8, le_bytes (shape_hash k)), (16, le_bytes (wk_BK k)),
      (24, le_bytes (wk_BN k)), (32, le_bytes (wk_K k)), (40, le_bytes (wk_N k))] (zero_buffer 48)"

section \<open>One level\<close>

record cache_entry =
  e_key :: string
  e_value :: string

record cache_level =
  index :: "(string \<times> nat) list"
  lru_list :: "(nat \<times> cache_entry) list"
  max_entries :: nat
  hit_count :: nat
  miss_count :: nat
  eviction_count :: nat
  next_node :: nat

definition new_level :: cache_level where
  "new_level = \<lparr>index = [], lru_list = [], max_entries = 1024, hit_count = 0, miss_count = 0,
     eviction_count = 0, next_node = 0\<rparr>"

text \<open>\<^verbatim>\<open>lru_list.splice(lru_list.begin(), lru_list, it)\<close>\<close>

definition splice_front :: "nat \<Rightarrow> (nat \<times> cache_entry) list \<Rightarrow> (nat \<times> cache_entry) list" where
  "splice_front n l =
     (case map_of l n of
        None \<Rightarrow> l
      | Some e \<Rightarrow> (n, e) # filter (\<lambda>p. fst p \<noteq> n) l)"

text \<open>The result of a lookup is a pointer into a node.\<close>

definition level_lookup :: "string \<Rightarrow> cache_level \<Rightarrow> nat option \<times> cache_level" where
  "level_lookup key l =
     (case map_of (index l) key of
        None \<Rightarrow> (None, l\<lparr>miss_count := wrap64 (Suc (miss_count l))\<rparr>)
      | Some n \<Rightarrow> (Some n, l\<lparr>hit_count := wrap64 (Suc (hit_count l)), lru_list := splice_front n (lru_list l)\<rparr>))"

definition level_deref :: "nat \<Rightarrow> cache_level \<Rightarrow> string option" where
  "level_deref n l = map_option e_value (map_of (lru_list l) n)"

definition evict_back :: "cache_level \<Rightarrow> cache_level" where
  "evict_back l = l\<lparr>index := AList.delete (e_key (snd (last (lru_list l)))) (index l),
     lru_list := butlast (lru_list l), eviction_count := wrap64 (Suc (eviction_count l))\<rparr>"

text \<open>The loops that evict while the list holds at least \<open>bound\<close> nodes.\<close>

function evict_while :: "nat \<Rightarrow> cache_level \<Rightarrow> cache_level" where
  "evict_while bound l =
     (if length (lru_list l) \<ge> bound \<and> lru_list l \<noteq> [] then evict_while bound (evict_back l) else l)"
  by pat_completeness auto
termination by (relation "measure (\<lambda>(bound, l). length (lru_list l))") (auto simp: evict_back_def)

declare evict_while.simps [simp del]

definition set_value :: "nat \<Rightarrow> string \<Rightarrow> (nat \<times> cache_entry) list \<Rightarrow> (nat \<times> cache_entry) list" where
  "set_value n v l = map (\<lambda>(m, e). if m = n then (m, e\<lparr>e_value := v\<rparr>) else (m, e)) l"

definition level_insert :: "string \<Rightarrow> string \<Rightarrow> cache_level \<Rightarrow> cache_level" where
  "level_insert key v l =
     (case map_of (index l) key of
        Some n \<Rightarrow> l\<lparr>lru_list := splice_front n (set_value n v (lru_list l))\<rparr>
      | None \<Rightarrow>
          let l = evict_while (max_entries l) l; n = next_node l in
          l\<lparr>lru_list := (n, \<lparr>e_key = key, e_value = v\<rparr>) # lru_list l,
            index := AList.update key n (index l), next_node := Suc n\<rparr>)"

definition level_remove :: "string \<Rightarrow> cache_level \<Rightarrow> cache_level" where
  "level_remove key l =
     (case map_of (index l) key of
        None \<Rightarrow> l
      | Some n \<Rightarrow> l\<lparr>lru_list := filter (\<lambda>p. fst p \<noteq> n) (lru_list l), index := AList.delete key (index l)\<rparr>)"

definition level_clear :: "cache_level \<Rightarrow> cache_level" where
  "level_clear l = l\<lparr>index := [], lru_list := []\<rparr>"

definition level_size :: "cache_level \<Rightarrow> nat" where "level_size l = length (index l)"

definition level_evict :: "nat \<Rightarrow> cache_level \<Rightarrow> cache_level" where
  "level_evict n l = (evict_while (Suc n) l)\<lparr>max_entries := n\<rparr>"

section \<open>The cache\<close>

text \<open>Compiled entry points are addresses.\<close>

record jit_cache =
  cache :: "(string \<times> uint64) list"
  variant_cache :: "(string \<times> uint64) list"
  ir_cache :: cache_level
  optimized_cache :: cache_level
  object_cache :: cache_level
  weight_cache :: cache_level

text \<open>The copy of the value through the pointer that a lookup returned, as the four lookups make it.\<close>

definition level_get :: "string \<Rightarrow> cache_level \<Rightarrow> string option \<times> cache_level" where
  "level_get key l = (case level_lookup key l of
     (None, l') \<Rightarrow> (None, l')
   | (Some n, l') \<Rightarrow> (level_deref n l', l'))"

definition bytes_to_fn :: "string \<Rightarrow> uint64 option" where
  "bytes_to_fn s =
     (if length s < 8 then None
      else Some (foldr (\<lambda>c fn. push_bit 8 fn OR byte_word c) (take 8 s) 0))"

definition lookupObjectCode :: "kernel_key \<Rightarrow> jit_cache \<Rightarrow> uint64 option \<times> jit_cache" where
  "lookupObjectCode key c = (case level_get (kernelKeyToString key) (object_cache c) of
     (val, l) \<Rightarrow> (Option.bind val bytes_to_fn, c\<lparr>object_cache := l\<rparr>))"

definition insertObjectCode :: "kernel_key \<Rightarrow> uint64 \<Rightarrow> jit_cache \<Rightarrow> jit_cache" where
  "insertObjectCode key fn c =
     c\<lparr>object_cache := level_insert (kernelKeyToString key) (poke 0 (le_bytes fn) (zero_buffer 8)) (object_cache c)\<rparr>"

definition lookupOptimizedMLIR :: "string \<Rightarrow> jit_cache \<Rightarrow> string option \<times> jit_cache" where
  "lookupOptimizedMLIR key c = (case level_get key (optimized_cache c) of
     (val, l) \<Rightarrow> (val, c\<lparr>optimized_cache := l\<rparr>))"

definition insertOptimizedMLIR :: "string \<Rightarrow> string \<Rightarrow> jit_cache \<Rightarrow> jit_cache" where
  "insertOptimizedMLIR key module c = c\<lparr>optimized_cache := level_insert key module (optimized_cache c)\<rparr>"

definition lookupIR :: "string \<Rightarrow> jit_cache \<Rightarrow> string option \<times> jit_cache" where
  "lookupIR key c = (case level_get key (ir_cache c) of (val, l) \<Rightarrow> (val, c\<lparr>ir_cache := l\<rparr>))"

definition insertIR :: "string \<Rightarrow> string \<Rightarrow> jit_cache \<Rightarrow> jit_cache" where
  "insertIR key module c = c\<lparr>ir_cache := level_insert key module (ir_cache c)\<rparr>"

definition lookupPackedWeights :: "weight_key \<Rightarrow> jit_cache \<Rightarrow> string option \<times> jit_cache" where
  "lookupPackedWeights key c = (case level_get (weightKeyToString key) (weight_cache c) of
     (val, l) \<Rightarrow> (val, c\<lparr>weight_cache := l\<rparr>))"

definition insertPackedWeights :: "weight_key \<Rightarrow> string \<Rightarrow> jit_cache \<Rightarrow> jit_cache" where
  "insertPackedWeights key blob c = c\<lparr>weight_cache := level_insert (weightKeyToString key) blob (weight_cache c)\<rparr>"

definition evictLRU :: "nat \<Rightarrow> nat \<Rightarrow> jit_cache \<Rightarrow> jit_cache" where
  "evictLRU level n c =
     (if level = 1 then c\<lparr>ir_cache := level_evict n (ir_cache c)\<rparr>
      else if level = 2 then c\<lparr>optimized_cache := level_evict n (optimized_cache c)\<rparr>
      else if level = 3 then c\<lparr>object_cache := level_evict n (object_cache c)\<rparr>
      else if level = 4 then c\<lparr>weight_cache := level_evict n (weight_cache c)\<rparr>
      else c)"

definition setMaxEntries :: "nat \<Rightarrow> nat \<Rightarrow> jit_cache \<Rightarrow> jit_cache" where
  "setMaxEntries level n c = evictLRU level n c"

record cache_stats =
  hits :: "nat list"
  misses :: "nat list"
  evictions :: "nat list"

definition getStats :: "jit_cache \<Rightarrow> cache_stats" where
  "getStats c = (let levels = [ir_cache c, optimized_cache c, object_cache c, weight_cache c] in
     \<lparr>hits = map hit_count levels, misses = map miss_count levels, evictions = map eviction_count levels\<rparr>)"

definition clear_cache :: "jit_cache \<Rightarrow> jit_cache" where
  "clear_cache c = c\<lparr>cache := [], variant_cache := [], ir_cache := level_clear (ir_cache c),
     optimized_cache := level_clear (optimized_cache c), object_cache := level_clear (object_cache c),
     weight_cache := level_clear (weight_cache c)\<rparr>"

definition cache_size :: "jit_cache \<Rightarrow> nat" where
  "cache_size c = length (cache c) + length (variant_cache c) + level_size (ir_cache c) +
     level_size (optimized_cache c) + level_size (object_cache c) + level_size (weight_cache c)"

text \<open>The string-keyed entry point. Lowering and code generation happen in other libraries: \<open>compile\<close> maps a
  module to its entry point or an error.\<close>

definition lookupOrCompile ::
  "('m \<Rightarrow> 'e + uint64) \<Rightarrow> string \<Rightarrow> 'm \<Rightarrow> jit_cache \<Rightarrow> ('e + uint64) \<times> jit_cache" where
  "lookupOrCompile compile key module c =
     (case map_of (cache c) key of
        Some fn \<Rightarrow> (Inr fn, c)
      | None \<Rightarrow>
          (case compile module of
             Inl e \<Rightarrow> (Inl e, c)
           | Inr fn \<Rightarrow> (Inr fn, c\<lparr>cache := AList.update key fn (cache c)\<rparr>)))"

definition lookupVariantObjectCode :: "string \<Rightarrow> jit_cache \<Rightarrow> uint64 option" where
  "lookupVariantObjectCode canonical c = (if canonical = [] then None else map_of (variant_cache c) canonical)"

definition insertVariantObjectCode :: "string \<Rightarrow> uint64 \<Rightarrow> jit_cache \<Rightarrow> jit_cache" where
  "insertVariantObjectCode canonical fn c =
     (if canonical = [] then c else c\<lparr>variant_cache := AList.update canonical fn (variant_cache c)\<rparr>)"

section \<open>The index and the list agree\<close>

definition level_ok :: "cache_level \<Rightarrow> bool" where
  "level_ok l \<longleftrightarrow> distinct (map fst (lru_list l)) \<and> distinct (map (\<lambda>(n, e). e_key e) (lru_list l)) \<and>
     distinct (map fst (index l)) \<and> set (index l) = (\<lambda>(n, e). (e_key e, n)) ` set (lru_list l) \<and>
     (\<forall>p \<in> set (lru_list l). fst p < next_node l)"

lemma new_level_ok [simp]: "level_ok new_level"
  by (simp add: level_ok_def new_level_def)

lemma index_Some:
  assumes "level_ok l"
  shows "map_of (index l) k = Some n \<longleftrightarrow> (\<exists>v. (n, \<lparr>e_key = k, e_value = v\<rparr>) \<in> set (lru_list l))"
proof -
  have "map_of (index l) k = Some n \<longleftrightarrow> (k, n) \<in> (\<lambda>(n, e). (e_key e, n)) ` set (lru_list l)"
    using assms by (simp add: level_ok_def)
  also have "\<dots> \<longleftrightarrow> (\<exists>v. (n, \<lparr>e_key = k, e_value = v\<rparr>) \<in> set (lru_list l))"
  proof
    assume "(k, n) \<in> (\<lambda>(n, e). (e_key e, n)) ` set (lru_list l)"
    then obtain e where e: "(n, e) \<in> set (lru_list l)" "e_key e = k" by auto
    then have "e = \<lparr>e_key = k, e_value = e_value e\<rparr>" by simp
    with e(1) show "\<exists>v. (n, \<lparr>e_key = k, e_value = v\<rparr>) \<in> set (lru_list l)" by metis
  qed (auto simp: image_iff Bex_def)
  finally show ?thesis .
qed

text \<open>The entries in order of use, without nodes: what a level stands for.\<close>

definition recency :: "cache_level \<Rightarrow> (string \<times> string) list" where
  "recency l = map (\<lambda>(n, e). (e_key e, e_value e)) (lru_list l)"

lemma recency_keys: "map fst (recency l) = map (\<lambda>(n, e). e_key e) (lru_list l)"
  by (auto simp: recency_def)

lemma recency_distinct: "level_ok l \<Longrightarrow> distinct (map fst (recency l))"
  by (simp add: recency_keys level_ok_def)

lemma recency_member: "(k, v) \<in> set (recency l) \<longleftrightarrow> (\<exists>n. (n, \<lparr>e_key = k, e_value = v\<rparr>) \<in> set (lru_list l))"
proof
  assume "(k, v) \<in> set (recency l)"
  then obtain n e where "(n, e) \<in> set (lru_list l)" "k = e_key e" "v = e_value e" by (auto simp: recency_def)
  then show "\<exists>n. (n, \<lparr>e_key = k, e_value = v\<rparr>) \<in> set (lru_list l)" by (metis cache_entry.surjective old.unit.exhaust)
qed (force simp: recency_def image_iff)

lemma recency_find:
  assumes "level_ok l"
  shows "map_of (recency l) k = Some v \<longleftrightarrow> (\<exists>n. (n, \<lparr>e_key = k, e_value = v\<rparr>) \<in> set (lru_list l))"
  using recency_distinct [OF assms] by (simp add: recency_member)

lemma index_None: "level_ok l \<Longrightarrow> map_of (index l) k = None \<longleftrightarrow> map_of (recency l) k = None"
  using index_Some [of l k] recency_find [of l k] by (metis not_None_eq)

lemma distinct_fst_eq: "distinct (map fst l) \<Longrightarrow> (n, x) \<in> set l \<Longrightarrow> (n, y) \<in> set l \<Longrightarrow> x = y"
  by (metis map_of_is_SomeI option.inject)

lemma key_node:
  assumes "level_ok l" "(n, e) \<in> set (lru_list l)" "p \<in> set (lru_list l)"
  shows "fst p \<noteq> n \<longleftrightarrow> e_key (snd p) \<noteq> e_key e"
proof -
  have "distinct (map fst (index l))" "(e_key e, n) \<in> set (index l)" "(e_key (snd p), fst p) \<in> set (index l)"
    using assms by (force simp: level_ok_def)+
  then have "e_key (snd p) = e_key e \<Longrightarrow> fst p = n" using distinct_fst_eq by metis
  moreover have "fst p = n \<Longrightarrow> snd p = e"
    using assms distinct_fst_eq [of "lru_list l" n "snd p" e] by (cases p) (auto simp: level_ok_def)
  ultimately show ?thesis by blast
qed

lemma recency_filter:
  assumes "level_ok l" "(n, e) \<in> set (lru_list l)"
  shows "map (\<lambda>(n, e). (e_key e, e_value e)) (filter (\<lambda>p. fst p \<noteq> n) (lru_list l)) =
    filter (\<lambda>p. fst p \<noteq> e_key e) (recency l)"
proof -
  have "filter (\<lambda>p. fst p \<noteq> n) (lru_list l) = filter (\<lambda>p. e_key (snd p) \<noteq> e_key e) (lru_list l)"
    using key_node [OF assms] by (intro filter_cong) auto
  then show ?thesis by (simp add: recency_def filter_map comp_def case_prod_unfold)
qed

lemma splice_front_member:
  "distinct (map fst l) \<Longrightarrow> (n, e) \<in> set l \<Longrightarrow> splice_front n l = (n, e) # filter (\<lambda>p. fst p \<noteq> n) l"
  by (simp add: splice_front_def)

lemma distinct_map_filter_front:
  "distinct (map f l) \<Longrightarrow> x \<in> set l \<Longrightarrow> (\<And>p. p \<in> set l \<Longrightarrow> Q p \<longleftrightarrow> p \<noteq> x) \<Longrightarrow> distinct (map f (x # filter Q l))"
  by (auto simp: distinct_map inj_on_def)

lemma splice_front_facts:
  assumes "distinct (map fst l)" "distinct (map (\<lambda>(n, e). e_key e) l)" "(n, e) \<in> set l"
  shows "set (splice_front n l) = set l" and "distinct (map fst (splice_front n l))"
    and "distinct (map (\<lambda>(n, e). e_key e) (splice_front n l))"
proof -
  have other: "fst p \<noteq> n \<longleftrightarrow> p \<noteq> (n, e)" if "p \<in> set l" for p
    using that assms distinct_fst_eq [of l n "snd p" e] by (cases p) auto
  show "set (splice_front n l) = set l"
    using splice_front_member [OF assms(1,3)] other assms(3) by auto
  show "distinct (map fst (splice_front n l))"
    unfolding splice_front_member [OF assms(1,3)] using assms(1,3) other by (rule distinct_map_filter_front)
  show "distinct (map (\<lambda>(n, e). e_key e) (splice_front n l))"
    unfolding splice_front_member [OF assms(1,3)] using assms(2,3) other by (rule distinct_map_filter_front)
qed

section \<open>Every operation keeps the invariant and refines a list in order of use\<close>

definition touch :: "string \<Rightarrow> string \<Rightarrow> (string \<times> string) list \<Rightarrow> (string \<times> string) list" where
  "touch k v l = (k, v) # filter (\<lambda>p. fst p \<noteq> k) l"

lemma level_lookup_ok:
  assumes "level_ok l"
  shows "level_ok (snd (level_lookup k l))"
proof (cases "map_of (index l) k")
  case None
  then show ?thesis using assms by (simp add: level_lookup_def level_ok_def)
next
  case (Some n)
  then obtain v where "(n, \<lparr>e_key = k, e_value = v\<rparr>) \<in> set (lru_list l)" using index_Some [OF assms] by blast
  with splice_front_facts [of "lru_list l" n] assms Some show ?thesis
    by (simp add: level_lookup_def level_ok_def)
qed

lemma level_get_refines:
  assumes "level_ok l"
  shows "level_ok (snd (level_get k l))" and "fst (level_get k l) = map_of (recency l) k"
    and "recency (snd (level_get k l)) =
      (case map_of (recency l) k of None \<Rightarrow> recency l | Some v \<Rightarrow> touch k v (recency l))"
    and "max_entries (snd (level_get k l)) = max_entries l"
proof -
  have same: "snd (level_get k l) = snd (level_lookup k l)"
    by (auto simp: level_get_def split: option.splits prod.splits)
  show "level_ok (snd (level_get k l))" unfolding same using level_lookup_ok [OF assms] .
  show "max_entries (snd (level_get k l)) = max_entries l"
    unfolding same by (simp add: level_lookup_def split: option.splits)
  show "fst (level_get k l) = map_of (recency l) k" 
    "recency (snd (level_get k l)) = (case map_of (recency l) k of None \<Rightarrow> recency l | Some v \<Rightarrow> touch k v (recency l))"
  proof (atomize (full), cases "map_of (index l) k")
    case None
    then have "map_of (recency l) k = None" using index_None [OF assms] by simp
    with None show "fst (level_get k l) = map_of (recency l) k \<and> recency (snd (level_get k l)) =
        (case map_of (recency l) k of None \<Rightarrow> recency l | Some v \<Rightarrow> touch k v (recency l))"
      by (simp add: level_get_def level_lookup_def recency_def)
  next
    case (Some n)
    then obtain v where v: "(n, \<lparr>e_key = k, e_value = v\<rparr>) \<in> set (lru_list l)" using index_Some [OF assms] by blast
    then have find: "map_of (recency l) k = Some v" using recency_find [OF assms] by blast
    have front: "splice_front n (lru_list l) = (n, \<lparr>e_key = k, e_value = v\<rparr>) # filter (\<lambda>p. fst p \<noteq> n) (lru_list l)"
      using splice_front_member [OF _ v] assms by (simp add: level_ok_def)
    show "fst (level_get k l) = map_of (recency l) k \<and> recency (snd (level_get k l)) =
        (case map_of (recency l) k of None \<Rightarrow> recency l | Some v \<Rightarrow> touch k v (recency l))"
      using Some find front recency_filter [OF assms v]
      by (simp add: level_get_def level_lookup_def level_deref_def recency_def touch_def)
  qed
qed

lemma evict_back_ok:
  assumes "level_ok l" "lru_list l \<noteq> []"
  shows "level_ok (evict_back l)"
proof -
  obtain init n e where l: "lru_list l = init @ [(n, e)]"
    using assms(2) by (cases "lru_list l" rule: rev_cases) auto
  have keys: "\<And>m f. (m, f) \<in> set init \<Longrightarrow> e_key f \<noteq> e_key e"
    using assms(1) unfolding level_ok_def l by (force simp: image_iff)
  have "set (AList.delete (e_key e) (index l)) = {p \<in> set (index l). fst p \<noteq> e_key e}"
    by (auto simp: AList.delete_eq)
  also have "\<dots> = (\<lambda>(n, e). (e_key e, n)) ` set init"
    using assms(1) keys unfolding level_ok_def l by auto
  finally show ?thesis
    using assms(1) unfolding level_ok_def evict_back_def l
    by (auto simp: AList.distinct_delete)
qed

lemma evict_while_facts:
  assumes "level_ok l"
  shows "level_ok (evict_while bound l) \<and> lru_list (evict_while bound l) = take (bound - 1) (lru_list l) \<and>
    max_entries (evict_while bound l) = max_entries l \<and> next_node (evict_while bound l) = next_node l"
  using assms
proof (induction bound l rule: evict_while.induct)
  case (1 bound l)
  show ?case
  proof (cases "length (lru_list l) \<ge> bound \<and> lru_list l \<noteq> []")
    case True
    have "take (bound - 1) (butlast (lru_list l)) = take (bound - 1) (lru_list l)"
      using True by (auto simp: butlast_conv_take min_def)
    then show ?thesis using True 1 evict_back_ok [of l]
      by (subst (1 2 3 4) evict_while.simps) (simp add: evict_back_def)
  next
    case False
    then have "take (bound - 1) (lru_list l) = lru_list l" by auto
    then show ?thesis using False 1 by (subst (1 2 3 4) evict_while.simps) auto
  qed
qed

definition spec_insert :: "nat \<Rightarrow> string \<Rightarrow> string \<Rightarrow> (string \<times> string) list \<Rightarrow> (string \<times> string) list" where
  "spec_insert cap k v l = (if map_of l k = None then (k, v) # take (cap - 1) l else touch k v l)"

lemma set_value_ids [simp]: "map fst (set_value n v l) = map fst l"
  by (auto simp: set_value_def)

lemma set_value_keys [simp]: "map (\<lambda>(n, e). e_key e) (set_value n v l) = map (\<lambda>(n, e). e_key e) l"
  by (auto simp: set_value_def)

lemma set_value_index: "(\<lambda>(n, e). (e_key e, n)) ` set (set_value n v l) = (\<lambda>(n, e). (e_key e, n)) ` set l"
proof -
  have "map (\<lambda>(n, e). (e_key e, n)) (set_value n v l) = map (\<lambda>(n, e). (e_key e, n)) l"
    by (auto simp: set_value_def)
  then show ?thesis by (metis list.set_map)
qed

lemma set_value_filter: "filter (\<lambda>p. fst p \<noteq> n) (set_value n v l) = filter (\<lambda>p. fst p \<noteq> n) l"
  by (induction l) (auto simp: set_value_def split: if_splits)

lemma set_value_member: "(n, e) \<in> set l \<Longrightarrow> (n, e\<lparr>e_value := v\<rparr>) \<in> set (set_value n v l)"
  by (force simp: set_value_def)

lemma update_fresh: "map_of al k = None \<Longrightarrow> AList.update k v al = al @ [(k, v)]"
  by (induction al) (auto split: if_splits)

lemma level_insert_refines:
  assumes "level_ok l"
  shows "level_ok (level_insert k v l) \<and> recency (level_insert k v l) = spec_insert (max_entries l) k v (recency l) \<and>
    max_entries (level_insert k v l) = max_entries l"
proof (cases "map_of (index l) k")
  case (Some n)
  then obtain w where w: "(n, \<lparr>e_key = k, e_value = w\<rparr>) \<in> set (lru_list l)" using index_Some [OF assms] by blast
  have new: "(n, \<lparr>e_key = k, e_value = v\<rparr>) \<in> set (set_value n v (lru_list l))"
    using set_value_member [OF w, of v] by simp
  have dist: "distinct (map fst (set_value n v (lru_list l)))"
    "distinct (map (\<lambda>(n, e). e_key e) (set_value n v (lru_list l)))" using assms by (simp_all add: level_ok_def)
  have fresh: "\<forall>p \<in> set (set_value n v (lru_list l)). fst p < next_node l"
    using assms by (auto simp: level_ok_def set_value_def)
  have "level_ok (level_insert k v l)"
    using splice_front_facts [OF dist new] assms Some fresh
    by (simp add: level_insert_def level_ok_def set_value_index)
  moreover have "recency (level_insert k v l) = touch k v (recency l)"
    using Some splice_front_member [OF dist(1) new] recency_filter [OF assms w]
    by (simp add: level_insert_def recency_def touch_def set_value_filter)
  moreover have "map_of (recency l) k \<noteq> None" using Some index_None [OF assms, of k] by simp
  moreover have "max_entries (level_insert k v l) = max_entries l" using Some by (simp add: level_insert_def)
  ultimately show ?thesis by (simp only: spec_insert_def if_False)
next
  case None
  define m where "m = evict_while (max_entries l) l"
  have m: "level_ok m" "lru_list m = take (max_entries l - 1) (lru_list l)" "max_entries m = max_entries l"
    "next_node m = next_node l"
    using evict_while_facts [OF assms, of "max_entries l"] by (auto simp: m_def)
  have absent: "map_of (recency l) k = None" using None index_None [OF assms] by simp
  have sub: "p \<in> set (lru_list m) \<Longrightarrow> p \<in> set (lru_list l)" for p using m(2) by (auto dest: in_set_takeD)
  have "e_key e \<noteq> k" if "(n, e) \<in> set (lru_list m)" for n e
    using absent sub [OF that] by (force simp: recency_def map_of_eq_None_iff)
  moreover have "(k, x) \<notin> set (index m)" for x
    using calculation m(1) by (force simp: level_ok_def)
  then have "map_of (index m) k = None" by (force simp: map_of_eq_None_iff)
  moreover from this have "set (AList.update k (next_node m) (index m)) = insert (k, next_node m) (set (index m))"
    by (simp add: update_fresh)
  ultimately have "level_ok (m\<lparr>lru_list := (next_node m, \<lparr>e_key = k, e_value = v\<rparr>) # lru_list m,
      index := AList.update k (next_node m) (index m), next_node := Suc (next_node m)\<rparr>)"
    using m(1) unfolding level_ok_def by (force simp: AList.distinct_update)
  then show ?thesis using None absent m
    by (simp add: level_insert_def Let_def m_def [symmetric] recency_def spec_insert_def take_map)
qed

lemma level_remove_refines:
  assumes "level_ok l"
  shows "level_ok (level_remove k l) \<and> recency (level_remove k l) = filter (\<lambda>p. fst p \<noteq> k) (recency l) \<and>
    max_entries (level_remove k l) = max_entries l"
proof (cases "map_of (index l) k")
  case None
  then have "map_of (recency l) k = None" using index_None [OF assms] by simp
  then have "filter (\<lambda>p. fst p \<noteq> k) (recency l) = recency l"
    by (force simp: map_of_eq_None_iff filter_id_conv)
  with None assms show ?thesis by (simp add: level_remove_def)
next
  case (Some n)
  then obtain v where v: "(n, \<lparr>e_key = k, e_value = v\<rparr>) \<in> set (lru_list l)" using index_Some [OF assms] by blast
  have "set (AList.delete k (index l)) = {p \<in> set (index l). fst p \<noteq> k}" by (auto simp: AList.delete_eq)
  also have "\<dots> = (\<lambda>(n, e). (e_key e, n)) ` {p \<in> set (lru_list l). e_key (snd p) \<noteq> k}"
    using assms by (auto simp: level_ok_def)
  also have "{p \<in> set (lru_list l). e_key (snd p) \<noteq> k} = {p \<in> set (lru_list l). fst p \<noteq> n}"
    using key_node [OF assms v] by auto
  finally have sets: "set (AList.delete k (index l)) =
      (\<lambda>(n, e). (e_key e, n)) ` {p \<in> set (lru_list l). fst p \<noteq> n}" .
  have removed: "level_remove k l =
      l\<lparr>lru_list := filter (\<lambda>p. fst p \<noteq> n) (lru_list l), index := AList.delete k (index l)\<rparr>"
    using Some by (simp add: level_remove_def)
  have "level_ok (level_remove k l)"
    using assms sets unfolding removed level_ok_def
    by (simp add: AList.distinct_delete distinct_map_filter)
  moreover have "recency (level_remove k l) = filter (\<lambda>p. fst p \<noteq> k) (recency l)"
    using recency_filter [OF assms v] unfolding removed recency_def by simp
  ultimately show ?thesis by (simp add: removed)
qed

lemma level_clear_refines:
  "level_ok (level_clear l) \<and> recency (level_clear l) = [] \<and> max_entries (level_clear l) = max_entries l"
  by (simp add: level_clear_def level_ok_def recency_def)

lemma level_ok_limit [simp]: "level_ok (l\<lparr>max_entries := n\<rparr>) = level_ok l" "recency (l\<lparr>max_entries := n\<rparr>) = recency l"
  by (simp_all add: level_ok_def recency_def)

lemma recency_take: "lru_list m = take n (lru_list l) \<Longrightarrow> recency m = take n (recency l)"
  by (simp add: recency_def take_map)

lemma level_evict_refines:
  assumes "level_ok l"
  shows "level_ok (level_evict n l) \<and> recency (level_evict n l) = take n (recency l) \<and> max_entries (level_evict n l) = n"
  using evict_while_facts [OF assms, of "Suc n"]
  by (simp add: level_evict_def recency_take)

lemma level_size_recency: "level_ok l \<Longrightarrow> level_size l = length (recency l)"
proof -
  assume ok: "level_ok l"
  have "level_size l = card (set (index l))"
    using ok distinct_card [of "index l"] by (auto simp: level_size_def level_ok_def distinct_map)
  also have "\<dots> = card ((\<lambda>(n, e). (e_key e, n)) ` set (lru_list l))" using ok by (simp add: level_ok_def)
  also have "\<dots> = card (set (lru_list l))"
  proof (rule card_image)
    have "distinct (map fst (lru_list l))" using ok by (simp add: level_ok_def)
    then show "inj_on (\<lambda>(n, e). (e_key e, n)) (set (lru_list l))"
      by (auto simp: inj_on_def dest: distinct_fst_eq)
  qed
  also have "\<dots> = length (lru_list l)"
    using ok by (intro distinct_card) (auto simp: level_ok_def distinct_map)
  finally show ?thesis by (simp add: recency_def)
qed

section \<open>Sequences of operations\<close>

text \<open>The operations in the order in which they take the lock of the level.\<close>

datatype cache_op = Get string | Put string string | Remove string | Clear | Limit nat

fun level_step :: "cache_op \<Rightarrow> cache_level \<Rightarrow> string option \<times> cache_level" where
  "level_step (Get k) l = level_get k l"
| "level_step (Put k v) l = (None, level_insert k v l)"
| "level_step (Remove k) l = (None, level_remove k l)"
| "level_step Clear l = (None, level_clear l)"
| "level_step (Limit n) l = (None, level_evict n l)"

fun lru_step :: "cache_op \<Rightarrow> nat \<times> (string \<times> string) list \<Rightarrow> string option \<times> nat \<times> (string \<times> string) list" where
  "lru_step (Get k) (cap, l) =
     (case map_of l k of None \<Rightarrow> (None, cap, l) | Some v \<Rightarrow> (Some v, cap, touch k v l))"
| "lru_step (Put k v) (cap, l) = (None, cap, spec_insert cap k v l)"
| "lru_step (Remove k) (cap, l) = (None, cap, filter (\<lambda>p. fst p \<noteq> k) l)"
| "lru_step Clear (cap, l) = (None, cap, [])"
| "lru_step (Limit n) (cap, l) = (None, n, take n l)"

fun run_ops :: "('o \<Rightarrow> 's \<Rightarrow> 'r \<times> 's) \<Rightarrow> 'o list \<Rightarrow> 's \<Rightarrow> 'r list \<times> 's" where
  "run_ops step [] s = ([], s)"
| "run_ops step (x # xs) s = (case step x s of (r, s') \<Rightarrow> case run_ops step xs s' of (rs, s'') \<Rightarrow> (r # rs, s''))"

definition level_abs :: "cache_level \<Rightarrow> nat \<times> (string \<times> string) list" where
  "level_abs l = (max_entries l, recency l)"

lemma level_step_refines:
  assumes "level_ok l"
  shows "level_ok (snd (level_step x l)) \<and>
    lru_step x (level_abs l) = (fst (level_step x l), level_abs (snd (level_step x l)))"
proof (cases x)
  case (Get k)
  then show ?thesis using level_get_refines [OF assms, of k] by (simp add: level_abs_def split: option.splits)
next
  case (Put k v)
  then show ?thesis using level_insert_refines [OF assms, of k v] by (simp add: level_abs_def)
next
  case (Remove k)
  then show ?thesis using level_remove_refines [OF assms, of k] by (simp add: level_abs_def)
next
  case Clear
  then show ?thesis using level_clear_refines [of l] by (simp add: level_abs_def)
next
  case (Limit n)
  then show ?thesis using level_evict_refines [OF assms, of n] by (simp add: level_abs_def)
qed

lemma level_abs_new: "level_abs new_level = (1024, [])"
  by (simp add: level_abs_def recency_def new_level_def)

text \<open>A simulation of one step lifts to sequences.\<close>

lemma run_ops_simulation:
  assumes step: "\<And>x s. ok s \<Longrightarrow> ok (snd (f x s)) \<and> g x (view s) = (fst (f x s), view (snd (f x s)))"
    and "ok s"
  shows "ok (snd (run_ops f xs s)) \<and> run_ops g xs (view s) = (fst (run_ops f xs s), view (snd (run_ops f xs s)))"
  using assms(2)
proof (induction xs arbitrary: s)
  case (Cons x xs)
  then have "ok (snd (f x s))" using step by blast
  from Cons.IH [OF this] step [OF Cons.prems, of x] show ?case by (simp add: case_prod_unfold)
qed simp

lemma level_run_refines:
  assumes "level_ok l"
  shows "level_ok (snd (run_ops level_step ops l)) \<and>
    run_ops lru_step ops (level_abs l) = (fst (run_ops level_step ops l), level_abs (snd (run_ops level_step ops l)))"
  using level_step_refines assms by (rule run_ops_simulation)

lemma filter_keys_distinct: "distinct (map fst l) \<Longrightarrow> distinct (map fst (filter P l))"
  by (simp add: distinct_map_filter)

lemma touch_distinct: "distinct (map fst l) \<Longrightarrow> distinct (map fst (touch k v l))"
  by (auto simp: touch_def distinct_map_filter)

lemma touch_length: "distinct (map fst l) \<Longrightarrow> (k, w) \<in> set l \<Longrightarrow> length (touch k v l) = length l"
proof (induction l)
  case (Cons p l)
  show ?case
  proof (cases "fst p = k")
    case True
    then have "filter (\<lambda>p. fst p \<noteq> k) l = l" using Cons.prems(1) by (force simp: filter_id_conv image_iff)
    with True show ?thesis by (simp add: touch_def)
  next
    case False
    with Cons show ?thesis by (auto simp: touch_def)
  qed
qed simp

lemma lru_step_bound:
  assumes "distinct (map fst l)" "length l \<le> max 1 cap" "lru_step x (cap, l) = (r, cap', l')"
  shows "distinct (map fst l') \<and> length l' \<le> max 1 cap'"
proof (cases x)
  case (Get k)
  then show ?thesis using assms touch_distinct [of l k] touch_length [of l k] by (auto split: option.splits)
next
  case (Put k v)
  show ?thesis
  proof (cases "map_of l k")
    case None
    then have "k \<notin> fst ` set (take (cap - 1) l)" by (auto simp: map_of_eq_None_iff dest: in_set_takeD)
    moreover have "distinct (map fst (take (cap - 1) l))" using assms(1) by (simp flip: take_map)
    ultimately show ?thesis using Put None assms by (auto simp: spec_insert_def)
  next
    case (Some w)
    then show ?thesis using Put assms touch_distinct [of l k v] touch_length [of l k w v]
      by (auto simp: spec_insert_def)
  qed
next
  case (Remove k)
  have "length (filter (\<lambda>p. fst p \<noteq> k) l) \<le> length l" by (rule length_filter_le)
  then show ?thesis using Remove assms filter_keys_distinct by (auto simp del: length_filter_le)
next
  case Clear
  then show ?thesis using assms by auto
next
  case (Limit n)
  then show ?thesis using assms by (auto simp flip: take_map)
qed

lemma lru_run_bound:
  assumes "distinct (map fst l)" "length l \<le> max 1 cap" "run_ops lru_step xs (cap, l) = (rs, cap', l')"
  shows "length l' \<le> max 1 cap'"
  using assms
proof (induction xs arbitrary: cap l rs)
  case (Cons x xs)
  obtain r c m where step: "lru_step x (cap, l) = (r, c, m)" by (cases "lru_step x (cap, l)") auto
  obtain rs' where rest: "run_ops lru_step xs (c, m) = (rs', cap', l')"
    using Cons.prems(3) step by (auto split: prod.splits)
  from lru_step_bound [OF Cons.prems(1,2) step] Cons.IH [OF _ _ rest] show ?case by simp
qed simp

text \<open>C13: A level of the cache behaves as a list of entries in order of use. For every sequence of lookups,
  insertions, removals, clears and changes of the limit from a new level, the values returned are those of the
  list, and the entries and the limit at the end are the list and its limit.\<close>

theorem cache_level_refines_lru:
  "run_ops lru_step ops (1024, []) =
     (fst (run_ops level_step ops new_level), level_abs (snd (run_ops level_step ops new_level)))"
  using level_run_refines [OF new_level_ok, of ops] by (simp add: level_abs_new)

text \<open>After any sequence of operations the index and the list of a level agree, every key is there once, and
  the level holds at most its limit of entries, or one entry when the limit is zero.\<close>

theorem cache_level_invariant:
  "level_ok (snd (run_ops level_step ops new_level)) \<and>
   level_size (snd (run_ops level_step ops new_level)) = length (lru_list (snd (run_ops level_step ops new_level))) \<and>
   level_size (snd (run_ops level_step ops new_level)) \<le> max 1 (max_entries (snd (run_ops level_step ops new_level)))"
proof -
  let ?l = "snd (run_ops level_step ops new_level)"
  have ok: "level_ok ?l" and run: "run_ops lru_step ops (1024, []) = (fst (run_ops level_step ops new_level), max_entries ?l, recency ?l)"
    using level_run_refines [OF new_level_ok, of ops] unfolding level_abs_new by (simp_all add: level_abs_def)
  have "length (recency ?l) \<le> max 1 (max_entries ?l)" using lru_run_bound [OF _ _ run] by simp
  with ok show ?thesis using level_size_recency [OF ok] by (simp add: recency_def)
qed

section \<open>Entries in recent use survive\<close>

fun op_keys :: "cache_op \<Rightarrow> string set" where
  "op_keys (Get k) = {k}"
| "op_keys (Put k v) = {k}"
| "op_keys _ = {}"

fun leaves :: "string \<Rightarrow> cache_op \<Rightarrow> bool" where
  "leaves k (Get a) \<longleftrightarrow> True"
| "leaves k (Put a v) \<longleftrightarrow> a \<noteq> k"
| "leaves k (Remove a) \<longleftrightarrow> a \<noteq> k"
| "leaves k Clear \<longleftrightarrow> False"
| "leaves k (Limit n) \<longleftrightarrow> False"

text \<open>The entry of \<open>k\<close> has only entries of \<open>T\<close> in front.\<close>

definition behind :: "string \<Rightarrow> string \<Rightarrow> string set \<Rightarrow> (string \<times> string) list \<Rightarrow> bool" where
  "behind k v T l \<longleftrightarrow> distinct (map fst l) \<and> (\<exists>pre post. l = pre @ (k, v) # post \<and> fst ` set pre \<subseteq> T)"

lemma behind_find: "behind k v T l \<Longrightarrow> map_of l k = Some v"
  by (force simp: behind_def)

lemma behind_mono: "behind k v T l \<Longrightarrow> T \<subseteq> U \<Longrightarrow> behind k v U l"
  by (auto simp: behind_def)

lemma behind_filter:
  assumes "behind k v T l" "a \<noteq> k"
  shows "behind k v T (filter (\<lambda>p. fst p \<noteq> a) l)"
proof -
  obtain pre post where l: "l = pre @ (k, v) # post" "fst ` set pre \<subseteq> T" using assms by (auto simp: behind_def)
  then have "filter (\<lambda>p. fst p \<noteq> a) l = filter (\<lambda>p. fst p \<noteq> a) pre @ (k, v) # filter (\<lambda>p. fst p \<noteq> a) post"
    using assms(2) by simp
  moreover have "fst ` set (filter (\<lambda>p. fst p \<noteq> a) pre) \<subseteq> T" using l(2) by auto
  moreover have "distinct (map fst (filter (\<lambda>p. fst p \<noteq> a) l))"
    using assms(1) filter_keys_distinct by (auto simp: behind_def)
  ultimately show ?thesis unfolding behind_def by blast
qed

lemma behind_touch:
  assumes "behind k v T l" "a \<noteq> k"
  shows "behind k v (insert a T) (touch a w l)"
proof -
  obtain pre post where l: "filter (\<lambda>p. fst p \<noteq> a) l = pre @ (k, v) # post" "fst ` set pre \<subseteq> T"
    using behind_filter [OF assms] by (auto simp: behind_def)
  then have "touch a w l = ((a, w) # pre) @ (k, v) # post" "fst ` set ((a, w) # pre) \<subseteq> insert a T"
    by (auto simp: touch_def)
  moreover have "distinct (map fst (touch a w l))" using assms(1) touch_distinct by (auto simp: behind_def)
  ultimately show ?thesis unfolding behind_def by blast
qed

lemma behind_fresh:
  assumes "behind k v T l" "a \<noteq> k" "map_of l a = None" "finite T" "card (insert a T) < cap"
  shows "behind k v (insert a T) ((a, w) # take (cap - 1) l)"
proof -
  obtain pre post where l: "l = pre @ (k, v) # post" "fst ` set pre \<subseteq> T" and dist: "distinct (map fst l)"
    using assms(1) by (auto simp: behind_def)
  have a: "a \<notin> fst ` set l" using assms(3) by (simp add: map_of_eq_None_iff)
  have "length pre = card (fst ` set pre)"
    using dist l(1) distinct_card [of "map fst pre"] by simp
  also have "\<dots> \<le> card (insert a T - {a})"
    using l a assms(4) by (intro card_mono) auto
  also have "\<dots> = card (insert a T) - 1" using assms(4) by (intro card_Diff_singleton) auto
  finally have "length pre \<le> card (insert a T) - 1" .
  moreover have "0 < card (insert a T)" using assms(4) by (simp add: card_gt_0_iff)
  ultimately have "length pre < cap - 1" using assms(5) by linarith
  then have "take (cap - 1) l = pre @ (k, v) # take (cap - 1 - length pre - 1) post"
    unfolding l by (cases "cap - 1 - length pre") auto
  moreover have "distinct (map fst ((a, w) # take (cap - 1) l))"
    using dist a by (auto simp flip: take_map dest: in_set_takeD)
  moreover have "fst ` set ((a, w) # pre) \<subseteq> insert a T" using l(2) by auto
  ultimately show ?thesis unfolding behind_def by (metis append_Cons)
qed

lemma behind_step:
  assumes "behind k v T l" "leaves k x" "finite T" "card (T \<union> (op_keys x - {k})) < cap"
    and "lru_step x (cap, l) = (r, cap', l')"
  shows "cap' = cap \<and> behind k v (T \<union> (op_keys x - {k})) l'"
proof (cases x)
  case (Get a)
  show ?thesis
  proof (cases "a = k")
    case True
    have "behind k v {} (touch k v l)"
      using assms(1) touch_distinct [of l k v] by (auto simp: behind_def touch_def)
    then show ?thesis using Get True assms behind_find [OF assms(1)] behind_mono [of k v "{}" _ T] by auto
  next
    case False
    show ?thesis
    proof (cases "map_of l a")
      case None
      then show ?thesis using Get False assms behind_mono [OF assms(1), of "insert a T"] by auto
    next
      case (Some w)
      then show ?thesis using Get False assms behind_touch [OF assms(1) False] by auto
    qed
  qed
next
  case (Put a w)
  then have a: "a \<noteq> k" using assms(2) by simp
  show ?thesis
  proof (cases "map_of l a")
    case None
    then show ?thesis using Put a assms behind_fresh [OF assms(1) a None assms(3), of cap w]
      by (auto simp: spec_insert_def)
  next
    case (Some u)
    then show ?thesis using Put a assms behind_touch [OF assms(1) a, of w] by (auto simp: spec_insert_def)
  qed
next
  case (Remove a)
  then show ?thesis using assms behind_filter [OF assms(1), of a] by auto
qed (use assms in auto)

lemma behind_run:
  assumes "behind k v T l" "list_all (leaves k) xs" "finite T"
    and "card (T \<union> (\<Union>x \<in> set xs. op_keys x - {k})) < cap"
    and "run_ops lru_step xs (cap, l) = (rs, cap', l')"
  shows "map_of l' k = Some v"
  using assms
proof (induction xs arbitrary: T l rs)
  case Nil
  then show ?case using behind_find by simp
next
  case (Cons x xs)
  obtain r c m where step: "lru_step x (cap, l) = (r, c, m)" by (cases "lru_step x (cap, l)") auto
  have fin: "finite (op_keys y)" for y by (cases y) auto
  have "card (T \<union> (op_keys x - {k})) \<le> card (T \<union> (\<Union>x \<in> set (x # xs). op_keys x - {k}))"
    using Cons.prems(3) fin by (intro card_mono) auto
  then have small: "card (T \<union> (op_keys x - {k})) < cap" using Cons.prems(4) by linarith
  have next_state: "c = cap" "behind k v (T \<union> (op_keys x - {k})) m"
    using behind_step [OF Cons.prems(1) _ Cons.prems(3) small step] Cons.prems(2) by auto
  obtain rs' where rest: "run_ops lru_step xs (cap, m) = (rs', cap', l')"
    using Cons.prems(5) step next_state(1) by (auto split: prod.splits)
  show ?case
    by (rule Cons.IH [OF next_state(2) _ _ _ rest]) (use Cons.prems fin in \<open>simp_all add: Un_assoc\<close>)
qed

lemma inserted_in_front: "level_ok l \<Longrightarrow> behind k v {} (recency (level_insert k v l))"
  using level_insert_refines [of l k v] recency_distinct [of "level_insert k v l"]
  by (auto simp: behind_def spec_insert_def touch_def)

text \<open>An entry in recent use survives. After an insertion of a key, as long as the key itself is not replaced
  or removed, the level is not cleared or resized, and fewer other keys than the limit are looked up or
  inserted, a lookup of the key returns the inserted value.\<close>

theorem recent_entry_survives:
  assumes "level_ok l" and "list_all (leaves k) ops"
    and "card (\<Union>x \<in> set ops. op_keys x - {k}) < max_entries l"
  shows "fst (level_step (Get k) (snd (run_ops level_step ops (level_insert k v l)))) = Some v"
proof -
  let ?m = "level_insert k v l"
  let ?n = "snd (run_ops level_step ops ?m)"
  have m: "level_ok ?m" "max_entries ?m = max_entries l" using level_insert_refines [OF assms(1)] by auto
  have n: "level_ok ?n" and run: "run_ops lru_step ops (max_entries l, recency ?m) =
      (fst (run_ops level_step ops ?m), max_entries ?n, recency ?n)"
    using level_run_refines [OF m(1), of ops] m(2) by (auto simp: level_abs_def)
  have "map_of (recency ?n) k = Some v"
    using behind_run [OF inserted_in_front [OF assms(1)] assms(2) _ _ run] assms(3) by simp
  then show ?thesis using level_get_refines(2) [OF n] by simp
qed

theorem recent_entry_survives_witness:
  "fst (level_step (Get ''a'') (snd (run_ops level_step [Put ''b'' ''2'', Get ''c'']
     (level_insert ''a'' ''1'' (level_evict 3 new_level))))) = Some ''1''"
proof (rule recent_entry_survives)
  have "level_ok (level_evict 3 new_level) \<and> max_entries (level_evict 3 new_level) = 3"
    using level_evict_refines [OF new_level_ok, of 3] by simp
  then show "level_ok (level_evict 3 new_level)"
    "card (\<Union>x \<in> set [Put ''b'' ''2'', Get ''c'']. op_keys x - {''a''}) < max_entries (level_evict 3 new_level)"
    by simp_all
qed simp

text \<open>The pointer that a lookup returns is only good while nobody evicts: between the lookup and the read of the
  value the lock is released.\<close>

lemma lookup_pointer_dangles:
  "level_ok l \<Longrightarrow> fst (level_lookup k l) = Some n \<Longrightarrow> level_deref n (level_evict 0 (snd (level_lookup k l))) = None"
  using evict_while_facts [OF level_lookup_ok, of l "Suc 0" k] by (simp add: level_deref_def level_evict_def)

text \<open>A level whose limit is zero still takes an entry.\<close>

lemma zero_limit_keeps_one: "level_size (level_insert k v (level_evict 0 new_level)) = 1"
  using level_insert_refines [of "level_evict 0 new_level" k v] level_evict_refines [OF new_level_ok, of 0]
    level_size_recency [of "level_insert k v (level_evict 0 new_level)"]
  by (simp add: spec_insert_def)

section \<open>Packed keys\<close>

definition word_chunks :: "nat \<Rightarrow> nat \<Rightarrow> 'a::len word \<Rightarrow> string" where
  "word_chunks j k v = map (\<lambda>i. char_of (unat (drop_bit (8 * i) v AND 0xff))) [j ..< j + k]"

lemma le_bytes_chunks: "le_bytes v = word_chunks 0 8 v" "le_bytes16 w = word_chunks 0 2 w"
  by (simp_all only: le_bytes_def le_bytes16_def word_chunks_def add_0)

lemma low_byte: "unat (u AND 0xff) < 256" for u :: "'a::len word"
  using mask_bound [of u 8] by (simp add: mask_eq_exp_minus_1)

lemma word_chunks_inj:
  fixes v w :: "'a::len word"
  assumes "LENGTH('a) \<le> 8 * k" "word_chunks 0 k v = word_chunks 0 k w"
  shows "v = w"
proof (rule word_eq_by_chunks [where c = 8 and k = k])
  fix i :: nat assume i: "i < k"
  from arg_cong [OF assms(2), of "\<lambda>xs. xs ! i"] i
  have "char_of (unat (drop_bit (8 * i) v AND 0xff)) = (char_of (unat (drop_bit (8 * i) w AND 0xff)) :: char)"
    by (simp add: word_chunks_def)
  then have "unat (drop_bit (8 * i) v AND 0xff) = unat (drop_bit (8 * i) w AND 0xff)"
    using low_byte [of "drop_bit (8 * i) v"] low_byte [of "drop_bit (8 * i) w"]
    by (metis char_of_eq_iff mod_less of_char_of)
  then show "drop_bit (8 * i) v AND mask 8 = drop_bit (8 * i) w AND mask 8"
    by (simp add: mask_eq_exp_minus_1 word_unat_eq_iff)
qed (use assms in simp_all)

lemma le_bytes16_inj: "le_bytes16 v = le_bytes16 w \<Longrightarrow> v = w"
  unfolding le_bytes_chunks by (rule word_chunks_inj [of 2]) simp_all

lemma packed_lengths [simp]:
  "length (le_bytes16 v) = 2" "length (code_byte n) = 1" "length (zero_buffer n) = n" "length (le_bytes w) = 8"
  by (simp_all add: le_bytes16_def code_byte_def zero_buffer_def le_bytes_def)

text \<open>Fields written one behind the other fill the buffer in order.\<close>

fun place :: "nat \<Rightarrow> string list \<Rightarrow> (nat \<times> string) list" where
  "place off [] = []"
| "place off (b # bs) = (off, b) # place (off + length b) bs"

lemma poke_behind:
  assumes "length b \<le> m"
  shows "poke (length pre) b (pre @ replicate m c) = (pre @ b) @ replicate (m - length b) c"
  using assms by (simp add: poke_def)

lemma fold_poke:
  assumes "length (concat bs) \<le> m"
  shows "fold (\<lambda>(off, bytes). poke off bytes) (place (length pre) bs) (pre @ replicate m c) =
    pre @ concat bs @ replicate (m - length (concat bs)) c"
  using assms
proof (induction bs arbitrary: pre m)
  case (Cons b bs)
  then have "length b \<le> m" by simp
  from poke_behind [OF this, of pre c] Cons.IH [of "m - length b" "pre @ b"] Cons.prems show ?case by simp
qed simp

lemma fold_poke_full:
  assumes "ps = place 0 bs" "length (concat bs) = n"
  shows "fold (\<lambda>(off, bytes). poke off bytes) ps (zero_buffer n) = concat bs"
  using fold_poke [of bs n "[]" "char_of (0::nat)"] assms by (simp add: zero_buffer_def)

lemma kernelKey_packed:
  "kernelKeyToString k = concat
     [code_byte (operation_code (kk_operation k)), code_byte (d_type_code (input_type k)),
      code_byte (d_type_code (output_type k)), le_bytes (M_bucket k), le_bytes (kk_N k), le_bytes (kk_K k),
      code_byte (layout_code (kk_layout k)), code_byte (cpu_isa_code (isa k)), code_byte (math_code (kk_math k)),
      le_bytes16 (thread_count k), le_bytes (compiler_version k), le_bytes (schedule_version k)]"
  unfolding kernelKeyToString_def by (rule fold_poke_full) simp_all

lemma weightKey_packed:
  "weightKeyToString k = concat [le_bytes (weight_ptr k), le_bytes (shape_hash k), le_bytes (wk_BK k),
     le_bytes (wk_BN k), le_bytes (wk_K k), le_bytes (wk_N k)]"
  unfolding weightKeyToString_def by (rule fold_poke_full) simp_all

lemma code_byte_inj: "m < 256 \<Longrightarrow> n < 256 \<Longrightarrow> code_byte m = code_byte n \<longleftrightarrow> m = n"
  unfolding code_byte_def by (metis list.inject mod_less of_char_of)

lemma operation_byte [simp]: "code_byte (operation_code a) = code_byte (operation_code b) \<longleftrightarrow> a = b"
  by (cases a; cases b) (simp_all add: code_byte_inj)

lemma d_type_byte [simp]: "code_byte (d_type_code a) = code_byte (d_type_code b) \<longleftrightarrow> a = b"
  by (cases a; cases b) (simp_all add: code_byte_inj)

lemma layout_byte [simp]: "code_byte (layout_code a) = code_byte (layout_code b) \<longleftrightarrow> a = b"
  by (cases a; cases b) (simp_all add: code_byte_inj)

lemma cpu_isa_byte [simp]: "code_byte (cpu_isa_code a) = code_byte (cpu_isa_code b) \<longleftrightarrow> a = b"
  by (cases a; cases b) (simp_all add: code_byte_inj)

lemma math_byte [simp]: "code_byte (math_code a) = code_byte (math_code b) \<longleftrightarrow> a = b"
  by (cases a; cases b) (simp_all add: code_byte_inj)

lemma le_bytes_eq [simp]: "le_bytes v = le_bytes w \<longleftrightarrow> v = w" "le_bytes16 x = le_bytes16 y \<longleftrightarrow> x = y"
  using le_bytes_inj le_bytes16_inj by blast+

text \<open>Chunks of pairwise equal lengths.\<close>

lemma concat_chunks:
  "list_all2 (\<lambda>x y. length x = length y) xs ys \<Longrightarrow> concat xs = concat ys \<longleftrightarrow> xs = ys"
proof (induction xs ys rule: list_all2_induct)
  case (Cons x xs y ys)
  then show ?case using append_eq_append_conv [of x y "concat xs" "concat ys"] by simp
qed simp

lemma kernelKeyToString_inj: "kernelKeyToString a = kernelKeyToString b \<longleftrightarrow> a = b"
  unfolding kernelKey_packed by (subst concat_chunks) (auto intro: kernel_key.equality)

lemma weightKeyToString_inj: "weightKeyToString a = weightKeyToString b \<longleftrightarrow> a = b"
  unfolding weightKey_packed by (subst concat_chunks) (auto intro: weight_key.equality)

section \<open>Object code\<close>

lemma chunks_decode:
  fixes v :: uint64
  shows "foldr (\<lambda>c fn. push_bit 8 fn OR byte_word c) (word_chunks j k v) 0 = take_bit (8 * k) (drop_bit (8 * j) v)"
proof (induction k arbitrary: j)
  case 0
  then show ?case by (simp add: word_chunks_def)
next
  case (Suc k)
  have cons: "word_chunks j (Suc k) v = char_of (unat (drop_bit (8 * j) v AND 0xff)) # word_chunks (Suc j) k v"
    unfolding word_chunks_def by (subst upt_conv_Cons) auto
  have byte: "byte_word (char_of (unat (drop_bit (8 * j) v AND 0xff))) = take_bit 8 (drop_bit (8 * j) v)"
    using low_byte [of "drop_bit (8 * j) v"] by (simp add: byte_word_def take_bit_eq_mask mask_eq_exp_minus_1)
  have "push_bit 8 (take_bit (8 * k) (drop_bit (8 * Suc j) v)) OR take_bit 8 (drop_bit (8 * j) v) =
      take_bit (8 * Suc k) (drop_bit (8 * j) v)"
    by (rule bit_word_eqI) (auto simp: bit_simps add.commute)
  then show ?case unfolding cons by (simp add: Suc.IH byte)
qed

lemma bytes_to_fn_packed: "bytes_to_fn (poke 0 (le_bytes fn) (zero_buffer 8)) = Some fn"
proof -
  have "poke 0 (le_bytes fn) (zero_buffer 8) = le_bytes fn" by (simp add: poke_def)
  then show ?thesis using chunks_decode [of 0 8 fn]
    by (simp add: bytes_to_fn_def le_bytes_chunks(1) [symmetric] take_bit_word_eq_self)
qed

text \<open>The packed strings under which the third and the fourth level are indexed determine the kernel key and the
  weight key, so no key can reach the entry of another.\<close>

theorem packed_keys_injective:
  "(kernelKeyToString a = kernelKeyToString b \<longleftrightarrow> a = b) \<and> (weightKeyToString v = weightKeyToString w \<longleftrightarrow> v = w) \<and>
   length (kernelKeyToString a) = 48 \<and> length (weightKeyToString v) = 48"
  by (simp add: kernelKeyToString_inj weightKeyToString_inj) (simp add: kernelKey_packed weightKey_packed)

definition object_value :: "uint64 \<Rightarrow> string" where
  "object_value fn = poke 0 (le_bytes fn) (zero_buffer 8)"

lemma lookupObjectCode_value:
  "level_ok (object_cache c) \<Longrightarrow>
   fst (lookupObjectCode key c) = Option.bind (map_of (recency (object_cache c)) (kernelKeyToString key)) bytes_to_fn"
  using level_get_refines(2) [of "object_cache c" "kernelKeyToString key"]
  by (simp add: lookupObjectCode_def split: prod.splits) (metis fst_conv)

lemma spec_insert_find:
  "map_of (spec_insert cap k v l) k = Some v"
  "k' \<noteq> k \<Longrightarrow> distinct (map fst l) \<Longrightarrow> map_of (spec_insert cap k v l) k' \<in> {map_of l k', None}"
proof -
  show "map_of (spec_insert cap k v l) k = Some v" by (simp add: spec_insert_def touch_def)
  assume other: "k' \<noteq> k" and dist: "distinct (map fst l)"
  have "map_of (filter (\<lambda>p. fst p \<noteq> k) l) k' = map_of l k'" using other by (induction l) auto
  moreover have "map_of (take n l) k' \<in> {map_of l k', None}" for n
    using dist by (cases "map_of (take n l) k'") (auto dest!: map_of_SomeD dest: in_set_takeD)
  ultimately show "map_of (spec_insert cap k v l) k' \<in> {map_of l k', None}"
    using other by (auto simp: spec_insert_def touch_def)
qed

text \<open>After the insertion of the code of a kernel the same key finds that code, and any other key finds what it
  found before or nothing.\<close>

theorem object_code_not_confused:
  assumes "level_ok (object_cache c)"
  shows "fst (lookupObjectCode key (insertObjectCode key fn c)) = Some fn \<and>
    (k \<noteq> key \<longrightarrow> fst (lookupObjectCode k (insertObjectCode key fn c)) \<in> {fst (lookupObjectCode k c), None})"
proof (intro conjI impI)
  let ?l = "object_cache c" and ?d = "insertObjectCode key fn c"
  have d: "level_ok (object_cache ?d)"
    "recency (object_cache ?d) = spec_insert (max_entries ?l) (kernelKeyToString key) (object_value fn) (recency ?l)"
    using level_insert_refines [OF assms, of "kernelKeyToString key" "object_value fn"]
    by (auto simp: insertObjectCode_def object_value_def)
  show "fst (lookupObjectCode key ?d) = Some fn"
    unfolding lookupObjectCode_value [OF d(1)] d(2) spec_insert_find(1)
    by (simp add: object_value_def bytes_to_fn_packed)
  assume "k \<noteq> key"
  then have "kernelKeyToString k \<noteq> kernelKeyToString key" by (simp add: kernelKeyToString_inj)
  from spec_insert_find(2) [OF this recency_distinct [OF assms]]
  have "map_of (recency (object_cache ?d)) (kernelKeyToString k) \<in> {map_of (recency ?l) (kernelKeyToString k), None}"
    unfolding d(2) by blast
  then show "fst (lookupObjectCode k ?d) \<in> {fst (lookupObjectCode k c), None}"
    unfolding lookupObjectCode_value [OF d(1)] lookupObjectCode_value [OF assms] by auto
qed

section \<open>The hash of a kernel key\<close>

lemma xor_shift_inj:
  fixes x y :: "'a::len word"
  assumes "0 < n" "x XOR drop_bit n x = y XOR drop_bit n y"
  shows "x = y"
proof (rule bit_word_eqI)
  fix i :: nat
  show "bit x i = bit y i"
  proof (induction "LENGTH('a) - i" arbitrary: i rule: less_induct)
    case less
    have eq: "bit (x XOR drop_bit n x) i = bit (y XOR drop_bit n y) i" using assms(2) by simp
    show ?case
    proof (cases "i < LENGTH('a)")
      case True
      have "bit x (n + i) = bit y (n + i)" using True assms(1) by (intro less.hyps) auto
      with eq show ?thesis by (auto simp: bit_xor_iff bit_drop_bit_eq)
    next
      case False
      then show ?thesis using bit_imp_le_length by fastforce
    qed
  qed
qed

lemma odd_mult_inj:
  fixes a b c d :: "'a::len word"
  assumes "c * d = 1" "a * c = b * c"
  shows "a = b"
proof -
  have "a * (c * d) = b * (c * d)" using assms(2) by (simp flip: mult.assoc)
  then show ?thesis using assms(1) by simp
qed

lemma key_mix_inj: "key_mix x = key_mix y \<Longrightarrow> x = y"
proof -
  assume eq: "key_mix x = key_mix y"
  have inv1: "(0xbf58476d1ce4e5b9 :: uint64) * 0x96de1b173f119089 = 1"
    and inv2: "(0x94d049bb133111eb :: uint64) * 0x319642b2d24d8ec3 = 1" by simp_all
  define f where "f = (\<lambda>x :: uint64. (x XOR drop_bit 30 x) * 0xbf58476d1ce4e5b9)"
  define g where "g = (\<lambda>x :: uint64. (x XOR drop_bit 27 x) * 0x94d049bb133111eb)"
  have mix: "key_mix x = g (f x) XOR drop_bit 31 (g (f x))" for x by (simp add: key_mix_def f_def g_def Let_def)
  have "g (f x) = g (f y)" using xor_shift_inj [of 31] eq unfolding mix by simp
  then have "f x XOR drop_bit 27 (f x) = f y XOR drop_bit 27 (f y)"
    unfolding g_def by (rule odd_mult_inj [OF inv2])
  then have "f x = f y" using xor_shift_inj [of 27] by simp
  then have "x XOR drop_bit 30 x = y XOR drop_bit 30 y" unfolding f_def by (rule odd_mult_inj [OF inv1])
  then show "x = y" using xor_shift_inj [of 30] by simp
qed

lemma key_feed_iff [simp]: "key_feed h v = key_feed h w \<longleftrightarrow> v = w" "key_feed g v = key_feed h v \<longleftrightarrow> g = h"
  by (auto simp: key_feed_def word_xor_cancel dest: key_mix_inj)

lemma feed_rest: "foldl key_feed g vs = foldl key_feed h vs \<longleftrightarrow> g = h"
  by (induction vs arbitrary: g h) auto

text \<open>Two kernel keys that differ in one field have different hashes.\<close>

theorem kernel_hash_one_field:
  assumes "key_words a = xs @ u # ys" and "key_words b = xs @ v # ys" and "u \<noteq> v"
  shows "kernelKeyHash a \<noteq> kernelKeyHash b"
  using assms(3) by (simp add: kernelKeyHash_def assms(1,2) feed_rest)


definition sample_key :: kernel_key where
  "sample_key = \<lparr>kk_operation = RoPE, input_type = DBF16, output_type = DFP32, M_bucket = 2, kk_N = 64, kk_K = 128,
     kk_layout = PackedKN, isa = NEON, kk_math = Strict, thread_count = 8, compiler_version = 1, schedule_version = 7\<rparr>"

definition empty_cache :: jit_cache where
  "empty_cache = \<lparr>cache = [], variant_cache = [], ir_cache = new_level, optimized_cache = new_level,
     object_cache = new_level, weight_cache = new_level\<rparr>"

theorem kernel_hash_one_field_witness:
  "kernelKeyHash sample_key \<noteq> kernelKeyHash (sample_key\<lparr>schedule_version := 8\<rparr>)"
  by (rule kernel_hash_one_field [where xs = "butlast (key_words sample_key)" and u = 7 and v = 8 and ys = "[]"])
    (simp_all add: key_words_def sample_key_def)

theorem object_code_not_confused_witness:
  "fst (lookupObjectCode sample_key (insertObjectCode sample_key 4096 empty_cache)) = Some 4096"
  using object_code_not_confused [of empty_cache sample_key 4096] by (simp add: empty_cache_def)

end
