(* ===== verification/WeightPacking.thy ===== *)
theory WeightPacking
  imports KernelCache
begin

text \<open>
  Packing of weight matrices into blocks of rows: \<^verbatim>\<open>runtime/PackedWeights.cpp\<close>. Memory is a list of bytes
  and a copy writes a range of it. The lemmas show that the two nested loops write every row exactly once and
  inside the buffer, so that the result is the compacted matrix followed by zero rows.
\<close>

record packed_weights =
  pw_data :: string
  K_blocks :: int
  pw_N :: int
  block_size :: int
  pw_BK :: int

definition source_row :: "string \<Rightarrow> int \<Rightarrow> int \<Rightarrow> int \<Rightarrow> string" where
  "source_row src srcRowStride rowBytes k = take (nat rowBytes) (drop (nat (k * srcRowStride)) src)"

text \<open>\<open>src\<close> is the memory behind \<^verbatim>\<open>W.data\<close>; elements are two bytes wide (BF16).\<close>

definition packWeightMatrix :: "string \<Rightarrow> tensor2d \<Rightarrow> int \<Rightarrow> packed_weights" where
  "packWeightMatrix src W BK =
     (let blocks = (dim0 W + BK - 1) sdiv BK;
          elemSize = 2;
          size = BK * dim1 W * elemSize;
          srcRowStride = t_stride0 W * elemSize;
          data = fold (\<lambda>kb data.
            let kStart = int kb * BK;
                rowsInBlock = min BK (dim0 W - kStart)
            in fold (\<lambda>ki data.
                 poke (nat (int kb * size + int ki * dim1 W * elemSize))
                   (source_row src srcRowStride (dim1 W * elemSize) (kStart + int ki)) data)
                 [0 ..< nat rowsInBlock] data)
            [0 ..< nat blocks] (zero_buffer (nat (blocks * size)))
      in \<lparr>pw_data = data, K_blocks = blocks, pw_N = dim1 W, block_size = size, pw_BK = BK\<rparr>)"

definition repack :: "packed_weights \<Rightarrow> string \<Rightarrow> tensor2d \<Rightarrow> packed_weights" where
  "repack pw src W = packWeightMatrix src W (pw_BK pw)"

section \<open>The loops write the rows in order\<close>

lemma blocks_of_rows:
  "concat (map (\<lambda>kb. map (\<lambda>ki. kb * b + ki) [0 ..< min b (d - kb * b)]) [0 ..< n]) = [0 ..< min (n * b) d]"
proof (induction n)
  case (Suc n)
  have shift: "map (\<lambda>ki. n * b + ki) [0 ..< m] = [n * b ..< n * b + m]" for m
    using map_add_upt [of "n * b" m] by (simp add: add.commute)
  show ?case
  proof (cases "n * b \<le> d")
    case True
    then have "n * b + min b (d - n * b) = min (Suc n * b) d" by auto
    moreover have "[0 ..< n * b] @ [n * b ..< n * b + m] = [0 ..< n * b + m]" for m
      by (metis add_0 upt_add_eq_append zero_le)
    ultimately have "[0 ..< n * b] @ [n * b ..< min (Suc n * b) d] = [0 ..< min (Suc n * b) d]" by metis
    with Suc True \<open>n * b + min b (d - n * b) = min (Suc n * b) d\<close> show ?thesis by (simp add: shift)
  qed (use Suc in simp)
qed simp

lemma place_rows: "(\<And>k. k \<in> set ks \<Longrightarrow> length (f k) = w) \<Longrightarrow> ks = [m ..< m + n] \<Longrightarrow> place (m * w) (map f ks) = map (\<lambda>k. (k * w, f k)) ks"
proof (induction n arbitrary: m ks)
  case (Suc n)
  have ks: "ks = m # [Suc m ..< Suc m + n]" using Suc.prems(2) by (simp add: upt_conv_Cons)
  then have "length (f m) = w" using Suc.prems(1) by simp
  then show ?case using Suc.IH [of "[Suc m ..< Suc m + n]" "Suc m"] Suc.prems(1) ks by (simp add: add.commute)
qed simp

lemma fold_nested: "fold (\<lambda>x. fold (\<lambda>y. g (h x y)) (f x)) xs s = fold g (concat (map (\<lambda>x. map (h x) (f x)) xs)) s"
  by (induction xs arbitrary: s) (simp_all add: fold_map comp_def)

definition row_bytes :: "string \<Rightarrow> nat \<Rightarrow> nat \<Rightarrow> nat \<Rightarrow> string" where
  "row_bytes src stride w k = take w (drop (k * stride) src)"

lemma pack_loop:
  assumes "0 < b" "\<And>k. k < d \<Longrightarrow> length (row k) = w"
  shows "fold (\<lambda>kb. fold (\<lambda>ki. poke (kb * (b * w) + ki * w) (row (kb * b + ki))) [0 ..< min b (d - kb * b)])
      [0 ..< (d + b - 1) div b] (zero_buffer ((d + b - 1) div b * (b * w))) =
    concat (map row [0 ..< d]) @ zero_buffer (((d + b - 1) div b * b - d) * w)"
proof -
  let ?n = "(d + b - 1) div b"
  let ?ks = "concat (map (\<lambda>kb. map (\<lambda>ki. kb * b + ki) [0 ..< min b (d - kb * b)]) [0 ..< ?n])"
  have cover: "d \<le> ?n * b"
  proof -
    have "d + b - 1 < b + ?n * b" using dividend_less_div_times [OF assms(1), of "d + b - 1"] .
    then show ?thesis by linarith
  qed
  then have ks: "?ks = [0 ..< d]" using blocks_of_rows [where n = "?n" and d = d and b = b] by (simp add: min_def)
  have "place (0 * w) (map row [0 ..< d]) = map (\<lambda>k. (k * w, row k)) [0 ..< d]"
    by (rule place_rows [where n = d]) (use assms(2) in simp_all)
  then have placed: "map (\<lambda>k. (k * w, row k)) ?ks = place 0 (map row [0 ..< d])" unfolding ks mult_0 by (rule sym)
  have offset: "kb * (b * w) + ki * w = (kb * b + ki) * w" for kb ki by (simp add: add_mult_distrib mult.assoc)
  have "fold (\<lambda>kb. fold (\<lambda>ki. poke (kb * (b * w) + ki * w) (row (kb * b + ki))) [0 ..< min b (d - kb * b)]) [0 ..< ?n] s =
      fold (\<lambda>k. poke (k * w) (row k)) ?ks s" for s
    unfolding offset by (rule fold_nested)
  also have "fold (\<lambda>k. poke (k * w) (row k)) ?ks s =
      fold (\<lambda>(off, bytes). poke off bytes) (map (\<lambda>k. (k * w, row k)) ?ks) s" for s
    unfolding fold_map comp_def prod.case ..
  also note placed
  finally have loops: "fold (\<lambda>kb. fold (\<lambda>ki. poke (kb * (b * w) + ki * w) (row (kb * b + ki))) [0 ..< min b (d - kb * b)])
      [0 ..< ?n] s = fold (\<lambda>(off, bytes). poke off bytes) (place 0 (map row [0 ..< d])) s" for s .
  have size: "length (concat (map row [0 ..< d])) = d * w"
    using assms(2) by (induction d) auto
  have "d * w \<le> ?n * (b * w)" using cover by (simp add: mult.assoc [symmetric])
  with fold_poke [of "map row [0 ..< d]" "?n * (b * w)" "[]" "char_of (0::nat)"] size show ?thesis
    unfolding loops zero_buffer_def by (simp add: diff_mult_distrib mult.assoc)
qed

lemma source_row_nat: "source_row src (int st * 2) (int n * 2) (int k) = row_bytes src (st * 2) (n * 2) k"
  by (simp add: source_row_def row_bytes_def nat_mult_distrib)

lemma pack_nat:
  assumes "dim0 W = int d" "dim1 W = int n" "t_stride0 W = int st" "0 < b"
  shows "pw_data (packWeightMatrix src W (int b)) =
    fold (\<lambda>kb. fold (\<lambda>ki. poke (kb * (b * (n * 2)) + ki * (n * 2)) (row_bytes src (st * 2) (n * 2) (kb * b + ki)))
        [0 ..< min b (d - kb * b)]) [0 ..< (d + b - 1) div b] (zero_buffer ((d + b - 1) div b * (b * (n * 2))))"
    and "K_blocks (packWeightMatrix src W (int b)) = int ((d + b - 1) div b)"
    and "block_size (packWeightMatrix src W (int b)) = int (b * (n * 2))"
proof -
  have blocks: "(int d + int b - 1) sdiv int b = int ((d + b - 1) div b)"
    using assms(4) by (simp add: sdiv_nonneg_pos zdiv_int of_nat_diff)
  have rows: "nat (min (int b) (int d - int kb * int b)) = min b (d - kb * b)" for kb
  proof -
    have "nat (int d - int (kb * b)) = d - kb * b" by (simp only: nat_diff_distrib' nat_int)
    then show ?thesis by simp
  qed
  have offset: "nat (int kb * (int b * int n * 2) + int ki * int n * 2) = kb * (b * (n * 2)) + ki * (n * 2)" for kb ki
    by (simp add: nat_add_distrib nat_mult_distrib)
  have row: "source_row src (int st * 2) (int n * 2) (int kb * int b + int ki) = row_bytes src (st * 2) (n * 2) (kb * b + ki)"
    for kb ki using source_row_nat [of src st n "kb * b + ki"] by simp
  have size: "nat (int m * (int b * int n * 2)) = m * (b * (n * 2))" for m
    by (simp add: nat_mult_distrib)
  show "K_blocks (packWeightMatrix src W (int b)) = int ((d + b - 1) div b)"
    "block_size (packWeightMatrix src W (int b)) = int (b * (n * 2))"
    using blocks by (simp_all add: packWeightMatrix_def assms Let_def)
  show "pw_data (packWeightMatrix src W (int b)) =
    fold (\<lambda>kb. fold (\<lambda>ki. poke (kb * (b * (n * 2)) + ki * (n * 2)) (row_bytes src (st * 2) (n * 2) (kb * b + ki)))
        [0 ..< min b (d - kb * b)]) [0 ..< (d + b - 1) div b] (zero_buffer ((d + b - 1) div b * (b * (n * 2))))"
    unfolding packWeightMatrix_def Let_def assms packed_weights.simps blocks size rows offset row nat_int ..
qed

text \<open>Packing copies every row of the matrix exactly once, in order and without gaps, inside a buffer of whole
  blocks whose remaining rows are zero.\<close>

theorem pack_layout:
  assumes "0 < BK" "0 \<le> dim0 W" "0 \<le> dim1 W" "0 \<le> t_stride0 W"
    and "\<And>k. 0 \<le> k \<Longrightarrow> k < dim0 W \<Longrightarrow> k * (t_stride0 W * 2) + dim1 W * 2 \<le> int (length src)"
  shows "pw_data (packWeightMatrix src W BK) =
      concat (map (\<lambda>k. source_row src (t_stride0 W * 2) (dim1 W * 2) (int k)) [0 ..< nat (dim0 W)]) @
      zero_buffer (nat ((K_blocks (packWeightMatrix src W BK) * BK - dim0 W) * (dim1 W * 2))) \<and>
    int (length (pw_data (packWeightMatrix src W BK))) =
      K_blocks (packWeightMatrix src W BK) * block_size (packWeightMatrix src W BK) \<and>
    dim0 W \<le> K_blocks (packWeightMatrix src W BK) * BK \<and> K_blocks (packWeightMatrix src W BK) * BK < dim0 W + BK"
proof -
  obtain b where b: "BK = int b" "0 < b" using assms(1) by (metis pos_int_cases)
  obtain d where d: "dim0 W = int d" using assms(2) by (metis nonneg_int_cases)
  obtain n where n: "dim1 W = int n" using assms(3) by (metis nonneg_int_cases)
  obtain st where st: "t_stride0 W = int st" using assms(4) by (metis nonneg_int_cases)
  let ?m = "(d + b - 1) div b" and ?row = "row_bytes src (st * 2) (n * 2)"
  note pack = pack_nat [OF d n st b(2), of src]
  have full: "length (?row k) = n * 2" if "k < d" for k
  proof -
    have "int (k * (st * 2) + n * 2) \<le> int (length src)" using assms(5) [of "int k"] that d n st by simp
    then show ?thesis by (simp only: row_bytes_def length_take length_drop of_nat_le_iff)
  qed
  have data: "pw_data (packWeightMatrix src W (int b)) = concat (map ?row [0 ..< d]) @ zero_buffer ((?m * b - d) * (n * 2))"
    unfolding pack(1) using b(2) full by (rule pack_loop)
  have cover: "d \<le> ?m * b" "?m * b < d + b"
    using dividend_less_div_times [OF b(2), of "d + b - 1"] b(2) div_times_less_eq_dividend [of "d + b - 1" b] by linarith+
  then have bounds: "int d \<le> int ?m * int b" "int ?m * int b < int d + int b"
    by (simp_all only: of_nat_mult [symmetric] of_nat_add [symmetric] of_nat_le_iff of_nat_less_iff)
  have pad: "nat ((int ?m * int b - int d) * (int n * 2)) = (?m * b - d) * (n * 2)"
    using cover(1) by (simp add: nat_mult_distrib nat_diff_distrib flip: of_nat_mult) 
  have rows: "map (\<lambda>k. source_row src (t_stride0 W * 2) (dim1 W * 2) (int k)) [0 ..< nat (dim0 W)] = map ?row [0 ..< d]"
    by (simp add: d n st source_row_nat)
  have "length (concat (map ?row [0 ..< d])) = d * (n * 2)" using full by (induction d) auto
  then have "length (pw_data (packWeightMatrix src W (int b))) = d * (n * 2) + (?m * b - d) * (n * 2)"
    unfolding data by simp
  also have "\<dots> = ?m * (b * (n * 2))" using cover(1) by (simp add: add_mult_distrib [symmetric] mult.assoc)
  finally have len: "int (length (pw_data (packWeightMatrix src W (int b)))) = int ?m * int (b * (n * 2))" by simp
  show ?thesis
    using data len bounds unfolding b(1) pack(2,3) rows unfolding d n pad by blast
qed

definition small_weights :: tensor2d where
  "small_weights = \<lparr>t_data = 4096, dim0 = 3, dim1 = 1, t_stride0 = 2, t_stride1 = 1\<rparr>"

theorem pack_layout_witness:
  "pw_data (packWeightMatrix ''aaxxbbxxcc'' small_weights 2) = ''aabbcc'' @ zero_buffer 2"
proof -
  have size: "K_blocks (packWeightMatrix ''aaxxbbxxcc'' small_weights 2) = 2"
    using pack_nat(2) [of small_weights 3 1 2 2 "''aaxxbbxxcc''"] by (simp add: small_weights_def)
  have "pw_data (packWeightMatrix ''aaxxbbxxcc'' small_weights 2) =
      concat (map (\<lambda>k. source_row ''aaxxbbxxcc'' 4 2 (int k)) [0 ..< 3]) @ zero_buffer 2"
    using pack_layout [of 2 small_weights "''aaxxbbxxcc''"] unfolding size by (simp add: small_weights_def)
  then show ?thesis by (simp add: source_row_def upt_rec numeral_eq_Suc)
qed

end
