(* ===== verification/Diagnostics.thy ===== *)
theory Diagnostics
  imports Prelude
begin

text \<open>
  The stable diagnostic codes of the mapping core: \<^verbatim>\<open>include/LLK/Mapping/Diagnostics.h\<close> and
  \<^verbatim>\<open>lib/Mapping/Diagnostics.cpp\<close>. The lemmas show that a code's string names it back, that the report order
  is a strict total order, and which refusal a report names as the primary one.
\<close>

section \<open>Codes\<close>

datatype diagnostic_code =
    NoMatchingRule
  | NoLegalLayout
  | NoLegalExecutor
  | MemoryCapacityExceeded
  | UnsupportedComputeFragment
  | NoMemoryRoute
  | NoLayoutTransform
  | GlobalConstraintFailed
  | SearchTruncated
  | LatencyCacheMiss
  | TargetBundleInvalid
  | AssumedValueSize
  | InvalidMappingMetadata
  | ConnectionChoiceUnexplored
  | InvalidGatherDeclaration
  | UnsupportedMaterialization

text \<open>A code with its message.\<close>

type_synonym diagnostic = "diagnostic_code \<times> string"

fun stringifyDiagnosticCode :: "diagnostic_code \<Rightarrow> string" where
  "stringifyDiagnosticCode NoMatchingRule = ''no_matching_rule''"
| "stringifyDiagnosticCode NoLegalLayout = ''no_legal_layout''"
| "stringifyDiagnosticCode NoLegalExecutor = ''no_legal_executor''"
| "stringifyDiagnosticCode MemoryCapacityExceeded = ''memory_capacity_exceeded''"
| "stringifyDiagnosticCode UnsupportedComputeFragment = ''unsupported_compute_fragment''"
| "stringifyDiagnosticCode NoMemoryRoute = ''no_memory_route''"
| "stringifyDiagnosticCode NoLayoutTransform = ''no_layout_transform''"
| "stringifyDiagnosticCode GlobalConstraintFailed = ''global_constraint_failed''"
| "stringifyDiagnosticCode SearchTruncated = ''search_truncated''"
| "stringifyDiagnosticCode LatencyCacheMiss = ''latency_cache_miss''"
| "stringifyDiagnosticCode TargetBundleInvalid = ''target_bundle_invalid''"
| "stringifyDiagnosticCode AssumedValueSize = ''assumed_value_size''"
| "stringifyDiagnosticCode InvalidMappingMetadata = ''invalid_mapping_metadata''"
| "stringifyDiagnosticCode ConnectionChoiceUnexplored = ''connection_choice_unexplored''"
| "stringifyDiagnosticCode InvalidGatherDeclaration = ''invalid_gather_declaration''"
| "stringifyDiagnosticCode UnsupportedMaterialization = ''unsupported_materialization''"

text \<open>\<^verbatim>\<open>symbolizeDiagnosticCode\<close>, a string switch.\<close>

definition kDiagnosticCases :: "(string \<times> diagnostic_code) list" where
  "kDiagnosticCases =
     [(''no_matching_rule'', NoMatchingRule), (''no_legal_layout'', NoLegalLayout),
      (''no_legal_executor'', NoLegalExecutor), (''memory_capacity_exceeded'', MemoryCapacityExceeded),
      (''unsupported_compute_fragment'', UnsupportedComputeFragment), (''no_memory_route'', NoMemoryRoute),
      (''no_layout_transform'', NoLayoutTransform), (''global_constraint_failed'', GlobalConstraintFailed),
      (''search_truncated'', SearchTruncated), (''latency_cache_miss'', LatencyCacheMiss),
      (''target_bundle_invalid'', TargetBundleInvalid), (''assumed_value_size'', AssumedValueSize),
      (''invalid_mapping_metadata'', InvalidMappingMetadata),
      (''connection_choice_unexplored'', ConnectionChoiceUnexplored),
      (''invalid_gather_declaration'', InvalidGatherDeclaration),
      (''unsupported_materialization'', UnsupportedMaterialization)]"

definition symbolizeDiagnosticCode :: "string \<Rightarrow> diagnostic_code option" where
  "symbolizeDiagnosticCode name = map_of kDiagnosticCases name"

text \<open>The position of a code in the enumeration, which is its integer value.\<close>

fun code_rank :: "diagnostic_code \<Rightarrow> nat" where
  "code_rank NoMatchingRule = 0"
| "code_rank NoLegalLayout = 1"
| "code_rank NoLegalExecutor = 2"
| "code_rank MemoryCapacityExceeded = 3"
| "code_rank UnsupportedComputeFragment = 4"
| "code_rank NoMemoryRoute = 5"
| "code_rank NoLayoutTransform = 6"
| "code_rank GlobalConstraintFailed = 7"
| "code_rank SearchTruncated = 8"
| "code_rank LatencyCacheMiss = 9"
| "code_rank TargetBundleInvalid = 10"
| "code_rank AssumedValueSize = 11"
| "code_rank InvalidMappingMetadata = 12"
| "code_rank ConnectionChoiceUnexplored = 13"
| "code_rank InvalidGatherDeclaration = 14"
| "code_rank UnsupportedMaterialization = 15"

definition diagnosticLess :: "diagnostic \<Rightarrow> diagnostic \<Rightarrow> bool" where
  "diagnosticLess lhs rhs =
     (if fst lhs \<noteq> fst rhs then code_rank (fst lhs) < code_rank (fst rhs) else snd lhs < snd rhs)"

definition isRejection :: "diagnostic_code \<Rightarrow> bool" where
  "isRejection code \<longleftrightarrow>
     code \<notin> {SearchTruncated, LatencyCacheMiss, AssumedValueSize, ConnectionChoiceUnexplored}"

text \<open>The refusal a report names first: \<open>first\<close> is the loop's variable.\<close>

fun primary_from :: "diagnostic option \<Rightarrow> diagnostic list \<Rightarrow> diagnostic option" where
  "primary_from first [] = first"
| "primary_from first (detail # ds) =
     (if \<not> isRejection (fst detail) then primary_from first ds
      else if fst detail = UnsupportedMaterialization \<or> fst detail = MemoryCapacityExceeded then Some detail
      else primary_from (if first = None then Some detail else first) ds)"

definition primaryRefusal :: "diagnostic list \<Rightarrow> diagnostic option" where
  "primaryRefusal = primary_from None"


section \<open>Properties of the codes\<close>

lemma symbolize_stringify: "symbolizeDiagnosticCode (stringifyDiagnosticCode code) = Some code"
  by (cases code) (simp_all add: symbolizeDiagnosticCode_def kDiagnosticCases_def)

lemma code_rank_eq [simp]: "code_rank a = code_rank b \<longleftrightarrow> a = b"
  by (cases a; cases b) simp_all

lemma diagnosticLess_irrefl [simp]: "\<not> diagnosticLess a a"
  by (simp add: diagnosticLess_def)

lemma diagnosticLess_trans: "diagnosticLess a b \<Longrightarrow> diagnosticLess b c \<Longrightarrow> diagnosticLess a c"
  by (auto simp: diagnosticLess_def split: if_splits)

lemma diagnosticLess_total: "a = b \<or> diagnosticLess a b \<or> diagnosticLess b a"
proof (cases "fst a = fst b")
  case True
  then show ?thesis by (auto simp: diagnosticLess_def prod_eq_iff)
next
  case False
  then have "code_rank (fst a) \<noteq> code_rank (fst b)" by simp
  then have "code_rank (fst a) < code_rank (fst b) \<or> code_rank (fst b) < code_rank (fst a)" by (rule neqE) simp_all
  with False show ?thesis by (auto simp: diagnosticLess_def)
qed

text \<open>A report has a primary refusal exactly when it holds a refusal, and a plan-level one outranks.\<close>

definition plan_level :: "diagnostic_code \<Rightarrow> bool" where
  "plan_level code \<longleftrightarrow> code = UnsupportedMaterialization \<or> code = MemoryCapacityExceeded"

lemma primary_from_picks:
  "primary_from first ds =
     (case find (\<lambda>d. plan_level (fst d)) ds of
        Some d \<Rightarrow> Some d
      | None \<Rightarrow> (case first of Some f \<Rightarrow> Some f | None \<Rightarrow> find (\<lambda>d. isRejection (fst d)) ds))"
proof (induction ds arbitrary: first)
  case Nil
  then show ?case by (cases first) simp_all
next
  case (Cons d ds)
  have level: "plan_level (fst d) \<Longrightarrow> isRejection (fst d)" by (auto simp: plan_level_def isRejection_def)
  show ?case
    using Cons [of first] Cons [of "Some d"] level
    by (cases first) (auto simp: plan_level_def split: option.splits)
qed

lemma primary_refusal_picks:
  "primaryRefusal ds =
     (case find (\<lambda>d. plan_level (fst d)) ds of
        Some d \<Rightarrow> Some d
      | None \<Rightarrow> find (\<lambda>d. isRejection (fst d)) ds)"
  by (simp add: primaryRefusal_def primary_from_picks split: option.split)

end
