(* ===== verification/CoveringSearch.thy ===== *)
theory CoveringSearch
  imports CostModel Diagnostics Hash WorkloadGraph
begin

text \<open>
  The covering search: \<^verbatim>\<open>lib/Mapping/CoveringSearch.cpp\<close>, from the tables of placed candidates to the
  ranked complete plans. An instance pointer is the pair of its table and its place there, the shared
  \<^verbatim>\<open>result\<close> is a log of \<open>search_note\<close>s each operation returns, and the pool of connections, which only
  grows, is modelled by the connections themselves. Sizing a value, the image of a solved layout, the routes of
  one connection, a provider's measurement, the schedule of a plan, its id and the completion evaluator are
  parameters of the model.
\<close>

section \<open>Data\<close>

record candidate_instance =
  inst_id :: nat
  memoryBindings :: "(string, string) smap"
  portMemoryBindings :: "(port_ref \<times> string) list"
  slots :: nat
  usageBytes :: "(string, nat) smap"

record instance_entry =
  entry_instance :: candidate_instance
  entry_cost :: cost
  coveredNodes :: "nat list"

record node_table =
  table_node :: nat
  table_workload :: workload_node
  table_instances :: "instance_entry list"

record value_endpoint =
  ep_node :: nat
  ep_index :: nat

record value_link =
  link_value :: nat
  link_producers :: "value_endpoint list"
  link_consumers :: "value_endpoint list"

record connection_plan =
  conn_id :: nat
  conn_cost :: cost
  conn_measured :: "double option"

record realization =
  real_plans :: "connection_plan list"
  liveValue :: nat
  liveBytes :: "(string \<times> nat) list"
  stagedBytes :: "(string \<times> nat) list"

text \<open>An instance chosen for a node, by its table and its position in \<^verbatim>\<open>table.instances\<close>.\<close>

type_synonym instance_ref = "nat \<times> nat"

record partial =
  chosen :: "instance_ref option list"
  par_connections :: "connection_plan list"
  linked :: "bool list"
  par_cost :: cost
  lowerBound :: cost
  par_id :: uint64
  covered :: nat
  executorSlots :: nat
  memoryBytes :: "(string, nat) smap"
  liveValueCharges :: "nat \<rightharpoonup> (string \<times> nat) list"

datatype decision_kind = PlainUseGroup | FanOutGroup | GatherGroup

record decision_spec =
  spec_kind :: decision_kind
  spec_link :: nat
  spec_endpoints :: "value_endpoint list"

text \<open>What the search records while it runs: a report, a tally, or the pending error.\<close>

datatype search_note =
    Reported diagnostic_code string
  | RejectedByCapacity
  | IncompatiblePair
  | RoutesFound nat
  | CapHit
  | Expanded
  | Fatal string

text \<open>What route enumeration says of one decision: the cap it hit, the refusal or the missing route, the
  routes it counted and the legal realizations.\<close>

record route_outcome =
  route_cap :: bool
  route_refused :: "diagnostic option"
  route_missing :: "string option"
  route_count :: nat
  product_cap :: bool
  realizations :: "realization list"

datatype search_mode = Deterministic | Beam | Exact

record search_proposal =
  prop_instances :: "nat list"
  prop_connections :: "nat list"
  prop_placements :: "(nat \<times> instance_ref) list"
  accumulatedCost :: cost
  prop_truncated :: bool

record covering_plan =
  plan_id :: nat
  plan_proposal :: search_proposal
  plan_cost :: cost
  materialized :: bool
  physicalComplete :: bool
  scheduled_score :: bool
  storageNotes :: "string list"
  warnings :: "string list"
  physicalReasons :: "string list"
  plan_truncated :: bool

record evaluation =
  eval_plan :: "covering_plan option"
  eval_rejection :: "diagnostic option"

record search_input =
  tables :: "node_table list"
  workload :: workload_graph
  machine :: machine_model
  mode :: search_mode
  beamWidth :: nat
  topK :: nat
  maxRoutesPerConnection :: nat
  maxConnectionCombinations :: nat
  memoryBudgetBytes :: nat
  objective :: objective_order
  requireCompleteEvaluation :: bool
  evaluateCompletePlan :: "(search_proposal \<Rightarrow> (string, evaluation) expected) option"
  tile_bytes :: "workload_value \<Rightarrow> nat option"
  layout_image :: "candidate_instance \<Rightarrow> port_ref \<Rightarrow> (string, nat) expected option"
  use_key :: "candidate_instance \<Rightarrow> value_endpoint \<Rightarrow> string"
  route_choices :: "decision_spec \<Rightarrow> partial \<Rightarrow> route_outcome"
  measured_cycles :: "connection_plan \<Rightarrow> double option"
  schedule_plan :: "search_proposal \<Rightarrow> (string, (string, cost) expected) expected"
  compute_plan_id :: "search_proposal \<Rightarrow> nat"

definition entry_at :: "search_input \<Rightarrow> instance_ref \<Rightarrow> instance_entry" where
  "entry_at inp r = table_instances (tables inp ! fst r) ! snd r"

definition hasEvaluator :: "search_input \<Rightarrow> bool" where
  "hasEvaluator inp \<longleftrightarrow> evaluateCompletePlan inp \<noteq> None"

definition empty_partial :: "search_input \<Rightarrow> partial" where
  "empty_partial inp =
     \<lparr>chosen = replicate (length (tables inp)) None, par_connections = [], linked = [], par_cost = zero_cost,
      lowerBound = infiniteCost, par_id = 0, covered = 0, executorSlots = 0, memoryBytes = [],
      liveValueCharges = Map.empty\<rparr>"

section \<open>Dataflow values\<close>

text \<open>The occurrences of a value on one side, in node and port order: the order \<^verbatim>\<open>canonicalEndpoints\<close> sorts
  into, with each occurrence once.\<close>

definition port_occurrences :: "(workload_node \<Rightarrow> workload_port list) \<Rightarrow> node_table list \<Rightarrow> nat \<Rightarrow> value_endpoint list" where
  "port_occurrences side ts value =
     concat (map (\<lambda>i. map (\<lambda>k. \<lparr>ep_node = i, ep_index = k\<rparr>)
         (filter (\<lambda>k. wp_value (side (table_workload (ts ! i)) ! k) = value)
           [0..<length (side (table_workload (ts ! i)))]))
       [0..<length ts])"

text \<open>A value's link, dropped when one side is empty; a single producer is no consumer of its own value.\<close>

definition link_for :: "node_table list \<Rightarrow> nat \<Rightarrow> value_link option" where
  "link_for ts value =
     (let ps = port_occurrences wn_outputs ts value; cs = port_occurrences wn_inputs ts value in
      if ps = [] \<or> cs = [] then None
      else if length ps = 1 then
        (let others = filter (\<lambda>c. ep_node c \<noteq> ep_node (hd ps)) cs in
         if others = [] then None else Some \<lparr>link_value = value, link_producers = ps, link_consumers = others\<rparr>)
      else Some \<lparr>link_value = value, link_producers = ps, link_consumers = cs\<rparr>)"

definition valueLinks :: "node_table list \<Rightarrow> value_link list" where
  "valueLinks ts =
     List.map_filter (link_for ts)
       (sort (remdups (concat (map (\<lambda>t. map wp_value (wn_outputs (table_workload t) @ wn_inputs (table_workload t))) ts))))"

definition valueInvolves :: "value_link \<Rightarrow> nat \<Rightarrow> bool" where
  "valueInvolves link node \<longleftrightarrow> (\<exists>e \<in> set (link_producers link @ link_consumers link). ep_node e = node)"

section \<open>Sizes\<close>

definition kUnknownValueBytes :: nat where "kUnknownValueBytes = 4096"

definition factsForValue :: "search_input \<Rightarrow> nat \<Rightarrow> nat \<times> search_note list" where
  "factsForValue inp value =
     (case (case findValue (workload inp) value of None \<Rightarrow> None | Some v \<Rightarrow> tile_bytes inp v) of
        Some bytes \<Rightarrow> (bytes, [])
      | None \<Rightarrow> (kUnknownValueBytes,
          [Reported AssumedValueSize (''value '' @ nat_to_string value @ '' ('' @
             in_quotes (case findValue (workload inp) value of None \<Rightarrow> ''<unknown>'' | Some v \<Rightarrow> wv_name v) @
             ''): tile size unknown; assuming 4096 bytes, 32-byte alignment'')]))"

definition portlessBytes :: "search_input \<Rightarrow> workload_node \<Rightarrow> nat \<times> search_note list" where
  "portlessBytes inp node =
     (case wn_inputs node of
        p # _ \<Rightarrow> factsForValue inp (wp_value p)
      | [] \<Rightarrow> (kUnknownValueBytes,
          [Reported AssumedValueSize (''node '' @ nat_to_string (wn_id node) @
             '' has no port to size; assuming 4096 bytes'')]))"

definition physicalBytesForOutput :: "search_input \<Rightarrow> candidate_instance \<Rightarrow> workload_node \<Rightarrow> nat \<Rightarrow> nat \<times> search_note list" where
  "physicalBytesForOutput inp inst node index =
     (let value = wp_value (wn_outputs node ! index) in
      case findValue (workload inp) value of
        None \<Rightarrow> factsForValue inp value
      | Some v \<Rightarrow>
          (case layout_image inp inst \<lparr>ref_node = wn_id node, ref_direction = OutputPort, ref_index = index\<rparr> of
             None \<Rightarrow> factsForValue inp value
           | Some (Inr bytes) \<Rightarrow> (bytes, [])
           | Some (Inl reason) \<Rightarrow> (kUnknownValueBytes,
               [Reported AssumedValueSize (''value '' @ nat_to_string value @ '' ('' @ in_quotes (wv_name v) @
                  ''): unsupported footprint: '' @ reason @ ''; assuming 4096 bytes'')])))"

section \<open>Storage charges\<close>

definition held :: "(string, nat) smap \<Rightarrow> string \<Rightarrow> nat" where
  "held bytes memory = (case map_of bytes memory of None \<Rightarrow> 0 | Some b \<Rightarrow> b)"

definition charge :: "string \<Rightarrow> nat \<Rightarrow> partial \<Rightarrow> partial" where
  "charge memory bytes p =
     p\<lparr>memoryBytes := smap_assign memory (wrap64 (held (memoryBytes p) memory + bytes)) (memoryBytes p)\<rparr>"

text \<open>A charge that a value owes until its last consumer is placed.\<close>

definition charge_live :: "nat \<Rightarrow> string \<Rightarrow> nat \<Rightarrow> partial \<Rightarrow> partial" where
  "charge_live value memory bytes p =
     (charge memory bytes p)\<lparr>liveValueCharges := (liveValueCharges p)(value \<mapsto>
        (case liveValueCharges p value of None \<Rightarrow> [] | Some cs \<Rightarrow> cs) @ [(memory, bytes)])\<rparr>"

text \<open>One output charged to one memory, and every output to the only memory.\<close>

definition charge_output :: "search_input \<Rightarrow> candidate_instance \<Rightarrow> workload_node \<Rightarrow> string \<Rightarrow> nat \<Rightarrow>
    partial \<times> search_note list \<Rightarrow> partial \<times> search_note list" where
  "charge_output inp inst node memory index pn =
     (let (bytes, notes) = physicalBytesForOutput inp inst node index in
      (charge_live (wp_value (wn_outputs node ! index)) memory bytes (fst pn), snd pn @ notes))"

definition charge_outputs :: "search_input \<Rightarrow> candidate_instance \<Rightarrow> workload_node \<Rightarrow> string \<Rightarrow> partial \<Rightarrow> partial \<times> search_note list" where
  "charge_outputs inp inst node memory p =
     fold (charge_output inp inst node memory) [0..<length (wn_outputs node)] (p, [])"

text \<open>The first output charged to each of several memories.\<close>

definition charge_first :: "search_input \<Rightarrow> candidate_instance \<Rightarrow> workload_node \<Rightarrow> string list \<Rightarrow> partial \<Rightarrow> partial \<times> search_note list" where
  "charge_first inp inst node mems p =
     (let (bytes, notes) = physicalBytesForOutput inp inst node 0 in
      (fold (\<lambda>memory. charge_live (wp_value (wn_outputs node ! 0)) memory bytes) mems p, notes))"

text \<open>A node with no output, by its first input.\<close>

definition charge_sink :: "search_input \<Rightarrow> workload_node \<Rightarrow> string list \<Rightarrow> partial \<Rightarrow> partial \<times> search_note list" where
  "charge_sink inp node mems p =
     (let (bytes, notes) = portlessBytes inp node in (fold (\<lambda>memory. charge memory bytes) mems p, notes))"

text \<open>The distinct memories in the order of their first mention.\<close>

definition first_mentions :: "'a list \<Rightarrow> 'a list" where
  "first_mentions xs = rev (remdups (rev xs))"

text \<open>Every output through the memories its own port names: none or several rejects the placement.\<close>

fun charge_named :: "search_input \<Rightarrow> candidate_instance \<Rightarrow> workload_node \<Rightarrow> nat list \<Rightarrow>
    partial \<times> search_note list \<Rightarrow> partial option \<times> search_note list" where
  "charge_named inp inst node [] pn = (Some (fst pn), snd pn)"
| "charge_named inp inst node (index # rest) pn =
     (case filter (\<lambda>b. fst b = \<lparr>ref_node = wn_id node, ref_direction = OutputPort, ref_index = index\<rparr>)
             (portMemoryBindings inst) of
        [b] \<Rightarrow> charge_named inp inst node rest (charge_output inp inst node (snd b) index pn)
      | bs \<Rightarrow> (None, snd pn @
          [Reported MemoryCapacityExceeded (''node '' @ nat_to_string (wn_id node) @ '': output '' @
             nat_to_string index @ '' has '' @
             (if bs = [] then ''no memory association'' else ''several memory associations'') @
             ''; placement is ambiguous and cannot be proven within capacity'')]))"

definition ambiguous :: "workload_node \<Rightarrow> string \<Rightarrow> partial option \<times> search_note list" where
  "ambiguous node what = (None, [Reported MemoryCapacityExceeded (''node '' @ nat_to_string (wn_id node) @ '': '' @
     what @ ''; placement is ambiguous and cannot be proven within capacity'')])"

definition accepted :: "partial \<times> search_note list \<Rightarrow> partial option \<times> search_note list" where
  "accepted pn = (Some (fst pn), snd pn)"

definition charge_memories :: "search_input \<Rightarrow> candidate_instance \<Rightarrow> workload_node \<Rightarrow> partial \<Rightarrow> partial option \<times> search_note list" where
  "charge_memories inp inst node p =
     (let outputs = length (wn_outputs node) in
      if portMemoryBindings inst \<noteq> [] then
        (let mems = first_mentions (map snd (portMemoryBindings inst)) in
         if memoryBindings inst \<noteq> [] then
           ambiguous node ''memory requirements mix named-port and bare associations''
         else if outputs = 0 then accepted (charge_sink inp node mems p)
         else if \<exists>b \<in> set (portMemoryBindings inst). ref_direction (fst b) = OutputPort then
           charge_named inp inst node [0..<outputs] (p, [])
         else if length mems = 1 then accepted (charge_outputs inp inst node (hd mems) p)
         else if outputs > 1 then
           ambiguous node (nat_to_string outputs @ '' outputs with '' @ nat_to_string (length mems) @
             '' named input memories have no output-to-memory association'')
         else accepted (charge_first inp inst node mems p))
      else if memoryBindings inst \<noteq> [] then
        (let mems = map snd (memoryBindings inst) in
         if outputs = 0 then accepted (charge_sink inp node mems p)
         else if length mems = 1 then accepted (charge_outputs inp inst node (hd mems) p)
         else if outputs > 1 then
           ambiguous node (nat_to_string outputs @ '' outputs with '' @ nat_to_string (length mems) @
             '' memory bindings have no output-to-memory association'')
         else accepted (charge_first inp inst node mems p))
      else (Some p, []))"

text \<open>The bytes a rule declares itself, on the memory its kind is bound to or on the raw key.\<close>

definition charge_usage :: "candidate_instance \<Rightarrow> partial \<Rightarrow> partial" where
  "charge_usage inst p =
     fold (\<lambda>(kind, bytes). charge
         (case map_of (memoryBindings inst) kind of
            Some memory \<Rightarrow> if memory = [] then kind else memory
          | None \<Rightarrow> kind) bytes)
       (usageBytes inst) p"

section \<open>Placing an instance\<close>

text \<open>\<^verbatim>\<open>tableIndexByNode\<close>: the last table of a node id.\<close>

definition table_index :: "node_table list \<Rightarrow> nat \<Rightarrow> nat option" where
  "table_index ts node = find (\<lambda>i. table_node (ts ! i) = node) (rev [0..<length ts])"

fun covered_indices :: "node_table list \<Rightarrow> instance_ref option list \<Rightarrow> nat list \<Rightarrow> nat list option" where
  "covered_indices ts chosen_so_far [] = Some []"
| "covered_indices ts chosen_so_far (node # rest) =
     (case table_index ts node of
        None \<Rightarrow> None
      | Some i \<Rightarrow> if chosen_so_far ! i \<noteq> None then None
                 else map_option ((#) i) (covered_indices ts chosen_so_far rest))"

definition assign_chosen :: "instance_ref \<Rightarrow> nat list \<Rightarrow> instance_ref option list \<Rightarrow> instance_ref option list" where
  "assign_chosen r indices cs = fold (\<lambda>i acc. acc[i := Some r]) indices cs"

definition cover_nodes :: "search_input \<Rightarrow> instance_ref \<Rightarrow> partial \<Rightarrow> partial option" where
  "cover_nodes inp r p =
     map_option (\<lambda>indices. p\<lparr>chosen := assign_chosen r indices (chosen p), covered := covered p + length indices\<rparr>)
       (covered_indices (tables inp) (chosen p) (coveredNodes (entry_at inp r)))"

definition placeInstance :: "search_input \<Rightarrow> instance_ref \<Rightarrow> partial \<Rightarrow> partial option \<times> search_note list" where
  "placeInstance inp r p =
     (let inst = entry_instance (entry_at inp r) in
      case cover_nodes inp r p of
        None \<Rightarrow> (None, [])
      | Some q \<Rightarrow>
          (let q' = q\<lparr>executorSlots := wrap64 (executorSlots q + slots inst),
                 linked := (if length (linked q) \<noteq> length (valueLinks (tables inp))
                            then replicate (length (valueLinks (tables inp))) False else linked q)\<rparr>;
               (charged, notes) = charge_memories inp inst (table_workload (tables inp ! fst r)) q' in
           (map_option (charge_usage inst) charged, notes)))"

section \<open>Capacity and release\<close>

fun capacity_of :: "search_input \<Rightarrow> (string \<times> nat) list \<Rightarrow> nat \<Rightarrow> bool \<times> search_note list" where
  "capacity_of inp [] total_bytes =
     (if \<not> hasEvaluator inp \<and> memoryBudgetBytes inp < total_bytes then
        (False, [RejectedByCapacity, Reported MemoryCapacityExceeded
          (''plan byte total exceeds the global budget ('' @ nat_to_string (memoryBudgetBytes inp) @ '' bytes)'')])
      else (True, []))"
| "capacity_of inp ((memory, bytes) # rest) total_bytes =
     (case findMemory (machine inp) memory of
        None \<Rightarrow> (False, [Fatal (''covering search: plan binds unknown memory '' @ in_quotes memory)])
      | Some m \<Rightarrow>
          if \<not> hasEvaluator inp \<and> capacityBytes m < bytes then
            (False, [RejectedByCapacity, Reported MemoryCapacityExceeded
              (''memory '' @ in_quotes memory @ '' over capacity ('' @ nat_to_string (capacityBytes m) @ '' bytes)'')])
          else capacity_of inp rest (wrap64 (total_bytes + bytes)))"

definition capacityOk :: "search_input \<Rightarrow> partial \<Rightarrow> bool \<times> search_note list" where
  "capacityOk inp p = capacity_of inp (memoryBytes p) 0"

definition release_charge :: "string \<times> nat \<Rightarrow> (string, nat) smap \<Rightarrow> (string, nat) smap" where
  "release_charge c bytes =
     smap_assign (fst c) (wrap64 (held bytes (fst c) + (18446744073709551616 - snd c))) bytes"

definition release_link :: "search_input \<Rightarrow> nat \<Rightarrow> partial \<Rightarrow> partial" where
  "release_link inp index p =
     (let value = link_value (valueLinks (tables inp) ! index) in
      case liveValueCharges p value of
        None \<Rightarrow> p
      | Some charges \<Rightarrow>
          p\<lparr>memoryBytes := fold release_charge charges (memoryBytes p),
            liveValueCharges := (liveValueCharges p)(value := None)\<rparr>)"

definition releaseCompleted :: "search_input \<Rightarrow> nat list \<Rightarrow> partial \<Rightarrow> partial" where
  "releaseCompleted inp = fold (release_link inp)"

section \<open>Connection decisions\<close>

definition link_complete :: "instance_ref option list \<Rightarrow> value_link \<Rightarrow> bool" where
  "link_complete cs link \<longleftrightarrow> (\<forall>e \<in> set (link_producers link @ link_consumers link). cs ! ep_node e \<noteq> None)"

text \<open>A link between several nodes one instance covers is inside that instance.\<close>

definition link_internal :: "instance_ref option list \<Rightarrow> value_link \<Rightarrow> bool" where
  "link_internal cs link \<longleftrightarrow>
     (let nodes = remdups (map ep_node (link_producers link @ link_consumers link)) in
      length nodes > 1 \<and> (\<forall>n \<in> set nodes. cs ! n = cs ! hd nodes))"

text \<open>\<^verbatim>\<open>addToUseGroup\<close>: occurrences whose keys agree form one group, in the order of its first.\<close>

fun add_to_use_group :: "string \<Rightarrow> value_endpoint \<Rightarrow> (string \<times> value_endpoint list) list \<Rightarrow> (string \<times> value_endpoint list) list" where
  "add_to_use_group k e [] = [(k, [e])]"
| "add_to_use_group k e ((k', es) # groups) =
     (if k = k' then (k', es @ [e]) # groups else (k', es) # add_to_use_group k e groups)"

definition use_groups :: "search_input \<Rightarrow> instance_ref option list \<Rightarrow> value_endpoint list \<Rightarrow> value_endpoint list list" where
  "use_groups inp cs consumers =
     map snd (fold (\<lambda>e. add_to_use_group (use_key inp (entry_instance (entry_at inp (the (cs ! ep_node e)))) e) e) consumers [])"

definition link_specs :: "search_input \<Rightarrow> instance_ref option list \<Rightarrow> nat \<Rightarrow> value_link \<Rightarrow> decision_spec list" where
  "link_specs inp cs index link =
     (if length (link_producers link) = 1 then
        if \<exists>c \<in> set (tl (link_consumers link)). ep_node c \<noteq> ep_node (hd (link_consumers link)) then
          [\<lparr>spec_kind = FanOutGroup, spec_link = index, spec_endpoints = link_consumers link\<rparr>]
        else map (\<lambda>g. \<lparr>spec_kind = PlainUseGroup, spec_link = index, spec_endpoints = g\<rparr>)
               (use_groups inp cs (link_consumers link))
      else map (\<lambda>g. \<lparr>spec_kind = GatherGroup, spec_link = index, spec_endpoints = g\<rparr>)
             (use_groups inp cs (link_consumers link)))"

record decisions =
  dec_linked :: "bool list"
  dec_specs :: "decision_spec list"
  dec_completed :: "nat list"
  dec_notes :: "search_note list"

definition decide_link :: "search_input \<Rightarrow> instance_ref option list \<Rightarrow> nat \<Rightarrow> nat \<Rightarrow> decisions \<Rightarrow> decisions" where
  "decide_link inp cs node index d =
     (let link = valueLinks (tables inp) ! index in
      if dec_linked d ! index then d
      else if \<not> valueInvolves link node then d
      else if \<not> link_complete cs link then d
      else let d' = d\<lparr>dec_linked := (dec_linked d)[index := True]\<rparr> in
        if link_internal cs link then d'
        else let (bytes, notes) = factsForValue inp (link_value link) in
          if bytes = 0 then d'\<lparr>dec_notes := dec_notes d @ notes\<rparr>
          else d'\<lparr>dec_notes := dec_notes d @ notes, dec_completed := dec_completed d @ [index],
                 dec_specs := dec_specs d @ link_specs inp cs index link\<rparr>)"

definition buildDecisionSpecs :: "search_input \<Rightarrow> partial \<Rightarrow> nat \<Rightarrow> decisions" where
  "buildDecisionSpecs inp p node =
     fold (decide_link inp (chosen p) node) [0..<length (valueLinks (tables inp))]
       \<lparr>dec_linked = linked p, dec_specs = [], dec_completed = [], dec_notes = []\<rparr>"

text \<open>The realizations of one decision, and what their enumeration reports: the facts of the value once more, then the
  outcome of the router.\<close>

definition cap_notes :: "string \<Rightarrow> search_note list" where
  "cap_notes what = [CapHit, Reported SearchTruncated what]"

definition specAlternatives :: "search_input \<Rightarrow> decision_spec \<Rightarrow> partial \<Rightarrow> realization list \<times> search_note list" where
  "specAlternatives inp spec p =
     (let facts = snd (factsForValue inp (link_value (valueLinks (tables inp) ! spec_link spec)));
          oc = route_choices inp spec p;
          truncated = (if route_cap oc then cap_notes (''route cap reached (maxRoutesPerConnection='' @
            nat_to_string (maxRoutesPerConnection inp) @ '')'') else []) in
      case route_refused oc of
        Some (code, message) \<Rightarrow> ([], facts @ truncated @ [Reported code message])
      | None \<Rightarrow>
          (case route_missing oc of
             Some message \<Rightarrow> ([], facts @ truncated @ [IncompatiblePair, Reported NoMemoryRoute message])
           | None \<Rightarrow>
               (realizations oc, facts @ truncated @ [RoutesFound (route_count oc)] @
                  (if product_cap oc then cap_notes (''connection choice cap reached (maxConnectionCombinations='' @
                    nat_to_string (maxConnectionCombinations inp) @ '')'') else []))))"

definition realizationCost :: "realization \<Rightarrow> cost" where
  "realizationCost r = fold (\<lambda>plan c. addCost c (conn_cost plan)) (real_plans r) zero_cost"

definition sortDecision :: "search_input \<Rightarrow> realization list \<Rightarrow> realization list" where
  "sortDecision inp = sort_by (\<lambda>l r. costLess (realizationCost l) (realizationCost r) (objective inp))"

definition effective_plan :: "search_input \<Rightarrow> connection_plan \<Rightarrow> connection_plan" where
  "effective_plan inp plan =
     (case measured_cycles inp plan of
        None \<Rightarrow> plan
      | Some m \<Rightarrow> plan\<lparr>conn_cost := (conn_cost plan)\<lparr>latencyCycles := m\<rparr>, conn_measured := Some m\<rparr>)"

definition applyRealization :: "search_input \<Rightarrow> realization \<Rightarrow> partial \<Rightarrow> partial" where
  "applyRealization inp r p =
     (let plans = map (effective_plan inp) (real_plans r);
          costed = p\<lparr>par_cost := fold (\<lambda>plan c. addCost c (conn_cost plan)) plans (par_cost p)\<rparr>;
          live = fold (\<lambda>(memory, bytes). charge_live (liveValue r) memory bytes) (liveBytes r) costed in
      fold (\<lambda>(memory, bytes). charge memory bytes) (stagedBytes r) live)"

section \<open>Extending a partial cover\<close>

text \<open>The depth-first product over the decisions. \<open>joint\<close> holds what the recursion assigns: the leaves it
  examined, whether the cap stopped it, the branches and the log.\<close>

record joint =
  examined :: nat
  capped :: bool
  branches :: "partial list"
  joint_notes :: "search_note list"

definition partialId :: "search_input \<Rightarrow> instance_ref option list \<Rightarrow> uint64" where
  "partialId inp cs =
     stableHashBytes kFnvOffsetBasis (concat (map (\<lambda>i. le_bytes (of_nat i))
       (sort (map (\<lambda>r. inst_id (entry_instance (entry_at inp r))) (List.map_filter id cs)))))"

text \<open>A leaf that fits its memories releases what its placement completed and publishes its connections.\<close>

definition finish_leaf :: "search_input \<Rightarrow> nat list \<Rightarrow> partial \<Rightarrow> connection_plan list \<Rightarrow> partial option \<times> search_note list" where
  "finish_leaf inp completed p staged =
     (let (ok, notes) = capacityOk inp p in
      if \<not> ok then (None, notes)
      else let q = releaseCompleted inp completed p in
        (Some (q\<lparr>par_connections := par_connections q @ staged, par_id := partialId inp (chosen q)\<rparr>),
         notes @ [Expanded]))"

definition examine_leaf :: "search_input \<Rightarrow> nat list \<Rightarrow> partial \<Rightarrow> connection_plan list \<Rightarrow> joint \<Rightarrow> joint" where
  "examine_leaf inp completed p staged j =
     (if examined j = maxConnectionCombinations inp then j\<lparr>capped := True\<rparr>
      else let (leaf, notes) = finish_leaf inp completed p staged in
        j\<lparr>examined := examined j + 1,
          branches := branches j @ (case leaf of None \<Rightarrow> [] | Some q \<Rightarrow> [q]),
          joint_notes := joint_notes j @ notes\<rparr>)"

primrec step :: "search_input \<Rightarrow> nat list \<Rightarrow> decision_spec list \<Rightarrow> partial \<Rightarrow> connection_plan list \<Rightarrow> joint \<Rightarrow> joint" where
  "step inp completed [] p staged j = (if capped j then j else examine_leaf inp completed p staged j)"
| "step inp completed (spec # specs) p staged j =
     (if capped j then j
      else let (alternatives, notes) = specAlternatives inp spec p in
        fold (\<lambda>r j. if capped j then j
              else step inp completed specs (applyRealization inp r p)
                     (staged @ map (effective_plan inp) (real_plans r)) j)
          (sortDecision inp alternatives) (j\<lparr>joint_notes := joint_notes j @ notes\<rparr>))"

definition extendStates :: "search_input \<Rightarrow> partial \<Rightarrow> instance_ref \<Rightarrow> partial list \<times> search_note list" where
  "extendStates inp parent r =
     (case placeInstance inp r parent of
        (None, notes) \<Rightarrow> ([], notes)
      | (Some placed, notes) \<Rightarrow>
          (let base = placed\<lparr>par_cost := addCost (par_cost placed) (entry_cost (entry_at inp r))\<rparr>;
               d = buildDecisionSpecs inp base (fst r);
               j = step inp (dec_completed d) (dec_specs d) (base\<lparr>linked := dec_linked d\<rparr>) []
                     \<lparr>examined = 0, capped = False, branches = [], joint_notes = []\<rparr> in
           (branches j, notes @ dec_notes d @ joint_notes j @
              (if capped j then cap_notes (''connection choice cap reached (maxConnectionCombinations='' @
                 nat_to_string (maxConnectionCombinations inp) @ '')'') else []))))"

section \<open>Bounds\<close>

definition best_entry :: "search_input \<Rightarrow> instance_entry list \<Rightarrow> cost option" where
  "best_entry inp entries =
     fold (\<lambda>entry best. Some (case best of None \<Rightarrow> entry_cost entry
         | Some b \<Rightarrow> bestCostForObjective b (entry_cost entry) (objective inp))) entries None"

fun bound_from :: "search_input \<Rightarrow> instance_ref option list \<Rightarrow> nat list \<Rightarrow> cost \<Rightarrow> cost" where
  "bound_from inp cs [] acc = acc"
| "bound_from inp cs (i # rest) acc =
     (if cs ! i \<noteq> None then bound_from inp cs rest acc
      else case best_entry inp (table_instances (tables inp ! i)) of
             None \<Rightarrow> infiniteCost
           | Some best \<Rightarrow> bound_from inp cs rest (addCost acc best))"

definition boundCost :: "search_input \<Rightarrow> partial \<Rightarrow> cost" where
  "boundCost inp p = bound_from inp (chosen p) [0..<length (tables inp)] (par_cost p)"

definition lowestUncovered :: "search_input \<Rightarrow> partial \<Rightarrow> nat option" where
  "lowestUncovered inp p = find (\<lambda>i. chosen p ! i = None) [0..<length (tables inp)]"

section \<open>Retaining complete plans\<close>

text \<open>The log as the search's result: its pending error, its flags and its tallies.\<close>

fun pending_error :: "search_note list \<Rightarrow> string option" where
  "pending_error [] = None"
| "pending_error (Fatal e # notes) = Some e"
| "pending_error (_ # notes) = pending_error notes"

definition searchTruncated :: "search_note list \<Rightarrow> bool" where
  "searchTruncated notes \<longleftrightarrow> CapHit \<in> set notes"

text \<open>The selection of a complete cover. A placement is named by the index of its node's table and its instance;
  the facts a materializer reads are copies of what the instance holds.\<close>

definition buildProposal :: "search_input \<Rightarrow> search_note list \<Rightarrow> partial \<Rightarrow> search_proposal" where
  "buildProposal inp notes p =
     \<lparr>prop_instances = sort (map (\<lambda>r. inst_id (entry_instance (entry_at inp r))) (List.map_filter id (chosen p))),
      prop_connections = sort (map conn_id (par_connections p)),
      prop_placements = List.map_filter (\<lambda>i. map_option (Pair i) (chosen p ! i)) [0..<length (chosen p)],
      accumulatedCost = par_cost p,
      prop_truncated = searchTruncated notes\<rparr>"

definition partial_report :: "covering_plan \<Rightarrow> string" where
  "partial_report plan = ''analysis_incomplete: partial report is not rankable'' @
     concat (map (\<lambda>s. ''; '' @ s) (warnings plan @ physicalReasons plan))"

definition unevaluated_plan :: "search_input \<Rightarrow> search_proposal \<Rightarrow> covering_plan" where
  "unevaluated_plan inp proposal =
     (let (score, note) = (case schedule_plan inp proposal of
          Inl e \<Rightarrow> (None, [''plan score: accumulation reported, not scheduled (the plan'' @ CHR 0x27 #
            ''s events could not be built: '' @ e @ '')''])
        | Inr (Inl e) \<Rightarrow> (None, [''plan score: accumulation reported, not scheduled (the shared schedule failed: '' @ e @ '')''])
        | Inr (Inr c) \<Rightarrow> (Some c, [])) in
      \<lparr>plan_id = compute_plan_id inp proposal, plan_proposal = proposal,
       plan_cost = (case score of None \<Rightarrow> accumulatedCost proposal | Some c \<Rightarrow> c), materialized = False,
       physicalComplete = False, scheduled_score = (score \<noteq> None), storageNotes = note, warnings = [], physicalReasons = [],
       plan_truncated = prop_truncated proposal\<rparr>)"

definition retain :: "search_input \<Rightarrow> search_note list \<Rightarrow> partial \<Rightarrow> covering_plan option \<times> search_note list" where
  "retain inp notes p =
     (let proposal = buildProposal inp notes p in
      case evaluateCompletePlan inp of
        None \<Rightarrow> (Some (unevaluated_plan inp proposal), [])
      | Some evaluate \<Rightarrow>
          (case evaluate proposal of
             Inl e \<Rightarrow> (None, [Fatal e])
           | Inr ev \<Rightarrow>
               (case (eval_plan ev, eval_rejection ev) of
                  (Some _, Some _) \<Rightarrow>
                    (None, [Fatal ''covering search: the completion evaluator returned both a plan and a rejection''])
                | (None, Some (code, message)) \<Rightarrow>
                    (None, (if code = MemoryCapacityExceeded then [RejectedByCapacity] else []) @ [Reported code message])
                | (None, None) \<Rightarrow>
                    (None, [Fatal ''covering search: the completion evaluator returned neither a plan nor a rejection''])
                | (Some plan, None) \<Rightarrow>
                    if \<not> materialized plan \<or> \<not> physicalComplete plan
                    then (None, [Reported UnsupportedMaterialization (partial_report plan)])
                    else (Some plan, []))))"

section \<open>The depth-first walk\<close>

text \<open>Deterministic and exact share the walk. The recursion goes one placement deeper at each call; \<open>fuel\<close>
  bounds its depth, and \<open>None\<close> says that the bound was too small.\<close>

record walk_state =
  search_log :: "search_note list"
  retained :: "covering_plan list"
  halted :: bool

fun fold_option :: "('a \<Rightarrow> 'b \<Rightarrow> 'b option) \<Rightarrow> 'a list \<Rightarrow> 'b \<Rightarrow> 'b option" where
  "fold_option f [] b = Some b"
| "fold_option f (x # xs) b = (case f x b of None \<Rightarrow> None | Some b' \<Rightarrow> fold_option f xs b')"

definition retain_leaf :: "search_input \<Rightarrow> bool \<Rightarrow> partial \<Rightarrow> walk_state \<Rightarrow> walk_state" where
  "retain_leaf inp exact p w =
     (let (plan, notes) = retain inp (search_log w) p;
          w' = w\<lparr>search_log := search_log w @ notes, retained := retained w @ (case plan of None \<Rightarrow> [] | Some x \<Rightarrow> [x])\<rparr> in
      if pending_error (search_log w') \<noteq> None then w'\<lparr>halted := True\<rparr>
      else if \<not> exact \<and> plan \<noteq> None then w'\<lparr>halted := True\<rparr>
      else w')"

definition visit_entry :: "search_input \<Rightarrow> (partial \<Rightarrow> walk_state \<Rightarrow> walk_state option) \<Rightarrow> partial \<Rightarrow> nat \<Rightarrow> nat \<Rightarrow>
    walk_state \<Rightarrow> walk_state option" where
  "visit_entry inp visit_branch p node k w =
     (if halted w then Some w
      else let (states, notes) = extendStates inp p (node, k) in
        fold_option (\<lambda>branch w. if halted w then Some w else visit_branch branch w) states (w\<lparr>search_log := search_log w @ notes\<rparr>))"

primrec walk_visit :: "search_input \<Rightarrow> bool \<Rightarrow> nat \<Rightarrow> partial \<Rightarrow> walk_state \<Rightarrow> walk_state option" where
  "walk_visit inp exact 0 = (\<lambda>p w. None)"
| "walk_visit inp exact (Suc fuel) = (\<lambda>p w.
     if halted w then Some w
     else case lowestUncovered inp p of
       None \<Rightarrow> Some (retain_leaf inp exact p w)
     | Some node \<Rightarrow>
         fold_option (visit_entry inp (walk_visit inp exact fuel) p node) [0..<length (table_instances (tables inp ! node))] w)"

definition walk_start :: walk_state where
  "walk_start = \<lparr>search_log = [], retained = [], halted = False\<rparr>"

text \<open>Each placement covers a node, so a depth of one more than the nodes is enough.\<close>

definition depth_first :: "search_input \<Rightarrow> bool \<Rightarrow> walk_state option" where
  "depth_first inp exact = walk_visit inp exact (Suc (length (tables inp))) (empty_partial inp) walk_start"

section \<open>The beam\<close>

definition beam_before :: "search_input \<Rightarrow> partial \<Rightarrow> partial \<Rightarrow> bool" where
  "beam_before inp lhs rhs =
     (if boundIsBetterThan (lowerBound lhs) (lowerBound rhs) (objective inp) then True
      else if boundIsBetterThan (lowerBound rhs) (lowerBound lhs) (objective inp) then False
      else if covered lhs \<noteq> covered rhs then covered rhs < covered lhs
      else par_id lhs < par_id rhs)"

definition beam_extend :: "search_input \<Rightarrow> partial \<Rightarrow> partial list \<times> search_note list \<Rightarrow> partial list \<times> search_note list" where
  "beam_extend inp p acc =
     (case lowestUncovered inp p of
        None \<Rightarrow> acc
      | Some node \<Rightarrow>
          fold (\<lambda>k acc. let (states, notes) = extendStates inp p (node, k) in
              (fst acc @ map (\<lambda>q. q\<lparr>lowerBound := boundCost inp q\<rparr>) states, snd acc @ notes))
            [0..<length (table_instances (tables inp ! node))] acc)"

definition beam_level :: "search_input \<Rightarrow> partial list \<Rightarrow> search_note list \<Rightarrow> partial list \<times> search_note list" where
  "beam_level inp beam notes =
     (let (next_states, notes') = fold (beam_extend inp) beam ([], notes);
          ranked = sort_by (beam_before inp) next_states in
      if beamWidth inp < length ranked then
        (take (beamWidth inp) ranked, notes' @ cap_notes (''beam width reached (beamWidth='' @
           nat_to_string (beamWidth inp) @ '')''))
      else (ranked, notes'))"

primrec beam_levels :: "search_input \<Rightarrow> nat \<Rightarrow> partial list \<Rightarrow> search_note list \<Rightarrow> partial list \<times> search_note list" where
  "beam_levels inp 0 beam notes = (beam, notes)"
| "beam_levels inp (Suc depth) beam notes =
     (let (beam', notes') = beam_level inp beam notes in
      if beam' = [] then (beam', notes') else beam_levels inp depth beam' notes')"

definition beam_retain :: "search_input \<Rightarrow> partial \<Rightarrow> walk_state \<Rightarrow> walk_state" where
  "beam_retain inp p w =
     (if pending_error (search_log w) \<noteq> None then w
      else if lowestUncovered inp p \<noteq> None then w
      else let (plan, notes) = retain inp (search_log w) p in
        w\<lparr>search_log := search_log w @ notes, retained := retained w @ (case plan of None \<Rightarrow> [] | Some x \<Rightarrow> [x])\<rparr>)"

definition beam_search :: "search_input \<Rightarrow> walk_state" where
  "beam_search inp =
     (let (beam, notes) = beam_levels inp (length (tables inp)) [empty_partial inp] [] in
      fold (beam_retain inp) beam (walk_start\<lparr>search_log := notes\<rparr>))"

section \<open>The search\<close>

record failure_frontier =
  incompatibleInstancePairs :: nat
  plansRejectedByCapacity :: nat
  diagnostics :: "diagnostic list"
  codeCounts :: "diagnostic_code \<Rightarrow> nat"

record search_result =
  plans :: "covering_plan list"
  result_truncated :: bool
  frontier :: failure_frontier
  expandedStates :: nat
  routeCount :: nat
  planCount :: nat

definition reported :: "search_note list \<Rightarrow> diagnostic list" where
  "reported notes = List.map_filter (\<lambda>n. case n of Reported code message \<Rightarrow> Some (code, message) | _ \<Rightarrow> None) notes"

definition count_notes :: "(search_note \<Rightarrow> bool) \<Rightarrow> search_note list \<Rightarrow> nat" where
  "count_notes P notes = length (filter P notes)"

definition tally :: "search_note list \<Rightarrow> failure_frontier" where
  "tally notes =
     \<lparr>incompatibleInstancePairs = count_notes ((=) IncompatiblePair) notes,
      plansRejectedByCapacity = count_notes ((=) RejectedByCapacity) notes,
      diagnostics = sort_by diagnosticLess (first_mentions (reported notes)),
      codeCounts = (\<lambda>code. length (filter (\<lambda>d. fst d = code) (reported notes)))\<rparr>"

definition routes_found :: "search_note list \<Rightarrow> nat" where
  "routes_found notes = sum_list (List.map_filter (\<lambda>n. case n of RoutesFound k \<Rightarrow> Some k | _ \<Rightarrow> None) notes)"

definition plan_before :: "search_input \<Rightarrow> covering_plan \<Rightarrow> covering_plan \<Rightarrow> bool" where
  "plan_before inp lhs rhs = ranksBefore (plan_cost lhs) (plan_id lhs) (plan_cost rhs) (plan_id rhs) (objective inp)"

definition retain_best :: "search_input \<Rightarrow> covering_plan list \<Rightarrow> covering_plan list" where
  "retain_best inp ps =
     (let ranked = sort_by (plan_before inp) ps in
      if topK inp \<noteq> 0 \<and> topK inp < length ps then take (topK inp) ranked else ranked)"

definition finish_search :: "search_input \<Rightarrow> walk_state \<Rightarrow> (string, search_result) expected" where
  "finish_search inp w =
     (case pending_error (search_log w) of
        Some e \<Rightarrow> Inl e
      | None \<Rightarrow>
          (let cut = topK inp \<noteq> 0 \<and> topK inp < length (retained w);
               notes = search_log w @ (if cut then cap_notes (''top-K cap reached (topK='' @ nat_to_string (topK inp) @ '')'') else []) in
           Inr \<lparr>plans = map (\<lambda>p. p\<lparr>plan_truncated := searchTruncated notes\<rparr>) (retain_best inp (retained w)),
             result_truncated = searchTruncated notes, frontier = tally notes,
             expandedStates = count_notes ((=) Expanded) notes, routeCount = routes_found notes,
             planCount = length (retained w)\<rparr>))"

text \<open>\<open>None\<close> stands for a walk that needs more than the depth bound.\<close>

definition search :: "search_input \<Rightarrow> (string, search_result) expected option" where
  "search inp =
     (if requireCompleteEvaluation inp \<and> \<not> hasEvaluator inp then
        Some (Inl ''covering search: requireCompleteEvaluation is set but no evaluateCompletePlan callback was supplied'')
      else if mode inp = Beam then Some (finish_search inp (beam_search inp))
      else map_option (finish_search inp) (depth_first inp (mode inp = Exact)))"

end
