(* ===== verification/CoveringCorrect.thy ===== *)
theory CoveringCorrect
  imports CoveringSearch
begin

text \<open>
  The properties of the covering search of \<open>CoveringSearch\<close>: every retained plan is an exact cover, the walk
  ends and the exact one finds every cover, the deterministic one takes the first plan of the exact one, the
  connection cap keeps a prefix of the full product, the top plans are the best, and the beam never keeps a
  cover that uses a fused instance.
\<close>

section \<open>Shared facts\<close>

text \<open>An instance reference is a pair that is never taken apart here.\<close>

declare split_paired_All [simp del] split_paired_Ex [simp del]

lemma fold_option_inv:
  assumes "fold_option f xs b = Some b'" "I b"
    and "\<And>x b b'. x \<in> set xs \<Longrightarrow> I b \<Longrightarrow> f x b = Some b' \<Longrightarrow> I b'"
  shows "I b'"
  using assms
proof (induction xs arbitrary: b)
  case Nil
  then show ?case by simp
next
  case (Cons x xs)
  then obtain c where "f x b = Some c" "fold_option f xs c = Some b'" by (auto split: option.splits)
  moreover have "I c" using Cons.prems calculation by (meson list.set_intros(1))
  ultimately show ?case using Cons.IH [of c] Cons.prems(3) by (meson list.set_intros(2))
qed

lemma fold_option_total: "(\<And>x b. x \<in> set xs \<Longrightarrow> f x b \<noteq> None) \<Longrightarrow> fold_option f xs b \<noteq> None"
  by (induction xs arbitrary: b) (auto split: option.splits)

section \<open>Capacity\<close>

text \<open>A leaf passes exactly when every memory is known and, without an evaluator, none is over its capacity and
  the total of the plan is within the budget.\<close>

lemma capacity_of_exact:
  "fst (capacity_of inp kvs t) \<longleftrightarrow>
     (\<forall>(memory, bytes) \<in> set kvs. case findMemory (machine inp) memory of None \<Rightarrow> False
        | Some m \<Rightarrow> hasEvaluator inp \<or> bytes \<le> capacityBytes m) \<and>
     (hasEvaluator inp \<or> fold (\<lambda>kv t. wrap64 (t + snd kv)) kvs t \<le> memoryBudgetBytes inp)"
  by (induction inp kvs t rule: capacity_of.induct) (auto split: option.split)

text \<open>A branch comes from a state that fits, before its completed values are released.\<close>

lemma finish_leaf_fits:
  "finish_leaf inp completed p staged = (Some q, said) \<Longrightarrow>
     fst (capacityOk inp p) \<and> memoryBytes q = memoryBytes (releaseCompleted inp completed p)"
  by (auto simp: finish_leaf_def Let_def split: prod.splits if_splits)


section \<open>What an extension changes\<close>

lemma chosen_charge [simp]: "chosen (charge m b p) = chosen p"
  by (simp add: charge_def)

lemma chosen_charge_live [simp]: "chosen (charge_live v m b p) = chosen p"
  by (simp add: charge_live_def)

lemma chosen_fold [simp]:
  assumes "\<And>x p. chosen (f x p) = chosen p"
  shows "chosen (fold f xs p) = chosen p"
  using assms by (induction xs arbitrary: p) simp_all

lemma chosen_charge_output [simp]: "chosen (fst (charge_output inp inst node m i pn)) = chosen (fst pn)"
  by (simp add: charge_output_def split: prod.split)

lemma chosen_charge_outputs [simp]: "chosen (fst (charge_outputs inp inst node m p)) = chosen p"
proof -
  have "chosen (fst (fold (charge_output inp inst node m) ks pn)) = chosen (fst pn)" for ks pn
    by (induction ks arbitrary: pn) simp_all
  then show ?thesis by (simp add: charge_outputs_def)
qed

lemma chosen_charge_first [simp]: "chosen (fst (charge_first inp inst node ms p)) = chosen p"
  by (simp add: charge_first_def split: prod.split)

lemma chosen_charge_sink [simp]: "chosen (fst (charge_sink inp node ms p)) = chosen p"
  by (simp add: charge_sink_def split: prod.split)

lemma chosen_charge_named:
  "charge_named inp inst node ks pn = (Some q, said) \<Longrightarrow> chosen q = chosen (fst pn)"
  by (induction inp inst node ks pn rule: charge_named.induct) (auto split: list.splits)

lemma chosen_charge_memories:
  "charge_memories inp inst node p = (Some q, said) \<Longrightarrow> chosen q = chosen p"
  by (auto simp: charge_memories_def Let_def accepted_def ambiguous_def split: if_splits dest: chosen_charge_named)

lemma chosen_charge_usage [simp]: "chosen (charge_usage inst p) = chosen p"
  by (simp add: charge_usage_def split_def)

lemma chosen_apply [simp]: "chosen (applyRealization inp r p) = chosen p"
  by (simp add: applyRealization_def Let_def split_def)

lemma chosen_release [simp]: "chosen (releaseCompleted inp ks p) = chosen p"
  by (simp add: releaseCompleted_def release_link_def Let_def split: option.split)

lemma chosen_finish: "finish_leaf inp ks p staged = (Some q, said) \<Longrightarrow> chosen q = chosen p"
  by (auto simp: finish_leaf_def Let_def split: prod.splits if_splits)

text \<open>Every branch a placement opens keeps the covers of the placement.\<close>

lemma step_keeps:
  "q \<in> set (branches (step inp done_links specs p staged j)) \<Longrightarrow> q \<in> set (branches j) \<or> chosen q = chosen p"
proof (induction specs arbitrary: p staged j)
  case Nil
  then show ?case
    by (auto simp: examine_leaf_def split: if_splits prod.splits option.splits dest: chosen_finish)
next
  case (Cons spec specs)
  have fold_keeps: "q \<in> set (branches (fold (\<lambda>r j. if capped j then j
          else step inp done_links specs (applyRealization inp r p) (staged @ map (effective_plan inp) (real_plans r)) j) rs j'))
      \<Longrightarrow> q \<in> set (branches j') \<or> chosen q = chosen p" for rs j'
  proof (induction rs arbitrary: j')
    case Nil
    then show ?case by simp
  next
    case (Cons r rs)
    let ?j = "if capped j' then j' else step inp done_links specs (applyRealization inp r p)
      (staged @ map (effective_plan inp) (real_plans r)) j'"
    from Cons have "q \<in> set (branches ?j) \<or> chosen q = chosen p" by simp
    with \<open>\<And>p staged j. q \<in> set (branches (step inp done_links specs p staged j)) \<Longrightarrow> q \<in> set (branches j) \<or> chosen q = chosen p\<close>
      [of "applyRealization inp r p" _ j']
    show ?case by (auto split: if_splits)
  qed
  obtain alternatives said where alts: "specAlternatives inp spec p = (alternatives, said)" by (cases "specAlternatives inp spec p")
  show ?case
  proof (cases "capped j")
    case True
    with Cons.prems show ?thesis by simp
  next
    case False
    with Cons.prems alts have "q \<in> set (branches (fold (\<lambda>r j. if capped j then j
          else step inp done_links specs (applyRealization inp r p) (staged @ map (effective_plan inp) (real_plans r)) j)
          (sortDecision inp alternatives) (j\<lparr>joint_notes := joint_notes j @ said\<rparr>)))" by simp
    from fold_keeps [OF this] show ?thesis by simp
  qed
qed

lemma extension_covers:
  assumes "q \<in> set (fst (extendStates inp p r))"
  shows "\<exists>indices. covered_indices (tables inp) (chosen p) (coveredNodes (entry_at inp r)) = Some indices \<and>
    chosen q = assign_chosen r indices (chosen p)"
proof -
  obtain placed said where placed: "placeInstance inp r p = (Some placed, said)"
    using assms by (auto simp: extendStates_def split: prod.splits option.splits)
  with assms have "chosen q = chosen placed"
    by (auto simp: extendStates_def Let_def dest!: step_keeps)
  moreover obtain c where c: "cover_nodes inp r p = Some c" and placed_c: "chosen placed = chosen c"
    using placed by (auto simp: placeInstance_def Let_def split: option.splits prod.splits dest!: chosen_charge_memories)
  ultimately show ?thesis by (auto simp: cover_nodes_def)
qed

lemma nth_assign_chosen:
  "i < length cs \<Longrightarrow> assign_chosen r indices cs ! i = (if i \<in> set indices then Some r else cs ! i)"
  unfolding assign_chosen_def by (induction indices arbitrary: cs) (auto simp: nth_list_update)

lemma length_assign_chosen [simp]: "length (assign_chosen r indices cs) = length cs"
  unfolding assign_chosen_def by (induction indices arbitrary: cs) auto

lemma table_index_Some:
  "table_index ts node = Some i \<Longrightarrow> i < length ts \<and> table_node (ts ! i) = node"
  unfolding table_index_def by (auto simp: find_Some_iff rev_nth)

lemma covered_indices_Some:
  "covered_indices ts cs nodes = Some indices \<longleftrightarrow>
     map (table_index ts) nodes = map Some indices \<and> (\<forall>i \<in> set indices. cs ! i = None)"
  by (induction ts cs nodes arbitrary: indices rule: covered_indices.induct)
    (auto split: option.splits if_splits simp: Cons_eq_map_conv)

lemma covered_indices_member:
  assumes "covered_indices ts cs nodes = Some indices" "n \<in> set nodes"
  shows "\<exists>i \<in> set indices. table_index ts n = Some i"
proof -
  from assms have "table_index ts n \<in> Some ` set indices"
    unfolding covered_indices_Some by (metis image_eqI image_set)
  then show ?thesis by auto
qed

lemma covered_indices_origin:
  assumes "covered_indices ts cs nodes = Some indices" "i \<in> set indices"
  shows "\<exists>n \<in> set nodes. table_index ts n = Some i \<and> i < length ts \<and> table_node (ts ! i) = n \<and> cs ! i = None"
proof -
  from assms have "Some i \<in> table_index ts ` set nodes"
    unfolding covered_indices_Some by (metis image_eqI image_set)
  then obtain n where "n \<in> set nodes" "table_index ts n = Some i" by force
  with table_index_Some [OF this(2)] assms show ?thesis unfolding covered_indices_Some by blast
qed


text \<open>The branches of one instance, as a walk goes through them.\<close>

abbreviation unless_halted :: "(partial \<Rightarrow> walk_state \<Rightarrow> walk_state option) \<Rightarrow> partial \<Rightarrow> walk_state \<Rightarrow> walk_state option" where
  "unless_halted v \<equiv> \<lambda>branch w. if halted w then Some w else v branch w"

lemma visit_entry_run:
  assumes "visit_entry inp v p i k w = Some w'" "\<not> halted w"
  shows "fold_option (unless_halted v) (fst (extendStates inp p (i, k)))
    (w\<lparr>search_log := search_log w @ snd (extendStates inp p (i, k))\<rparr>) = Some w'"
  using assms by (simp add: visit_entry_def split_def Let_def)

lemma visit_entry_halted: "visit_entry inp v p i k w = Some w' \<Longrightarrow> halted w \<Longrightarrow> w' = w"
  by (simp add: visit_entry_def)


section \<open>Exact covers\<close>

text \<open>An instance the tables offer, and a cover every instance of which is placed at all the nodes it covers.\<close>

definition offered :: "search_input \<Rightarrow> instance_ref \<Rightarrow> bool" where
  "offered inp r \<longleftrightarrow> fst r < length (tables inp) \<and> snd r < length (table_instances (tables inp ! fst r))"

definition whole :: "search_input \<Rightarrow> instance_ref option list \<Rightarrow> bool" where
  "whole inp cs \<longleftrightarrow> length cs = length (tables inp) \<and>
     (\<forall>i < length cs. \<forall>r. cs ! i = Some r \<longrightarrow>
        offered inp r \<and> table_node (tables inp ! i) \<in> set (coveredNodes (entry_at inp r)) \<and>
        (\<forall>n \<in> set (coveredNodes (entry_at inp r)). \<exists>j < length cs. table_node (tables inp ! j) = n \<and> cs ! j = Some r))"

lemma chosen_empty: "i < length (tables inp) \<Longrightarrow> chosen (empty_partial inp) ! i = None"
  by (simp add: empty_partial_def)

lemma wholeD:
  assumes "whole inp cs" "cs ! i = Some r" "i < length (tables inp)"
  shows "offered inp r" "table_node (tables inp ! i) \<in> set (coveredNodes (entry_at inp r))"
    and "n \<in> set (coveredNodes (entry_at inp r)) \<Longrightarrow>
      \<exists>j < length (tables inp). table_node (tables inp ! j) = n \<and> cs ! j = Some r"
  using assms unfolding whole_def by metis+

lemma whole_empty [simp]: "whole inp (chosen (empty_partial inp))"
  by (simp add: whole_def empty_partial_def)

lemma whole_extends:
  assumes whole: "whole inp (chosen p)" and offers: "offered inp r"
    and branch: "q \<in> set (fst (extendStates inp p r))"
  shows "whole inp (chosen q)"
proof -
  obtain indices where found: "covered_indices (tables inp) (chosen p) (coveredNodes (entry_at inp r)) = Some indices"
    and q: "chosen q = assign_chosen r indices (chosen p)"
    using extension_covers [OF branch] by blast
  have len: "length (chosen p) = length (tables inp)" using whole by (simp add: whole_def)
  have nth: "i < length (tables inp) \<Longrightarrow> chosen q ! i = (if i \<in> set indices then Some r else chosen p ! i)" for i
    by (simp add: q nth_assign_chosen len)
  have unchosen: "i \<in> set indices \<Longrightarrow> chosen p ! i = None \<and> i < length (tables inp)" for i
    using covered_indices_origin [OF found] by blast
  have placed: "\<exists>j < length (tables inp). table_node (tables inp ! j) = n \<and> chosen q ! j = Some r"
    if "n \<in> set (coveredNodes (entry_at inp r))" for n
    using covered_indices_member [OF found that] nth unchosen by (metis table_index_Some)
  show ?thesis
    unfolding whole_def
  proof (intro conjI allI impI)
    show "length (chosen q) = length (tables inp)" by (simp add: q len)
  next
    fix i s assume i: "i < length (chosen q)" and s: "chosen q ! i = Some s"
    then have bound: "i < length (tables inp)" by (simp add: q len)
    let ?goal = "offered inp s \<and> table_node (tables inp ! i) \<in> set (coveredNodes (entry_at inp s)) \<and>
      (\<forall>n \<in> set (coveredNodes (entry_at inp s)). \<exists>j < length (chosen q). table_node (tables inp ! j) = n \<and> chosen q ! j = Some s)"
    have ?goal
    proof (cases "i \<in> set indices")
      case True
      then have "s = r" using s nth [OF bound] by simp
      then show ?thesis using offers covered_indices_origin [OF found True] placed by (auto simp: q len)
    next
      case False
      then have old: "chosen p ! i = Some s" using s nth [OF bound] by simp
      note here = wholeD(1,2) [OF whole old bound] and there = wholeD(3) [OF whole old bound]
      have "\<exists>j < length (chosen q). table_node (tables inp ! j) = n \<and> chosen q ! j = Some s"
        if n: "n \<in> set (coveredNodes (entry_at inp s))" for n
        using there [OF n] nth unchosen by (metis (no_types, lifting) q len length_assign_chosen option.distinct(1))
      with here show ?thesis by blast
    qed
    then show "offered inp s" "table_node (tables inp ! i) \<in> set (coveredNodes (entry_at inp s))"
      "\<forall>n \<in> set (coveredNodes (entry_at inp s)). \<exists>j < length (chosen q). table_node (tables inp ! j) = n \<and> chosen q ! j = Some s"
      by blast+
  qed
qed

lemma lowest_Some:
  "lowestUncovered inp p = Some i \<Longrightarrow> i < length (tables inp) \<and> chosen p ! i = None \<and> (\<forall>j < i. chosen p ! j \<noteq> None)"
  by (auto simp: lowestUncovered_def find_Some_iff)

lemma lowest_None: "lowestUncovered inp p = None \<longleftrightarrow> (\<forall>i < length (tables inp). chosen p ! i \<noteq> None)"
  by (auto simp: lowestUncovered_def find_None_iff)

lemma lowest_offers:
  "lowestUncovered inp p = Some i \<Longrightarrow> k < length (table_instances (tables inp ! i)) \<Longrightarrow> offered inp (i, k)"
  by (simp add: offered_def lowest_Some)

text \<open>The same cover, read off a proposal: one placement per node, each whole.\<close>

definition exact_cover :: "search_input \<Rightarrow> search_proposal \<Rightarrow> bool" where
  "exact_cover inp proposal \<longleftrightarrow>
     map fst (prop_placements proposal) = [0..<length (tables inp)] \<and>
     (\<forall>(i, r) \<in> set (prop_placements proposal).
        offered inp r \<and> table_node (tables inp ! i) \<in> set (coveredNodes (entry_at inp r)) \<and>
        (\<forall>n \<in> set (coveredNodes (entry_at inp r)).
           \<exists>j. table_node (tables inp ! j) = n \<and> (j, r) \<in> set (prop_placements proposal)))"

lemma filter_placements:
  assumes "\<And>i. i \<in> set xs \<Longrightarrow> cs ! i \<noteq> None"
  shows "List.map_filter (\<lambda>i. map_option (Pair i) (cs ! i)) xs = map (\<lambda>i. (i, the (cs ! i))) xs"
  using assms
proof (induction xs)
  case Nil
  then show ?case by (simp add: List.map_filter_simps)
next
  case (Cons i xs)
  then obtain r where "cs ! i = Some r" by fastforce
  with Cons show ?case by (simp add: List.map_filter_simps)
qed

lemma proposal_placements:
  assumes "length (chosen p) = length (tables inp)" "lowestUncovered inp p = None"
  shows "prop_placements (buildProposal inp said p) = map (\<lambda>i. (i, the (chosen p ! i))) [0..<length (tables inp)]"
proof -
  have "chosen p ! i \<noteq> None" if "i \<in> set [0..<length (tables inp)]" for i
    using assms(2) that by (simp add: lowest_None)
  then have "List.map_filter (\<lambda>i. map_option (Pair i) (chosen p ! i)) [0..<length (tables inp)] =
      map (\<lambda>i. (i, the (chosen p ! i))) [0..<length (tables inp)]" by (rule filter_placements)
  then show ?thesis using assms(1) by (simp add: buildProposal_def)
qed

lemma complete_is_exact:
  assumes whole: "whole inp (chosen p)" and complete: "lowestUncovered inp p = None"
  shows "exact_cover inp (buildProposal inp said p)"
proof -
  have len: "length (chosen p) = length (tables inp)" using whole by (simp add: whole_def)
  have chosen_at: "chosen p ! i = Some (the (chosen p ! i))" if "i < length (tables inp)" for i
    using complete that by (auto simp: lowest_None)
  have "\<exists>j < length (tables inp). table_node (tables inp ! j) = n \<and> the (chosen p ! j) = the (chosen p ! i)"
    if "i < length (tables inp)" "n \<in> set (coveredNodes (entry_at inp (the (chosen p ! i))))" for i n
    using wholeD(3) [OF whole chosen_at [OF that(1)] that] by (metis option.sel)
  note there = this
  let ?r = "\<lambda>i. the (chosen p ! i)" and ?n = "length (tables inp)"
  have here: "offered inp (?r i) \<and> table_node (tables inp ! i) \<in> set (coveredNodes (entry_at inp (?r i)))" if "i < ?n" for i
    using wholeD(1,2) [OF whole chosen_at [OF that] that] by blast
  have "\<exists>j. table_node (tables inp ! j) = n \<and> (j, ?r i) \<in> set (map (\<lambda>i. (i, ?r i)) [0..<?n])"
    if "i < ?n" "n \<in> set (coveredNodes (entry_at inp (?r i)))" for i n
  proof -
    from there [OF that] obtain j where j: "j < ?n" "table_node (tables inp ! j) = n" "?r j = ?r i" by blast
    then have "(j, ?r i) \<in> set (map (\<lambda>i. (i, ?r i)) [0..<?n])" by (simp add: image_iff)
    with j show ?thesis by blast
  qed
  moreover have "map fst (map (\<lambda>i. (i, ?r i)) [0..<?n]) = [0..<?n]" by (simp add: comp_def)
  ultimately show ?thesis
    using here unfolding exact_cover_def proposal_placements [OF len complete] by auto
qed

text \<open>The plan a proposal is retained as.\<close>

definition kept_as :: "search_input \<Rightarrow> search_proposal \<Rightarrow> covering_plan \<Rightarrow> bool" where
  "kept_as inp proposal plan \<longleftrightarrow>
     (case evaluateCompletePlan inp of
        None \<Rightarrow> plan = unevaluated_plan inp proposal
      | Some evaluate \<Rightarrow> materialized plan \<and> physicalComplete plan \<and>
          (\<exists>ev. evaluate proposal = Inr ev \<and> eval_plan ev = Some plan \<and> eval_rejection ev = None))"

lemma retain_kept: "retain inp said p = (Some plan, said2) \<Longrightarrow> kept_as inp (buildProposal inp said p) plan"
  by (auto simp: retain_def kept_as_def Let_def split: option.splits sum.splits if_splits)

text \<open>What every plan of a walk is.\<close>

definition covers_kept :: "search_input \<Rightarrow> walk_state \<Rightarrow> bool" where
  "covers_kept inp w \<longleftrightarrow> (\<forall>plan \<in> set (retained w). \<exists>proposal. exact_cover inp proposal \<and> kept_as inp proposal plan)"

lemma covers_kept_log [simp]: "covers_kept inp (w\<lparr>search_log := l\<rparr>) = covers_kept inp w"
  by (simp add: covers_kept_def)

lemma covers_kept_retain:
  assumes "covers_kept inp w" "whole inp (chosen p)" "lowestUncovered inp p = None"
  shows "covers_kept inp (retain_leaf inp exact p w)"
proof -
  obtain plan said where r: "retain inp (search_log w) p = (plan, said)" by (cases "retain inp (search_log w) p")
  show ?thesis
    using assms retain_kept [of inp "search_log w" p] complete_is_exact [OF assms(2,3)] r
    by (cases plan) (auto simp: retain_leaf_def covers_kept_def Let_def)
qed

lemma visit_covers:
  "walk_visit inp exact fuel p w = Some w' \<Longrightarrow> whole inp (chosen p) \<Longrightarrow> covers_kept inp w \<Longrightarrow> covers_kept inp w'"
proof (induction fuel arbitrary: p w w')
  case 0
  then show ?case by simp
next
  case (Suc fuel)
  show ?case
  proof (cases "halted w \<or> lowestUncovered inp p = None")
    case True
    then show ?thesis using Suc.prems covers_kept_retain by (auto split: if_splits)
  next
    case False
    then obtain i where i: "lowestUncovered inp p = Some i" by auto
    with False Suc.prems(1) have "fold_option (visit_entry inp (walk_visit inp exact fuel) p i)
        [0..<length (table_instances (tables inp ! i))] w = Some w'" by simp
    then show ?thesis
    proof (rule fold_option_inv)
      show "covers_kept inp w" by (rule Suc.prems)
    next
      fix k b b'
      assume k: "k \<in> set [0..<length (table_instances (tables inp ! i))]" and b: "covers_kept inp b"
        and run: "visit_entry inp (walk_visit inp exact fuel) p i k b = Some b'"
      have branch: "whole inp (chosen q)" if "q \<in> set (fst (extendStates inp p (i, k)))" for q
        using whole_extends [OF Suc.prems(2), of "(i, k)" q] lowest_offers [OF i, of k] k that by simp
      show "covers_kept inp b'"
      proof (cases "halted b")
        case True
        with visit_entry_halted [OF run] b show ?thesis by simp
      next
        case False
        from visit_entry_run [OF run False] show ?thesis
          by (rule fold_option_inv) (use b branch Suc.IH in \<open>auto split: if_splits\<close>)
      qed
    qed
  qed
qed

lemma depth_first_covers: "depth_first inp exact = Some w \<Longrightarrow> covers_kept inp w"
  unfolding depth_first_def by (rule visit_covers) (auto simp: covers_kept_def walk_start_def simp del: walk_visit.simps)

section \<open>The walk ends\<close>

definition open_nodes :: "search_input \<Rightarrow> partial \<Rightarrow> nat set" where
  "open_nodes inp p = {i. i < length (tables inp) \<and> chosen p ! i = None}"

lemma finite_open [simp]: "finite (open_nodes inp p)"
  by (simp add: open_nodes_def)

text \<open>A placement closes as many nodes as its instance covers.\<close>

lemma extension_closes:
  assumes whole: "whole inp (chosen p)" and branch: "q \<in> set (fst (extendStates inp p r))"
  shows "card (open_nodes inp q) + card (set (coveredNodes (entry_at inp r))) = card (open_nodes inp p)"
proof -
  let ?nodes = "coveredNodes (entry_at inp r)"
  obtain indices where found: "covered_indices (tables inp) (chosen p) ?nodes = Some indices"
    and q: "chosen q = assign_chosen r indices (chosen p)"
    using extension_covers [OF branch] by blast
  have len: "length (chosen p) = length (tables inp)" using whole by (simp add: whole_def)
  note origin = covered_indices_origin [OF found]
  have node_of: "(\<lambda>i. table_node (tables inp ! i)) ` set indices = set ?nodes"
    using origin covered_indices_member [OF found] by (force dest: table_index_Some)
  have "inj_on (\<lambda>i. table_node (tables inp ! i)) (set indices)"
    by (rule inj_onI) (use origin in \<open>metis option.inject\<close>)
  then have "card (set indices) = card (set ?nodes)" using card_image node_of by metis
  moreover have "set indices \<subseteq> open_nodes inp p" using origin by (auto simp: open_nodes_def)
  moreover have "open_nodes inp q = open_nodes inp p - set indices"
    by (auto simp: open_nodes_def q nth_assign_chosen len split: if_splits)
  ultimately show ?thesis
    using card_mono [of "open_nodes inp p" "set indices"] by (simp add: card_Diff_subset)
qed

text \<open>Every instance covers a node.\<close>

definition entries_cover :: "search_input \<Rightarrow> bool" where
  "entries_cover inp \<longleftrightarrow> (\<forall>t \<in> set (tables inp). \<forall>e \<in> set (table_instances t). coveredNodes e \<noteq> [])"

lemma entries_coverD: "entries_cover inp \<Longrightarrow> offered inp r \<Longrightarrow> coveredNodes (entry_at inp r) \<noteq> []"
  unfolding entries_cover_def offered_def entry_at_def by (meson nth_mem)

lemma extension_progress:
  assumes "entries_cover inp" "offered inp r" "whole inp (chosen p)" "q \<in> set (fst (extendStates inp p r))"
  shows "card (open_nodes inp q) < card (open_nodes inp p)"
proof -
  have "card (set (coveredNodes (entry_at inp r))) > 0"
    using entries_coverD [OF assms(1,2)] by (simp add: card_gt_0_iff)
  with extension_closes [OF assms(3,4)] show ?thesis by linarith
qed

lemma visit_ends:
  "entries_cover inp \<Longrightarrow> whole inp (chosen p) \<Longrightarrow> card (open_nodes inp p) < fuel \<Longrightarrow> walk_visit inp exact fuel p w \<noteq> None"
proof (induction fuel arbitrary: p w)
  case 0
  then show ?case by simp
next
  case (Suc fuel)
  show ?case
  proof (cases "lowestUncovered inp p")
    case None
    then show ?thesis by simp
  next
    case (Some i)
    have "visit_entry inp (walk_visit inp exact fuel) p i k b \<noteq> None"
      if k: "k \<in> set [0..<length (table_instances (tables inp ! i))]" for k b
    proof -
      have offers: "offered inp (i, k)" using lowest_offers [OF Some] k by simp
      obtain states said where e: "extendStates inp p (i, k) = (states, said)" by (cases "extendStates inp p (i, k)")
      have "walk_visit inp exact fuel q w \<noteq> None" if "q \<in> set states" for q w
      proof (rule Suc.IH [OF Suc.prems(1)])
        have q: "q \<in> set (fst (extendStates inp p (i, k)))" using that e by simp
        show "whole inp (chosen q)" by (rule whole_extends [OF Suc.prems(2) offers q])
        show "card (open_nodes inp q) < fuel"
          using extension_progress [OF Suc.prems(1) offers Suc.prems(2) q] Suc.prems(3) by linarith
      qed
      then have "fold_option (\<lambda>branch w. if halted w then Some w else walk_visit inp exact fuel branch w) states v \<noteq> None" for v
        by (intro fold_option_total) auto
      then show ?thesis using e by (auto simp: visit_entry_def)
    qed
    then have "fold_option (visit_entry inp (walk_visit inp exact fuel) p i) [0..<length (table_instances (tables inp ! i))] w \<noteq> None"
      by (rule fold_option_total)
    with Some show ?thesis by simp
  qed
qed

lemma depth_first_ends: "entries_cover inp \<Longrightarrow> depth_first inp exact \<noteq> None"
proof -
  assume cover: "entries_cover inp"
  have "card (open_nodes inp (empty_partial inp)) \<le> card {i. i < length (tables inp)}"
    by (rule card_mono) (auto simp: open_nodes_def)
  then show ?thesis unfolding depth_first_def by (intro visit_ends [OF cover]) auto
qed

text \<open>C18: The search always returns: when every candidate covers at least one node, neither the depth-first
  walk of the deterministic and exact modes nor the beam runs forever, whatever the routes, the schedules and
  the evaluator answer.\<close>

theorem search_returns: "entries_cover inp \<Longrightarrow> \<exists>outcome. search inp = Some outcome"
  using depth_first_ends [of inp "mode inp = Exact"] by (auto simp: search_def)

section \<open>The first plan of the exact walk\<close>

lemma retain_leaf_det:
  "\<not> halted w \<Longrightarrow> retained w = [] \<Longrightarrow>
     retain_leaf inp False p w =
       (let e = retain_leaf inp True p w in if retained e = [] then e else e\<lparr>halted := True\<rparr>)"
  by (auto simp: retain_leaf_def Let_def split: prod.split option.split)

text \<open>A walk never drops a plan or a note, and the exact one halts only on an error.\<close>

definition later :: "walk_state \<Rightarrow> walk_state \<Rightarrow> bool" where
  "later w w' \<longleftrightarrow> (\<exists>ps ls. retained w' = retained w @ ps \<and> search_log w' = search_log w @ ls)"

lemma later_refl [simp]: "later w w"
  by (simp add: later_def)

lemma later_trans: "later u v \<Longrightarrow> later v w \<Longrightarrow> later u w"
  by (auto simp: later_def)

lemma later_log [simp]: "later w (w\<lparr>search_log := search_log w @ ls\<rparr>)"
  by (simp add: later_def)

lemma later_retain [simp]: "later w (retain_leaf inp exact p w)"
  by (auto simp: later_def retain_leaf_def Let_def split: prod.split)

lemma fold_option_later:
  assumes "fold_option f xs b = Some b'" "\<And>x b b'. x \<in> set xs \<Longrightarrow> f x b = Some b' \<Longrightarrow> later b b'"
  shows "later b b'"
  using assms(1) by (rule fold_option_inv) (auto intro: later_trans dest: assms(2))

lemma visit_entry_later:
  assumes run: "visit_entry inp v p i k w = Some w'"
    and branches_later: "\<And>q u u'. v q u = Some u' \<Longrightarrow> later u u'"
  shows "later w w'"
proof (cases "halted w")
  case True
  with visit_entry_halted [OF run] show ?thesis by simp
next
  case False
  from visit_entry_run [OF run False]
  have "later (w\<lparr>search_log := search_log w @ snd (extendStates inp p (i, k))\<rparr>) w'"
    by (rule fold_option_later) (auto dest: branches_later split: if_splits)
  then show ?thesis by (rule later_trans [OF later_log])
qed

lemma visit_later: "walk_visit inp exact fuel p w = Some w' \<Longrightarrow> later w w'"
proof (induction fuel arbitrary: p w w')
  case 0
  then show ?case by simp
next
  case (Suc fuel)
  show ?case
    using Suc.prems
    by (auto split: if_splits option.splits intro: fold_option_later dest: visit_entry_later [OF _ Suc.IH])
qed

text \<open>How a deterministic run and an exact run over the same branches relate: they agree until the first
  accepted plan, which then stays the first of the exact one.\<close>

definition det_agrees :: "walk_state \<Rightarrow> walk_state \<Rightarrow> bool" where
  "det_agrees d e \<longleftrightarrow>
     (if halted d \<and> pending_error (search_log d) = None then \<exists>x rest. retained d = [x] \<and> retained e = x # rest
      else e = d \<and> (halted d \<or> retained d = []))"

lemma agrees_settled:
  "det_agrees d e \<Longrightarrow> halted d \<Longrightarrow> pending_error (search_log d) = None \<Longrightarrow> later e e' \<Longrightarrow> det_agrees d e'"
  by (auto simp: det_agrees_def later_def)

lemma agrees_open: "det_agrees d e \<Longrightarrow> \<not> halted d \<Longrightarrow> e = d \<and> retained d = []"
  by (auto simp: det_agrees_def split: if_splits)

lemma agrees_same: "\<not> halted d \<Longrightarrow> retained d = [] \<Longrightarrow> det_agrees d d"
  by (simp add: det_agrees_def)

lemma agrees_failed: "det_agrees d e \<Longrightarrow> halted d \<Longrightarrow> pending_error (search_log d) \<noteq> None \<Longrightarrow> e = d"
  by (simp add: det_agrees_def)

lemma agrees_leaf:
  assumes "\<not> halted w" "retained w = []"
  shows "det_agrees (retain_leaf inp False p w) (retain_leaf inp True p w)"
proof -
  obtain plan said where r: "retain inp (search_log w) p = (plan, said)" by (cases "retain inp (search_log w) p")
  show ?thesis
    using assms r by (cases plan) (auto simp: det_agrees_def retain_leaf_def Let_def)
qed

text \<open>A halted run does nothing more; what the other one does keeps the relation.\<close>

lemma agrees_halted:
  assumes "det_agrees d e" "halted d" "later e e'" "halted e \<Longrightarrow> e' = e"
  shows "det_agrees d e'"
  using assms by (cases "pending_error (search_log d) = None") (auto dest: agrees_settled agrees_failed)

lemma fold_option_agrees:
  assumes "fold_option f xs d = Some d'" "fold_option g xs e = Some e'" "det_agrees d e"
    and "\<And>x d d' e e'. x \<in> set xs \<Longrightarrow> f x d = Some d' \<Longrightarrow> g x e = Some e' \<Longrightarrow> det_agrees d e \<Longrightarrow> det_agrees d' e'"
  shows "det_agrees d' e'"
  using assms
proof (induction xs arbitrary: d e)
  case Nil
  then show ?case by simp
next
  case (Cons x xs)
  then obtain d1 e1 where "f x d = Some d1" "fold_option f xs d1 = Some d'" "g x e = Some e1" "fold_option g xs e1 = Some e'"
    by (auto split: option.splits)
  moreover have "det_agrees d1 e1" using calculation Cons.prems(3,4) by (meson list.set_intros(1))
  ultimately show ?case using Cons.IH [of d1 e1] Cons.prems(4) by (meson list.set_intros(2))
qed

lemma visit_halted: "walk_visit inp exact fuel p w = Some w' \<Longrightarrow> halted w \<Longrightarrow> w' = w"
  by (cases fuel) auto

lemma visit_agrees:
  "walk_visit inp False fuel p d = Some d' \<Longrightarrow> walk_visit inp True fuel p e = Some e' \<Longrightarrow> det_agrees d e \<Longrightarrow> det_agrees d' e'"
proof (induction fuel arbitrary: p d d' e e')
  case 0
  then show ?case by simp
next
  case (Suc fuel)
  have entry: "det_agrees b' c'"
    if run: "visit_entry inp (walk_visit inp False fuel) p i k b = Some b'" "visit_entry inp (walk_visit inp True fuel) p i k c = Some c'"
      and bc: "det_agrees b c" for i k b b' c c'
  proof (cases "halted b")
    case True
    have "later c c'" using run(2) visit_later by (rule visit_entry_later)
    with agrees_halted [OF bc True] visit_entry_halted [OF run(2)] visit_entry_halted [OF run(1) True]
    show ?thesis by blast
  next
    case False
    then have c: "c = b" and none: "retained b = []" using agrees_open [OF bc] by auto
    let ?b = "b\<lparr>search_log := search_log b @ snd (extendStates inp p (i, k))\<rparr>"
    from visit_entry_run [OF run(1) False] visit_entry_run [OF run(2) [unfolded c] False] show ?thesis
    proof (rule fold_option_agrees)
      show "det_agrees ?b ?b" using False none by (simp add: agrees_same)
    next
      fix q v v' u u'
      assume *: "(if halted v then Some v else walk_visit inp False fuel q v) = Some v'"
        "(if halted u then Some u else walk_visit inp True fuel q u) = Some u'" "det_agrees v u"
      show "det_agrees v' u'"
      proof (cases "halted v")
        case True
        then have "v' = v" using *(1) by simp
        moreover have "later u u'" "halted u \<Longrightarrow> u' = u" using *(2) by (auto split: if_splits dest: visit_later)
        ultimately show ?thesis using agrees_halted [OF *(3) True] by blast
      next
        case False
        then have "u = v" using agrees_open [OF *(3)] by simp
        with False * Suc.IH show ?thesis by simp
      qed
    qed
  qed
  show ?case
  proof (cases "halted d")
    case True
    then show ?thesis
      using agrees_halted [OF Suc.prems(3)] visit_halted [OF Suc.prems(1)] visit_halted [OF Suc.prems(2)]
        visit_later [OF Suc.prems(2)] by blast
  next
    case False
    then have e: "e = d" and none: "retained d = []" using agrees_open [OF Suc.prems(3)] by auto
    show ?thesis
    proof (cases "lowestUncovered inp p")
      case None
      with Suc.prems False e none agrees_leaf show ?thesis by auto
    next
      case (Some i)
      with Suc.prems False e
      have "fold_option (visit_entry inp (walk_visit inp False fuel) p i) [0..<length (table_instances (tables inp ! i))] d = Some d'"
        "fold_option (visit_entry inp (walk_visit inp True fuel) p i) [0..<length (table_instances (tables inp ! i))] d = Some e'"
        by simp_all
      then show ?thesis by (rule fold_option_agrees) (use False none entry in \<open>auto simp: agrees_same\<close>)
    qed
  qed
qed

text \<open>C9: The deterministic search is the exact one stopped early: its retained plan is the first plan the
  exact walk retains, there is none exactly when the exact walk retains none, and an error that stops it stops
  the exact walk with the same message.\<close>

theorem deterministic_takes_first:
  assumes "depth_first inp False = Some d" "depth_first inp True = Some e"
  shows "case pending_error (search_log d) of
      None \<Rightarrow> retained d = take 1 (retained e)
    | Some message \<Rightarrow> pending_error (search_log e) = Some message"
proof -
  have "det_agrees d e"
    using assms unfolding depth_first_def
    by (rule visit_agrees) (simp add: det_agrees_def walk_start_def)
  then show ?thesis
    by (auto simp: det_agrees_def split: option.splits if_splits)
qed

section \<open>The exact walk is exhaustive\<close>

text \<open>The partial covers a walk passes through from one, each a branch at the lowest open node.\<close>

inductive reaches :: "search_input \<Rightarrow> partial \<Rightarrow> partial \<Rightarrow> bool" for inp where
  here: "reaches inp p p"
| branch: "lowestUncovered inp p = Some i \<Longrightarrow> k < length (table_instances (tables inp ! i)) \<Longrightarrow>
    q \<in> set (fst (extendStates inp p (i, k))) \<Longrightarrow> reaches inp q r \<Longrightarrow> reaches inp p r"

lemma pending_append: "pending_error (xs @ ys) = (case pending_error xs of None \<Rightarrow> pending_error ys | Some e \<Rightarrow> Some e)"
  by (induction xs rule: pending_error.induct) auto

lemma later_pending: "later w w' \<Longrightarrow> pending_error (search_log w') = None \<Longrightarrow> pending_error (search_log w) = None"
  by (auto simp: later_def pending_append split: option.splits)

lemma later_retained: "later w w' \<Longrightarrow> set (retained w) \<subseteq> set (retained w')"
  by (auto simp: later_def)

text \<open>A run of the exact walk that ends without an error was never halted.\<close>

definition running :: "walk_state \<Rightarrow> bool" where
  "running w \<longleftrightarrow> (halted w \<longrightarrow> pending_error (search_log w) \<noteq> None)"

lemma running_log [simp]: "running w \<Longrightarrow> running (w\<lparr>search_log := search_log w @ ls\<rparr>)"
  by (auto simp: running_def pending_append split: option.splits)

lemma running_retain: "running w \<Longrightarrow> running (retain_leaf inp True p w)"
  by (auto simp: running_def retain_leaf_def Let_def pending_append split: prod.splits option.splits if_splits)

lemma visit_entry_running:
  assumes run: "visit_entry inp v p i k w = Some w'" and w: "running w"
    and branches_run: "\<And>q u u'. v q u = Some u' \<Longrightarrow> running u \<Longrightarrow> running u'"
  shows "running w'"
proof (cases "halted w")
  case True
  with visit_entry_halted [OF run] w show ?thesis by simp
next
  case False
  from visit_entry_run [OF run False] show ?thesis
    by (rule fold_option_inv) (use w branches_run in \<open>auto split: if_splits\<close>)
qed

lemma visit_running: "walk_visit inp True fuel p w = Some w' \<Longrightarrow> running w \<Longrightarrow> running w'"
proof (induction fuel arbitrary: p w w')
  case 0
  then show ?case by simp
next
  case (Suc fuel)
  show ?case
  proof (cases "halted w \<or> lowestUncovered inp p = None")
    case True
    with Suc.prems running_retain show ?thesis by (auto split: if_splits)
  next
    case False
    then obtain i where "lowestUncovered inp p = Some i" by auto
    with False Suc.prems(1) have "fold_option (visit_entry inp (walk_visit inp True fuel) p i)
        [0..<length (table_instances (tables inp ! i))] w = Some w'" by simp
    then show ?thesis by (rule fold_option_inv) (use Suc.prems(2) visit_entry_running Suc.IH in blast)+
  qed
qed

text \<open>One element of a sequence of steps, with the states before and after it.\<close>

lemma fold_option_at:
  assumes "fold_option f xs b = Some b'" "x \<in> set xs"
  obtains ys zs c c' where "xs = ys @ x # zs" "fold_option f ys b = Some c" "f x c = Some c'" "fold_option f zs c' = Some b'"
  using assms
proof (induction xs arbitrary: b thesis)
  case Nil
  then show ?case by simp
next
  case (Cons y xs)
  then obtain d where d: "f y b = Some d" "fold_option f xs d = Some b'" by (auto split: option.splits)
  show ?case
  proof (cases "x = y")
    case True
    show ?thesis by (rule Cons.prems(1) [of "[]"]) (use True d in auto)
  next
    case False
    with Cons.prems have x: "x \<in> set xs" by simp
    show ?thesis
    proof (rule Cons.IH [OF _ d(2) x])
      fix ys zs c c'
      assume "xs = ys @ x # zs" "fold_option f ys d = Some c" "f x c = Some c'" "fold_option f zs c' = Some b'"
      then show thesis by (intro Cons.prems(1) [of "y # ys"]) (use d in auto)
    qed
  qed
qed

lemma visit_reaches:
  "walk_visit inp True fuel p w = Some w' \<Longrightarrow> running w \<Longrightarrow> pending_error (search_log w') = None \<Longrightarrow>
   reaches inp p q \<Longrightarrow> lowestUncovered inp q = None \<Longrightarrow>
   \<exists>said. pending_error (snd (retain inp said q)) = None \<and>
     (case fst (retain inp said q) of None \<Rightarrow> True | Some plan \<Rightarrow> plan \<in> set (retained w'))"
proof (induction fuel arbitrary: p w w')
  case 0
  then show ?case by simp
next
  case (Suc fuel)
  have calm: "\<not> halted w"
    using later_pending [OF visit_later [OF Suc.prems(1)] Suc.prems(3)] Suc.prems(2) by (auto simp: running_def)
  from Suc.prems(4) show ?case
  proof cases
    case here
    then have leaf: "w' = retain_leaf inp True p w" using Suc.prems calm by simp
    moreover have "pending_error (snd (retain inp (search_log w) q)) = None"
      using Suc.prems(3) here unfolding leaf
      by (auto simp: retain_leaf_def Let_def pending_append split: prod.splits option.splits if_splits)
    moreover have "case fst (retain inp (search_log w) q) of None \<Rightarrow> True | Some plan \<Rightarrow> plan \<in> set (retained (retain_leaf inp True p w))"
      using here by (auto simp: retain_leaf_def Let_def split: prod.split option.split)
    ultimately show ?thesis by blast
  next
    case (branch i k p1)
    with Suc.prems(1) calm have "fold_option (visit_entry inp (walk_visit inp True fuel) p i)
        [0..<length (table_instances (tables inp ! i))] w = Some w'" by simp
    moreover have "k \<in> set [0..<length (table_instances (tables inp ! i))]" using branch by simp
    ultimately obtain ks ls c c' where
      before: "fold_option (visit_entry inp (walk_visit inp True fuel) p i) ks w = Some c"
      and at: "visit_entry inp (walk_visit inp True fuel) p i k c = Some c'"
      and after: "fold_option (visit_entry inp (walk_visit inp True fuel) p i) ls c' = Some w'"
      by (rule fold_option_at)
    let ?v = "walk_visit inp True fuel"
    have running_c: "running c"
      using before by (rule fold_option_inv) (use Suc.prems(2) visit_entry_running visit_running in blast)+
    have c'_w': "later c' w'"
      using after by (rule fold_option_later) (use visit_entry_later visit_later in blast)
    have calm_c: "\<not> halted c"
      using later_pending [OF visit_entry_later [OF at visit_later] later_pending [OF c'_w' Suc.prems(3)]] running_c
      by (auto simp: running_def)
    obtain ms ns d d' where
      before': "fold_option (unless_halted ?v) ms (c\<lparr>search_log := search_log c @ snd (extendStates inp p (i, k))\<rparr>) = Some d"
      and at': "unless_halted ?v p1 d = Some d'" and after': "fold_option (unless_halted ?v) ns d' = Some c'"
      using visit_entry_run [OF at calm_c] branch(3) by (rule fold_option_at)
    have running_d: "running d"
      using before' by (rule fold_option_inv) (use running_c visit_running in \<open>auto split: if_splits\<close>)
    have d'_w': "later d' w'"
      using after' by (intro later_trans [OF fold_option_later c'_w']) (auto split: if_splits dest: visit_later)
    have none: "pending_error (search_log d') = None" by (rule later_pending [OF d'_w' Suc.prems(3)])
    have "\<not> halted d"
    proof
      assume "halted d"
      with at' running_d none show False by (simp add: running_def)
    qed
    with at' have "?v p1 d = Some d'" by simp
    from Suc.IH [OF this running_d none branch(4) Suc.prems(5)] obtain said where
      said: "pending_error (snd (retain inp said q)) = None"
        "case fst (retain inp said q) of None \<Rightarrow> True | Some plan \<Rightarrow> plan \<in> set (retained d')" by blast
    from later_retained [OF d'_w'] said(2)
    have "case fst (retain inp said q) of None \<Rightarrow> True | Some plan \<Rightarrow> plan \<in> set (retained w')"
      by (auto split: option.splits)
    with said(1) show ?thesis by blast
  qed
qed

text \<open>The shape of the tables the search builds: one per node, and an instance offered at the first table of
  the nodes it covers.\<close>

definition tables_ok :: "search_input \<Rightarrow> bool" where
  "tables_ok inp \<longleftrightarrow> distinct (map table_node (tables inp)) \<and>
     (\<forall>t < length (tables inp). \<forall>e \<in> set (table_instances (tables inp ! t)).
        table_node (tables inp ! t) \<in> set (coveredNodes e) \<and>
        (\<forall>j < length (tables inp). table_node (tables inp ! j) \<in> set (coveredNodes e) \<longrightarrow> t \<le> j))"

lemma tables_okD:
  assumes "tables_ok inp" "offered inp r"
  shows "table_node (tables inp ! fst r) \<in> set (coveredNodes (entry_at inp r))"
    and "j < length (tables inp) \<Longrightarrow> table_node (tables inp ! j) \<in> set (coveredNodes (entry_at inp r)) \<Longrightarrow> fst r \<le> j"
proof -
  have "entry_at inp r \<in> set (table_instances (tables inp ! fst r))" "fst r < length (tables inp)"
    using assms(2) by (auto simp: offered_def entry_at_def)
  with assms(1) show "table_node (tables inp ! fst r) \<in> set (coveredNodes (entry_at inp r))"
    "j < length (tables inp) \<Longrightarrow> table_node (tables inp ! j) \<in> set (coveredNodes (entry_at inp r)) \<Longrightarrow> fst r \<le> j"
    unfolding tables_ok_def by blast+
qed

lemma tables_ok_cover: "tables_ok inp \<Longrightarrow> entries_cover inp"
  unfolding tables_ok_def entries_cover_def by (metis empty_iff in_set_conv_nth list.set(1))

lemma same_node:
  assumes "tables_ok inp" "i < length (tables inp)" "j < length (tables inp)" "table_node (tables inp ! i) = table_node (tables inp ! j)"
  shows "i = j"
  using assms nth_eq_iff_index_eq [of "map table_node (tables inp)" i j] by (simp add: tables_ok_def)

lemma table_index_at:
  assumes "tables_ok inp" "i < length (tables inp)"
  shows "table_index (tables inp) (table_node (tables inp ! i)) = Some i"
proof (cases "table_index (tables inp) (table_node (tables inp ! i))")
  case None
  then show ?thesis using assms(2) by (auto simp: table_index_def find_None_iff)
next
  case (Some j)
  with table_index_Some [OF Some] same_node [OF assms(1), of j i] assms(2) show ?thesis by simp
qed

lemma covered_indices_ok:
  assumes "\<And>n. n \<in> set nodes \<Longrightarrow> \<exists>i. table_index ts n = Some i \<and> cs ! i = None"
  shows "\<exists>indices. covered_indices ts cs nodes = Some indices"
  using assms
proof (induction nodes)
  case Nil
  then show ?case by simp
next
  case (Cons n nodes)
  then obtain i indices where "table_index ts n = Some i" "cs ! i = None" "covered_indices ts cs nodes = Some indices"
    by (metis list.set_intros(1,2))
  then show ?case by simp
qed

text \<open>No placement is refused: its memories are known and fit, and its connections have routes.\<close>

definition never_refuses :: "search_input \<Rightarrow> bool" where
  "never_refuses inp \<longleftrightarrow> (\<forall>p i k. reaches inp (empty_partial inp) p \<longrightarrow> lowestUncovered inp p = Some i \<longrightarrow>
     k < length (table_instances (tables inp ! i)) \<longrightarrow> cover_nodes inp (i, k) p \<noteq> None \<longrightarrow>
     fst (extendStates inp p (i, k)) \<noteq> [])"

lemma reaches_trans: "reaches inp p q \<Longrightarrow> reaches inp q r \<Longrightarrow> reaches inp p r"
  by (induction rule: reaches.induct) (auto intro: reaches.branch)

text \<open>A partial cover that agrees with \<open>cs\<close> so far.\<close>

definition follows :: "search_input \<Rightarrow> instance_ref list \<Rightarrow> partial \<Rightarrow> bool" where
  "follows inp cs p \<longleftrightarrow> whole inp (chosen p) \<and> (\<forall>i < length (tables inp). chosen p ! i = None \<or> chosen p ! i = Some (cs ! i))"

text \<open>The search refuses no placement of the cover \<open>cs\<close> whose nodes are open, where it has followed \<open>cs\<close> so far.\<close>

definition placeable :: "search_input \<Rightarrow> instance_ref list \<Rightarrow> bool" where
  "placeable inp cs \<longleftrightarrow> (\<forall>p i. reaches inp (empty_partial inp) p \<longrightarrow> follows inp cs p \<longrightarrow> lowestUncovered inp p = Some i \<longrightarrow>
     cover_nodes inp (cs ! i) p \<noteq> None \<longrightarrow> fst (extendStates inp p (cs ! i)) \<noteq> [])"

lemma cover_len: "whole inp (map Some cs) \<Longrightarrow> length cs = length (tables inp)"
  by (simp add: whole_def)

lemma cover_at:
  assumes cover: "whole inp (map Some cs)" and i: "i < length (tables inp)"
  shows "offered inp (cs ! i)" "table_node (tables inp ! i) \<in> set (coveredNodes (entry_at inp (cs ! i)))"
    and "n \<in> set (coveredNodes (entry_at inp (cs ! i))) \<Longrightarrow>
      \<exists>j < length (tables inp). table_node (tables inp ! j) = n \<and> cs ! j = cs ! i"
proof -
  have at: "map Some cs ! i = Some (cs ! i)" using i cover_len [OF cover] by simp
  show "offered inp (cs ! i)" "table_node (tables inp ! i) \<in> set (coveredNodes (entry_at inp (cs ! i)))"
    using wholeD(1,2) [OF cover at i] by blast+
  show "n \<in> set (coveredNodes (entry_at inp (cs ! i))) \<Longrightarrow>
      \<exists>j < length (tables inp). table_node (tables inp ! j) = n \<and> cs ! j = cs ! i"
    using wholeD(3) [OF cover at i] cover_len [OF cover] by fastforce
qed

text \<open>Nothing the instance at an open node covers is taken yet.\<close>

lemma cover_open:
  assumes ok: "tables_ok inp" and cover: "whole inp (map Some cs)" and p: "follows inp cs p" and i: "i < length (tables inp)" "chosen p ! i = None"
    and j: "j < length (tables inp)" "cs ! j = cs ! i"
  shows "chosen p ! j = None"
proof (rule ccontr)
  assume "chosen p ! j \<noteq> None"
  with p j have "chosen p ! j = Some (cs ! i)" by (auto simp: follows_def)
  with p j(1) cover_at(2) [OF cover i(1)] obtain k where k: "k < length (tables inp)"
    "table_node (tables inp ! k) = table_node (tables inp ! i)" "chosen p ! k = Some (cs ! i)"
    unfolding follows_def using wholeD(3) by metis
  with same_node [OF ok k(1) i(1)] i(2) show False by simp
qed

lemma cover_anchor:
  assumes ok: "tables_ok inp" and cover: "whole inp (map Some cs)" and p: "follows inp cs p" and i: "lowestUncovered inp p = Some i"
  shows "fst (cs ! i) = i"
proof -
  note low = lowest_Some [OF i]
  have r: "offered inp (cs ! i)" "table_node (tables inp ! i) \<in> set (coveredNodes (entry_at inp (cs ! i)))"
    using cover_at [OF cover] low by blast+
  obtain j where j: "j < length (tables inp)" "table_node (tables inp ! j) = table_node (tables inp ! fst (cs ! i))" "cs ! j = cs ! i"
    using cover_at(3) [OF cover] tables_okD(1) [OF ok r(1)] low by blast
  have "j = fst (cs ! i)" using same_node [OF ok j(1) _ j(2)] r(1) by (simp add: offered_def)
  moreover have "chosen p ! j = None" using cover_open [OF ok cover p _ _ j(1,3)] low by simp
  ultimately have "i \<le> fst (cs ! i)" using low by (meson not_less)
  then show ?thesis using tables_okD(2) [OF ok r(1) _ r(2)] low by (simp add: le_antisym)
qed

lemma never_refuses_placeable:
  assumes ok: "tables_ok inp" and cover: "whole inp (map Some cs)" and free: "never_refuses inp"
  shows "placeable inp cs"
proof -
  have "fst (extendStates inp p (cs ! i)) \<noteq> []"
    if p: "reaches inp (empty_partial inp) p" "follows inp cs p" "lowestUncovered inp p = Some i" "cover_nodes inp (cs ! i) p \<noteq> None" for p i
  proof -
    obtain k where at: "cs ! i = (i, k)" using cover_anchor [OF ok cover p(2,3)] by (metis prod.collapse)
    moreover have "offered inp (cs ! i)" using cover_at(1) [OF cover] lowest_Some [OF p(3)] by blast
    ultimately show ?thesis using free p by (simp add: never_refuses_def offered_def)
  qed
  then show ?thesis by (simp add: placeable_def)
qed

lemma cover_step:
  assumes ok: "tables_ok inp" and cover: "whole inp (map Some cs)" and 
    free: "placeable inp cs" and p: "follows inp cs p" and i: "lowestUncovered inp p = Some i"
    and reached: "reaches inp (empty_partial inp) p"
  shows "\<exists>q \<in> set (fst (extendStates inp p (cs ! i))). follows inp cs q"
proof -
  let ?r = "cs ! i"
  note low = lowest_Some [OF i]
  have offers: "offered inp ?r" using cover_at(1) [OF cover] low by blast
  have "\<exists>k. table_index (tables inp) n = Some k \<and> chosen p ! k = None" if n: "n \<in> set (coveredNodes (entry_at inp ?r))" for n
  proof -
    obtain j where "j < length (tables inp)" "table_node (tables inp ! j) = n" "cs ! j = cs ! i"
      using cover_at(3) [OF cover] n low by blast
    then show ?thesis using cover_open [OF ok cover p, of i j] table_index_at [OF ok, of j] low by auto
  qed
  then have "cover_nodes inp ?r p \<noteq> None" using covered_indices_ok by (fastforce simp: cover_nodes_def)
  then have "fst (extendStates inp p ?r) \<noteq> []"
    using free reached p i by (auto simp: placeable_def)
  then obtain q where q: "q \<in> set (fst (extendStates inp p ?r))" by (cases "fst (extendStates inp p ?r)") auto
  obtain indices where found: "covered_indices (tables inp) (chosen p) (coveredNodes (entry_at inp ?r)) = Some indices"
    and chosen_q: "chosen q = assign_chosen ?r indices (chosen p)" using extension_covers [OF q] by blast
  have whole_p: "whole inp (chosen p)" using p by (simp add: follows_def)
  have "chosen q ! j = None \<or> chosen q ! j = Some (cs ! j)" if j: "j < length (tables inp)" for j
  proof (cases "j \<in> set indices")
    case True
    obtain n where n: "n \<in> set (coveredNodes (entry_at inp ?r))" "table_node (tables inp ! j) = n"
      using covered_indices_origin [OF found True] by blast
    then obtain k where "k < length (tables inp)" "table_node (tables inp ! k) = n" "cs ! k = ?r"
      using cover_at(3) [OF cover] low by blast
    with same_node [OF ok _ j, of k] n have "cs ! j = ?r" by simp
    then show ?thesis using True j whole_p by (simp add: chosen_q nth_assign_chosen whole_def)
  next
    case False
    then show ?thesis using p j whole_p by (simp add: chosen_q nth_assign_chosen follows_def whole_def)
  qed
  then show ?thesis using q whole_extends [OF whole_p offers q] by (auto simp: follows_def)
qed

lemma cover_reached:
  assumes ok: "tables_ok inp" and cover: "whole inp (map Some cs)"
  shows "placeable inp cs \<Longrightarrow> follows inp cs p \<Longrightarrow> reaches inp (empty_partial inp) p \<Longrightarrow> \<exists>q. reaches inp p q \<and> lowestUncovered inp q = None \<and> follows inp cs q"
proof (induction "card (open_nodes inp p)" arbitrary: p rule: less_induct)
  case less
  show ?case
  proof (cases "lowestUncovered inp p")
    case None
    with less.prems show ?thesis by (blast intro: reaches.here)
  next
    case (Some i)
    note low = lowest_Some [OF Some]
    have offers: "offered inp (cs ! i)" using cover_at(1) [OF cover] low by blast
    obtain k where at: "cs ! i = (i, k)" using cover_anchor [OF ok cover less.prems(2) Some] by (metis prod.collapse)
    obtain q where q: "q \<in> set (fst (extendStates inp p (cs ! i)))" "follows inp cs q"
      using cover_step [OF ok cover less.prems(1,2) Some less.prems(3)] by blast
    have shrinks: "card (open_nodes inp q) < card (open_nodes inp p)"
      using extension_progress [OF tables_ok_cover [OF ok] offers _ q(1)] less.prems(2) by (simp add: follows_def)
    have k: "k < length (table_instances (tables inp ! i))" using offers at by (simp add: offered_def)
    have "reaches inp p q" using reaches.branch [OF Some k _ reaches.here] q(1) at by simp
    with less.hyps [OF _ less.prems(1) q(2)] shrinks less.prems(3) obtain s where
      s: "reaches inp q s" "lowestUncovered inp s = None" "follows inp cs s" by (blast intro: reaches_trans)
    from reaches.branch [OF Some k _ s(1)] q(1) at s(2,3) show ?thesis by auto
  qed
qed

lemma follows_start [simp]: "follows inp cs (empty_partial inp)"
  by (simp add: follows_def empty_partial_def whole_def)

lemma set_retain_best: "topK inp = 0 \<Longrightarrow> set (retain_best inp ps) = set ps"
  by (simp add: retain_best_def)

lemma finish_Inr:
  "finish_search inp w = Inr res \<Longrightarrow>
     pending_error (search_log w) = None \<and>
     plans res = map (\<lambda>p. p\<lparr>plan_truncated := result_truncated res\<rparr>) (retain_best inp (retained w)) \<and>
     planCount res = length (retained w)"
  by (auto simp: finish_search_def Let_def split: option.splits)

lemma search_exact:
  assumes "mode inp = Exact" "search inp = Some (Inr res)"
  obtains w where "depth_first inp True = Some w" "finish_search inp w = Inr res"
  using assms by (auto simp: search_def split: if_splits)

text \<open>What the completion evaluator may say of a proposal that is not kept: a rejection, or a plan that is not
  complete.\<close>

definition declined :: "search_input \<Rightarrow> search_proposal \<Rightarrow> bool" where
  "declined inp proposal \<longleftrightarrow> (\<exists>evaluate ev. evaluateCompletePlan inp = Some evaluate \<and> evaluate proposal = Inr ev \<and>
     (case eval_plan ev of
        None \<Rightarrow> eval_rejection ev \<noteq> None
      | Some plan \<Rightarrow> eval_rejection ev = None \<and> \<not> (materialized plan \<and> physicalComplete plan)))"

lemma retain_outcomes:
  assumes "pending_error (snd (retain inp said p)) = None"
  shows "declined inp (buildProposal inp said p) \<or> fst (retain inp said p) \<noteq> None"
proof (cases "evaluateCompletePlan inp")
  case (Some evaluate)
  show ?thesis
  proof (cases "evaluate (buildProposal inp said p)")
    case (Inr ev)
    then show ?thesis using Some assms
      by (cases "eval_plan ev"; cases "eval_rejection ev") (auto simp: retain_def declined_def Let_def split: if_splits prod.splits)
  qed (use Some assms in \<open>simp add: retain_def\<close>)
qed (simp add: retain_def)

text \<open>C3: the exact search is exhaustive. Let the tables hold one table per node, each instance being listed with
  the first of the nodes it covers, and take any way of implementing the graph, each node by exactly one of the
  offered instances, fused or not, of which the search refuses no placement. If an exact search without a cap on
  its plans returns, it has proposed that way: the plan of the proposal is among the results, as the
  completion evaluator gave it where there is one, or the evaluator declined the proposal with a rejection
  or an incomplete plan.\<close>

theorem exact_finds_every_cover:
  assumes ok: "tables_ok inp" and free: "placeable inp cs"
    and exact: "mode inp = Exact" "topK inp = 0"
    and res: "search inp = Some (Inr res)"
    and cover: "whole inp (map Some cs)"
  shows "\<exists>proposal. prop_placements proposal = zip [0..<length cs] cs \<and>
    ((\<exists>kept. kept_as inp proposal kept \<and> kept\<lparr>plan_truncated := result_truncated res\<rparr> \<in> set (plans res)) \<or> declined inp proposal)"
proof -
  obtain w where w: "depth_first inp True = Some w" and finish: "finish_search inp w = Inr res"
    using search_exact [OF exact(1) res] .
  obtain q where q: "reaches inp (empty_partial inp) q" "lowestUncovered inp q = None" "follows inp cs q"
    using cover_reached [OF ok cover free follows_start reaches.here] by blast
  have "\<exists>said. pending_error (snd (retain inp said q)) = None \<and>
      (case fst (retain inp said q) of None \<Rightarrow> True | Some plan \<Rightarrow> plan \<in> set (retained w))"
    using w unfolding depth_first_def
    by (rule visit_reaches) (use finish_Inr [OF finish] q in \<open>auto simp: running_def walk_start_def\<close>)
  then obtain said where calm: "pending_error (snd (retain inp said q)) = None"
    and found: "case fst (retain inp said q) of None \<Rightarrow> True | Some plan \<Rightarrow> plan \<in> set (retained w)" by blast
  have placements: "prop_placements (buildProposal inp said q) = zip [0..<length cs] cs"
  proof -
    have len: "length (chosen q) = length (tables inp)" using q(3) by (simp add: follows_def whole_def)
    have "the (chosen q ! i) = cs ! i" if "i < length (tables inp)" for i
      using q(2,3) that by (force simp: lowest_None follows_def)
    then show ?thesis
      using proposal_placements [OF len q(2)] cover_len [OF cover]
      by (auto intro: nth_equalityI)
  qed
  show ?thesis
  proof (cases "fst (retain inp said q)")
    case None
    then show ?thesis using retain_outcomes [OF calm] placements by blast
  next
    case (Some kept)
    then have "kept\<lparr>plan_truncated := result_truncated res\<rparr> \<in> set (plans res)"
      using finish_Inr [OF finish] found set_retain_best [OF exact(2)] by simp
    moreover have "kept_as inp (buildProposal inp said q) kept"
      using Some by (intro retain_kept [where ?said2.0 = "snd (retain inp said q)"]) (simp add: prod_eq_iff)
    ultimately show ?thesis using placements by blast
  qed
qed

section \<open>The beam\<close>

lemma chosen_bound [simp]: "chosen (q\<lparr>lowerBound := c\<rparr>) = chosen q"
  by simp

text \<open>A partial cover of the next level comes from one of this level.\<close>

definition beam_child :: "search_input \<Rightarrow> partial \<Rightarrow> partial \<Rightarrow> bool" where
  "beam_child inp p q \<longleftrightarrow> (\<exists>i k s. lowestUncovered inp p = Some i \<and> offered inp (i, k) \<and>
     s \<in> set (fst (extendStates inp p (i, k))) \<and> q = s\<lparr>lowerBound := boundCost inp s\<rparr>)"

lemma fold_collects:
  assumes "\<And>x acc q. x \<in> set xs \<Longrightarrow> q \<in> set (fst (f x acc)) \<Longrightarrow> q \<in> set (fst acc) \<or> P x q"
    and "q \<in> set (fst (fold f xs acc))"
  shows "q \<in> set (fst acc) \<or> (\<exists>x \<in> set xs. P x q)"
  using assms
proof (induction xs arbitrary: acc)
  case Nil
  then show ?case by simp
next
  case (Cons x xs)
  have "q \<in> set (fst (f x acc)) \<or> (\<exists>x \<in> set xs. P x q)"
    by (rule Cons.IH) (use Cons.prems in auto)
  with Cons.prems(1) [of x q acc] show ?case by auto
qed

lemma beam_extend_set:
  assumes "q \<in> set (fst (beam_extend inp p acc))"
  shows "q \<in> set (fst acc) \<or> beam_child inp p q"
proof (cases "lowestUncovered inp p")
  case None
  with assms show ?thesis by (simp add: beam_extend_def)
next
  case (Some i)
  have "q \<in> set (fst acc) \<or> (\<exists>k \<in> set [0..<length (table_instances (tables inp ! i))].
      \<exists>s \<in> set (fst (extendStates inp p (i, k))). q = s\<lparr>lowerBound := boundCost inp s\<rparr>)"
    using assms unfolding beam_extend_def Some option.case
    by (rule fold_collects [rotated]) (auto simp: split_def Let_def)
  then consider "q \<in> set (fst acc)" | k s where "k < length (table_instances (tables inp ! i))"
    "s \<in> set (fst (extendStates inp p (i, k)))" "q = s\<lparr>lowerBound := boundCost inp s\<rparr>" by auto
  then show ?thesis
    by cases (use Some lowest_offers [OF Some] in \<open>unfold beam_child_def, blast+\<close>)
qed

lemma beam_level_set:
  assumes "q \<in> set (fst (beam_level inp beam said))"
  shows "\<exists>p \<in> set beam. beam_child inp p q"
proof -
  have "q \<in> set (fst (fold (beam_extend inp) beam ([], said)))"
    using assms by (auto simp: beam_level_def Let_def split: prod.splits if_splits dest: in_set_takeD)
  then have "q \<in> set (fst ([] :: partial list, said)) \<or> (\<exists>p \<in> set beam. beam_child inp p q)"
    by (rule fold_collects [rotated]) (rule beam_extend_set)
  then show ?thesis by simp
qed

text \<open>A node covered together with another one.\<close>

definition fused :: "search_input \<Rightarrow> instance_ref \<Rightarrow> bool" where
  "fused inp r \<longleftrightarrow> card (set (coveredNodes (entry_at inp r))) \<ge> 2"

text \<open>After \<open>depth\<close> levels at least as many nodes are closed, and more when a fused instance is in.\<close>

definition beam_inv :: "search_input \<Rightarrow> nat \<Rightarrow> partial \<Rightarrow> bool" where
  "beam_inv inp depth p \<longleftrightarrow> whole inp (chosen p) \<and> card (open_nodes inp p) + depth \<le> length (tables inp) \<and>
     ((\<exists>i < length (tables inp). \<exists>r. chosen p ! i = Some r \<and> fused inp r) \<longrightarrow>
        card (open_nodes inp p) + depth < length (tables inp))"

lemma open_nodes_bound [simp]: "open_nodes inp (q\<lparr>lowerBound := c\<rparr>) = open_nodes inp q"
  by (simp add: open_nodes_def)

lemma beam_inv_extends:
  assumes cover: "entries_cover inp" and p: "beam_inv inp depth p" and offers: "offered inp r"
    and q: "q \<in> set (fst (extendStates inp p r))"
  shows "beam_inv inp (Suc depth) (q\<lparr>lowerBound := c\<rparr>)"
proof -
  have whole: "whole inp (chosen p)" using p by (simp add: beam_inv_def)
  note closes = extension_closes [OF whole q]
  have "card (set (coveredNodes (entry_at inp r))) > 0"
    using entries_coverD [OF cover offers] by (simp add: card_gt_0_iff)
  moreover have "card (open_nodes inp q) + Suc depth < length (tables inp)"
    if "i < length (tables inp)" "chosen q ! i = Some s" "fused inp s" for i s
  proof (cases "s = r")
    case True
    with that closes p show ?thesis by (auto simp: fused_def beam_inv_def)
  next
    case False
    obtain indices where "chosen q = assign_chosen r indices (chosen p)" using extension_covers [OF q] by blast
    with that False whole have "chosen p ! i = Some s" by (auto simp: nth_assign_chosen whole_def split: if_splits)
    with that p have "card (open_nodes inp p) + depth < length (tables inp)" unfolding beam_inv_def by blast
    with closes calculation show ?thesis by linarith
  qed
  moreover have "card (open_nodes inp p) + depth \<le> length (tables inp)" using p by (simp add: beam_inv_def)
  ultimately show ?thesis
    using whole_extends [OF whole offers q] closes by (auto simp: beam_inv_def)
qed

lemma beam_levels_inv:
  assumes cover: "entries_cover inp"
  shows "\<forall>p \<in> set beam. beam_inv inp depth p \<Longrightarrow> q \<in> set (fst (beam_levels inp n beam said)) \<Longrightarrow> beam_inv inp (depth + n) q"
proof (induction n arbitrary: beam depth said)
  case 0
  then show ?case by simp
next
  case (Suc n)
  obtain beam' said' where level: "beam_level inp beam said = (beam', said')" by (cases "beam_level inp beam said")
  have "\<forall>p \<in> set beam'. beam_inv inp (Suc depth) p"
  proof
    fix p assume "p \<in> set beam'"
    then have "p \<in> set (fst (beam_level inp beam said))" using level by simp
    from beam_level_set [OF this] Suc.prems(1) beam_inv_extends [OF cover] show "beam_inv inp (Suc depth) p"
      unfolding beam_child_def by blast
  qed
  from Suc.IH [OF this] Suc.prems(2) level show ?case by (auto split: if_splits)
qed

lemma beam_levels_whole:
  "\<forall>p \<in> set beam. whole inp (chosen p) \<Longrightarrow> q \<in> set (fst (beam_levels inp n beam said)) \<Longrightarrow> whole inp (chosen q)"
proof (induction n arbitrary: beam said)
  case 0
  then show ?case by simp
next
  case (Suc n)
  obtain beam' said' where level: "beam_level inp beam said = (beam', said')" by (cases "beam_level inp beam said")
  have "\<forall>p \<in> set beam'. whole inp (chosen p)"
  proof
    fix p assume "p \<in> set beam'"
    then have "p \<in> set (fst (beam_level inp beam said))" using level by simp
    from beam_level_set [OF this] Suc.prems(1) whole_extends show "whole inp (chosen p)"
      unfolding beam_child_def by fastforce
  qed
  from Suc.IH [OF this] Suc.prems(2) level show ?case by (auto split: if_splits)
qed

lemma beam_retained:
  assumes "plan \<in> set (retained (beam_search inp))"
  shows "\<exists>q said. q \<in> set (fst (beam_levels inp (length (tables inp)) [empty_partial inp] [])) \<and>
    lowestUncovered inp q = None \<and> kept_as inp (buildProposal inp said q) plan"
proof -
  have "plan \<in> set (retained (fold (beam_retain inp) beam w)) \<Longrightarrow> plan \<in> set (retained w) \<or>
      (\<exists>q \<in> set beam. \<exists>said. lowestUncovered inp q = None \<and> kept_as inp (buildProposal inp said q) plan)" for beam w
  proof (induction beam arbitrary: w)
    case Nil
    then show ?case by simp
  next
    case (Cons q beam)
    have "plan \<in> set (retained (beam_retain inp q w)) \<Longrightarrow> plan \<in> set (retained w) \<or>
        (\<exists>said. lowestUncovered inp q = None \<and> kept_as inp (buildProposal inp said q) plan)"
      using retain_kept [of inp "search_log w" q]
      by (cases "retain inp (search_log w) q") (auto simp: beam_retain_def Let_def split: if_splits option.splits)
    with Cons show ?case by auto
  qed
  with assms show ?thesis
    by (fastforce simp: beam_search_def walk_start_def split: prod.splits)
qed

lemma beam_covers: "covers_kept inp (beam_search inp)"
  unfolding covers_kept_def
proof
  fix plan assume "plan \<in> set (retained (beam_search inp))"
  from beam_retained [OF this] obtain q said where
    q: "q \<in> set (fst (beam_levels inp (length (tables inp)) [empty_partial inp] []))" "lowestUncovered inp q = None"
    and kept: "kept_as inp (buildProposal inp said q) plan" by blast
  from beam_levels_whole [OF _ q(1)] have "whole inp (chosen q)" by simp
  with complete_is_exact q(2) kept show "\<exists>proposal. exact_cover inp proposal \<and> kept_as inp proposal plan" by blast
qed

lemma retain_best_subset: "set (retain_best inp ps) \<subseteq> set ps"
  by (auto simp: retain_best_def Let_def dest: in_set_takeD)

lemma finished_plan:
  assumes "finish_search inp w = Inr res" "plan \<in> set (plans res)"
  obtains kept where "kept \<in> set (retained w)" "plan = kept\<lparr>plan_truncated := result_truncated res\<rparr>"
  using finish_Inr [OF assms(1)] assms(2) retain_best_subset [of inp "retained w"] by auto

text \<open>C2: Every plan a search returns, in whatever mode and whatever the evaluator, comes from an exact cover:
  each node of the graph has one placement, by an instance the tables offer that covers it, and an instance
  placed at one node is placed at every node it covers, so no node is implemented twice and no fused instance
  is applied in part. With an evaluator, the plan is the materialized and complete one it returned for that
  cover without a rejection.\<close>

theorem plans_are_exact_covers:
  assumes "search inp = Some (Inr res)" "plan \<in> set (plans res)"
  shows "\<exists>proposal kept. exact_cover inp proposal \<and> kept_as inp proposal kept \<and>
    plan = kept\<lparr>plan_truncated := result_truncated res\<rparr>"
proof -
  obtain w where w: "finish_search inp w = Inr res" "covers_kept inp w"
    using assms(1) beam_covers depth_first_covers by (auto simp: search_def split: if_splits)
  obtain kept where "kept \<in> set (retained w)" "plan = kept\<lparr>plan_truncated := result_truncated res\<rparr>"
    using finished_plan [OF w(1) assms(2)] .
  with w(2) show ?thesis unfolding covers_kept_def by blast
qed

text \<open>C10: The beam never returns a plan that uses a fused instance: it drops a partial cover that is complete
  before the last level, and a level closes one node at least, so only covers with one instance per node
  reach the end. Every placement of a plan it returns covers its own node alone.\<close>

theorem beam_never_fuses:
  assumes cover: "entries_cover inp" and beam: "mode inp = Beam"
    and res: "search inp = Some (Inr res)" and plan: "plan \<in> set (plans res)"
  shows "\<exists>proposal kept. kept_as inp proposal kept \<and> plan = kept\<lparr>plan_truncated := result_truncated res\<rparr> \<and>
    (\<forall>(i, r) \<in> set (prop_placements proposal). set (coveredNodes (entry_at inp r)) = {table_node (tables inp ! i)})"
proof -
  have finish: "finish_search inp (beam_search inp) = Inr res"
    using res beam by (auto simp: search_def split: if_splits)
  obtain kept where kept: "kept \<in> set (retained (beam_search inp))" "plan = kept\<lparr>plan_truncated := result_truncated res\<rparr>"
    using finished_plan [OF finish plan] .
  obtain q said where q: "q \<in> set (fst (beam_levels inp (length (tables inp)) [empty_partial inp] []))" "lowestUncovered inp q = None"
    and as: "kept_as inp (buildProposal inp said q) kept" using beam_retained [OF kept(1)] by blast
  have "card (open_nodes inp (empty_partial inp)) \<le> card {i. i < length (tables inp)}"
    by (rule card_mono) (auto simp: open_nodes_def)
  then have "beam_inv inp 0 (empty_partial inp)"
    unfolding beam_inv_def by (auto simp: chosen_empty)
  from beam_levels_inv [OF cover _ q(1), of 0] this have inv: "beam_inv inp (length (tables inp)) q" by simp
  then have whole: "whole inp (chosen q)" by (simp add: beam_inv_def)
  have single: "set (coveredNodes (entry_at inp r)) = {table_node (tables inp ! i)}"
    if i: "i < length (tables inp)" and r: "chosen q ! i = Some r" for i r
  proof -
    have "\<not> fused inp r" using inv i r by (auto simp: beam_inv_def)
    moreover have "table_node (tables inp ! i) \<in> set (coveredNodes (entry_at inp r))" by (rule wholeD(2) [OF whole r i])
    ultimately show ?thesis unfolding fused_def
      by (metis One_nat_def Suc_1 card_1_singletonE card_gt_0_iff List.finite_set empty_iff le_antisym not_less_eq_eq singletonD Suc_leI)
  qed
  have "length (chosen q) = length (tables inp)" using whole by (simp add: whole_def)
  from proposal_placements [OF this q(2), of said] single q(2)
  have "\<forall>(i, r) \<in> set (prop_placements (buildProposal inp said q)). set (coveredNodes (entry_at inp r)) = {table_node (tables inp ! i)}"
    by (auto simp: lowest_None)
  with as kept(2) show ?thesis by blast
qed

section \<open>The best plans\<close>

lemma plan_before_trans:
  "no_nan (plan_cost a) \<Longrightarrow> no_nan (plan_cost b) \<Longrightarrow> no_nan (plan_cost c) \<Longrightarrow>
     plan_before inp a b \<Longrightarrow> plan_before inp b c \<Longrightarrow> plan_before inp a c"
  unfolding plan_before_def using ranking_strict_total by blast

lemma plan_before_total:
  "no_nan (plan_cost a) \<Longrightarrow> no_nan (plan_cost b) \<Longrightarrow> plan_id a \<noteq> plan_id b \<Longrightarrow> plan_before inp a b \<or> plan_before inp b a"
  unfolding plan_before_def using ranking_strict_total [of "plan_cost a" "plan_cost b" "plan_cost b"] by blast

lemma plan_before_flag [simp]:
  "plan_before inp (a\<lparr>plan_truncated := s\<rparr>) b = plan_before inp a b"
  "plan_before inp a (b\<lparr>plan_truncated := s\<rparr>) = plan_before inp a b"
  by (simp_all add: plan_before_def)

lemma sorted_plans:
  assumes "distinct (map plan_id ps)" "\<forall>p \<in> set ps. no_nan (plan_cost p)"
  shows "sorted_wrt (plan_before inp) (sort_by (plan_before inp) ps)"
proof (rule sorted_sort_by)
  show "plan_before inp a c" if "a \<in> set ps" "b \<in> set ps" "c \<in> set ps" "plan_before inp a b" "plan_before inp b c" for a b c
    using that assms(2) plan_before_trans by blast
  have "sorted_wrt (\<lambda>a b. plan_id a \<noteq> plan_id b) ps"
    using assms(1) by (simp add: distinct_conv_nth sorted_wrt_iff_nth_less)
  then show "sorted_wrt (\<lambda>a b. plan_before inp a b \<or> plan_before inp b a) ps"
    by (rule sorted_wrt_mono_rel [rotated]) (use assms(2) plan_before_total in blast)
qed

text \<open>What a prefix of a sorted list leaves out comes after it.\<close>

lemma sorted_prefix_best:
  "sorted_wrt lt xs \<Longrightarrow> p \<in> set xs \<Longrightarrow> p \<in> set (take n xs) \<or> (\<forall>q \<in> set (take n xs). lt q p)"
  using sorted_wrt_append [of lt "take n xs" "drop n xs"] append_take_drop_id [of n xs]
  by (metis Un_iff set_append)

text \<open>C16: The returned plans are the best ones. With distinct plan ids and costs without NaN they are in the
  order of the declared objective and then the plan id, there are as many as the cap allows and as were
  retained, every retained plan that is not returned comes after every returned one, and dropping one is
  reported as a truncation.\<close>

theorem top_plans_best:
  assumes finish: "finish_search inp w = Inr res"
    and ids: "distinct (map plan_id (retained w))" and costs: "\<forall>p \<in> set (retained w). no_nan (plan_cost p)"
  shows "sorted_wrt (plan_before inp) (plans res) \<and>
    length (plans res) = (if topK inp = 0 then planCount res else min (topK inp) (planCount res)) \<and>
    (\<forall>p \<in> set (retained w). p\<lparr>plan_truncated := result_truncated res\<rparr> \<in> set (plans res) \<or>
       (\<forall>q \<in> set (plans res). plan_before inp q p)) \<and>
    (length (plans res) < planCount res \<longrightarrow> result_truncated res)"
proof -
  let ?ranked = "sort_by (plan_before inp) (retained w)"
  let ?flag = "\<lambda>p. p\<lparr>plan_truncated := result_truncated res\<rparr>"
  obtain n where best: "retain_best inp (retained w) = take n ?ranked"
    by (cases "topK inp \<noteq> 0 \<and> topK inp < length (retained w)")
      (auto simp: retain_best_def Let_def intro: that [of "topK inp"] that [of "length (retained w)"])
  have plans: "plans res = map ?flag (take n ?ranked)" and count: "planCount res = length (retained w)"
    using finish_Inr [OF finish] best by simp_all
  note sorted = sorted_plans [OF ids costs, of inp]
  have "sorted_wrt (plan_before inp) (plans res)"
    using sorted_wrt_take [OF sorted, of n] by (simp add: plans sorted_wrt_map)
  moreover have "?flag p \<in> set (plans res) \<or> (\<forall>q \<in> set (plans res). plan_before inp q p)" if "p \<in> set (retained w)" for p
    using sorted_prefix_best [OF sorted, of p n] that by (auto simp: plans)
  moreover have "length (plans res) = (if topK inp = 0 then planCount res else min (topK inp) (planCount res))"
    using finish_Inr [OF finish] by (simp add: retain_best_def Let_def)
  moreover have "length (plans res) < planCount res \<longrightarrow> result_truncated res"
    using finish by (auto simp: finish_search_def Let_def retain_best_def searchTruncated_def cap_notes_def split: option.splits if_splits)
  ultimately show ?thesis by blast
qed

section \<open>The connection cap\<close>

text \<open>The full product of the decisions' realizations, best-first, with the connections each stages.\<close>

primrec joint_leaves :: "search_input \<Rightarrow> decision_spec list \<Rightarrow> partial \<Rightarrow> connection_plan list \<Rightarrow> (partial \<times> connection_plan list) list" where
  "joint_leaves inp [] p staged = [(p, staged)]"
| "joint_leaves inp (spec # specs) p staged =
     concat (map (\<lambda>r. joint_leaves inp specs (applyRealization inp r p) (staged @ map (effective_plan inp) (real_plans r)))
       (sortDecision inp (fst (specAlternatives inp spec p))))"

text \<open>Examining the leaves of a list in turn.\<close>

definition examines :: "search_input \<Rightarrow> nat list \<Rightarrow> (partial \<times> connection_plan list) list \<Rightarrow> joint \<Rightarrow> joint \<Rightarrow> bool" where
  "examines inp completed leaves j j' \<longleftrightarrow>
     (if capped j then capped j' \<and> branches j' = branches j \<and> examined j' = examined j
      else examined j' = examined j + min (length leaves) (maxConnectionCombinations inp - examined j) \<and>
        capped j' = (maxConnectionCombinations inp - examined j < length leaves) \<and>
        branches j' = branches j @ List.map_filter (\<lambda>(p, staged). fst (finish_leaf inp completed p staged))
          (take (maxConnectionCombinations inp - examined j) leaves))"

lemma examines_none: "examines inp completed [] j j"
  by (simp add: examines_def List.map_filter_simps)

lemma map_filter_append: "List.map_filter f (xs @ ys) = List.map_filter f xs @ List.map_filter f ys"
  by (simp add: List.map_filter_def)

lemma examines_append:
  assumes "examines inp completed xs j j1" "examines inp completed ys j1 j2" "examined j \<le> maxConnectionCombinations inp"
  shows "examines inp completed (xs @ ys) j j2"
proof (cases "capped j \<or> capped j1")
  case True
  with assms show ?thesis by (auto simp: examines_def)
next
  case False
  with assms have "length xs \<le> maxConnectionCombinations inp - examined j" "examined j1 = examined j + length xs"
    by (auto simp: examines_def min_def split: if_splits)
  with False assms show ?thesis by (auto simp: examines_def map_filter_append min_def)
qed

lemma examines_bound:
  "examines inp completed xs j j' \<Longrightarrow> examined j \<le> maxConnectionCombinations inp \<Longrightarrow> examined j' \<le> maxConnectionCombinations inp"
  by (auto simp: examines_def split: if_splits)

lemma examines_leaf:
  assumes "examined j \<le> maxConnectionCombinations inp"
  shows "examines inp completed [(p, staged)] j (if capped j then j else examine_leaf inp completed p staged j)"
proof (cases "capped j \<or> examined j = maxConnectionCombinations inp")
  case True
  then show ?thesis by (auto simp: examines_def examine_leaf_def List.map_filter_simps)
next
  case False
  obtain leaf said where "finish_leaf inp completed p staged = (leaf, said)" by (cases "finish_leaf inp completed p staged")
  with False assms show ?thesis
    by (cases leaf) (auto simp: examines_def examine_leaf_def Let_def List.map_filter_simps take_Cons' split: if_splits)
qed

lemma examines_notes [simp]:
  "examines inp completed xs (j\<lparr>joint_notes := n\<rparr>) j' = examines inp completed xs j j'"
  by (simp add: examines_def)

lemma step_examines:
  "examined j \<le> maxConnectionCombinations inp \<Longrightarrow>
   examines inp completed (joint_leaves inp specs p staged) j (step inp completed specs p staged j)"
proof (induction specs arbitrary: p staged j)
  case Nil
  then show ?case using examines_leaf by simp
next
  case (Cons spec specs)
  let ?leaves = "\<lambda>r. joint_leaves inp specs (applyRealization inp r p) (staged @ map (effective_plan inp) (real_plans r))"
  let ?go = "\<lambda>r j. if capped j then j else step inp completed specs (applyRealization inp r p)
      (staged @ map (effective_plan inp) (real_plans r)) j"
  have one: "examines inp completed (?leaves r) j (?go r j)" if "examined j \<le> maxConnectionCombinations inp" for r j
    using Cons.IH [OF that] by (simp add: examines_def)
  have all: "examined j \<le> maxConnectionCombinations inp \<Longrightarrow>
      examines inp completed (concat (map ?leaves rs)) j (fold ?go rs j)" for rs j
  proof (induction rs arbitrary: j)
    case Nil
    then show ?case by (simp add: examines_none)
  next
    case (Cons r rs)
    from examines_append [OF one [OF Cons.prems] Cons.IH [OF examines_bound [OF one [OF Cons.prems] Cons.prems]] Cons.prems]
    show ?case by simp
  qed
  obtain alternatives said where alts: "specAlternatives inp spec p = (alternatives, said)" by (cases "specAlternatives inp spec p")
  show ?case
  proof (cases "capped j")
    case True
    then show ?thesis by (simp add: examines_def)
  next
    case False
    from all [of "j\<lparr>joint_notes := joint_notes j @ said\<rparr>" "sortDecision inp alternatives"] Cons.prems
    have "examines inp completed (concat (map ?leaves (sortDecision inp alternatives))) j
        (fold ?go (sortDecision inp alternatives) (j\<lparr>joint_notes := joint_notes j @ said\<rparr>))" by simp
    with False alts show ?thesis by simp
  qed
qed

text \<open>C17: A placement's connection cap keeps a prefix of the full product. The branches a placement opens are
  the first leaves of the best-first product of its decisions' realizations, at most
  \<^verbatim>\<open>maxConnectionCombinations\<close> of them, less those whose memories do not fit; a product within the cap is
  explored in full, and a larger one is reported as a truncation.\<close>

theorem connection_cap_keeps_prefix:
  assumes placed: "placeInstance inp r parent = (Some placed, said)"
    and base: "base = placed\<lparr>par_cost := addCost (par_cost placed) (entry_cost (entry_at inp r))\<rparr>"
    and decided: "d = buildDecisionSpecs inp base (fst r)"
    and leaves: "leaves = joint_leaves inp (dec_specs d) (base\<lparr>linked := dec_linked d\<rparr>) []"
  shows "fst (extendStates inp parent r) =
      List.map_filter (\<lambda>(p, staged). fst (finish_leaf inp (dec_completed d) p staged))
        (take (maxConnectionCombinations inp) leaves) \<and>
    (maxConnectionCombinations inp < length leaves \<longrightarrow> searchTruncated (snd (extendStates inp parent r)))"
proof -
  let ?start = "\<lparr>examined = 0, capped = False, branches = [], joint_notes = []\<rparr>"
  let ?j = "step inp (dec_completed d) (dec_specs d) (base\<lparr>linked := dec_linked d\<rparr>) [] ?start"
  have run: "examines inp (dec_completed d) leaves ?start ?j"
    unfolding leaves by (rule step_examines) simp
  have result: "extendStates inp parent r = (branches ?j, said @ dec_notes d @ joint_notes ?j @
      (if capped ?j then cap_notes (''connection choice cap reached (maxConnectionCombinations='' @
         nat_to_string (maxConnectionCombinations inp) @ '')'') else []))"
    using placed by (simp add: extendStates_def base decided Let_def)
  have "capped ?j = (maxConnectionCombinations inp < length leaves)"
    "branches ?j = List.map_filter (\<lambda>(p, staged). fst (finish_leaf inp (dec_completed d) p staged))
        (take (maxConnectionCombinations inp) leaves)"
    using run by (simp_all add: examines_def)
  then show ?thesis by (simp add: result searchTruncated_def cap_notes_def)
qed

section \<open>A worked example\<close>

text \<open>Two nodes, which one fused instance implements together or one instance each.\<close>

definition bare_node :: "nat \<Rightarrow> workload_node" where
  "bare_node i = \<lparr>wn_id = i, wn_op = ''micro.copy'', wn_inputs = [], wn_outputs = [], wn_attributes = None, sourceOrdinal = i,
     executionMultiplicity = Some 1, simultaneousMultiplicity = Some 1\<rparr>"

definition bare_entry :: "nat \<Rightarrow> nat \<Rightarrow> nat list \<Rightarrow> instance_entry" where
  "bare_entry i bytes nodes =
     \<lparr>entry_instance = \<lparr>inst_id = i, memoryBindings = [], portMemoryBindings = [], slots = 1, usageBytes = []\<rparr>,
      entry_cost = zero_cost\<lparr>dramBytes := bytes\<rparr>, coveredNodes = nodes\<rparr>"

definition duo_tables :: "node_table list" where
  "duo_tables =
     [\<lparr>table_node = 4, table_workload = bare_node 4, table_instances = [bare_entry 10 1 [4, 7], bare_entry 11 1 [4]]\<rparr>,
      \<lparr>table_node = 7, table_workload = bare_node 7, table_instances = [bare_entry 12 1 [7]]\<rparr>]"

definition duo_search :: "search_mode \<Rightarrow> node_table list \<Rightarrow> search_input" where
  "duo_search m ts =
     \<lparr>tables = ts, workload = \<lparr>wg_nodes = map table_workload ts, wg_values = []\<rparr>,
      machine = sample_machine,
      mode = m, beamWidth = 64, topK = 0, maxRoutesPerConnection = 8, maxConnectionCombinations = 64, memoryBudgetBytes = 1024,
      objective = \<lparr>primary = DramBytes, secondary = [], minimize = True\<rparr>, requireCompleteEvaluation = False,
      evaluateCompletePlan = None, tile_bytes = \<lambda>_. None, layout_image = \<lambda>_ _. None, use_key = \<lambda>_ _. [],
      route_choices = \<lambda>_ _. \<lparr>route_cap = False, route_refused = None, route_missing = None, route_count = 0,
        product_cap = False, realizations = []\<rparr>,
      measured_cycles = \<lambda>_. None, schedule_plan = \<lambda>p. Inr (Inr (accumulatedCost p)),
      compute_plan_id = \<lambda>p. foldl (\<lambda>h i. 31 * h + i) 7 (prop_instances p)\<rparr>"

text \<open>A graph without dataflow and instances without storage: a placement opens at most one branch.\<close>

definition bare :: "search_input \<Rightarrow> bool" where
  "bare inp \<longleftrightarrow> valueLinks (tables inp) = [] \<and> 0 < maxConnectionCombinations inp \<and>
     (\<forall>t \<in> set (tables inp). \<forall>e \<in> set (table_instances t). memoryBindings (entry_instance e) = [] \<and>
        portMemoryBindings (entry_instance e) = [] \<and> usageBytes (entry_instance e) = [])"

definition bare_next :: "search_input \<Rightarrow> instance_ref \<Rightarrow> partial \<Rightarrow> partial" where
  "bare_next inp r q = q\<lparr>executorSlots := wrap64 (executorSlots q + slots (entry_instance (entry_at inp r))), linked := [],
     par_cost := addCost (par_cost q) (entry_cost (entry_at inp r)), par_id := partialId inp (chosen q)\<rparr>"

lemma bare_extend:
  assumes bare: "bare inp" and offers: "offered inp r" and empty: "memoryBytes p = []"
  shows "extendStates inp p r =
    (case cover_nodes inp r p of None \<Rightarrow> ([], []) | Some q \<Rightarrow> ([bare_next inp r q], [Expanded]))"
proof -
  let ?e = "entry_at inp r"
  have "?e \<in> set (table_instances (tables inp ! fst r))" "tables inp ! fst r \<in> set (tables inp)"
    using offers by (auto simp: offered_def entry_at_def)
  then have none: "memoryBindings (entry_instance ?e) = []" "portMemoryBindings (entry_instance ?e) = []" "usageBytes (entry_instance ?e) = []"
    using bare by (auto simp: bare_def)
  have links: "valueLinks (tables inp) = []" "0 < maxConnectionCombinations inp" using bare by (simp_all add: bare_def)
  show ?thesis
  proof (cases "cover_nodes inp r p")
    case None
    then show ?thesis by (simp add: extendStates_def placeInstance_def Let_def)
  next
    case (Some q)
    then have "memoryBytes q = []" using empty by (auto simp: cover_nodes_def)
    with Some none links show ?thesis
      by (simp add: extendStates_def placeInstance_def Let_def charge_memories_def charge_usage_def buildDecisionSpecs_def
          examine_leaf_def finish_leaf_def capacityOk_def releaseCompleted_def bare_next_def)
  qed
qed

lemma bare_never_refuses:
  assumes bare: "bare inp"
  shows "never_refuses inp"
proof -
  have kept: "memoryBytes q = []" if "reaches inp p q" "memoryBytes p = []" for p q
    using that
  proof (induction rule: reaches.induct)
    case (here p)
    then show ?case .
  next
    case (branch p i k q r)
    have "memoryBytes q = []"
      using branch.hyps(3) branch.prems bare_extend [OF bare lowest_offers [OF branch.hyps(1,2)] branch.prems]
      by (auto simp: bare_next_def cover_nodes_def split: option.splits)
    with branch.IH show ?case by simp
  qed
  show ?thesis
    unfolding never_refuses_def
  proof (intro allI impI)
    fix p i k
    assume reached: "reaches inp (empty_partial inp) p" and i: "lowestUncovered inp p = Some i"
      and k: "k < length (table_instances (tables inp ! i))" and fits: "cover_nodes inp (i, k) p \<noteq> None"
    have "memoryBytes p = []" using kept [OF reached] by (simp add: empty_partial_def)
    with fits show "fst (extendStates inp p (i, k)) \<noteq> []"
      using bare_extend [OF bare lowest_offers [OF i k]] by auto
  qed
qed

lemma duo_links [simp]: "valueLinks duo_tables = []"
  by (simp add: valueLinks_def duo_tables_def bare_node_def List.map_filter_simps)

lemma duo_fields [simp]:
  "tables (duo_search m ts) = ts" "mode (duo_search m ts) = m" "topK (duo_search m ts) = 0"
  "evaluateCompletePlan (duo_search m ts) = None" "beamWidth (duo_search m ts) = 64"
  "requireCompleteEvaluation (duo_search m ts) = False" "maxConnectionCombinations (duo_search m ts) = 64"
  "objective (duo_search m ts) = \<lparr>primary = DramBytes, secondary = [], minimize = True\<rparr>"
  by (simp_all add: duo_search_def)

lemma duo_length [simp]: "length duo_tables = 2"
  by (simp add: duo_tables_def)

lemma duo_instances [simp]:
  "table_instances (duo_tables ! 0) = [bare_entry 10 1 [4, 7], bare_entry 11 1 [4]]"
  "table_instances (duo_tables ! Suc 0) = [bare_entry 12 1 [7]]"
  "table_node (duo_tables ! 0) = 4" "table_node (duo_tables ! Suc 0) = 7"
  by (simp_all add: duo_tables_def)

lemma bare_entry_fields [simp]:
  "coveredNodes (bare_entry i b nodes) = nodes" "inst_id (entry_instance (bare_entry i b nodes)) = i"
  by (simp_all add: bare_entry_def)

lemma bare_entry_costs [simp]:
  "entry_cost (bare_entry i b nodes) = zero_cost\<lparr>dramBytes := b\<rparr>" "slots (entry_instance (bare_entry i b nodes)) = 1"
  by (simp_all add: bare_entry_def)

lemma duo_scores [simp]:
  "schedule_plan (duo_search m ts) p = Inr (Inr (accumulatedCost p))"
  "compute_plan_id (duo_search m ts) p = foldl (\<lambda>h i. 31 * h + i) 7 (prop_instances p)"
  by (simp_all add: duo_search_def)

lemma add_bytes [simp]:
  "addCost zero_cost (zero_cost\<lparr>dramBytes := b\<rparr>) = zero_cost\<lparr>dramBytes := wrap64 b\<rparr>"
  "addCost (zero_cost\<lparr>dramBytes := a\<rparr>) (zero_cost\<lparr>dramBytes := b\<rparr>) = zero_cost\<lparr>dramBytes := wrap64 (a + b)\<rparr>"
  by (simp_all add: addCost_def zero_cost_def double_add_def is_inf_def round_double_def wrap64_def)

lemma duo_bare: "bare (duo_search m duo_tables)"
  unfolding bare_def by (simp del: duo_instances) (auto simp: duo_tables_def bare_entry_def)

lemma less_two: "(\<forall>i < (2::nat). P i) \<longleftrightarrow> P 0 \<and> P (Suc 0)"
  by (auto simp: less_2_cases_iff)

lemma duo_ok: "tables_ok (duo_search m duo_tables)"
  by (simp add: tables_ok_def less_two) (simp add: duo_tables_def)

lemmas duo_steps = bare_extend [OF duo_bare] offered_def entry_at_def lowestUncovered_def cover_nodes_def table_index_def
  assign_chosen_def bare_next_def upt_rec empty_partial_def visit_entry_def retain_leaf_def retain_def walk_start_def
  unevaluated_plan_def buildProposal_def List.map_filter_simps searchTruncated_def wrap64_def numeral_2_eq_2

definition duo_plan :: "nat list \<Rightarrow> (nat \<times> instance_ref) list \<Rightarrow> nat \<Rightarrow> covering_plan" where
  "duo_plan ids placements bytes =
     \<lparr>plan_id = foldl (\<lambda>h i. 31 * h + i) 7 ids,
      plan_proposal = \<lparr>prop_instances = ids, prop_connections = [], prop_placements = placements,
        accumulatedCost = zero_cost\<lparr>dramBytes := bytes\<rparr>, prop_truncated = False\<rparr>,
      plan_cost = zero_cost\<lparr>dramBytes := bytes\<rparr>, materialized = False, physicalComplete = False,
      scheduled_score = True, storageNotes = [], warnings = [], physicalReasons = [], plan_truncated = False\<rparr>"

abbreviation duo_fused :: covering_plan where
  "duo_fused \<equiv> duo_plan [10, 10] [(0, (0, 0)), (1, (0, 0))] 1"

abbreviation duo_split :: covering_plan where
  "duo_split \<equiv> duo_plan [11, 12] [(0, (0, 1)), (1, (1, 0))] 2"

lemma duo_exact_walk:
  "depth_first (duo_search m duo_tables) True =
     Some \<lparr>search_log = [Expanded, Expanded, Expanded], retained = [duo_fused, duo_split], halted = False\<rparr>"
  by (simp add: depth_first_def duo_steps duo_plan_def)

lemma duo_deterministic_walk:
  "depth_first (duo_search m duo_tables) False =
     Some \<lparr>search_log = [Expanded], retained = [duo_fused], halted = True\<rparr>"
  by (simp add: depth_first_def duo_steps duo_plan_def)

lemma duo_beam:
  "beam_search (duo_search Beam duo_tables) =
     \<lparr>search_log = [Expanded, Expanded, Expanded], retained = [duo_split], halted = False\<rparr>"
  by (simp add: beam_search_def beam_level_def beam_extend_def beam_retain_def sort_by_def duo_steps duo_plan_def)


lemma small_counts [simp]: "double_of_nat (Suc 0) = Finite 1" "double_of_nat 2 = Finite 2"
  using round_half_even_nat [of 1] round_half_even_nat [of 2]
  by (simp_all add: double_of_nat_def round53_def compute_floorlog [of 2 "Suc 0"] compute_floorlog [of 2 2]
      compute_floorlog [of 2 0])

lemma duo_order [simp]: "plan_before (duo_search m ts) (duo_plan i p 2) (duo_plan j q (Suc 0)) \<longleftrightarrow> False"
  by (simp add: plan_before_def duo_plan_def ranksBefore_def costLess_def compare_metric_def
      zero_cost_def double_eq_def double_less_def Let_def)

lemma duo_exact_search:
  "\<exists>res. search (duo_search Exact duo_tables) = Some (Inr res) \<and> plans res = [duo_fused, duo_split] \<and> \<not> result_truncated res"
  by (simp add: search_def duo_exact_walk finish_search_def retain_best_def sort_by_def hasEvaluator_def searchTruncated_def)
    (simp add: duo_plan_def Let_def)

lemma duo_beam_search:
  "\<exists>res. search (duo_search Beam duo_tables) = Some (Inr res) \<and> plans res = [duo_split] \<and> \<not> result_truncated res"
  by (simp add: search_def duo_beam finish_search_def retain_best_def sort_by_def hasEvaluator_def searchTruncated_def)
    (simp add: duo_plan_def Let_def)

text \<open>The beam and the exact search disagree on the best plan without any cap reported: the exact one returns the
  fused plan first, the beam never sees it.\<close>

lemma beam_misses_best:
  "\<exists>e b. search (duo_search Exact duo_tables) = Some (Inr e) \<and> search (duo_search Beam duo_tables) = Some (Inr b) \<and>
     \<not> result_truncated e \<and> \<not> result_truncated b \<and>
     hd (plans e) = duo_fused \<and> hd (plans b) = duo_split \<and> plan_before (duo_search Beam duo_tables) (hd (plans e)) (hd (plans b))"
  using duo_exact_search duo_beam_search by (fastforce simp: plan_before_def duo_plan_def ranksBefore_def costLess_def compare_metric_def
      zero_cost_def double_eq_def double_less_def)

lemma search_returns_witness: "\<exists>outcome. search (duo_search Beam duo_tables) = Some outcome"
  by (rule search_returns [OF tables_ok_cover [OF duo_ok]])

lemma deterministic_takes_first_witness:
  "pending_error [Expanded] = None \<and> [duo_fused] = take 1 [duo_fused, duo_split]"
  using deterministic_takes_first [OF duo_deterministic_walk [of Exact] duo_exact_walk [of Exact]] by simp

lemma exact_finds_every_cover_witness:
  "\<exists>res plan. search (duo_search Exact duo_tables) = Some (Inr res) \<and> plan \<in> set (plans res) \<and>
     prop_placements (plan_proposal plan) = [(0, (0, 1)), (1, (1, 0))]"
proof -
  have none: "evaluateCompletePlan (duo_search Exact duo_tables) = None" by (simp add: duo_search_def)
  obtain res where res: "search (duo_search Exact duo_tables) = Some (Inr res)" using duo_exact_search by blast
  have "whole (duo_search Exact duo_tables) (map Some [(0, 1), (1, 0)])"
    by (auto simp: whole_def offered_def entry_at_def less_Suc_eq)
  from exact_finds_every_cover [OF duo_ok never_refuses_placeable [OF duo_ok this bare_never_refuses [OF duo_bare]] _ _ res this]
  obtain proposal kept where "prop_placements proposal = [(0, (0, 1)), (1, (1, 0))]"
      "kept_as (duo_search Exact duo_tables) proposal kept" "kept\<lparr>plan_truncated := result_truncated res\<rparr> \<in> set (plans res)"
    by (auto simp: declined_def none)
  moreover from this have "prop_placements (plan_proposal (kept\<lparr>plan_truncated := result_truncated res\<rparr>)) = [(0, (0, 1)), (1, (1, 0))]"
    by (simp add: kept_as_def none unevaluated_plan_def split: prod.split)
  ultimately show ?thesis using res by blast
qed

lemma plans_are_exact_covers_witness:
  "\<exists>proposal kept. exact_cover (duo_search Exact duo_tables) proposal \<and> kept_as (duo_search Exact duo_tables) proposal kept \<and>
     duo_fused = kept\<lparr>plan_truncated := False\<rparr>"
proof -
  obtain res where res: "search (duo_search Exact duo_tables) = Some (Inr res)" "duo_fused \<in> set (plans res)" "\<not> result_truncated res"
    using duo_exact_search by auto
  from plans_are_exact_covers [OF res(1,2)] res(3) show ?thesis by simp
qed

lemma beam_never_fuses_witness:
  "\<exists>proposal kept. kept_as (duo_search Beam duo_tables) proposal kept \<and> duo_split = kept\<lparr>plan_truncated := False\<rparr>"
proof -
  obtain res where res: "search (duo_search Beam duo_tables) = Some (Inr res)" "duo_split \<in> set (plans res)" "\<not> result_truncated res"
    using duo_beam_search by auto
  from beam_never_fuses [OF tables_ok_cover [OF duo_ok] _ res(1,2)] res(3) show ?thesis by auto
qed

lemma top_plans_best_witness:
  "\<exists>res. finish_search ((duo_search Exact duo_tables)\<lparr>topK := 1\<rparr>)
       \<lparr>search_log = [], retained = [duo_split, duo_fused], halted = False\<rparr> = Inr res \<and>
     length (plans res) = 1 \<and> result_truncated res"
proof -
  let ?inp = "(duo_search Exact duo_tables)\<lparr>topK := 1\<rparr>"
  obtain res where res: "finish_search ?inp \<lparr>search_log = [], retained = [duo_split, duo_fused], halted = False\<rparr> = Inr res"
    by (simp add: finish_search_def Let_def)
  from top_plans_best [OF res] finish_Inr [OF res] res show ?thesis
    by (auto simp: duo_plan_def no_nan_def zero_cost_def)
qed

text \<open>One value from the first node to the second, two routes for it, and room for one.\<close>

definition wire_port :: workload_port where
  "wire_port = \<lparr>wp_value = 0, wp_type = ''tile'', accessMap = None\<rparr>"

definition wire_tables :: "node_table list" where
  "wire_tables =
     [\<lparr>table_node = 4, table_workload = (bare_node 4)\<lparr>wn_outputs := [wire_port]\<rparr>, table_instances = [bare_entry 11 1 [4]]\<rparr>,
      \<lparr>table_node = 7, table_workload = (bare_node 7)\<lparr>wn_inputs := [wire_port]\<rparr>, table_instances = [bare_entry 12 1 [7]]\<rparr>]"

definition wire_route :: "nat \<Rightarrow> nat \<Rightarrow> realization" where
  "wire_route i bytes = \<lparr>real_plans = [\<lparr>conn_id = i, conn_cost = zero_cost\<lparr>dramBytes := bytes\<rparr>, conn_measured = None\<rparr>],
     liveValue = 0, liveBytes = [], stagedBytes = []\<rparr>"

definition wire_search :: search_input where
  "wire_search = (duo_search Exact wire_tables)\<lparr>maxConnectionCombinations := 1,
     route_choices := \<lambda>_ _. \<lparr>route_cap = False, route_refused = None, route_missing = None, route_count = 2,
       product_cap = False, realizations = [wire_route 20 2, wire_route 21 1]\<rparr>\<rparr>"

lemma wire_links: "valueLinks wire_tables =
    [\<lparr>link_value = 0, link_producers = [\<lparr>ep_node = 0, ep_index = 0\<rparr>], link_consumers = [\<lparr>ep_node = 1, ep_index = 0\<rparr>]\<rparr>]"
  by (simp add: valueLinks_def wire_tables_def bare_node_def wire_port_def List.map_filter_simps link_for_def
      port_occurrences_def)

lemma wire_fields [simp]:
  "tables wire_search = wire_tables" "maxConnectionCombinations wire_search = 1" "evaluateCompletePlan wire_search = None"
  "objective wire_search = \<lparr>primary = DramBytes, secondary = [], minimize = True\<rparr>"
  "measured_cycles wire_search plan = None" "use_key wire_search inst e = []" "memoryBudgetBytes wire_search = 1024"
  "realizations (route_choices wire_search d p) = [wire_route 20 2, wire_route 21 1]"
  "route_refused (route_choices wire_search d p) = None" "route_missing (route_choices wire_search d p) = None"
  "findValue (workload wire_search) v = None"
  by (simp_all add: wire_search_def duo_search_def findValue_def)

lemma wire_nodes [simp]:
  "length wire_tables = 2" "table_node (wire_tables ! 0) = 4" "table_node (wire_tables ! Suc 0) = 7"
  "table_instances (wire_tables ! 0) = [bare_entry 11 1 [4]]" "table_instances (wire_tables ! Suc 0) = [bare_entry 12 1 [7]]"
  by (simp_all add: wire_tables_def)

lemma wire_route_fields [simp]:
  "real_plans (wire_route i b) = [\<lparr>conn_id = i, conn_cost = zero_cost\<lparr>dramBytes := b\<rparr>, conn_measured = None\<rparr>]"
  "liveBytes (wire_route i b) = []" "stagedBytes (wire_route i b) = []"
  by (simp_all add: wire_route_def)

lemma wire_cost [simp]: "realizationCost (wire_route i b) = zero_cost\<lparr>dramBytes := wrap64 b\<rparr>"
  by (simp add: realizationCost_def)

abbreviation wire_parent :: partial where
  "wire_parent \<equiv> (empty_partial wire_search)\<lparr>chosen := [Some (0, 0), None]\<rparr>"

lemma wire_placed:
  "placeInstance wire_search (Suc 0, 0) wire_parent =
     (Some (wire_parent\<lparr>chosen := [Some (0, 0), Some (Suc 0, 0)], covered := 1, executorSlots := 1, linked := [False]\<rparr>), [])"
  by (simp add: placeInstance_def cover_nodes_def entry_at_def wire_links charge_memories_def charge_usage_def
      table_index_def assign_chosen_def empty_partial_def upt_rec numeral_2_eq_2 wrap64_def bare_entry_def Let_def)

lemma wire_sorted: "sortDecision wire_search [wire_route 20 2, wire_route 21 (Suc 0)] = [wire_route 21 (Suc 0), wire_route 20 2]"
  by (simp add: sortDecision_def sort_by_def costLess_def compare_metric_def zero_cost_def double_eq_def double_less_def
      Let_def wrap64_def)

lemma wire_decisions:
  "chosen p = [Some (0, 0), Some (Suc 0, 0)] \<Longrightarrow> linked p = [False] \<Longrightarrow>
   buildDecisionSpecs wire_search p (Suc 0) = \<lparr>dec_linked = [True],
     dec_specs = [\<lparr>spec_kind = PlainUseGroup, spec_link = 0, spec_endpoints = [\<lparr>ep_node = 1, ep_index = 0\<rparr>]\<rparr>],
     dec_completed = [0], dec_notes = snd (factsForValue wire_search 0)\<rparr>"
  by (simp add: buildDecisionSpecs_def wire_links decide_link_def valueInvolves_def link_complete_def link_internal_def
      link_specs_def use_groups_def factsForValue_def kUnknownValueBytes_def Let_def)

lemma connection_cap_keeps_prefix_witness:
  "\<exists>branch. fst (extendStates wire_search wire_parent (Suc 0, 0)) = [branch] \<and>
     map conn_id (par_connections branch) = [21] \<and>
     searchTruncated (snd (extendStates wire_search wire_parent (Suc 0, 0)))"
  using connection_cap_keeps_prefix [OF wire_placed refl refl refl]
  by (simp add: wire_decisions specAlternatives_def wire_sorted List.map_filter_simps finish_leaf_def capacityOk_def
      releaseCompleted_def release_link_def wire_links applyRealization_def hasEvaluator_def effective_plan_def empty_partial_def Let_def)


end
