(* ===== verification/Candidates.thy ===== *)
theory Candidates
  imports Hash
begin

text \<open>
  The tuning candidates: \<^verbatim>\<open>lib/Perf/SearchSpace.cpp\<close>, \<^verbatim>\<open>lib/Perf/Candidate.cpp\<close> and
  \<^verbatim>\<open>lib/Perf/CandidateGenerator.cpp\<close>. The search space and its loader, the stable id of a
  candidate, the grid odometer and the seeded random sampling. The properties compare the grid with
  the cartesian product of the choices and the random study with the grid.
\<close>

section \<open>Search spaces\<close>

datatype search_choice = IntegerChoice int | SymbolicChoice string

record search_param =
  param_name :: string
  param_kind :: string
  param_choices :: "search_choice list"
  param_role :: string

datatype constraint_kind =
    SramCapacity | AccCapacity | MmaCompatible | MappingExtent | TailSupported | VectorWidthSupported
  | TileHierarchyCompatible | LayoutSupported | OwnerSupported | FragmentCompatible | PipelineLiveTiles

fun stringifyConstraintKind :: "constraint_kind \<Rightarrow> string" where
  "stringifyConstraintKind SramCapacity = ''sram_capacity''"
| "stringifyConstraintKind AccCapacity = ''acc_capacity''"
| "stringifyConstraintKind MmaCompatible = ''mma_compatible''"
| "stringifyConstraintKind MappingExtent = ''mapping_extent''"
| "stringifyConstraintKind TailSupported = ''tail_supported''"
| "stringifyConstraintKind VectorWidthSupported = ''vector_width_supported''"
| "stringifyConstraintKind TileHierarchyCompatible = ''tile_hierarchy_compatible''"
| "stringifyConstraintKind LayoutSupported = ''layout_supported''"
| "stringifyConstraintKind OwnerSupported = ''owner_supported''"
| "stringifyConstraintKind FragmentCompatible = ''fragment_compatible''"
| "stringifyConstraintKind PipelineLiveTiles = ''pipeline_live_tiles''"

definition symbolizeConstraintKind :: "string \<Rightarrow> constraint_kind option" where
  "symbolizeConstraintKind s =
     (if s = ''sram_capacity'' then Some SramCapacity
      else if s = ''acc_capacity'' then Some AccCapacity
      else if s = ''mma_compatible'' then Some MmaCompatible
      else if s = ''mapping_extent'' then Some MappingExtent
      else if s = ''tail_supported'' then Some TailSupported
      else if s = ''vector_width_supported'' then Some VectorWidthSupported
      else if s = ''tile_hierarchy_compatible'' then Some TileHierarchyCompatible
      else if s = ''layout_supported'' then Some LayoutSupported
      else if s = ''owner_supported'' then Some OwnerSupported
      else if s = ''fragment_compatible'' then Some FragmentCompatible
      else if s = ''pipeline_live_tiles'' then Some PipelineLiveTiles
      else None)"

record search_constraint =
  con_kind :: constraint_kind
  con_params :: "string list"
  con_attrs :: "(string, string) smap"

datatype objective_direction = Minimize | Maximize

fun stringifyObjectiveDirection :: "objective_direction \<Rightarrow> string" where
  "stringifyObjectiveDirection Minimize = ''minimize''"
| "stringifyObjectiveDirection Maximize = ''maximize''"

definition symbolizeObjectiveDirection :: "string \<Rightarrow> objective_direction option" where
  "symbolizeObjectiveDirection s =
     (if s = ''minimize'' then Some Minimize else if s = ''maximize'' then Some Maximize else None)"

record search_objective =
  obj_direction :: objective_direction
  primaryMetric :: string
  secondaryMetrics :: "string list"

definition default_objective :: search_objective where
  "default_objective = \<lparr>obj_direction = Minimize, primaryMetric = ''latency_cycles'', secondaryMetrics = []\<rparr>"

record search_space =
  space_name :: string
  space_workload :: string
  params :: "search_param list"
  constraints :: "search_constraint list"
  space_objective :: search_objective
  singleton :: bool

definition classifyMBucket :: "int \<Rightarrow> int" where
  "classifyMBucket M = (if M = 1 then 0 else if M \<le> 4 then 1 else if M \<le> 16 then 2 else if M \<le> 64 then 3 else 4)"

definition findParam :: "search_space \<Rightarrow> string \<Rightarrow> search_param option" where
  "findParam space name = find (\<lambda>p. param_name p = name) (params space)"

text \<open>A kind that several parameters have is ambiguous: the second match returns null.\<close>

fun find_of_kind :: "string \<Rightarrow> search_param option \<Rightarrow> search_param list \<Rightarrow> search_param option" where
  "find_of_kind kind found [] = found"
| "find_of_kind kind found (p # ps) =
     (if param_kind p \<noteq> kind then find_of_kind kind found ps
      else if found \<noteq> None then None
      else find_of_kind kind (Some p) ps)"

definition findParamOfKind :: "search_space \<Rightarrow> string \<Rightarrow> search_param option" where
  "findParamOfKind space kind = find_of_kind kind None (params space)"

section \<open>The loader\<close>

text \<open>What the accessors of the generated operation classes return.\<close>

datatype attribute = IntegerAttr int | StringAttr string | OtherAttr

datatype nested_op =
    ParamOp string string "string option" "attribute list"
  | ConstraintOp string "attribute list"
  | ObjectiveOp string string "string list option"
  | OtherOp

record search_space_op =
  op_name :: string
  op_workload :: string
  op_singleton :: "bool option"
  op_body :: "nested_op list"

type_synonym load_error = string

definition invalid :: "search_space_op \<Rightarrow> string \<Rightarrow> load_error" where
  "invalid op message = op_name op @ '': '' @ message"

definition loadChoice :: "search_space_op \<Rightarrow> string \<Rightarrow> attribute \<Rightarrow> (load_error, search_choice) expected" where
  "loadChoice op name choice = (case choice of
       IntegerAttr i \<Rightarrow> Inr (IntegerChoice i)
     | StringAttr s \<Rightarrow> Inr (SymbolicChoice s)
     | OtherAttr \<Rightarrow> Inl (invalid op (''parameter '' @ in_quotes name @
         '' has a choice that is neither an integer nor a string'')))"

fun choice_key :: "search_choice \<Rightarrow> string" where
  "choice_key (IntegerChoice i) = ''i:'' @ int_to_string i"
| "choice_key (SymbolicChoice s) = ''s:'' @ s"

fun load_choices :: "search_space_op \<Rightarrow> string \<Rightarrow> attribute list \<Rightarrow> string set \<Rightarrow> search_choice list \<Rightarrow>
    (load_error, search_choice list) expected" where
  "load_choices op name [] seen loaded = Inr loaded"
| "load_choices op name (a # as) seen loaded =
     bindR (loadChoice op name a) (\<lambda>choice.
       if choice_key choice \<in> seen
       then Inl (invalid op (''parameter '' @ in_quotes name @ '' repeats a choice''))
       else load_choices op name as (insert (choice_key choice) seen) (loaded @ [choice]))"

definition loadParam :: "search_space_op \<Rightarrow> string \<Rightarrow> string \<Rightarrow> string option \<Rightarrow> attribute list \<Rightarrow>
    (load_error, search_param) expected" where
  "loadParam op name kind role choices =
     (if choices = [] then Inl (invalid op (''parameter '' @ in_quotes name @ '' has no choices''))
      else bindR (load_choices op name choices {} []) (\<lambda>loaded.
        Inr \<lparr>param_name = name, param_kind = kind, param_choices = loaded,
             param_role = (case role of Some r \<Rightarrow> r | None \<Rightarrow> [])\<rparr>))"

fun load_names :: "search_space_op \<Rightarrow> attribute list \<Rightarrow> (load_error, string list) expected" where
  "load_names op [] = Inr []"
| "load_names op (a # as) =
     (case a of
        StringAttr s \<Rightarrow> bindR (load_names op as) (\<lambda>names. Inr (s # names))
      | _ \<Rightarrow> Inl (invalid op ''constraint parameters must be strings''))"

definition loadConstraint :: "search_space_op \<Rightarrow> string \<Rightarrow> attribute list \<Rightarrow> (load_error, search_constraint) expected" where
  "loadConstraint op kind names =
     (case symbolizeConstraintKind kind of
        None \<Rightarrow> Inl (invalid op (''constraint kind '' @ in_quotes kind @ '' has no legality evaluator''))
      | Some k \<Rightarrow> bindR (load_names op names) (\<lambda>loaded. Inr \<lparr>con_kind = k, con_params = loaded, con_attrs = []\<rparr>))"

definition loadObjective :: "search_objective \<Rightarrow> string \<Rightarrow> string \<Rightarrow> string list option \<Rightarrow> search_objective" where
  "loadObjective old direction metric secondary =
     \<lparr>obj_direction = (case symbolizeObjectiveDirection direction of Some d \<Rightarrow> d | None \<Rightarrow> obj_direction old),
      primaryMetric = metric,
      secondaryMetrics = (case secondary of Some ms \<Rightarrow> ms | None \<Rightarrow> [])\<rparr>"

fun load_nested :: "search_space_op \<Rightarrow> nested_op list \<Rightarrow> search_space \<Rightarrow> (load_error, search_space) expected" where
  "load_nested op [] space = Inr space"
| "load_nested op (ParamOp name kind role choices # ns) space =
     bindR (loadParam op name kind role choices) (\<lambda>p. load_nested op ns (space\<lparr>params := params space @ [p]\<rparr>))"
| "load_nested op (ConstraintOp kind names # ns) space =
     bindR (loadConstraint op kind names) (\<lambda>c. load_nested op ns (space\<lparr>constraints := constraints space @ [c]\<rparr>))"
| "load_nested op (ObjectiveOp direction metric secondary # ns) space =
     load_nested op ns (space\<lparr>space_objective := loadObjective (space_objective space) direction metric secondary\<rparr>)"
| "load_nested op (OtherOp # ns) space = load_nested op ns space"

definition loadSearchSpace :: "search_space_op \<Rightarrow> (load_error, search_space) expected" where
  "loadSearchSpace op = load_nested op (op_body op)
     \<lparr>space_name = op_name op, space_workload = op_workload op, params = [], constraints = [],
      space_objective = default_objective,
      singleton = (case op_singleton op of Some b \<Rightarrow> b | None \<Rightarrow> False)\<rparr>"

text \<open>The overload for a module, given the search spaces the walk collects.\<close>

definition loadSearchSpaceNamed :: "search_space_op list \<Rightarrow> string \<Rightarrow> (load_error, search_space) expected" where
  "loadSearchSpaceNamed spaces symbol =
     (if symbol = [] then
        (case spaces of
           [] \<Rightarrow> Inl ''module has no micro.search_space''
         | [op] \<Rightarrow> loadSearchSpace op
         | _ \<Rightarrow> Inl ''module has more than one micro.search_space; name the one to load'')
      else (case find (\<lambda>op. op_name op = symbol) spaces of
           Some op \<Rightarrow> loadSearchSpace op
         | None \<Rightarrow> Inl (''no micro.search_space named '' @ in_quotes symbol)))"

section \<open>Candidates\<close>

record candidate =
  cand_id :: string
  cand_values :: "(string, int) smap"
  symbolicValues :: "(string, string) smap"

definition cand_integer :: "candidate \<Rightarrow> string \<Rightarrow> int option" where
  "cand_integer c name = map_of (cand_values c) name"

definition cand_symbol :: "candidate \<Rightarrow> string \<Rightarrow> string option" where
  "cand_symbol c name = map_of (symbolicValues c) name"

definition candidate_fnv1a :: "string \<Rightarrow> uint64 \<Rightarrow> uint64" where
  "candidate_fnv1a s hash = foldl (\<lambda>h c. (h XOR byte_word c) * 1099511628211) hash s"

definition computeCandidateId :: "(string, int) smap \<Rightarrow> (string, string) smap \<Rightarrow> string" where
  "computeCandidateId vs symbols =
     (let hash = fold (\<lambda>(name, v). candidate_fnv1a (name @ ''='' @ int_to_string v @ '';'')) vs 14695981039346656037;
          hash = candidate_fnv1a ''|'' hash;
          hash = fold (\<lambda>(name, v). candidate_fnv1a (name @ ''='' @ v @ '';'')) symbols hash
      in ''candidate_'' @ hexId hash)"

section \<open>Generators\<close>

definition emplace_choice :: "search_param \<Rightarrow> search_choice \<Rightarrow> candidate \<Rightarrow> candidate" where
  "emplace_choice param choice c = (case choice of
       IntegerChoice i \<Rightarrow> c\<lparr>cand_values := smap_insert (param_name param) i (cand_values c)\<rparr>
     | SymbolicChoice s \<Rightarrow> c\<lparr>symbolicValues := smap_insert (param_name param) s (symbolicValues c)\<rparr>)"

definition buildCandidate :: "search_space \<Rightarrow> nat list \<Rightarrow> candidate" where
  "buildCandidate space indices =
     (let c = fold (\<lambda>i. emplace_choice (params space ! i) (param_choices (params space ! i) ! (indices ! i)))
                [0..<length (params space)] \<lparr>cand_id = [], cand_values = [], symbolicValues = []\<rparr>
      in c\<lparr>cand_id := computeCandidateId (cand_values c) (symbolicValues c)\<rparr>)"

text \<open>The size saturates at \<^verbatim>\<open>UINT64_MAX\<close>, so no product in it wraps.\<close>

fun domain_product :: "nat \<Rightarrow> search_param list \<Rightarrow> nat" where
  "domain_product extent [] = extent"
| "domain_product extent (p # ps) =
     (if param_choices p = [] then 0
      else if extent > uint64_max div length (param_choices p) then uint64_max
      else domain_product (extent * length (param_choices p)) ps)"

definition domainSize :: "search_space \<Rightarrow> nat" where
  "domainSize space = (if params space = [] then (if singleton space then 1 else 0) else domain_product 1 (params space))"

text \<open>The loop over the positions of the odometer: the new indices and the position it stops at.\<close>

primrec odometer :: "(nat \<Rightarrow> nat) \<Rightarrow> nat list \<Rightarrow> nat \<Rightarrow> nat list \<times> nat" where
  "odometer extent indices 0 = (indices, 0)"
| "odometer extent indices (Suc position) =
     (let next_index = indices ! position + 1 in
      if next_index < extent position then (indices[position := next_index], position)
      else odometer extent (indices[position := 0]) position)"

definition choice_count :: "search_space \<Rightarrow> nat \<Rightarrow> nat" where
  "choice_count space i = length (param_choices (params space ! i))"

partial_function (option) grid_loop ::
  "search_space \<Rightarrow> nat \<Rightarrow> nat list \<Rightarrow> candidate list \<Rightarrow> candidate list option" where
  "grid_loop space cap indices candidates =
     (if length candidates < cap then
        (let candidates' = candidates @ [buildCandidate space indices] in
         if indices = [] then Some candidates'
         else (let (indices', position) = odometer (choice_count space) indices (length indices) in
           if position = 0 \<and> indices' ! 0 = 0 then Some candidates'
           else grid_loop space cap indices' candidates'))
      else Some candidates)"

definition generateGridCandidates :: "search_space \<Rightarrow> nat option \<Rightarrow> candidate list option" where
  "generateGridCandidates space maxCandidates =
     (if domainSize space = 0 then Some []
      else grid_loop space (case maxCandidates of Some n \<Rightarrow> n | None \<Rightarrow> uint64_max)
             (replicate (length (params space)) 0) [])"

text \<open>\<^verbatim>\<open>std::mt19937_64\<close>, as the standard specifies it: the state is the last 312 words, a step
  appends the next word of the recurrence and returns it tempered.\<close>

primrec mt_seed_words :: "nat \<Rightarrow> uint64 \<Rightarrow> nat \<Rightarrow> uint64 list" where
  "mt_seed_words 0 x i = []"
| "mt_seed_words (Suc n) x i = x # mt_seed_words n (6364136223846793005 * (x XOR drop_bit 62 x) + of_nat (i + 1)) (i + 1)"

definition mt_seed :: "uint64 \<Rightarrow> uint64 list" where "mt_seed seed = mt_seed_words 312 seed 0"

definition mt_twist :: "uint64 \<Rightarrow> uint64 \<Rightarrow> uint64" where
  "mt_twist upper lower =
     (let y = (upper AND 0xFFFFFFFF80000000) OR (lower AND 0x7FFFFFFF) in
      drop_bit 1 y XOR (if bit y 0 then 0xB5026F5AA96619E9 else 0))"

definition mt_temper :: "uint64 \<Rightarrow> uint64" where
  "mt_temper x =
     (let x = x XOR (drop_bit 29 x AND 0x5555555555555555);
          x = x XOR (push_bit 17 x AND 0x71D67FFFEDA60000);
          x = x XOR (push_bit 37 x AND 0xFFF7EEE000000000)
      in x XOR drop_bit 43 x)"

definition mt_next :: "uint64 list \<Rightarrow> uint64 \<times> uint64 list" where
  "mt_next words = (let x = words ! 156 XOR mt_twist (words ! 0) (words ! 1) in (mt_temper x, tl words @ [x]))"

text \<open>The sampling for any engine: \<open>draw\<close> is the call of the generator.\<close>

fun draw_indices :: "('r \<Rightarrow> uint64 \<times> 'r) \<Rightarrow> 'r \<Rightarrow> search_param list \<Rightarrow> nat list \<times> 'r" where
  "draw_indices draw rng [] = ([], rng)"
| "draw_indices draw rng (p # ps) =
     (let (v, rng) = draw rng; (indices, rng) = draw_indices draw rng ps in
      (unat v mod length (param_choices p) # indices, rng))"

primrec sample_loop ::
  "('r \<Rightarrow> uint64 \<times> 'r) \<Rightarrow> search_space \<Rightarrow> nat \<Rightarrow> nat \<Rightarrow> nat \<Rightarrow> 'r \<Rightarrow> string set \<Rightarrow> candidate list \<Rightarrow> candidate list" where
  "sample_loop draw space target domain 0 rng seen candidates = candidates"
| "sample_loop draw space target domain (Suc attempts) rng seen candidates =
     (if length candidates < target then
        (let (indices, rng) = draw_indices draw rng (params space); c = buildCandidate space indices in
         if cand_id c \<in> seen then sample_loop draw space target domain attempts rng seen candidates
         else if length (candidates @ [c]) = domain then candidates @ [c]
         else sample_loop draw space target domain attempts rng (insert (cand_id c) seen) (candidates @ [c]))
      else candidates)"

definition maxAttempts :: "nat \<Rightarrow> nat" where
  "maxAttempts target' = (if target' > (uint64_max - 64) div 64 then uint64_max else 64 * target' + 64)"

definition sampleCandidates :: "('r \<Rightarrow> uint64 \<times> 'r) \<Rightarrow> 'r \<Rightarrow> search_space \<Rightarrow> nat \<Rightarrow> candidate list" where
  "sampleCandidates draw rng space maxCandidates =
     (let domain = domainSize space in
      if domain = 0 \<or> maxCandidates = 0 then []
      else (let target = min maxCandidates domain in
        sample_loop draw space target domain (maxAttempts target) rng {} []))"

definition generateRandomCandidates :: "search_space \<Rightarrow> uint64 \<Rightarrow> nat \<Rightarrow> candidate list" where
  "generateRandomCandidates space seed maxCandidates = sampleCandidates mt_next (mt_seed seed) space maxCandidates"

datatype generator_mode = GridMode | RandomMode

record generator_options =
  gen_mode :: generator_mode
  gen_seed :: uint64
  gen_max :: "nat option"

definition generateCandidates :: "search_space \<Rightarrow> generator_options \<Rightarrow> candidate list option" where
  "generateCandidates space options = (case gen_mode options of
       GridMode \<Rightarrow> generateGridCandidates space (gen_max options)
     | RandomMode \<Rightarrow> Some (generateRandomCandidates space (gen_seed options)
         (case gen_max options of Some n \<Rightarrow> n | None \<Rightarrow> domainSize space)))"

section \<open>The odometer\<close>

text \<open>The successor of an index vector, the last position varying fastest; none after the last vector.\<close>

fun next_indices :: "nat list \<Rightarrow> nat list \<Rightarrow> nat list option" where
  "next_indices (n # ns) (i # is) =
     (case next_indices ns is of
        Some js \<Rightarrow> Some (i # js)
      | None \<Rightarrow> if i + 1 < n then Some ((i + 1) # map (\<lambda>_. 0) is) else None)"
| "next_indices _ _ = None"

lemma next_indices_snoc:
  "length ns = length is \<Longrightarrow>
     next_indices (ns @ [n]) (is @ [i]) =
       (if i + 1 < n then Some (is @ [i + 1]) else map_option (\<lambda>js. js @ [0]) (next_indices ns is))"
  by (induction ns "is" rule: list_induct2) (auto split: option.splits)

lemma odometer_local:
  "length is = k \<Longrightarrow> (\<And>p. p < k \<Longrightarrow> f p = g p) \<Longrightarrow>
     odometer f (is @ js) k = (fst (odometer g is k) @ js, snd (odometer g is k))"
proof (induction k arbitrary: f "is" js)
  case (Suc k)
  then obtain l a where l: "is = l @ [a]" "length l = k" by (metis length_Suc_conv_rev)
  have "odometer f (l @ [b] @ js) k = (fst (odometer g l k) @ [b] @ js, snd (odometer g l k))" for b
    using Suc.prems(2) l by (intro Suc.IH) auto
  moreover have "odometer g (l @ [b]) k = (fst (odometer g l k) @ [b], snd (odometer g l k))" for b
    using l by (intro Suc.IH) auto
  ultimately show ?case using l Suc.prems(2) [of k] by (auto simp: nth_append list_update_append Let_def)
qed simp

text \<open>What the loop leaves: the successor, or the vector of zeros with a wrap past the first position.\<close>

lemma odometer_next:
  "length ns = length is \<Longrightarrow>
     (case next_indices ns is of
        Some js \<Rightarrow> fst (odometer ((!) ns) is (length is)) = js \<and> \<not> (snd (odometer ((!) ns) is (length is)) = 0 \<and> js ! 0 = 0)
      | None \<Rightarrow> odometer ((!) ns) is (length is) = (map (\<lambda>_. 0) is, 0))"
proof (induction "is" arbitrary: ns rule: rev_induct)
  case (snoc i l)
  then obtain ms n where ns: "ns = ms @ [n]" "length ms = length l" by (metis length_append_singleton length_Suc_conv_rev)
  have local: "odometer ((!) ns) (l @ [0]) (length l) = (fst (odometer ((!) ms) l (length l)) @ [0], snd (odometer ((!) ms) l (length l)))"
    by (rule odometer_local) (simp_all add: ns nth_append)
  have len: "length js = length l" if "next_indices ms l = Some js" for js
    using ns(2) that by (induction ms l arbitrary: js rule: list_induct2) (auto split: option.splits if_splits)
  show ?case
  proof (cases "i + 1 < n")
    case True
    then show ?thesis using ns by (auto simp: next_indices_snoc nth_append)
  next
    case False
    with snoc.IH [OF ns(2)] ns local len show ?thesis
      by (auto simp: next_indices_snoc nth_append odometer_local split: option.splits)
  qed
qed simp

text \<open>The index vectors in the order of the odometer are those of the cartesian product.\<close>

definition index_vectors :: "nat list \<Rightarrow> nat list list" where
  "index_vectors ns = product_lists (map (upt 0) ns)"

lemma index_vectors_Cons:
  "index_vectors (n # ns) = concat (map (\<lambda>i. map ((#) i) (index_vectors ns)) [0..<n])"
  by (simp add: index_vectors_def)

lemma index_vectors_Nil [simp]: "index_vectors [] = [[]]"
  by (simp add: index_vectors_def)

lemma index_vectors_ne: "\<forall>n \<in> set ns. 0 < n \<Longrightarrow> index_vectors ns \<noteq> []"
  by (induction ns) (auto simp: index_vectors_Cons)

lemma length_index_vectors: "length (index_vectors ns) = prod_list ns"
  by (induction ns) (simp_all add: index_vectors_Cons length_concat sum_list_triv comp_def)

lemma index_vectors_valid: "v \<in> set (index_vectors ns) \<Longrightarrow> length v = length ns \<and> (\<forall>p < length ns. v ! p < ns ! p)"
proof (induction ns arbitrary: v)
  case (Cons n ns)
  then obtain i u where "v = i # u" "i < n" "u \<in> set (index_vectors ns)" by (auto simp: index_vectors_Cons)
  with Cons.IH show ?case by (auto simp: nth_Cons split: nat.splits)
qed (simp add: index_vectors_def)

definition linked :: "nat list \<Rightarrow> nat list list \<Rightarrow> bool" where
  "linked ns = successively (\<lambda>a b. next_indices ns a = Some b)"

lemma index_vectors_linked:
  "\<forall>n \<in> set ns. 0 < n \<Longrightarrow>
     linked ns (index_vectors ns) \<and> hd (index_vectors ns) = map (\<lambda>_. 0) ns \<and> next_indices ns (last (index_vectors ns)) = None"
proof (induction ns)
  case (Cons n ns)
  let ?L = "index_vectors ns"
  have ih: "linked ns ?L" "hd ?L = map (\<lambda>_. 0) ns" "next_indices ns (last ?L) = None" and ne: "?L \<noteq> []"
    using Cons index_vectors_ne [of ns] by auto
  have len: "length (last ?L) = length ns" using index_vectors_valid [of "last ?L" ns] ne by simp
  have block: "linked (n # ns) (map ((#) i) ?L)" for i
    using ih(1) unfolding linked_def successively_map by (rule successively_mono) auto
  have step: "next_indices (n # ns) (i # last ?L) = (if i + 1 < n then Some ((i + 1) # map (\<lambda>_. 0) ns) else None)" for i
    using ih(3) len by (auto simp: map_replicate_const)
  have "m \<le> n \<Longrightarrow> 0 < m \<Longrightarrow>
      linked (n # ns) (concat (map (\<lambda>i. map ((#) i) ?L) [0..<m])) \<and>
      hd (concat (map (\<lambda>i. map ((#) i) ?L) [0..<m])) = 0 # map (\<lambda>_. 0) ns \<and>
      last (concat (map (\<lambda>i. map ((#) i) ?L) [0..<m])) = (m - 1) # last ?L" for m
  proof (induction m)
    case (Suc m)
    let ?pre = "concat (map (\<lambda>i. map ((#) i) ?L) [0..<m])"
    show ?case
    proof (cases "m = 0")
      case True
      then show ?thesis using block [of 0] ih(2) ne by (simp add: hd_map last_map)
    next
      case False
      then have pre: "linked (n # ns) ?pre" "hd ?pre = 0 # map (\<lambda>_. 0) ns" "last ?pre = (m - 1) # last ?L" "?pre \<noteq> []"
        using Suc ne by auto
      have "next_indices (n # ns) (last ?pre) = Some (hd (map ((#) m) ?L))"
        using pre(3) step [of "m - 1"] False Suc.prems ih(2) ne by (simp add: hd_map)
      then have "linked (n # ns) (?pre @ map ((#) m) ?L)"
        using pre block [of m] unfolding linked_def successively_append_iff by blast
      then show ?thesis using pre ne by (simp add: last_map)
    qed
  qed simp
  from this [of n] show ?case using Cons.prems step [of "n - 1"] by (simp add: index_vectors_Cons)
qed (simp add: linked_def)

section \<open>The grid is the cartesian product\<close>

text \<open>A candidate given by the choices themselves.\<close>

definition empty_candidate :: candidate where
  "empty_candidate = \<lparr>cand_id = [], cand_values = [], symbolicValues = []\<rparr>"

definition emplace_all :: "(search_param \<times> search_choice) list \<Rightarrow> candidate" where
  "emplace_all bs = fold (\<lambda>(p, choice). emplace_choice p choice) bs empty_candidate"

definition bindChoices :: "search_param list \<Rightarrow> search_choice list \<Rightarrow> candidate" where
  "bindChoices ps cs = (let c = emplace_all (zip ps cs) in c\<lparr>cand_id := computeCandidateId (cand_values c) (symbolicValues c)\<rparr>)"

definition choices_at :: "search_param list \<Rightarrow> nat list \<Rightarrow> search_choice list" where
  "choices_at ps v = map2 (\<lambda>p i. param_choices p ! i) ps v"

lemma fold_upt_zip:
  "length xs = length ys \<Longrightarrow> fold (\<lambda>i. f (xs ! i) (ys ! i)) [0..<length xs] = fold (\<lambda>(x, y). f x y) (zip xs ys)"
proof (induction xs ys rule: rev_induct2)
  case (4 x xs y ys)
  have "fold (\<lambda>i. f ((xs @ [x]) ! i) ((ys @ [y]) ! i)) [0..<length xs] = fold (\<lambda>i. f (xs ! i) (ys ! i)) [0..<length xs]"
    by (rule ext, rule fold_cong) (use 4 in \<open>auto simp: nth_append\<close>)
  then show ?case using 4 by (simp add: nth_append)
qed auto

lemma buildCandidate_bind:
  assumes "length v = length (params space)"
  shows "buildCandidate space v = bindChoices (params space) (choices_at (params space) v)"
proof -
  let ?ps = "params space" and ?cs = "choices_at (params space) v"
  have len: "length ?cs = length ?ps" and nth: "i < length ?ps \<Longrightarrow> ?cs ! i = param_choices (?ps ! i) ! (v ! i)" for i
    using assms by (simp_all add: choices_at_def)
  have "fold (\<lambda>i. emplace_choice (?ps ! i) (param_choices (?ps ! i) ! (v ! i))) [0..<length ?ps] =
      fold (\<lambda>i. emplace_choice (?ps ! i) (?cs ! i)) [0..<length ?ps]"
    by (rule ext, rule fold_cong) (simp_all add: nth)
  also have "\<dots> = fold (\<lambda>(p, choice). emplace_choice p choice) (zip ?ps ?cs)" by (rule fold_upt_zip) (simp add: len)
  finally show ?thesis by (simp add: buildCandidate_def bindChoices_def emplace_all_def empty_candidate_def)
qed

definition extents :: "search_param list \<Rightarrow> nat list" where
  "extents ps = map (\<lambda>p. length (param_choices p)) ps"

lemma extents_simps [simp]: "extents [] = []" "extents (p # ps) = length (param_choices p) # extents ps"
  "length (extents ps) = length ps" "i < length ps \<Longrightarrow> extents ps ! i = length (param_choices (ps ! i))"
  by (simp_all add: extents_def)

lemma product_lists_choices:
  "product_lists (map param_choices ps) = map (choices_at ps) (index_vectors (extents ps))"
proof (induction ps)
  case (Cons p ps)
  have "param_choices p = map (\<lambda>i. param_choices p ! i) [0..<length (param_choices p)]" by (simp add: map_nth)
  then show ?case using Cons
    by (simp add: index_vectors_Cons map_concat comp_def choices_at_def) (metis (no_types, lifting) map_map comp_def map_eq_conv)
qed (simp add: choices_at_def)

lemma odometer_next_space:
  assumes "length v = length (params space)"
  shows "case next_indices (extents (params space)) v of
     Some js \<Rightarrow> fst (odometer (choice_count space) v (length v)) = js \<and> \<not> (snd (odometer (choice_count space) v (length v)) = 0 \<and> js ! 0 = 0)
   | None \<Rightarrow> odometer (choice_count space) v (length v) = (map (\<lambda>_. 0) v, 0)"
proof -
  have "odometer (choice_count space) (v @ []) (length v) =
      (fst (odometer ((!) (extents (params space))) v (length v)) @ [], snd (odometer ((!) (extents (params space))) v (length v)))"
    by (rule odometer_local) (simp_all add: choice_count_def assms)
  then have "odometer (choice_count space) v (length v) = odometer ((!) (extents (params space))) v (length v)"
    by (simp only: append_Nil2 prod.collapse)
  then show ?thesis using odometer_next [of "extents (params space)" v] assms by (simp only: extents_simps)
qed

lemma grid_loop_linked:
  assumes "linked (extents (params space)) (v # vs)"
    and "next_indices (extents (params space)) (last (v # vs)) = None"
    and "\<forall>u \<in> set (v # vs). length u = length (params space)" "params space \<noteq> []"
  shows "grid_loop space cap v cs = Some (cs @ take (cap - length cs) (map (buildCandidate space) (v # vs)))"
  using assms
proof (induction vs arbitrary: v cs)
  case Nil
  then have "odometer (choice_count space) v (length v) = (map (\<lambda>_. 0) v, 0)"
    using odometer_next_space [of v space] by simp
  moreover have "v \<noteq> []" using Nil by auto
  ultimately show ?case by (subst grid_loop.simps) (auto simp: take_Cons' nth_map)
next
  case (Cons u vs)
  have "next_indices (extents (params space)) v = Some u" and rest: "linked (extents (params space)) (u # vs)"
    using Cons.prems(1) by (simp_all add: linked_def)
  then have step: "fst (odometer (choice_count space) v (length v)) = u"
      "\<not> (snd (odometer (choice_count space) v (length v)) = 0 \<and> u ! 0 = 0)"
    using odometer_next_space [of v space] Cons.prems(3) by simp_all
  have "v \<noteq> []" using Cons.prems by auto
  moreover have "grid_loop space cap u (cs @ [buildCandidate space v]) =
      Some (cs @ [buildCandidate space v] @ take (cap - length cs - 1) (map (buildCandidate space) (u # vs)))"
    using Cons.IH [OF rest] Cons.prems by simp
  ultimately show ?case using step
    by (subst grid_loop.simps) (auto simp: take_Cons' Let_def split_beta)
qed

lemma extents_pos: "\<forall>p \<in> set ps. param_choices p \<noteq> [] \<Longrightarrow> 0 < prod_list (extents ps)"
  by (induction ps) auto

lemma domain_product_exact:
  "n \<le> uint64_max \<Longrightarrow> 0 < n \<Longrightarrow> \<forall>p \<in> set ps. param_choices p \<noteq> [] \<Longrightarrow>
     domain_product n ps = min uint64_max (n * prod_list (extents ps))"
proof (induction ps arbitrary: n)
  case (Cons p ps)
  let ?l = "length (param_choices p)" and ?rest = "prod_list (extents ps)"
  have l: "0 < ?l" and rest: "1 \<le> ?rest" using Cons.prems(3) extents_pos [of ps] by auto
  show ?case
  proof (cases "n > uint64_max div ?l")
    case True
    then have "uint64_max < n * ?l" using l by (simp add: div_less_iff_less_mult)
    also have "n * ?l \<le> n * (?l * ?rest)" using rest by simp
    finally show ?thesis using True l by simp
  next
    case False
    then have "n * ?l \<le> uint64_max"
      by (metis div_times_less_eq_dividend dual_order.trans mult_le_mono1 not_less)
    then have "domain_product (n * ?l) ps = min uint64_max (n * ?l * ?rest)"
      using Cons l by (intro Cons.IH) auto
    with False l show ?thesis by (simp add: mult.assoc)
  qed
qed simp

text \<open>The size is exact up to saturation, when every parameter has a choice.\<close>

lemma domainSize_exact:
  "\<forall>p \<in> set (params space). param_choices p \<noteq> [] \<Longrightarrow>
     domainSize space = (if params space = [] \<and> \<not> singleton space then 0
       else min uint64_max (prod_list (extents (params space))))"
  using domain_product_exact [of 1 "params space"] by (auto simp: domainSize_def uint64_max_def)

text \<open>A parameter without choices is not noticed after the product has saturated.\<close>

lemma domainSize_saturates_past_empty:
  "domain_product 1 [p, p, q] = uint64_max" if "length (param_choices p) = 8589934592" "param_choices q = []"
  using that by (auto simp: uint64_max_def)


lemma product_lists_length: "prod_list (extents ps) = length (product_lists (map param_choices ps))"
  by (simp add: product_lists_choices length_index_vectors)

definition cap_of :: "nat option \<Rightarrow> nat" where
  "cap_of maxCandidates = (case maxCandidates of Some n \<Rightarrow> n | None \<Rightarrow> uint64_max)"

text \<open>C19: grid enumeration. When every parameter declares a choice, grid generation returns, and its result
  is the beginning, up to the cap, of the cartesian product of the choices in declaration order, the
  last parameter varying fastest; a space without parameters has one empty binding if it is declared a
  singleton and none otherwise.\<close>

theorem grid_enumerates:
  assumes "\<forall>p \<in> set (params space). param_choices p \<noteq> []"
  shows "generateGridCandidates space maxCandidates = Some
    (if params space = [] \<and> \<not> singleton space then []
     else take (case maxCandidates of Some n \<Rightarrow> n | None \<Rightarrow> uint64_max)
       (map (bindChoices (params space)) (product_lists (map param_choices (params space)))))"
proof -
  let ?ns = "extents (params space)"
  consider (empty) "params space = []" | (some) "params space \<noteq> []" by blast
  then show ?thesis
  proof cases
    case empty
    then show ?thesis
      using buildCandidate_bind [of "[]" space]
      by (simp add: generateGridCandidates_def domainSize_def grid_loop.simps choices_at_def split: option.splits)
  next
    case some
    have pos: "\<forall>n \<in> set ?ns. 0 < n" using assms by (auto simp: extents_def)
    obtain v vs where L: "index_vectors ?ns = v # vs" using index_vectors_ne [OF pos] by (cases "index_vectors ?ns") auto
    have facts: "linked ?ns (v # vs)" "v = replicate (length (params space)) 0" "next_indices ?ns (last (v # vs)) = None"
      using index_vectors_linked [OF pos] unfolding L by (auto simp: map_replicate_const simp del: last.simps)
    have valid: "\<forall>u \<in> set (v # vs). length u = length (params space)"
      using index_vectors_valid [of _ ?ns] by (auto simp: L)
    have nonzero: "domainSize space \<noteq> 0"
      using domainSize_exact [OF assms] extents_pos [OF assms] some by (simp add: uint64_max_def)
    have "map (buildCandidate space) (v # vs) = map (bindChoices (params space) \<circ> choices_at (params space)) (v # vs)"
      using valid buildCandidate_bind by (intro map_cong) auto
    then have "grid_loop space cap v [] = Some (take cap (map (bindChoices (params space))
        (product_lists (map param_choices (params space)))))" for cap
      using grid_loop_linked [OF facts(1,3) valid some, of cap "[]"]
      by (simp only: product_lists_choices L map_map append_Nil list.size diff_zero)
    then show ?thesis using nonzero some facts(2) by (simp add: generateGridCandidates_def)
  qed
qed

section \<open>Random studies\<close>

lemma draw_indices_valid:
  "\<forall>p \<in> set ps. param_choices p \<noteq> [] \<Longrightarrow>
     length (fst (draw_indices draw rng ps)) = length ps \<and>
     fst (draw_indices draw rng ps) \<in> set (index_vectors (extents ps))"
proof (induction ps arbitrary: rng)
  case (Cons p ps)
  then show ?case using Cons.IH [of "snd (draw rng)"]
    by (auto simp: index_vectors_Cons split_beta intro!: bexI [of _ "unat (fst (draw rng)) mod length (param_choices p)"])
qed simp

lemma sample_loop_keeps:
  assumes "\<forall>p \<in> set (params space). param_choices p \<noteq> []"
    and "distinct (map cand_id cs)" "cand_id ` set cs \<subseteq> seen" "length cs \<le> target"
    and "set cs \<subseteq> bindChoices (params space) ` set (product_lists (map param_choices (params space)))"
  shows "let r = sample_loop draw space target domain n rng seen cs in
     distinct (map cand_id r) \<and> length r \<le> target \<and>
     set r \<subseteq> bindChoices (params space) ` set (product_lists (map param_choices (params space)))"
  using assms(2-)
proof (induction n arbitrary: rng seen cs)
  case (Suc n)
  show ?case
  proof (cases "length cs < target")
    case True
    obtain v rng' where dv: "draw_indices draw rng (params space) = (v, rng')" by fastforce
    then have v: "length v = length (params space)" "v \<in> set (index_vectors (extents (params space)))"
      using draw_indices_valid [OF assms(1), of draw rng] by simp_all
    let ?c = "buildCandidate space v"
    have mem: "?c \<in> bindChoices (params space) ` set (product_lists (map param_choices (params space)))"
      using v by (auto simp: buildCandidate_bind product_lists_choices)
    show ?thesis
    proof (cases "cand_id ?c \<in> seen")
      case True
      then show ?thesis using Suc.IH [OF Suc.prems] \<open>length cs < target\<close> by (simp add: dv Let_def)
    next
      case False
      then have keep: "distinct (map cand_id (cs @ [?c]))" "cand_id ` set (cs @ [?c]) \<subseteq> insert (cand_id ?c) seen"
        "length (cs @ [?c]) \<le> target"
        "set (cs @ [?c]) \<subseteq> bindChoices (params space) ` set (product_lists (map param_choices (params space)))"
        using Suc.prems True mem by auto
      show ?thesis using Suc.IH [OF keep] keep True False by (simp add: dv Let_def)
    qed
  qed (use Suc.prems in simp)
qed simp

text \<open>Random studies. Whatever the engine draws, a random study holds candidates of the grid, no id twice,
  and at most as many as asked for and as the space has points.\<close>

theorem random_study_samples_grid:
  assumes "\<forall>p \<in> set (params space). param_choices p \<noteq> []" "params space \<noteq> []"
  shows "distinct (map cand_id (sampleCandidates draw rng space n)) \<and>
    length (sampleCandidates draw rng space n) \<le> n \<and>
    length (sampleCandidates draw rng space n) \<le> length (product_lists (map param_choices (params space))) \<and>
    set (sampleCandidates draw rng space n) \<subseteq>
      bindChoices (params space) ` set (product_lists (map param_choices (params space)))"
proof -
  have "domainSize space \<le> length (product_lists (map param_choices (params space)))"
    using domainSize_exact [OF assms(1)] assms(2) by (simp add: product_lists_length)
  then show ?thesis
    using sample_loop_keeps [OF assms(1), where cs = "[]" and seen = "{}" and target = "min n (domainSize space)"
      and draw = draw and rng = rng and domain = "domainSize space" and n = "maxAttempts (min n (domainSize space))"]
    by (auto simp: sampleCandidates_def Let_def)
qed


section \<open>Bindings\<close>

text \<open>The choice a candidate binds to a name.\<close>

definition bound_choice :: "candidate \<Rightarrow> string \<Rightarrow> search_choice option" where
  "bound_choice c name = (case cand_integer c name of
       Some i \<Rightarrow> Some (IntegerChoice i)
     | None \<Rightarrow> map_option SymbolicChoice (cand_symbol c name))"

definition cand_ok :: "candidate \<Rightarrow> bool" where
  "cand_ok c \<longleftrightarrow> smap_ok (cand_values c) \<and> smap_ok (symbolicValues c)"

lemma bound_emplace:
  "cand_ok c \<Longrightarrow> bound_choice c (param_name p) = None \<Longrightarrow>
     cand_ok (emplace_choice p choice c) \<and>
     bound_choice (emplace_choice p choice c) = (bound_choice c)(param_name p \<mapsto> choice)"
  by (cases choice)
    (auto simp: cand_ok_def emplace_choice_def bound_choice_def cand_integer_def cand_symbol_def smap_ok_insert
      map_of_smap_insert fun_eq_iff split: option.splits)

lemma bound_fold:
  "length ps = length cs \<Longrightarrow> distinct (map param_name ps) \<Longrightarrow> cand_ok c \<Longrightarrow>
     \<forall>p \<in> set ps. bound_choice c (param_name p) = None \<Longrightarrow>
     bound_choice (fold (\<lambda>(p, choice). emplace_choice p choice) (zip ps cs) c) =
       bound_choice c ++ map_of (zip (map param_name ps) cs)"
proof (induction ps cs arbitrary: c rule: list_induct2)
  case (Cons p ps choice cs)
  have head: "cand_ok (emplace_choice p choice c)"
    "bound_choice (emplace_choice p choice c) = (bound_choice c)(param_name p \<mapsto> choice)"
    using bound_emplace [of c p choice] Cons.prems by auto
  have "map_of (zip (map param_name ps) cs) (param_name p) = None"
    using Cons.prems(1) Cons.hyps by (simp add: map_of_zip_is_None)
  moreover have "\<forall>q \<in> set ps. bound_choice (emplace_choice p choice c) (param_name q) = None"
    unfolding head(2) using Cons.prems(1,3) by (metis distinct.simps(2) fun_upd_other image_eqI list.set_intros(2) list.set_map list.simps(9))
  ultimately show ?case using Cons.IH [OF _ head(1)] Cons.prems(1) head(2)
    by (auto simp: fun_eq_iff map_add_def split: option.splits)
qed simp

lemma bound_bindChoices:
  assumes "length ps = length cs" "distinct (map param_name ps)"
  shows "bound_choice (bindChoices ps cs) = map_of (zip (map param_name ps) cs)"
proof -
  have "bound_choice (bindChoices ps cs) = bound_choice (emplace_all (zip ps cs))"
    by (simp add: bindChoices_def Let_def bound_choice_def cand_integer_def cand_symbol_def fun_eq_iff split: option.splits)
  moreover have "cand_ok empty_candidate" "\<And>n. bound_choice empty_candidate n = None"
    by (simp_all add: cand_ok_def empty_candidate_def bound_choice_def cand_integer_def cand_symbol_def)
  ultimately show ?thesis using bound_fold [OF assms, of empty_candidate]
    by (simp add: emplace_all_def fun_eq_iff map_add_def split: option.splits)
qed

lemma distinct_product_choices: "\<forall>p \<in> set ps. distinct (param_choices p) \<Longrightarrow> distinct (product_lists (map param_choices ps))"
  by (rule distinct_product_lists) auto

section \<open>Loaded spaces\<close>

lemma choice_key_inj [simp]: "choice_key a = choice_key b \<longleftrightarrow> a = b"
  by (cases a; cases b) auto

lemma load_choices_distinct:
  "load_choices op name as seen loaded = Inr r \<Longrightarrow> distinct loaded \<Longrightarrow> choice_key ` set loaded \<subseteq> seen \<Longrightarrow>
     distinct r \<and> length r = length loaded + length as"
proof (induction as arbitrary: seen loaded)
  case (Cons a as)
  then obtain choice where "loadChoice op name a = Inr choice" "choice_key choice \<notin> seen"
    "load_choices op name as (insert (choice_key choice) seen) (loaded @ [choice]) = Inr r"
    by (auto split: if_splits)
  with Cons.IH [OF this(3)] Cons.prems(2,3) show ?case by auto
qed simp

definition choices_ok :: "search_param \<Rightarrow> bool" where
  "choices_ok p \<longleftrightarrow> param_choices p \<noteq> [] \<and> distinct (param_choices p)"

lemma loadParam_ok: "loadParam op name kind role choices = Inr p \<Longrightarrow> choices_ok p"
  using load_choices_distinct [of op name choices "{}" "[]"]
  by (fastforce simp: loadParam_def choices_ok_def split: if_splits)

lemma load_nested_ok:
  "load_nested op ns space = Inr space' \<Longrightarrow> \<forall>p \<in> set (params space). choices_ok p \<Longrightarrow> \<forall>p \<in> set (params space'). choices_ok p"
proof (induction op ns space rule: load_nested.induct)
  case (2 op name kind role choices ns space)
  then show ?case using loadParam_ok [of op name kind role choices] by fastforce
next
  case (3 op kind names ns space)
  then show ?case by fastforce
qed auto

lemma loaded_choices_ok: "loadSearchSpace op = Inr space \<Longrightarrow> \<forall>p \<in> set (params space). choices_ok p"
  using load_nested_ok by (fastforce simp: loadSearchSpace_def)

text \<open>C8: exhaustive grid. For a loaded space whose parameters have different names and whose size fits an
  uncapped study, the grid binds no combination of choices twice and every combination once: whichever
  choice one takes for each parameter, exactly one candidate binds them all.\<close>

theorem grid_binds_every_choice_once:
  assumes "loadSearchSpace op = Inr space" "params space \<noteq> []" "distinct (map param_name (params space))"
    and "prod_list (extents (params space)) \<le> uint64_max"
    and "\<forall>p \<in> set (params space). f (param_name p) \<in> set (param_choices p)"
  shows "\<exists>cs. generateGridCandidates space None = Some cs \<and>
    (\<exists>!k. k < length cs \<and> (\<forall>p \<in> set (params space). bound_choice (cs ! k) (param_name p) = Some (f (param_name p))))"
proof -
  let ?ps = "params space" and ?tuples = "product_lists (map param_choices (params space))"
  let ?cs = "map (bindChoices ?ps) ?tuples" and ?t = "map (\<lambda>p. f (param_name p)) ?ps"
  have ok: "\<forall>p \<in> set ?ps. choices_ok p" by (rule loaded_choices_ok [OF assms(1)])
  have lens: "length t = length ?ps" if "t \<in> set ?tuples" for t
    using that by (simp add: product_lists_set list_all2_lengthD)
  have "generateGridCandidates space None = Some ?cs"
    using grid_enumerates [of space None] ok assms(2,4) by (simp add: choices_ok_def product_lists_length)
  moreover have "?t \<in> set ?tuples"
    using assms(5) by (auto simp: product_lists_set list_all2_conv_all_nth)
  then obtain k where k: "k < length ?tuples" "?tuples ! k = ?t" by (meson in_set_conv_nth)
  have reads: "(\<forall>p \<in> set ?ps. bound_choice (bindChoices ?ps t) (param_name p) = Some (f (param_name p))) \<longleftrightarrow> t = ?t"
    if "length t = length ?ps" for t
  proof -
    have nth: "bound_choice (bindChoices ?ps t) (param_name (?ps ! i)) = Some (t ! i)" if "i < length ?ps" for i
      using that \<open>length t = length ?ps\<close> assms(3) map_of_zip_nth [of "map param_name ?ps" t i]
      by (simp add: bound_bindChoices)
    show ?thesis using that by (auto simp: all_set_conv_all_nth nth list_eq_iff_nth_eq)
  qed
  have distinct: "distinct ?tuples" using ok by (intro distinct_product_choices) (auto simp: choices_ok_def)
  have "\<exists>!j. j < length ?cs \<and> (\<forall>p \<in> set ?ps. bound_choice (?cs ! j) (param_name p) = Some (f (param_name p)))"
  proof (rule ex1I [of _ k])
    show "k < length ?cs \<and> (\<forall>p \<in> set ?ps. bound_choice (?cs ! k) (param_name p) = Some (f (param_name p)))"
      using k reads [of ?t] by simp
    fix j assume j: "j < length ?cs \<and> (\<forall>p \<in> set ?ps. bound_choice (?cs ! j) (param_name p) = Some (f (param_name p)))"
    then have "j < length ?tuples" by simp
    then have "?tuples ! j = ?t" using j reads [of "?tuples ! j"] lens [of "?tuples ! j"] by (simp only: nth_map nth_mem)
    then show "j = k" using distinct k j by (metis length_map nth_eq_iff_index_eq)
  qed
  ultimately show ?thesis by blast
qed


section \<open>Ids\<close>

text \<open>The id hashes one text, in which names and values are not delimited.\<close>

definition bindings_text :: "(string, int) smap \<Rightarrow> (string, string) smap \<Rightarrow> string" where
  "bindings_text vs symbols =
     concat (map (\<lambda>(name, v). name @ ''='' @ int_to_string v @ '';'') vs) @ ''|'' @
     concat (map (\<lambda>(name, v). name @ ''='' @ v @ '';'') symbols)"

lemma fnv1a_bytes: "candidate_fnv1a s hash = stableHashBytes hash s"
  by (simp add: candidate_fnv1a_def stableHashBytes_def fnv_step_def [abs_def] kFnvPrime_def)

lemma fnv1a_concat:
  "fold (\<lambda>(a, b). candidate_fnv1a (f a b)) bs hash = stableHashBytes hash (concat (map (\<lambda>(a, b). f a b) bs))"
proof (induction bs arbitrary: hash)
  case Nil
  then show ?case by (simp add: stableHashBytes_def)
qed (auto simp: fnv1a_bytes stableHashBytes_append)

lemma computeCandidateId_text: "computeCandidateId vs symbols = ''candidate_'' @ hexId (stableHash (bindings_text vs symbols))"
proof -
  have basis: "14695981039346656037 = kFnvOffsetBasis" by (simp add: kFnvOffsetBasis_def)
  show ?thesis
    unfolding computeCandidateId_def Let_def fnv1a_concat basis fnv1a_bytes [of "''|''"] stableHash_def bindings_text_def
      stableHashBytes_append ..
qed

text \<open>Two candidates of one space with the same id: a value holds the delimiters.\<close>

lemma ids_not_delimited:
  "cand_id (bindChoices ps [SymbolicChoice ''1;b=2'', SymbolicChoice ''3'']) =
     cand_id (bindChoices ps [SymbolicChoice ''1'', SymbolicChoice ''2;b=3''])"
  if "ps = [\<lparr>param_name = ''a'', param_kind = ''layout'', param_choices = cs, param_role = []\<rparr>,
    \<lparr>param_name = ''b'', param_kind = ''layout'', param_choices = ds, param_role = []\<rparr>]"
  by (simp add: that bindChoices_def emplace_all_def emplace_choice_def empty_candidate_def computeCandidateId_text bindings_text_def
      less_char_def)

section \<open>A worked space\<close>

definition tile_op :: search_space_op where
  "tile_op = \<lparr>op_name = ''tiles'', op_workload = ''matmul'', op_singleton = None, op_body =
     [ParamOp ''BM'' ''integer'' None [IntegerAttr 16, IntegerAttr 32],
      ParamOp ''A'' ''layout'' (Some ''lhs'') [StringAttr ''row_major'', StringAttr ''blocked''],
      ConstraintOp ''sram_capacity'' [StringAttr ''BM'']]\<rparr>"

definition tile_space :: search_space where
  "tile_space = \<lparr>space_name = ''tiles'', space_workload = ''matmul'', params =
     [\<lparr>param_name = ''BM'', param_kind = ''integer'', param_choices = [IntegerChoice 16, IntegerChoice 32], param_role = []\<rparr>,
      \<lparr>param_name = ''A'', param_kind = ''layout'', param_choices = [SymbolicChoice ''row_major'', SymbolicChoice ''blocked''],
        param_role = ''lhs''\<rparr>],
     constraints = [\<lparr>con_kind = SramCapacity, con_params = [''BM''], con_attrs = []\<rparr>],
     space_objective = default_objective, singleton = False\<rparr>"

lemma tile_space_loaded: "loadSearchSpace tile_op = Inr tile_space"
  by (simp add: loadSearchSpace_def tile_op_def tile_space_def loadParam_def loadChoice_def loadConstraint_def
      symbolizeConstraintKind_def int_to_string_def)

lemma grid_enumerates_witness:
  "generateGridCandidates tile_space (Some 3) =
     Some (map (bindChoices (params tile_space))
       [[IntegerChoice 16, SymbolicChoice ''row_major''], [IntegerChoice 16, SymbolicChoice ''blocked''],
        [IntegerChoice 32, SymbolicChoice ''row_major'']])"
  using grid_enumerates [of tile_space "Some 3"] by (simp add: tile_space_def)

lemma random_study_samples_grid_witness:
  "length (sampleCandidates mt_next (mt_seed 7) tile_space 3) \<le> 3 \<and>
     distinct (map cand_id (sampleCandidates mt_next (mt_seed 7) tile_space 3))"
  using random_study_samples_grid [of tile_space mt_next "mt_seed 7" 3] by (simp add: tile_space_def)

lemma grid_binds_every_choice_once_witness:
  "\<exists>cs. generateGridCandidates tile_space None = Some cs \<and>
    (\<exists>!k. k < length cs \<and> (\<forall>p \<in> set (params tile_space). bound_choice (cs ! k) (param_name p) =
      Some ((if param_name p = ''BM'' then IntegerChoice 32 else SymbolicChoice ''blocked''))))"
  by (rule grid_binds_every_choice_once [OF tile_space_loaded,
      where f = "\<lambda>n. if n = ''BM'' then IntegerChoice 32 else SymbolicChoice ''blocked''"])
    (simp_all add: tile_space_def uint64_max_def)

lemma symbolize_stringify_constraint: "symbolizeConstraintKind (stringifyConstraintKind k) = Some k"
  by (cases k) (simp_all add: symbolizeConstraintKind_def)

lemma symbolize_stringify_direction: "symbolizeObjectiveDirection (stringifyObjectiveDirection d) = Some d"
  by (cases d) (simp_all add: symbolizeObjectiveDirection_def)

end
