(* ===== verification/Legality.thy ===== *)
theory Legality
  imports Candidates CostModel "HOL-Library.Signed_Division"
begin

text \<open>
  The legality of a tuning candidate on a machine: \<^verbatim>\<open>lib/Perf/Legality.cpp\<close> and
  \<^verbatim>\<open>lib/Perf/ContractionSupport.cpp\<close>, every rule with its order of checks and its messages. A rule
  is legal, illegal with a reason, or a fault: a division by zero or an access outside a vector that
  the code does not guard. Sizes in bytes are \<^verbatim>\<open>uint64_t\<close> and wrap.
\<close>

section \<open>Values\<close>

datatype verdict = Legal | Illegal string | Fault

record workload_shape =
  ws_M :: int
  ws_N :: int
  ws_K :: int
  inputDType :: string
  weightDType :: string
  accumulatorDType :: string
  outputDType :: string

record binding_facts =
  originalWorkload :: "workload_shape option"
  contractions :: "workload_shape list"

definition illegal :: "constraint_kind \<Rightarrow> string \<Rightarrow> verdict" where
  "illegal kind detail = Illegal (stringifyConstraintKind kind @ '': '' @ detail)"

text \<open>The first check in a list that is not legal.\<close>

fun first_bad :: "('a \<Rightarrow> verdict) \<Rightarrow> 'a list \<Rightarrow> verdict" where
  "first_bad f [] = Legal"
| "first_bad f (x # xs) = (case f x of Legal \<Rightarrow> first_bad f xs | v \<Rightarrow> v)"

definition to_u64 :: "int \<Rightarrow> nat" where "to_u64 i = nat (i mod 18446744073709551616)"

definition mul64 :: "nat \<Rightarrow> nat \<Rightarrow> nat" where "mul64 a b = wrap64 (a * b)"

text \<open>A conjunction of \<^verbatim>\<open>a % b == 0\<close>, left to right; \<open>None\<close> where the remainder is undefined.\<close>

fun all_divide :: "(int \<times> int) list \<Rightarrow> bool option" where
  "all_divide [] = Some True"
| "all_divide ((a, b) # ps) =
     (if b = 0 \<or> (a = int64_min \<and> b = -1) then None
      else if a smod b \<noteq> 0 then Some False else all_divide ps)"

text \<open>A conjunction of \<^verbatim>\<open>xs[i] >= ys[i]\<close>; \<open>None\<close> where \<^verbatim>\<open>ys\<close> ends.\<close>

fun all_at_least :: "int list \<Rightarrow> int list \<Rightarrow> bool option" where
  "all_at_least [] ys = Some True"
| "all_at_least (x # xs) [] = None"
| "all_at_least (x # xs) (y # ys) = (if y \<le> x then all_at_least xs ys else Some False)"

text \<open>\<^verbatim>\<open>StringRef::split\<close> keeping empty parts, \<^verbatim>\<open>llvm::join\<close>, and \<^verbatim>\<open>getAsInteger(10, int64_t)\<close>.\<close>

fun split_on :: "char \<Rightarrow> string \<Rightarrow> string list" where
  "split_on sep [] = [[]]"
| "split_on sep (c # cs) =
     (if c = sep then [] # split_on sep cs
      else (case split_on sep cs of p # ps \<Rightarrow> (c # p) # ps | [] \<Rightarrow> [[c]]))"

fun join_with :: "string \<Rightarrow> string list \<Rightarrow> string" where
  "join_with sep [] = []"
| "join_with sep [p] = p"
| "join_with sep (p # ps) = p @ sep @ join_with sep ps"

definition parse_int64 :: "string \<Rightarrow> int option" where
  "parse_int64 s =
     (let (negative, digits) = (case s of c # cs \<Rightarrow> if c = CHR ''-'' then (True, cs) else (False, s) | [] \<Rightarrow> (False, s));
          v = (if negative then - int (digits_val digits) else int (digits_val digits)) in
      if digits \<noteq> [] \<and> list_all is_digit digits \<and> in_int64 v then Some v else None)"

section \<open>Reading the candidate and the machine\<close>

definition dtypeBytes :: "string \<Rightarrow> nat option" where
  "dtypeBytes name = (case symbolizeDType name of
       None \<Rightarrow> None
     | Some d \<Rightarrow> Some (case d of DType_f32 \<Rightarrow> 4 | DType_f16 \<Rightarrow> 2 | DType_bf16 \<Rightarrow> 2 | DType_i32 \<Rightarrow> 4 | DType_i8 \<Rightarrow> 1))"

definition positive_int64 :: "string \<Rightarrow> int option" where
  "positive_int64 s = (case parse_int64 s of Some v \<Rightarrow> if v \<le> 0 then None else Some v | None \<Rightarrow> None)"

definition parseShapeTriple :: "string \<Rightarrow> (int \<times> int \<times> int) option" where
  "parseShapeTriple s = (case split_on CHR ''x'' s of
       [a, b, c] \<Rightarrow> (case (positive_int64 a, positive_int64 b, positive_int64 c) of
           (Some x, Some y, Some z) \<Rightarrow> Some (x, y, z)
         | _ \<Rightarrow> None)
     | _ \<Rightarrow> None)"

definition tripleText :: "int \<Rightarrow> int \<Rightarrow> int \<Rightarrow> string" where
  "tripleText a b c = int_to_string a @ ''x'' @ int_to_string b @ ''x'' @ int_to_string c"

text \<open>The volume of a fragment is a product of \<^verbatim>\<open>int64_t\<close>; \<open>None\<close> is a signed overflow, which is undefined in the code.\<close>

fun volume_from :: "int \<Rightarrow> int list \<Rightarrow> int option" where
  "volume_from product [] = Some product"
| "volume_from product (e # es) =
     (if in_int64 (product * e) then volume_from (product * e) es else None)"

definition volume :: "int list \<Rightarrow> int option" where
  "volume shape = volume_from 1 shape"

fun pick_shape :: "int list list \<Rightarrow> int list \<Rightarrow> int list option" where
  "pick_shape [] best = Some best"
| "pick_shape (shape # rest) best =
     (if length shape = length best then
        (case (volume shape, volume best) of
           (Some v, Some b) \<Rightarrow> pick_shape rest (if v > b then shape else best)
         | _ \<Rightarrow> None)
      else pick_shape rest best)"

text \<open>\<open>None\<close> is the front of an empty vector or an overflowing volume: both are undefined.\<close>

definition largestTileShape :: "compute_node \<Rightarrow> int list option" where
  "largestTileShape engine = (case shapes engine of [] \<Rightarrow> None | front # _ \<Rightarrow> pick_shape (shapes engine) front)"

definition symbolOfKind :: "search_space \<Rightarrow> candidate \<Rightarrow> string \<Rightarrow> string option" where
  "symbolOfKind space c kind = (case findParamOfKind space kind of None \<Rightarrow> None | Some p \<Rightarrow> cand_symbol c (param_name p))"

definition isMasked :: "search_space \<Rightarrow> candidate \<Rightarrow> bool" where
  "isMasked space c = (case symbolOfKind space c ''tail_policy'' of None \<Rightarrow> False | Some policy \<Rightarrow> policy \<noteq> ''none'')"

definition applicableShapes :: "binding_facts \<Rightarrow> workload_shape list" where
  "applicableShapes facts = (if contractions facts \<noteq> [] then contractions facts
     else (case originalWorkload facts of Some w \<Rightarrow> [w] | None \<Rightarrow> []))"

definition dtypeShape :: "binding_facts \<Rightarrow> workload_shape option" where
  "dtypeShape facts = (case originalWorkload facts of
       Some w \<Rightarrow> Some w
     | None \<Rightarrow> (case contractions facts of c # _ \<Rightarrow> Some c | [] \<Rightarrow> None))"

fun repeated_role :: "string \<Rightarrow> string set \<Rightarrow> search_param list \<Rightarrow> string option" where
  "repeated_role kind declared [] = None"
| "repeated_role kind declared (p # ps) =
     (if param_kind p \<noteq> kind \<or> param_role p = [] then repeated_role kind declared ps
      else if param_role p \<in> declared then Some (param_role p)
      else repeated_role kind (insert (param_role p) declared) ps)"

definition referenced_param :: "search_space \<Rightarrow> string \<Rightarrow> string \<Rightarrow> search_param option" where
  "referenced_param space kind name = (case findParam space name of
       Some p \<Rightarrow> Some p
     | None \<Rightarrow> find (\<lambda>p. param_kind p = kind \<and> param_role p = name) (params space))"

fun resolve_params :: "search_space \<Rightarrow> string \<Rightarrow> string list \<Rightarrow> (string, search_param list) expected" where
  "resolve_params space kind [] = Inr []"
| "resolve_params space kind (name # names) = (case referenced_param space kind name of
       None \<Rightarrow> Inl (''references '' @ in_quotes name @ '', which the space does not declare'')
     | Some p \<Rightarrow> if param_kind p \<noteq> kind
         then Inl (''references '' @ in_quotes name @ '', which is not a '' @ kind @ '' parameter'')
         else bindR (resolve_params space kind names) (\<lambda>ps. Inr (p # ps)))"

definition resolveReferencedParams :: "search_space \<Rightarrow> search_constraint \<Rightarrow> string \<Rightarrow> (string, search_param list) expected" where
  "resolveReferencedParams space constraint kind = (case repeated_role kind {} (params space) of
       Some role \<Rightarrow> Inl (''more than one '' @ kind @ '' parameter declares role '' @ in_quotes role)
     | None \<Rightarrow> resolve_params space kind (con_params constraint))"

definition unbound :: "string \<Rightarrow> string" where
  "unbound name = ''candidate does not bind parameter '' @ in_quotes name"

text \<open>The integers of an \<^verbatim>\<open>IntResolver\<close>: the first missing one is the error.\<close>

fun resolve_ints :: "candidate \<Rightarrow> string list \<Rightarrow> (string, int list) expected" where
  "resolve_ints c [] = Inr []"
| "resolve_ints c (name # names) = (case cand_integer c name of
       None \<Rightarrow> Inl (unbound name)
     | Some v \<Rightarrow> bindR (resolve_ints c names) (\<lambda>vs. Inr (v # vs)))"

definition with_tile :: "constraint_kind \<Rightarrow> candidate \<Rightarrow> (int \<Rightarrow> int \<Rightarrow> int \<Rightarrow> verdict) \<Rightarrow> verdict" where
  "with_tile kind c f = (case resolve_ints c [''BM'', ''BN'', ''BK''] of
       Inl e \<Rightarrow> illegal kind e
     | Inr [BM, BN, BK] \<Rightarrow> f BM BN BK
     | Inr _ \<Rightarrow> Fault)"

definition weightTileCount :: "string \<Rightarrow> nat" where
  "weightTileCount workload = (if workload = ''fused_swiglu'' then 2 else 1)"

definition accumulatorCount :: "string \<Rightarrow> nat" where
  "accumulatorCount workload = (if workload = ''fused_swiglu'' then 2 else 1)"

definition stagedTileBytes :: "search_space \<Rightarrow> workload_shape \<Rightarrow> int \<Rightarrow> int \<Rightarrow> int \<Rightarrow> nat option" where
  "stagedTileBytes space shape BM BN BK = (case (dtypeBytes (inputDType shape), dtypeBytes (weightDType shape)) of
       (Some inputBytes, Some weightBytes) \<Rightarrow>
         Some (wrap64 (mul64 (mul64 (to_u64 BM) (to_u64 BK)) inputBytes +
           mul64 (mul64 (mul64 (weightTileCount (space_workload space)) (to_u64 BK)) (to_u64 BN)) weightBytes))
     | _ \<Rightarrow> None)"

text \<open>The climb from an executor to its ancestors; the visited set holds ids.\<close>

function nested_walk :: "machine_model \<Rightarrow> string \<Rightarrow> string list \<Rightarrow> executor_node \<Rightarrow> bool" where
  "nested_walk m outer visited current = (case ex_parent current of
       None \<Rightarrow> False
     | Some p \<Rightarrow> (case findExecutor m p of
           None \<Rightarrow> False
         | Some parent \<Rightarrow>
             if ownerMatches m outer (ex_id parent) then True
             else if ex_id parent \<in> set visited then False
             else nested_walk m outer (ex_id parent # visited) parent))"
  by pat_completeness auto

termination nested_walk
  by (relation "measure (\<lambda>(m, outer, visited, n). card (ex_id ` set (executors m) - set visited))")
    (auto intro: unvisited_decreases simp del: set_simps)

declare nested_walk.simps [simp del]

definition nestedUnder :: "machine_model \<Rightarrow> string \<Rightarrow> string \<Rightarrow> bool" where
  "nestedUnder m inner outer \<longleftrightarrow>
     list_ex (\<lambda>executor. ownerMatches m inner (ex_id executor) \<and> nested_walk m outer [] executor) (executors m)"

definition supportsContractionTypes :: "compute_node \<Rightarrow> string \<Rightarrow> string \<Rightarrow> bool" where
  "supportsContractionTypes engine input accumulator \<longleftrightarrow>
     (comp_kind engine = ''vector_engine'' \<or> comp_kind engine = ''matrix_engine'') \<and>
     input \<in> set (elementTypes engine) \<and> accumulator \<in> set (accumulatorDTypes engine)"

section \<open>Rules\<close>

definition kSramUtilizationLimit :: double where "kSramUtilizationLimit = round_double (4 / 5)"

text \<open>\<^verbatim>\<open>static_cast<uint64_t>\<close> of the product of the capacity and the limit.\<close>

definition sram_limit :: "nat \<Rightarrow> nat" where
  "sram_limit capacity = nat \<lfloor>double_value (double_mult (double_of_nat capacity) kSramUtilizationLimit)\<rfloor>"

definition no_shape :: string where
  "no_shape = ''cannot be evaluated: the kernel supplies no workload shape (no micro.mma and no original-workload provenance)''"

definition pipeline_stages :: "candidate \<Rightarrow> int" where
  "pipeline_stages c = max 1 (case cand_integer c ''pipeline_stages'' of Some v \<Rightarrow> v | None \<Rightarrow> 1)"

definition missing_memory :: "machine_model \<Rightarrow> string \<Rightarrow> string" where
  "missing_memory m memory = ''machine '' @ in_quotes (target m) @ '' does not model memory '' @ in_quotes memory"

text \<open>The bytes of a shape, several times, against the limit of the local memory.\<close>

definition check_staged :: "constraint_kind \<Rightarrow> string \<Rightarrow> nat \<Rightarrow> nat \<Rightarrow> nat option \<Rightarrow> verdict" where
  "check_staged kind what copies capacity staged = (case staged of
       None \<Rightarrow> illegal kind ''input or weight dtype is not a micro dtype''
     | Some tileBytes \<Rightarrow>
         (let required = mul64 copies tileBytes in
          if required > sram_limit capacity
          then illegal kind (''requires '' @ nat_to_string required @ what @ '' but sram holds '' @
            nat_to_string capacity @ '' bytes (limit '' @ nat_to_string (sram_limit capacity) @ '')'')
          else Legal))"

definition checkSramCapacity :: "search_space \<Rightarrow> candidate \<Rightarrow> binding_facts \<Rightarrow> machine_model \<Rightarrow> verdict" where
  "checkSramCapacity space c facts m = (case findMemoryOfKind m ''sram'' of
       None \<Rightarrow> illegal SramCapacity (missing_memory m ''sram'')
     | Some sram \<Rightarrow> with_tile SramCapacity c (\<lambda>BM BN BK.
         if applicableShapes facts = [] then illegal SramCapacity no_shape
         else first_bad (\<lambda>shape. check_staged SramCapacity '' bytes'' (if pipeline_stages c > 1 then 2 else 1)
             (capacityBytes sram) (stagedTileBytes space shape BM BN BK)) (applicableShapes facts)))"

definition check_accumulators :: "search_space \<Rightarrow> int \<Rightarrow> int \<Rightarrow> nat \<Rightarrow> workload_shape \<Rightarrow> verdict" where
  "check_accumulators space BM BN capacity shape = (case dtypeBytes (accumulatorDType shape) of
       None \<Rightarrow> illegal AccCapacity (''accumulator dtype '' @ in_quotes (accumulatorDType shape) @ '' is not a micro dtype'')
     | Some accBytes \<Rightarrow>
         (let required = mul64 (mul64 (mul64 (accumulatorCount (space_workload space)) (to_u64 BM)) (to_u64 BN)) accBytes in
          if required > capacity
          then illegal AccCapacity (''requires '' @ nat_to_string required @ '' bytes but acc holds '' @ nat_to_string capacity @ '' bytes'')
          else Legal))"

definition checkAccCapacity :: "search_space \<Rightarrow> candidate \<Rightarrow> binding_facts \<Rightarrow> machine_model \<Rightarrow> verdict" where
  "checkAccCapacity space c facts m = (case findMemoryOfKind m ''acc'' of
       None \<Rightarrow> illegal AccCapacity (missing_memory m ''acc'')
     | Some acc \<Rightarrow> (case resolve_ints c [''BM'', ''BN''] of
           Inl e \<Rightarrow> illegal AccCapacity e
         | Inr [BM, BN] \<Rightarrow>
             if applicableShapes facts = [] then illegal AccCapacity no_shape
             else first_bad (check_accumulators space BM BN (capacityBytes acc)) (applicableShapes facts)
         | Inr _ \<Rightarrow> Fault))"

definition mmaUnsupported :: "compute_node list \<Rightarrow> workload_shape \<Rightarrow> verdict" where
  "mmaUnsupported engines shape = (case find (\<lambda>e. inputDType shape \<notin> set (elementTypes e)) engines of
       Some e \<Rightarrow> illegal MmaCompatible (''engine '' @ in_quotes (comp_id e) @ '' does not support input dtype '' @
         in_quotes (inputDType shape) @ '' (supported: '' @ join_with '', '' (elementTypes e) @ '')'')
     | None \<Rightarrow> illegal MmaCompatible (''no contraction engine supports accumulator dtype '' @ in_quotes (accumulatorDType shape)))"

definition not_multiple :: "int \<Rightarrow> int \<Rightarrow> int \<Rightarrow> compute_node \<Rightarrow> string \<Rightarrow> string" where
  "not_multiple BM BN BK engine what = ''tile '' @ tripleText BM BN BK @ '' is not a multiple of engine '' @
     in_quotes (comp_id engine) @ what @ '' and tail_policy is not '' @ in_quotes ''mask''"

text \<open>An illegal verdict carries the reason here, without the kind of the constraint.\<close>

definition contractionTileFits :: "compute_node \<Rightarrow> workload_shape \<Rightarrow> int \<Rightarrow> int \<Rightarrow> int \<Rightarrow> verdict" where
  "contractionTileFits engine shape BM BN BK =
     (if comp_kind engine = ''matrix_engine'' then
        if shapes engine = [] then Illegal (''matrix engine '' @ in_quotes (comp_id engine) @ '' declares no fragment'')
        else (case largestTileShape engine of
           None \<Rightarrow> Fault
         | Some [f0, f1, f2] \<Rightarrow> (case all_divide [(BM, f0), (BN, f1), (BK, f2)] of
               None \<Rightarrow> Fault
             | Some True \<Rightarrow> Legal
             | Some False \<Rightarrow> Illegal (not_multiple BM BN BK engine ('' fragment '' @ tripleText f0 f1 f2)))
         | Some _ \<Rightarrow> Illegal (''matrix engine '' @ in_quotes (comp_id engine) @ '' declares no rank-3 fragment''))
      else (case map_of (lanes engine) (accumulatorDType shape) of
           Some n \<Rightarrow> if n \<le> 0
             then Illegal (''engine '' @ in_quotes (comp_id engine) @ '' declares no accumulator lane width for dtype '' @
               in_quotes (accumulatorDType shape))
             else if BN smod n = 0 then Legal
             else Illegal (not_multiple BM BN BK engine ('' accumulator lane width '' @ int_to_string n))
         | None \<Rightarrow> Illegal (''engine '' @ in_quotes (comp_id engine) @ '' declares no accumulator lane width for dtype '' @
             in_quotes (accumulatorDType shape))))"

fun fit_loop :: "(compute_node \<Rightarrow> verdict) \<Rightarrow> string \<Rightarrow> compute_node list \<Rightarrow> verdict" where
  "fit_loop fits firstFailure [] = illegal MmaCompatible
     (if firstFailure = [] then ''no contraction engine can issue the tile'' else firstFailure)"
| "fit_loop fits firstFailure (e # es) = (case fits e of
       Legal \<Rightarrow> Legal
     | Fault \<Rightarrow> Fault
     | Illegal failure \<Rightarrow> fit_loop fits (if firstFailure = [] then failure else firstFailure) es)"

definition contraction_engines :: "machine_model \<Rightarrow> compute_node list" where
  "contraction_engines m = filter (\<lambda>n. comp_kind n = ''vector_engine'' \<or> comp_kind n = ''matrix_engine'') (computes m)"

definition compatible_engines :: "machine_model \<Rightarrow> workload_shape \<Rightarrow> compute_node list" where
  "compatible_engines m shape =
     filter (\<lambda>e. supportsContractionTypes e (inputDType shape) (accumulatorDType shape)) (contraction_engines m)"

text \<open>One unmasked contraction: the engines that take its element types, then the first that issues the tile.\<close>

definition check_contraction :: "machine_model \<Rightarrow> int \<Rightarrow> int \<Rightarrow> int \<Rightarrow> workload_shape \<Rightarrow> verdict" where
  "check_contraction m BM BN BK shape =
     (if compatible_engines m shape = [] then mmaUnsupported (contraction_engines m) shape
      else fit_loop (\<lambda>e. contractionTileFits e shape BM BN BK) [] (compatible_engines m shape))"

definition checkMmaCompatible :: "search_space \<Rightarrow> candidate \<Rightarrow> binding_facts \<Rightarrow> machine_model \<Rightarrow> verdict" where
  "checkMmaCompatible space c facts m =
     (if contraction_engines m = [] then
        illegal MmaCompatible (''machine '' @ in_quotes (target m) @ '' declares no vector or matrix engine'')
      else if applicableShapes facts = [] then
        illegal MmaCompatible ''cannot be evaluated: the kernel performs no contraction (micro.mma) to check''
      else if isMasked space c then
        first_bad (\<lambda>shape. if compatible_engines m shape = [] then mmaUnsupported (contraction_engines m) shape else Legal)
          (applicableShapes facts)
      else with_tile MmaCompatible c (\<lambda>BM BN BK.
        if BM \<le> 0 \<or> BN \<le> 0 \<or> BK \<le> 0
        then illegal MmaCompatible (''tile '' @ tripleText BM BN BK @ '' has a non-positive extent'')
        else first_bad (check_contraction m BM BN BK) (applicableShapes facts)))"

definition checkMappingExtent :: "candidate \<Rightarrow> machine_model \<Rightarrow> verdict" where
  "checkMappingExtent c m = (case cand_integer c ''num_threads'' of
       None \<Rightarrow> illegal MappingExtent (unbound ''num_threads'')
     | Some threads \<Rightarrow>
         if threads < 1 then illegal MappingExtent ''num_threads must be positive''
         else if to_u64 threads > workerThreads m
         then illegal MappingExtent (''num_threads '' @ int_to_string threads @ '' exceeds machine '' @ in_quotes (target m) @
           '' worker_threads '' @ nat_to_string (workerThreads m))
         else Legal)"

definition divide_verdict :: "constraint_kind \<Rightarrow> (int \<times> int) list \<Rightarrow> string \<Rightarrow> verdict" where
  "divide_verdict kind ps complaint = (case all_divide ps of
       None \<Rightarrow> Fault
     | Some ok \<Rightarrow> if ok then Legal else illegal kind complaint)"

text \<open>Without a policy for tails the original dimensions must be divisible.\<close>

definition check_divisible :: "candidate \<Rightarrow> binding_facts \<Rightarrow> verdict" where
  "check_divisible c facts = (case originalWorkload facts of
       None \<Rightarrow> illegal TailSupported (''cannot be evaluated: the kernel supplies no original workload dimensions '' @
         ''(no original-workload provenance)'')
     | Some shape \<Rightarrow> with_tile TailSupported c (\<lambda>BM BN BK.
         divide_verdict TailSupported [(ws_M shape, BM), (ws_N shape, BN), (ws_K shape, BK)]
           (''shape '' @ tripleText (ws_M shape) (ws_N shape) (ws_K shape) @ '' is not divisible by tile '' @
            tripleText BM BN BK @ '' and tail_policy is not '' @ in_quotes ''mask'')))"

definition checkTailSupported :: "search_space \<Rightarrow> candidate \<Rightarrow> binding_facts \<Rightarrow> verdict" where
  "checkTailSupported space c facts = (case symbolOfKind space c ''tail_policy'' of
       None \<Rightarrow> check_divisible c facts
     | Some policy \<Rightarrow>
         if policy = ''none'' then check_divisible c facts
         else if policy = ''pad'' then Legal
         else if policy = ''bounded'' then Legal
         else if policy = ''mask'' then illegal TailSupported (''tail_policy '' @ in_quotes ''mask'' @ '' is unsupported'')
         else illegal TailSupported (''tail_policy '' @ in_quotes policy @ '' is unsupported''))"

definition widest :: "string \<Rightarrow> compute_node \<Rightarrow> (compute_node \<times> int) option \<Rightarrow> (compute_node \<times> int) option" where
  "widest dtype engine best = (case map_of (lanes engine) dtype of
       Some n \<Rightarrow> if n > (case best of Some (_, l) \<Rightarrow> l | None \<Rightarrow> 0) then Some (engine, n) else best
     | None \<Rightarrow> best)"

definition checkVectorWidthSupported :: "candidate \<Rightarrow> binding_facts \<Rightarrow> machine_model \<Rightarrow> verdict" where
  "checkVectorWidthSupported c facts m = (case cand_integer c ''vector_width'' of
       None \<Rightarrow> illegal VectorWidthSupported (unbound ''vector_width'')
     | Some width \<Rightarrow>
         if width < 1 then illegal VectorWidthSupported ''vector_width must be positive''
         else (case dtypeShape facts of
             None \<Rightarrow> illegal VectorWidthSupported (''cannot be evaluated: the kernel supplies no input dtype '' @
               ''(no original-workload provenance and no micro.mma)'')
           | Some shape \<Rightarrow>
               if computesOfKind m ''vector_engine'' = []
               then illegal VectorWidthSupported (''machine '' @ in_quotes (target m) @ '' declares no vector engine'')
               else (case fold (widest (inputDType shape)) (computesOfKind m ''vector_engine'') None of
                   None \<Rightarrow> illegal VectorWidthSupported (''no vector engine supports dtype '' @ in_quotes (inputDType shape))
                 | Some (best, n) \<Rightarrow>
                     if width > n
                     then illegal VectorWidthSupported (''vector_width '' @ int_to_string width @ '' exceeds engine '' @
                       in_quotes (comp_id best) @ '' lanes '' @ int_to_string n @ '' for dtype '' @ in_quotes (inputDType shape))
                     else Legal)))"

text \<open>The prefix that names a parameter when the constraint governs several.\<close>

definition role_prefix :: "search_param list \<Rightarrow> search_param \<Rightarrow> string" where
  "role_prefix ps p = (if length ps > 1 \<or> param_role p \<noteq> []
     then ''(role '' @ in_quotes (if param_role p = [] then param_name p else param_role p) @ '') '' else [])"

text \<open>The loop over the levels of the path: whether a level supports the layout, whether one is modelled.\<close>

fun level_supports :: "machine_model \<Rightarrow> string \<Rightarrow> bool \<Rightarrow> string list \<Rightarrow> bool \<times> bool" where
  "level_supports m layout sawModeledLevel [] = (False, sawModeledLevel)"
| "level_supports m layout sawModeledLevel (level # levels) =
     (if level = ''dram'' then level_supports m layout sawModeledLevel levels
      else (case findMemoryOfKind m level of
          None \<Rightarrow> level_supports m layout sawModeledLevel levels
        | Some memory \<Rightarrow>
            if layout \<in> set (mem_supportedLayouts memory) then (True, True)
            else level_supports m layout True levels))"

definition memory_path :: "search_space \<Rightarrow> candidate \<Rightarrow> string list" where
  "memory_path space c = (case symbolOfKind space c ''memory_path'' of Some s \<Rightarrow> split_on CHR '':'' s | None \<Rightarrow> [''sram''])"

definition check_layout_param :: "search_space \<Rightarrow> candidate \<Rightarrow> machine_model \<Rightarrow> search_param list \<Rightarrow> search_param \<Rightarrow> verdict" where
  "check_layout_param space c m layouts p = (case cand_symbol c (param_name p) of
       None \<Rightarrow> illegal LayoutSupported (unbound (param_name p))
     | Some layout \<Rightarrow>
         (let (supported, sawModeledLevel) = level_supports m layout False (memory_path space c) in
          if supported then Legal
          else if \<not> sawModeledLevel then illegal LayoutSupported (role_prefix layouts p @ ''machine '' @ in_quotes (target m) @
            '' models no memory on the path '' @ in_quotes (join_with '':'' (memory_path space c)))
          else illegal LayoutSupported (role_prefix layouts p @ ''no memory supports layout '' @ in_quotes layout)))"

definition checkLayoutSupported :: "search_space \<Rightarrow> candidate \<Rightarrow> search_constraint \<Rightarrow> machine_model \<Rightarrow> verdict" where
  "checkLayoutSupported space c constraint m = (case resolveReferencedParams space constraint ''layout'' of
       Inl e \<Rightarrow> illegal LayoutSupported e
     | Inr layouts \<Rightarrow> first_bad (check_layout_param space c m layouts) layouts)"

fun check_nesting :: "machine_model \<Rightarrow> string \<Rightarrow> string list \<Rightarrow> verdict" where
  "check_nesting m label (outer # inner # owners) =
     (if nestedUnder m inner outer then check_nesting m label (inner # owners)
      else illegal OwnerSupported (label @ ''owner '' @ in_quotes inner @ '' is not nested under '' @ in_quotes outer))"
| "check_nesting m label _ = Legal"

definition check_owner :: "candidate \<Rightarrow> machine_model \<Rightarrow> search_param list \<Rightarrow> search_param \<Rightarrow> verdict" where
  "check_owner c m mappings p = (case cand_symbol c (param_name p) of
       None \<Rightarrow> illegal OwnerSupported (unbound (param_name p))
     | Some mapping \<Rightarrow>
         (let owners = split_on CHR ''/'' mapping; label = role_prefix mappings p in
          if owners = [] then illegal OwnerSupported (label @ ''owner_mapping is empty'')
          else (case first_bad (\<lambda>owner. if hasOwnerKind m owner then Legal
              else illegal OwnerSupported (label @ ''owner '' @ in_quotes owner @ '' is not modeled by machine '' @ in_quotes (target m)))
              owners of
            Legal \<Rightarrow> check_nesting m label owners
          | v \<Rightarrow> v)))"

definition checkOwnerSupported :: "search_space \<Rightarrow> candidate \<Rightarrow> search_constraint \<Rightarrow> machine_model \<Rightarrow> verdict" where
  "checkOwnerSupported space c constraint m = (case resolveReferencedParams space constraint ''owner_mapping'' of
       Inl e \<Rightarrow> illegal OwnerSupported e
     | Inr mappings \<Rightarrow> first_bad (check_owner c m mappings) mappings)"

definition not_a_triple :: "string \<Rightarrow> string" where
  "not_a_triple s = ''fragment_shape '' @ in_quotes s @ '' is not a positive MxNxK triple''"

text \<open>The search for an engine that supports the fragment; \<open>None\<close> is an access outside a shape or an undefined volume.\<close>

fun fragment_supported :: "int list \<Rightarrow> compute_node list \<Rightarrow> bool option" where
  "fragment_supported fragment [] = Some False"
| "fragment_supported fragment (e # es) = (case largestTileShape e of
       None \<Rightarrow> None
     | Some shape \<Rightarrow> (case all_at_least fragment shape of
           None \<Rightarrow> None
         | Some True \<Rightarrow> Some True
         | Some False \<Rightarrow> fragment_supported fragment es))"

definition tile_divided :: "constraint_kind \<Rightarrow> candidate \<Rightarrow> int \<times> int \<times> int \<Rightarrow> (int \<Rightarrow> int \<Rightarrow> int \<Rightarrow> string) \<Rightarrow> verdict" where
  "tile_divided kind c fragment complaint = with_tile kind c (\<lambda>BM BN BK.
     case fragment of (f0, f1, f2) \<Rightarrow> divide_verdict kind [(BM, f0), (BN, f1), (BK, f2)] (complaint BM BN BK))"

definition checkFragmentCompatible :: "search_space \<Rightarrow> candidate \<Rightarrow> machine_model \<Rightarrow> verdict" where
  "checkFragmentCompatible space c m = (case symbolOfKind space c ''fragment_shape'' of
       None \<Rightarrow> Legal
     | Some s \<Rightarrow> (case parseShapeTriple s of
           None \<Rightarrow> illegal FragmentCompatible (not_a_triple s)
         | Some (f0, f1, f2) \<Rightarrow> (case fragment_supported [f0, f1, f2] (computesOfKind m ''matrix_engine'') of
               None \<Rightarrow> Fault
             | Some False \<Rightarrow> illegal FragmentCompatible (''fragment '' @ in_quotes s @ '' is not supported by any matrix engine'')
             | Some True \<Rightarrow>
                 if isMasked space c then Legal
                 else tile_divided FragmentCompatible c (f0, f1, f2) (\<lambda>BM BN BK.
                   ''fragment '' @ in_quotes s @ '' does not divide execution tile '' @ tripleText BM BN BK))))"

definition checkTileHierarchyCompatible :: "search_space \<Rightarrow> candidate \<Rightarrow> verdict" where
  "checkTileHierarchyCompatible space c = (case symbolOfKind space c ''fragment_shape'' of
       None \<Rightarrow> Legal
     | Some s \<Rightarrow> (case parseShapeTriple s of
           None \<Rightarrow> illegal TileHierarchyCompatible (not_a_triple s)
         | Some fragment \<Rightarrow>
             if isMasked space c then Legal
             else tile_divided TileHierarchyCompatible c fragment (\<lambda>BM BN BK.
               ''child fragment '' @ in_quotes s @ '' does not divide parent tile '' @ tripleText BM BN BK @
               '' and tail_policy is not '' @ in_quotes ''mask'')))"

definition outstanding_copies :: "candidate \<Rightarrow> nat" where
  "outstanding_copies c = (if pipeline_stages c > 1
     then to_u64 (case cand_integer c ''prefetch_distance'' of Some v \<Rightarrow> v | None \<Rightarrow> 0) else 0)"

definition max_outstanding :: "machine_model \<Rightarrow> nat" where
  "max_outstanding m = (case primaryTransferEngine m of Some t \<Rightarrow> maxOutstanding t | None \<Rightarrow> 1)"

definition checkPipelineLiveTiles :: "search_space \<Rightarrow> candidate \<Rightarrow> binding_facts \<Rightarrow> machine_model \<Rightarrow> verdict" where
  "checkPipelineLiveTiles space c facts m = (case findMemoryOfKind m ''sram'' of
       None \<Rightarrow> illegal PipelineLiveTiles (missing_memory m ''sram'')
     | Some sram \<Rightarrow>
         if outstanding_copies c > max_outstanding m
         then illegal PipelineLiveTiles (nat_to_string (outstanding_copies c) @ '' outstanding async copies exceed machine '' @
           in_quotes (target m) @ '' transfer engine limit '' @ nat_to_string (max_outstanding m))
         else with_tile PipelineLiveTiles c (\<lambda>BM BN BK.
           if applicableShapes facts = [] then illegal PipelineLiveTiles no_shape
           else first_bad (\<lambda>shape. check_staged PipelineLiveTiles '' live bytes'' (to_u64 (pipeline_stages c))
               (capacityBytes sram) (stagedTileBytes space shape BM BN BK)) (applicableShapes facts)))"

section \<open>Constraints\<close>

definition constraint_param :: "search_space \<Rightarrow> string \<Rightarrow> search_param option" where
  "constraint_param space name = (case findParam space name of
       Some p \<Rightarrow> Some p
     | None \<Rightarrow> find (\<lambda>p. param_role p \<noteq> [] \<and> param_role p = name) (params space))"

definition check_reference :: "search_space \<Rightarrow> candidate \<Rightarrow> constraint_kind \<Rightarrow> string \<Rightarrow> verdict" where
  "check_reference space c kind name = (case constraint_param space name of
       None \<Rightarrow> illegal kind (''references '' @ in_quotes name @ '', which the space does not declare as a parameter or role'')
     | Some p \<Rightarrow>
         if cand_integer c (param_name p) = None \<and> cand_symbol c (param_name p) = None
         then illegal kind (unbound (param_name p)) else Legal)"

definition check_kind :: "search_constraint \<Rightarrow> search_space \<Rightarrow> candidate \<Rightarrow> binding_facts \<Rightarrow> machine_model \<Rightarrow> verdict" where
  "check_kind constraint space c facts m = (case con_kind constraint of
       SramCapacity \<Rightarrow> checkSramCapacity space c facts m
     | AccCapacity \<Rightarrow> checkAccCapacity space c facts m
     | MmaCompatible \<Rightarrow> checkMmaCompatible space c facts m
     | MappingExtent \<Rightarrow> checkMappingExtent c m
     | TailSupported \<Rightarrow> checkTailSupported space c facts
     | VectorWidthSupported \<Rightarrow> checkVectorWidthSupported c facts m
     | TileHierarchyCompatible \<Rightarrow> checkTileHierarchyCompatible space c
     | LayoutSupported \<Rightarrow> checkLayoutSupported space c constraint m
     | OwnerSupported \<Rightarrow> checkOwnerSupported space c constraint m
     | FragmentCompatible \<Rightarrow> checkFragmentCompatible space c m
     | PipelineLiveTiles \<Rightarrow> checkPipelineLiveTiles space c facts m)"

definition checkConstraint :: "search_space \<Rightarrow> candidate \<Rightarrow> binding_facts \<Rightarrow> machine_model \<Rightarrow> search_constraint \<Rightarrow> verdict" where
  "checkConstraint space c facts m constraint =
     (case first_bad (check_reference space c (con_kind constraint)) (con_params constraint) of
        Legal \<Rightarrow> check_kind constraint space c facts m
      | v \<Rightarrow> v)"

definition checkLegality :: "search_space \<Rightarrow> candidate \<Rightarrow> binding_facts \<Rightarrow> machine_model \<Rightarrow> verdict" where
  "checkLegality space c facts m = first_bad (checkConstraint space c facts m) (constraints space)"

definition checkLegalityShape :: "search_space \<Rightarrow> candidate \<Rightarrow> workload_shape \<Rightarrow> machine_model \<Rightarrow> verdict" where
  "checkLegalityShape space c shape m = checkLegality space c \<lparr>originalWorkload = Some shape, contractions = [shape]\<rparr> m"

end
