(* ===== verification/LegalityCorrect.thy ===== *)
theory LegalityCorrect
  imports Legality Binary64
begin

text \<open>
  What the legality rules decide. Under bounds on the candidate and on the machine, which loading and
  verification do not give in full, a candidate is legal exactly when every constraint holds in unbounded arithmetic.
  Without them the byte counts wrap and a fragment can be read past its end; when this happens is shown exactly.
\<close>

section \<open>Verdicts\<close>

lemma illegal_neq [simp]: "illegal kind s \<noteq> Legal" "illegal kind s \<noteq> Fault" "Legal \<noteq> illegal kind s"
  by (simp_all add: illegal_def)

lemma verdict_then:
  "(case v of Legal \<Rightarrow> w | Illegal s \<Rightarrow> Illegal s | Fault \<Rightarrow> Fault) = Legal \<longleftrightarrow> v = Legal \<and> w = Legal"
  "(case v of Legal \<Rightarrow> w | Illegal s \<Rightarrow> Illegal s | Fault \<Rightarrow> Fault) = Fault \<longleftrightarrow> v = Fault \<or> (v = Legal \<and> w = Fault)"
  by (cases v; simp)+

lemma first_bad_Legal [simp]: "first_bad f xs = Legal \<longleftrightarrow> (\<forall>x \<in> set xs. f x = Legal)"
  by (induction xs) (auto split: verdict.splits)

lemma first_bad_Fault: "first_bad f xs = Fault \<Longrightarrow> \<exists>x \<in> set xs. f x = Fault"
  by (induction xs) (auto split: verdict.splits)

lemma first_bad_no_fault: "(\<And>x. x \<in> set xs \<Longrightarrow> f x \<noteq> Fault) \<Longrightarrow> first_bad f xs \<noteq> Fault"
  using first_bad_Fault by fastforce

lemma fit_loop_Legal: "(\<And>e. e \<in> set es \<Longrightarrow> f e \<noteq> Fault) \<Longrightarrow> fit_loop f s es = Legal \<longleftrightarrow> (\<exists>e \<in> set es. f e = Legal)"
  by (induction es arbitrary: s) (auto split: verdict.splits)

lemma fit_loop_no_fault: "(\<And>e. e \<in> set es \<Longrightarrow> f e \<noteq> Fault) \<Longrightarrow> fit_loop f s es \<noteq> Fault"
  by (induction es arbitrary: s) (auto split: verdict.splits)

lemma resolve_ints_Inr: "resolve_ints c names = Inr vs \<longleftrightarrow> map (cand_integer c) names = map Some vs"
  by (induction names arbitrary: vs) (auto simp: map_eq_Cons_conv split: option.splits)

lemma resolve_ints_length: "resolve_ints c names = Inr vs \<Longrightarrow> length vs = length names"
  by (metis resolve_ints_Inr length_map)

definition tile_is :: "candidate \<Rightarrow> int \<Rightarrow> int \<Rightarrow> int \<Rightarrow> bool" where
  "tile_is c BM BN BK \<longleftrightarrow> cand_integer c ''BM'' = Some BM \<and> cand_integer c ''BN'' = Some BN \<and> cand_integer c ''BK'' = Some BK"

lemma with_tile_Legal: "with_tile kind c f = Legal \<longleftrightarrow> (\<exists>BM BN BK. tile_is c BM BN BK \<and> f BM BN BK = Legal)"
  by (auto simp: with_tile_def tile_is_def split: option.splits)

lemma with_tile_is: "tile_is c BM BN BK \<Longrightarrow> with_tile kind c f = f BM BN BK"
  by (simp add: with_tile_def tile_is_def)

lemma with_tile_no_fault: "(\<And>BM BN BK. tile_is c BM BN BK \<Longrightarrow> f BM BN BK \<noteq> Fault) \<Longrightarrow> with_tile kind c f \<noteq> Fault"
  by (auto simp: with_tile_def tile_is_def split: option.splits)

lemma all_divide_dvd: "\<forall>(a, b) \<in> set ps. 0 < b \<Longrightarrow> all_divide ps = Some (\<forall>(a, b) \<in> set ps. b dvd a)"
  by (induction ps rule: all_divide.induct) (auto simp: smod_eq_0_iff_dvd)

section \<open>Bounds\<close>

text \<open>The choices of a loaded space are positive 64-bit integers.\<close>

definition positive :: "candidate \<Rightarrow> bool" where
  "positive c \<longleftrightarrow> (\<forall>n v. cand_integer c n = Some v \<longrightarrow> 1 \<le> v \<and> v \<le> int64_max)"

text \<open>A candidate whose integers are positive 64-bit values, with tile extents up to \<open>2 ^ 20\<close> and at most
  \<open>2 ^ 16\<close> pipeline stages: no byte count of a rule wraps. Loading a space does not bound its choices so.\<close>

definition tame :: "candidate \<Rightarrow> bool" where
  "tame c \<longleftrightarrow> (\<forall>n v. cand_integer c n = Some v \<longrightarrow> 1 \<le> v \<and> v \<le> int64_max) \<and>
     (\<forall>n \<in> {''BM'', ''BN'', ''BK''}. \<forall>v. cand_integer c n = Some v \<longrightarrow> v \<le> 1048576) \<and>
     (\<forall>v. cand_integer c ''pipeline_stages'' = Some v \<longrightarrow> v \<le> 65536)"

lemma to_u64_nonneg: "0 \<le> i \<Longrightarrow> i \<le> int64_max \<Longrightarrow> to_u64 i = nat i"
  by (simp add: to_u64_def int64_max_def)

lemma tame_tile: "tame c \<Longrightarrow> tile_is c BM BN BK \<Longrightarrow>
    1 \<le> BM \<and> BM \<le> 1048576 \<and> 1 \<le> BN \<and> BN \<le> 1048576 \<and> 1 \<le> BK \<and> BK \<le> 1048576"
  by (auto simp: tame_def tile_is_def)

lemma tame_stages: "tame c \<Longrightarrow> 1 \<le> pipeline_stages c \<and> pipeline_stages c \<le> 65536"
  by (auto simp: tame_def pipeline_stages_def split: option.splits)

lemma dtypeBytes_bound: "dtypeBytes d = Some b \<Longrightarrow> 1 \<le> b \<and> b \<le> 4"
  by (auto simp: dtypeBytes_def split: option.splits dtype.splits)

text \<open>The staged bytes in unbounded arithmetic.\<close>

definition staged_bytes :: "search_space \<Rightarrow> workload_shape \<Rightarrow> int \<Rightarrow> int \<Rightarrow> int \<Rightarrow> nat option" where
  "staged_bytes space shape BM BN BK = (case (dtypeBytes (inputDType shape), dtypeBytes (weightDType shape)) of
       (Some i, Some w) \<Rightarrow> Some (nat BM * nat BK * i + weightTileCount (space_workload space) * nat BK * nat BN * w)
     | _ \<Rightarrow> None)"

lemma prod_bound: "a \<le> A \<Longrightarrow> b \<le> B \<Longrightarrow> a * b \<le> A * (B :: nat)"
  by (rule mult_le_mono)

lemma staged_bound:
  assumes "tame c" "tile_is c BM BN BK" "staged_bytes space shape BM BN BK = Some b"
  shows "b \<le> 13194139533312"
proof -
  obtain i w where iw: "dtypeBytes (inputDType shape) = Some i" "dtypeBytes (weightDType shape) = Some w"
    "b = nat BM * nat BK * i + weightTileCount (space_workload space) * nat BK * nat BN * w"
    using assms(3) by (auto simp: staged_bytes_def split: option.splits)
  have t: "nat BM \<le> 1048576" "nat BN \<le> 1048576" "nat BK \<le> 1048576" "weightTileCount (space_workload space) \<le> 2"
    using tame_tile [OF assms(1,2)] by (auto simp: weightTileCount_def)
  have "nat BM * nat BK * i \<le> 1048576 * 1048576 * 4"
    using t dtypeBytes_bound [OF iw(1)] by (intro prod_bound) auto
  moreover have "weightTileCount (space_workload space) * nat BK * nat BN * w \<le> 2 * 1048576 * 1048576 * 4"
    using t dtypeBytes_bound [OF iw(2)] by (intro prod_bound) auto
  ultimately show ?thesis using iw(3) by simp
qed

lemma stagedTileBytes_exact:
  assumes "tame c" "tile_is c BM BN BK"
  shows "stagedTileBytes space shape BM BN BK = staged_bytes space shape BM BN BK"
proof (cases "staged_bytes space shape BM BN BK")
  case None
  then show ?thesis by (auto simp: stagedTileBytes_def staged_bytes_def split: option.splits)
next
  case (Some b)
  have b: "b \<le> uint64_max" using staged_bound [OF assms Some] by (simp add: uint64_max_def)
  have u: "to_u64 BM = nat BM" "to_u64 BN = nat BN" "to_u64 BK = nat BK"
    using tame_tile [OF assms] by (auto intro!: to_u64_nonneg simp: int64_max_def)
  show ?thesis using Some b
    by (auto simp: stagedTileBytes_def staged_bytes_def mul64_def wrap64_def u mod_mult_left_eq mod_add_eq uint64_max_def
        mult.assoc mod_mult_right_eq split: option.splits)
qed

lemma factor_exact:
  assumes "tame c" "tile_is c BM BN BK" "staged_bytes space shape BM BN BK = Some b" "f \<le> 65536"
  shows "mul64 f b = f * b"
proof -
  have "f * b \<le> 65536 * 13194139533312" using staged_bound [OF assms(1-3)] assms(4) by (intro prod_bound)
  then show ?thesis by (simp add: mul64_def uint64_max_def)
qed

section \<open>Nesting of owners\<close>

text \<open>The climb stops early only on a visited parent, whose ancestors it has all tried.\<close>

lemma nested_walk_iff:
  assumes "findExecutor m (ex_id current) = Some current"
    and "\<And>v. v \<in> set visited \<Longrightarrow> \<not> ownerMatches m outer v"
    and "\<And>v w. v \<in> set visited \<Longrightarrow> (v, w) \<in> parent_rel m \<Longrightarrow> v = ex_id current \<or> w \<in> set visited"
    and "visited \<noteq> [] \<Longrightarrow> ex_id current \<in> set visited"
  shows "nested_walk m outer visited current \<longleftrightarrow> (\<exists>a. (ex_id current, a) \<in> (parent_rel m)\<^sup>+ \<and> ownerMatches m outer a)"
  using assms
proof (induction m outer visited current rule: nested_walk.induct)
  case (1 m outer visited current)
  let ?i = "ex_id current"
  have up: "(?i, w) \<in> parent_rel m \<longleftrightarrow> ex_parent current = Some w" for w
    using "1.prems"(1) by (auto simp: parent_rel_def)
  show ?case
  proof (cases "\<exists>p parent. ex_parent current = Some p \<and> findExecutor m p = Some parent")
    case False
    have "\<not> ownerMatches m outer a" if "(?i, a) \<in> (parent_rel m)\<^sup>+" for a
    proof -
      from tranclD [OF that] obtain w where w: "(?i, w) \<in> parent_rel m" "(w, a) \<in> (parent_rel m)\<^sup>*" by blast
      then have none: "findExecutor m w = None" using False by (cases "findExecutor m w") (auto simp: up)
      then have "(w, x) \<notin> parent_rel m" for x by (simp add: parent_rel_def)
      then have "a = w" using w(2) by (blast elim: converse_rtranclE)
      with none show ?thesis by (simp add: ownerMatches_def)
    qed
    then show ?thesis using False by (subst nested_walk.simps) (auto split: option.splits)
  next
    case True
    then obtain p parent where p: "ex_parent current = Some p" "findExecutor m p = Some parent" by blast
    then have parent: "ex_id parent = p" "findExecutor m (ex_id parent) = Some parent" using findExecutor_id by auto
    have trancl: "(?i, a) \<in> (parent_rel m)\<^sup>+ \<longleftrightarrow> a = p \<or> (p, a) \<in> (parent_rel m)\<^sup>+" for a
    proof
      assume "(?i, a) \<in> (parent_rel m)\<^sup>+"
      from tranclD [OF this] show "a = p \<or> (p, a) \<in> (parent_rel m)\<^sup>+" using p(1) by (auto simp: up dest: rtranclD)
    next
      have edge: "(?i, p) \<in> parent_rel m" by (simp add: up p(1))
      assume "a = p \<or> (p, a) \<in> (parent_rel m)\<^sup>+"
      then show "(?i, a) \<in> (parent_rel m)\<^sup>+" using edge by (blast intro: trancl_into_trancl2)
    qed
    show ?thesis
    proof (cases "ownerMatches m outer p")
      case True
      then show ?thesis using p parent(1) trancl by (subst nested_walk.simps) auto
    next
      case no_match: False
      show ?thesis
      proof (cases "p \<in> set visited")
        case True
        then have "visited \<noteq> []" by auto
        then have "?i \<in> set visited" by (rule "1.prems"(4))
        have closed: "w \<in> set visited" if "v \<in> set visited" "(v, w) \<in> parent_rel m" for v w
        proof (cases "v = ?i")
          case True
          then have "w = p" using that(2) p(1) by (simp add: up)
          then show ?thesis using \<open>p \<in> set visited\<close> by simp
        qed (use "1.prems"(3) [OF that] in blast)
        have "a \<in> set visited" if "(?i, a) \<in> (parent_rel m)\<^sup>+" for a
          by (rule closed_rtrancl [OF trancl_into_rtrancl [OF that] \<open>?i \<in> set visited\<close>]) (rule closed)
        then have "\<not> (\<exists>a. (?i, a) \<in> (parent_rel m)\<^sup>+ \<and> ownerMatches m outer a)" using "1.prems"(2) by blast
        moreover have "\<not> nested_walk m outer visited current"
          using p parent(1) no_match True by (subst nested_walk.simps) simp
        ultimately show ?thesis by blast
      next
        case False
        have "nested_walk m outer (ex_id parent # visited) parent \<longleftrightarrow>
            (\<exists>a. (ex_id parent, a) \<in> (parent_rel m)\<^sup>+ \<and> ownerMatches m outer a)"
        proof (rule "1.IH" [OF p])
          show "\<not> ownerMatches m outer (ex_id parent)" "ex_id parent \<notin> set visited" using no_match False parent by auto
          show "findExecutor m (ex_id parent) = Some parent" by (rule parent(2))
          show "\<not> ownerMatches m outer v" if "v \<in> set (ex_id parent # visited)" for v
            using that no_match parent(1) "1.prems"(2) by auto
          show "v = ex_id parent \<or> w \<in> set (ex_id parent # visited)"
            if "v \<in> set (ex_id parent # visited)" "(v, w) \<in> parent_rel m" for v w
          proof (cases "v = ex_id parent \<or> v = ?i")
            case True
            then show ?thesis using that(2) p(1) parent(1) by (auto simp: up)
          next
            case False
            then show ?thesis using that "1.prems"(3) [of v w] by simp
          qed
        qed simp
        then show ?thesis using p parent(1) no_match False trancl by (subst nested_walk.simps) auto
      qed
    qed
  qed
qed

lemma nestedUnder_iff:
  assumes "verifyMachineModel m = None"
  shows "nestedUnder m inner outer \<longleftrightarrow> (\<exists>e \<in> set (executors m). \<exists>a. ownerMatches m inner (ex_id e) \<and>
    (ex_id e, a) \<in> (parent_rel m)\<^sup>+ \<and> ownerMatches m outer a)"
  using nested_walk_iff [OF verify_find [OF assms], of _ "[]" outer]
  by (auto simp: nestedUnder_def list_ex_iff)

definition nested_chain :: "machine_model \<Rightarrow> string list \<Rightarrow> bool" where
  "nested_chain m owners \<longleftrightarrow> (\<forall>i. Suc i < length owners \<longrightarrow> (\<exists>e \<in> set (executors m). \<exists>a.
     ownerMatches m (owners ! Suc i) (ex_id e) \<and> (ex_id e, a) \<in> (parent_rel m)\<^sup>+ \<and> ownerMatches m (owners ! i) a))"

lemma all_below_Suc: "(\<forall>i. Suc i < Suc (Suc n) \<longrightarrow> P i) \<longleftrightarrow> P 0 \<and> (\<forall>i. Suc i < Suc n \<longrightarrow> P (Suc i))"
  by (metis Suc_less_eq not0_implies_Suc zero_less_Suc)

lemma check_nesting_Legal:
  "verifyMachineModel m = None \<Longrightarrow> check_nesting m label owners = Legal \<longleftrightarrow> nested_chain m owners"
proof (induction m label owners rule: check_nesting.induct)
  case (1 m label outer inner owners)
  have split: "nested_chain m (outer # inner # owners) \<longleftrightarrow> nestedUnder m inner outer \<and> nested_chain m (inner # owners)"
    unfolding nestedUnder_iff [OF "1.prems"] nested_chain_def
    using all_below_Suc [of "length owners" "\<lambda>i. \<exists>e \<in> set (executors m). \<exists>a.
     ownerMatches m ((outer # inner # owners) ! Suc i) (ex_id e) \<and> (ex_id e, a) \<in> (parent_rel m)\<^sup>+ \<and>
     ownerMatches m ((outer # inner # owners) ! i) a"] by simp
  show ?case using 1 by (auto simp: split)
qed (auto simp: nested_chain_def)

lemma check_nesting_no_fault: "check_nesting m label owners \<noteq> Fault"
  by (induction m label owners rule: check_nesting.induct) auto

lemma level_supports_iff:
  "fst (level_supports m layout saw levels) \<longleftrightarrow>
     (\<exists>level \<in> set levels. level \<noteq> ''dram'' \<and> (\<exists>memory. findMemoryOfKind m level = Some memory \<and> layout \<in> set (mem_supportedLayouts memory)))"
  by (induction m layout saw levels rule: level_supports.induct) (auto split: option.splits)


section \<open>Fragments of a verified machine\<close>

text \<open>Verification leaves the rank and the size of a fragment open. The rules below read three extents and
  multiply all of them in 64 bits; owners are counted in 32 bits.\<close>

definition rank3_fragments :: "machine_model \<Rightarrow> bool" where
  "rank3_fragments m \<longleftrightarrow> (\<forall>e \<in> set (computes m). comp_kind e = ''matrix_engine'' \<longrightarrow> (\<forall>s \<in> set (shapes e). length s = 3))"

definition volumes_fit :: "machine_model \<Rightarrow> bool" where
  "volumes_fit m \<longleftrightarrow> (\<forall>e \<in> set (computes m). comp_kind e = ''matrix_engine'' \<longrightarrow> (\<forall>s \<in> set (shapes e). prod_list s \<le> int64_max))"

definition owners_fit :: "machine_model \<Rightarrow> bool" where
  "owners_fit m \<longleftrightarrow> sum_list (map ex_concurrency (executors m)) < 2 ^ 32"

lemma prod_list_pos: "(\<And>x. x \<in> set xs \<Longrightarrow> 0 < x) \<Longrightarrow> 0 < prod_list (xs :: int list)"
  by (induction xs) auto

lemma volume_exact:
  assumes "\<And>x. x \<in> set s \<Longrightarrow> 0 < x" "prod_list s \<le> int64_max"
  shows "volume s = Some (prod_list s)"
proof -
  have "volume_from p s = Some (p * prod_list s)" if "0 < p" "p * prod_list s \<le> int64_max" for p
    using assms(1) that
  proof (induction s arbitrary: p)
    case (Cons x xs)
    have "1 \<le> prod_list xs" using prod_list_pos [of xs] Cons.prems(1) by (simp add: int_one_le_iff_zero_less)
    moreover have pos: "0 < p * x" using Cons.prems(1,2) by (intro mult_pos_pos) auto
    ultimately have "p * x * 1 \<le> p * x * prod_list xs" by (intro mult_left_mono) auto
    moreover have "p * x * prod_list xs \<le> int64_max" using Cons.prems(3) by (simp add: mult.assoc)
    ultimately have "in_int64 (p * x)" unfolding in_int64_def int64_min_def using pos by linarith
    then show ?case using Cons.prems pos Cons.IH [of "p * x"] by (simp add: mult.assoc)
  qed simp
  from this [of 1] assms(2) show ?thesis by (simp add: volume_def)
qed

text \<open>The fragment is one of those with the largest volume of the first one's rank.\<close>

lemma pick_shape_largest:
  assumes "\<And>s. s \<in> set (best # rest) \<Longrightarrow> volume s = Some (prod_list s)"
  shows "\<exists>s \<in> set (best # rest). pick_shape rest best = Some s \<and> length s = length best \<and>
    (\<forall>t \<in> set (best # rest). length t = length best \<longrightarrow> prod_list t \<le> prod_list s)"
  using assms
proof (induction rest arbitrary: best)
  case (Cons t rest)
  show ?case
  proof (cases "length t = length best \<and> prod_list t > prod_list best")
    case True
    obtain s where "s \<in> set (t # rest)" "pick_shape rest t = Some s" "length s = length t"
        "\<forall>u \<in> set (t # rest). length u = length t \<longrightarrow> prod_list u \<le> prod_list s"
      using Cons.IH [of t] Cons.prems by auto
    then show ?thesis using True Cons.prems by (intro bexI [of _ s]) auto
  next
    case False
    obtain s where "s \<in> set (best # rest)" "pick_shape rest best = Some s" "length s = length best"
        "\<forall>u \<in> set (best # rest). length u = length best \<longrightarrow> prod_list u \<le> prod_list s"
      using Cons.IH [of best] Cons.prems by auto
    then show ?thesis using False Cons.prems by (intro bexI [of _ s]) auto
  qed
qed auto

lemma largest_shape:
  assumes "verifyMachineModel m = None" "volumes_fit m" "e \<in> set (computes m)" "comp_kind e = ''matrix_engine''"
  obtains s where "largestTileShape e = Some s" "s \<in> set (shapes e)" "\<forall>x \<in> set s. 0 < x"
    "\<forall>t \<in> set (shapes e). length t = length s \<longrightarrow> prod_list t \<le> prod_list s"
proof -
  have check: "check_compute m e = None" using verify_sections(4) [OF assms(1,3)] .
  then have "shapes e \<noteq> []" by (simp add: check_compute_def)
  then obtain front rest where shapes: "shapes e = front # rest" by (cases "shapes e") auto
  have pos: "\<forall>x \<in> set s. 0 < x" if "s \<in> set (shapes e)" for s
    using check that by (fastforce simp: check_compute_def check_shape_def)
  then have "volume s = Some (prod_list s)" if "s \<in> set (front # front # rest)" for s
    using assms(2-4) that shapes by (intro volume_exact) (auto simp: volumes_fit_def)
  from pick_shape_largest [of front "front # rest", OF this] obtain s where s:
    "s \<in> set (front # front # rest)" "pick_shape (front # rest) front = Some s" "length s = length front"
    "\<forall>t \<in> set (front # front # rest). length t = length front \<longrightarrow> prod_list t \<le> prod_list s" by blast
  have mem: "s \<in> set (shapes e)" using s(1) by (simp add: shapes)
  show thesis
  proof (rule that [OF _ mem pos [OF mem]])
    show "largestTileShape e = Some s" unfolding largestTileShape_def shapes list.case by (rule s(2))
    show "\<forall>t \<in> set (shapes e). length t = length s \<longrightarrow> prod_list t \<le> prod_list s" using s(3,4) by (simp add: shapes)
  qed
qed

lemma largest_fragment:
  assumes "verifyMachineModel m = None" "rank3_fragments m" "volumes_fit m" "e \<in> set (computes m)" "comp_kind e = ''matrix_engine''"
  obtains f0 f1 f2 where "largestTileShape e = Some [f0, f1, f2]" "0 < f0" "0 < f1" "0 < f2"
proof -
  obtain s where s: "largestTileShape e = Some s" "s \<in> set (shapes e)" "\<forall>x \<in> set s. 0 < x"
    by (rule largest_shape [OF assms(1,3,4,5)])
  then have "length s = 3" using assms(2,4,5) by (auto simp: rank3_fragments_def)
  with s that show thesis by (auto simp: length_Suc_conv numeral_3_eq_3)
qed

section \<open>The constraints in unbounded arithmetic\<close>

text \<open>The multiples of a tile that a matrix or vector engine issues.\<close>

definition issues_tile :: "compute_node \<Rightarrow> workload_shape \<Rightarrow> int \<Rightarrow> int \<Rightarrow> int \<Rightarrow> bool" where
  "issues_tile e shape BM BN BK \<longleftrightarrow>
     (if comp_kind e = ''matrix_engine''
      then \<exists>f0 f1 f2. largestTileShape e = Some [f0, f1, f2] \<and> f0 dvd BM \<and> f1 dvd BN \<and> f2 dvd BK
      else \<exists>n > 0. map_of (lanes e) (accumulatorDType shape) = Some n \<and> n dvd BN)"

definition divided_by :: "candidate \<Rightarrow> int \<Rightarrow> int \<Rightarrow> int \<Rightarrow> bool" where
  "divided_by c f0 f1 f2 \<longleftrightarrow> (\<exists>BM BN BK. tile_is c BM BN BK \<and> f0 dvd BM \<and> f1 dvd BN \<and> f2 dvd BK)"

definition sram_holds :: "search_space \<Rightarrow> candidate \<Rightarrow> binding_facts \<Rightarrow> machine_model \<Rightarrow> nat \<Rightarrow> bool" where
  "sram_holds space c facts m copies \<longleftrightarrow> (\<exists>sram BM BN BK. findMemoryOfKind m ''sram'' = Some sram \<and> tile_is c BM BN BK \<and>
     applicableShapes facts \<noteq> [] \<and>
     (\<forall>shape \<in> set (applicableShapes facts). \<exists>b. staged_bytes space shape BM BN BK = Some b \<and>
        copies * b \<le> sram_limit (capacityBytes sram)))"

definition acc_holds :: "search_space \<Rightarrow> candidate \<Rightarrow> binding_facts \<Rightarrow> machine_model \<Rightarrow> bool" where
  "acc_holds space c facts m \<longleftrightarrow> (\<exists>acc BM BN. findMemoryOfKind m ''acc'' = Some acc \<and>
     cand_integer c ''BM'' = Some BM \<and> cand_integer c ''BN'' = Some BN \<and> applicableShapes facts \<noteq> [] \<and>
     (\<forall>shape \<in> set (applicableShapes facts). \<exists>b. dtypeBytes (accumulatorDType shape) = Some b \<and>
        accumulatorCount (space_workload space) * nat BM * nat BN * b \<le> capacityBytes acc))"

definition mma_runs :: "search_space \<Rightarrow> candidate \<Rightarrow> binding_facts \<Rightarrow> machine_model \<Rightarrow> bool" where
  "mma_runs space c facts m \<longleftrightarrow> applicableShapes facts \<noteq> [] \<and>
     (if isMasked space c
      then \<forall>shape \<in> set (applicableShapes facts). \<exists>e \<in> set (computes m).
        supportsContractionTypes e (inputDType shape) (accumulatorDType shape)
      else \<exists>BM BN BK. tile_is c BM BN BK \<and> (\<forall>shape \<in> set (applicableShapes facts). \<exists>e \<in> set (computes m).
        supportsContractionTypes e (inputDType shape) (accumulatorDType shape) \<and> issues_tile e shape BM BN BK))"

definition tail_covered :: "search_space \<Rightarrow> candidate \<Rightarrow> binding_facts \<Rightarrow> bool" where
  "tail_covered space c facts \<longleftrightarrow>
     symbolOfKind space c ''tail_policy'' \<in> {Some ''pad'', Some ''bounded''} \<or>
     (symbolOfKind space c ''tail_policy'' \<in> {None, Some ''none''} \<and>
      (\<exists>w BM BN BK. originalWorkload facts = Some w \<and> tile_is c BM BN BK \<and> BM dvd ws_M w \<and> BN dvd ws_N w \<and> BK dvd ws_K w))"

definition width_available :: "candidate \<Rightarrow> binding_facts \<Rightarrow> machine_model \<Rightarrow> bool" where
  "width_available c facts m \<longleftrightarrow> (\<exists>width shape. cand_integer c ''vector_width'' = Some width \<and> 1 \<le> width \<and>
     dtypeShape facts = Some shape \<and> (\<exists>e \<in> set (computes m). comp_kind e = ''vector_engine'' \<and>
       (\<exists>n \<ge> width. map_of (lanes e) (inputDType shape) = Some n)))"

definition layout_held :: "search_space \<Rightarrow> candidate \<Rightarrow> machine_model \<Rightarrow> string \<Rightarrow> bool" where
  "layout_held space c m layout \<longleftrightarrow> (\<exists>level \<in> set (memory_path space c). level \<noteq> ''dram'' \<and>
     (\<exists>memory. findMemoryOfKind m level = Some memory \<and> layout \<in> set (mem_supportedLayouts memory)))"

definition fragment_issued :: "machine_model \<Rightarrow> int \<Rightarrow> int \<Rightarrow> int \<Rightarrow> bool" where
  "fragment_issued m f0 f1 f2 \<longleftrightarrow> (\<exists>e \<in> set (computes m). comp_kind e = ''matrix_engine'' \<and>
     (\<exists>s0 s1 s2. largestTileShape e = Some [s0, s1, s2] \<and> s0 \<le> f0 \<and> s1 \<le> f1 \<and> s2 \<le> f2))"

definition fragment_fits :: "search_space \<Rightarrow> candidate \<Rightarrow> (int \<Rightarrow> int \<Rightarrow> int \<Rightarrow> bool) \<Rightarrow> bool" where
  "fragment_fits space c P \<longleftrightarrow> (case symbolOfKind space c ''fragment_shape'' of
       None \<Rightarrow> True
     | Some s \<Rightarrow> \<exists>f0 f1 f2. parseShapeTriple s = Some (f0, f1, f2) \<and> P f0 f1 f2 \<and> (isMasked space c \<or> divided_by c f0 f1 f2))"

definition constraint_holds :: "search_space \<Rightarrow> candidate \<Rightarrow> binding_facts \<Rightarrow> machine_model \<Rightarrow> search_constraint \<Rightarrow> bool" where
  "constraint_holds space c facts m constraint = (case con_kind constraint of
       SramCapacity \<Rightarrow> sram_holds space c facts m (if pipeline_stages c > 1 then 2 else 1)
     | AccCapacity \<Rightarrow> acc_holds space c facts m
     | MmaCompatible \<Rightarrow> mma_runs space c facts m
     | MappingExtent \<Rightarrow> (\<exists>threads. cand_integer c ''num_threads'' = Some threads \<and> 1 \<le> threads \<and> threads \<le> int (workerThreads m))
     | TailSupported \<Rightarrow> tail_covered space c facts
     | VectorWidthSupported \<Rightarrow> width_available c facts m
     | TileHierarchyCompatible \<Rightarrow> fragment_fits space c (\<lambda>_ _ _. True)
     | LayoutSupported \<Rightarrow> (\<exists>ps. resolveReferencedParams space constraint ''layout'' = Inr ps \<and>
         (\<forall>p \<in> set ps. \<exists>layout. cand_symbol c (param_name p) = Some layout \<and> layout_held space c m layout))
     | OwnerSupported \<Rightarrow> (\<exists>ps. resolveReferencedParams space constraint ''owner_mapping'' = Inr ps \<and>
         (\<forall>p \<in> set ps. \<exists>mapping. cand_symbol c (param_name p) = Some mapping \<and>
            (\<forall>owner \<in> set (split_on CHR ''/'' mapping). named_executors m owner \<noteq> []) \<and> nested_chain m (split_on CHR ''/'' mapping)))
     | FragmentCompatible \<Rightarrow> fragment_fits space c (fragment_issued m)
     | PipelineLiveTiles \<Rightarrow> outstanding_copies c \<le> max_outstanding m \<and> sram_holds space c facts m (nat (pipeline_stages c)))"


section \<open>Each rule decides its constraint\<close>

text \<open>The hypotheses the rules share.\<close>

definition checkable :: "candidate \<Rightarrow> machine_model \<Rightarrow> bool" where
  "checkable c m \<longleftrightarrow> tame c \<and> verifyMachineModel m = None \<and> rank3_fragments m \<and> volumes_fit m \<and> owners_fit m"


lemma check_staged_Legal:
  assumes "tame c" "tile_is c BM BN BK" "copies \<le> 65536"
  shows "check_staged kind what copies capacity (stagedTileBytes space shape BM BN BK) = Legal \<longleftrightarrow>
    (\<exists>b. staged_bytes space shape BM BN BK = Some b \<and> copies * b \<le> sram_limit capacity)"
  using factor_exact [OF assms(1,2), of space shape _ copies] assms(3)
  by (auto simp: check_staged_def stagedTileBytes_exact [OF assms(1,2)] Let_def not_less split: option.splits)

lemma check_staged_no_fault: "check_staged kind what copies capacity staged \<noteq> Fault"
  by (auto simp: check_staged_def Let_def split: option.splits)

text \<open>The loop over the shapes that both rules on the local memory run.\<close>

lemma staged_loop:
  assumes "tame c" "copies \<le> 65536"
  shows "with_tile kind c (\<lambda>BM BN BK. if applicableShapes facts = [] then illegal kind no_shape
      else first_bad (\<lambda>shape. check_staged kind what copies capacity (stagedTileBytes space shape BM BN BK)) (applicableShapes facts)) = Legal
    \<longleftrightarrow> (\<exists>BM BN BK. tile_is c BM BN BK \<and> applicableShapes facts \<noteq> [] \<and>
      (\<forall>shape \<in> set (applicableShapes facts). \<exists>b. staged_bytes space shape BM BN BK = Some b \<and> copies * b \<le> sram_limit capacity))"
  unfolding with_tile_Legal
  by (intro ex_cong1 conj_cong) (simp_all add: check_staged_Legal [OF assms(1) _ assms(2)])

lemma staged_loop_no_fault:
  "with_tile kind c (\<lambda>BM BN BK. if applicableShapes facts = [] then illegal kind no_shape
      else first_bad (\<lambda>shape. check_staged kind what copies capacity (stagedTileBytes space shape BM BN BK)) (applicableShapes facts)) \<noteq> Fault"
  by (intro with_tile_no_fault) (simp add: first_bad_no_fault check_staged_no_fault)

lemma sram_holds_memory:
  "sram_holds space c facts m copies \<longleftrightarrow> (case findMemoryOfKind m ''sram'' of None \<Rightarrow> False
     | Some sram \<Rightarrow> \<exists>BM BN BK. tile_is c BM BN BK \<and> applicableShapes facts \<noteq> [] \<and>
         (\<forall>shape \<in> set (applicableShapes facts). \<exists>b. staged_bytes space shape BM BN BK = Some b \<and>
            copies * b \<le> sram_limit (capacityBytes sram)))"
  by (simp add: sram_holds_def split: option.splits)

lemma sram_rule:
  assumes "tame c"
  shows "checkSramCapacity space c facts m = Legal \<longleftrightarrow> sram_holds space c facts m (if pipeline_stages c > 1 then 2 else 1)"
proof -
  have copies: "(if pipeline_stages c > 1 then 2 else 1) \<le> (65536 :: nat)" by simp
  show ?thesis
    unfolding checkSramCapacity_def sram_holds_memory
    by (cases "findMemoryOfKind m ''sram''") (simp, simp only: option.case staged_loop [OF assms copies])
qed

lemma sram_no_fault: "checkSramCapacity space c facts m \<noteq> Fault"
  unfolding checkSramCapacity_def
  by (cases "findMemoryOfKind m ''sram''") (simp, simp only: option.case staged_loop_no_fault not_False_eq_True)

lemma pipeline_rule:
  assumes "tame c"
  shows "checkPipelineLiveTiles space c facts m = Legal \<longleftrightarrow>
      outstanding_copies c \<le> max_outstanding m \<and> sram_holds space c facts m (nat (pipeline_stages c))"
proof -
  have stages: "to_u64 (pipeline_stages c) = nat (pipeline_stages c)" "nat (pipeline_stages c) \<le> 65536"
    using tame_stages [OF assms] by (auto intro!: to_u64_nonneg simp: int64_max_def)
  show ?thesis
    unfolding checkPipelineLiveTiles_def sram_holds_memory stages(1)
    by (cases "findMemoryOfKind m ''sram''"; cases "max_outstanding m < outstanding_copies c")
      (simp_all only: option.case staged_loop [OF assms stages(2)] if_True if_False illegal_neq, simp_all add: not_less)
qed

lemma pipeline_no_fault: "checkPipelineLiveTiles space c facts m \<noteq> Fault"
  unfolding checkPipelineLiveTiles_def
  by (cases "findMemoryOfKind m ''sram''"; cases "max_outstanding m < outstanding_copies c")
    (simp_all only: option.case staged_loop_no_fault if_True if_False illegal_neq not_False_eq_True)

lemma acc_rule:
  assumes "tame c"
  shows "checkAccCapacity space c facts m = Legal \<longleftrightarrow> acc_holds space c facts m"
proof -
  have exact: "check_accumulators space BM BN capacity shape = Legal \<longleftrightarrow>
      (\<exists>b. dtypeBytes (accumulatorDType shape) = Some b \<and> accumulatorCount (space_workload space) * nat BM * nat BN * b \<le> capacity)"
    if "cand_integer c ''BM'' = Some BM" "cand_integer c ''BN'' = Some BN" for BM BN capacity shape
  proof (cases "dtypeBytes (accumulatorDType shape)")
    case (Some b)
    have t: "1 \<le> BM" "BM \<le> 1048576" "1 \<le> BN" "BN \<le> 1048576" using assms that by (auto simp: tame_def)
    then have u: "to_u64 BM = nat BM" "to_u64 BN = nat BN" by (auto intro!: to_u64_nonneg simp: int64_max_def)
    have "accumulatorCount (space_workload space) * nat BM * nat BN * b \<le> 2 * 1048576 * 1048576 * 4"
      using t dtypeBytes_bound [OF Some] by (intro prod_bound) (auto simp: accumulatorCount_def)
    then have "mul64 (mul64 (mul64 (accumulatorCount (space_workload space)) (to_u64 BM)) (to_u64 BN)) b =
        accumulatorCount (space_workload space) * nat BM * nat BN * b"
      by (simp add: mul64_def wrap64_def u mod_mult_left_eq)
    then show ?thesis using Some by (auto simp: check_accumulators_def Let_def not_less)
  qed (simp add: check_accumulators_def)
  show ?thesis
    using exact by (auto simp: checkAccCapacity_def acc_holds_def split: option.splits)
qed

lemma acc_no_fault: "checkAccCapacity space c facts m \<noteq> Fault"
proof -
  have "length vs = length names" if "resolve_ints c names = Inr vs" for vs names
    using that by (rule resolve_ints_length)
  then show ?thesis
    by (auto simp: checkAccCapacity_def check_accumulators_def Let_def intro!: first_bad_no_fault split: option.splits if_splits)
qed


lemma tile_fits_rule:
  assumes "verifyMachineModel m = None" "rank3_fragments m" "volumes_fit m" "e \<in> set (computes m)"
  shows "contractionTileFits e shape BM BN BK = Legal \<longleftrightarrow> issues_tile e shape BM BN BK"
proof (cases "comp_kind e = ''matrix_engine''")
  case True
  obtain f0 f1 f2 where f: "largestTileShape e = Some [f0, f1, f2]" "0 < f0" "0 < f1" "0 < f2"
    by (rule largest_fragment [OF assms True])
  then have "shapes e \<noteq> []" by (auto simp: largestTileShape_def)
  then show ?thesis using f True all_divide_dvd [of "[(BM, f0), (BN, f1), (BK, f2)]"]
    by (auto simp: contractionTileFits_def issues_tile_def split: if_splits)
next
  case False
  then show ?thesis
    by (auto simp: contractionTileFits_def issues_tile_def smod_eq_0_iff_dvd not_le split: option.splits)
qed

text \<open>A fragment of another rank is reported here, so the rule does not fault.\<close>

lemma tile_fits_no_fault:
  assumes "verifyMachineModel m = None" "volumes_fit m" "e \<in> set (computes m)"
  shows "contractionTileFits e shape BM BN BK \<noteq> Fault"
proof (cases "comp_kind e = ''matrix_engine''")
  case True
  obtain s where s: "largestTileShape e = Some s" "\<forall>x \<in> set s. 0 < x"
    by (rule largest_shape [OF assms True])
  have "all_divide [(BM, f0), (BN, f1), (BK, f2)] \<noteq> None" if "s = [f0, f1, f2]" for f0 f1 f2
    using s(2) that all_divide_dvd [of "[(BM, f0), (BN, f1), (BK, f2)]"] by simp
  then show ?thesis using s(1) True
    by (auto simp: contractionTileFits_def split: list.splits option.splits bool.splits simp del: all_divide.simps)
qed (auto simp: contractionTileFits_def split: option.splits)

lemma compatible_engines_iff:
  "e \<in> set (compatible_engines m shape) \<longleftrightarrow>
     e \<in> set (computes m) \<and> supportsContractionTypes e (inputDType shape) (accumulatorDType shape)"
  by (auto simp: compatible_engines_def contraction_engines_def supportsContractionTypes_def)

lemma compatible_nonempty: "compatible_engines m shape \<noteq> [] \<Longrightarrow> contraction_engines m \<noteq> []"
  by (auto simp: compatible_engines_def)

lemma mmaUnsupported_neq [simp]: "mmaUnsupported es shape \<noteq> Legal" "mmaUnsupported es shape \<noteq> Fault"
  by (auto simp: mmaUnsupported_def split: option.splits)

text \<open>One shape of the contraction rule.\<close>

definition some_engine :: "machine_model \<Rightarrow> (compute_node \<Rightarrow> bool) \<Rightarrow> workload_shape \<Rightarrow> bool" where
  "some_engine m P shape \<longleftrightarrow>
     (\<exists>e \<in> set (computes m). supportsContractionTypes e (inputDType shape) (accumulatorDType shape) \<and> P e)"

lemma some_engine_compatible: "some_engine m P shape \<longleftrightarrow> (\<exists>e \<in> set (compatible_engines m shape). P e)"
  by (auto simp: some_engine_def compatible_engines_iff)

lemma compatible_iff_some: "compatible_engines m shape \<noteq> [] \<longleftrightarrow> some_engine m (\<lambda>_. True) shape"
  by (cases "compatible_engines m shape") (auto simp: some_engine_compatible)

lemma mma_shape_no_fault:
  assumes "verifyMachineModel m = None" "volumes_fit m"
  shows "check_contraction m BM BN BK shape \<noteq> Fault"
proof -
  have "fit_loop (\<lambda>e. contractionTileFits e shape BM BN BK) [] (compatible_engines m shape) \<noteq> Fault"
    by (rule fit_loop_no_fault) (rule tile_fits_no_fault [OF assms], simp add: compatible_engines_iff)
  then show ?thesis by (simp add: check_contraction_def)
qed

lemma mma_no_fault:
  assumes "verifyMachineModel m = None" "volumes_fit m"
  shows "checkMmaCompatible space c facts m \<noteq> Fault"
  unfolding checkMmaCompatible_def using mma_shape_no_fault [OF assms]
  by (auto intro!: with_tile_no_fault first_bad_no_fault dest!: first_bad_Fault split: if_splits)

lemma mma_shape_rule:
  assumes "checkable c m"
  shows "check_contraction m BM BN BK shape = Legal \<longleftrightarrow> some_engine m (\<lambda>e. issues_tile e shape BM BN BK) shape"
proof -
  have m: "verifyMachineModel m = None" "rank3_fragments m" "volumes_fit m" using assms by (auto simp: checkable_def)
  have "fit_loop (\<lambda>e. contractionTileFits e shape BM BN BK) [] (compatible_engines m shape) = Legal \<longleftrightarrow>
      (\<exists>e \<in> set (compatible_engines m shape). contractionTileFits e shape BM BN BK = Legal)"
    by (rule fit_loop_Legal) (rule tile_fits_no_fault [OF m(1,3)], simp add: compatible_engines_iff)
  then show ?thesis
    using tile_fits_rule [OF m] by (auto simp: check_contraction_def some_engine_compatible compatible_engines_iff)
qed

lemma mma_runs_some:
  "mma_runs space c facts m \<longleftrightarrow> applicableShapes facts \<noteq> [] \<and>
     (if isMasked space c then \<forall>shape \<in> set (applicableShapes facts). some_engine m (\<lambda>_. True) shape
      else \<exists>BM BN BK. tile_is c BM BN BK \<and>
        (\<forall>shape \<in> set (applicableShapes facts). some_engine m (\<lambda>e. issues_tile e shape BM BN BK) shape))"
  by (simp add: mma_runs_def some_engine_def)

lemma mma_rule:
  assumes "checkable c m"
  shows "checkMmaCompatible space c facts m = Legal \<longleftrightarrow> mma_runs space c facts m"
proof -
  have tile: "1 \<le> BM \<and> 1 \<le> BN \<and> 1 \<le> BK" if "tile_is c BM BN BK" for BM BN BK
    using tame_tile [OF _ that] assms by (auto simp: checkable_def)
  have loop: "with_tile MmaCompatible c (\<lambda>BM BN BK.
        if BM \<le> 0 \<or> BN \<le> 0 \<or> BK \<le> 0
        then illegal MmaCompatible (''tile '' @ tripleText BM BN BK @ '' has a non-positive extent'')
        else first_bad (check_contraction m BM BN BK) (applicableShapes facts)) = Legal \<longleftrightarrow>
      (\<exists>BM BN BK. tile_is c BM BN BK \<and>
        (\<forall>shape \<in> set (applicableShapes facts). some_engine m (\<lambda>e. issues_tile e shape BM BN BK) shape))"
    unfolding with_tile_Legal using tile by (intro ex_cong1 conj_cong) (fastforce simp: mma_shape_rule [OF assms])+
  have none: "\<not> mma_runs space c facts m" if "contraction_engines m = []"
  proof -
    have "\<not> some_engine m P shape" for P shape using that by (simp add: some_engine_compatible compatible_engines_def)
    then show ?thesis by (auto simp: mma_runs_some neq_Nil_conv)
  qed
  show "checkMmaCompatible space c facts m = Legal \<longleftrightarrow> mma_runs space c facts m"
  proof (cases "contraction_engines m = [] \<or> applicableShapes facts = []")
    case True
    then show ?thesis using none by (auto simp: checkMmaCompatible_def mma_runs_def)
  next
    case False
    show ?thesis
    proof (cases "isMasked space c")
      case True
      have "(if compatible_engines m shape = [] then mmaUnsupported (contraction_engines m) shape else Legal) = Legal \<longleftrightarrow>
          some_engine m (\<lambda>_. True) shape" for shape
        using compatible_iff_some [of m shape] by auto
      then show ?thesis using False True by (simp add: checkMmaCompatible_def mma_runs_some)
    next
      case unmasked: False
      have "checkMmaCompatible space c facts m = with_tile MmaCompatible c (\<lambda>BM BN BK.
        if BM \<le> 0 \<or> BN \<le> 0 \<or> BK \<le> 0
        then illegal MmaCompatible (''tile '' @ tripleText BM BN BK @ '' has a non-positive extent'')
        else first_bad (check_contraction m BM BN BK) (applicableShapes facts))"
        using False unmasked by (simp only: checkMmaCompatible_def if_False de_Morgan_disj)
      then show ?thesis using False unmasked by (simp only: loop mma_runs_some if_False de_Morgan_disj simp_thms)
    qed
  qed
qed


lemma extent_rule:
  assumes "tame c"
  shows "checkMappingExtent c m = Legal \<longleftrightarrow>
      (\<exists>threads. cand_integer c ''num_threads'' = Some threads \<and> 1 \<le> threads \<and> threads \<le> int (workerThreads m))"
proof -
  have "to_u64 t = nat t" if "cand_integer c ''num_threads'' = Some t" for t
    using assms that by (intro to_u64_nonneg) (fastforce simp: tame_def)+
  then show "checkMappingExtent c m = Legal \<longleftrightarrow>
      (\<exists>threads. cand_integer c ''num_threads'' = Some threads \<and> 1 \<le> threads \<and> threads \<le> int (workerThreads m))"
    by (auto simp: checkMappingExtent_def nat_le_iff not_less split: option.splits)
qed

lemma extent_no_fault: "checkMappingExtent c m \<noteq> Fault"
  by (auto simp: checkMappingExtent_def split: option.splits)

lemma divide_verdict_rule:
  assumes "\<forall>(a, b) \<in> set ps. 0 < b"
  shows "divide_verdict kind ps s = Legal \<longleftrightarrow> (\<forall>(a, b) \<in> set ps. b dvd a)" "divide_verdict kind ps s \<noteq> Fault"
  unfolding divide_verdict_def all_divide_dvd [OF assms] by simp_all

lemma tail_rule:
  assumes "positive c"
  shows "checkTailSupported space c facts = Legal \<longleftrightarrow> tail_covered space c facts"
    and "checkTailSupported space c facts \<noteq> Fault"
proof -
  have pos: "\<forall>(a, b) \<in> set [(M, BM), (N, BN), (K, BK)]. 0 < b" if "tile_is c BM BN BK" for BM BN BK M N K
    using assms that by (auto simp: positive_def tile_is_def int_one_le_iff_zero_less)
  note rule = divide_verdict_rule [OF pos, where kind = TailSupported]
  have loop: "check_divisible c facts = Legal \<longleftrightarrow> (\<exists>w BM BN BK. originalWorkload facts = Some w \<and> tile_is c BM BN BK \<and>
      BM dvd ws_M w \<and> BN dvd ws_N w \<and> BK dvd ws_K w)"
  proof (cases "originalWorkload facts")
    case (Some w)
    then have "check_divisible c facts = Legal \<longleftrightarrow>
        (\<exists>BM BN BK. tile_is c BM BN BK \<and> BM dvd ws_M w \<and> BN dvd ws_N w \<and> BK dvd ws_K w)"
      unfolding check_divisible_def Some option.case with_tile_Legal by (intro ex_cong1 conj_cong) (simp_all add: rule(1))
    then show ?thesis using Some by simp
  qed (simp add: check_divisible_def)
  have fault: "check_divisible c facts \<noteq> Fault"
    by (auto simp: check_divisible_def rule(2) intro!: with_tile_no_fault split: option.splits)
  show "checkTailSupported space c facts = Legal \<longleftrightarrow> tail_covered space c facts"
    unfolding checkTailSupported_def tail_covered_def loop [symmetric] by (auto split: option.splits)
  show "checkTailSupported space c facts \<noteq> Fault"
    using fault by (auto simp: checkTailSupported_def split: option.splits)
qed

text \<open>The width rule compares with the largest lane count.\<close>

definition width_of :: "(compute_node \<times> int) option \<Rightarrow> int" where
  "width_of best = (case best of Some (_, n) \<Rightarrow> n | None \<Rightarrow> 0)"

lemma width_of_None [simp]: "width_of None = 0"
  by (simp add: width_of_def)

lemma width_of_widest:
  "k \<le> width_of (widest dtype e best) \<longleftrightarrow> k \<le> width_of best \<or> (\<exists>n. map_of (lanes e) dtype = Some n \<and> k \<le> n)"
proof (cases "map_of (lanes e) dtype")
  case (Some n)
  have "widest dtype e best = (if n > width_of best then Some (e, n) else best)" by (simp add: widest_def Some width_of_def)
  then show ?thesis using Some by (auto simp: width_of_def)
qed (simp add: widest_def)

lemma width_of_fold:
  "k \<le> width_of (fold (widest dtype) es best) \<longleftrightarrow>
     k \<le> width_of best \<or> (\<exists>e \<in> set es. \<exists>n. map_of (lanes e) dtype = Some n \<and> k \<le> n)"
  by (induction es arbitrary: best) (auto simp: width_of_widest)

lemma width_rule:
  shows "checkVectorWidthSupported c facts m = Legal \<longleftrightarrow> width_available c facts m"
    and "checkVectorWidthSupported c facts m \<noteq> Fault"
proof -
  show "checkVectorWidthSupported c facts m = Legal \<longleftrightarrow> width_available c facts m"
  proof (cases "\<exists>width shape. cand_integer c ''vector_width'' = Some width \<and> 1 \<le> width \<and> dtypeShape facts = Some shape")
    case True
    then obtain width shape where w: "cand_integer c ''vector_width'' = Some width" "1 \<le> width" "dtypeShape facts = Some shape" by blast
    let ?best = "fold (widest (inputDType shape)) (computesOfKind m ''vector_engine'') None"
    have "checkVectorWidthSupported c facts m = Legal \<longleftrightarrow> width \<le> width_of ?best"
      using w by (auto simp: checkVectorWidthSupported_def width_of_def split: option.splits)
    also have "\<dots> \<longleftrightarrow> width_available c facts m"
      using w by (auto simp: width_of_fold width_available_def computesOfKind_def)
    finally show ?thesis .
  next
    case False
    then show ?thesis by (auto simp: checkVectorWidthSupported_def width_available_def not_less split: option.splits if_splits)
  qed
  show "checkVectorWidthSupported c facts m \<noteq> Fault"
    by (auto simp: checkVectorWidthSupported_def split: option.splits)
qed


lemma layout_rule:
  shows "checkLayoutSupported space c constraint m = Legal \<longleftrightarrow>
      (\<exists>ps. resolveReferencedParams space constraint ''layout'' = Inr ps \<and>
        (\<forall>p \<in> set ps. \<exists>layout. cand_symbol c (param_name p) = Some layout \<and> layout_held space c m layout))"
    and "checkLayoutSupported space c constraint m \<noteq> Fault"
proof -
  have one: "check_layout_param space c m ps p = Legal \<longleftrightarrow>
      (\<exists>layout. cand_symbol c (param_name p) = Some layout \<and> layout_held space c m layout)" for ps p
    using level_supports_iff [of m _ False "memory_path space c"]
    by (auto simp: check_layout_param_def layout_held_def split_beta split: option.splits)
  have fault: "check_layout_param space c m ps p \<noteq> Fault" for ps p
    by (auto simp: check_layout_param_def split_beta split: option.splits)
  show "checkLayoutSupported space c constraint m = Legal \<longleftrightarrow>
      (\<exists>ps. resolveReferencedParams space constraint ''layout'' = Inr ps \<and>
        (\<forall>p \<in> set ps. \<exists>layout. cand_symbol c (param_name p) = Some layout \<and> layout_held space c m layout))"
    by (auto simp: checkLayoutSupported_def one split: sum.splits)
  show "checkLayoutSupported space c constraint m \<noteq> Fault"
    by (auto simp: checkLayoutSupported_def fault first_bad_no_fault split: sum.splits)
qed

lemma split_on_nonempty [simp]: "split_on sep s \<noteq> []"
  by (induction sep s rule: split_on.induct) (auto split: list.splits)

text \<open>The count of an owner does not wrap, so an owner is present when some executor names it.\<close>

lemma hasOwnerKind_exact:
  assumes "verifyMachineModel m = None" "owners_fit m"
  shows "hasOwnerKind m k \<longleftrightarrow> named_executors m k \<noteq> []"
proof -
  have "sum_list (map f (filter P xs)) \<le> sum_list (map f xs)" for f :: "executor_node \<Rightarrow> nat" and P xs
    by (induction xs) auto
  then have "sum_list (map ex_concurrency (named_executors m k)) < 2 ^ 32"
    using assms(2) unfolding owners_fit_def named_executors_def by (rule le_less_trans)
  with machine_owner_count [OF assms(1), of k] show ?thesis by blast
qed

lemma owner_no_fault: "checkOwnerSupported space c constraint m \<noteq> Fault"
proof -
  have hosts: "first_bad (\<lambda>owner. if hasOwnerKind m owner then Legal else illegal OwnerSupported (s owner)) owners \<noteq> Fault"
    for s :: "string \<Rightarrow> string" and owners by (rule first_bad_no_fault) simp
  have "check_owner c m ps p \<noteq> Fault" for ps p
    using hosts by (auto simp: check_owner_def Let_def verdict_then check_nesting_no_fault split: option.splits)
  then show ?thesis by (auto simp: checkOwnerSupported_def first_bad_no_fault split: sum.splits)
qed

lemma owner_rule:
  assumes "verifyMachineModel m = None" "owners_fit m"
  shows "checkOwnerSupported space c constraint m = Legal \<longleftrightarrow>
      (\<exists>ps. resolveReferencedParams space constraint ''owner_mapping'' = Inr ps \<and>
        (\<forall>p \<in> set ps. \<exists>mapping. cand_symbol c (param_name p) = Some mapping \<and>
          (\<forall>owner \<in> set (split_on CHR ''/'' mapping). named_executors m owner \<noteq> []) \<and> nested_chain m (split_on CHR ''/'' mapping)))"
proof -
  have one: "check_owner c m ps p = Legal \<longleftrightarrow> (\<exists>mapping. cand_symbol c (param_name p) = Some mapping \<and>
      (\<forall>owner \<in> set (split_on CHR ''/'' mapping). named_executors m owner \<noteq> []) \<and> nested_chain m (split_on CHR ''/'' mapping))" for ps p
    by (auto simp: check_owner_def Let_def verdict_then check_nesting_Legal [OF assms(1)] hasOwnerKind_exact [OF assms]
        split: option.splits)
  show ?thesis by (auto simp: checkOwnerSupported_def one split: sum.splits)
qed

lemma parseShapeTriple_pos: "parseShapeTriple s = Some (a, b, c) \<Longrightarrow> 0 < a \<and> 0 < b \<and> 0 < c"
  by (auto simp: parseShapeTriple_def positive_int64_def split: list.splits option.splits if_splits)

lemma tile_divided_rule:
  assumes "0 < f0" "0 < f1" "0 < f2"
  shows "tile_divided kind c (f0, f1, f2) complaint = Legal \<longleftrightarrow> divided_by c f0 f1 f2"
    and "tile_divided kind c (f0, f1, f2) complaint \<noteq> Fault"
proof -
  have rule: "divide_verdict kind [(BM, f0), (BN, f1), (BK, f2)] s = Legal \<longleftrightarrow> f0 dvd BM \<and> f1 dvd BN \<and> f2 dvd BK"
    "divide_verdict kind [(BM, f0), (BN, f1), (BK, f2)] s \<noteq> Fault" for BM BN BK s
    using divide_verdict_rule [of "[(BM, f0), (BN, f1), (BK, f2)]" kind s] assms by simp_all
  show "tile_divided kind c (f0, f1, f2) complaint = Legal \<longleftrightarrow> divided_by c f0 f1 f2"
    by (simp add: tile_divided_def with_tile_Legal divided_by_def rule(1))
  show "tile_divided kind c (f0, f1, f2) complaint \<noteq> Fault"
    by (simp add: tile_divided_def with_tile_no_fault rule(2))
qed

lemma hierarchy_rule:
  shows "checkTileHierarchyCompatible space c = Legal \<longleftrightarrow> fragment_fits space c (\<lambda>_ _ _. True)"
    and "checkTileHierarchyCompatible space c \<noteq> Fault"
proof -
  have "(checkTileHierarchyCompatible space c = Legal \<longleftrightarrow> fragment_fits space c (\<lambda>_ _ _. True)) \<and> checkTileHierarchyCompatible space c \<noteq> Fault"
  proof (cases "symbolOfKind space c ''fragment_shape''")
    case (Some s)
    show ?thesis
    proof (cases "parseShapeTriple s")
      case (Some f)
      obtain f0 f1 f2 where f: "f = (f0, f1, f2)" by (cases f) auto
      then show ?thesis using tile_divided_rule [of f0 f1 f2] parseShapeTriple_pos [of s f0 f1 f2] Some \<open>symbolOfKind _ _ _ = Some s\<close>
        by (simp add: checkTileHierarchyCompatible_def fragment_fits_def)
    qed (use Some in \<open>simp add: checkTileHierarchyCompatible_def fragment_fits_def\<close>)
  qed (simp add: checkTileHierarchyCompatible_def fragment_fits_def)
  then show "checkTileHierarchyCompatible space c = Legal \<longleftrightarrow> fragment_fits space c (\<lambda>_ _ _. True)"
    and "checkTileHierarchyCompatible space c \<noteq> Fault" by blast+
qed

lemma fragment_supported_rule:
  "(\<And>e. e \<in> set es \<Longrightarrow> \<exists>s0 s1 s2. largestTileShape e = Some [s0, s1, s2]) \<Longrightarrow>
     fragment_supported [f0, f1, f2] es =
       Some (\<exists>e \<in> set es. \<exists>s0 s1 s2. largestTileShape e = Some [s0, s1, s2] \<and> s0 \<le> f0 \<and> s1 \<le> f1 \<and> s2 \<le> f2)"
proof (induction es)
  case (Cons e es)
  obtain s0 s1 s2 where s: "largestTileShape e = Some [s0, s1, s2]" using Cons.prems [of e] by auto
  have "fragment_supported [f0, f1, f2] es =
      Some (\<exists>e \<in> set es. \<exists>s0 s1 s2. largestTileShape e = Some [s0, s1, s2] \<and> s0 \<le> f0 \<and> s1 \<le> f1 \<and> s2 \<le> f2)"
    using Cons.prems by (intro Cons.IH) simp
  then show ?case using s by (auto split: bool.splits)
qed simp

lemma fragment_rule:
  assumes "verifyMachineModel m = None" "rank3_fragments m" "volumes_fit m"
  shows "checkFragmentCompatible space c m = Legal \<longleftrightarrow> fragment_fits space c (fragment_issued m)"
proof -
  have shape: "\<exists>s0 s1 s2. largestTileShape e = Some [s0, s1, s2]" if "e \<in> set (computesOfKind m ''matrix_engine'')" for e
  proof -
    have "e \<in> set (computes m)" "comp_kind e = ''matrix_engine''" using that by (auto simp: computesOfKind_def)
    then show ?thesis by (rule largest_fragment [OF assms]) blast
  qed
  have issued: "fragment_supported [f0, f1, f2] (computesOfKind m ''matrix_engine'') = Some (fragment_issued m f0 f1 f2)" for f0 f1 f2
    using fragment_supported_rule [where es = "computesOfKind m ''matrix_engine''" and ?f0.0 = f0 and ?f1.0 = f1 and ?f2.0 = f2, OF shape]
    by (auto simp: fragment_issued_def computesOfKind_def)
  show "checkFragmentCompatible space c m = Legal \<longleftrightarrow> fragment_fits space c (fragment_issued m)"
  proof (cases "symbolOfKind space c ''fragment_shape''")
    case (Some s)
    show ?thesis
    proof (cases "parseShapeTriple s")
      case (Some f)
      obtain f0 f1 f2 where f: "f = (f0, f1, f2)" by (cases f) auto
      then show ?thesis
        using tile_divided_rule [of f0 f1 f2 FragmentCompatible c] parseShapeTriple_pos [of s f0 f1 f2] Some
          \<open>symbolOfKind _ _ _ = Some s\<close>
        by (cases "fragment_issued m f0 f1 f2") (simp_all add: checkFragmentCompatible_def fragment_fits_def issued)
    qed (use Some in \<open>simp add: checkFragmentCompatible_def fragment_fits_def\<close>)
  qed (simp add: checkFragmentCompatible_def fragment_fits_def)
qed

text \<open>Where the fragment rule reads past the end of a fragment: it compares the extents in order, one engine
  after the other, until one is too large for the candidate's fragment.\<close>

definition exceeds :: "int list \<Rightarrow> int list \<Rightarrow> bool" where
  "exceeds fragment shape \<longleftrightarrow> (\<exists>i < length shape. i < 3 \<and> fragment ! i < shape ! i)"

definition reads_past_end :: "search_space \<Rightarrow> candidate \<Rightarrow> machine_model \<Rightarrow> bool" where
  "reads_past_end space c m \<longleftrightarrow> (\<exists>s f0 f1 f2. symbolOfKind space c ''fragment_shape'' = Some s \<and>
     parseShapeTriple s = Some (f0, f1, f2) \<and>
     (\<exists>before_it e after_it. computesOfKind m ''matrix_engine'' = before_it @ e # after_it \<and>
       (\<forall>d \<in> set before_it. \<exists>larger. largestTileShape d = Some larger \<and> exceeds [f0, f1, f2] larger) \<and>
       (\<exists>shape. largestTileShape e = Some shape \<and> length shape < 3 \<and> \<not> exceeds [f0, f1, f2] shape)))"

lemma all_at_least_cases:
  "all_at_least [f0, f1, f2] shape =
     (if exceeds [f0, f1, f2] shape then Some False else if length shape < 3 then None else Some True)"
proof -
  have three: "(\<exists>i. i < 3 \<and> P i) \<longleftrightarrow> P 0 \<or> P (Suc 0) \<or> P (Suc (Suc 0))" for P :: "nat \<Rightarrow> bool"
    by (auto simp: numeral_3_eq_3 less_Suc_eq)
  have "exceeds [f0, f1, f2] shape \<longleftrightarrow> (\<exists>i. i < 3 \<and> i < length shape \<and> [f0, f1, f2] ! i < shape ! i)"
    by (auto simp: exceeds_def)
  then show ?thesis unfolding three
    by (cases shape; cases "tl shape"; cases "tl (tl shape)") (auto simp: not_le)
qed

lemma first_with_Cons:
  "(\<exists>before_it e after_it. x # xs = before_it @ e # after_it \<and> (\<forall>d \<in> set before_it. P d) \<and> Q e) \<longleftrightarrow>
     Q x \<or> (P x \<and> (\<exists>before_it e after_it. xs = before_it @ e # after_it \<and> (\<forall>d \<in> set before_it. P d) \<and> Q e))"
    (is "?L \<longleftrightarrow> ?R")
proof
  assume ?L
  then obtain before_it e after_it where split: "x # xs = before_it @ e # after_it" "\<forall>d \<in> set before_it. P d" "Q e" by blast
  show ?R
  proof (cases before_it)
    case (Cons y ys)
    then have "P x" "xs = ys @ e # after_it" "\<forall>d \<in> set ys. P d" using split by auto
    then show ?thesis using split(3) by blast
  qed (use split in simp)
next
  assume ?R
  then consider "Q x" | before_it e after_it where "P x" "xs = before_it @ e # after_it" "\<forall>d \<in> set before_it. P d" "Q e" by blast
  then show ?L
  proof cases
    case 1
    then show ?thesis by (intro exI [of _ "[]"] exI [of _ x] exI [of _ xs]) simp
  next
    case 2
    then show ?thesis by (intro exI [of _ "x # before_it"] exI [of _ e] exI [of _ after_it]) simp
  qed
qed

lemma fragment_supported_fault:
  assumes "\<And>e. e \<in> set es \<Longrightarrow> largestTileShape e \<noteq> None"
  shows "fragment_supported [f0, f1, f2] es = None \<longleftrightarrow>
    (\<exists>before_it e after_it. es = before_it @ e # after_it \<and>
       (\<forall>d \<in> set before_it. \<exists>larger. largestTileShape d = Some larger \<and> exceeds [f0, f1, f2] larger) \<and>
       (\<exists>shape. largestTileShape e = Some shape \<and> length shape < 3 \<and> \<not> exceeds [f0, f1, f2] shape))"
  using assms
proof (induction es)
  case (Cons e es)
  obtain shape where s: "largestTileShape e = Some shape" using Cons.prems [of e] by auto
  have "fragment_supported [f0, f1, f2] (e # es) = None \<longleftrightarrow>
      (length shape < 3 \<and> \<not> exceeds [f0, f1, f2] shape) \<or>
      (exceeds [f0, f1, f2] shape \<and> fragment_supported [f0, f1, f2] es = None)"
    by (simp add: s all_at_least_cases del: all_at_least.simps)
  then show ?case unfolding first_with_Cons [where x = e] using Cons by (simp add: s)
qed simp

lemma fragment_faults:
  assumes "verifyMachineModel m = None" "volumes_fit m"
  shows "checkFragmentCompatible space c m = Fault \<longleftrightarrow> reads_past_end space c m"
proof -
  have shape: "largestTileShape e \<noteq> None" if "e \<in> set (computesOfKind m ''matrix_engine'')" for e
  proof -
    have "e \<in> set (computes m)" "comp_kind e = ''matrix_engine''" using that by (auto simp: computesOfKind_def)
    then show ?thesis by (rule largest_shape [OF assms]) simp
  qed
  note scan = fragment_supported_fault [where es = "computesOfKind m ''matrix_engine''", OF shape]
  have past: "reads_past_end space c m \<longleftrightarrow> (\<exists>s f0 f1 f2. symbolOfKind space c ''fragment_shape'' = Some s \<and>
      parseShapeTriple s = Some (f0, f1, f2) \<and> fragment_supported [f0, f1, f2] (computesOfKind m ''matrix_engine'') = None)"
    by (simp only: reads_past_end_def scan)
  have divided: "tile_divided FragmentCompatible c (f0, f1, f2) complaint \<noteq> Fault" if "parseShapeTriple s = Some (f0, f1, f2)"
    for s f0 f1 f2 complaint
    using tile_divided_rule(2) parseShapeTriple_pos [OF that] by blast
  show ?thesis
    unfolding past checkFragmentCompatible_def
    by (auto simp: divided split: option.splits bool.splits)
qed


section \<open>The limit of the local memory\<close>

lemma round53_exact: "n < 9007199254740992 \<Longrightarrow> round53 n = n"
proof -
  assume n: "n < 9007199254740992"
  have "floorlog 2 n \<le> 53" using n by (intro floorlog_leI) simp_all
  then show ?thesis by (simp add: round53_def round_half_even_nat)
qed

lemma rounded_fixes_quotient: "0 < k \<Longrightarrow> k \<le> 9007199254740992 \<Longrightarrow> j \<le> 1074 \<Longrightarrow> rounded (of_nat k / 2 ^ j) = of_nat k / 2 ^ j"
  by (rule rounded_fixes)
    (auto simp: representable_def two_power_def field_simps intro!: exI [of _ k] exI [of _ "- int j"])

lemma limit_fraction: "\<exists>k. kSramUtilizationLimit = Finite k \<and> 3 / 4 \<le> k \<and> k \<le> 1"
proof -
  have "rounded 1 = 1" "rounded (3 / 4) = 3 / 4"
    using rounded_fixes_quotient [of 1 0] rounded_fixes_quotient [of 3 2] by simp_all
  then have "rounded (4 / 5) \<le> 1" "3 / 4 \<le> rounded (4 / 5)"
    using rounded_mono [of "4 / 5" 1] rounded_mono [of "3 / 4" "4 / 5"] by simp_all
  moreover have "1 < two_power 1024" by (simp add: two_power_def)
  ultimately show ?thesis by (simp add: kSramUtilizationLimit_def round_double_rounded)
qed

text \<open>The limit is the rounded product, between three quarters of the capacity and the capacity.\<close>

lemma sram_limit_bounds:
  assumes "capacity \<le> 2251799813685248"
  shows "sram_limit capacity \<le> capacity" "3 * capacity div 4 \<le> sram_limit capacity"
proof -
  obtain k where k: "kSramUtilizationLimit = Finite k" "3 / 4 \<le> k" "k \<le> 1" using limit_fraction by blast
  have exact: "round53 capacity = capacity" using assms by (intro round53_exact) simp
  let ?p = "of_nat capacity * k"
  have "sram_limit capacity \<le> capacity \<and> 3 * capacity div 4 \<le> sram_limit capacity"
  proof (cases "capacity = 0")
    case True
    then show ?thesis
      unfolding sram_limit_def k(1) double_of_nat_def exact by (simp add: double_mult_def is_inf_def Let_def signed_zero_def)
  next
    case False
    then have pos: "0 < ?p" using k(2) by simp
    have "?p \<le> of_nat capacity" using k(3) by (simp add: mult_left_le)
    then have le: "rounded ?p \<le> of_nat capacity"
      using rounded_mono [of ?p "of_nat capacity"] rounded_fixes_quotient [of capacity 0] pos False assms by simp
    have "of_nat (3 * capacity) / 2 ^ 2 \<le> ?p" using mult_left_mono [OF k(2), of "of_nat capacity"] by simp
    then have ge: "of_nat (3 * capacity) / 4 \<le> rounded ?p"
      using rounded_mono [of "of_nat (3 * capacity) / 2 ^ 2" ?p] rounded_fixes_quotient [of "3 * capacity" 2] False assms by simp
    have "(of_nat capacity :: rat) < of_nat (2 ^ 53)" unfolding of_nat_less_iff using assms by simp
    also have "\<dots> = two_power 53" using two_power_nat [of 53] by simp
    also have "\<dots> < two_power 1024" by (simp only: two_power_less)
    finally have big: "(of_nat capacity :: rat) < two_power 1024" .
    have "double_mult (double_of_nat capacity) kSramUtilizationLimit = Finite (rounded ?p)"
      unfolding k(1) double_of_nat_def exact using le pos big False k(2) by (auto simp: double_mult_def is_inf_def Let_def round_double_rounded)
    then have limit: "sram_limit capacity = nat \<lfloor>rounded ?p\<rfloor>" by (simp add: sram_limit_def)
    have "(of_int (int (3 * capacity div 4)) :: rat) \<le> of_nat (3 * capacity) / 4"
      using of_nat_mono [of "3 * capacity div 4 * 4" "3 * capacity", where 'a = rat] by (simp add: pos_le_divide_eq)
    then have "int (3 * capacity div 4) \<le> \<lfloor>rounded ?p\<rfloor>" using ge by (intro le_floor_iff [THEN iffD2]) linarith
    then show ?thesis using floor_mono [OF le] limit by (simp add: nat_le_iff le_nat_iff)
  qed
  then show "sram_limit capacity \<le> capacity" "3 * capacity div 4 \<le> sram_limit capacity" by simp_all
qed

section \<open>All constraints\<close>

lemma rule_decides:
  assumes "checkable c m"
  shows "check_kind con space c facts m = Legal \<longleftrightarrow> constraint_holds space c facts m con"
proof -
  have tame: "tame c" and m: "verifyMachineModel m = None" "rank3_fragments m" "volumes_fit m" and owners: "owners_fit m"
    using assms by (auto simp: checkable_def)
  have positive: "positive c" using tame by (simp add: tame_def positive_def)
  show "check_kind con space c facts m = Legal \<longleftrightarrow> constraint_holds space c facts m con"
    by (cases "con_kind con")
      (simp_all only: check_kind_def constraint_holds_def constraint_kind.case sram_rule [OF tame] acc_rule [OF tame]
        pipeline_rule [OF tame] mma_rule [OF assms] extent_rule [OF tame] tail_rule [OF positive] width_rule layout_rule
        owner_rule [OF m(1) owners] hierarchy_rule fragment_rule [OF m])
qed

text \<open>The fragment rule is the only one that faults.\<close>

lemma kind_faults:
  assumes "positive c" "verifyMachineModel m = None" "volumes_fit m"
  shows "check_kind con space c facts m = Fault \<longleftrightarrow> con_kind con = FragmentCompatible \<and> reads_past_end space c m"
  using sram_no_fault acc_no_fault pipeline_no_fault mma_no_fault [OF assms(2,3)] extent_no_fault tail_rule(2) [OF assms(1)]
    width_rule(2) layout_rule(2) owner_no_fault hierarchy_rule(2) fragment_faults [OF assms(2,3)]
  by (cases "con_kind con") (simp_all add: check_kind_def)

lemma check_reference_Legal:
  "check_reference space c kind name = Legal \<longleftrightarrow>
     (\<exists>p. constraint_param space name = Some p \<and> bound_choice c (param_name p) \<noteq> None)"
  by (auto simp: check_reference_def bound_choice_def split: option.splits)

lemma checkConstraint_Legal:
  "checkConstraint space c facts m con = Legal \<longleftrightarrow>
     (\<forall>name \<in> set (con_params con). \<exists>p. constraint_param space name = Some p \<and> bound_choice c (param_name p) \<noteq> None) \<and>
     check_kind con space c facts m = Legal"
  by (simp only: checkConstraint_def verdict_then first_bad_Legal check_reference_Legal)

lemma first_bad_fault_iff:
  "first_bad f xs = Fault \<longleftrightarrow> (\<exists>met x rest. xs = met @ x # rest \<and> (\<forall>d \<in> set met. f d = Legal) \<and> f x = Fault)"
proof (induction xs)
  case (Cons x xs)
  show ?case unfolding first_with_Cons [where x = x] Cons.IH [symmetric] by (cases "f x") auto
qed simp

lemma constraint_faults:
  assumes "positive c" "verifyMachineModel m = None" "volumes_fit m"
  shows "checkConstraint space c facts m con = Fault \<longleftrightarrow> con_kind con = FragmentCompatible \<and>
    (\<forall>name \<in> set (con_params con). \<exists>p. constraint_param space name = Some p \<and> bound_choice c (param_name p) \<noteq> None) \<and>
    reads_past_end space c m"
proof -
  have "check_reference space c k name \<noteq> Fault" for k name
    by (auto simp: check_reference_def split: option.splits)
  then have "first_bad (check_reference space c (con_kind con)) (con_params con) \<noteq> Fault" by (simp add: first_bad_no_fault)
  then have step: "checkConstraint space c facts m con = Fault \<longleftrightarrow>
      first_bad (check_reference space c (con_kind con)) (con_params con) = Legal \<and> check_kind con space c facts m = Fault"
    by (cases "first_bad (check_reference space c (con_kind con)) (con_params con)") (simp_all add: checkConstraint_def del: first_bad_Legal)
  show ?thesis unfolding step first_bad_Legal check_reference_Legal kind_faults [OF assms] by blast
qed

lemma rank3_reads_inside:
  assumes "verifyMachineModel m = None" "volumes_fit m" "rank3_fragments m"
  shows "\<not> reads_past_end space c m"
proof
  assume "reads_past_end space c m"
  then obtain e shape where e: "e \<in> set (computesOfKind m ''matrix_engine'')" "largestTileShape e = Some shape" "length shape < 3"
    unfolding reads_past_end_def by (metis in_set_conv_decomp)
  then have "e \<in> set (computes m)" "comp_kind e = ''matrix_engine''" by (auto simp: computesOfKind_def)
  then obtain f0 f1 f2 where "largestTileShape e = Some [f0, f1, f2]" by (rule largest_fragment [OF assms(1,3,2)])
  then show False using e(2,3) by simp
qed

lemma wrapped_products:
  "wrap64 (mul64 (mul64 a b) c + mul64 (mul64 (mul64 d e) f) g) = (a * b * c + d * e * f * g) mod 2 ^ 64"
proof -
  have wrap: "wrap64 n = n mod 2 ^ 64" "mul64 i j = i * j mod 2 ^ 64" for n i j
    by (simp_all add: wrap64_def mul64_def)
  show ?thesis unfolding wrap by (simp only: mod_mult_left_eq mod_add_eq)
qed

lemma stagedTileBytes_modulo:
  assumes "positive c" "tile_is c BM BN BK"
  shows "stagedTileBytes space shape BM BN BK = map_option (\<lambda>b. b mod 2 ^ 64) (staged_bytes space shape BM BN BK)"
proof -
  have "1 \<le> BM \<and> BM \<le> int64_max" "1 \<le> BN \<and> BN \<le> int64_max" "1 \<le> BK \<and> BK \<le> int64_max"
    using assms unfolding positive_def tile_is_def by blast+
  then have u: "to_u64 BM = nat BM" "to_u64 BN = nat BN" "to_u64 BK = nat BK"
    by (simp_all add: to_u64_nonneg)
  show ?thesis
    by (cases "dtypeBytes (inputDType shape)"; cases "dtypeBytes (weightDType shape)")
      (simp_all add: stagedTileBytes_def staged_bytes_def u wrapped_products)
qed

section \<open>Properties\<close>

text \<open>C6: legality decides the constraints. Take a candidate whose integers are positive, with tile extents up to
  \<open>2 ^ 20\<close> and at most \<open>2 ^ 16\<close> pipeline stages, and a verified machine whose fragments have rank three
  and volumes that fit in 64 bits and whose executors count fewer than \<open>2 ^ 32\<close>. Then the candidate is
  legal exactly when every reference of every constraint is declared and bound and every constraint
  holds, in unbounded arithmetic: the staged tiles and accumulators fit their memories, some engine
  takes the types and issues the tile, threads, lanes and outstanding copies are available, tiles
  divide the workload or tails are handled, layouts are held on the path and owners are nested by
  containment. Loading a space gives none of the upper bounds, and verification neither the rank nor the sizes.\<close>

theorem legality_exact:
  assumes "checkable c m"
  shows "checkLegality space c facts m = Legal \<longleftrightarrow> (\<forall>con \<in> set (constraints space).
    (\<forall>name \<in> set (con_params con). \<exists>p. constraint_param space name = Some p \<and> bound_choice c (param_name p) \<noteq> None) \<and>
    constraint_holds space c facts m con)"
  by (simp only: checkLegality_def first_bad_Legal checkConstraint_Legal rule_decides [OF assms])

text \<open>C24: where the rules fault. For a candidate of positive integers, as a loaded space has them, and a verified
  machine whose fragment volumes fit in 64 bits, the check of a candidate divides by zero or reads outside
  a vector in one case only: a fragment constraint is reached, with every constraint before it met and its
  references bound, and the fragment of some matrix engine has fewer than three extents, none of them
  larger than the candidate's, while those of the engines before it are larger somewhere. On a machine
  whose fragments have rank three no check faults.\<close>

theorem legality_faults_exactly:
  assumes "positive c" "verifyMachineModel m = None" "volumes_fit m"
  shows "(checkLegality space c facts m = Fault \<longleftrightarrow> (\<exists>met con rest. constraints space = met @ con # rest \<and>
      (\<forall>d \<in> set met. checkConstraint space c facts m d = Legal) \<and> con_kind con = FragmentCompatible \<and>
      (\<forall>name \<in> set (con_params con). \<exists>p. constraint_param space name = Some p \<and> bound_choice c (param_name p) \<noteq> None) \<and>
      reads_past_end space c m)) \<and>
    (rank3_fragments m \<longrightarrow> checkLegality space c facts m \<noteq> Fault)"
proof -
  have faults: "checkLegality space c facts m = Fault \<longleftrightarrow> (\<exists>met con rest. constraints space = met @ con # rest \<and>
      (\<forall>d \<in> set met. checkConstraint space c facts m d = Legal) \<and> con_kind con = FragmentCompatible \<and>
      (\<forall>name \<in> set (con_params con). \<exists>p. constraint_param space name = Some p \<and> bound_choice c (param_name p) \<noteq> None) \<and>
      reads_past_end space c m)"
    unfolding checkLegality_def first_bad_fault_iff constraint_faults [OF assms] by (simp only: conj_assoc)
  then show ?thesis using rank3_reads_inside [OF assms(2,3)] by blast
qed

text \<open>Legal tiles fit. If a candidate is legal and its space constrains the local memory, then the input tile and
  the weight tiles of every shape, twice when the loop is pipelined, take at most the capacity of that
  memory in unbounded arithmetic.\<close>

theorem legal_tiles_fit:
  assumes "checkable c m" "checkLegality space c facts m = Legal"
    and "con \<in> set (constraints space)" "con_kind con = SramCapacity"
    and "findMemoryOfKind m ''sram'' = Some sram" "capacityBytes sram \<le> 2251799813685248"
    and "tile_is c BM BN BK" "shape \<in> set (applicableShapes facts)"
  shows "\<exists>b. staged_bytes space shape BM BN BK = Some b \<and> b \<le> capacityBytes sram \<and>
    (1 < pipeline_stages c \<longrightarrow> 2 * b \<le> capacityBytes sram)"
proof -
  have "constraint_holds space c facts m con"
    using assms(2,3) by (simp add: checkLegality_def checkConstraint_Legal rule_decides(1) [OF assms(1)])
  then obtain b where b: "staged_bytes space shape BM BN BK = Some b"
    "(if pipeline_stages c > 1 then 2 else 1) * b \<le> sram_limit (capacityBytes sram)"
    using assms(4,5,7,8) by (auto simp: constraint_holds_def sram_holds_def tile_is_def)
  moreover have "sram_limit (capacityBytes sram) \<le> capacityBytes sram" by (rule sram_limit_bounds(1)) (rule assms(6))
  ultimately show ?thesis by (auto split: if_splits)
qed

text \<open>C38: the capacity rule computes modulo \<open>2 ^ 64\<close>. On a machine with a local memory and a workload with at least one
  applicable shape, the rule accepts a tile of positive extents exactly when every shape has known
  element types and its staged bytes, twice when the loop is pipelined, are within the limit after
  reduction modulo \<open>2 ^ 64\<close>; so a tile whose bytes are a multiple of \<open>2 ^ 64\<close> passes for any capacity.\<close>

theorem sram_check_modulo:
  assumes "positive c" "tile_is c BM BN BK" "findMemoryOfKind m ''sram'' = Some sram" "applicableShapes facts \<noteq> []"
  shows "checkSramCapacity space c facts m = Legal \<longleftrightarrow> (\<forall>shape \<in> set (applicableShapes facts).
    \<exists>b. staged_bytes space shape BM BN BK = Some b \<and>
      (if pipeline_stages c > 1 then 2 else 1) * b mod 2 ^ 64 \<le> sram_limit (capacityBytes sram))"
proof -
  have staged: "check_staged kind what copies capacity (stagedTileBytes space shape BM BN BK) = Legal \<longleftrightarrow>
      (\<exists>b. staged_bytes space shape BM BN BK = Some b \<and> copies * b mod 2 ^ 64 \<le> sram_limit capacity)"
    for kind what copies capacity shape
    by (simp add: check_staged_def stagedTileBytes_modulo [OF assms(1,2)] Let_def not_less mul64_def mod_mult_right_eq
        uint64_max_def wrap64_def split: option.splits)
  show ?thesis using assms(3,4)
    by (simp add: checkSramCapacity_def with_tile_is [OF assms(2)] staged)
qed


section \<open>A machine with a matrix engine\<close>

definition mma_engine :: "int list \<Rightarrow> compute_node" where
  "mma_engine shape = \<lparr>comp_id = ''mma.0'', comp_kind = ''matrix_engine'', comp_refines = [''matrix''], comp_attachedTo = ''pe.0'',
     elementTypes = [''f32''], comp_supportedLayouts = [], shapes = [shape], lanes = [],
     issueCycles = 1, comp_latencyCycles = 4, throughputPerCycle = None, comp_concurrency = 1,
     accumulatorDTypes = [''f32''], occupancyLimit = None\<rparr>"

definition mma_machine :: "int list \<Rightarrow> machine_model" where
  "mma_machine shape = sample_machine\<lparr>computes := [mma_engine shape]\<rparr>"

lemma mma_machine_fields:
  "executors (mma_machine s) = executors sample_machine" "memories (mma_machine s) = memories sample_machine"
  "transferEngines (mma_machine s) = transferEngines sample_machine" "links (mma_machine s) = links sample_machine"
  "computes (mma_machine s) = [mma_engine s]"
  by (simp_all add: mma_machine_def)

lemma mma_machine_verified:
  assumes "s \<noteq> []" "\<forall>extent \<in> set s. 0 < extent"
  shows "verifyMachineModel (mma_machine s) = None"
proof -
  let ?m = "mma_machine s"
  have shape: "check_shape s = None" using assms by (auto simp: check_shape_def fail_if_def)
  have "\<forall>e \<in> set (computes ?m). check_compute ?m e = None"
    by (simp add: machine_query_defs check_compute_def isKnownComputeKind_def mma_machine_def mma_engine_def sample_machine_def
        fail_if_def shape)
  moreover
  have "\<forall>e \<in> set (executors ?m). check_containment ?m e = None"
    by (simp add: check_containment_def mma_machine_def sample_machine_def chain_cycles.simps findExecutor_def findById_def)
  moreover have "\<forall>e \<in> set (executors ?m). check_executor ?m e = None"
    "\<forall>e \<in> set (memories ?m). check_memory ?m e = None"
    "\<forall>e \<in> set (transferEngines ?m). check_transfer_engine ?m e = None"
    "\<forall>e \<in> set (links ?m). check_link ?m e = None"
    "distinct (node_ids ?m) \<and> [] \<notin> set (node_ids ?m)"
    "schemaMajor ?m = kSupportedSchemaMajor" "target ?m \<noteq> []"
    "clockHz ?m = None" "workerThreads ?m = 1"
    by (simp_all add: machine_query_defs machine_check_defs mma_machine_def mma_engine_def sample_machine_def node_ids_def fail_if_def)
  ultimately show ?thesis by (simp add: verifyMachineModel_def check_all_ids)
qed

definition mma_space :: search_space where
  "mma_space = \<lparr>space_name = ''mma'', space_workload = ''matmul'', params =
     [\<lparr>param_name = ''BM'', param_kind = ''integer'', param_choices = [IntegerChoice 8], param_role = []\<rparr>,
      \<lparr>param_name = ''F'', param_kind = ''fragment_shape'', param_choices = [SymbolicChoice ''4x4x4''], param_role = []\<rparr>,
      \<lparr>param_name = ''O'', param_kind = ''owner_mapping'', param_choices = [SymbolicChoice ''group/pe''], param_role = []\<rparr>],
     constraints =
      [\<lparr>con_kind = SramCapacity, con_params = [''BM''], con_attrs = []\<rparr>,
       \<lparr>con_kind = MmaCompatible, con_params = [''BM''], con_attrs = []\<rparr>,
       \<lparr>con_kind = FragmentCompatible, con_params = [''F''], con_attrs = []\<rparr>,
       \<lparr>con_kind = OwnerSupported, con_params = [''O''], con_attrs = []\<rparr>],
     space_objective = default_objective, singleton = False\<rparr>"

definition mma_candidate :: "int \<Rightarrow> candidate" where
  "mma_candidate n = \<lparr>cand_id = ''c'', cand_values = [(''BK'', n), (''BM'', n), (''BN'', n)],
     symbolicValues = [(''F'', ''4x4x4''), (''O'', ''group/pe'')]\<rparr>"

definition mma_facts :: binding_facts where
  "mma_facts = \<lparr>originalWorkload = None, contractions = [\<lparr>ws_M = 64, ws_N = 64, ws_K = 64,
     inputDType = ''f32'', weightDType = ''f32'', accumulatorDType = ''f32'', outputDType = ''f32''\<rparr>]\<rparr>"

lemma mma_tile: "tile_is (mma_candidate n) BM BN BK \<longleftrightarrow> BM = n \<and> BN = n \<and> BK = n"
  by (auto simp: tile_is_def cand_integer_def mma_candidate_def)

lemma mma_checkable: "checkable (mma_candidate 8) (mma_machine [4, 4, 4])"
  using mma_machine_verified [of "[4, 4, 4]"]
  by (auto simp: checkable_def tame_def cand_integer_def mma_candidate_def rank3_fragments_def volumes_fit_def owners_fit_def
      mma_machine_def mma_engine_def int64_max_def sample_machine_def split: if_splits)

lemma mma_sram: "findMemoryOfKind (mma_machine s) ''sram'' = Some (memories sample_machine ! Suc 0)"
  "capacityBytes (memories sample_machine ! Suc 0) = 4096"
  by (simp_all add: findMemoryOfKind_def mma_machine_def sample_machine_def)

lemma mma_stages: "pipeline_stages (mma_candidate n) = 1"
  by (simp add: pipeline_stages_def cand_integer_def mma_candidate_def)

lemma mma_shapes: "applicableShapes mma_facts = contractions mma_facts"
  by (simp add: applicableShapes_def mma_facts_def)

lemma mma_staged: "shape \<in> set (contractions mma_facts) \<Longrightarrow> staged_bytes mma_space shape 8 8 8 = Some 512"
  by (simp add: staged_bytes_def mma_facts_def dtypeBytes_def symbolizeDType_def mma_space_def weightTileCount_def)

lemma mma_fragment:
  "symbolOfKind mma_space (mma_candidate n) ''fragment_shape'' = Some ''4x4x4''" "parseShapeTriple ''4x4x4'' = Some (4, 4, 4)"
  "\<not> isMasked mma_space (mma_candidate n)"
  by (simp_all add: symbolOfKind_def findParamOfKind_def mma_space_def cand_symbol_def mma_candidate_def parseShapeTriple_def
      positive_int64_def parse_int64_def digits_val_def is_digit_def digit_val_def in_int64_def int64_min_def int64_max_def isMasked_def)


lemma mma_holds:
  "con \<in> set (constraints mma_space) \<Longrightarrow> constraint_holds mma_space (mma_candidate 8) mma_facts (mma_machine [4, 4, 4]) con"
proof -
  assume con: "con \<in> set (constraints mma_space)"
  let ?m = "mma_machine [4, 4, 4]" and ?c = "mma_candidate 8"
  have largest: "largestTileShape (mma_engine [4, 4, 4]) = Some [4, 4, 4]"
    by (simp add: largestTileShape_def mma_engine_def volume_def in_int64_def int64_min_def int64_max_def)
  have sram: "sram_holds mma_space ?c mma_facts ?m (if pipeline_stages ?c > 1 then 2 else 1)"
    using sram_limit_bounds(2) [of 4096] mma_staged
    by (simp add: sram_holds_def mma_sram mma_tile mma_shapes mma_stages) (simp add: mma_facts_def)
  have mma: "mma_runs mma_space ?c mma_facts ?m"
    using largest by (simp add: mma_runs_def mma_shapes mma_fragment(3) mma_tile mma_machine_fields issues_tile_def)
      (simp add: mma_facts_def supportsContractionTypes_def mma_engine_def)
  have fragment: "fragment_fits mma_space ?c (fragment_issued ?m)"
    using largest by (simp add: fragment_fits_def mma_fragment fragment_issued_def mma_machine_fields divided_by_def mma_tile)
      (simp add: mma_engine_def)
  have owners: "split_on CHR ''/'' ''group/pe'' = [''group'', ''pe'']" by simp
  have "(''pe.0'', ''cluster'') \<in> parent_rel ?m"
    by (simp add: parent_rel_def findExecutor_def findById_def mma_machine_fields sample_machine_def)
  then have "nested_chain ?m [''group'', ''pe'']"
    by (auto simp: nested_chain_def mma_machine_fields sample_machine_def ownerMatches_def findExecutor_def findById_def
        intro!: exI [of _ "''cluster''"])
  moreover have "\<forall>owner \<in> {''group'', ''pe''}. named_executors ?m owner \<noteq> []"
    by (simp add: named_executors_def mma_machine_fields sample_machine_def)
  ultimately show ?thesis
    using con sram mma fragment
    by (auto simp: constraint_holds_def mma_space_def resolveReferencedParams_def referenced_param_def findParam_def
        cand_symbol_def mma_candidate_def owners)
qed

lemma mma_bound:
  "con \<in> set (constraints mma_space) \<Longrightarrow> name \<in> set (con_params con) \<Longrightarrow>
     \<exists>p. constraint_param mma_space name = Some p \<and> bound_choice (mma_candidate 8) (param_name p) \<noteq> None"
  by (auto simp: constraint_param_def findParam_def mma_space_def bound_choice_def cand_integer_def cand_symbol_def mma_candidate_def)

lemma legality_exact_witness: "checkLegality mma_space (mma_candidate 8) mma_facts (mma_machine [4, 4, 4]) = Legal"
  using legality_exact [OF mma_checkable, of mma_space mma_facts] mma_holds mma_bound by blast


lemma mma_legal: "checkLegality mma_space (mma_candidate 8) mma_facts (mma_machine [4, 4, 4]) = Legal"
  unfolding checkLegality_def first_bad_Legal checkConstraint_Legal rule_decides(1) [OF mma_checkable]
  using mma_holds mma_bound by blast

lemma legal_tiles_fit_witness:
  "\<exists>b. staged_bytes mma_space (contractions mma_facts ! 0) 8 8 8 = Some b \<and> b \<le> 4096"
proof -
  have "constraints mma_space ! 0 \<in> set (constraints mma_space)" "con_kind (constraints mma_space ! 0) = SramCapacity"
    "contractions mma_facts ! 0 \<in> set (applicableShapes mma_facts)" "tile_is (mma_candidate 8) 8 8 8"
    by (simp_all add: mma_space_def mma_facts_def applicableShapes_def mma_tile)
  from legal_tiles_fit [OF mma_checkable mma_legal this(1,2) mma_sram(1) _ this(4,3)] show ?thesis
    by (auto simp: mma_sram(2))
qed

lemma mma_rank_one:
  "verifyMachineModel (mma_machine [4]) = None" "volumes_fit (mma_machine [4])" "reads_past_end mma_space (mma_candidate 8) (mma_machine [4])"
proof -
  show "verifyMachineModel (mma_machine [4]) = None" by (rule mma_machine_verified) simp_all
  show "volumes_fit (mma_machine [4])" by (simp add: volumes_fit_def mma_machine_fields mma_engine_def int64_max_def)
  have "largestTileShape (mma_engine [4]) = Some [4]"
    by (simp add: largestTileShape_def mma_engine_def volume_def in_int64_def int64_min_def int64_max_def)
  then show "reads_past_end mma_space (mma_candidate 8) (mma_machine [4])"
    using mma_fragment by (auto simp: reads_past_end_def computesOfKind_def mma_machine_fields exceeds_def mma_engine_def
        intro!: exI [of _ "[]"])
qed

text \<open>A verified machine and a space with the fragment constraint alone, on which the check faults.\<close>

definition fragment_space :: search_space where
  "fragment_space = mma_space\<lparr>constraints := [\<lparr>con_kind = FragmentCompatible, con_params = [''F''], con_attrs = []\<rparr>]\<rparr>"

lemma legality_faults_exactly_witness:
  "verifyMachineModel (mma_machine [4]) = None \<and> checkLegality fragment_space (mma_candidate 8) mma_facts (mma_machine [4]) = Fault"
proof -
  have "reads_past_end fragment_space (mma_candidate 8) (mma_machine [4])"
    using mma_rank_one(3) by (simp add: reads_past_end_def fragment_space_def symbolOfKind_def findParamOfKind_def)
  moreover have "\<exists>p. constraint_param fragment_space ''F'' = Some p \<and> bound_choice (mma_candidate 8) (param_name p) \<noteq> None"
    using mma_bound [of "constraints mma_space ! 2" "''F''"]
    by (auto simp: fragment_space_def mma_space_def constraint_param_def findParam_def)
  moreover have "positive (mma_candidate 8)" using mma_checkable by (simp add: checkable_def tame_def positive_def)
  ultimately show ?thesis
    using legality_faults_exactly [of "mma_candidate 8" "mma_machine [4]" fragment_space mma_facts] mma_rank_one(1,2)
    by (simp add: fragment_space_def Cons_eq_append_conv)
qed

lemma sram_check_modulo_witness:
  "checkSramCapacity mma_space (mma_candidate 4294967296) mma_facts (mma_machine [4]) = Legal \<and>
   staged_bytes mma_space (contractions mma_facts ! 0) 4294967296 4294967296 4294967296 = Some (2 * 4 * 2 ^ 64)"
proof -
  have "positive (mma_candidate 4294967296)"
    by (simp add: positive_def cand_integer_def mma_candidate_def int64_max_def)
  moreover have "applicableShapes mma_facts \<noteq> []" by (simp add: mma_facts_def applicableShapes_def)
  moreover have "tile_is (mma_candidate 4294967296) 4294967296 4294967296 4294967296" by (simp add: mma_tile)
  ultimately have "checkSramCapacity mma_space (mma_candidate 4294967296) mma_facts (mma_machine [4]) = Legal \<longleftrightarrow>
      (\<forall>shape \<in> set (applicableShapes mma_facts). \<exists>b. staged_bytes mma_space shape 4294967296 4294967296 4294967296 = Some b \<and>
        (if pipeline_stages (mma_candidate 4294967296) > 1 then 2 else 1) * b mod 2 ^ 64 \<le>
          sram_limit (capacityBytes (memories sample_machine ! Suc 0)))"
    using sram_check_modulo mma_sram(1) by blast
  moreover have "staged_bytes mma_space shape 4294967296 4294967296 4294967296 = Some (2 * 4 * 2 ^ 64)"
    if "shape \<in> set (contractions mma_facts)" for shape
    using that by (simp add: mma_facts_def staged_bytes_def dtypeBytes_def symbolizeDType_def mma_space_def weightTileCount_def)
  moreover have "contractions mma_facts ! 0 \<in> set (contractions mma_facts)" by (simp add: mma_facts_def)
  ultimately show ?thesis by (simp add: mma_shapes mma_stages)
qed

end
