(* ===== verification/Tuning.thy ===== *)
theory Tuning
  imports Legality "HOL-Library.Multiset"
begin

text \<open>
  Tuning sessions: \<^verbatim>\<open>lib/Perf/TuningSession.cpp\<close>. The metrics an objective can name, the ranking of
  results, the session that checks, binds and analyzes every candidate, the measurement of the best
  of them and the cut to the cohort that has a value for every metric of a measured objective.
\<close>

section \<open>Results and metrics\<close>

record candidate_metrics =
  cm_predictedCycles :: nat
  cm_predictedNs :: double
  cm_matrixUtilization :: double
  cm_dmaUtilization :: double
  cm_dramBytes :: nat
  cm_sramBytes :: nat
  cm_bottleneck :: string
  measuredNs :: "double option"
  measuredGflops :: "double option"

definition no_metrics :: candidate_metrics where
  "no_metrics = \<lparr>cm_predictedCycles = 0, cm_predictedNs = Finite 0, cm_matrixUtilization = Finite 0,
     cm_dmaUtilization = Finite 0, cm_dramBytes = 0, cm_sramBytes = 0, cm_bottleneck = [],
     measuredNs = None, measuredGflops = None\<rparr>"

record tuning_result =
  tr_candidate :: candidate
  tr_metrics :: candidate_metrics
  tr_legal :: bool
  rejectionReason :: string

datatype metric_origin = StaticOrigin | MeasuredOrigin | UnavailableOrigin

record metric_value =
  mv_value :: "double option"
  mv_origin :: metric_origin

text \<open>The fields of a performance report that a session reads.\<close>

record l0_report =
  l0_predictedCycles :: nat
  l0_bottleneck :: string
  totalBytesDram :: nat
  totalBytesSram :: nat

record l1_report =
  l1_predictedCycles :: nat
  l1_predictedNs :: double
  l1_matrixUtilization :: double
  l1_dmaUtilization :: double
  l1_bottleneck :: string

record perf_report =
  l0 :: l0_report
  l1 :: "l1_report option"

definition lowerIsBetter :: "string \<Rightarrow> bool" where
  "lowerIsBetter name \<longleftrightarrow> name \<noteq> ''matrix_utilization'' \<and> name \<noteq> ''dma_utilization'' \<and> name \<noteq> ''measured_gflops''"

definition measured_metric :: "string \<Rightarrow> bool" where
  "measured_metric name \<longleftrightarrow> name = ''measured_ns'' \<or> name = ''measured_gflops''"

definition objectiveUsesMeasuredMetric :: "search_objective \<Rightarrow> bool" where
  "objectiveUsesMeasuredMetric obj \<longleftrightarrow> measured_metric (primaryMetric obj) \<or> list_ex measured_metric (secondaryMetrics obj)"

definition nanoseconds :: "nat \<Rightarrow> machine_model \<Rightarrow> double" where
  "nanoseconds cycles m = (case clockHz m of
       Some hz \<Rightarrow> double_div (double_mult (double_of_nat cycles) (round_double 1000000000)) (double_of_nat hz)
     | None \<Rightarrow> Finite 0)"

definition metricsFrom :: "perf_report \<Rightarrow> machine_model \<Rightarrow> candidate_metrics" where
  "metricsFrom report m =
     (case l1 report of
        Some r \<Rightarrow> no_metrics\<lparr>cm_predictedCycles := l1_predictedCycles r, cm_predictedNs := l1_predictedNs r,
          cm_matrixUtilization := l1_matrixUtilization r, cm_dmaUtilization := l1_dmaUtilization r,
          cm_bottleneck := l1_bottleneck r\<rparr>
      | None \<Rightarrow> no_metrics\<lparr>cm_predictedCycles := l0_predictedCycles (l0 report),
          cm_predictedNs := nanoseconds (l0_predictedCycles (l0 report)) m, cm_bottleneck := l0_bottleneck (l0 report)\<rparr>)
     \<lparr>cm_dramBytes := totalBytesDram (l0 report), cm_sramBytes := totalBytesSram (l0 report)\<rparr>"

definition named_metric :: "candidate_metrics \<Rightarrow> string \<Rightarrow> metric_value" where
  "named_metric metrics name =
     (if name = ''latency_cycles'' then \<lparr>mv_value = Some (double_of_nat (cm_predictedCycles metrics)), mv_origin = StaticOrigin\<rparr>
      else if name = ''dram_bytes'' then \<lparr>mv_value = Some (double_of_nat (cm_dramBytes metrics)), mv_origin = StaticOrigin\<rparr>
      else if name = ''sram_bytes'' then \<lparr>mv_value = Some (double_of_nat (cm_sramBytes metrics)), mv_origin = StaticOrigin\<rparr>
      else if name = ''matrix_utilization'' then \<lparr>mv_value = Some (cm_matrixUtilization metrics), mv_origin = StaticOrigin\<rparr>
      else if name = ''dma_utilization'' then \<lparr>mv_value = Some (cm_dmaUtilization metrics), mv_origin = StaticOrigin\<rparr>
      else if name = ''measured_ns'' \<and> measuredNs metrics \<noteq> None
        then \<lparr>mv_value = measuredNs metrics, mv_origin = MeasuredOrigin\<rparr>
      else if name = ''measured_gflops'' \<and> measuredGflops metrics \<noteq> None
        then \<lparr>mv_value = measuredGflops metrics, mv_origin = MeasuredOrigin\<rparr>
      else \<lparr>mv_value = None, mv_origin = UnavailableOrigin\<rparr>)"

definition resolveMetric :: "candidate_metrics \<Rightarrow> string \<Rightarrow> metric_value" where
  "resolveMetric metrics name = (let result = named_metric metrics name in
     case mv_value result of
       Some v \<Rightarrow> if is_finite v then result else \<lparr>mv_value = None, mv_origin = UnavailableOrigin\<rparr>
     | None \<Rightarrow> \<lparr>mv_value = None, mv_origin = UnavailableOrigin\<rparr>)"

definition isKnownMetric :: "string \<Rightarrow> bool" where
  "isKnownMetric name \<longleftrightarrow> name = ''latency_cycles'' \<or> name = ''dram_bytes'' \<or> name = ''sram_bytes'' \<or>
     name = ''matrix_utilization'' \<or> name = ''dma_utilization'' \<or> name = ''measured_ns'' \<or> name = ''measured_gflops''"

definition check_metric :: "string \<Rightarrow> string option" where
  "check_metric name = (if isKnownMetric name then None
     else Some (''objective names metric '' @ in_quotes name @
       '', which the tuner does not produce; it ranks by latency_cycles, dram_bytes, sram_bytes, '' @
       ''matrix_utilization, dma_utilization, measured_ns or measured_gflops''))"

text \<open>The direction is one of the two of the enumeration, so its check never fails.\<close>

definition validateObjective :: "search_objective \<Rightarrow> string option" where
  "validateObjective obj = orElse (check_metric (primaryMetric obj)) (first_error check_metric (secondaryMetrics obj))"

section \<open>Ranking\<close>

definition compare_values :: "double \<Rightarrow> double \<Rightarrow> bool \<Rightarrow> int" where
  "compare_values left right lower =
     (if double_eq left right then 0 else if double_less left right = lower then -1 else 1)"

definition compare_option :: "double option \<Rightarrow> double option \<Rightarrow> bool \<Rightarrow> int" where
  "compare_option left right lower = (case (left, right) of
       (Some l, Some r) \<Rightarrow> compare_values l r lower
     | _ \<Rightarrow> 0)"

definition metric_of :: "tuning_result \<Rightarrow> string \<Rightarrow> double option" where
  "metric_of r name = mv_value (resolveMetric (tr_metrics r) name)"

text \<open>One metric after the other: a result that has a value goes before one that has none.\<close>

fun rank_by :: "(string \<times> bool) list \<Rightarrow> tuning_result \<Rightarrow> tuning_result \<Rightarrow> bool" where
  "rank_by [] a b \<longleftrightarrow> cand_id (tr_candidate a) < cand_id (tr_candidate b)"
| "rank_by ((name, lower) # ms) a b =
     (let left = metric_of a name; right = metric_of b name in
      if (left = None) \<noteq> (right = None) then left \<noteq> None
      else (let c = compare_option left right lower in
        if c \<noteq> 0 then c < 0 else rank_by ms a b))"

definition objective_metrics :: "search_objective \<Rightarrow> (string \<times> bool) list" where
  "objective_metrics obj = (primaryMetric obj, obj_direction obj = Minimize) #
     map (\<lambda>name. (name, lowerIsBetter name)) (secondaryMetrics obj)"

definition resultRanksBefore :: "search_objective \<Rightarrow> tuning_result \<Rightarrow> tuning_result \<Rightarrow> bool" where
  "resultRanksBefore obj a b = rank_by (objective_metrics obj) a b"

definition rankTuningResults :: "tuning_result list \<Rightarrow> search_objective \<Rightarrow> tuning_result list" where
  "rankTuningResults results obj = sort_by (resultRanksBefore obj) results"

section \<open>Sessions\<close>

text \<open>Binding and analyzing a kernel build and read MLIR operations: \<open>bind\<close> and \<open>analyze\<close> are parameters.
  A provider may answer differently from call to call, so it takes the number of the attempt.\<close>

record 'd ranked_candidate =
  rc_result :: tuning_result
  rc_decisions :: 'd
  rc_measured :: "candidate_metrics option"
  measuredTarget :: string
  measuredMachine :: string
  measuredAbi :: string
  measuredCodegenIdentity :: string

record 'd session_report =
  rep_machinePath :: string
  rep_machineName :: string
  rep_perfLevel :: nat
  generated :: nat
  ranked :: "'d ranked_candidate list"
  unrankable :: "'d ranked_candidate list"
  measuredCohortOnly :: bool
  measuredCohortSize :: nat
  measurementAttempts :: nat
  hasMeasuredResult :: bool
  rejected :: "tuning_result list"
  rep_objective :: search_objective
  rep_schemaVersion :: nat

type_synonym 'k provider = "nat \<Rightarrow> 'k \<Rightarrow> tuning_result \<Rightarrow> (string, candidate_metrics option) expected"

record 'k measurement_options =
  mo_provider :: "'k provider option"
  measureTop :: nat
  mo_maxAttempts :: nat
  targetIdentity :: string
  machineIdentity :: string
  abiIdentity :: string
  codegenIdentity :: string

record 'k session_options =
  so_generator :: generator_options
  so_perfLevel :: nat
  topK :: nat
  so_machinePath :: string
  so_measurement :: "'k measurement_options"

type_synonym ('k, 'd) bind_fun = "candidate \<Rightarrow> (string, 'k \<times> 'd) expected"

definition reject :: "candidate \<Rightarrow> candidate_metrics \<Rightarrow> string \<Rightarrow> 'd session_report \<Rightarrow> 'd session_report" where
  "reject c metrics reason report =
     report\<lparr>rejected := rejected report @ [\<lparr>tr_candidate = c, tr_metrics = metrics, tr_legal = False, rejectionReason = reason\<rparr>]\<rparr>"

text \<open>One candidate of the generation; \<open>None\<close> is a fault of a legality rule.\<close>

definition evaluate_candidate ::
  "search_space \<Rightarrow> workload_shape \<Rightarrow> machine_model \<Rightarrow> ('k, 'd) bind_fun \<Rightarrow> ('k \<Rightarrow> (string, perf_report) expected) \<Rightarrow>
     candidate \<Rightarrow> 'd session_report \<Rightarrow> 'd session_report option" where
  "evaluate_candidate space shape m bind analyze c report = (case checkLegalityShape space c shape m of
       Fault \<Rightarrow> None
     | Illegal reason \<Rightarrow> Some (reject c no_metrics reason report)
     | Legal \<Rightarrow> (case bind c of
           Inl e \<Rightarrow> Some (reject c no_metrics (''binding: '' @ e) report)
         | Inr (krn, decisions) \<Rightarrow> (case analyze krn of
               Inl e \<Rightarrow> Some (reject c no_metrics (''analysis: '' @ e) report)
             | Inr perf \<Rightarrow> Some (report\<lparr>ranked := ranked report @
                 [\<lparr>rc_result = \<lparr>tr_candidate = c, tr_metrics = metricsFrom perf m, tr_legal = True, rejectionReason = []\<rparr>,
                   rc_decisions = decisions, rc_measured = None, measuredTarget = [], measuredMachine = [],
                   measuredAbi = [], measuredCodegenIdentity = []\<rparr>]\<rparr>))))"

primrec evaluate_all ::
  "(candidate \<Rightarrow> 'd session_report \<Rightarrow> 'd session_report option) \<Rightarrow> candidate list \<Rightarrow> 'd session_report \<Rightarrow> 'd session_report option" where
  "evaluate_all f [] report = Some report"
| "evaluate_all f (c # cs) report = (case f c report of None \<Rightarrow> None | Some report \<Rightarrow> evaluate_all f cs report)"

section \<open>Measurement\<close>

definition has_objective_metrics :: "search_objective \<Rightarrow> candidate_metrics \<Rightarrow> bool" where
  "has_objective_metrics obj metrics \<longleftrightarrow>
     list_all (\<lambda>name. mv_value (resolveMetric metrics name) \<noteq> None) (primaryMetric obj # secondaryMetrics obj)"

text \<open>A time must be finite and positive, a rate finite and not negative.\<close>

definition invalid_measurement :: "candidate_metrics \<Rightarrow> bool" where
  "invalid_measurement metrics \<longleftrightarrow>
     (case measuredNs metrics of Some v \<Rightarrow> \<not> is_finite v \<or> double_le v (Finite 0) | None \<Rightarrow> False) \<or>
     (case measuredGflops metrics of Some v \<Rightarrow> \<not> is_finite v \<or> double_less v (Finite 0) | None \<Rightarrow> False)"

definition merge_measured :: "candidate_metrics \<Rightarrow> candidate_metrics \<Rightarrow> candidate_metrics" where
  "merge_measured metrics observed =
     metrics\<lparr>measuredNs := (if measuredNs observed \<noteq> None then measuredNs observed else measuredNs metrics),
       measuredGflops := (if measuredGflops observed \<noteq> None then measuredGflops observed else measuredGflops metrics)\<rparr>"

record 'd measure_state =
  ms_report :: "'d session_report"
  rejectedIndices :: "nat list"
  successfulMeasurements :: nat
  completedCandidates :: nat

definition reject_at :: "nat \<Rightarrow> string \<Rightarrow> 'd measure_state \<Rightarrow> 'd measure_state" where
  "reject_at index reason s =
     (let result = rc_result (ranked (ms_report s) ! index) in
      s\<lparr>ms_report := reject (tr_candidate result) (tr_metrics result) reason (ms_report s),
        rejectedIndices := rejectedIndices s @ [index]\<rparr>)"

definition update_ranked :: "nat \<Rightarrow> ('d ranked_candidate \<Rightarrow> 'd ranked_candidate) \<Rightarrow> 'd measure_state \<Rightarrow> 'd measure_state" where
  "update_ranked index f s =
     s\<lparr>ms_report := (ms_report s)\<lparr>ranked := (ranked (ms_report s))[index := f (ranked (ms_report s) ! index)]\<rparr>\<rparr>"

definition record_measurement :: "'k measurement_options \<Rightarrow> candidate_metrics \<Rightarrow> 'd ranked_candidate \<Rightarrow> 'd ranked_candidate" where
  "record_measurement options observed rc =
     rc\<lparr>rc_result := (rc_result rc)\<lparr>tr_metrics := merge_measured (tr_metrics (rc_result rc)) observed\<rparr>,
        measuredTarget := targetIdentity options, measuredMachine := machineIdentity options,
        measuredAbi := abiIdentity options, measuredCodegenIdentity := codegenIdentity options\<rparr>"

text \<open>One attempt, at a position of the ranked list.\<close>

definition observe_metrics :: "'k measurement_options \<Rightarrow> nat \<Rightarrow> candidate_metrics \<Rightarrow> 'd measure_state \<Rightarrow> 'd measure_state" where
  "observe_metrics options index observed s =
     (let s = update_ranked index (\<lambda>rc. rc\<lparr>rc_measured := Some observed\<rparr>) s in
      if invalid_measurement observed then reject_at index ''measurement: invalid non-finite or out-of-range metric'' s
      else (let s = update_ranked index (record_measurement options observed) s;
                metrics = tr_metrics (rc_result (ranked (ms_report s) ! index)) in
        s\<lparr>successfulMeasurements := successfulMeasurements s +
             (if has_objective_metrics (rep_objective (ms_report s)) metrics then 1 else 0),
          completedCandidates := completedCandidates s + 1\<rparr>))"

definition measure_one ::
  "('k, 'd) bind_fun \<Rightarrow> 'k provider \<Rightarrow> 'k measurement_options \<Rightarrow> bool \<Rightarrow> nat \<Rightarrow> 'd measure_state \<Rightarrow> 'd measure_state" where
  "measure_one bind provider options measuredObjective index s =
     (let s = s\<lparr>ms_report := (ms_report s)\<lparr>measurementAttempts := measurementAttempts (ms_report s) + 1\<rparr>\<rparr>;
          result = rc_result (ranked (ms_report s) ! index) in
      case bind (tr_candidate result) of
        Inl e \<Rightarrow> reject_at index (''measurement binding: '' @ e) s
      | Inr (krn, _) \<Rightarrow> (case provider index krn result of
            Inl e \<Rightarrow> reject_at index (''measurement: '' @ e) s
          | Inr (Some observed) \<Rightarrow> observe_metrics options index observed s
          | Inr None \<Rightarrow> if measuredObjective then s else s\<lparr>completedCandidates := completedCandidates s + 1\<rparr>))"

text \<open>The loop over the positions below the limit, which stops when enough candidates were measured.\<close>

primrec measure_loop ::
  "(nat \<Rightarrow> 'd measure_state \<Rightarrow> 'd measure_state) \<Rightarrow> bool \<Rightarrow> nat \<Rightarrow> nat \<Rightarrow> nat \<Rightarrow> 'd measure_state \<Rightarrow> 'd measure_state" where
  "measure_loop attempt measuredObjective enough 0 index s = s"
| "measure_loop attempt measuredObjective enough (Suc n) index s =
     (if (if measuredObjective then successfulMeasurements s < enough else completedCandidates s < enough)
      then measure_loop attempt measuredObjective enough n (index + 1) (attempt index s) else s)"

definition erase_at :: "nat \<Rightarrow> 'a list \<Rightarrow> 'a list" where
  "erase_at i xs = take i xs @ drop (Suc i) xs"

definition measureTopCandidates ::
  "('k, 'd) bind_fun \<Rightarrow> 'd session_report \<Rightarrow> 'k measurement_options \<Rightarrow> 'd session_report" where
  "measureTopCandidates bind report options = (case mo_provider options of
       None \<Rightarrow> report
     | Some provider \<Rightarrow>
         if measureTop options = 0 then report
         else (let measuredObjective = objectiveUsesMeasuredMetric (rep_objective report);
                   limit = (if mo_maxAttempts options \<noteq> 0 then min (mo_maxAttempts options) (length (ranked report))
                            else length (ranked report));
                   s = measure_loop (measure_one bind provider options measuredObjective) measuredObjective (measureTop options)
                     limit 0 \<lparr>ms_report = report, rejectedIndices = [], successfulMeasurements = 0, completedCandidates = 0\<rparr>
               in (ms_report s)\<lparr>ranked := fold erase_at (rev (rejectedIndices s)) (ranked (ms_report s))\<rparr>))"

section \<open>The cohort and the session\<close>

definition unavailable :: string where
  "unavailable = ''measurement_unavailable: candidate has no value for every objective metric''"

text \<open>The loop that moves the candidates without a value from \<open>ranked\<close> to \<open>unrankable\<close>.\<close>

fun split_cohort :: "search_objective \<Rightarrow> 'd ranked_candidate list \<Rightarrow> 'd session_report \<Rightarrow> 'd session_report" where
  "split_cohort obj [] report = report"
| "split_cohort obj (rc # rcs) report =
     (if has_objective_metrics obj (tr_metrics (rc_result rc))
      then split_cohort obj rcs (report\<lparr>ranked := ranked report @ [rc], measuredCohortSize := measuredCohortSize report + 1\<rparr>)
      else split_cohort obj rcs (report\<lparr>unrankable := unrankable report @
        [rc\<lparr>rc_result := (rc_result rc)\<lparr>rejectionReason := unavailable\<rparr>\<rparr>]\<rparr>))"

definition rc_before :: "search_objective \<Rightarrow> 'd ranked_candidate \<Rightarrow> 'd ranked_candidate \<Rightarrow> bool" where
  "rc_before obj a b = resultRanksBefore obj (rc_result a) (rc_result b)"

definition measured_cohort :: "search_objective \<Rightarrow> 'd session_report \<Rightarrow> 'd session_report" where
  "measured_cohort obj report =
     (let report = split_cohort obj (ranked report) (report\<lparr>measuredCohortOnly := True, ranked := []\<rparr>) in
      report\<lparr>hasMeasuredResult := ranked report \<noteq> [], ranked := sort_by (rc_before obj) (ranked report)\<rparr>)"

definition empty_report :: "search_space \<Rightarrow> machine_model \<Rightarrow> 'k session_options \<Rightarrow> nat \<Rightarrow> 'd session_report" where
  "empty_report space m options number =
     \<lparr>rep_machinePath = so_machinePath options, rep_machineName = target m, rep_perfLevel = so_perfLevel options,
      generated = number, ranked = [], unrankable = [], measuredCohortOnly = False, measuredCohortSize = 0,
      measurementAttempts = 0, hasMeasuredResult = False, rejected = [], rep_objective = space_objective space,
      rep_schemaVersion = 2\<rparr>"

text \<open>The part of the session after the evaluation of the candidates.\<close>

definition conclude :: "search_objective \<Rightarrow> ('k, 'd) bind_fun \<Rightarrow> 'k session_options \<Rightarrow> 'd session_report \<Rightarrow> 'd session_report" where
  "conclude obj bind options report =
     (let report = report\<lparr>ranked := sort_by (rc_before obj) (ranked report)\<rparr>;
          report = measureTopCandidates bind report (so_measurement options);
          report = (if objectiveUsesMeasuredMetric obj then measured_cohort obj report else report)
      in if topK options \<noteq> 0 \<and> length (ranked report) > topK options
         then report\<lparr>ranked := take (topK options) (ranked report)\<rparr> else report)"

definition runTuningSession ::
  "search_space \<Rightarrow> workload_shape \<Rightarrow> machine_model \<Rightarrow> ('k, 'd) bind_fun \<Rightarrow> ('k \<Rightarrow> (string, perf_report) expected) \<Rightarrow>
     'k session_options \<Rightarrow> (string, 'd session_report) expected option" where
  "runTuningSession space shape m bind analyze options =
     (if so_perfLevel options > 1 then Some (Inl ''unsupported performance level; the tuner knows 0 and 1'')
      else (case validateObjective (space_objective space) of
          Some e \<Rightarrow> Some (Inl e)
        | None \<Rightarrow>
            if objectiveUsesMeasuredMetric (space_objective space) \<and> mo_provider (so_measurement options) = None
            then Some (Inl ''a measured objective requires a measurement provider'')
            else (case generateCandidates space (so_generator options) of
                None \<Rightarrow> None
              | Some candidates \<Rightarrow>
                  map_option (\<lambda>report. Inr (conclude (space_objective space) bind options report))
                    (evaluate_all (evaluate_candidate space shape m bind analyze) candidates
                      (empty_report space m options (length candidates))))))"

section \<open>Schedule records\<close>

text \<open>The fields of a schedule record that a session sets; the others keep their initial values.\<close>

record 'd schedule_record =
  sr_workload :: string
  sr_shape :: workload_shape
  sr_target :: string
  sr_machine :: string
  sr_candidate :: candidate
  sr_tile :: 'd
  sr_metrics :: candidate_metrics
  sr_perfLevel :: nat

definition buildScheduleRecords :: "'d session_report \<Rightarrow> search_space \<Rightarrow> workload_shape \<Rightarrow> 'd schedule_record list" where
  "buildScheduleRecords report space shape =
     map (\<lambda>rc. \<lparr>sr_workload = space_workload space, sr_shape = shape, sr_target = rep_machineName report,
         sr_machine = rep_machinePath report, sr_candidate = tr_candidate (rc_result rc), sr_tile = rc_decisions rc,
         sr_metrics = tr_metrics (rc_result rc), sr_perfLevel = rep_perfLevel report\<rparr>) (ranked report)"

end
