(* ===== verification/TuningCorrect.thy ===== *)
theory TuningCorrect
  imports Tuning LegalityCorrect "HOL-Library.Sublist"
begin

text \<open>
  Correctness of tuning sessions: the ranking is a strict weak order, the phases of a session only
  move candidates between its lists, so every generated candidate is accounted for, and the report
  is ordered best first.
\<close>

section \<open>The ranking is an order\<close>

lemma metric_of_finite: "metric_of r name = Some v \<Longrightarrow> is_finite v"
  by (auto simp: metric_of_def resolveMetric_def Let_def split: option.splits if_splits)

text \<open>One metric of an objective: \<open>metric_ahead\<close> is strict, \<open>metric_level\<close> its equivalence.\<close>

fun value_ahead :: "bool \<Rightarrow> double option \<Rightarrow> double option \<Rightarrow> bool" where
  "value_ahead lower (Some l) (Some r) = (if lower then double_less l r else double_less r l)"
| "value_ahead lower (Some l) None = True"
| "value_ahead lower None v = False"

fun value_level :: "double option \<Rightarrow> double option \<Rightarrow> bool" where
  "value_level (Some l) (Some r) = double_eq l r"
| "value_level None None = True"
| "value_level _ _ = False"

lemma finite_order:
  "\<not> double_less a a"
  "double_less a b \<Longrightarrow> double_less b c \<Longrightarrow> double_less a c"
  "double_less a b \<Longrightarrow> double_eq b c \<Longrightarrow> double_less a c"
  "double_eq a b \<Longrightarrow> double_less b c \<Longrightarrow> double_less a c"
  "double_eq a b \<Longrightarrow> double_eq b c \<Longrightarrow> double_eq a c"
  "double_eq a b \<Longrightarrow> double_eq b a"
  "double_less a b \<Longrightarrow> \<not> double_eq a b"
  "double_less a b \<Longrightarrow> \<not> double_eq b a"
  by (auto simp: double_less_def double_eq_def)

lemma metric_value_order:
  "\<not> value_ahead l a a"
  "value_ahead l a b \<Longrightarrow> value_ahead l b c \<Longrightarrow> value_ahead l a c"
  "value_ahead l a b \<Longrightarrow> value_level b c \<Longrightarrow> value_ahead l a c"
  "value_level a b \<Longrightarrow> value_ahead l b c \<Longrightarrow> value_ahead l a c"
  "value_level a b \<Longrightarrow> value_level b c \<Longrightarrow> value_level a c"
  "value_level a b \<Longrightarrow> value_level b a"
  "value_ahead l a b \<Longrightarrow> \<not> value_level a b"
  by (cases a; cases b; cases c; cases l; simp add: finite_order(1); (metis finite_order)?)+

lemma double_asym: "double_less a b \<Longrightarrow> \<not> double_less b a"
  using finite_order(1,2) by blast

lemma double_compared: "is_finite a \<Longrightarrow> is_finite b \<Longrightarrow> double_less a b \<or> double_eq a b \<or> double_less b a"
  by (cases a; cases b) (auto simp: double_less_def double_eq_def)

lemma value_compared:
  "(\<And>v. a = Some v \<Longrightarrow> is_finite v) \<Longrightarrow> (\<And>v. b = Some v \<Longrightarrow> is_finite v) \<Longrightarrow>
     value_ahead l a b \<or> value_level a b \<or> value_ahead l b a"
  using double_compared [of "the a" "the b"] finite_order(6) by (cases a; cases b; cases l) auto

definition metric_ahead :: "string \<times> bool \<Rightarrow> tuning_result \<Rightarrow> tuning_result \<Rightarrow> bool" where
  "metric_ahead m a b \<longleftrightarrow> value_ahead (snd m) (metric_of a (fst m)) (metric_of b (fst m))"

definition metric_level :: "string \<times> bool \<Rightarrow> tuning_result \<Rightarrow> tuning_result \<Rightarrow> bool" where
  "metric_level m a b \<longleftrightarrow> value_level (metric_of a (fst m)) (metric_of b (fst m))"

interpretation tuning: ranking metric_ahead metric_level
  unfolding metric_ahead_def metric_level_def
  by unfold_locales (rule metric_value_order; assumption)+

lemma metric_compared: "metric_ahead m a b \<or> metric_level m a b \<or> metric_ahead m b a"
  unfolding metric_ahead_def metric_level_def by (intro value_compared metric_of_finite)

definition id_of :: "tuning_result \<Rightarrow> string" where
  "id_of r = cand_id (tr_candidate r)"

lemma rank_by_ranks: "rank_by ms a b \<longleftrightarrow> tuning.ranks ms a (id_of a) b (id_of b)"
proof (induction ms)
  case Nil
  then show ?case by (simp add: tuning.ranks_def id_of_def)
next
  case (Cons m ms)
  obtain name lower where m: "m = (name, lower)" by (cases m)
  have step: "rank_by (m # ms) a b \<longleftrightarrow> metric_ahead m a b \<or> (metric_level m a b \<and> rank_by ms a b)"
    using double_compared [OF metric_of_finite [of a name] metric_of_finite [of b name]]
    by (cases "metric_of a name"; cases "metric_of b name"; cases lower)
      (auto simp: m metric_ahead_def metric_level_def compare_option_def compare_values_def Let_def
        dest: finite_order(7,8) double_asym)
  show ?case unfolding step Cons.IH
    using tuning.before_not_same [of m a b] by (auto simp: tuning.ranks_def)
qed

lemma rank_by_trans: "rank_by ms a b \<Longrightarrow> rank_by ms b c \<Longrightarrow> rank_by ms a c"
  unfolding rank_by_ranks by (rule tuning.ranks_trans)

lemma rank_by_irrefl: "\<not> rank_by ms a a"
  unfolding rank_by_ranks by (rule tuning.ranks_irrefl)

lemma rank_by_negative: "rank_by ms c a \<Longrightarrow> rank_by ms c b \<or> rank_by ms b a"
  unfolding rank_by_ranks tuning.ranks_def
  using tuning.lex_total [OF metric_compared, of ms a b] tuning.tied_sym [of ms b a]
    tuning.lex_trans [of ms c a b] tuning.lex_tied [of ms c a b] tuning.tied_lex [of ms c a b]
    tuning.tied_trans [of ms c a b] less_trans [of "id_of c" "id_of a" "id_of b"]
    less_linear [of "id_of b" "id_of a"] tuning.tied_sym [of ms a b]
  by (metis (no_types, lifting))

text \<open>A stable sort by such an order leaves no element before one that ranks ahead of it.\<close>

definition best_first :: "('a \<Rightarrow> 'a \<Rightarrow> bool) \<Rightarrow> 'a list \<Rightarrow> bool" where
  "best_first lt xs \<longleftrightarrow> sorted_wrt (\<lambda>a b. \<not> lt b a) xs"

lemma insert_best_first:
  assumes "\<And>a b c. lt c a \<Longrightarrow> lt c b \<or> lt b a" "\<And>a b. lt a b \<Longrightarrow> \<not> lt b a" "best_first lt xs"
  shows "best_first lt (insert_by lt x xs)"
  using assms(3)
proof (induction xs)
  case (Cons y ys)
  then show ?case using assms(1) [of _ x y] assms(2) [of y x] by (auto simp: best_first_def)
qed (simp add: best_first_def)

lemma sort_best_first:
  assumes "\<And>a b c. lt c a \<Longrightarrow> lt c b \<or> lt b a" "\<And>a b. lt a b \<Longrightarrow> \<not> lt b a"
  shows "best_first lt (sort_by lt xs)"
  unfolding sort_by_def
  by (induction xs) (simp add: best_first_def, simp, rule insert_best_first [OF assms])

lemma mset_insert_by: "mset (insert_by lt x xs) = add_mset x (mset xs)"
  by (induction xs) auto

lemma mset_sort_by [simp]: "mset (sort_by lt xs) = mset xs"
  unfolding sort_by_def by (induction xs) (auto simp: mset_insert_by)

lemma sort_by_empty [simp]: "sort_by lt xs = [] \<longleftrightarrow> xs = []"
  by (metis length_0_conv length_sort_by)

lemma ranked_best_first: "best_first (rc_before obj) (sort_by (rc_before obj) rcs)"
  by (rule sort_best_first)
    (auto simp: rc_before_def resultRanksBefore_def dest: rank_by_negative, metis rank_by_trans rank_by_irrefl)


section \<open>Evaluation\<close>

text \<open>What the rules, the binding and the analysis say of one candidate.\<close>

definition verdict_on ::
  "search_space \<Rightarrow> workload_shape \<Rightarrow> machine_model \<Rightarrow> ('k, 'd) bind_fun \<Rightarrow> ('k \<Rightarrow> (string, perf_report) expected) \<Rightarrow>
     candidate \<Rightarrow> (string, 'd \<times> candidate_metrics) expected" where
  "verdict_on space shape m bind analyze c = (case checkLegalityShape space c shape m of
       Illegal reason \<Rightarrow> Inl reason
     | _ \<Rightarrow> (case bind c of
           Inl e \<Rightarrow> Inl (''binding: '' @ e)
         | Inr (krn, decisions) \<Rightarrow> (case analyze krn of
               Inl e \<Rightarrow> Inl (''analysis: '' @ e)
             | Inr perf \<Rightarrow> Inr (decisions, metricsFrom perf m))))"

definition rejected_as :: "candidate \<Rightarrow> candidate_metrics \<Rightarrow> string \<Rightarrow> tuning_result" where
  "rejected_as c metrics reason = \<lparr>tr_candidate = c, tr_metrics = metrics, tr_legal = False, rejectionReason = reason\<rparr>"

definition ranked_as :: "candidate \<Rightarrow> 'd \<times> candidate_metrics \<Rightarrow> 'd ranked_candidate" where
  "ranked_as c v = \<lparr>rc_result = \<lparr>tr_candidate = c, tr_metrics = snd v, tr_legal = True, rejectionReason = []\<rparr>,
     rc_decisions = fst v, rc_measured = None, measuredTarget = [], measuredMachine = [], measuredAbi = [],
     measuredCodegenIdentity = []\<rparr>"

definition candidate_of :: "'d ranked_candidate \<Rightarrow> candidate" where
  "candidate_of rc = tr_candidate (rc_result rc)"

lemma candidate_simps [simp]:
  "candidate_of (ranked_as c v) = c" "tr_candidate (rejected_as c metrics reason) = c"
  "\<not> tr_legal (rejected_as c metrics reason)" "tr_legal (rc_result (ranked_as c v))"
  by (simp_all add: candidate_of_def ranked_as_def rejected_as_def)

definition accepted_of :: "(candidate \<Rightarrow> (string, 'd \<times> candidate_metrics) expected) \<Rightarrow> candidate list \<Rightarrow> 'd ranked_candidate list" where
  "accepted_of verdict cs = concat (map (\<lambda>c. case verdict c of Inr v \<Rightarrow> [ranked_as c v] | Inl _ \<Rightarrow> []) cs)"

definition refused_of :: "(candidate \<Rightarrow> (string, 'd \<times> candidate_metrics) expected) \<Rightarrow> candidate list \<Rightarrow> tuning_result list" where
  "refused_of verdict cs = concat (map (\<lambda>c. case verdict c of Inl e \<Rightarrow> [rejected_as c no_metrics e] | Inr _ \<Rightarrow> []) cs)"

lemma split_of_simps [simp]:
  "accepted_of verdict [] = []" "refused_of verdict [] = []"
  "accepted_of verdict (c # cs) = (case verdict c of Inr v \<Rightarrow> [ranked_as c v] | Inl _ \<Rightarrow> []) @ accepted_of verdict cs"
  "refused_of verdict (c # cs) = (case verdict c of Inl e \<Rightarrow> [rejected_as c no_metrics e] | Inr _ \<Rightarrow> []) @ refused_of verdict cs"
  by (simp_all add: accepted_of_def refused_of_def)

lemma evaluate_candidate_verdict:
  assumes "evaluate_candidate space shape m bind analyze c report = Some report'"
  shows "report' = (case verdict_on space shape m bind analyze c of
      Inl e \<Rightarrow> report\<lparr>rejected := rejected report @ [rejected_as c no_metrics e]\<rparr>
    | Inr v \<Rightarrow> report\<lparr>ranked := ranked report @ [ranked_as c v]\<rparr>)"
    and "checkLegalityShape space c shape m \<noteq> Fault"
  using assms
  by (auto simp: evaluate_candidate_def verdict_on_def rejected_as_def ranked_as_def reject_def
      split: verdict.splits sum.splits prod.splits)

lemma evaluate_all_verdicts:
  assumes "evaluate_all (evaluate_candidate space shape m bind analyze) cs report = Some report'"
  shows "report' = report\<lparr>ranked := ranked report @ accepted_of (verdict_on space shape m bind analyze) cs,
      rejected := rejected report @ refused_of (verdict_on space shape m bind analyze) cs\<rparr>"
    and "\<forall>c \<in> set cs. checkLegalityShape space c shape m \<noteq> Fault"
  using assms
proof (induction cs arbitrary: report)
  case (Cons c cs)
  {
    case 1
    then show ?case
      by (auto split: option.splits sum.splits dest!: evaluate_candidate_verdict(1) Cons.IH(1))
  next
    case 2
    then show ?case using Cons.IH(2) by (auto split: option.splits dest: evaluate_candidate_verdict(2))
  }
qed simp_all

lemma split_accounts:
  "mset (map candidate_of (accepted_of verdict cs)) + mset (map tr_candidate (refused_of verdict cs)) = mset cs"
  by (induction cs) (auto split: sum.splits)

lemma refused_in_order: "subseq (map tr_candidate (refused_of verdict cs)) cs"
  by (induction cs) (auto split: sum.splits)

lemma refused_filter:
  "map tr_candidate (refused_of verdict cs) = filter (\<lambda>c. case verdict c of Inl _ \<Rightarrow> True | Inr _ \<Rightarrow> False) cs"
  by (induction cs) (auto split: sum.splits)

lemma refused_illegal: "r \<in> set (refused_of verdict cs) \<Longrightarrow> \<not> tr_legal r"
  by (induction cs) (auto split: sum.splits)

lemma accepted_verdict: "rc \<in> set (accepted_of verdict cs) \<Longrightarrow> \<exists>c v. c \<in> set cs \<and> verdict c = Inr v \<and> rc = ranked_as c v"
proof -
  assume "rc \<in> set (accepted_of verdict cs)"
  then obtain c where "c \<in> set cs" "rc \<in> set (case verdict c of Inr v \<Rightarrow> [ranked_as c v] | Inl _ \<Rightarrow> [])"
    by (auto simp: accepted_of_def)
  then show ?thesis by (cases "verdict c") auto
qed

section \<open>Measurement\<close>

text \<open>The measured fields aside, a ranked candidate is what the analysis said.\<close>

definition static_part :: "'d ranked_candidate \<Rightarrow> tuning_result" where
  "static_part rc = (rc_result rc)\<lparr>tr_metrics := (tr_metrics (rc_result rc))\<lparr>measuredNs := None, measuredGflops := None\<rparr>\<rparr>"

lemma static_part_merge [simp]:
  "static_part (record_measurement options observed rc) = static_part rc"
  "static_part (rc\<lparr>rc_measured := x\<rparr>) = static_part rc"
  by (simp_all add: static_part_def record_measurement_def merge_measured_def)

text \<open>What one attempt keeps of the state, for the ranked candidates \<open>rk\<close> the measurement starts with.\<close>

definition measuring :: "'d ranked_candidate list \<Rightarrow> 'd session_report \<Rightarrow> nat \<Rightarrow> 'd measure_state \<Rightarrow> bool" where
  "measuring rk start index s \<longleftrightarrow>
     map static_part (ranked (ms_report s)) = map static_part rk \<and>
     list_all (\<lambda>rc. \<not> invalid_measurement (tr_metrics (rc_result rc))) (ranked (ms_report s)) \<and>
     (\<forall>i. index \<le> i \<and> i < length rk \<longrightarrow> ranked (ms_report s) ! i = rk ! i) \<and>
     sorted_wrt (<) (rejectedIndices s) \<and> (\<forall>i \<in> set (rejectedIndices s). i < index) \<and>
     (\<exists>late. rejected (ms_report s) = rejected start @ late \<and>
        map tr_candidate late = map (\<lambda>i. candidate_of (rk ! i)) (rejectedIndices s) \<and> (\<forall>r \<in> set late. \<not> tr_legal r)) \<and>
     ms_report s = start\<lparr>ranked := ranked (ms_report s), rejected := rejected (ms_report s),
       measurementAttempts := measurementAttempts start + index\<rparr>"

lemma candidate_static: "candidate_of rc = tr_candidate (static_part rc)"
  by (simp add: candidate_of_def static_part_def)

lemma measuring_length: "measuring rk start index s \<Longrightarrow> length (ranked (ms_report s)) = length rk"
  by (auto simp: measuring_def dest: map_eq_imp_length_eq)

lemma measuring_candidate:
  assumes "measuring rk start index s" "i < length rk"
  shows "candidate_of (ranked (ms_report s) ! i) = candidate_of (rk ! i)"
proof -
  have "map static_part (ranked (ms_report s)) ! i = map static_part rk ! i" using assms(1) by (simp add: measuring_def)
  then show ?thesis using assms(2) measuring_length [OF assms(1)] by (simp add: candidate_static)
qed

lemma valid_merge:
  "\<not> invalid_measurement a \<Longrightarrow> \<not> invalid_measurement b \<Longrightarrow> \<not> invalid_measurement (merge_measured a b)"
  by (auto simp: invalid_measurement_def merge_measured_def split: option.splits if_splits)

text \<open>The three ways an attempt changes the state.\<close>

lemma measuring_attempt:
  assumes "measuring rk start index s"
  shows "measuring rk start (Suc index)
    (s\<lparr>ms_report := (ms_report s)\<lparr>measurementAttempts := Suc (measurementAttempts (ms_report s))\<rparr>\<rparr>)"
  using assms by (cases "ms_report s") (auto simp: measuring_def)

lemma measuring_counters [simp]:
  "measuring rk start index (s\<lparr>successfulMeasurements := a\<rparr>) \<longleftrightarrow> measuring rk start index s"
  "measuring rk start index (s\<lparr>completedCandidates := b\<rparr>) \<longleftrightarrow> measuring rk start index s"
  by (simp_all add: measuring_def)

lemma measuring_reject:
  assumes "measuring rk start (Suc index) s" "index < length rk" "\<forall>i \<in> set (rejectedIndices s). i < index"
  shows "measuring rk start (Suc index) (reject_at index reason s)"
proof -
  have c: "tr_candidate (rc_result (ranked (ms_report s) ! index)) = candidate_of (rk ! index)"
    using measuring_candidate [OF assms(1,2)] by (simp add: candidate_of_def)
  obtain late where late: "rejected (ms_report s) = rejected start @ late"
      "map tr_candidate late = map (\<lambda>i. candidate_of (rk ! i)) (rejectedIndices s)" "\<forall>r \<in> set late. \<not> tr_legal r"
    using assms(1) by (auto simp: measuring_def)
  let ?r = "rejected_as (candidate_of (rk ! index)) (tr_metrics (rc_result (ranked (ms_report s) ! index))) reason"
  have new: "reject_at index reason s =
      s\<lparr>ms_report := (ms_report s)\<lparr>rejected := rejected start @ late @ [?r]\<rparr>, rejectedIndices := rejectedIndices s @ [index]\<rparr>"
    by (simp add: reject_at_def reject_def Let_def c late(1) rejected_as_def)
  have "\<exists>late'. rejected start @ late @ [?r] = rejected start @ late' \<and>
      map tr_candidate late' = map (\<lambda>i. candidate_of (rk ! i)) (rejectedIndices s @ [index]) \<and> (\<forall>r \<in> set late'. \<not> tr_legal r)"
    using late by (intro exI [of _ "late @ [?r]"]) auto
  then show ?thesis using assms unfolding new measuring_def
    by (cases "ms_report s") (auto simp: sorted_wrt_append)
qed

lemma measuring_update:
  assumes "measuring rk start (Suc index) s" "index < length rk"
    and "\<And>rc. static_part (f rc) = static_part rc"
    and "\<not> invalid_measurement (tr_metrics (rc_result (f (ranked (ms_report s) ! index))))"
  shows "measuring rk start (Suc index) (update_ranked index f s)"
proof -
  have "map static_part ((ranked (ms_report s))[index := f (ranked (ms_report s) ! index)]) = map static_part (ranked (ms_report s))"
    using assms(2,3) measuring_length [OF assms(1)] by (simp add: map_update list_update_same_conv)
  moreover have "list_all (\<lambda>rc. \<not> invalid_measurement (tr_metrics (rc_result rc)))
      ((ranked (ms_report s))[index := f (ranked (ms_report s) ! index)])"
    using assms(1,4) by (auto simp: measuring_def list_all_iff dest!: set_update_subset_insert [THEN subsetD])
  ultimately show ?thesis using assms(1) unfolding measuring_def update_ranked_def
    by (cases "ms_report s") auto
qed

lemma update_ranked_keeps [simp]:
  "rejectedIndices (update_ranked index f s) = rejectedIndices s"
  "index < length (ranked (ms_report s)) \<Longrightarrow> ranked (ms_report (update_ranked index f s)) ! index = f (ranked (ms_report s) ! index)"
  by (simp_all add: update_ranked_def)

lemma measuring_observe:
  assumes "measuring rk start (Suc index) s" "index < length rk" "\<forall>i \<in> set (rejectedIndices s). i < index"
  shows "measuring rk start (Suc index) (observe_metrics options index observed s)"
proof -
  have len: "index < length (ranked (ms_report s))" using assms(2) measuring_length [OF assms(1)] by simp
  then have valid: "\<not> invalid_measurement (tr_metrics (rc_result (ranked (ms_report s) ! index)))"
    using assms(1) by (auto simp: measuring_def list_all_length)
  let ?s = "update_ranked index (\<lambda>rc. rc\<lparr>rc_measured := Some observed\<rparr>) s"
  have s: "measuring rk start (Suc index) ?s"
    by (rule measuring_update) (use assms valid in simp_all)
  have "measuring rk start (Suc index) (reject_at index reason ?s)" for reason
    by (rule measuring_reject) (use s assms in simp_all)
  moreover have "measuring rk start (Suc index) (update_ranked index (record_measurement options observed) ?s)"
    if "\<not> invalid_measurement observed"
    by (rule measuring_update)
      (use s assms len that valid in \<open>simp_all add: record_measurement_def valid_merge\<close>,
        simp_all only: record_measurement_def [symmetric] static_part_merge)
  ultimately show ?thesis by (simp add: observe_metrics_def Let_def)
qed

lemma measuring_one:
  assumes "measuring rk start index s" "index < length rk"
  shows "measuring rk start (Suc index) (measure_one bind provider options measuredObjective index s)"
proof -
  let ?s = "s\<lparr>ms_report := (ms_report s)\<lparr>measurementAttempts := Suc (measurementAttempts (ms_report s))\<rparr>\<rparr>"
  have s: "measuring rk start (Suc index) ?s" by (rule measuring_attempt [OF assms(1)])
  have "\<forall>i \<in> set (rejectedIndices s). i < index" using assms(1) by (simp add: measuring_def)
  then have steps: "measuring rk start (Suc index) (reject_at index reason ?s)"
    "measuring rk start (Suc index) (observe_metrics options index observed ?s)" for reason observed
    by (intro measuring_reject measuring_observe s assms(2); simp)+
  show ?thesis using s
    by (auto simp: measure_one_def Let_def steps split: sum.splits prod.splits option.splits)
qed

lemma measure_loop_measuring:
  assumes "measuring rk start index s" "index + n \<le> length rk"
  shows "\<exists>j. index \<le> j \<and> j \<le> index + n \<and>
    measuring rk start j (measure_loop (measure_one bind provider options measuredObjective) measuredObjective enough n index s)"
  using assms
proof (induction n arbitrary: index s)
  case (Suc n)
  show ?case
  proof (cases "if measuredObjective then successfulMeasurements s < enough else completedCandidates s < enough")
    case True
    have "measuring rk start (index + 1) (measure_one bind provider options measuredObjective index s)"
      using measuring_one [OF Suc.prems(1), of bind provider options measuredObjective] Suc.prems(2) by simp
    from Suc.IH [OF this] Suc.prems(2) obtain j where "index + 1 \<le> j" "j \<le> index + 1 + n"
      "measuring rk start j (measure_loop (measure_one bind provider options measuredObjective) measuredObjective enough n (index + 1)
        (measure_one bind provider options measuredObjective index s))" by auto
    then show ?thesis using True by (intro exI [of _ j]) simp
  next
    case False
    then show ?thesis using Suc.prems(1) by (intro exI [of _ index]) simp
  qed
qed auto

section \<open>The removal of rejected positions\<close>

lemma erase_at_nths: "erase_at i xs = nths xs (- {i})"
proof (induction xs arbitrary: i)
  case (Cons x xs)
  have "nths xs {j. Suc j \<noteq> i} = (if i = 0 then xs else nths xs (- {i - 1}))"
    by (cases i) (auto simp: nths_all intro: arg_cong [of _ _ "nths xs"])
  then show ?case using Cons.IH [of "i - 1"]
    by (cases i) (simp_all add: erase_at_def nths_Cons)
qed (simp add: erase_at_def)

lemma nths_erase: "\<forall>j \<in> A. i < j \<Longrightarrow> nths (nths xs (- A)) (- {i}) = nths xs (- insert i A)"
proof (induction xs arbitrary: i A)
  case (Cons x xs)
  show ?case
  proof (cases i)
    case 0
    with Cons.prems have "0 \<notin> A" by auto
    then show ?thesis using 0 by (simp add: nths_Cons nths_all)
  next
    case (Suc k)
    with Cons.prems have z: "0 \<notin> A" and above: "\<forall>j \<in> {j. Suc j \<in> A}. k < j" by auto
    have sets: "{j. Suc j \<in> - A} = - {j. Suc j \<in> A}" "{j. Suc j \<in> - {Suc k}} = - {k}"
      "{j. Suc j \<in> - insert (Suc k) A} = - insert k {j. Suc j \<in> A}" by auto
    have zs: "0 \<in> - A" "0 \<in> - {Suc k}" using z by auto
    have "nths (nths (x # xs) (- A)) (- {i}) = x # nths (nths xs (- {j. Suc j \<in> A})) (- {k})"
      using z by (simp add: nths_Cons sets Suc zs del: Compl_iff)
    moreover have "nths (x # xs) (- insert i A) = x # nths xs (- insert k {j. Suc j \<in> A})"
      unfolding nths_Cons sets Suc using z by simp
    ultimately show ?thesis by (simp only: Cons.IH [OF above])
  qed
qed simp

lemma erase_sorted:
  assumes "sorted_wrt (<) is"
  shows "fold erase_at (rev is) xs = nths xs (- set is)"
  using assms
proof (induction "is")
  case (Cons i "is")
  then show ?case using nths_erase [of "set is" i xs] by (simp add: erase_at_nths)
qed (simp add: nths_all)

lemma nths_split: "mset (nths xs (- A)) + mset (nths xs A) = mset xs"
  by (induction xs arbitrary: A) (auto simp: nths_Cons Collect_neg_eq)

lemma nths_positions: "nths xs A = map (\<lambda>i. xs ! i) (filter (\<lambda>i. i \<in> A) [0..<length xs])"
proof -
  have "zip xs [0..<length xs] = map (\<lambda>i. (xs ! i, i)) [0..<length xs]" by (rule nth_equalityI) auto
  then show ?thesis by (simp add: nths_def filter_map comp_def)
qed

lemma nths_map_sorted:
  assumes "sorted_wrt (<) is" "\<forall>i \<in> set is. i < length xs"
  shows "map (\<lambda>i. xs ! i) is = nths xs (set is)"
proof -
  have "filter (\<lambda>i. i \<in> set is) [0..<length xs] = is"
    by (rule sorted_distinct_set_unique) (use assms in \<open>auto simp: strict_sorted_iff sorted_wrt_filter\<close>)
  then show ?thesis by (simp add: nths_positions)
qed

lemma sorted_wrt_subseq: "subseq xs ys \<Longrightarrow> sorted_wrt P ys \<Longrightarrow> sorted_wrt P xs"
  by (induction rule: list_emb.induct) (auto dest: list_emb_set)

lemma map_candidate_static: "map candidate_of rcs = map tr_candidate (map static_part rcs)"
  by (simp add: candidate_static)

text \<open>The measurement moves a sublist of the ranking to the rejections and keeps the rest in order.\<close>

lemma measurement_phase:
  assumes "list_all (\<lambda>rc. \<not> invalid_measurement (tr_metrics (rc_result rc))) (ranked report)"
  obtains R late n where
    "measureTopCandidates bind report options =
       report\<lparr>ranked := R, rejected := rejected report @ late, measurementAttempts := measurementAttempts report + n\<rparr>"
    "mset (map candidate_of R) + mset (map tr_candidate late) = mset (map candidate_of (ranked report))"
    "subseq (map static_part R) (map static_part (ranked report))"
    "subseq (map tr_candidate late) (map candidate_of (ranked report))"
    "\<forall>r \<in> set late. \<not> tr_legal r"
    "list_all (\<lambda>rc. \<not> invalid_measurement (tr_metrics (rc_result rc))) R"
    "n \<le> length (ranked report)" "mo_maxAttempts options \<noteq> 0 \<Longrightarrow> n \<le> mo_maxAttempts options"
    "mo_provider options = None \<or> measureTop options = 0 \<Longrightarrow> R = ranked report \<and> n = 0"
proof (cases "mo_provider options = None \<or> measureTop options = 0")
  case True
  then have "measureTopCandidates bind report options = report" by (auto simp: measureTopCandidates_def split: option.splits)
  then show ?thesis using assms by (intro that [where R = "ranked report" and late = "[]" and n = 0]) simp_all
next
  case False
  then obtain provider where provider: "mo_provider options = Some provider" "measureTop options \<noteq> 0" by auto
  define rk where "rk = ranked report"
  define limit where "limit = (if mo_maxAttempts options \<noteq> 0 then min (mo_maxAttempts options) (length rk) else length rk)"
  have limit: "limit \<le> length rk" by (simp add: limit_def)
  let ?mo = "objectiveUsesMeasuredMetric (rep_objective report)"
  let ?s0 = "\<lparr>ms_report = report, rejectedIndices = [], successfulMeasurements = 0, completedCandidates = 0\<rparr>"
  define s where "s = measure_loop (measure_one bind provider options ?mo) ?mo (measureTop options) limit 0 ?s0"
  have "measuring rk report 0 ?s0" using assms by (auto simp: measuring_def rk_def)
  from measure_loop_measuring [OF this, of limit bind provider options ?mo "measureTop options"] limit
  obtain n where n: "n \<le> limit" "measuring rk report n s" unfolding s_def by auto
  let ?dead = "set (rejectedIndices s)"
  define R where "R = nths (ranked (ms_report s)) (- ?dead)"
  obtain late where late: "rejected (ms_report s) = rejected report @ late"
      "map tr_candidate late = map (\<lambda>i. candidate_of (rk ! i)) (rejectedIndices s)" "\<forall>r \<in> set late. \<not> tr_legal r"
    using n(2) by (auto simp: measuring_def)
  have sorted: "sorted_wrt (<) (rejectedIndices s)" and bound: "\<forall>i \<in> ?dead. i < length rk"
    using n limit by (auto simp: measuring_def)
  have static: "map static_part (ranked (ms_report s)) = map static_part rk" using n(2) by (simp add: measuring_def)
  then have cands: "map candidate_of (ranked (ms_report s)) = map candidate_of rk"
    by (simp only: map_candidate_static)
  have gone: "map tr_candidate late = nths (map candidate_of rk) ?dead"
    using late(2) bound by (simp add: nths_map_sorted [OF sorted, of "map candidate_of rk", symmetric] cong: map_cong)
  have kept: "map candidate_of R = nths (map candidate_of rk) (- ?dead)"
    by (simp only: R_def nths_map [symmetric] cands)
  show ?thesis
  proof (rule that [where R = R and late = late and n = n])
    show "measureTopCandidates bind report options =
       report\<lparr>ranked := R, rejected := rejected report @ late, measurementAttempts := measurementAttempts report + n\<rparr>"
    proof -
      have parts: "ms_report s = report\<lparr>ranked := ranked (ms_report s), rejected := rejected report @ late,
          measurementAttempts := measurementAttempts report + n\<rparr>"
        using n(2) unfolding late(1) [symmetric] by (simp add: measuring_def)
      have "measureTopCandidates bind report options = (ms_report s)\<lparr>ranked := R\<rparr>"
        unfolding R_def erase_sorted [OF sorted, symmetric]
        unfolding s_def limit_def rk_def measureTopCandidates_def provider(1) option.case Let_def
        using provider(2) by (simp only: if_False)
      also have "\<dots> = report\<lparr>ranked := R, rejected := rejected report @ late,
          measurementAttempts := measurementAttempts report + n\<rparr>"
        using arg_cong [OF parts, of "\<lambda>r. r\<lparr>ranked := R\<rparr>"] by simp
      finally show ?thesis .
    qed
    show "mset (map candidate_of R) + mset (map tr_candidate late) = mset (map candidate_of (ranked report))"
      unfolding gone kept rk_def [symmetric] by (rule nths_split)
    show "subseq (map static_part R) (map static_part (ranked report))"
      unfolding R_def nths_map [symmetric] static rk_def by (auto simp: subseq_conv_nths)
    show "subseq (map tr_candidate late) (map candidate_of (ranked report))"
      unfolding gone rk_def by (auto simp: subseq_conv_nths)
    show "list_all (\<lambda>rc. \<not> invalid_measurement (tr_metrics (rc_result rc))) R"
      using n(2) by (auto simp: R_def measuring_def list_all_iff dest: in_set_nthsD)
  qed (use late n False in \<open>auto simp: rk_def limit_def split: if_splits\<close>)
qed

section \<open>The structure of a session\<close>

text \<open>An objective that names no measured metric ranks by what the analysis said.\<close>

lemma metric_of_static:
  "\<not> measured_metric name \<Longrightarrow> metric_of (static_part rc) name = metric_of (rc_result rc) name"
  by (simp add: metric_of_def resolveMetric_def named_metric_def static_part_def measured_metric_def)

lemma rank_by_static:
  "\<forall>m \<in> set ms. \<not> measured_metric (fst m) \<Longrightarrow>
     rank_by ms (static_part a) (static_part b) = rank_by ms (rc_result a) (rc_result b)"
proof (induction ms)
  case (Cons m ms)
  then show ?case by (cases m) (simp add: metric_of_static)
qed (simp add: static_part_def)

lemma rc_before_static:
  assumes "\<not> objectiveUsesMeasuredMetric obj"
  shows "rc_before obj a b \<longleftrightarrow> resultRanksBefore obj (static_part a) (static_part b)"
proof -
  have "\<forall>m \<in> set (objective_metrics obj). \<not> measured_metric (fst m)"
    using assms by (auto simp: objectiveUsesMeasuredMetric_def objective_metrics_def list_ex_iff)
  then show ?thesis by (simp add: rc_before_def resultRanksBefore_def rank_by_static)
qed

lemma best_first_static:
  "\<not> objectiveUsesMeasuredMetric obj \<Longrightarrow>
     best_first (rc_before obj) zs \<longleftrightarrow> best_first (resultRanksBefore obj) (map static_part zs)"
  by (simp add: best_first_def sorted_wrt_map rc_before_static)

lemma best_first_kept:
  assumes "\<not> objectiveUsesMeasuredMetric obj" "subseq (map static_part xs) (map static_part ys)"
    "best_first (rc_before obj) ys"
  shows "best_first (rc_before obj) xs"
  using sorted_wrt_subseq [OF assms(2)] assms(3)
  unfolding best_first_static [OF assms(1)] by (simp add: best_first_def)

definition comparable :: "search_objective \<Rightarrow> 'd ranked_candidate \<Rightarrow> bool" where
  "comparable obj rc \<longleftrightarrow> has_objective_metrics obj (tr_metrics (rc_result rc))"

definition unranked :: "'d ranked_candidate \<Rightarrow> 'd ranked_candidate" where
  "unranked rc = rc\<lparr>rc_result := (rc_result rc)\<lparr>rejectionReason := unavailable\<rparr>\<rparr>"

lemma unranked_simps [simp]:
  "candidate_of (unranked rc) = candidate_of rc" "tr_metrics (rc_result (unranked rc)) = tr_metrics (rc_result rc)"
  "tr_legal (rc_result (unranked rc)) = tr_legal (rc_result rc)"
  by (simp_all add: unranked_def candidate_of_def)

lemma split_cohort_filter:
  "split_cohort obj rcs report = report\<lparr>ranked := ranked report @ filter (comparable obj) rcs,
     unrankable := unrankable report @ map unranked (filter (\<lambda>rc. \<not> comparable obj rc) rcs),
     measuredCohortSize := measuredCohortSize report + length (filter (comparable obj) rcs)\<rparr>"
  by (induction obj rcs report rule: split_cohort.induct) (simp_all add: comparable_def unranked_def)

text \<open>The ranking before the cut to \<open>topK\<close>, from the candidates \<open>R\<close> the measurement kept.\<close>

definition final_ranking :: "search_objective \<Rightarrow> 'd ranked_candidate list \<Rightarrow> 'd ranked_candidate list" where
  "final_ranking obj R = (if objectiveUsesMeasuredMetric obj then sort_by (rc_before obj) (filter (comparable obj) R) else R)"

definition final_unrankable :: "search_objective \<Rightarrow> 'd ranked_candidate list \<Rightarrow> 'd ranked_candidate list" where
  "final_unrankable obj R = (if objectiveUsesMeasuredMetric obj then map unranked (filter (\<lambda>rc. \<not> comparable obj rc) R) else [])"

definition keep_top :: "nat \<Rightarrow> 'a list \<Rightarrow> 'a list" where
  "keep_top k xs = (if k \<noteq> 0 then take k xs else xs)"

lemma final_accounts:
  "mset (map candidate_of (final_ranking obj R)) + mset (map candidate_of (final_unrankable obj R)) = mset (map candidate_of R)"
proof (cases "objectiveUsesMeasuredMetric obj")
  case True
  have "mset (map candidate_of (filter P R)) + mset (map candidate_of (filter (\<lambda>rc. \<not> P rc) R)) = mset (map candidate_of R)" for P
    by (induction R) auto
  then show ?thesis using True by (simp add: final_ranking_def final_unrankable_def comp_def)
qed (simp add: final_ranking_def final_unrankable_def)

text \<open>The candidates as the session sees them after the evaluation, best first.\<close>

definition static_ranking ::
  "search_space \<Rightarrow> workload_shape \<Rightarrow> machine_model \<Rightarrow> ('k, 'd) bind_fun \<Rightarrow> ('k \<Rightarrow> (string, perf_report) expected) \<Rightarrow>
     candidate list \<Rightarrow> 'd ranked_candidate list" where
  "static_ranking space shape m bind analyze cs =
     sort_by (rc_before (space_objective space)) (accepted_of (verdict_on space shape m bind analyze) cs)"

lemma accepted_unmeasured:
  "list_all (\<lambda>rc. \<not> invalid_measurement (tr_metrics (rc_result rc))) (accepted_of (verdict_on space shape m bind analyze) cs)"
  by (auto simp: list_all_iff verdict_on_def ranked_as_def invalid_measurement_def metricsFrom_def no_metrics_def
      dest!: accepted_verdict split: verdict.splits sum.splits option.splits prod.splits)

lemma keep_top_conclude:
  "(if k \<noteq> 0 \<and> length (ranked report) > k then report\<lparr>ranked := take k (ranked report)\<rparr> else report) =
     report\<lparr>ranked := keep_top k (ranked report)\<rparr>"
  by (cases report) (simp add: keep_top_def)

lemma conclude_cohort:
  assumes "measureTopCandidates bind (E\<lparr>ranked := sort_by (rc_before obj) (ranked E)\<rparr>) (so_measurement options) = M"
    and "unrankable M = []" "measuredCohortSize M = 0" "\<not> measuredCohortOnly M" "\<not> hasMeasuredResult M"
  shows "conclude obj bind options E =
    M\<lparr>ranked := keep_top (topK options) (final_ranking obj (ranked M)), unrankable := final_unrankable obj (ranked M),
      measuredCohortOnly := objectiveUsesMeasuredMetric obj,
      measuredCohortSize := (if objectiveUsesMeasuredMetric obj then length (final_ranking obj (ranked M)) else 0),
      hasMeasuredResult := (objectiveUsesMeasuredMetric obj \<and> final_ranking obj (ranked M) \<noteq> [])\<rparr>"
proof -
  have "conclude obj bind options E = (let report = (if objectiveUsesMeasuredMetric obj then measured_cohort obj M else M)
      in report\<lparr>ranked := keep_top (topK options) (ranked report)\<rparr>)"
    by (simp only: conclude_def keep_top_conclude assms(1) Let_def)
  then show ?thesis using assms(2-)
    by (cases M; cases "objectiveUsesMeasuredMetric obj")
      (simp_all add: measured_cohort_def Let_def split_cohort_filter final_ranking_def final_unrankable_def)
qed

lemma session_phases:
  assumes "generateCandidates space (so_generator options) = Some cs"
    and "runTuningSession space shape m bind analyze options = Some (Inr report)"
  obtains R late n where
    "ranked report = keep_top (topK options) (final_ranking (space_objective space) R)"
    "unrankable report = final_unrankable (space_objective space) R"
    "rejected report = refused_of (verdict_on space shape m bind analyze) cs @ late"
    "generated report = length cs" "rep_objective report = space_objective space"
    "measurementAttempts report = n"
    "measuredCohortSize report = (if objectiveUsesMeasuredMetric (space_objective space)
       then length (final_ranking (space_objective space) R) else 0)"
    "hasMeasuredResult report \<longleftrightarrow> objectiveUsesMeasuredMetric (space_objective space) \<and> final_ranking (space_objective space) R \<noteq> []"
    "mset (map candidate_of R) + mset (map tr_candidate late) = mset (map candidate_of (static_ranking space shape m bind analyze cs))"
    "subseq (map static_part R) (map static_part (static_ranking space shape m bind analyze cs))"
    "subseq (map tr_candidate late) (map candidate_of (static_ranking space shape m bind analyze cs))"
    "\<forall>r \<in> set late. \<not> tr_legal r"
    "list_all (\<lambda>rc. \<not> invalid_measurement (tr_metrics (rc_result rc))) R"
    "n \<le> length (static_ranking space shape m bind analyze cs)"
    "mo_maxAttempts (so_measurement options) \<noteq> 0 \<Longrightarrow> n \<le> mo_maxAttempts (so_measurement options)"
    "mo_provider (so_measurement options) = None \<or> measureTop (so_measurement options) = 0 \<Longrightarrow>
       R = static_ranking space shape m bind analyze cs \<and> n = 0"
    "\<forall>c \<in> set cs. checkLegalityShape space c shape m \<noteq> Fault"
proof -
  let ?obj = "space_objective space" and ?verdict = "verdict_on space shape m bind analyze"
  let ?S = "static_ranking space shape m bind analyze cs"
  let ?E = "(empty_report space m options (length cs))\<lparr>ranked := accepted_of ?verdict cs, rejected := refused_of ?verdict cs\<rparr>"
  obtain E where "evaluate_all (evaluate_candidate space shape m bind analyze) cs (empty_report space m options (length cs)) = Some E"
    and report: "report = conclude ?obj bind options E"
    using assms by (auto simp: runTuningSession_def split: if_splits option.splits)
  note verdicts = evaluate_all_verdicts [OF this(1)]
  from verdicts(1) have E: "E = ?E" by (simp add: empty_report_def)
  have valid: "list_all (\<lambda>rc. \<not> invalid_measurement (tr_metrics (rc_result rc))) (ranked (?E\<lparr>ranked := ?S\<rparr>))"
    using accepted_unmeasured [of space shape m bind analyze cs] by (simp add: static_ranking_def list_all_iff)
  show ?thesis
  proof (rule measurement_phase [OF valid, where bind = bind and options = "so_measurement options"], goal_cases)
    case (1 R late n)
    let ?M = "?E\<lparr>ranked := R, rejected := refused_of ?verdict cs @ late, measurementAttempts := n\<rparr>"
    have "measureTopCandidates bind (?E\<lparr>ranked := sort_by (rc_before ?obj) (ranked ?E)\<rparr>) (so_measurement options) = ?M"
      using 1(1) by (simp add: empty_report_def static_ranking_def)
    from conclude_cohort [OF this] have result: "report = ?M\<lparr>ranked := keep_top (topK options) (final_ranking ?obj R), unrankable := final_unrankable ?obj R,
        measuredCohortOnly := objectiveUsesMeasuredMetric ?obj,
        measuredCohortSize := (if objectiveUsesMeasuredMetric ?obj then length (final_ranking ?obj R) else 0),
        hasMeasuredResult := (objectiveUsesMeasuredMetric ?obj \<and> final_ranking ?obj R \<noteq> [])\<rparr>"
      by (simp add: report E empty_report_def)
    show ?thesis
      by (rule that [where R = R and late = late and n = n])
        (use 1 verdicts(2) in \<open>simp_all add: result empty_report_def\<close>)
  qed
qed

lemma static_accounts:
  "mset (map candidate_of (static_ranking space shape m bind analyze cs)) +
     mset (map tr_candidate (refused_of (verdict_on space shape m bind analyze) cs)) = mset cs"
  using split_accounts [of "verdict_on space shape m bind analyze" cs] by (simp add: static_ranking_def)

lemma keep_top_cut: obtains cut where "keep_top k xs @ cut = xs" "cut = [] \<or> (k \<noteq> 0 \<and> length (keep_top k xs) = k)"
  by (rule that [of "if k \<noteq> 0 then drop k xs else []"]) (auto simp: keep_top_def)

text \<open>A candidate the measurement kept passed every rule.\<close>

lemma kept_legal:
  assumes "subseq (map static_part R) (map static_part (static_ranking space shape m bind analyze cs))"
    and "\<forall>c \<in> set cs. checkLegalityShape space c shape m \<noteq> Fault" and "rc \<in> set R"
  shows "tr_legal (rc_result rc) \<and> checkLegalityShape space (candidate_of rc) shape m = Legal"
proof -
  have "static_part rc \<in> static_part ` set (accepted_of (verdict_on space shape m bind analyze) cs)"
    using list_emb_set [OF assms(1), of "static_part rc"] assms(3) by (auto simp: static_ranking_def)
  then obtain c v where c: "c \<in> set cs" "verdict_on space shape m bind analyze c = Inr v" "static_part rc = static_part (ranked_as c v)"
    by (auto dest!: accepted_verdict)
  have "tr_legal (rc_result rc)" "candidate_of rc = c"
    using arg_cong [OF c(3), of tr_legal] arg_cong [OF c(3), of tr_candidate]
    by (simp_all add: static_part_def ranked_as_def candidate_of_def)
  moreover have "checkLegalityShape space c shape m = Legal"
    using c(1,2) assms(2) by (auto simp: verdict_on_def split: verdict.splits)
  ultimately show ?thesis by simp
qed

lemma set_final:
  "rc \<in> set (final_ranking obj R) \<Longrightarrow> rc \<in> set R"
  "rc \<in> set (final_unrankable obj R) \<Longrightarrow> \<exists>rc' \<in> set R. rc = unranked rc'"
  by (auto simp: final_ranking_def final_unrankable_def split: if_splits)

lemma final_best_first:
  assumes "subseq (map static_part R) (map static_part (static_ranking space shape m bind analyze cs))"
  shows "best_first (rc_before (space_objective space)) (final_ranking (space_objective space) R)"
  using best_first_kept [OF _ assms [unfolded static_ranking_def] ranked_best_first] ranked_best_first
  by (auto simp: final_ranking_def)

lemma valid_measurement:
  assumes "\<not> invalid_measurement metrics"
  shows "case measuredNs metrics of Some v \<Rightarrow> is_finite v \<and> double_less (Finite 0) v | None \<Rightarrow> True"
    and "case measuredGflops metrics of Some v \<Rightarrow> is_finite v \<and> \<not> double_less v (Finite 0) | None \<Rightarrow> True"
  using assms double_compared [of "the (measuredNs metrics)" "Finite 0"]
  by (auto simp: invalid_measurement_def double_le_def split: option.splits)

lemma set_keep_top: "set (keep_top k xs) \<subseteq> set xs"
  by (auto simp: keep_top_def dest: in_set_takeD)

lemma final_cohort:
  assumes "ranked report = keep_top k (final_ranking obj R)" "unrankable report = final_unrankable obj R"
    and "measuredCohortSize report = (if objectiveUsesMeasuredMetric obj then length (final_ranking obj R) else 0)"
    and "hasMeasuredResult report \<longleftrightarrow> objectiveUsesMeasuredMetric obj \<and> final_ranking obj R \<noteq> []"
  shows "if objectiveUsesMeasuredMetric obj
      then (\<forall>rc \<in> set (ranked report). has_objective_metrics obj (tr_metrics (rc_result rc))) \<and>
        (\<forall>rc \<in> set (unrankable report). \<not> has_objective_metrics obj (tr_metrics (rc_result rc))) \<and>
        length (ranked report) = (if k = 0 then measuredCohortSize report else min k (measuredCohortSize report)) \<and>
        (hasMeasuredResult report \<longleftrightarrow> ranked report \<noteq> [])
      else unrankable report = [] \<and> \<not> hasMeasuredResult report"
proof (cases "objectiveUsesMeasuredMetric obj")
  case True
  have "\<forall>rc \<in> set (final_ranking obj R). comparable obj rc" "\<forall>rc \<in> set (final_unrankable obj R). \<not> comparable obj rc"
    using True by (auto simp: final_ranking_def final_unrankable_def comparable_def)
  moreover have "length (keep_top k xs) = (if k = 0 then length xs else min k (length xs))"
    "keep_top k xs = [] \<longleftrightarrow> xs = []" for xs :: "'c list"
    by (auto simp: keep_top_def)
  ultimately show ?thesis using True set_keep_top [of k "final_ranking obj R"] assms
    by (auto simp: comparable_def)
qed (use assms in \<open>simp add: final_unrankable_def\<close>)

text \<open>A session whose options are accepted returns a report unless a rule faults.\<close>

lemma session_returns:
  assumes "so_perfLevel options \<le> 1" "validateObjective (space_objective space) = None"
    and "objectiveUsesMeasuredMetric (space_objective space) \<Longrightarrow> mo_provider (so_measurement options) \<noteq> None"
    and "generateCandidates space (so_generator options) = Some cs"
    and "\<forall>c \<in> set cs. checkLegalityShape space c shape m \<noteq> Fault"
  shows "\<exists>report. runTuningSession space shape m bind analyze options = Some (Inr report)"
proof -
  have "\<exists>r. evaluate_candidate space shape m bind analyze c report = Some r" if "c \<in> set cs" for c report
    using that assms(5)
    by (auto simp: evaluate_candidate_def split: verdict.splits sum.splits prod.splits)
  then have "\<exists>r. evaluate_all (evaluate_candidate space shape m bind analyze) cs' report = Some r" if "set cs' \<subseteq> set cs" for cs' report
    using that
  proof (induction cs' arbitrary: report)
    case (Cons c cs')
    then obtain r where "evaluate_candidate space shape m bind analyze c report = Some r" by fastforce
    then show ?case using Cons by simp
  qed simp
  then obtain r where "evaluate_all (evaluate_candidate space shape m bind analyze) cs (empty_report space m options (length cs)) = Some r"
    by blast
  then show ?thesis using assms by (simp add: runTuningSession_def)
qed

section \<open>A worked study\<close>

text \<open>Three tiles, of which one does not bind; the larger of the others is predicted to be faster.\<close>

definition study_space :: "string \<Rightarrow> search_space" where
  "study_space metric = \<lparr>space_name = ''study'', space_workload = ''matmul'', params =
     [\<lparr>param_name = ''BM'', param_kind = ''integer'', param_choices = [IntegerChoice 16, IntegerChoice 64, IntegerChoice 32],
       param_role = []\<rparr>],
     constraints = [], space_objective = \<lparr>obj_direction = Minimize, primaryMetric = metric, secondaryMetrics = []\<rparr>,
     singleton = False\<rparr>"

definition study_shape :: workload_shape where
  "study_shape = \<lparr>ws_M = 64, ws_N = 64, ws_K = 64, inputDType = ''f32'', weightDType = ''f32'', accumulatorDType = ''f32'',
     outputDType = ''f32''\<rparr>"

definition study_bind :: "(int, int) bind_fun" where
  "study_bind c = (case cand_integer c ''BM'' of
       Some n \<Rightarrow> if n = 64 then Inl ''tile exceeds the kernel'' else Inr (n, n)
     | None \<Rightarrow> Inl ''no tile'')"

definition study_analysis :: "int \<Rightarrow> (string, perf_report) expected" where
  "study_analysis n = Inr \<lparr>l0 = \<lparr>l0_predictedCycles = nat (1024 div n), l0_bottleneck = ''compute'', totalBytesDram = 0,
     totalBytesSram = 0\<rparr>, l1 = None\<rparr>"

definition study_options :: "int provider option \<Rightarrow> nat \<Rightarrow> int session_options" where
  "study_options provider k = \<lparr>so_generator = \<lparr>gen_mode = GridMode, gen_seed = 0, gen_max = None\<rparr>, so_perfLevel = 0, topK = k,
     so_machinePath = [], so_measurement = \<lparr>mo_provider = provider, measureTop = 2, mo_maxAttempts = 0, targetIdentity = [],
       machineIdentity = [], abiIdentity = [], codegenIdentity = []\<rparr>\<rparr>"

definition study_candidate :: "int \<Rightarrow> candidate" where
  "study_candidate n = bindChoices (params (study_space [])) [IntegerChoice n]"

lemma study_generated:
  "generateCandidates (study_space metric) (so_generator (study_options provider k)) =
     Some [study_candidate 16, study_candidate 64, study_candidate 32]"
proof -
  have "grid_loop (study_space metric) uint64_max [0] [] =
      Some (take uint64_max (map (buildCandidate (study_space metric)) [[0], [1], [2]]))"
    using grid_loop_linked [of "study_space metric" "[0]" "[[1], [2]]" uint64_max "[]"]
    by (simp add: linked_def study_space_def)
  then show ?thesis
    by (simp add: generateCandidates_def study_options_def generateGridCandidates_def domainSize_def study_space_def
        buildCandidate_bind choices_at_def study_candidate_def uint64_max_def)
qed

lemma study_legal: "checkLegalityShape (study_space metric) c shape m = Legal"
  by (simp add: study_space_def checkLegalityShape_def checkLegality_def)

section \<open>Properties\<close>

text \<open>C12: a tuning session accounts for every candidate, best first. When a session over the candidates
  \<open>cs\<close> returns a report, each candidate is, with its multiplicity, in exactly one of the ranking, the
  part of the ranking cut off behind the first \<open>topK\<close>, the unrankable ones and the rejected ones; no
  candidate of the ranking or of the part cut off ranks before one placed ahead of it; and what is
  ranked or unrankable passed every constraint, what is rejected is not marked legal.\<close>

theorem session_accounts:
  assumes "generateCandidates space (so_generator options) = Some cs"
    and "runTuningSession space shape m bind analyze options = Some (Inr report)"
  shows "\<exists>cut. mset (map candidate_of (ranked report @ cut @ unrankable report)) + mset (map tr_candidate (rejected report)) = mset cs \<and>
      generated report = length cs \<and>
      (cut = [] \<or> (topK options \<noteq> 0 \<and> length (ranked report) = topK options)) \<and>
      best_first (\<lambda>a b. resultRanksBefore (space_objective space) (rc_result a) (rc_result b)) (ranked report @ cut) \<and>
      (\<forall>rc \<in> set (ranked report @ cut @ unrankable report).
         tr_legal (rc_result rc) \<and> checkLegalityShape space (candidate_of rc) shape m = Legal) \<and>
      (\<forall>r \<in> set (rejected report). \<not> tr_legal r)"
proof (rule session_phases [OF assms], goal_cases)
  case (1 R late n)
  let ?obj = "space_objective space"
  obtain cut where cut: "ranked report @ cut = final_ranking ?obj R"
      "cut = [] \<or> (topK options \<noteq> 0 \<and> length (ranked report) = topK options)"
    using keep_top_cut [of "topK options" "final_ranking ?obj R"] 1(1) by metis
  have all: "ranked report @ cut @ unrankable report = final_ranking ?obj R @ final_unrankable ?obj R"
    using cut(1) 1(2) by (metis append_assoc)
  have legal: "tr_legal (rc_result rc) \<and> checkLegalityShape space (candidate_of rc) shape m = Legal"
    if "rc \<in> set (final_ranking ?obj R @ final_unrankable ?obj R)" for rc
    using that kept_legal [OF 1(10,17)] by (auto dest!: set_final)
  have "mset (map candidate_of (final_ranking ?obj R @ final_unrankable ?obj R)) + mset (map tr_candidate (rejected report)) = mset cs"
    using final_accounts [of ?obj R] 1(9) static_accounts [of space shape m bind analyze cs]
    by (simp add: 1(3) add.assoc add.commute add.left_commute) (metis add.assoc add.commute)
  then show ?case
    using cut final_best_first [OF 1(10)] legal 1(4,12) refused_illegal [of _ "verdict_on space shape m bind analyze" cs]
    unfolding all by (intro exI [of _ cut]) (auto simp: rc_before_def [abs_def] 1(3) all [symmetric])
qed

text \<open>C28: what a session claims about measurements. A report ranks by a measured metric only candidates that have a
  finite value for every metric of the objective, whose measured time is positive and whose rate is not
  negative, and the unrankable ones lack such a value; no other objective makes a candidate unrankable.
  The size of the measured cohort and the flag that there is a measured result agree with the ranking,
  and the attempts stay within the ranked candidates and \<open>maxAttempts\<close>.\<close>

theorem session_measurements:
  assumes "generateCandidates space (so_generator options) = Some cs"
    and "runTuningSession space shape m bind analyze options = Some (Inr report)"
  shows "(\<forall>rc \<in> set (ranked report @ unrankable report).
        case measuredNs (tr_metrics (rc_result rc)) of Some v \<Rightarrow> is_finite v \<and> double_less (Finite 0) v | None \<Rightarrow> True) \<and>
      (\<forall>rc \<in> set (ranked report @ unrankable report).
        case measuredGflops (tr_metrics (rc_result rc)) of Some v \<Rightarrow> is_finite v \<and> \<not> double_less v (Finite 0) | None \<Rightarrow> True) \<and>
      (if objectiveUsesMeasuredMetric (space_objective space)
       then (\<forall>rc \<in> set (ranked report). has_objective_metrics (space_objective space) (tr_metrics (rc_result rc))) \<and>
         (\<forall>rc \<in> set (unrankable report). \<not> has_objective_metrics (space_objective space) (tr_metrics (rc_result rc))) \<and>
         length (ranked report) = (if topK options = 0 then measuredCohortSize report else min (topK options) (measuredCohortSize report)) \<and>
         (hasMeasuredResult report \<longleftrightarrow> ranked report \<noteq> [])
       else unrankable report = [] \<and> \<not> hasMeasuredResult report) \<and>
      measurementAttempts report \<le> length cs \<and>
      (mo_maxAttempts (so_measurement options) = 0 \<or> measurementAttempts report \<le> mo_maxAttempts (so_measurement options)) \<and>
      (mo_provider (so_measurement options) \<noteq> None \<or> measurementAttempts report = 0)"
proof (rule session_phases [OF assms], goal_cases)
  case (1 R late n)
  let ?obj = "space_objective space"
  have valid: "\<not> invalid_measurement (tr_metrics (rc_result rc))" if "rc \<in> set (ranked report @ unrankable report)" for rc
    using that 1(13) unfolding 1(1,2) by (auto simp: list_all_iff dest!: set_final set_keep_top [THEN subsetD])
  have bound: "length (static_ranking space shape m bind analyze cs) \<le> length cs"
    using arg_cong [OF static_accounts [of space shape m bind analyze cs], of size] by simp
  have attempts: "measurementAttempts report \<le> length cs"
    "mo_maxAttempts (so_measurement options) = 0 \<or> measurementAttempts report \<le> mo_maxAttempts (so_measurement options)"
    using 1(6,14,15) bound by auto
  have untried: "mo_provider (so_measurement options) \<noteq> None \<or> measurementAttempts report = 0"
    using 1(6,16) by (cases "mo_provider (so_measurement options)") simp_all
  show ?case
    using final_cohort [OF 1(1,2,7,8)] attempts untried by (intro conjI ballI valid_measurement valid)
qed

text \<open>C34: the order of the rejections. The rejections of a report are those of the rules, the binding and the
  analysis, in the order in which the candidates were generated, followed by those of the measurement in the order of the
  static ranking, best first, so a report is in generation order only as long as the measurement
  rejects nothing.\<close>

theorem session_rejections:
  assumes "generateCandidates space (so_generator options) = Some cs"
    and "runTuningSession space shape m bind analyze options = Some (Inr report)"
  shows "\<exists>late :: tuning_result list. map tr_candidate (rejected report) =
        filter (\<lambda>c. case verdict_on space shape m bind analyze c of Inl _ \<Rightarrow> True | Inr _ \<Rightarrow> False) cs @ map tr_candidate late \<and>
      subseq (map tr_candidate late) (map candidate_of (static_ranking space shape m bind analyze cs)) \<and>
      (mo_provider (so_measurement options) \<noteq> None \<or> late = [])"
proof (rule session_phases [OF assms], goal_cases)
  case (1 R late n)
  have "late = []" if "mo_provider (so_measurement options) = None"
    using 1(9) 1(16) that by auto
  then show ?case using 1(11) by (intro exI [of _ late]) (auto simp: 1(3) refused_filter)
qed

section \<open>The study\<close>

definition failing :: "int provider" where
  "failing attempt n result = Inl ''compilation failed''"

definition timing :: "int provider" where
  "timing attempt n result = Inr (if n = 16 then Some (no_metrics\<lparr>measuredNs := Some (Finite 5)\<rparr>) else None)"


lemma study_tile: "cand_integer (study_candidate n) ''BM'' = Some n"
  by (simp add: study_candidate_def study_space_def bindChoices_def emplace_all_def emplace_choice_def empty_candidate_def
      cand_integer_def Let_def)

lemma study_verdict:
  "verdict_on (study_space metric) study_shape sample_machine study_bind study_analysis (study_candidate n) =
     (if n = 64 then Inl ''binding: tile exceeds the kernel''
      else Inr (n, no_metrics\<lparr>cm_predictedCycles := nat (1024 div n), cm_bottleneck := ''compute''\<rparr>))"
  by (simp add: verdict_on_def study_legal study_bind_def study_tile study_analysis_def metricsFrom_def nanoseconds_def
      sample_machine_def no_metrics_def)

lemma study_latency:
  "metric_of (rc_result (ranked_as c (d, no_metrics\<lparr>cm_predictedCycles := k, cm_bottleneck := s\<rparr>))) ''latency_cycles'' =
     Some (double_of_nat k)"
  by (simp add: metric_of_def resolveMetric_def named_metric_def ranked_as_def double_of_nat_def)

lemma study_static:
  "sort_by (rc_before (space_objective (study_space ''latency_cycles'')))
      (accepted_of (verdict_on (study_space ''latency_cycles'') study_shape sample_machine study_bind study_analysis)
         [study_candidate 16, study_candidate 64, study_candidate 32]) =
    map (\<lambda>n. ranked_as (study_candidate n) (n, no_metrics\<lparr>cm_predictedCycles := nat (1024 div n), cm_bottleneck := ''compute''\<rparr>)) [32, 16]"
proof -
  have objective: "objective_metrics (space_objective (study_space ''latency_cycles'')) = [(''latency_cycles'', True)]"
    by (simp add: objective_metrics_def study_space_def)
  show ?thesis
    by (simp add: study_verdict sort_by_def rc_before_def resultRanksBefore_def objective study_latency
        compare_option_def compare_values_def double_of_nat_def round53_exact double_less_def double_eq_def)
qed

lemma study_evaluated:
  "evaluate_all (evaluate_candidate (study_space metric) study_shape sample_machine study_bind study_analysis)
      [study_candidate 16, study_candidate 64, study_candidate 32] report =
    Some (report\<lparr>ranked := ranked report @ map (\<lambda>n. ranked_as (study_candidate n)
        (n, no_metrics\<lparr>cm_predictedCycles := nat (1024 div n), cm_bottleneck := ''compute''\<rparr>)) [16, 32],
      rejected := rejected report @ [rejected_as (study_candidate 64) no_metrics ''binding: tile exceeds the kernel'']\<rparr>)"
proof -
  obtain r where r: "evaluate_all (evaluate_candidate (study_space metric) study_shape sample_machine study_bind study_analysis)
      [study_candidate 16, study_candidate 64, study_candidate 32] report = Some r"
    by (simp add: evaluate_candidate_def study_legal study_bind_def study_tile study_analysis_def)
  show ?thesis using evaluate_all_verdicts(1) [OF r] unfolding r by (simp add: study_verdict)
qed

definition study_evaluation :: "string \<Rightarrow> int session_options \<Rightarrow> int session_report" where
  "study_evaluation metric options = (empty_report (study_space metric) sample_machine options 3)
     \<lparr>ranked := map (\<lambda>n. ranked_as (study_candidate n)
        (n, no_metrics\<lparr>cm_predictedCycles := nat (1024 div n), cm_bottleneck := ''compute''\<rparr>)) [16, 32],
      rejected := [rejected_as (study_candidate 64) no_metrics ''binding: tile exceeds the kernel'']\<rparr>"

definition study_report :: "string \<Rightarrow> int provider option \<Rightarrow> nat \<Rightarrow> int session_report" where
  "study_report metric provider k = conclude (space_objective (study_space metric)) study_bind (study_options provider k)
     (study_evaluation metric (study_options provider k))"

lemma study_run:
  assumes "isKnownMetric metric" "\<not> measured_metric metric \<or> provider \<noteq> None"
  shows "runTuningSession (study_space metric) study_shape sample_machine study_bind study_analysis (study_options provider k) =
    Some (Inr (study_report metric provider k))"
proof -
  have accepted: "validateObjective (space_objective (study_space metric)) = None" "\<not> so_perfLevel (study_options provider k) > 1"
    "\<not> (objectiveUsesMeasuredMetric (space_objective (study_space metric)) \<and> mo_provider (so_measurement (study_options provider k)) = None)"
    using assms by (simp_all add: study_space_def study_options_def objectiveUsesMeasuredMetric_def validateObjective_def check_metric_def)
  show ?thesis
    unfolding runTuningSession_def accepted(1) option.case study_generated study_evaluated option.map
    by (simp only: accepted(2,3) if_False) (simp add: study_report_def study_evaluation_def empty_report_def numeral_3_eq_3)
qed

lemma study_failing:
  "map tr_candidate (rejected (study_report ''latency_cycles'' (Some failing) 10)) = map study_candidate [64, 32, 16]"
proof -
  let ?obj = "space_objective (study_space ''latency_cycles'')"
  have "\<not> objectiveUsesMeasuredMetric ?obj"
    by (simp add: study_space_def objectiveUsesMeasuredMetric_def measured_metric_def)
  moreover have "sort_by (rc_before ?obj) (ranked (study_evaluation ''latency_cycles'' options)) =
      map (\<lambda>n. ranked_as (study_candidate n) (n, no_metrics\<lparr>cm_predictedCycles := nat (1024 div n), cm_bottleneck := ''compute''\<rparr>)) [32, 16]"
    for options
    using study_static by (simp add: study_verdict study_evaluation_def)
  moreover have "tr_candidate (rc_result (ranked_as c v)) = c" for c and v :: "int \<times> candidate_metrics"
    by (simp add: ranked_as_def)
  ultimately show ?thesis
    unfolding study_report_def conclude_def keep_top_conclude
    by (simp add: Let_def measureTopCandidates_def study_options_def study_evaluation_def empty_report_def
        measure_one_def reject_at_def reject_def study_bind_def study_tile failing_def)
qed

lemma study_metrics:
  "isKnownMetric ''latency_cycles''" "isKnownMetric ''measured_ns''" "\<not> measured_metric ''latency_cycles''"
  "objectiveUsesMeasuredMetric (space_objective (study_space ''measured_ns''))"
  by (simp_all add: isKnownMetric_def measured_metric_def objectiveUsesMeasuredMetric_def study_space_def)

lemma session_accounts_witness:
  "\<exists>cut. mset (map candidate_of (ranked (study_report ''latency_cycles'' None 1) @ cut @
        unrankable (study_report ''latency_cycles'' None 1))) +
      mset (map tr_candidate (rejected (study_report ''latency_cycles'' None 1))) = mset (map study_candidate [16, 64, 32]) \<and>
    generated (study_report ''latency_cycles'' None 1) = 3 \<and>
    best_first (\<lambda>a b. resultRanksBefore (space_objective (study_space ''latency_cycles'')) (rc_result a) (rc_result b))
      (ranked (study_report ''latency_cycles'' None 1) @ cut)"
  using session_accounts [OF study_generated study_run, of "''latency_cycles''" None 1] by (auto simp: study_metrics)

lemma session_measurements_witness:
  "length (ranked (study_report ''measured_ns'' (Some timing) 0)) = measuredCohortSize (study_report ''measured_ns'' (Some timing) 0) \<and>
   (hasMeasuredResult (study_report ''measured_ns'' (Some timing) 0) \<longleftrightarrow> ranked (study_report ''measured_ns'' (Some timing) 0) \<noteq> []) \<and>
   measurementAttempts (study_report ''measured_ns'' (Some timing) 0) \<le> 3"
  using session_measurements [OF study_generated study_run, of "''measured_ns''" "Some timing" 0]
  by (simp add: study_metrics) (simp add: study_options_def)

lemma session_rejections_witness:
  "\<exists>late :: tuning_result list. map study_candidate [64, 32, 16] = study_candidate 64 # map tr_candidate late \<and>
     subseq (map tr_candidate late) (map candidate_of (static_ranking (study_space ''latency_cycles'') study_shape sample_machine
       study_bind study_analysis (map study_candidate [16, 64, 32])))"
  using session_rejections [OF study_generated study_run, of "''latency_cycles''" "Some failing" 10]
  by (simp add: study_metrics study_failing study_verdict) (elim exE conjE, intro exI conjI)

end
