(* ===== verification/Spec2Isabelle.thy ===== *)
theory Spec2Isabelle
  imports Prelude Shape MicroEnums Hash Machine LlkMapExpr LlkMapLex LlkMapParse ThreadPoolRt PoolBarrier
    CostModel Binary64 Routing Worklist EventSchedule StorageLiveness WorkloadGraph StorageReuse PlanSteps
    Invocation Variants KernelCache WeightPacking CoveringCorrect LegalityCorrect TuningCorrect
begin

text \<open>
  A verification development for the LLK DSL compiler (\<^verbatim>\<open>src/\<close>), for the parts that decide how a kernel is
  mapped to a machine and that run the mapped kernel.

  \<^bold>\<open>The program.\<close> A kernel in the LLK or Triton dialect is described by a workload graph. The mapping core
  covers the graph with rules, places the work on the nodes of a machine model, routes values between
  memories and scores the result. Two small languages steer it: the rules of LLKMap
  (\<^verbatim>\<open>lib/Mapping/LlkMap.cpp\<close>), evaluated over the machine model (\<^verbatim>\<open>lib/Machine/MachineModel.cpp\<close>), and the
  shape contracts of a kernel (\<^verbatim>\<open>lib/Shape/ShapeContract.cpp\<close>). Every candidate is scored by one scheduler of
  normalized events (\<^verbatim>\<open>lib/Mapping/EventSchedule.cpp\<close>) and ranked by one cost model
  (\<^verbatim>\<open>lib/Mapping/CostModel.cpp\<close>). Artifacts are identified by digests of canonical strings
  (\<^verbatim>\<open>lib/Mapping/StableHash.cpp\<close>). At run time a call is checked against the ABI of the kernel
  (\<^verbatim>\<open>runtime/MappedInvocation.cpp\<close>), dispatched to a guarded variant
  (\<^verbatim>\<open>runtime/CompiledVariantIdentity.cpp\<close>), served from a cache of compiled code
  (\<^verbatim>\<open>runtime/JitCache.cpp\<close>), and its tiles are distributed over a pool of worker threads
  (\<^verbatim>\<open>runtime/ThreadPool.cpp\<close>).

  \<^bold>\<open>Theories.\<close>
  \<^item> \<open>Prelude\<close>: results with errors, ordered string maps, decimal printing, 64-bit arithmetic with the wrap-around
    written out, and the lemmas on them that the components share.
  \<^item> \<open>Shape\<close>: shape contracts, their validation, binding of extents, classification, canonical strings.
  \<^item> \<open>MicroEnums\<close>: the enumerations of the Micro dialect with their spellings.
  \<^item> \<open>Hash\<close>: FNV-1a over bytes, the digests and the hexadecimal ids.
  \<^item> \<open>Machine\<close>: the nodes of a machine model, its queries, its verification and its content hash.
  \<^item> \<open>LlkMapExpr\<close>, \<open>LlkMapLex\<close>, \<open>LlkMapParse\<close>: expressions of LLKMap with their printer, vocabulary check and
    evaluator under a step budget; the tokenizer; the parser of expressions and domains.
  \<^item> \<open>CostModel\<close>, \<open>Binary64\<close>: costs, binary64 arithmetic, objectives, ranking, bounds, aggregation, conversion costs.
  \<^item> \<open>Routing\<close>: the enumeration of routes between memories (\<^verbatim>\<open>lib/Mapping/Routing.cpp\<close>).
  \<^item> \<open>Worklist\<close>, \<open>EventSchedule\<close>: the traversal in dependency order, and the scheduler, the traffic summary and the
    strict check that use it.
  \<^item> \<open>StorageLiveness\<close>: windows of storage from scheduled uses, peaks per memory, and the edges that reuse needs.
  \<^item> \<open>WorkloadGraph\<close>: the graph of the work of a kernel (\<^verbatim>\<open>lib/Mapping/WorkloadGraph.cpp\<close>), its canonical ids and
    text, and how often a node runs. \<open>StorageReuse\<close>, \<open>PlanSteps\<close>: the parts of the storage plan
    (\<^verbatim>\<open>lib/Mapping/StoragePlan.cpp\<close>) that share buffers between allocations, summarize their bytes over the steps,
    and number the steps of a plan with their dependency edges.
  \<^item> \<open>Diagnostics\<close>, \<open>CoveringSearch\<close>, \<open>CoveringCorrect\<close>: the diagnostic codes, the search for complete plans
    (\<^verbatim>\<open>lib/Mapping/CoveringSearch.cpp\<close>) with its storage charges, connection decisions, three modes, completion
    evaluator and caps, and its properties with a worked example.
  \<^item> \<open>Candidates\<close>, \<open>Legality\<close>, \<open>LegalityCorrect\<close>: the search space of the tuner with its loader, the ids of its
    candidates, the grid and the random studies (\<^verbatim>\<open>lib/Perf/SearchSpace.cpp\<close>, \<^verbatim>\<open>Candidate.cpp\<close>,
    \<^verbatim>\<open>CandidateGenerator.cpp\<close>), and the rules of \<^verbatim>\<open>Legality.cpp\<close> with what they decide.
  \<^item> \<open>Tuning\<close>, \<open>TuningCorrect\<close>: a tuning session (\<^verbatim>\<open>lib/Perf/TuningSession.cpp\<close>) over the candidates: the metrics
    of an objective, the evaluation with binding and analysis as parameters, the ranking, the measurement
    of the best candidates with its caps, the measured cohort and the cut to the best ones.
  \<^item> \<open>ThreadPoolRt\<close>, \<open>PoolBarrier\<close>: the worker pool as program counters over the shared state, one step per
    locked region or atomic operation, and the barrier of the same file.

  \<^item> \<open>Invocation\<close>: the ABI of a kernel, its validation and hash, and the checks on the buffers of a call.
  \<^item> \<open>Variants\<close>: identities of compiled variants, sets of guarded variants and their dispatch.
  \<^item> \<open>KernelCache\<close>, \<open>WeightPacking\<close>: the levels of the cache of compiled kernels with their keys, and the packing of
    weight matrices.

  \<^bold>\<open>Interfaces.\<close> The ordered map of the prelude, the comparison by metrics (\<open>ranking\<close> in \<open>CostModel\<close>) and the
  container of ready events (\<open>worklist\<close> in \<open>Worklist\<close>) are locales; each is interpreted on the definitions of
  the code: the metrics of an objective, the binary heap of the scheduler (which the ordered set of ready nodes of
  the storage plan shares) and the stack of the strict check.
  Encodings that can be taken apart in one way only are the locales \<open>prefix_code\<close> (texts) and \<open>wire_code\<close>
  (bytes of typed fields), interpreted on every rendering whose injectivity is claimed.

  \<^bold>\<open>What is shown.\<close> Contracts: validation, binding and canonical strings are exact. Machine models: what
  verification guarantees, that containment is decided also on cyclic input, that hashes do not depend on
  declaration order. LLKMap: parsing a printed expression gives it back exactly when it has no member access directly
  behind an identifier, and otherwise the expression with such accesses fused into dotted names, which is a finding;
  the parser always advances and never gets stuck; the
  evaluator refines a denotational meaning and needs only a bounded number of steps; a validated expression uses
  known names only. Costs: ranking is a strict total order and the optimistic bound is admissible. Schedules:
  dependencies and widths are respected, the prediction is attained and bounded, the strict check is exact.
  Storage: the peak of a memory is the maximum over all times of what it holds, and the reported edges keep
  allocations that share storage apart. The reuse pass ends, lets two allocations share a buffer only when one ends in
  an earlier step than the other begins or when they meet in an update in place, and decides what the check of the
  peak accepts. The numbering of the plan steps follows the edges derived from connections, those to nodes that read a
  carried value excepted, which is a finding; the edges that reuse adds afterwards are not covered by this. Graphs:
  canonical ids do not depend on the order of construction, and multiplicities are exact.
  Search: every returned plan is an exact cover of the graph; an exact search without a cap on its plans proposes every
  exact cover of which it refuses no placement, and returns it unless the completion evaluator declines it; the
  deterministic mode takes the first of them, the top plans are the best, a cap on connections keeps a prefix of the product and
  is reported, every mode returns; the beam never keeps a fused instance, which is a finding.
  Tuning: the grid is the cartesian product of the choices, a random study draws from it without repetition, and
  a candidate within stated bounds, which loading and verification do not check, is legal exactly when its constraints
  hold in unbounded arithmetic. Where a check of a verified machine reads past the end of a fragment is characterised
  exactly, and so is the capacity rule with its wrapping byte counts; both are findings.
  Routes: every route returned is legal, every legal route is returned unless a truncation is reported, and the
  order is best first. Calls: accesses of an accepted call stay inside the allocations, outputs are disjoint from
  everything else, extents agree with the symbols. Variants: dispatch agrees with the classification of guards.
  Cache: a level refines a list in order of use, recent entries survive, keys are never confused.
  Workers: every tile runs exactly once, no wakeup is lost, every call returns; the barrier serves one use only.

  \<^bold>\<open>Bounds and fuel.\<close> The evaluator counts steps against the code's own limit; the scheduler's loops take one
  step per event and \<open>traverse_stops\<close> shows that no event stays ready after them; the parser's recursion takes
  fuel equal to the number of tokens, which \<open>parser_terminates\<close> shows to be enough. The tile counter is
  assumed not to wrap (\<open>fits\<close>), as it advances by the grain once for each thread beyond the total; sums of
  cycles are assumed to fit in 64 bits (\<open>cycles_fit\<close>), otherwise they wrap in the model as in the code. The search
  for routes ends because every queued path grows up to the cap on hops (\<open>search_routes\<close> has a termination proof).
  The walk of the covering search takes a depth of one more than the nodes, which \<open>search_returns\<close> shows to be enough
  when every candidate covers a node.
  The grid has no fuel: \<open>grid_enumerates\<close> shows that its loop returns. The legality rules are exact for candidates
  that are \<open>tame\<close>, with tile extents up to \<open>2 ^ 20\<close> and at most \<open>2 ^ 16\<close> pipeline stages, so that no byte count wraps,
  on verified machines with fragments of rank three (\<open>rank3_fragments\<close>) whose volumes fit in 64 bits (\<open>volumes_fit\<close>) and
  with fewer than \<open>2 ^ 32\<close> concurrent executors in all (\<open>owners_fit\<close>). A volume that overflows and the front of an engine
  without fragments are undefined in the code and faults of the model.
  Pointers of a call are numbers below \<open>2 ^ 64\<close> (\<open>buffer_typed\<close>); the statistics of the cache wrap.

  \<^bold>\<open>Not modelled.\<close> Passes and verifiers over MLIR operations, loaders of YAML and JSON, object loading, and
  the command-line tools: their effect is on structures of other libraries. Lowering and code generation behind
  the cache are a parameter. The footprints of values, which go through affine maps of MLIR, and the allocations built from placements are not
  modelled. The covering search starts from tables of placed candidates: matching rules, placing candidates and
  enumerating the routes of one decision are parameters of it. Binding a tuning candidate to a kernel builds MLIR
  operations.
\<close>

end
